(* ===== verification/Prelude.thy ===== *)
theory Prelude
  imports Main "HOL-Library.Word"
begin

unbundle bit_operations_syntax

text \<open>
  Shared vocabulary of the development: the machine integer types of the C sources, the
  result type of C functions that mutate an object, and the byte-order lemmas that the
  protobuf and the ASN.1 components have in common.

  A C function that takes a pointer to an object, mutates it and returns a success flag is
  modelled by a function from the object to an \<open>outcome\<close>:
  \<^item> \<open>Ok v s\<close>: the function returned true (or 1), left the object in state \<open>s\<close> and stored
    \<open>v\<close> through its out-parameters;
  \<^item> \<open>Fail s\<close>: the function returned false (or 0) and left the object in state \<open>s\<close>;
  \<^item> \<open>Fault\<close>: the function performed an access outside the object it was given (undefined
    behaviour in C) or an \<open>assert\<close> of the source failed.  No other branch of the source is written as
    \<open>Fault\<close>, so that memory safety and the assertions are theorems and not assumptions.
\<close>

section \<open>Machine integers\<close>

type_synonym byte = "8 word"
type_synonym u16 = "16 word"
type_synonym u32 = "32 word"
type_synonym u64 = "64 word"
type_synonym size_t = "64 word"

named_theorems word_to_nat \<open>reading words as natural numbers\<close>
named_theorems outcome_simps \<open>unfolding the outcome monad\<close>

section \<open>Outcomes of C functions\<close>

datatype ('a, 's) outcome = Fault | Fail 's | Ok 'a 's

fun obind :: "('a, 's) outcome \<Rightarrow> ('a \<Rightarrow> 's \<Rightarrow> ('b, 's) outcome) \<Rightarrow> ('b, 's) outcome" where
  "obind Fault f = Fault"
| "obind (Fail s) f = Fail s"
| "obind (Ok a s) f = f a s"

declare obind.simps [outcome_simps]

lemma obind_cong [fundef_cong]:
  "m = m' \<Longrightarrow> (\<And>a s. m' = Ok a s \<Longrightarrow> f a s = g a s) \<Longrightarrow> obind m f = obind m' g"
  by (cases m') auto

lemma obind_eq_Ok [simp]:
  "obind m f = Ok b t \<longleftrightarrow> (\<exists>a s. m = Ok a s \<and> f a s = Ok b t)"
  by (cases m) auto

lemma obind_eq_Fail:
  "obind m f = Fail t \<longleftrightarrow> m = Fail t \<or> (\<exists>a s. m = Ok a s \<and> f a s = Fail t)"
  by (cases m) auto

lemma obind_neq_Fault:
  "obind m f \<noteq> Fault \<longleftrightarrow> m \<noteq> Fault \<and> (\<forall>a s. m = Ok a s \<longrightarrow> f a s \<noteq> Fault)"
  by (cases m) auto

lemma obind_assoc: "obind (obind m f) g = obind m (\<lambda>a s. obind (f a s) g)"
  by (cases m) auto

text \<open>The state an outcome leaves behind, when there is one.\<close>

fun final_state :: "('a, 's) outcome \<Rightarrow> 's option" where
  "final_state Fault = None"
| "final_state (Fail s) = Some s"
| "final_state (Ok _ s) = Some s"

lemma final_state_eq_None [simp]: "final_state m = None \<longleftrightarrow> m = Fault"
  by (cases m) auto

fun is_ok :: "('a, 's) outcome \<Rightarrow> bool" where
  "is_ok (Ok _ _) = True"
| "is_ok _ = False"

section \<open>Words as numbers\<close>

lemma unat_sub_le: "(b :: 'a::len word) \<le> a \<Longrightarrow> unat (a - b) = unat a - unat b"
  by (simp add: unat_sub word_le_nat_alt)

lemma unat_lt_2p: "unat (x :: 'a::len word) < 2 ^ LENGTH('a)"
  by simp

lemma unat_of_nat_less [word_to_nat]:
  "n < 2 ^ LENGTH('a) \<Longrightarrow> unat (of_nat n :: 'a::len word) = n"
  by (simp add: unat_of_nat take_bit_nat_eq_self_iff)

lemma unat_add_no_overflow [word_to_nat]:
  "unat (a :: 'a::len word) + unat b < 2 ^ LENGTH('a) \<Longrightarrow> unat (a + b) = unat a + unat b"
  by (simp add: unat_word_ariths)

lemma unat_drop_bit [word_to_nat]: "unat (drop_bit n (x :: 'a::len word)) = unat x div 2 ^ n"
  by (subst unat_drop_bit_eq) (simp add: drop_bit_eq_div)

lemma unat_take_mask [word_to_nat]: "unat (x AND mask n :: 'a::len word) = unat x mod 2 ^ n"
  by (subst take_bit_eq_mask [symmetric], subst unsigned_take_bit_eq) (simp add: take_bit_eq_mod)

section \<open>Bits of bytes and of composed words\<close>

lemma and_0x80_iff: "(b :: byte) AND 0x80 \<noteq> 0 \<longleftrightarrow> 128 \<le> unat b"
proof -
  have "unat b < 256" using unat_lt_2p [of b] by simp
  have "b AND 0x80 \<noteq> 0 \<longleftrightarrow> bit b 7"
    using and_exp_eq_0_iff_not_bit [of b 7] by simp
  also have "\<dots> \<longleftrightarrow> bit (unat b) 7"
    by (simp add: bit_unsigned_iff)
  also have "\<dots> \<longleftrightarrow> odd (unat b div 2 ^ 7)"
    by (rule bit_iff_odd)
  also have "\<dots> \<longleftrightarrow> 128 \<le> unat b"
  proof
    assume "128 \<le> unat b"
    then have "unat b div 128 = 1" using \<open>unat b < 256\<close> by linarith
    then show "odd (unat b div 2 ^ 7)" by simp
  qed (auto intro: ccontr)
  finally show ?thesis .
qed

lemma unat_and_0x7F: "unat ((b :: byte) AND 0x7F) = unat b mod 128"
  using unat_take_mask [of b 7] by (simp add: mask_eq_exp_minus_1)

lemma ucast_eq_of_nat: "(ucast (w :: 'a::len word) :: 'b::len word) = of_nat (unat w)"
  by simp

lemma or_push_bit_of_nat:
  assumes "r < 2 ^ n"
  shows "(of_nat r :: 'a::len word) OR push_bit n (of_nat v) = of_nat (r + 2 ^ n * v)"
proof -
  have "\<not> bit (of_nat r :: 'a word) m \<or> \<not> bit (push_bit n (of_nat v :: 'a word)) m" for m
  proof (cases "m < n")
    case True
    then show ?thesis by (simp add: bit_push_bit_iff)
  next
    case False
    then have "r < 2 ^ m" using assms by (meson le_less_trans less_le_trans not_less power_increasing one_le_numeral)
    then have "\<not> bit r m" by (simp add: bit_iff_odd)
    then show ?thesis by (simp add: bit_of_nat_iff)
  qed
  then have "of_nat r OR push_bit n (of_nat v) = (of_nat r + push_bit n (of_nat v) :: 'a word)"
    by (metis disjunctive_add)
  then show ?thesis by (simp add: push_bit_eq_mult mult.commute)
qed

lemma byte_and_0x70: "\<forall>n<128. ((of_nat n :: byte) AND 0x70 \<noteq> 0) = (16 \<le> n)"
  by code_simp

lemma and_0x70_iff:
  assumes "unat (b :: byte) < 128"
  shows "b AND 0x70 \<noteq> 0 \<longleftrightarrow> 16 \<le> unat b"
  using byte_and_0x70 [rule_format, OF assms] by (simp add: ucast_id)

section \<open>Little-endian byte strings\<close>

fun le_nat :: "byte list \<Rightarrow> nat" where
  "le_nat [] = 0"
| "le_nat (b # bs) = unat b + 256 * le_nat bs"

fun le_bytes :: "nat \<Rightarrow> nat \<Rightarrow> byte list" where
  "le_bytes 0 n = []"
| "le_bytes (Suc k) n = of_nat n # le_bytes k (n div 256)"

lemma length_le_bytes [simp]: "length (le_bytes k n) = k"
  by (induction k arbitrary: n) auto

lemma unat_of_nat_byte: "unat (of_nat n :: byte) = n mod 256"
  by (simp add: unat_of_nat take_bit_eq_mod)

lemma le_nat_bound: "le_nat bs < 256 ^ length bs"
proof (induction bs)
  case Nil
  then show ?case by simp
next
  case (Cons b bs)
  then have "256 * (le_nat bs + 1) \<le> 256 * 256 ^ length bs" by (intro mult_le_mono2) simp
  moreover have "unat b < 256" using unat_lt_2p [of b] by simp
  ultimately show ?case by simp
qed

lemma le_nat_snoc: "le_nat (bs @ [b]) = le_nat bs + 2 ^ (8 * length bs) * unat b"
  by (induction bs) (simp_all add: power_add algebra_simps)

lemma le_nat_le_bytes: "le_nat (le_bytes k n) = n mod 256 ^ k"
  by (induction k arbitrary: n) (simp_all add: unat_of_nat_byte mod_mult2_eq)

lemma le_bytes_le_nat: "le_bytes (length bs) (le_nat bs) = bs"
proof (induction bs)
  case Nil
  then show ?case by simp
next
  case (Cons b bs)
  have "unat b < 256" using unat_lt_2p [of b] by simp
  then have "(unat b + 256 * le_nat bs) div 256 = le_nat bs" by simp
  moreover have "(of_nat (unat b + 256 * le_nat bs) :: byte) = b"
    using \<open>unat b < 256\<close> by (simp only: word_unat_eq_iff unat_of_nat_byte) simp
  ultimately show ?case using Cons by simp
qed

text \<open>Composing a word from bytes by shifts and \<open>OR\<close>, one byte at a time.\<close>

lemma or_push_byte:
  "length bs = k \<Longrightarrow> n = 8 * k \<Longrightarrow>
   (of_nat (le_nat bs) :: 'a::len word) OR push_bit n (ucast (b :: byte)) = of_nat (le_nat (bs @ [b]))"
  using or_push_bit_of_nat [of "le_nat bs" "8 * k" "unat b"] le_nat_bound [of bs]
  by (simp only: le_nat_snoc ucast_eq_of_nat) (simp add: power_mult)

lemma byte_of_word:
  "8 \<le> LENGTH('a::len) \<Longrightarrow> (ucast (w AND 0xFF :: 'a word) :: byte) = of_nat (unat w)"
  using unat_take_mask [of w 8]
  by (simp only: ucast_eq_of_nat word_unat_eq_iff unat_of_nat_byte mask_eq_exp_minus_1) simp

lemma join32:
  "(push_bit 0 (ucast (b0 :: byte)) OR push_bit 8 (ucast (b1 :: byte)) OR
    push_bit 16 (ucast (b2 :: byte)) OR push_bit 24 (ucast (b3 :: byte)) :: u32) =
   of_nat (le_nat [b0, b1, b2, b3])"
proof -
  have "(push_bit 0 (ucast b0) OR push_bit 8 (ucast b1) OR push_bit 16 (ucast b2) OR
      push_bit 24 (ucast b3) :: u32) =
      ((of_nat (le_nat [b0]) OR push_bit 8 (ucast b1)) OR push_bit 16 (ucast b2)) OR
      push_bit 24 (ucast b3)"
    by (simp add: or.assoc)
  also have "\<dots> = of_nat (le_nat [b0, b1, b2, b3])"
    by (simp only: or_push_byte [of "[b0]" 1] or_push_byte [of "[b0, b1]" 2]
          or_push_byte [of "[b0, b1, b2]" 3] append.simps list.size)
  finally show ?thesis .
qed

lemma join64:
  "(push_bit 0 (ucast (b0 :: byte)) OR push_bit 8 (ucast (b1 :: byte)) OR
    push_bit 16 (ucast (b2 :: byte)) OR push_bit 24 (ucast (b3 :: byte)) OR
    push_bit 32 (ucast (b4 :: byte)) OR push_bit 40 (ucast (b5 :: byte)) OR
    push_bit 48 (ucast (b6 :: byte)) OR push_bit 56 (ucast (b7 :: byte)) :: u64) =
   of_nat (le_nat [b0, b1, b2, b3, b4, b5, b6, b7])"
proof -
  have "(push_bit 0 (ucast b0) OR push_bit 8 (ucast b1) OR push_bit 16 (ucast b2) OR
      push_bit 24 (ucast b3) OR push_bit 32 (ucast b4) OR push_bit 40 (ucast b5) OR
      push_bit 48 (ucast b6) OR push_bit 56 (ucast b7) :: u64) =
      ((((((of_nat (le_nat [b0]) OR push_bit 8 (ucast b1)) OR push_bit 16 (ucast b2)) OR
      push_bit 24 (ucast b3)) OR push_bit 32 (ucast b4)) OR push_bit 40 (ucast b5)) OR
      push_bit 48 (ucast b6)) OR push_bit 56 (ucast b7)"
    by (simp add: or.assoc)
  also have "\<dots> = of_nat (le_nat [b0, b1, b2, b3, b4, b5, b6, b7])"
    by (simp only: or_push_byte [of "[b0]" 1] or_push_byte [of "[b0, b1]" 2]
          or_push_byte [of "[b0, b1, b2]" 3] or_push_byte [of "[b0, b1, b2, b3]" 4]
          or_push_byte [of "[b0, b1, b2, b3, b4]" 5] or_push_byte [of "[b0, b1, b2, b3, b4, b5]" 6]
          or_push_byte [of "[b0, b1, b2, b3, b4, b5, b6]" 7] append.simps list.size)
  finally show ?thesis .
qed

lemma le_bytes_4:
  "le_bytes 4 n = [of_nat n, of_nat (n div 2 ^ 8), of_nat (n div 2 ^ 16), of_nat (n div 2 ^ 24)]"
proof -
  have "le_bytes (Suc (Suc (Suc (Suc 0)))) n =
      [of_nat n, of_nat (n div 2 ^ 8), of_nat (n div 2 ^ 16), of_nat (n div 2 ^ 24)]"
    by (simp add: div_mult2_eq [symmetric])
  then show ?thesis by (simp only: eval_nat_numeral BitM.simps)
qed

lemma le_bytes_8:
  "le_bytes 8 n = [of_nat n, of_nat (n div 2 ^ 8), of_nat (n div 2 ^ 16), of_nat (n div 2 ^ 24),
     of_nat (n div 2 ^ 32), of_nat (n div 2 ^ 40), of_nat (n div 2 ^ 48), of_nat (n div 2 ^ 56)]"
proof -
  have "le_bytes (Suc (Suc (Suc (Suc (Suc (Suc (Suc (Suc 0)))))))) n =
      [of_nat n, of_nat (n div 2 ^ 8), of_nat (n div 2 ^ 16), of_nat (n div 2 ^ 24),
       of_nat (n div 2 ^ 32), of_nat (n div 2 ^ 40), of_nat (n div 2 ^ 48), of_nat (n div 2 ^ 56)]"
    by (simp add: div_mult2_eq [symmetric])
  moreover have "(8::nat) = Suc (Suc (Suc (Suc (Suc (Suc (Suc (Suc 0)))))))" by simp
  ultimately show ?thesis by argo
qed

lemma byte_widths: "8 \<le> LENGTH(16)" "8 \<le> LENGTH(32)" "8 \<le> LENGTH(64)"
  by simp_all

lemmas byte_splits =
  byte_of_word [OF byte_widths(1)] byte_of_word [OF byte_widths(2)] byte_of_word [OF byte_widths(3)]
  unat_drop_bit

section \<open>Running a function on a copy of an object\<close>

text \<open>\<open>obind_local m s f\<close>: \<open>m\<close> worked on a copy; when it returns false, the function returns false with its
  own object \<open>s\<close> as it was.\<close>

fun obind_local :: "('a, 't) outcome \<Rightarrow> 's \<Rightarrow> ('a \<Rightarrow> 't \<Rightarrow> ('b, 's) outcome) \<Rightarrow> ('b, 's) outcome" where
  "obind_local Fault s f = Fault"
| "obind_local (Fail _) s f = Fail s"
| "obind_local (Ok a t) s f = f a t"

declare obind_local.simps [outcome_simps]

lemma obind_local_eq_Ok [simp]:
  "obind_local m s f = Ok b u \<longleftrightarrow> (\<exists>a t. m = Ok a t \<and> f a t = Ok b u)"
  by (cases m) auto

lemma obind_local_cong [fundef_cong]:
  "m = m' \<Longrightarrow> s = s' \<Longrightarrow> (\<And>a t. m' = Ok a t \<Longrightarrow> f a t = g a t) \<Longrightarrow> obind_local m s f = obind_local m' s' g"
  by (cases m') auto

section \<open>Checked reads\<close>

text \<open>A pointer into memory is modelled by the cells (bytes or pointers) from that address to the end of the
  object.  A read beyond them has no value.\<close>

definition mem_at :: "'a list \<Rightarrow> nat \<Rightarrow> 'a option" where
  "mem_at m i = (if i < length m then Some (m ! i) else None)"

definition mem_range :: "'a list \<Rightarrow> nat \<Rightarrow> 'a list option" where
  "mem_range m n = (if n \<le> length m then Some (take n m) else None)"

text \<open>A store of one cell at index \<open>i\<close>; a store outside the object has no result.\<close>

definition mem_put :: "'a list \<Rightarrow> nat \<Rightarrow> 'a \<Rightarrow> 'a list option" where
  "mem_put m i v = (if i < length m then Some (m[i := v]) else None)"

text \<open>Overwriting the cells from index \<open>i\<close> on (\<open>memcpy\<close>, \<open>memset\<close>).\<close>

definition mem_write :: "'a list \<Rightarrow> nat \<Rightarrow> 'a list \<Rightarrow> 'a list option" where
  "mem_write m i bs =
     (if i + length bs \<le> length m then Some (take i m @ bs @ drop (i + length bs) m) else None)"

definition mem_move :: "'a list \<Rightarrow> nat \<Rightarrow> nat \<Rightarrow> nat \<Rightarrow> 'a list option" where
  "mem_move m dst src n =
     (case mem_range (drop src m) n of None \<Rightarrow> None | Some bs \<Rightarrow> mem_write m dst bs)"

section \<open>Memory that is written from front to back\<close>

definition splice :: "'a list \<Rightarrow> nat \<Rightarrow> 'a list \<Rightarrow> 'a list" where
  "splice m p bs = take p m @ bs @ drop (p + length bs) m"

lemma mem_write_splice: "p + length bs \<le> length m \<Longrightarrow> mem_write m p bs = Some (splice m p bs)"
  by (simp add: mem_write_def splice_def)

lemma mem_put_splice: "p < length m \<Longrightarrow> mem_put m p b = Some (splice m p [b])"
  by (simp add: mem_put_def splice_def upd_conv_take_nth_drop)

lemma length_splice [simp]: "p + length bs \<le> length m \<Longrightarrow> length (splice m p bs) = length m"
  by (simp add: splice_def)

lemma splice_splice: "p + length bs \<le> length m \<Longrightarrow> q = p + length bs \<Longrightarrow> splice (splice m p bs) q cs = splice m p (bs @ cs)"
  by (simp add: splice_def ac_simps)

lemma splice_Nil [simp]: "p \<le> length m \<Longrightarrow> splice m p [] = m"
  by (simp add: splice_def)

lemma take_splice: "p \<le> length m \<Longrightarrow> take (p + length bs) (splice m p bs) = take p m @ bs"
  by (simp add: splice_def)

section \<open>Big-endian byte strings\<close>

definition be_nat :: "byte list \<Rightarrow> nat" where
  "be_nat bs = le_nat (rev bs)"

definition be_bytes :: "nat \<Rightarrow> nat \<Rightarrow> byte list" where
  "be_bytes k n = rev (le_bytes k n)"

lemma be_nat_Nil [simp]: "be_nat [] = 0"
  by (simp add: be_nat_def)

lemma be_nat_snoc: "be_nat (bs @ [b]) = 256 * be_nat bs + unat b"
  by (simp add: be_nat_def)

lemma be_nat_bound: "be_nat bs < 256 ^ length bs"
  using le_nat_bound [of "rev bs"] by (simp add: be_nat_def)

lemma length_be_bytes [simp]: "length (be_bytes k n) = k"
  by (simp add: be_bytes_def)

lemma be_nat_be_bytes: "be_nat (be_bytes k n) = n mod 256 ^ k"
  by (simp add: be_nat_def be_bytes_def le_nat_le_bytes)

lemma be_bytes_be_nat: "be_bytes (length bs) (be_nat bs) = bs"
  using le_bytes_le_nat [of "rev bs"] by (simp add: be_bytes_def be_nat_def)

lemma be_nat_Cons: "be_nat (b # bs) = unat b * 256 ^ length bs + be_nat bs"
  by (simp add: be_nat_def le_nat_snoc power_mult)

lemma fold_be_word:
  "length bs \<le> 8 \<Longrightarrow>
   fold (\<lambda>b r. push_bit 8 r OR ucast b) bs (0 :: u64) = of_nat (be_nat bs)"
proof (induction bs rule: rev_induct)
  case Nil
  then show ?case by simp
next
  case (snoc b bs)
  have "fold (\<lambda>b r. push_bit 8 r OR ucast b) (bs @ [b]) (0 :: u64) =
      of_nat (unat b) OR push_bit 8 (of_nat (be_nat bs))"
    using snoc by (simp add: or.commute)
  also have "\<dots> = of_nat (unat b + 2 ^ 8 * be_nat bs)"
    using unat_lt_2p [of b] by (intro or_push_bit_of_nat) simp
  also have "unat b + 2 ^ 8 * be_nat bs = be_nat (bs @ [b])"
    by (simp add: be_nat_snoc)
  finally show ?case .
qed

section \<open>The class bits of a byte\<close>

lemma mask5: "(0xE0 :: byte) = NOT (mask 5)"  by code_simp
lemma byte_and_0xE0: "unat ((b :: byte) AND 0xE0) = 32 * (unat b div 32)"
proof -
  have "(b AND mask 5) OR (b AND NOT (mask 5)) = b" by (rule bit_word_eqI) (auto simp: bit_simps)
  moreover have "(b AND mask 5) OR (b AND NOT (mask 5)) = (b AND mask 5) + (b AND NOT (mask 5))"
    by (rule disjunctive_add [symmetric]) (auto simp: bit_simps)
  ultimately have "b AND NOT (mask 5) = b - (b AND mask 5)" by (simp add: eq_diff_eq add.commute)
  then have "b AND 0xE0 = b - (b AND mask 5)" unfolding mask5 .
  moreover have "unat (b AND mask 5) = unat b mod 32" by (simp add: unat_take_mask)
  moreover have "b AND mask 5 \<le> b" using calculation(2) by (simp add: word_le_nat_alt)
  ultimately show ?thesis by (simp add: unat_sub_le minus_mod_eq_mult_div)
qed

end
