(* ===== verification/PbIStream.thy ===== *)
theory PbIStream
  imports Prelude
begin

text \<open>
  The input streams of nanopb (\<^verbatim>\<open>nanopb/pb_decode.c\<close>, first part): the stream object, the
  buffer callback \<open>buf_read\<close>, \<open>pb_read\<close> and \<open>pb_readbyte\<close>, the varint and tag decoders, the
  field skipper, the substreams and the fixed-width decoders.

  A stream whose callback is \<open>buf_read\<close> reads from memory: its \<open>state\<close> is the memory from the
  current position to the end of the object the caller passed (\<open>BufState\<close>), and a read past
  the end of that object is a \<open>Fault\<close>.  Every other callback belongs to the caller of the
  library: it is a parameter, a function on the caller's own state that is given the number
  of bytes asked for and returns its success flag, the bytes it stored and its new state.
  \<open>uint_fast8_t\<close> is the 8-bit type of the platform's C library, so \<open>bitpos\<close> is an 8-bit word.
\<close>

unbundle bit_operations_syntax

section \<open>The stream object\<close>

datatype 'u istate = BufState "byte list" | UserState 'u

datatype 'u icallback =
    buf_read_cb
  | user_read_cb "'u \<Rightarrow> nat \<Rightarrow> bool \<times> byte list \<times> 'u"

record 'u pb_istream_t =
  callback :: "'u icallback"
  state :: "'u istate"
  bytes_left :: size_t
  errmsg :: "string option"

datatype pb_wire_type_t = PB_WT_VARINT | PB_WT_64BIT | PB_WT_STRING | PB_WT_32BIT | PB_WT_OTHER u32

text \<open>The cast of a 3-bit number to the enumeration; values that name no enumerator stay as they are.\<close>

definition wire_type_of :: "u32 \<Rightarrow> pb_wire_type_t" where
  "wire_type_of w =
     (if w = 0 then PB_WT_VARINT else if w = 1 then PB_WT_64BIT
      else if w = 2 then PB_WT_STRING else if w = 5 then PB_WT_32BIT else PB_WT_OTHER w)"

text \<open>\<open>PB_RETURN_ERROR\<close>: keep the first message, return false.\<close>

definition PB_SET_ERROR :: "'u pb_istream_t \<Rightarrow> string \<Rightarrow> 'u pb_istream_t" where
  "PB_SET_ERROR s msg = s\<lparr>errmsg := (case errmsg s of None \<Rightarrow> Some msg | Some m \<Rightarrow> Some m)\<rparr>"

definition PB_RETURN_ERROR :: "'u pb_istream_t \<Rightarrow> string \<Rightarrow> ('a, 'u pb_istream_t) outcome" where
  "PB_RETURN_ERROR s msg = Fail (PB_SET_ERROR s msg)"

section \<open>Reading\<close>

definition buf_read :: "'u pb_istream_t \<Rightarrow> size_t \<Rightarrow> (byte list, 'u pb_istream_t) outcome" where
  "buf_read s count =
     (case state s of
        BufState source \<Rightarrow>
          (if unat count \<le> length source
           then Ok (take (unat count) source) (s\<lparr>state := BufState (drop (unat count) source)\<rparr>)
           else Fault)
      | UserState _ \<Rightarrow> Fault)"

text \<open>The call \<open>stream->callback(stream, buf, count)\<close>.  A callback that reports success without
  having stored \<open>count\<close> bytes leaves the caller's buffer indeterminate: that is a \<open>Fault\<close>.\<close>

definition call_callback ::
  "'u pb_istream_t \<Rightarrow> size_t \<Rightarrow> (byte list, 'u pb_istream_t) outcome" where
  "call_callback s count =
     (case callback s of
        buf_read_cb \<Rightarrow> buf_read s count
      | user_read_cb f \<Rightarrow>
          (case state s of
             BufState _ \<Rightarrow> Fault
           | UserState u \<Rightarrow>
               (case f u (unat count) of (ok, bs, u') \<Rightarrow>
                  if \<not> ok then Fail (s\<lparr>state := UserState u'\<rparr>)
                  else if length bs = unat count then Ok bs (s\<lparr>state := UserState u'\<rparr>)
                  else Fault)))"

text \<open>\<open>pb_read\<close> with a buffer: \<open>buf \<noteq> NULL\<close>, or the stream reads from memory.\<close>

definition pb_read_into ::
  "'u pb_istream_t \<Rightarrow> size_t \<Rightarrow> (byte list, 'u pb_istream_t) outcome" where
  "pb_read_into s count =
     (if count = 0 then Ok [] s
      else if bytes_left s < count then PB_RETURN_ERROR s ''end-of-stream''
      else (case call_callback s count of
              Fault \<Rightarrow> Fault
            | Fail s' \<Rightarrow> PB_RETURN_ERROR s' ''io error''
            | Ok bs s' \<Rightarrow> Ok bs (s'\<lparr>bytes_left := bytes_left s' - count\<rparr>)))"

text \<open>The loop that skips input of a caller's callback in pieces of 16 bytes.\<close>

function pb_skip_tmp :: "'u pb_istream_t \<Rightarrow> size_t \<Rightarrow> (byte list, 'u pb_istream_t) outcome" where
  "pb_skip_tmp s count =
     (if 16 < count then obind (pb_read_into s 16) (\<lambda>_ s'. pb_skip_tmp s' (count - 16))
      else pb_read_into s count)"
  by pat_completeness auto
termination
  by (relation "measure (\<lambda>(s, count). unat count)")
     (auto simp: unat_sub_le word_less_nat_alt less_imp_le)

declare pb_skip_tmp.simps [simp del]

text \<open>\<open>pb_read(stream, buf, count)\<close>; \<open>null\<close> says that \<open>buf\<close> is the null pointer.\<close>

definition pb_read ::
  "'u pb_istream_t \<Rightarrow> bool \<Rightarrow> size_t \<Rightarrow> (byte list, 'u pb_istream_t) outcome" where
  "pb_read s null count =
     (if count = 0 then Ok [] s
      else if null \<and> (case callback s of buf_read_cb \<Rightarrow> False | _ \<Rightarrow> True) then pb_skip_tmp s count
      else pb_read_into s count)"

definition pb_readbyte :: "'u pb_istream_t \<Rightarrow> (byte, 'u pb_istream_t) outcome" where
  "pb_readbyte s =
     (if bytes_left s = 0 then PB_RETURN_ERROR s ''end-of-stream''
      else (case call_callback s 1 of
              Fault \<Rightarrow> Fault
            | Fail s' \<Rightarrow> PB_RETURN_ERROR s' ''io error''
            | Ok bs s' \<Rightarrow> Ok (hd bs) (s'\<lparr>bytes_left := bytes_left s' - 1\<rparr>)))"

definition pb_istream_from_buffer :: "byte list \<Rightarrow> size_t \<Rightarrow> 'u pb_istream_t" where
  "pb_istream_from_buffer buf bufsize =
     \<lparr>callback = buf_read_cb, state = BufState buf, bytes_left = bufsize, errmsg = None\<rparr>"

lemma call_callback_Ok:
  assumes "call_callback s count = Ok bs s'"
  shows "length bs = unat count" "bytes_left s' = bytes_left s" "callback s' = callback s"
    "errmsg s' = errmsg s"
  using assms
  by (auto simp: call_callback_def buf_read_def split: icallback.splits istate.splits prod.splits if_splits)

lemma pb_readbyte_bytes_left:
  "pb_readbyte s = Ok b s' \<Longrightarrow> unat (bytes_left s') < unat (bytes_left s)"
  by (auto simp: pb_readbyte_def PB_RETURN_ERROR_def unat_minus_one unat_gt_0
        dest: call_callback_Ok split: outcome.splits if_splits)

section \<open>Varints\<close>

text \<open>The loop of the multi-byte case of \<open>pb_decode_varint32_eof\<close>.  The result pairs the value
  with the final \<open>bitpos\<close> and the last byte, which the check after the loop reads.\<close>

function varint32_loop ::
  "'u pb_istream_t \<Rightarrow> u32 \<Rightarrow> 8 word \<Rightarrow> (u32 \<times> 8 word \<times> byte, 'u pb_istream_t) outcome" where
  "varint32_loop s result bitpos =
     obind (pb_readbyte s) (\<lambda>byte s'.
       if 32 \<le> bitpos \<and> byte AND 0x7F \<noteq> 0 \<and>
          (drop_bit 31 result = 0 \<or> byte \<noteq> (if bitpos < 63 then 0xFF else 0x01))
       then PB_RETURN_ERROR s' ''varint overflow''
       else
         let result' = (if 32 \<le> bitpos then result
                        else result OR push_bit (unat bitpos) (ucast (byte AND 0x7F)));
             bitpos' = bitpos + 7
         in if byte AND 0x80 \<noteq> 0 then varint32_loop s' result' bitpos'
            else Ok (result', bitpos', byte) s')"
  by pat_completeness auto
termination
  by (relation "measure (\<lambda>(s, result, bitpos). unat (bytes_left s))")
     (auto dest: pb_readbyte_bytes_left)

declare varint32_loop.simps [simp del]

text \<open>\<open>pb_decode_varint32_eof\<close>.  The flag \<open>*eof\<close> it sets on failure is the second function: it is
  set exactly when reading the first byte failed with no bytes left.\<close>

definition pb_decode_varint32_eof :: "'u pb_istream_t \<Rightarrow> (u32, 'u pb_istream_t) outcome" where
  "pb_decode_varint32_eof s =
     obind (pb_readbyte s) (\<lambda>byte s'.
       if byte AND 0x80 = 0 then Ok (ucast byte) s'
       else obind (varint32_loop s' (ucast (byte AND 0x7F)) 7) (\<lambda>(result, bitpos, last) s''.
              if bitpos = 35 \<and> last AND 0x70 \<noteq> 0 then PB_RETURN_ERROR s'' ''varint overflow''
              else Ok result s''))"

definition varint32_sets_eof :: "'u pb_istream_t \<Rightarrow> bool" where
  "varint32_sets_eof s =
     (case pb_readbyte s of Fail s' \<Rightarrow> bytes_left s' = 0 | _ \<Rightarrow> False)"

definition pb_decode_varint32 :: "'u pb_istream_t \<Rightarrow> (u32, 'u pb_istream_t) outcome" where
  "pb_decode_varint32 s = pb_decode_varint32_eof s"

function varint64_loop ::
  "'u pb_istream_t \<Rightarrow> u64 \<Rightarrow> 8 word \<Rightarrow> (u64, 'u pb_istream_t) outcome" where
  "varint64_loop s result bitpos =
     (if 64 \<le> bitpos then PB_RETURN_ERROR s ''varint overflow''
      else obind (pb_readbyte s) (\<lambda>byte s'.
        let result' = result OR push_bit (unat bitpos) (ucast (byte AND 0x7F));
            bitpos' = bitpos + 7
        in if byte AND 0x80 \<noteq> 0 then varint64_loop s' result' bitpos' else Ok result' s'))"
  by pat_completeness auto
termination
  by (relation "measure (\<lambda>(s, result, bitpos). unat (bytes_left s))")
     (auto dest: pb_readbyte_bytes_left)

declare varint64_loop.simps [simp del]

definition pb_decode_varint :: "'u pb_istream_t \<Rightarrow> (u64, 'u pb_istream_t) outcome" where
  "pb_decode_varint s = varint64_loop s 0 0"

section \<open>Skipping fields\<close>

lemma pb_read_into_bytes_left:
  assumes "pb_read_into s count = Ok bs s'"
  shows "unat (bytes_left s') = unat (bytes_left s) - unat count" "count \<le> bytes_left s"
  using assms
  by (auto simp: pb_read_into_def PB_RETURN_ERROR_def not_less
        unat_sub_le dest: call_callback_Ok split: outcome.splits if_splits)

text \<open>\<open>pb_skip_varint\<close> reads single bytes with \<open>pb_read(stream, &byte, 1)\<close>.\<close>

function pb_skip_varint :: "'u pb_istream_t \<Rightarrow> (unit, 'u pb_istream_t) outcome" where
  "pb_skip_varint s =
     obind (pb_read s False 1) (\<lambda>bs s'.
       if hd bs AND 0x80 \<noteq> 0 then pb_skip_varint s' else Ok () s')"
  by pat_completeness auto
termination
proof (relation "measure (\<lambda>s. unat (bytes_left s))")
  fix s s' :: "'u pb_istream_t" and bs :: "byte list"
  assume "pb_read s False 1 = Ok bs s'"
  then have r: "pb_read_into s 1 = Ok bs s'" by (simp add: pb_read_def)
  from pb_read_into_bytes_left [OF r] have "unat (bytes_left s') = unat (bytes_left s) - 1"
    "0 < unat (bytes_left s)"
    by (auto simp: word_le_nat_alt)
  then show "(s', s) \<in> measure (\<lambda>s. unat (bytes_left s))" by simp
qed simp

declare pb_skip_varint.simps [simp del]

definition pb_skip_string :: "'u pb_istream_t \<Rightarrow> (unit, 'u pb_istream_t) outcome" where
  "pb_skip_string s =
     obind (pb_decode_varint32 s) (\<lambda>length s'.
       obind (pb_read s' True (ucast length)) (\<lambda>_ s''. Ok () s''))"

text \<open>\<open>pb_decode_tag\<close>: the outcome and the flag \<open>*eof\<close>, which is also meaningful on failure.\<close>

definition pb_decode_tag ::
  "'u pb_istream_t \<Rightarrow> (pb_wire_type_t \<times> u32, 'u pb_istream_t) outcome \<times> bool" where
  "pb_decode_tag s =
     (case pb_decode_varint32_eof s of
        Fault \<Rightarrow> (Fault, False)
      | Fail s' \<Rightarrow> (Fail s', varint32_sets_eof s)
      | Ok temp s' \<Rightarrow>
          (if temp = 0 then (Fail s', True)
           else (Ok (wire_type_of (temp AND 7), drop_bit 3 temp) s', False)))"

definition pb_skip_field ::
  "'u pb_istream_t \<Rightarrow> pb_wire_type_t \<Rightarrow> (unit, 'u pb_istream_t) outcome" where
  "pb_skip_field s wire_type =
     (case wire_type of
        PB_WT_VARINT \<Rightarrow> pb_skip_varint s
      | PB_WT_64BIT \<Rightarrow> obind (pb_read s True 8) (\<lambda>_ s'. Ok () s')
      | PB_WT_STRING \<Rightarrow> pb_skip_string s
      | PB_WT_32BIT \<Rightarrow> obind (pb_read s True 4) (\<lambda>_ s'. Ok () s')
      | PB_WT_OTHER _ \<Rightarrow> PB_RETURN_ERROR s ''invalid wire_type'')"

text \<open>The varint case of \<open>read_raw_value\<close>: \<open>room\<close> is what is left of \<open>max_size\<close>.  The list is what the
  loop stores at \<open>buf\<close>, so its length is the final \<open>*size\<close>.\<close>

fun read_raw_varint :: "'u pb_istream_t \<Rightarrow> nat \<Rightarrow> (byte list, 'u pb_istream_t) outcome" where
  "read_raw_varint s 0 = Fail s"
| "read_raw_varint s (Suc room) =
     obind (pb_read s False 1) (\<lambda>bs s'.
       if hd bs AND 0x80 \<noteq> 0
       then obind (read_raw_varint s' room) (\<lambda>rest s''. Ok (hd bs # rest) s'')
       else Ok [hd bs] s')"

definition read_raw_value ::
  "'u pb_istream_t \<Rightarrow> pb_wire_type_t \<Rightarrow> size_t \<Rightarrow> (byte list, 'u pb_istream_t) outcome" where
  "read_raw_value s wire_type max_size =
     (case wire_type of
        PB_WT_VARINT \<Rightarrow> read_raw_varint s (unat max_size)
      | PB_WT_64BIT \<Rightarrow> pb_read s False 8
      | PB_WT_32BIT \<Rightarrow> pb_read s False 4
      | PB_WT_STRING \<Rightarrow> PB_RETURN_ERROR s ''invalid wire_type''
      | PB_WT_OTHER _ \<Rightarrow> PB_RETURN_ERROR s ''invalid wire_type'')"

section \<open>Substreams\<close>

definition pb_make_string_substream ::
  "'u pb_istream_t \<Rightarrow> ('u pb_istream_t, 'u pb_istream_t) outcome" where
  "pb_make_string_substream s =
     obind (pb_decode_varint32 s) (\<lambda>size s'.
       if bytes_left s' < ucast size then PB_RETURN_ERROR s' ''parent stream too short''
       else Ok (s'\<lparr>bytes_left := ucast size\<rparr>) (s'\<lparr>bytes_left := bytes_left s' - ucast size\<rparr>))"

definition pb_close_string_substream ::
  "'u pb_istream_t \<Rightarrow> 'u pb_istream_t \<Rightarrow> (unit, 'u pb_istream_t) outcome" where
  "pb_close_string_substream s substream =
     (case (if bytes_left substream \<noteq> 0 then pb_read substream True (bytes_left substream)
            else Ok [] substream) of
        Fault \<Rightarrow> Fault
      | Fail _ \<Rightarrow> Fail s
      | Ok _ sub' \<Rightarrow> Ok () (s\<lparr>state := state sub', errmsg := errmsg sub'\<rparr>))"

section \<open>Values\<close>

definition pb_decode_bool :: "'u pb_istream_t \<Rightarrow> (bool, 'u pb_istream_t) outcome" where
  "pb_decode_bool s = obind (pb_decode_varint32 s) (\<lambda>value s'. Ok (value \<noteq> 0) s')"

text \<open>The signed result of \<open>pb_decode_svarint\<close> is kept as the 64 bits stored at \<open>*dest\<close>.\<close>

definition pb_decode_svarint :: "'u pb_istream_t \<Rightarrow> (u64, 'u pb_istream_t) outcome" where
  "pb_decode_svarint s =
     obind (pb_decode_varint s) (\<lambda>value s'.
       if value AND 1 \<noteq> 0 then Ok (NOT (drop_bit 1 value)) s' else Ok (drop_bit 1 value) s')"

definition pb_decode_fixed32 :: "'u pb_istream_t \<Rightarrow> (u32, 'u pb_istream_t) outcome" where
  "pb_decode_fixed32 s =
     obind (pb_read s False 4) (\<lambda>bytes s'.
       Ok (push_bit 0 (ucast (bytes ! 0)) OR push_bit 8 (ucast (bytes ! 1)) OR
           push_bit 16 (ucast (bytes ! 2)) OR push_bit 24 (ucast (bytes ! 3))) s')"

definition pb_decode_fixed64 :: "'u pb_istream_t \<Rightarrow> (u64, 'u pb_istream_t) outcome" where
  "pb_decode_fixed64 s =
     obind (pb_read s False 8) (\<lambda>bytes s'.
       Ok (push_bit 0 (ucast (bytes ! 0)) OR push_bit 8 (ucast (bytes ! 1)) OR
           push_bit 16 (ucast (bytes ! 2)) OR push_bit 24 (ucast (bytes ! 3)) OR
           push_bit 32 (ucast (bytes ! 4)) OR push_bit 40 (ucast (bytes ! 5)) OR
           push_bit 48 (ucast (bytes ! 6)) OR push_bit 56 (ucast (bytes ! 7))) s')"

end
