(* ===== verification/PbOStream.thy ===== *)
theory PbOStream
  imports Prelude
begin

text \<open>
  The output streams of nanopb (\<^verbatim>\<open>nanopb/pb_encode.c\<close>, first part and helper functions): the stream
  object, \<open>buf_write\<close>, \<open>pb_write\<close> and the encoders of varints, zigzag integers, fixed-width
  values, tags and strings.

  A null callback makes a sizing stream (\<open>PB_OSTREAM_SIZING\<close>) that only counts.  The callback
  \<open>buf_write\<close> stores into memory: its state is the caller's buffer and the position of the write
  pointer in it, and a store past the end of the buffer is a \<open>Fault\<close>.  Every other callback is
  a parameter: a function on the caller's own state.
\<close>

unbundle bit_operations_syntax

section \<open>The stream object\<close>

datatype 'u ostate = BufOut "byte list" nat | UserOut 'u

datatype 'u ocallback =
    null_cb
  | buf_write_cb
  | user_write_cb "'u \<Rightarrow> byte list \<Rightarrow> bool \<times> 'u"

record 'u pb_ostream_t =
  ocallback :: "'u ocallback"
  ostate :: "'u ostate"
  max_size :: size_t
  bytes_written :: size_t
  oerrmsg :: "string option"

definition OSTREAM_SET_ERROR :: "'u pb_ostream_t \<Rightarrow> string \<Rightarrow> 'u pb_ostream_t" where
  "OSTREAM_SET_ERROR s msg = s\<lparr>oerrmsg := (case oerrmsg s of None \<Rightarrow> Some msg | Some m \<Rightarrow> Some m)\<rparr>"

definition OSTREAM_RETURN_ERROR :: "'u pb_ostream_t \<Rightarrow> string \<Rightarrow> ('a, 'u pb_ostream_t) outcome" where
  "OSTREAM_RETURN_ERROR s msg = Fail (OSTREAM_SET_ERROR s msg)"

definition PB_OSTREAM_SIZING :: "'u pb_ostream_t" where
  "PB_OSTREAM_SIZING =
     \<lparr>ocallback = null_cb, ostate = BufOut [] 0, max_size = 0, bytes_written = 0, oerrmsg = None\<rparr>"

definition pb_ostream_from_buffer :: "byte list \<Rightarrow> size_t \<Rightarrow> 'u pb_ostream_t" where
  "pb_ostream_from_buffer buf bufsize =
     \<lparr>ocallback = buf_write_cb, ostate = BufOut buf 0, max_size = bufsize, bytes_written = 0,
      oerrmsg = None\<rparr>"

section \<open>Writing\<close>

definition buf_write :: "'u pb_ostream_t \<Rightarrow> byte list \<Rightarrow> (unit, 'u pb_ostream_t) outcome" where
  "buf_write s buf =
     (case ostate s of
        BufOut dest pos \<Rightarrow>
          (if pos + length buf \<le> length dest
           then Ok () (s\<lparr>ostate := BufOut (take pos dest @ buf @ drop (pos + length buf) dest)
                                        (pos + length buf)\<rparr>)
           else Fault)
      | UserOut _ \<Rightarrow> Fault)"

definition ocall_callback :: "'u pb_ostream_t \<Rightarrow> byte list \<Rightarrow> (unit, 'u pb_ostream_t) outcome" where
  "ocall_callback s buf =
     (case ocallback s of
        null_cb \<Rightarrow> Fault
      | buf_write_cb \<Rightarrow> buf_write s buf
      | user_write_cb f \<Rightarrow>
          (case ostate s of
             BufOut _ _ \<Rightarrow> Fault
           | UserOut u \<Rightarrow>
               (case f u buf of (ok, u') \<Rightarrow>
                  if ok then Ok () (s\<lparr>ostate := UserOut u'\<rparr>)
                  else Fail (s\<lparr>ostate := UserOut u'\<rparr>))))"

definition is_sizing :: "'u pb_ostream_t \<Rightarrow> bool" where
  "is_sizing s = (case ocallback s of null_cb \<Rightarrow> True | _ \<Rightarrow> False)"

text \<open>\<open>pb_write(stream, buf, count)\<close>.  \<open>buf\<close> is \<open>Some bs\<close> for a buffer that holds \<open>bs\<close> and \<open>None\<close> for the
  null pointer; reading more than the buffer holds, or the null pointer, is a \<open>Fault\<close>.\<close>

definition pb_write ::
  "'u pb_ostream_t \<Rightarrow> byte list option \<Rightarrow> size_t \<Rightarrow> (unit, 'u pb_ostream_t) outcome" where
  "pb_write s buf count =
     (if 0 < count \<and> \<not> is_sizing s then
        (if bytes_written s + count < bytes_written s \<or> max_size s < bytes_written s + count
         then OSTREAM_RETURN_ERROR s ''stream full''
         else (case buf of
                 None \<Rightarrow> Fault
               | Some bs \<Rightarrow>
                   (if length bs < unat count then Fault
                    else (case ocall_callback s (take (unat count) bs) of
                            Fault \<Rightarrow> Fault
                          | Fail s' \<Rightarrow> OSTREAM_RETURN_ERROR s' ''io error''
                          | Ok _ s' \<Rightarrow> Ok () (s'\<lparr>bytes_written := bytes_written s' + count\<rparr>)))))
      else Ok () (s\<lparr>bytes_written := bytes_written s + count\<rparr>))"

section \<open>Encoders\<close>

text \<open>The loop of \<open>pb_encode_varint\<close>: the groups it stores in \<open>buffer\<close>, all with the top bit set.\<close>

function varint_groups :: "u64 \<Rightarrow> byte list" where
  "varint_groups value =
     (if value \<noteq> 0
      then ucast ((value AND 0x7F) OR 0x80) # varint_groups (drop_bit 7 value) else [])"
  by pat_completeness auto
termination
proof (relation "measure unat")
  fix v :: u64
  assume "v \<noteq> 0"
  then have "0 < unat v" by (simp add: unat_gt_0)
  then show "(drop_bit 7 v, v) \<in> measure unat" by (simp add: unat_drop_bit)
qed simp

declare varint_groups.simps [simp del]

text \<open>\<open>pb_encode_varint\<close>: \<open>buffer\<close> has room for 10 bytes; a store past it is a \<open>Fault\<close>.\<close>

definition pb_encode_varint :: "'u pb_ostream_t \<Rightarrow> u64 \<Rightarrow> (unit, 'u pb_ostream_t) outcome" where
  "pb_encode_varint s value =
     (if value \<le> 0x7F then pb_write s (Some [ucast value]) 1
      else
        let buffer = varint_groups value; i = length buffer in
        if 10 < i then Fault
        else pb_write s (Some (buffer[i - 1 := buffer ! (i - 1) AND 0x7F])) (of_nat i))"

text \<open>The argument of \<open>pb_encode_svarint\<close> is the 64-bit pattern of the signed value.\<close>

definition pb_encode_svarint :: "'u pb_ostream_t \<Rightarrow> u64 \<Rightarrow> (unit, 'u pb_ostream_t) outcome" where
  "pb_encode_svarint s value =
     pb_encode_varint s (if sint value < 0 then NOT (push_bit 1 value) else push_bit 1 value)"

definition pb_encode_fixed32 :: "'u pb_ostream_t \<Rightarrow> u32 \<Rightarrow> (unit, 'u pb_ostream_t) outcome" where
  "pb_encode_fixed32 s val =
     pb_write s (Some [ucast (val AND 0xFF), ucast (drop_bit 8 val AND 0xFF),
                       ucast (drop_bit 16 val AND 0xFF), ucast (drop_bit 24 val AND 0xFF)]) 4"

definition pb_encode_fixed64 :: "'u pb_ostream_t \<Rightarrow> u64 \<Rightarrow> (unit, 'u pb_ostream_t) outcome" where
  "pb_encode_fixed64 s val =
     pb_write s (Some [ucast (val AND 0xFF), ucast (drop_bit 8 val AND 0xFF),
                       ucast (drop_bit 16 val AND 0xFF), ucast (drop_bit 24 val AND 0xFF),
                       ucast (drop_bit 32 val AND 0xFF), ucast (drop_bit 40 val AND 0xFF),
                       ucast (drop_bit 48 val AND 0xFF), ucast (drop_bit 56 val AND 0xFF)]) 8"

definition pb_encode_tag :: "'u pb_ostream_t \<Rightarrow> u32 \<Rightarrow> u32 \<Rightarrow> (unit, 'u pb_ostream_t) outcome" where
  "pb_encode_tag s wiretype field_number =
     pb_encode_varint s (push_bit 3 (ucast field_number) OR ucast wiretype)"

definition pb_encode_string ::
  "'u pb_ostream_t \<Rightarrow> byte list option \<Rightarrow> size_t \<Rightarrow> (unit, 'u pb_ostream_t) outcome" where
  "pb_encode_string s buffer n =
     obind (pb_encode_varint s n) (\<lambda>_ s'. pb_write s' buffer n)"

end
