(* ===== verification/Varint.thy ===== *)
theory Varint
  imports Prelude
begin

text \<open>
  The abstract specification of the base-128 encoding of the protobuf wire format: groups of
  seven bits, least significant first, with the top bit set on every byte but the last.  It
  is stated over natural numbers and byte lists, with no stream and no machine width, and is
  what the encoder and the decoders of nanopb are compared with.
\<close>

unbundle bit_operations_syntax

fun varint_value :: "byte list \<Rightarrow> nat" where
  "varint_value [] = 0"
| "varint_value (b # bs) = unat b mod 128 + 128 * varint_value bs"

text \<open>The number of bytes of the varint a byte string starts with; \<open>None\<close> when the string ends inside it.\<close>

fun varint_len :: "byte list \<Rightarrow> nat option" where
  "varint_len [] = None"
| "varint_len (b # bs) = (if 128 \<le> unat b then map_option Suc (varint_len bs) else Some 1)"

function varint_enc :: "nat \<Rightarrow> byte list" where
  "varint_enc n =
     (if n < 128 then [of_nat n] else of_nat (n mod 128 + 128) # varint_enc (n div 128))"
  by pat_completeness auto
termination by (relation "measure id") auto

declare varint_enc.simps [simp del]

lemma varint_enc_small: "n < 128 \<Longrightarrow> varint_enc n = [of_nat n]"
  by (subst varint_enc.simps) simp

lemma varint_enc_big:
  "128 \<le> n \<Longrightarrow> varint_enc n = of_nat (n mod 128 + 128) # varint_enc (n div 128)"
  by (subst varint_enc.simps) simp

lemma unat_byte_of_nat: "n < 256 \<Longrightarrow> unat (of_nat n :: byte) = n"
  by (rule unat_of_nat_less) simp

lemma varint_enc_not_Nil [simp]: "varint_enc n \<noteq> []"
  by (subst varint_enc.simps) simp

lemma varint_value_enc [simp]: "varint_value (varint_enc n) = n"
proof (induction n rule: varint_enc.induct)
  case (1 n)
  show ?case
  proof (cases "n < 128")
    case True
    then show ?thesis by (simp add: varint_enc_small unat_byte_of_nat)
  next
    case False
    then have "unat (of_nat (n mod 128 + 128) :: byte) mod 128 = n mod 128"
      by (subst unat_byte_of_nat) auto
    with False 1 show ?thesis by (simp add: varint_enc_big)
  qed
qed

lemma varint_len_enc [simp]: "varint_len (varint_enc n @ rest) = Some (length (varint_enc n))"
proof (induction n rule: varint_enc.induct)
  case (1 n)
  show ?case
  proof (cases "n < 128")
    case True
    then show ?thesis by (simp add: varint_enc_small unat_byte_of_nat)
  next
    case False
    then have "unat (of_nat (n mod 128 + 128) :: byte) = n mod 128 + 128"
      by (subst unat_byte_of_nat) auto
    with False 1 show ?thesis by (simp add: varint_enc_big)
  qed
qed

lemma varint_len_bounds: "varint_len bs = Some k \<Longrightarrow> 0 < k \<and> k \<le> length bs"
  by (induction bs arbitrary: k) (auto split: if_splits)

lemma length_varint_enc: "n < 128 ^ k \<Longrightarrow> 0 < k \<Longrightarrow> length (varint_enc n) \<le> k"
proof (induction k arbitrary: n)
  case 0
  then show ?case by simp
next
  case (Suc k)
  show ?case
  proof (cases "n < 128")
    case True
    then show ?thesis by (simp add: varint_enc_small)
  next
    case False
    with Suc.prems have "n div 128 < 128 ^ k" by (simp add: less_mult_imp_div_less mult.commute)
    moreover from False Suc.prems have "0 < k" by (cases k) auto
    ultimately have "length (varint_enc (n div 128)) \<le> k" by (rule Suc.IH)
    with False show ?thesis by (simp add: varint_enc_big)
  qed
qed

text \<open>The canonical encoding is the shortest: a varint whose last byte is not zero is the encoding
  of its value.\<close>

lemma varint_enc_value:
  "varint_len bs = Some (length bs) \<Longrightarrow> length bs = 1 \<or> last bs \<noteq> 0 \<Longrightarrow>
   varint_enc (varint_value bs) = bs"
proof (induction bs)
  case Nil
  then show ?case by simp
next
  case (Cons b bs)
  show ?case
  proof (cases "128 \<le> unat b")
    case True
    with Cons.prems have l: "varint_len bs = Some (length bs)" by auto
    then have ne: "bs \<noteq> []" by (cases bs) auto
    with Cons.prems have lb: "last bs \<noteq> 0" by (cases bs) auto
    with Cons.IH l have e: "varint_enc (varint_value bs) = bs" by simp
    have "varint_value bs \<noteq> 0"
    proof
      assume "varint_value bs = 0"
      with e have "bs = [0]" by (simp add: varint_enc_small)
      with lb show False by simp
    qed
    moreover have b256: "unat b < 256" using unat_lt_2p [of b] by simp
    ultimately obtain c where c: "unat b = c + 128" "c < 128" and v: "0 < varint_value bs"
      using True le_Suc_ex [OF True] by (auto simp: add.commute)
    then have "varint_enc (varint_value (b # bs)) = of_nat (c + 128) # varint_enc (varint_value bs)"
      by (subst varint_enc_big) auto
    moreover from c have "b = of_nat (c + 128)"
      by (simp only: word_unat_eq_iff unat_byte_of_nat)
    ultimately show ?thesis using e by simp
  next
    case False
    with Cons.prems have "bs = []" by auto
    with False show ?thesis by (simp add: varint_enc_small)
  qed
qed

text \<open>The value of a varint of at most five bytes fits 32 bits exactly when a fifth byte has only its
  four low bits set.\<close>

lemma varint_value_take_bound: "varint_len bs = Some k \<Longrightarrow> varint_value (take k bs) < 128 ^ k"
proof (induction bs arbitrary: k)
  case Nil
  then show ?case by simp
next
  case (Cons b bs)
  show ?case
  proof (cases "128 \<le> unat b")
    case True
    with Cons.prems obtain j where j: "k = Suc j" "varint_len bs = Some j" by auto
    with Cons.IH have "varint_value (take j bs) + 1 \<le> 128 ^ j" by (simp add: Suc_le_eq)
    then have "128 * (varint_value (take j bs) + 1) \<le> 128 * 128 ^ j" by (rule mult_le_mono2)
    then have "128 * varint_value (take j bs) + 128 \<le> 128 * 128 ^ j" by simp
    moreover have "unat b mod 128 < 128" by simp
    ultimately have "unat b mod 128 + 128 * varint_value (take j bs) < 128 * 128 ^ j" by linarith
    with j show ?thesis by simp
  next
    case False
    with Cons.prems show ?thesis by auto
  qed
qed

lemma varint_last_byte: "varint_len bs = Some k \<Longrightarrow> unat (bs ! (k - 1)) < 128"
  by (induction bs arbitrary: k) (auto split: if_splits dest: varint_len_bounds simp: nth_Cons')

lemma varint_value_split_last:
  "varint_len bs = Some k \<Longrightarrow>
   \<exists>r < 128 ^ (k - 1). varint_value (take k bs) = r + 128 ^ (k - 1) * unat (bs ! (k - 1))"
proof (induction bs arbitrary: k)
  case Nil
  then show ?case by simp
next
  case (Cons b bs)
  show ?case
  proof (cases "128 \<le> unat b")
    case True
    with Cons.prems obtain j where j: "k = Suc j" "varint_len bs = Some j" by auto
    then have "0 < j" by (auto dest: varint_len_bounds)
    then obtain i where i: "j = Suc i" by (cases j) auto
    from Cons.IH [OF j(2)] i obtain r where r: "r < 128 ^ i"
      "varint_value (take j bs) = r + 128 ^ i * unat (bs ! i)" by auto
    have "unat b mod 128 + 128 * r < 128 ^ Suc i"
    proof -
      have "unat b mod 128 < 128" by simp
      moreover have "128 * (r + 1) \<le> 128 * 128 ^ i" using r(1) by (intro mult_le_mono2) simp
      ultimately show ?thesis by simp
    qed
    with r j i show ?thesis
      by (intro exI [of _ "unat b mod 128 + 128 * r"]) (simp add: algebra_simps)
  next
    case False
    with Cons.prems show ?thesis by auto
  qed
qed

lemma varint5_fits_iff:
  assumes "varint_len bs = Some 5"
  shows "varint_value (take 5 bs) < 2 ^ 32 \<longleftrightarrow> unat (bs ! 4) < 16"
proof -
  from varint_value_split_last [OF assms] obtain r where
    "r < 128 ^ 4" "varint_value (take 5 bs) = r + 128 ^ 4 * unat (bs ! 4)" by auto
  then have v: "r < 268435456" "varint_value (take 5 bs) = r + 268435456 * unat (bs ! 4)"
    by simp_all
  have "varint_value (take 5 bs) < 4294967296 \<longleftrightarrow> unat (bs ! 4) < 16"
  proof
    assume "varint_value (take 5 bs) < 4294967296"
    with v show "unat (bs ! 4) < 16" by linarith
  next
    assume "unat (bs ! 4) < 16"
    then have "unat (bs ! 4) \<le> 15" by simp
    with v show "varint_value (take 5 bs) < 4294967296" by linarith
  qed
  then show ?thesis by simp
qed

end
