(* ===== verification/ByteIO.thy ===== *)
theory ByteIO
  imports Prelude
begin

text \<open>
  The two interfaces that the parsers and the serialisers of the program rely on.

  \<open>byte_source\<close>: an object that holds the unread rest of an input; taking \<open>n\<close> bytes returns the
  first \<open>n\<close> of them and moves on, or fails and leaves the input alone.  Interpreted on nanopb's
  memory streams and on BoringSSL's \<open>CBS\<close>.

  \<open>byte_sink\<close>: an object that output is appended to as long as there is room.  Interpreted on
  nanopb's output streams, over memory and for sizing; BoringSSL's \<open>CBB\<close>, whose children nest, has a specification of its own.
\<close>

locale byte_source =
  fixes ok :: "'s \<Rightarrow> bool"
    and unread :: "'s \<Rightarrow> byte list"
    and skip :: "'s \<Rightarrow> nat \<Rightarrow> 's"
    and get :: "'s \<Rightarrow> nat \<Rightarrow> (byte list, 's) outcome"
  assumes get_enough: "ok s \<Longrightarrow> n \<le> length (unread s) \<Longrightarrow> get s n = Ok (take n (unread s)) (skip s n)"
    and get_short: "ok s \<Longrightarrow> length (unread s) < n \<Longrightarrow> n < 2 ^ 64 \<Longrightarrow>
      \<exists>s'. get s n = Fail s' \<and> unread s' = unread s"
    and ok_skip: "ok s \<Longrightarrow> n \<le> length (unread s) \<Longrightarrow> ok (skip s n)"
    and unread_skip: "ok s \<Longrightarrow> n \<le> length (unread s) \<Longrightarrow> unread (skip s n) = drop n (unread s)"
    and skip_skip: "ok s \<Longrightarrow> m + n \<le> length (unread s) \<Longrightarrow> skip (skip s m) n = skip s (m + n)"
begin

text \<open>Two reads in a row are one read.\<close>

lemma get_get:
  assumes "ok s" and "m + n \<le> length (unread s)"
  shows "obind (get s m) (\<lambda>xs s'. obind (get s' n) (\<lambda>ys s''. Ok (xs @ ys) s'')) = get s (m + n)"
proof -
  have "get s m = Ok (take m (unread s)) (skip s m)"
    using assms by (simp add: get_enough)
  moreover have "get (skip s m) n = Ok (take n (drop m (unread s))) (skip s (m + n))"
    using assms by (simp add: get_enough ok_skip unread_skip skip_skip)
  ultimately show ?thesis
    using assms by (simp add: get_enough take_add)
qed

text \<open>Reading back what a writer put in front.\<close>

lemma get_prefix:
  assumes "ok s" and "unread s = xs @ ys"
  shows "get s (length xs) = Ok xs (skip s (length xs))" "unread (skip s (length xs)) = ys"
    "ok (skip s (length xs))"
  using assms by (simp_all add: get_enough unread_skip ok_skip)

lemma get_no_fault: "ok s \<Longrightarrow> n < 2 ^ 64 \<Longrightarrow> get s n \<noteq> Fault"
  using get_enough [of s n] get_short [of s n] by (cases "n \<le> length (unread s)") auto

end

locale byte_sink =
  fixes ok :: "'s \<Rightarrow> bool"
    and fits :: "'s \<Rightarrow> nat \<Rightarrow> bool"
    and emit :: "'s \<Rightarrow> byte list \<Rightarrow> 's"
    and put :: "'s \<Rightarrow> byte list \<Rightarrow> (unit, 's) outcome"
  assumes put_fits: "ok s \<Longrightarrow> fits s (length bs) \<Longrightarrow> put s bs = Ok () (emit s bs)"
    and put_full: "ok s \<Longrightarrow> \<not> fits s (length bs) \<Longrightarrow> length bs < 2 ^ 64 \<Longrightarrow> \<exists>s'. put s bs = Fail s'"
    and ok_emit: "ok s \<Longrightarrow> fits s (length bs) \<Longrightarrow> ok (emit s bs)"
    and emit_emit: "ok s \<Longrightarrow> fits s (length (xs @ ys)) \<Longrightarrow> emit (emit s xs) ys = emit s (xs @ ys)"
    and fits_emit: "ok s \<Longrightarrow> fits s (length xs) \<Longrightarrow> fits (emit s xs) n \<longleftrightarrow> fits s (length xs + n)"
    and fits_mono: "ok s \<Longrightarrow> fits s n \<Longrightarrow> m \<le> n \<Longrightarrow> fits s m"
begin

text \<open>Writing a sequence of pieces is writing their concatenation.\<close>

fun put_all :: "'s \<Rightarrow> byte list list \<Rightarrow> (unit, 's) outcome" where
  "put_all s [] = Ok () s"
| "put_all s (bs # bss) = obind (put s bs) (\<lambda>_ s'. put_all s' bss)"

lemma put_put:
  assumes "ok s" and "fits s (length xs + length ys)"
  shows "obind (put s xs) (\<lambda>_ s'. put s' ys) = put s (xs @ ys)"
proof -
  have fx: "fits s (length xs)" using assms by (auto intro: fits_mono [of s "length xs + length ys"])
  with assms have "put (emit s xs) ys = Ok () (emit (emit s xs) ys)"
    by (simp add: put_fits ok_emit fits_emit)
  with fx assms show ?thesis by (simp add: put_fits emit_emit)
qed

lemma put_all_concat:
  assumes "ok s" and "fits s (length (concat bss))" and "bss \<noteq> []"
  shows "put_all s bss = Ok () (emit s (concat bss))"
  using assms
proof (induction bss arbitrary: s)
  case Nil
  then show ?case by simp
next
  case (Cons bs bss)
  have fx: "fits s (length bs)"
    using Cons.prems by (auto intro: fits_mono [of s "length (concat (bs # bss))"])
  show ?case
  proof (cases "bss = []")
    case True
    with Cons.prems fx show ?thesis by (simp add: put_fits)
  next
    case False
    have "put_all (emit s bs) bss = Ok () (emit (emit s bs) (concat bss))"
      using Cons.prems fx False by (intro Cons.IH) (simp_all add: ok_emit fits_emit)
    with Cons.prems fx show ?thesis by (simp add: put_fits emit_emit)
  qed
qed

end

end
