(* ===== verification/PbWire.thy ===== *)
theory PbWire
  imports PbIStream PbOStream Varint ByteIO "HOL-Library.Sublist"
begin

text \<open>
  Correctness of nanopb's stream layer.  The memory streams of \<^verbatim>\<open>pb_decode.c\<close> and
  \<^verbatim>\<open>pb_encode.c\<close> are compared with byte lists: \<open>input s\<close> is what a well-formed input stream still
  has to deliver, \<open>advance s n\<close> the stream after \<open>n\<close> of these bytes, \<open>emit s bs\<close> an output stream after
  \<open>bs\<close> was appended.  Every decoder is then a function of \<open>input s\<close> and every encoder an \<open>emit\<close>.
\<close>

unbundle bit_operations_syntax

section \<open>Input streams as byte lists\<close>

text \<open>Well-formed memory streams: the promised bytes exist.\<close>

definition istream_ok :: "'u pb_istream_t \<Rightarrow> bool" where
  "istream_ok s =
     ((case callback s of buf_read_cb \<Rightarrow> True | user_read_cb _ \<Rightarrow> False) \<and>
      (case state s of BufState mem \<Rightarrow> unat (bytes_left s) \<le> length mem | UserState _ \<Rightarrow> False))"

definition input :: "'u pb_istream_t \<Rightarrow> byte list" where
  "input s = (case state s of BufState mem \<Rightarrow> take (unat (bytes_left s)) mem | UserState _ \<Rightarrow> [])"

definition advance :: "'u pb_istream_t \<Rightarrow> nat \<Rightarrow> 'u pb_istream_t" where
  "advance s n =
     s\<lparr>state := (case state s of BufState mem \<Rightarrow> BufState (drop n mem) | UserState u \<Rightarrow> UserState u),
       bytes_left := bytes_left s - of_nat n\<rparr>"

lemma istream_ok_cases:
  assumes "istream_ok s"
  obtains mem where "callback s = buf_read_cb" "state s = BufState mem"
    "unat (bytes_left s) \<le> length mem" "input s = take (unat (bytes_left s)) mem"
  using assms by (auto simp: istream_ok_def input_def split: icallback.splits istate.splits)

lemma length_input: "istream_ok s \<Longrightarrow> length (input s) = unat (bytes_left s)"
  by (elim istream_ok_cases) simp

lemma bytes_left_zero_iff: "istream_ok s \<Longrightarrow> bytes_left s = 0 \<longleftrightarrow> input s = []"
  using length_input [of s] by (auto simp: unat_eq_0)

lemma unat_bytes_left_advance:
  assumes "istream_ok s" "n \<le> length (input s)"
  shows "unat (bytes_left (advance s n)) = unat (bytes_left s) - n"
proof -
  have "n \<le> unat (bytes_left s)" using assms by (simp add: length_input)
  moreover have "unat (bytes_left s) < 2 ^ 64" using unat_lt_2p [of "bytes_left s"] by simp
  ultimately have "unat (of_nat n :: size_t) = n" by (intro unat_of_nat_less) simp
  with \<open>n \<le> unat (bytes_left s)\<close> show ?thesis
    by (simp add: advance_def unat_sub_le word_le_nat_alt)
qed

lemma istream_ok_advance [simp]:
  assumes "istream_ok s" "n \<le> length (input s)"
  shows "istream_ok (advance s n)"
proof -
  from assms(1) obtain mem where "callback s = buf_read_cb" "state s = BufState mem"
    "unat (bytes_left s) \<le> length mem"
    by (rule istream_ok_cases)
  with unat_bytes_left_advance [OF assms] show ?thesis by (simp add: istream_ok_def advance_def)
qed

lemma input_advance [simp]:
  assumes "istream_ok s" "n \<le> length (input s)"
  shows "input (advance s n) = drop n (input s)"
  using assms unat_bytes_left_advance [OF assms]
  by (auto elim!: istream_ok_cases simp: input_def advance_def drop_take)

lemma advance_advance [simp]: "advance (advance s m) n = advance s (m + n)"
  by (simp add: advance_def add.commute split: istate.splits)

lemma advance_0 [simp]: "advance s 0 = s"
  by (cases s) (simp add: advance_def split: istate.splits)

lemma errmsg_advance [simp]: "errmsg (advance s n) = errmsg s"
  by (simp add: advance_def)

lemma callback_advance [simp]: "callback (advance s n) = callback s"
  by (simp add: advance_def)

lemma set_error_simps [simp]:
  "istream_ok (PB_SET_ERROR s msg) = istream_ok s" "input (PB_SET_ERROR s msg) = input s"
  "bytes_left (PB_SET_ERROR s msg) = bytes_left s"
  by (simp_all add: PB_SET_ERROR_def istream_ok_def input_def split: istate.splits)

lemma pb_readbyte_ok:
  assumes "istream_ok s"
  shows "pb_readbyte s = (case input s of [] \<Rightarrow> PB_RETURN_ERROR s ''end-of-stream''
                                        | b # _ \<Rightarrow> Ok b (advance s 1))"
proof (cases "input s")
  case Nil
  with assms show ?thesis by (simp add: pb_readbyte_def bytes_left_zero_iff)
next
  case (Cons b bs)
  from assms obtain mem where m: "callback s = buf_read_cb" "state s = BufState mem"
    "unat (bytes_left s) \<le> length mem" "input s = take (unat (bytes_left s)) mem"
    by (rule istream_ok_cases)
  with Cons obtain mem' where "mem = b # mem'" by (cases mem) (auto simp: take_Cons split: nat.splits)
  moreover from assms Cons have "bytes_left s \<noteq> 0" by (simp add: bytes_left_zero_iff)
  ultimately have "pb_readbyte s = Ok b (advance s 1)"
    using m(1,2) by (simp add: pb_readbyte_def call_callback_def buf_read_def advance_def)
  with Cons show ?thesis by simp
qed

lemma pb_read_ok:
  assumes "istream_ok s"
  shows "pb_read s null n =
           (if unat n \<le> length (input s) then Ok (take (unat n) (input s)) (advance s (unat n))
            else PB_RETURN_ERROR s ''end-of-stream'')"
proof -
  from assms obtain mem where m: "callback s = buf_read_cb" "state s = BufState mem"
    "unat (bytes_left s) \<le> length mem" "input s = take (unat (bytes_left s)) mem"
    by (rule istream_ok_cases)
  have "\<not> bytes_left s < n \<longleftrightarrow> unat n \<le> length (input s)"
    using assms by (simp add: length_input word_less_nat_alt not_less)
  with m show ?thesis
    by (auto simp: pb_read_def pb_read_into_def call_callback_def buf_read_def advance_def
          length_input min_def word_less_nat_alt)
qed

text \<open>Nanopb's memory streams are a byte source.\<close>

interpretation pbi: byte_source istream_ok input advance
  "\<lambda>s n. pb_read s False (of_nat n)"
proof (unfold_locales, goal_cases)
  case (1 s n)
  then have "n < 2 ^ 64" using unat_lt_2p [of "bytes_left s"] by (simp add: length_input)
  with 1 show ?case by (simp add: pb_read_ok unat_of_nat_less)
next
  case (2 s n)
  then show ?case by (simp add: pb_read_ok unat_of_nat_less PB_RETURN_ERROR_def)
qed simp_all

section \<open>Varints\<close>

lemma varint64_step:
  assumes "r < 2 ^ (7 * i)"
  shows "(of_nat r :: u64) OR push_bit (7 * i) (ucast ((b :: byte) AND 0x7F)) =
           of_nat (r + 2 ^ (7 * i) * (unat b mod 128))"
  using or_push_bit_of_nat [OF assms, where 'a = 64, of "unat b mod 128"]
  by (simp only: ucast_eq_of_nat unat_and_0x7F)

lemma bitpos_of_nat:
  assumes "i \<le> 10"
  shows "unat (of_nat (7 * i) :: 8 word) = 7 * i" "64 \<le> (of_nat (7 * i) :: 8 word) \<longleftrightarrow> i = 10"
    "(of_nat (7 * i) + 7 :: 8 word) = of_nat (7 * Suc i)"
proof -
  show u: "unat (of_nat (7 * i) :: 8 word) = 7 * i" using assms by (intro unat_of_nat_less) simp
  show "64 \<le> (of_nat (7 * i) :: 8 word) \<longleftrightarrow> i = 10"
    using assms by (simp only: word_le_nat_alt u) auto
  show "(of_nat (7 * i) + 7 :: 8 word) = of_nat (7 * Suc i)" by simp
qed

definition varint64_result ::
  "'u pb_istream_t \<Rightarrow> nat \<Rightarrow> nat \<Rightarrow> (u64, 'u pb_istream_t) outcome" where
  "varint64_result s r i =
     (case varint_len (input s) of
        Some k \<Rightarrow>
          (if i + k \<le> 10
           then Ok (of_nat (r + 2 ^ (7 * i) * varint_value (take k (input s)))) (advance s k)
           else PB_RETURN_ERROR (advance s (10 - i)) ''varint overflow'')
      | None \<Rightarrow>
          (if length (input s) < 10 - i
           then PB_RETURN_ERROR (advance s (length (input s))) ''end-of-stream''
           else PB_RETURN_ERROR (advance s (10 - i)) ''varint overflow''))"

lemma varint64_loop_eq:
  "istream_ok s \<Longrightarrow> i \<le> 10 \<Longrightarrow> r < 2 ^ (7 * i) \<Longrightarrow>
   varint64_loop s (of_nat r) (of_nat (7 * i)) = varint64_result s r i"
proof (induction "10 - i" arbitrary: i s r)
  case 0
  then have "i = 10" by simp
  with bitpos_of_nat(2) [of 10] have "64 \<le> (of_nat (7 * i) :: 8 word)" by simp
  with \<open>i = 10\<close> show ?case
    by (subst varint64_loop.simps) (auto simp: varint64_result_def dest: varint_len_bounds split: option.splits)
next
  case (Suc j)
  then have i: "i < 10" by simp
  with bitpos_of_nat [of i] have bp: "\<not> 64 \<le> (of_nat (7 * i) :: 8 word)"
    "unat (of_nat (7 * i) :: 8 word) = 7 * i" "(of_nat (7 * i) + 7 :: 8 word) = of_nat (7 * Suc i)"
    by auto
  show ?case
  proof (cases "input s")
    case Nil
    then show ?thesis using i Suc.prems bp
      by (subst varint64_loop.simps) (simp add: pb_readbyte_ok varint64_result_def PB_RETURN_ERROR_def)
  next
    case (Cons b bs)
    let ?r = "r + 2 ^ (7 * i) * (unat b mod 128)"
    have r: "?r < 2 ^ (7 * Suc i)"
    proof -
      have "?r < 2 ^ (7 * i) + 2 ^ (7 * i) * (unat b mod 128)" using Suc.prems by simp
      also have "\<dots> = 2 ^ (7 * i) * (1 + unat b mod 128)" by simp
      also have "\<dots> \<le> 2 ^ (7 * i) * 128" by (intro mult_le_mono2) (simp add: Suc_le_eq)
      finally show ?thesis by (simp add: power_add)
    qed
    have step: "varint64_loop s (of_nat r) (of_nat (7 * i)) =
        (if 128 \<le> unat b then varint64_loop (advance s 1) (of_nat ?r) (of_nat (7 * Suc i))
         else Ok (of_nat ?r) (advance s 1))"
      using Suc.prems Cons bp
      by (subst varint64_loop.simps)
         (simp only: pb_readbyte_ok list.case obind.simps Let_def varint64_step and_0x80_iff if_False if_not_P)
    show ?thesis
    proof (cases "128 \<le> unat b")
      case True
      have "varint64_loop (advance s 1) (of_nat ?r) (of_nat (7 * Suc i)) =
          varint64_result (advance s 1) ?r (Suc i)"
        using Suc.prems Suc.hyps(2) Cons r by (intro Suc.hyps(1)) auto
      also have "\<dots> = varint64_result s r i"
        using True Cons Suc.prems i Suc_diff_le [of i 9]
        by (auto simp: varint64_result_def power_add algebra_simps split: option.splits)
      finally show ?thesis using step True by simp
    next
      case False
      with Cons i show ?thesis unfolding step by (simp add: varint64_result_def)
    qed
  qed
qed

text \<open>The 32-bit decoder on varints of at most five bytes.\<close>

lemma varint32_step:
  assumes "r < 2 ^ (7 * i)"
  shows "(of_nat r :: u32) OR push_bit (7 * i) (ucast ((b :: byte) AND 0x7F)) =
           of_nat (r + 2 ^ (7 * i) * (unat b mod 128))"
  using or_push_bit_of_nat [OF assms, where 'a = 32, of "unat b mod 128"]
  by (simp only: ucast_eq_of_nat unat_and_0x7F)

lemma varint_group_bound:
  assumes "r < 2 ^ (7 * i)"
  shows "r + 2 ^ (7 * i) * (unat (b :: byte) mod 128) < 2 ^ (7 * Suc i)"
proof -
  have "r + 2 ^ (7 * i) * (unat b mod 128) < 2 ^ (7 * i) + 2 ^ (7 * i) * (unat b mod 128)"
    using assms by simp
  also have "\<dots> = 2 ^ (7 * i) * (1 + unat b mod 128)" by simp
  also have "\<dots> \<le> 2 ^ (7 * i) * 128" by (intro mult_le_mono2) (simp add: Suc_le_eq)
  finally show ?thesis by (simp add: power_add)
qed

lemma bitpos32_of_nat:
  assumes "i \<le> 4"
  shows "\<not> 32 \<le> (of_nat (7 * i) :: 8 word)"
proof -
  have u: "unat (of_nat (7 * i) :: 8 word) = 7 * i" using assms by (intro unat_of_nat_less) simp
  show ?thesis using assms by (simp only: word_le_nat_alt u) auto
qed

lemma varint32_loop_step:
  assumes "istream_ok s" "input s = b # bs" "i \<le> 4" "r < 2 ^ (7 * i)"
  shows "varint32_loop s (of_nat r) (of_nat (7 * i)) =
    (let r' = r + 2 ^ (7 * i) * (unat b mod 128) in
     if 128 \<le> unat b then varint32_loop (advance s 1) (of_nat r') (of_nat (7 * Suc i))
     else Ok (of_nat r', of_nat (7 * Suc i), b) (advance s 1))"
  using assms bitpos32_of_nat [OF assms(3)] bitpos_of_nat [of i]
  by (subst varint32_loop.simps)
     (simp only: pb_readbyte_ok list.case obind.simps Let_def varint32_step and_0x80_iff if_False
        simp_thms)

lemma varint32_loop_short:
  "istream_ok s \<Longrightarrow> varint_len (input s) = Some k \<Longrightarrow> i + k \<le> 5 \<Longrightarrow> r < 2 ^ (7 * i) \<Longrightarrow>
   varint32_loop s (of_nat r) (of_nat (7 * i)) =
     Ok (of_nat (r + 2 ^ (7 * i) * varint_value (take k (input s))), of_nat (7 * (i + k)),
         input s ! (k - 1)) (advance s k)"
proof (induction k arbitrary: i s r)
  case 0
  then show ?case by (auto dest: varint_len_bounds)
next
  case (Suc k)
  then obtain b bs where inp: "input s = b # bs" by (cases "input s") auto
  let ?r = "r + 2 ^ (7 * i) * (unat b mod 128)"
  have step: "varint32_loop s (of_nat r) (of_nat (7 * i)) =
      (if 128 \<le> unat b then varint32_loop (advance s 1) (of_nat ?r) (of_nat (7 * Suc i))
       else Ok (of_nat ?r, of_nat (7 * Suc i), b) (advance s 1))"
    using varint32_loop_step [OF Suc.prems(1) inp _ Suc.prems(4)] Suc.prems(3) by (simp add: Let_def)
  show ?case
  proof (cases "128 \<le> unat b")
    case True
    with Suc.prems inp have l: "varint_len bs = Some k" by auto
    then have "0 < k" by (auto dest: varint_len_bounds)
    have "varint32_loop (advance s 1) (of_nat ?r) (of_nat (7 * Suc i)) =
      Ok (of_nat (?r + 2 ^ (7 * Suc i) * varint_value (take k (input (advance s 1)))),
          of_nat (7 * (Suc i + k)), input (advance s 1) ! (k - 1)) (advance (advance s 1) k)"
      using Suc.prems inp l varint_group_bound by (intro Suc.IH) auto
    with True inp Suc.prems(1) \<open>0 < k\<close> show ?thesis unfolding step
      by (simp add: power_add algebra_simps)
  next
    case False
    with Suc.prems inp have "k = 0" by auto
    with False inp show ?thesis unfolding step by simp
  qed
qed

lemma pb_decode_varint32_short:
  assumes ok: "istream_ok s" and len: "varint_len (input s) = Some k" and k: "k \<le> 5"
  shows "pb_decode_varint32 s =
    (if varint_value (take k (input s)) < 2 ^ 32
     then Ok (of_nat (varint_value (take k (input s)))) (advance s k)
     else PB_RETURN_ERROR (advance s k) ''varint overflow'')"
proof -
  from len obtain b bs where inp: "input s = b # bs" by (cases "input s") auto
  show ?thesis
  proof (cases "128 \<le> unat b")
    case False
    with len inp have "k = 1" by auto
    moreover have "b AND 0x80 = 0" using False and_0x80_iff by blast
    ultimately show ?thesis using False ok inp
      by (simp add: pb_decode_varint32_def pb_decode_varint32_eof_def pb_readbyte_ok)
  next
    case True
    with len inp obtain j where j: "k = Suc j" "varint_len bs = Some j" by auto
    then have j0: "0 < j" by (auto dest: varint_len_bounds)
    have "b AND 0x80 \<noteq> 0" using True and_0x80_iff by blast
    moreover have "varint32_loop (advance s 1) (of_nat (unat b mod 128)) (of_nat (7 * 1)) =
      Ok (of_nat (unat b mod 128 + 2 ^ (7 * 1) * varint_value (take j (input (advance s 1)))),
          of_nat (7 * (1 + j)), input (advance s 1) ! (j - 1)) (advance (advance s 1) j)"
      using ok inp j k by (intro varint32_loop_short) auto
    then have "varint32_loop (advance s 1) (ucast (b AND 0x7F)) 7 =
      Ok (of_nat (varint_value (take k (input s))), of_nat (7 * k), bs ! (j - 1)) (advance s k)"
      using ok inp j by (simp add: ucast_eq_of_nat unat_and_0x7F del: ucast_eq_of_nat [symmetric])
    moreover have "(of_nat (7 * k) :: 8 word) = 35 \<longleftrightarrow> k = 5"
    proof -
      have "unat (of_nat (7 * k) :: 8 word) = 7 * k" using k by (intro unat_of_nat_less) simp
      then show ?thesis by (simp add: word_unat_eq_iff)
    qed
    moreover have "varint_value (take k (input s)) < 2 ^ 32 \<longleftrightarrow>
        \<not> (k = 5 \<and> bs ! (j - 1) AND 0x70 \<noteq> 0)"
    proof (cases "k = 5")
      case True
      with varint5_fits_iff [of "input s"] varint_last_byte [OF len] len inp j and_0x70_iff [of "bs ! 3"]
      show ?thesis by (simp add: not_le)
    next
      case False
      with k have "(128::nat) ^ k \<le> 128 ^ 4" by (intro power_increasing) auto
      with False varint_value_take_bound [OF len] show ?thesis by simp
    qed
    ultimately show ?thesis using ok inp
      by (simp add: pb_decode_varint32_def pb_decode_varint32_eof_def pb_readbyte_ok)
  qed
qed

section \<open>Reading stays inside the input\<close>

definition reads_safely :: "'u pb_istream_t \<Rightarrow> ('a, 'u pb_istream_t) outcome \<Rightarrow> bool" where
  "reads_safely s m =
     (case m of
        Fault \<Rightarrow> False
      | Fail s' \<Rightarrow> istream_ok s' \<and> suffix (input s') (input s)
      | Ok _ s' \<Rightarrow> istream_ok s' \<and> suffix (input s') (input s))"

named_theorems safe_intros \<open>readers that stay inside their input\<close>

lemma reads_safely_Ok [simp]:
  "reads_safely s (Ok a s') \<longleftrightarrow> istream_ok s' \<and> suffix (input s') (input s)"
  by (simp add: reads_safely_def)

lemma reads_safely_error [simp]:
  "reads_safely s (PB_RETURN_ERROR s' msg) \<longleftrightarrow> istream_ok s' \<and> suffix (input s') (input s)"
  by (simp add: reads_safely_def PB_RETURN_ERROR_def)

lemma reads_safely_Fail [simp]:
  "reads_safely s (Fail s') \<longleftrightarrow> istream_ok s' \<and> suffix (input s') (input s)"
  by (simp add: reads_safely_def)

lemma reads_safely_obind [safe_intros]:
  assumes "reads_safely s m"
    and "\<And>a s'. m = Ok a s' \<Longrightarrow> istream_ok s' \<Longrightarrow> reads_safely s' (f a s')"
  shows "reads_safely s (obind m f)"
  using assms
  by (cases m) (auto simp: reads_safely_def dest: suffix_order.trans split: outcome.splits)

lemma reads_safely_readbyte [safe_intros]: "istream_ok s \<Longrightarrow> reads_safely s (pb_readbyte s)"
  by (simp add: pb_readbyte_ok suffix_drop suffix_def split: list.splits)

lemma reads_safely_read [safe_intros]: "istream_ok s \<Longrightarrow> reads_safely s (pb_read s null n)"
  by (simp add: pb_read_ok suffix_drop)

lemma reads_safely_varint32_loop [safe_intros]:
  "istream_ok s \<Longrightarrow> reads_safely s (varint32_loop s result bitpos)"
proof (induction s result bitpos rule: varint32_loop.induct)
  case (1 s result bitpos)
  show ?case
    by (subst varint32_loop.simps)
       (auto intro!: reads_safely_obind reads_safely_readbyte 1 simp: Let_def)
qed

lemma reads_safely_varint64_loop [safe_intros]:
  "istream_ok s \<Longrightarrow> reads_safely s (varint64_loop s result bitpos)"
proof (induction s result bitpos rule: varint64_loop.induct)
  case (1 s result bitpos)
  show ?case
    using 1(2) by (subst varint64_loop.simps)
       (auto intro!: reads_safely_obind reads_safely_readbyte 1 simp: Let_def)
qed

lemma reads_safely_varint32_eof [safe_intros]:
  "istream_ok s \<Longrightarrow> reads_safely s (pb_decode_varint32_eof s)"
  unfolding pb_decode_varint32_eof_def
  by (auto intro!: safe_intros split: prod.splits)

lemma reads_safely_varint32 [safe_intros]: "istream_ok s \<Longrightarrow> reads_safely s (pb_decode_varint32 s)"
  by (simp add: pb_decode_varint32_def reads_safely_varint32_eof)

lemma reads_safely_varint [safe_intros]: "istream_ok s \<Longrightarrow> reads_safely s (pb_decode_varint s)"
  by (simp add: pb_decode_varint_def reads_safely_varint64_loop)

lemma reads_safely_skip_varint [safe_intros]: "istream_ok s \<Longrightarrow> reads_safely s (pb_skip_varint s)"
proof (induction s rule: pb_skip_varint.induct)
  case (1 s)
  show ?case
    by (subst pb_skip_varint.simps) (auto intro!: reads_safely_obind reads_safely_read 1)
qed

lemma reads_safely_skip_string [safe_intros]: "istream_ok s \<Longrightarrow> reads_safely s (pb_skip_string s)"
  unfolding pb_skip_string_def by (auto intro!: safe_intros)

lemma reads_safely_skip_field [safe_intros]: "istream_ok s \<Longrightarrow> reads_safely s (pb_skip_field s wt)"
  unfolding pb_skip_field_def by (auto intro!: safe_intros split: pb_wire_type_t.splits)

lemma reads_safely_decode_tag [safe_intros]: "istream_ok s \<Longrightarrow> reads_safely s (fst (pb_decode_tag s))"
  using reads_safely_varint32_eof [of s]
  by (auto simp: pb_decode_tag_def reads_safely_def split: outcome.splits)

lemma reads_safely_raw_varint [safe_intros]: "istream_ok s \<Longrightarrow> reads_safely s (read_raw_varint s room)"
  by (induction s room rule: read_raw_varint.induct) (auto intro!: reads_safely_obind reads_safely_read)

lemma reads_safely_raw_value [safe_intros]: "istream_ok s \<Longrightarrow> reads_safely s (read_raw_value s wt n)"
  unfolding read_raw_value_def by (auto intro!: safe_intros split: pb_wire_type_t.splits)

lemma reads_safely_values [safe_intros]:
  assumes "istream_ok s"
  shows "reads_safely s (pb_decode_bool s)" "reads_safely s (pb_decode_svarint s)"
    "reads_safely s (pb_decode_fixed32 s)" "reads_safely s (pb_decode_fixed64 s)"
  using assms
  unfolding pb_decode_bool_def pb_decode_svarint_def pb_decode_fixed32_def pb_decode_fixed64_def
  by (auto intro!: safe_intros)

section \<open>Skipping fields\<close>

lemma pb_skip_varint_ok:
  "istream_ok s \<Longrightarrow>
   pb_skip_varint s =
     (case varint_len (input s) of
        Some k \<Rightarrow> Ok () (advance s k)
      | None \<Rightarrow> PB_RETURN_ERROR (advance s (length (input s))) ''end-of-stream'')"
proof (induction s rule: pb_skip_varint.induct)
  case (1 s)
  show ?case
  proof (cases "input s")
    case Nil
    then show ?thesis
      using 1(2) by (subst pb_skip_varint.simps) (simp add: pb_read_ok PB_RETURN_ERROR_def)
  next
    case (Cons b bs)
    then have rd: "pb_read s False 1 = Ok [b] (advance s 1)"
      using 1(2) by (simp add: pb_read_ok)
    show ?thesis
    proof (cases "128 \<le> unat b")
      case True
      then have "b AND 0x80 \<noteq> 0" using and_0x80_iff by blast
      moreover from 1(1) [OF rd] this 1(2) Cons have
        "pb_skip_varint (advance s 1) =
           (case varint_len bs of
              Some k \<Rightarrow> Ok () (advance s (Suc k))
            | None \<Rightarrow> PB_RETURN_ERROR (advance s (Suc (length bs))) ''end-of-stream'')"
        by (simp split: option.splits)
      ultimately show ?thesis using True Cons
        by (subst pb_skip_varint.simps) (simp add: rd split: option.splits)
    next
      case False
      then have "b AND 0x80 = 0" using and_0x80_iff by blast
      with False Cons show ?thesis by (subst pb_skip_varint.simps) (simp add: rd)
    qed
  qed
qed

text \<open>The payload of a field of a given wire type, as the protobuf encoding defines it: \<open>Some n\<close> when
  the input starts with a complete payload of \<open>n\<close> bytes.\<close>

definition payload_size :: "pb_wire_type_t \<Rightarrow> byte list \<Rightarrow> nat option" where
  "payload_size wt bs =
     (case wt of
        PB_WT_VARINT \<Rightarrow> varint_len bs
      | PB_WT_64BIT \<Rightarrow> if 8 \<le> length bs then Some 8 else None
      | PB_WT_32BIT \<Rightarrow> if 4 \<le> length bs then Some 4 else None
      | PB_WT_STRING \<Rightarrow>
          (case varint_len bs of
             None \<Rightarrow> None
           | Some k \<Rightarrow>
               (let n = varint_value (take k bs) in
                if k \<le> 5 \<and> n < 2 ^ 32 \<and> k + n \<le> length bs then Some (k + n) else None))
      | PB_WT_OTHER _ \<Rightarrow> None)"

lemma unat_ucast_u32: "unat (ucast (w :: u32) :: size_t) = unat w"
  using unat_lt_2p [of w] by (simp add: unsigned_ucast_eq take_bit_nat_eq_self_iff)

lemma unat_of_nat_u32: "n < 2 ^ 32 \<Longrightarrow> unat (of_nat n :: u32) = n"
  by (rule unat_of_nat_less) simp

lemma pb_skip_field_complete:
  assumes "istream_ok s" and "payload_size wt (input s) = Some n"
  shows "pb_skip_field s wt = Ok () (advance s n)"
proof (cases wt)
  case PB_WT_STRING
  with assms(2) obtain k where k: "varint_len (input s) = Some k" "k \<le> 5"
    "varint_value (take k (input s)) < 2 ^ 32"
    "n = k + varint_value (take k (input s))" "n \<le> length (input s)"
    by (auto simp: payload_size_def Let_def split: option.splits if_splits)
  with assms(1) have "pb_decode_varint32 s =
      Ok (of_nat (varint_value (take k (input s)))) (advance s k)"
    by (simp add: pb_decode_varint32_short)
  moreover from k have "varint_value (take k (input s)) \<le> length (drop k (input s))"
    "k \<le> length (input s)" by auto
  ultimately show ?thesis using PB_WT_STRING k assms(1)
    by (simp add: pb_skip_field_def pb_skip_string_def pb_read_ok unat_ucast_u32 unat_of_nat_u32)
qed (use assms in \<open>auto simp: payload_size_def pb_skip_field_def pb_skip_varint_ok pb_read_ok
       split: if_splits\<close>)

section \<open>Substreams\<close>


lemma pb_make_string_substream_complete:
  assumes ok: "istream_ok s" and len: "varint_len (input s) = Some k" "k \<le> 5"
    and v: "varint_value (take k (input s)) = v" "v < 2 ^ 32" and fits: "k + v \<le> length (input s)"
  shows "pb_make_string_substream s =
    Ok ((advance s k)\<lparr>bytes_left := of_nat v\<rparr>)
       ((advance s k)\<lparr>bytes_left := bytes_left (advance s (k + v))\<rparr>)"
proof -
  have "pb_decode_varint32 s = Ok (of_nat v) (advance s k)"
    using ok len v by (simp add: pb_decode_varint32_short)
  moreover have "(ucast (of_nat v :: u32) :: size_t) = of_nat v"
    using v(2) by (simp add: word_unat_eq_iff unat_ucast_u32 unat_of_nat_u32 unat_of_nat_less)
  moreover have "\<not> bytes_left (advance s k) < of_nat v"
    using fits v(2) ok unat_bytes_left_advance [OF ok, of k]
    by (simp add: word_less_nat_alt unat_of_nat_less length_input)
  ultimately show ?thesis
    by (simp add: pb_make_string_substream_def advance_def split: istate.splits)
qed

text \<open>The substream sees exactly the payload; after it was closed, at whatever position its reader left
  it, the parent stands behind the payload.\<close>

lemma substream_ok:
  assumes ok: "istream_ok s" and fits: "k + v \<le> length (input s)"
  shows "istream_ok ((advance s k)\<lparr>bytes_left := of_nat v\<rparr>)"
    "input ((advance s k)\<lparr>bytes_left := of_nat v\<rparr>) = take v (drop k (input s))"
proof -
  from ok obtain mem where m: "callback s = buf_read_cb" "state s = BufState mem"
    "unat (bytes_left s) \<le> length mem" "input s = take (unat (bytes_left s)) mem"
    by (rule istream_ok_cases)
  have "unat (of_nat v :: size_t) = v"
    using fits length_input [OF ok] unat_lt_2p [of "bytes_left s"] by (intro unat_of_nat_less) simp
  moreover have "k + v \<le> length mem" "k + v \<le> unat (bytes_left s)" using m fits by auto
  ultimately show "istream_ok ((advance s k)\<lparr>bytes_left := of_nat v\<rparr>)"
    "input ((advance s k)\<lparr>bytes_left := of_nat v\<rparr>) = take v (drop k (input s))"
    using m by (simp_all add: istream_ok_def input_def advance_def drop_take min_def)
qed

lemma pb_close_string_substream_ok:
  assumes ok: "istream_ok sub" and j: "j \<le> length (input sub)"
  shows "pb_close_string_substream s (advance sub j) =
    Ok () (s\<lparr>state := state (advance sub (length (input sub))), errmsg := errmsg sub\<rparr>)"
proof -
  have "istream_ok (advance sub j)" "input (advance sub j) = drop j (input sub)" using ok j by auto
  then show ?thesis
    using j by (auto simp: pb_close_string_substream_def pb_read_ok bytes_left_zero_iff
        length_input [symmetric])
qed

section \<open>Sign-extended negative numbers\<close>

lemma varint32_tail:
  assumes "istream_ok s" "input s = [0xFF, 0xFF, 0xFF, 0xFF, 0x01] @ rest" "drop_bit 31 result \<noteq> (0 :: u32)"
  shows "varint32_loop s result 35 = Ok (result, 70, 1) (advance s 5)"
proof -
  have rb: "pb_readbyte (advance s j) = Ok (input s ! j) (advance s (Suc j))" if "j < 5" for j
  proof -
    have "drop j (input s) = input s ! j # drop (Suc j) (input s)"
      using that assms(2) by (intro Cons_nth_drop_Suc [symmetric]) simp
    with that assms(1,2) show ?thesis by (simp add: pb_readbyte_ok)
  qed
  have "varint32_loop (advance s 4) result 63 = Ok (result, 70, 1) (advance s 5)"
    using assms rb [of 4] by (subst varint32_loop.simps) simp
  then have "varint32_loop (advance s 3) result 56 = Ok (result, 70, 1) (advance s 5)"
    using assms rb [of 3] by (subst varint32_loop.simps) simp
  then have "varint32_loop (advance s 2) result 49 = Ok (result, 70, 1) (advance s 5)"
    using assms rb [of 2] by (subst varint32_loop.simps) simp
  then have "varint32_loop (advance s 1) result 42 = Ok (result, 70, 1) (advance s 5)"
    using assms rb [of 1] numeral_2_eq_2 by (subst varint32_loop.simps) simp
  then show ?thesis
    using assms rb [of 0] by (subst varint32_loop.simps) simp
qed

text \<open>A loop over leading groups that all have the continuation bit.\<close>

lemma varint32_loop_groups:
  "istream_ok s \<Longrightarrow> input s = gs @ rest \<Longrightarrow> \<forall>g \<in> set gs. 128 \<le> unat g \<Longrightarrow> i + length gs \<le> 5 \<Longrightarrow>
   r < 2 ^ (7 * i) \<Longrightarrow>
   varint32_loop s (of_nat r) (of_nat (7 * i)) =
     varint32_loop (advance s (length gs)) (of_nat (r + 2 ^ (7 * i) * varint_value gs))
       (of_nat (7 * (i + length gs)))"
proof (induction gs arbitrary: s i r)
  case Nil
  then show ?case by simp
next
  case (Cons g gs)
  have "varint32_loop s (of_nat r) (of_nat (7 * i)) =
      varint32_loop (advance s 1) (of_nat (r + 2 ^ (7 * i) * (unat g mod 128))) (of_nat (7 * Suc i))"
    using varint32_loop_step [of s g "gs @ rest" i r] Cons.prems by (simp add: Let_def)
  also have "\<dots> = varint32_loop (advance (advance s 1) (length gs))
      (of_nat (r + 2 ^ (7 * i) * (unat g mod 128) + 2 ^ (7 * Suc i) * varint_value gs))
      (of_nat (7 * (Suc i + length gs)))"
    using Cons.prems varint_group_bound by (intro Cons.IH) auto
  also have "r + 2 ^ (7 * i) * (unat g mod 128) + 2 ^ (7 * Suc i) * varint_value gs =
      r + 2 ^ (7 * i) * varint_value (g # gs)"
    by (simp add: power_add algebra_simps)
  finally show ?case by simp
qed

text \<open>Peeling off groups of the canonical encoding.\<close>

fun low_groups :: "nat \<Rightarrow> nat \<Rightarrow> byte list" where
  "low_groups 0 n = []"
| "low_groups (Suc k) n = of_nat (n mod 128 + 128) # low_groups k (n div 128)"

lemma length_low_groups [simp]: "length (low_groups k n) = k"
  by (induction k arbitrary: n) auto

lemma varint_enc_low_groups: "128 ^ k \<le> n \<Longrightarrow> varint_enc n = low_groups k n @ varint_enc (n div 128 ^ k)"
proof (induction k arbitrary: n)
  case 0
  then show ?case by simp
next
  case (Suc k)
  then have "128 ^ k \<le> n div 128" by (simp add: less_eq_div_iff_mult_less_eq mult.commute)
  moreover have "128 * 1 \<le> 128 * (128 :: nat) ^ k" by (intro mult_le_mono2) simp
  with Suc.prems have "128 \<le> n" by (simp only: power_Suc)
  ultimately show ?case using Suc.IH [of "n div 128"] by (simp add: varint_enc_big div_mult2_eq)
qed

lemma low_groups_cont: "\<forall>g \<in> set (low_groups k n). 128 \<le> unat g"
proof (induction k arbitrary: n)
  case (Suc k)
  have "unat (of_nat (n mod 128 + 128) :: byte) = n mod 128 + 128"
    by (rule unat_byte_of_nat) (simp add: less_trans [OF mod_less_divisor])
  with Suc show ?case by simp
qed simp

lemma varint_value_low_groups: "varint_value (low_groups k n) = n mod 128 ^ k"
proof (induction k arbitrary: n)
  case (Suc k)
  have "unat (of_nat (n mod 128 + 128) :: byte) = n mod 128 + 128"
    by (rule unat_byte_of_nat) (simp add: less_trans [OF mod_less_divisor])
  with Suc show ?case by (simp add: mod_mult2_eq)
qed simp

lemma pb_decode_varint32_negative:
  assumes ok: "istream_ok s" and m: "0 < m" "m \<le> 2 ^ 31"
    and inp: "input s = varint_enc (2 ^ 64 - m) @ rest"
  shows "pb_decode_varint32 s = Ok (- of_nat m) (advance s 10)"
proof -
  let ?n = "(2 :: nat) ^ 64 - m"
  have "?n div 128 ^ 5 = 2 ^ 29 - 1"
  proof (rule div_nat_eqI)
    show "128 ^ 5 * (2 ^ 29 - 1) \<le> ?n" "?n < 128 ^ 5 * Suc (2 ^ 29 - 1)" using m by simp_all
  qed
  moreover have "varint_enc (2 ^ 29 - 1) = [0xFF, 0xFF, 0xFF, 0xFF, 0x01]"
    by (simp add: varint_enc_big varint_enc_small)
  moreover have "128 ^ 5 \<le> ?n" using m by simp
  ultimately have e: "varint_enc ?n = low_groups 5 ?n @ [0xFF, 0xFF, 0xFF, 0xFF, 0x01]"
    using varint_enc_low_groups [of 5 ?n] by argo
  define g gs where "g = hd (low_groups 5 ?n)" and "gs = tl (low_groups 5 ?n)"
  have l: "low_groups 5 ?n = g # gs" "length gs = 4"
    unfolding g_def gs_def by (simp_all flip: length_0_conv)
  have c: "128 \<le> unat g" "\<forall>x \<in> set gs. 128 \<le> unat x" using low_groups_cont [of 5 ?n] l by auto
  have i1: "input (advance s 1) = gs @ [0xFF, 0xFF, 0xFF, 0xFF, 0x01] @ rest" "input s = g # gs @ [0xFF, 0xFF, 0xFF, 0xFF, 0x01] @ rest"
    using ok inp e l by auto
  have v: "unat g mod 128 + 128 * varint_value gs = ?n mod 128 ^ 5"
    using varint_value_low_groups [of 5 ?n] l by simp
  have "varint32_loop (advance s 1) (of_nat (unat g mod 128)) (of_nat (7 * 1)) =
      varint32_loop (advance (advance s 1) (length gs))
        (of_nat (unat g mod 128 + 2 ^ (7 * 1) * varint_value gs)) (of_nat (7 * (1 + length gs)))"
    using ok i1 c l by (intro varint32_loop_groups) auto
  also have "\<dots> = varint32_loop (advance s 5) (of_nat (?n mod 128 ^ 5)) 35"
    using v l by simp
  also have "(of_nat (?n mod 128 ^ 5) :: u32) = - of_nat m"
  proof -
    have "(of_nat ?n :: u32) = of_nat (128 ^ 5 * (?n div 128 ^ 5) + ?n mod 128 ^ 5)" by simp
    also have "\<dots> = of_nat (128 ^ 5) * of_nat (?n div 128 ^ 5) + of_nat (?n mod 128 ^ 5)"
      by (simp only: of_nat_add of_nat_mult)
    also have "(of_nat (128 ^ 5) :: u32) = 0" by simp
    finally have "(of_nat (?n mod 128 ^ 5) :: u32) = of_nat ?n" by simp
    also have "(of_nat ?n :: u32) = of_nat (2 ^ 64) - of_nat m" using m by (intro of_nat_diff) simp
    also have "(of_nat (2 ^ 64) :: u32) = 0" by simp
    finally show ?thesis by simp
  qed
  also have "varint32_loop (advance s 5) (- of_nat m) 35 = Ok (- of_nat m, 70, 1) (advance (advance s 5) 5)"
  proof (rule varint32_tail)
    have "(- of_nat m :: u32) = of_nat (2 ^ 32) - of_nat m" by simp
    also have "\<dots> = of_nat (2 ^ 32 - m)" using m by (intro of_nat_diff [symmetric]) simp
    finally have "(- of_nat m :: u32) = of_nat (2 ^ 32 - m)" .
    moreover have "unat (of_nat (2 ^ 32 - m) :: u32) = 2 ^ 32 - m"
      using m by (intro unat_of_nat_u32) simp
    ultimately have "unat (- of_nat m :: u32) = 2 ^ 32 - m" by (simp only:)
    then have "unat (drop_bit 31 (- of_nat m :: u32)) = (2 ^ 32 - m) div 2 ^ 31"
      by (simp only: unat_drop_bit)
    moreover have "1 \<le> (2 ^ 32 - m) div 2 ^ 31" using m by (intro div_greater_zero_iff [THEN iffD2, THEN Suc_leI, unfolded One_nat_def [symmetric]]) simp
    ultimately show "drop_bit 31 (- of_nat m :: u32) \<noteq> 0" by (metis not_one_le_zero unat_0)
  qed (use ok inp e in simp_all)
  finally have "varint32_loop (advance s 1) (ucast (g AND 0x7F)) 7 = Ok (- of_nat m, 70, 1) (advance s 10)"
    by (simp only: ucast_eq_of_nat unat_and_0x7F) simp
  moreover have "g AND 0x80 \<noteq> 0" using c(1) and_0x80_iff by blast
  ultimately show ?thesis using ok i1(2)
    by (simp add: pb_decode_varint32_def pb_decode_varint32_eof_def pb_readbyte_ok)
qed

section \<open>Skipping input of a callback\<close>

text \<open>A caller's callback that delivers the bytes of \<open>view u\<close> in order.\<close>

definition serves ::
  "('u \<Rightarrow> nat \<Rightarrow> bool \<times> byte list \<times> 'u) \<Rightarrow> ('u \<Rightarrow> byte list) \<Rightarrow> ('u \<Rightarrow> nat \<Rightarrow> 'u) \<Rightarrow> bool" where
  "serves f view moved \<longleftrightarrow>
     (\<forall>u n. n \<le> length (view u) \<longrightarrow>
        f u n = (True, take n (view u), moved u n) \<and> view (moved u n) = drop n (view u)) \<and>
     (\<forall>u m n. m + n \<le> length (view u) \<longrightarrow> moved (moved u m) n = moved u (m + n))"

definition after :: "('u \<Rightarrow> nat \<Rightarrow> 'u) \<Rightarrow> 'u pb_istream_t \<Rightarrow> nat \<Rightarrow> 'u pb_istream_t" where
  "after moved s n =
     s\<lparr>state := (case state s of UserState u \<Rightarrow> UserState (moved u n) | BufState m \<Rightarrow> BufState m),
       bytes_left := bytes_left s - of_nat n\<rparr>"

lemma servesD:
  assumes "serves f view moved" "n \<le> length (view u)"
  shows "f u n = (True, take n (view u), moved u n)" "view (moved u n) = drop n (view u)"
  using assms by (auto simp: serves_def)

lemma read_into_served:
  assumes "serves f view moved" "callback s = user_read_cb f" "state s = UserState u"
    "unat n \<le> length (view u)" "n \<le> bytes_left s" "n \<noteq> 0"
  shows "pb_read_into s n = Ok (take (unat n) (view u)) (after moved s (unat n))"
proof -
  have "\<not> bytes_left s < n" using assms(5) by (simp add: not_less)
  then show ?thesis using assms servesD [of f view moved "unat n" u]
    by (simp add: pb_read_into_def call_callback_def after_def ucast_id)
qed

lemma skip_tmp_served:
  assumes "serves f view moved"
  shows "callback s = user_read_cb f \<Longrightarrow> state s = UserState u \<Longrightarrow> unat n \<le> length (view u) \<Longrightarrow>
    n \<le> bytes_left s \<Longrightarrow> n \<noteq> 0 \<Longrightarrow> \<exists>bs. pb_skip_tmp s n = Ok bs (after moved s (unat n))"
proof (induction s n arbitrary: u rule: pb_skip_tmp.induct)
  case (1 s n)
  show ?case
  proof (cases "16 < n")
    case False
    with "1.prems" assms show ?thesis by (subst pb_skip_tmp.simps) (simp add: read_into_served)
  next
    case True
    then have n: "16 < unat n" "unat (n - 16) = unat n - 16"
      by (simp_all add: word_less_nat_alt unat_sub_le less_imp_le)
    let ?s = "after moved s 16"
    have "16 \<le> bytes_left s" using True "1.prems"(4) by (simp add: word_less_nat_alt word_le_nat_alt)
    then have r: "pb_read_into s 16 = Ok (take 16 (view u)) ?s"
      using read_into_served [OF assms "1.prems"(1,2), of 16] "1.prems"(3) n by simp
    have b: "n - 16 \<le> bytes_left ?s"
      using "1.prems"(4) n unat_sub_le [OF \<open>16 \<le> bytes_left s\<close>]
      by (simp add: after_def word_le_nat_alt)
    have "\<exists>bs. pb_skip_tmp ?s (n - 16) = Ok bs (after moved ?s (unat (n - 16)))"
    proof (rule "1.IH" [OF True r, of "moved u 16"])
      show "callback ?s = user_read_cb f" "state ?s = UserState (moved u 16)"
        using "1.prems" by (simp_all add: after_def)
      show "unat (n - 16) \<le> length (view (moved u 16))"
        using n "1.prems" servesD(2) [OF assms, of 16 u] by simp
      show "n - 16 \<noteq> 0" using True by auto
    qed (rule b)
    moreover have "moved (moved u 16) (unat n - 16) = moved u (unat n)"
      using assms n "1.prems"(3) unfolding serves_def
      by (metis le_add_diff_inverse less_imp_le)
    then have "after moved ?s (unat (n - 16)) = after moved s (unat n)"
      using n "1.prems" by (simp add: after_def of_nat_diff ucast_id)
    ultimately show ?thesis using True r by (subst pb_skip_tmp.simps) simp
  qed
qed

lemma pb_read_null_served:
  assumes "serves f view moved" "callback s = user_read_cb f" "state s = UserState u"
    "unat n \<le> length (view u)" "n \<le> bytes_left s"
  shows "final_state (pb_read s True n) = final_state (pb_read s False n)" "is_ok (pb_read s True n)"
proof -
  have "final_state (pb_read s True n) = final_state (pb_read s False n) \<and> is_ok (pb_read s True n)"
  proof (cases "n = 0")
    case False
    from skip_tmp_served [OF assms False] obtain bs where
      "pb_skip_tmp s n = Ok bs (after moved s (unat n))" by blast
    with read_into_served [OF assms False] False assms(2) show ?thesis by (simp add: pb_read_def)
  qed (simp add: pb_read_def)
  then show "final_state (pb_read s True n) = final_state (pb_read s False n)" "is_ok (pb_read s True n)"
    by auto
qed

end
