(* ===== verification/PbWireEnc.thy ===== *)
theory PbWireEnc
  imports PbWire
begin

text \<open>
  Correctness of nanopb's encoders and the round trips.  Output streams are a \<open>byte_sink\<close>; every
  encoder writes the bytes of its value; the locale \<open>pb_codec\<close> states what an encoder and a decoder of
  the same value type promise each other and derives the round trips through a buffer, for one
  value and for a whole array of values.
\<close>

unbundle bit_operations_syntax

section \<open>Output streams\<close>

text \<open>Well-formed output streams: sizing streams, and memory streams whose buffer has the room that
  \<open>max_size\<close> promises.\<close>

definition ostream_ok :: "'u pb_ostream_t \<Rightarrow> bool" where
  "ostream_ok s =
     (case ocallback s of
        null_cb \<Rightarrow> True
      | buf_write_cb \<Rightarrow>
          (case ostate s of
             BufOut dest pos \<Rightarrow>
               bytes_written s \<le> max_size s \<and>
               pos + unat (max_size s - bytes_written s) \<le> length dest
           | UserOut _ \<Rightarrow> False)
      | user_write_cb _ \<Rightarrow> False)"

definition ofits :: "'u pb_ostream_t \<Rightarrow> nat \<Rightarrow> bool" where
  "ofits s n = (is_sizing s \<or> n \<le> unat (max_size s - bytes_written s))"

definition emit :: "'u pb_ostream_t \<Rightarrow> byte list \<Rightarrow> 'u pb_ostream_t" where
  "emit s bs =
     s\<lparr>ostate :=
         (if is_sizing s then ostate s
          else case ostate s of
             BufOut dest pos \<Rightarrow>
               BufOut (take pos dest @ bs @ drop (pos + length bs) dest) (pos + length bs)
           | UserOut u \<Rightarrow> UserOut u),
       bytes_written := bytes_written s + of_nat (length bs)\<rparr>"

text \<open>What a memory stream has written in front of its write pointer.\<close>

definition written :: "'u pb_ostream_t \<Rightarrow> byte list" where
  "written s = (case ostate s of BufOut dest pos \<Rightarrow> take pos dest | UserOut _ \<Rightarrow> [])"

lemma is_sizing_emit [simp]: "is_sizing (emit s bs) = is_sizing s"
  by (simp add: is_sizing_def emit_def)

lemma bytes_written_emit [simp]: "bytes_written (emit s bs) = bytes_written s + of_nat (length bs)"
  by (simp add: emit_def)

lemma ostream_ok_cases:
  assumes "ostream_ok s"
  obtains (sizing) "is_sizing s" "ocallback s = null_cb"
  | (buffer) dest pos where "\<not> is_sizing s" "ocallback s = buf_write_cb" "ostate s = BufOut dest pos"
      "bytes_written s \<le> max_size s" "pos + unat (max_size s - bytes_written s) \<le> length dest"
  using assms by (auto simp: ostream_ok_def is_sizing_def split: ocallback.splits ostate.splits)

lemma room_after:
  assumes "b \<le> (m :: size_t)" "n \<le> unat (m - b)"
  shows "unat (b + of_nat n) = unat b + n" "b + of_nat n \<le> m"
    "unat (m - (b + of_nat n)) = unat (m - b) - n"
proof -
  have d: "unat (m - b) = unat m - unat b" "unat b \<le> unat m"
    using assms(1) by (simp_all add: unat_sub_le word_le_nat_alt)
  have "unat m < 2 ^ 64" using unat_lt_2p [of m] by simp
  then have n: "unat (of_nat n :: size_t) = n" using assms(2) d by (intro unat_of_nat_less) simp
  show s: "unat (b + of_nat n) = unat b + n"
    using n assms(2) d \<open>unat m < 2 ^ 64\<close> by (subst unat_add_no_overflow) simp_all
  show le: "b + of_nat n \<le> m" using assms(2) d by (simp add: word_le_nat_alt s)
  show "unat (m - (b + of_nat n)) = unat (m - b) - n"
    using le s d by (simp only: unat_sub_le)
qed

lemma pb_write_emit:
  assumes "ostream_ok s" "ofits s (length bs)"
  shows "pb_write s (Some bs) (of_nat (length bs)) = Ok () (emit s bs)"
  using assms(1)
proof (cases rule: ostream_ok_cases)
  case sizing
  then show ?thesis by (simp add: pb_write_def emit_def)
next
  case (buffer dest pos)
  with assms(2) have n: "length bs \<le> unat (max_size s - bytes_written s)" by (simp add: ofits_def)
  note r = room_after [OF buffer(4) n]
  have "length bs < 2 ^ 64" using n unat_lt_2p [of "max_size s - bytes_written s"] by simp
  then have u: "unat (of_nat (length bs) :: size_t) = length bs"
    by (intro unat_of_nat_less) simp
  have "\<not> bytes_written s + of_nat (length bs) < bytes_written s"
    "\<not> max_size s < bytes_written s + of_nat (length bs)"
    using r by (simp_all add: word_less_nat_alt not_less word_le_nat_alt)
  moreover have "pos + length bs \<le> length dest" using n buffer by simp
  moreover have "0 < (of_nat (length bs) :: size_t) \<longleftrightarrow> bs \<noteq> []"
    using u by (simp add: word_less_nat_alt)
  ultimately show ?thesis using buffer u
    by (cases "bs = []")
       (simp_all add: pb_write_def ocall_callback_def buf_write_def emit_def)
qed

lemma pb_write_full:
  assumes "ostream_ok s" "\<not> ofits s (length bs)" "length bs < 2 ^ 64"
  shows "pb_write s (Some bs) (of_nat (length bs)) = OSTREAM_RETURN_ERROR s ''stream full''"
  using assms(1)
proof (cases rule: ostream_ok_cases)
  case sizing
  with assms show ?thesis by (simp add: ofits_def)
next
  case (buffer dest pos)
  have u: "unat (of_nat (length bs) :: size_t) = length bs" using assms(3) by (intro unat_of_nat_less) simp
  have n: "unat (max_size s) - unat (bytes_written s) < length bs"
    using assms(2) buffer by (simp add: ofits_def unat_sub_le)
  then have "0 < unat (of_nat (length bs) :: size_t)" unfolding u by linarith
  then have "0 < (of_nat (length bs) :: size_t)" by (simp only: word_less_nat_alt unat_0)
  moreover have "bytes_written s + of_nat (length bs) < bytes_written s \<or>
      max_size s < bytes_written s + of_nat (length bs)"
  proof (cases "unat (bytes_written s) + length bs < 2 ^ 64")
    case True
    then have "unat (bytes_written s + of_nat (length bs)) = unat (bytes_written s) + length bs"
      using u by (subst unat_add_no_overflow) simp_all
    with n show ?thesis by (simp add: word_less_nat_alt)
  next
    case False
    then have "unat (bytes_written s + of_nat (length bs)) = unat (bytes_written s) + length bs - 2 ^ 64"
      using u assms(3) unat_lt_2p [of "bytes_written s"]
      by (simp add: unat_word_ariths mod_if)
    moreover have "unat (bytes_written s) + length bs - 2 ^ 64 < unat (bytes_written s)"
      using assms(3) False by linarith
    ultimately show ?thesis by (simp only: word_less_nat_alt) simp
  qed
  ultimately show ?thesis using buffer by (simp add: pb_write_def)
qed

interpretation pbo: byte_sink ostream_ok ofits emit
  "\<lambda>s bs. pb_write s (Some bs) (of_nat (length bs))"
proof (unfold_locales, goal_cases)
  case (1 s bs)
  then show ?case by (rule pb_write_emit)
next
  case (2 s bs)
  then show ?case by (simp add: pb_write_full OSTREAM_RETURN_ERROR_def)
next
  case (3 s bs)
  from 3(1) show ?case
  proof (cases rule: ostream_ok_cases)
    case (buffer dest pos)
    with 3 room_after [of "bytes_written s" "max_size s" "length bs"] show ?thesis
      by (auto simp: ostream_ok_def emit_def ofits_def)
  qed (simp add: ostream_ok_def emit_def)
next
  case (4 s xs ys)
  from 4(1) show ?case
  proof (cases rule: ostream_ok_cases)
    case sizing
    then show ?thesis by (simp add: emit_def is_sizing_def)
  next
    case (buffer dest pos)
    with 4 have "pos + (length xs + length ys) \<le> length dest" by (simp add: ofits_def)
    with buffer show ?thesis by (simp add: emit_def is_sizing_def ac_simps)
  qed
next
  case (5 s xs n)
  from 5(1) show ?case
  proof (cases rule: ostream_ok_cases)
    case (buffer dest pos)
    with 5 room_after [of "bytes_written s" "max_size s" "length xs"] show ?thesis
      by (auto simp: ofits_def emit_def is_sizing_def)
  qed (simp add: ofits_def)
next
  case (6 s n m)
  then show ?case by (auto simp: ofits_def)
qed

lemma written_emit:
  assumes "ostream_ok s" "ofits s (length bs)" "\<not> is_sizing s"
  shows "written (emit s bs) = written s @ bs"
  using assms(1)
proof (cases rule: ostream_ok_cases)
  case (buffer dest pos)
  with assms show ?thesis by (simp add: written_def emit_def ofits_def)
qed (use assms in simp)


section \<open>Encoders\<close>

lemma varint_group_of_nat:
  "(ucast ((v AND 0x7F) OR 0x80 :: u64) :: byte) = of_nat (unat v mod 128 + 128)"
proof -
  have "v AND 0x7F = of_nat (unat v mod 128)"
    using unat_take_mask [of v 7] by (simp add: word_unat_eq_iff mask_eq_exp_minus_1 unat_of_nat_less)
  moreover have "(of_nat (unat v mod 128) :: u64) OR push_bit 7 (of_nat 1) =
      of_nat (unat v mod 128 + 2 ^ 7 * 1)"
    by (rule or_push_bit_of_nat) simp
  ultimately have "(v AND 0x7F) OR 0x80 = of_nat (unat v mod 128 + 128)" by simp
  moreover have "unat (of_nat (unat v mod 128 + 128) :: u64) = unat v mod 128 + 128"
    by (rule unat_of_nat_less) (simp add: trans_less_add1 mod_less_divisor [THEN less_trans])
  ultimately show ?thesis by (simp only: ucast_eq_of_nat)
qed

lemma varint_last_group: "m < 128 \<Longrightarrow> (of_nat (m + 128) :: byte) AND 0x7F = of_nat m"
  using unat_and_0x7F [of "of_nat (m + 128)"]
  by (simp only: word_unat_eq_iff unat_byte_of_nat) simp

lemma varint_groups_enc:
  "v \<noteq> 0 \<Longrightarrow> varint_groups v \<noteq> [] \<and>
   (varint_groups v)[length (varint_groups v) - 1 :=
      varint_groups v ! (length (varint_groups v) - 1) AND 0x7F] = varint_enc (unat v)"
proof (induction v rule: varint_groups.induct)
  case (1 v)
  let ?w = "drop_bit 7 v"
  have g: "varint_groups v = of_nat (unat v mod 128 + 128) # varint_groups ?w"
    using 1(2) by (subst varint_groups.simps) (simp only: varint_group_of_nat if_True simp_thms)
  show ?case
  proof (cases "unat v < 128")
    case True
    then have "?w = 0" by (simp add: word_unat_eq_iff unat_drop_bit)
    then have "varint_groups v = [of_nat (unat v + 128)]" unfolding g
      using True by (simp add: varint_groups.simps)
    with True varint_last_group [OF True] show ?thesis by (simp add: varint_enc_small)
  next
    case False
    then have w: "unat ?w = unat v div 128" by (simp add: unat_drop_bit)
    with False have "?w \<noteq> 0" by (auto simp: word_unat_eq_iff)
    with 1 have ih: "varint_groups ?w \<noteq> []"
      "(varint_groups ?w)[length (varint_groups ?w) - 1 :=
         varint_groups ?w ! (length (varint_groups ?w) - 1) AND 0x7F] = varint_enc (unat v div 128)"
      by (auto simp: w)
    then obtain n where n: "length (varint_groups ?w) = Suc n" by (cases "varint_groups ?w") auto
    from False ih show ?thesis unfolding g by (simp add: n varint_enc_big)
  qed
qed

lemma length_varint_enc_u64: "length (varint_enc (unat (v :: u64))) \<le> 10"
proof (rule length_varint_enc)
  have "unat v < 2 ^ 64" using unat_lt_2p [of v] by simp
  also have "\<dots> \<le> 128 ^ 10" by simp
  finally show "unat v < 128 ^ 10" .
qed simp

lemma pb_encode_varint_eq:
  "pb_encode_varint s v =
     pb_write s (Some (varint_enc (unat v))) (of_nat (length (varint_enc (unat v))))"
proof (cases "v \<le> 0x7F")
  case True
  then have "unat v < 128" by (simp add: word_le_nat_alt)
  with True show ?thesis by (simp add: pb_encode_varint_def varint_enc_small)
next
  case False
  then have "v \<noteq> 0" by auto
  note e = varint_groups_enc [OF this]
  from e have "length (varint_groups v) = length (varint_enc (unat v))" by (metis length_list_update)
  with e False length_varint_enc_u64 [of v] show ?thesis
    by (simp add: pb_encode_varint_def Let_def)
qed

lemma pb_encode_varint_emit:
  "ostream_ok s \<Longrightarrow> ofits s (length (varint_enc (unat v))) \<Longrightarrow>
   pb_encode_varint s v = Ok () (emit s (varint_enc (unat v)))"
  by (simp add: pb_encode_varint_eq pbo.put_fits)

text \<open>The stream that reads back what an output stream has written.\<close>

definition reread :: "'u pb_ostream_t \<Rightarrow> 'w pb_istream_t" where
  "reread s = pb_istream_from_buffer (written s) (bytes_written s)"

lemma reread_single:
  assumes "ostream_ok (pb_ostream_from_buffer buf n :: 'u pb_ostream_t)"
    and "pb_write (pb_ostream_from_buffer buf n :: 'u pb_ostream_t) (Some bs) (of_nat (length bs)) = Ok () s"
    and "length bs < 2 ^ 64"
  shows "istream_ok (reread s :: 'w pb_istream_t)" "input (reread s :: 'w pb_istream_t) = bs"
proof -
  let ?o = "pb_ostream_from_buffer buf n :: 'u pb_ostream_t"
  have o: "\<not> is_sizing ?o" "written ?o = []" "bytes_written ?o = 0"
    by (simp_all add: is_sizing_def written_def pb_ostream_from_buffer_def)
  have f: "ofits ?o (length bs)"
    using assms by (auto simp: pb_write_full OSTREAM_RETURN_ERROR_def intro: ccontr)
  with assms(1,2) have "s = emit ?o bs" by (simp add: pb_write_emit)
  with written_emit [OF assms(1) f o(1)] o have "written s = bs" "bytes_written s = of_nat (length bs)"
    by simp_all
  with assms(3) show "istream_ok (reread s :: 'w pb_istream_t)" "input (reread s :: 'w pb_istream_t) = bs"
    by (simp_all add: reread_def istream_ok_def input_def pb_istream_from_buffer_def unat_of_nat_less)
qed

lemma pb_ostream_from_buffer_ok: "unat n \<le> length buf \<Longrightarrow> ostream_ok (pb_ostream_from_buffer buf n)"
  by (simp add: ostream_ok_def pb_ostream_from_buffer_def)

section \<open>Codecs\<close>

locale pb_codec =
  fixes valid :: "'v \<Rightarrow> bool"
    and bytes_of :: "'v \<Rightarrow> byte list"
    and enc :: "'u pb_ostream_t \<Rightarrow> 'v \<Rightarrow> (unit, 'u pb_ostream_t) outcome"
    and dec :: "'w pb_istream_t \<Rightarrow> ('v, 'w pb_istream_t) outcome"
  assumes enc_bytes: "valid v \<Longrightarrow> enc s v = pb_write s (Some (bytes_of v)) (of_nat (length (bytes_of v)))"
    and dec_bytes: "valid v \<Longrightarrow> istream_ok t \<Longrightarrow> input t = bytes_of v @ rest \<Longrightarrow>
      dec t = Ok v (advance t (length (bytes_of v)))"
    and bytes_of_bounds: "valid v \<Longrightarrow> bytes_of v \<noteq> [] \<and> length (bytes_of v) < 2 ^ 64"
begin

fun enc_list :: "'u pb_ostream_t \<Rightarrow> 'v list \<Rightarrow> (unit, 'u pb_ostream_t) outcome" where
  "enc_list s [] = Ok () s"
| "enc_list s (v # vs) = obind (enc s v) (\<lambda>_ s'. enc_list s' vs)"

fun dec_list :: "nat \<Rightarrow> 'w pb_istream_t \<Rightarrow> ('v list, 'w pb_istream_t) outcome" where
  "dec_list 0 t = Ok [] t"
| "dec_list (Suc n) t = obind (dec t) (\<lambda>v t'. obind (dec_list n t') (\<lambda>vs t''. Ok (v # vs) t''))"

lemma enc_Ok:
  assumes "valid v" "ostream_ok s" "enc s v = Ok () s'"
  shows "s' = emit s (bytes_of v)" "ofits s (length (bytes_of v))"
proof -
  show fit: "ofits s (length (bytes_of v))"
  proof (rule ccontr)
    assume "\<not> ofits s (length (bytes_of v))"
    with assms bytes_of_bounds [of v] have "enc s v = OSTREAM_RETURN_ERROR s ''stream full''"
      by (simp add: enc_bytes pb_write_full)
    with assms(3) show False by (simp add: OSTREAM_RETURN_ERROR_def)
  qed
  with assms show "s' = emit s (bytes_of v)" by (simp add: enc_bytes pbo.put_fits)
qed

lemma enc_list_Ok:
  assumes "\<forall>v \<in> set vs. valid v" "ostream_ok s" "enc_list s vs = Ok () s'"
  shows "ostream_ok s' \<and> (\<not> is_sizing s \<longrightarrow> written s' = written s @ concat (map bytes_of vs)) \<and>
    is_sizing s' = is_sizing s \<and>
    bytes_written s' = bytes_written s + of_nat (length (concat (map bytes_of vs))) \<and>
    ofits s (length (concat (map bytes_of vs)))"
  using assms
proof (induction vs arbitrary: s)
  case Nil
  then show ?case by (simp add: ofits_def)
next
  case (Cons v vs)
  then obtain s1 where s1: "enc s v = Ok () s1" "enc_list s1 vs = Ok () s'" by auto
  from enc_Ok [OF _ _ s1(1)] Cons.prems have e: "s1 = emit s (bytes_of v)" "ofits s (length (bytes_of v))"
    by auto
  then have "ostream_ok s1" using Cons.prems pbo.ok_emit by blast
  with Cons.IH [OF _ _ s1(2)] Cons.prems e show ?case by (auto simp: written_emit pbo.fits_emit)
qed

lemma dec_list_bytes:
  "\<forall>v \<in> set vs. valid v \<Longrightarrow> istream_ok t \<Longrightarrow> input t = concat (map bytes_of vs) @ rest \<Longrightarrow>
   dec_list (length vs) t = Ok vs (advance t (length (concat (map bytes_of vs))))"
proof (induction vs arbitrary: t)
  case Nil
  then show ?case by simp
next
  case (Cons v vs)
  then have "dec t = Ok v (advance t (length (bytes_of v)))"
    by (intro dec_bytes) auto
  moreover have "dec_list (length vs) (advance t (length (bytes_of v))) =
      Ok vs (advance (advance t (length (bytes_of v))) (length (concat (map bytes_of vs))))"
    using Cons.prems by (intro Cons.IH) auto
  ultimately show ?case by simp
qed

lemma roundtrip:
  assumes "valid v" and "unat n \<le> length buf" and "enc (pb_ostream_from_buffer buf n) v = Ok () s"
  shows "\<exists>t. dec (reread s) = Ok v t \<and> input t = []"
proof -
  have "istream_ok (reread s :: 'w pb_istream_t)" "input (reread s :: 'w pb_istream_t) = bytes_of v"
    using reread_single [OF pb_ostream_from_buffer_ok [OF assms(2)], of "bytes_of v" s]
      assms(3) enc_bytes [OF assms(1)] bytes_of_bounds [OF assms(1)] by auto
  then show ?thesis using dec_bytes [OF assms(1), of "reread s" "[]"] by simp
qed

text \<open>Encode a list of values into a buffer, decode the bytes written: the same values, and no input
  is left over.\<close>

lemma roundtrip_list:
  assumes "\<forall>v \<in> set vs. valid v" and "unat n \<le> length buf"
    and "enc_list (pb_ostream_from_buffer buf n) vs = Ok () s"
  shows "\<exists>t. dec_list (length vs) (pb_istream_from_buffer (written s) (bytes_written s)) = Ok vs t \<and>
    input t = [] \<and> istream_ok t"
proof -
  let ?o = "pb_ostream_from_buffer buf n :: 'u pb_ostream_t"
  let ?bs = "concat (map bytes_of vs)"
  have o: "ostream_ok ?o" "\<not> is_sizing ?o" "written ?o = []" "bytes_written ?o = 0"
    using assms(2) by (simp_all add: ostream_ok_def pb_ostream_from_buffer_def is_sizing_def written_def)
  from enc_list_Ok [OF assms(1) o(1) assms(3)] o
  have w: "written s = ?bs" "bytes_written s = of_nat (length ?bs)" "ofits ?o (length ?bs)"
    by simp_all
  let ?t = "pb_istream_from_buffer (written s) (bytes_written s) :: 'w pb_istream_t"
  have "length ?bs \<le> unat n" using w(3) o(2) by (simp add: ofits_def pb_ostream_from_buffer_def)
  also have "unat n < 2 ^ 64" using unat_lt_2p [of n] by simp
  finally have "length ?bs < 2 ^ 64" .
  then have "unat (of_nat (length ?bs) :: size_t) = length ?bs" by (intro unat_of_nat_less) simp
  with w have t: "istream_ok ?t" "input ?t = ?bs @ []"
    by (simp_all add: istream_ok_def input_def pb_istream_from_buffer_def)
  with dec_list_bytes [OF assms(1) t] show ?thesis by simp
qed

end

subsection \<open>Varints\<close>

lemma pb_decode_varint_eq:
  assumes "istream_ok s"
  shows "pb_decode_varint s = varint64_result s 0 0"
  using varint64_loop_eq [OF assms, of 0 0] by (simp add: pb_decode_varint_def)

lemma pb_decode_varint_enc:
  assumes "istream_ok s" "input s = varint_enc (unat v) @ rest"
  shows "pb_decode_varint s = Ok v (advance s (length (varint_enc (unat v))))"
  using assms length_varint_enc_u64 [of v]
  by (simp add: pb_decode_varint_eq varint64_result_def)

interpretation varint_codec: pb_codec "\<lambda>_. True" "\<lambda>v. varint_enc (unat v)"
  pb_encode_varint pb_decode_varint
proof (unfold_locales, goal_cases)
  case (1 v s)
  show ?case by (rule pb_encode_varint_eq)
next
  case (2 v t rest)
  then show ?case by (intro pb_decode_varint_enc)
next
  case (3 v)
  show ?case using length_varint_enc_u64 [of v] by simp
qed

subsection \<open>Zigzag integers\<close>

definition zigzag :: "u64 \<Rightarrow> u64" where
  "zigzag v = (if sint v < 0 then NOT (push_bit 1 v) else push_bit 1 v)"

lemma zigzag_odd: "zigzag v AND 1 \<noteq> 0 \<longleftrightarrow> sint v < 0"
  by (auto simp: zigzag_def and_one_eq mod2_eq_if even_not_iff)

lemma sint_neg_iff: "sint (v :: u64) < 0 \<longleftrightarrow> bit v 63"
  using bit_last_iff [of v] by simp

lemma shift_back_bits:
  assumes "n + m < 64"
  shows "bit (drop_bit m (push_bit m (v :: u64))) n = bit v n"
    "bit (NOT (drop_bit m (NOT (push_bit m v)))) n = bit v n"
  using assms by (auto simp: bit_simps)

lemma zigzag_inverse:
  "(if zigzag v AND 1 \<noteq> 0 then NOT (drop_bit 1 (zigzag v)) else drop_bit 1 (zigzag v)) = v"
proof (cases "sint v < 0")
  case True
  have "NOT (drop_bit 1 (NOT (push_bit 1 v))) = v"
  proof (rule bit_word_eqI)
    fix n assume "n < LENGTH(64)"
    with True show "bit (NOT (drop_bit 1 (NOT (push_bit 1 v)))) n = bit v n"
      using shift_back_bits(2) [where m = 1 and n = n and v = v]
      by (cases "n = 63") (auto simp: sint_neg_iff bit_not_iff bit_drop_bit_eq)
  qed
  with True zigzag_odd [of v] show ?thesis by (simp add: zigzag_def)
next
  case False
  have "drop_bit 1 (push_bit 1 v) = v"
  proof (rule bit_word_eqI)
    fix n assume "n < LENGTH(64)"
    with False show "bit (drop_bit 1 (push_bit 1 v)) n = bit v n"
      using shift_back_bits(1) [where m = 1 and n = n and v = v]
      by (cases "n = 63") (auto simp: sint_neg_iff bit_drop_bit_eq dest: bit_imp_le_length)
  qed
  with False zigzag_odd [of v] show ?thesis by (simp add: zigzag_def)
qed

interpretation svarint_codec: pb_codec "\<lambda>_. True" "\<lambda>v. varint_enc (unat (zigzag v))"
  pb_encode_svarint pb_decode_svarint
proof (unfold_locales, goal_cases)
  case (1 v s)
  show ?case by (simp add: pb_encode_svarint_def zigzag_def pb_encode_varint_eq)
next
  case (2 v t rest)
  then show ?case
    using zigzag_inverse [of v]
    by (simp add: pb_decode_svarint_def pb_decode_varint_enc split: if_splits)
next
  case (3 v)
  show ?case using length_varint_enc_u64 [of "zigzag v"] by simp
qed

subsection \<open>Fixed-width values\<close>

lemma pb_encode_fixed32_eq: "pb_encode_fixed32 s v = pb_write s (Some (le_bytes 4 (unat v))) 4"
  by (simp only: pb_encode_fixed32_def byte_splits le_bytes_4)

lemma pb_encode_fixed64_eq: "pb_encode_fixed64 s v = pb_write s (Some (le_bytes 8 (unat v))) 8"
  by (simp only: pb_encode_fixed64_def byte_splits le_bytes_8)

lemma pb_decode_fixed32_eq:
  assumes "istream_ok s" "4 \<le> length (input s)"
  shows "pb_decode_fixed32 s = Ok (of_nat (le_nat (take 4 (input s)))) (advance s 4)"
proof -
  from assms obtain b0 b1 b2 b3 where t: "take 4 (input s) = [b0, b1, b2, b3]"
    by (auto simp: numeral_eq_Suc Suc_le_length_iff)
  with assms have "pb_read s False 4 = Ok [b0, b1, b2, b3] (advance s 4)" by (simp add: pb_read_ok)
  then show ?thesis unfolding t join32 [symmetric] by (simp add: pb_decode_fixed32_def)
qed

lemma pb_decode_fixed64_eq:
  assumes "istream_ok s" "8 \<le> length (input s)"
  shows "pb_decode_fixed64 s = Ok (of_nat (le_nat (take 8 (input s)))) (advance s 8)"
proof -
  from assms obtain b0 b1 b2 b3 b4 b5 b6 b7 where t:
    "take 8 (input s) = [b0, b1, b2, b3, b4, b5, b6, b7]"
    by (auto simp: numeral_eq_Suc Suc_le_length_iff)
  with assms have "pb_read s False 8 = Ok [b0, b1, b2, b3, b4, b5, b6, b7] (advance s 8)"
    by (simp add: pb_read_ok)
  then show ?thesis unfolding t join64 [symmetric] by (simp add: pb_decode_fixed64_def)
qed

interpretation fixed32_codec: pb_codec "\<lambda>_. True" "\<lambda>v. le_bytes 4 (unat v)"
  pb_encode_fixed32 pb_decode_fixed32
proof (unfold_locales, goal_cases)
  case (1 v s)
  show ?case by (simp add: pb_encode_fixed32_eq)
next
  case (2 v t rest)
  have "unat v < 2 ^ 32" using unat_lt_2p [of v] by simp
  with 2 show ?case by (simp add: pb_decode_fixed32_eq le_nat_le_bytes)
next
  case (3 v)
  show ?case by (simp flip: length_0_conv)
qed

interpretation fixed64_codec: pb_codec "\<lambda>_. True" "\<lambda>v. le_bytes 8 (unat v)"
  pb_encode_fixed64 pb_decode_fixed64
proof (unfold_locales, goal_cases)
  case (1 v s)
  show ?case by (simp add: pb_encode_fixed64_eq)
next
  case (2 v t rest)
  have "unat v < 2 ^ 64" using unat_lt_2p [of v] by simp
  with 2 show ?case by (simp add: pb_decode_fixed64_eq le_nat_le_bytes)
next
  case (3 v)
  show ?case by (simp flip: length_0_conv)
qed

subsection \<open>Tags\<close>

definition tag_word :: "u32 \<Rightarrow> u32 \<Rightarrow> nat" where
  "tag_word wt n = 8 * unat n + unat wt"

lemma pb_encode_tag_eq:
  assumes "wt < 8"
  shows "pb_encode_tag s wt n =
    pb_write s (Some (varint_enc (tag_word wt n))) (of_nat (length (varint_enc (tag_word wt n))))"
proof -
  have "unat wt < 8" using assms by (simp add: word_less_nat_alt)
  have "push_bit 3 (ucast n) OR ucast wt = (of_nat (unat wt) OR push_bit 3 (of_nat (unat n)) :: u64)"
    by (simp add: or.commute)
  also have "\<dots> = of_nat (tag_word wt n)"
    using or_push_bit_of_nat [of "unat wt" 3 "unat n", where 'a = 64] \<open>unat wt < 8\<close>
    by (simp only: tag_word_def) (simp add: add.commute)
  finally have t: "push_bit 3 (ucast n) OR ucast wt = (of_nat (tag_word wt n) :: u64)" .
  have "unat n < 2 ^ 32" using unat_lt_2p [of n] by simp
  then have "unat (of_nat (tag_word wt n) :: u64) = tag_word wt n"
    using \<open>unat wt < 8\<close> by (intro unat_of_nat_less) (simp add: tag_word_def)
  with t show ?thesis by (simp only: pb_encode_tag_def pb_encode_varint_eq)
qed

lemma pb_decode_tag_enc:
  assumes ok: "istream_ok s" and wt: "wt < 8" and n: "n < 2 ^ 29" and nz: "wt \<noteq> 0 \<or> n \<noteq> 0"
    and inp: "input s = varint_enc (tag_word wt n) @ rest"
  shows "pb_decode_tag s =
    (Ok (wire_type_of wt, n) (advance s (length (varint_enc (tag_word wt n)))), False)"
proof -
  have "unat wt < 8" "unat n < 2 ^ 29" using wt n by (simp_all add: word_less_nat_alt)
  then have t: "tag_word wt n < 2 ^ 32" by (simp add: tag_word_def)
  have l5: "length (varint_enc (tag_word wt n)) \<le> 5"
    using t by (intro length_varint_enc) simp_all
  have d: "pb_decode_varint32_eof s = Ok (of_nat (tag_word wt n)) (advance s (length (varint_enc (tag_word wt n))))"
    using pb_decode_varint32_short [OF ok _ l5] inp t by (simp add: pb_decode_varint32_def)
  have u: "unat (of_nat (tag_word wt n) :: u32) = tag_word wt n" using t by (rule unat_of_nat_u32)
  have "(of_nat (tag_word wt n) :: u32) \<noteq> 0"
    using u nz by (auto simp: tag_word_def word_unat_eq_iff)
  moreover have "(of_nat (tag_word wt n) :: u32) AND 7 = wt"
    using unat_take_mask [of "of_nat (tag_word wt n) :: u32" 3] u \<open>unat wt < 8\<close>
    by (simp add: word_unat_eq_iff mask_eq_exp_minus_1 tag_word_def)
  moreover have "drop_bit 3 (of_nat (tag_word wt n) :: u32) = n"
    using u \<open>unat wt < 8\<close> by (simp add: word_unat_eq_iff unat_drop_bit tag_word_def)
  ultimately show ?thesis by (simp add: pb_decode_tag_def d)
qed

end
