(* ===== verification/PbWireProps.thy ===== *)
theory PbWireProps
  imports PbWireEnc
begin

text \<open>
  The properties of nanopb's stream layer: what the varint, tag and fixed-width decoders return on
  every input, that they never leave the input they were given, that skipping and substreams
  consume exactly one field, that writing never overruns the output buffer, and the round trips
  between encoder and decoder.
\<close>

unbundle bit_operations_syntax

section \<open>Decoding\<close>

text \<open>(C4) \<open>pb_decode_varint\<close> on any well-formed memory stream: a varint of at most ten bytes is
  decoded to its value modulo \<open>2^64\<close> and exactly its bytes are consumed; a longer one is rejected
  as an overflow after ten bytes; an input that ends inside the varint is rejected.\<close>

theorem pb_decode_varint_spec:
  assumes "istream_ok s"
  shows "pb_decode_varint s =
    (case varint_len (input s) of
       Some k \<Rightarrow>
         (if k \<le> 10 then Ok (of_nat (varint_value (take k (input s)))) (advance s k)
          else PB_RETURN_ERROR (advance s 10) ''varint overflow'')
     | None \<Rightarrow>
         (if length (input s) < 10
          then PB_RETURN_ERROR (advance s (length (input s))) ''end-of-stream''
          else PB_RETURN_ERROR (advance s 10) ''varint overflow''))"
  using pb_decode_varint_eq [OF assms] by (simp add: varint64_result_def split: option.splits)

definition example_stream :: "byte list \<Rightarrow> unit pb_istream_t" where
  "example_stream bs = pb_istream_from_buffer bs (of_nat (length bs))"

lemma example_stream_ok [simp]:
  assumes "length bs < 2 ^ 64"
  shows "istream_ok (example_stream bs)" "input (example_stream bs) = bs"
  using assms
  by (simp_all add: example_stream_def istream_ok_def input_def pb_istream_from_buffer_def
        unat_of_nat_less)

theorem pb_decode_varint_spec_witness:
  "\<exists>t. pb_decode_varint (example_stream [0xAC, 0x02, 0x07]) = Ok 300 t \<and> input t = [0x07]"
  using pb_decode_varint_spec [of "example_stream [0xAC, 0x02, 0x07]"] by simp

text \<open>\<open>pb_decode_varint32\<close> on varints of at most five bytes: the value is returned if it fits 32
  bits and rejected as an overflow otherwise; on the ten-byte encoding of a negative number that
  fits 32 bits, the number is returned in two's complement.\<close>

theorem pb_decode_varint32_spec:
  assumes "istream_ok s"
  shows "(varint_len (input s) = Some k \<and> k \<le> 5 \<longrightarrow>
      pb_decode_varint32 s =
        (if varint_value (take k (input s)) < 2 ^ 32
         then Ok (of_nat (varint_value (take k (input s)))) (advance s k)
         else PB_RETURN_ERROR (advance s k) ''varint overflow'')) \<and>
    (input s = varint_enc (2 ^ 64 - m) @ rest \<and> 0 < m \<and> m \<le> 2 ^ 31 \<longrightarrow>
      pb_decode_varint32 s = Ok (- of_nat m) (advance s 10))"
  using assms by (simp add: pb_decode_varint32_short pb_decode_varint32_negative)

theorem pb_decode_varint32_spec_witness:
  "(\<exists>t. pb_decode_varint32 (example_stream [0xAC, 0x02]) = Ok 300 t) \<and>
   (\<exists>t. pb_decode_varint32 (example_stream (varint_enc (2 ^ 64 - 5))) = Ok (- 5) t)"
proof
  show "\<exists>t. pb_decode_varint32 (example_stream [0xAC, 0x02]) = Ok 300 t"
    using pb_decode_varint32_spec [of "example_stream [0xAC, 0x02]" 2] by simp
  have "length (varint_enc (2 ^ 64 - 5)) < 2 ^ 64" by (simp add: varint_enc_big varint_enc_small)
  then show "\<exists>t. pb_decode_varint32 (example_stream (varint_enc (2 ^ 64 - 5))) = Ok (- 5) t"
    using pb_decode_varint32_spec [of "example_stream (varint_enc (2 ^ 64 - 5))" 0 5 "[]"] by simp
qed

text \<open>(C15) No decoder of the stream layer reads outside a well-formed memory stream: it never faults,
  it leaves a well-formed stream behind, on success and on failure, and what is still unread is a
  suffix of what was unread before.\<close>

theorem stream_readers_safe:
  assumes "istream_ok s"
  shows "reads_safely s (pb_read s null n) \<and> reads_safely s (pb_readbyte s) \<and>
    reads_safely s (pb_decode_varint s) \<and> reads_safely s (pb_decode_varint32 s) \<and>
    reads_safely s (fst (pb_decode_tag s)) \<and> reads_safely s (pb_skip_field s wt) \<and>
    reads_safely s (read_raw_value s wt n) \<and> reads_safely s (pb_decode_bool s) \<and>
    reads_safely s (pb_decode_svarint s) \<and> reads_safely s (pb_decode_fixed32 s) \<and>
    reads_safely s (pb_decode_fixed64 s)"
  using assms by (simp add: safe_intros)

theorem stream_readers_safe_witness:
  "istream_ok (example_stream [0x80]) \<and>
   reads_safely (example_stream [0x80]) (pb_decode_varint (example_stream [0x80]))"
  using stream_readers_safe [of "example_stream [0x80]"] by simp

text \<open>\<open>pb_skip_field\<close> consumes exactly the payload that the wire type announces, whenever the input
  holds a complete payload.\<close>

theorem pb_skip_field_exact:
  assumes "istream_ok s" and "payload_size wt (input s) = Some n"
  shows "pb_skip_field s wt = Ok () (advance s n)"
  using assms by (rule pb_skip_field_complete)

theorem pb_skip_field_exact_witness:
  "\<exists>t. pb_skip_field (example_stream [0x02, 0x41, 0x42, 0x08]) PB_WT_STRING = Ok () t \<and>
       input t = [0x08]"
proof -
  have "payload_size PB_WT_STRING (input (example_stream [0x02, 0x41, 0x42, 0x08])) = Some 3"
    by (simp add: payload_size_def)
  with pb_skip_field_exact [of "example_stream [0x02, 0x41, 0x42, 0x08]" PB_WT_STRING 3]
  show ?thesis by simp
qed

text \<open>(C17) A length-delimited field opened as a substream shows its reader exactly the payload, and
  closing the substream, at whatever position the reader stopped, leaves the parent stream right
  behind the payload.\<close>

theorem substream_delimits:
  assumes ok: "istream_ok s" and len: "varint_len (input s) = Some k" "k \<le> 5"
    and v: "varint_value (take k (input s)) < 2 ^ 32"
    and fits: "k + varint_value (take k (input s)) \<le> length (input s)"
  shows "\<exists>sub s'. pb_make_string_substream s = Ok sub s' \<and> istream_ok sub \<and>
    input sub = take (varint_value (take k (input s))) (drop k (input s)) \<and>
    (\<forall>j \<le> length (input sub). pb_close_string_substream s' (advance sub j) =
       Ok () (advance s (k + varint_value (take k (input s)))))"
proof -
  let ?v = "varint_value (take k (input s))"
  let ?sub = "(advance s k)\<lparr>bytes_left := of_nat ?v\<rparr>"
  let ?s = "(advance s k)\<lparr>bytes_left := bytes_left (advance s (k + ?v))\<rparr>"
  have "pb_make_string_substream s = Ok ?sub ?s"
    using ok len v fits by (intro pb_make_string_substream_complete) auto
  moreover have sub: "istream_ok ?sub" "input ?sub = take ?v (drop k (input s))"
    by (rule substream_ok [OF ok fits])+
  moreover have "pb_close_string_substream ?s (advance ?sub j) = Ok () (advance s (k + ?v))"
    if "j \<le> length (input ?sub)" for j
  proof -
    have "length (input ?sub) = ?v" using sub fits by simp
    with pb_close_string_substream_ok [OF sub(1) that, of ?s] show ?thesis
      by (simp add: advance_def add.commute split: istate.splits)
  qed
  ultimately show ?thesis by blast
qed

theorem substream_delimits_witness:
  "\<exists>sub s'. pb_make_string_substream (example_stream [0x02, 0x41, 0x42, 0x08]) = Ok sub s' \<and>
     input sub = [0x41, 0x42]"
  using substream_delimits [of "example_stream [0x02, 0x41, 0x42, 0x08]" 1] by force

text \<open>Skipping input of a stream with a caller's callback, which \<open>pb_read\<close> does in pieces of at most
  16 bytes, has the same effect on the stream as reading all of it at once, for every callback that
  delivers its bytes in order.\<close>

theorem pb_read_null_is_read:
  assumes "serves f view moved" and "callback s = user_read_cb f" and "state s = UserState u"
    and "unat n \<le> length (view u)" and "n \<le> bytes_left s"
  shows "is_ok (pb_read s True n) \<and> final_state (pb_read s True n) = final_state (pb_read s False n)"
  using pb_read_null_served [OF assms] by simp

definition list_callback :: "byte list \<Rightarrow> nat \<Rightarrow> bool \<times> byte list \<times> byte list" where
  "list_callback u n = (n \<le> length u, take n u, drop n u)"

theorem pb_read_null_is_read_witness:
  "is_ok (pb_read \<lparr>callback = user_read_cb list_callback, state = UserState (replicate 40 0),
                   bytes_left = 40, errmsg = None\<rparr> True 37)"
proof -
  let ?s = "\<lparr>callback = user_read_cb list_callback, state = UserState (replicate 40 0),
             bytes_left = 40, errmsg = None\<rparr>"
  have "serves list_callback (\<lambda>u. u) (\<lambda>u n. drop n u)"
    by (auto simp: serves_def list_callback_def add.commute)
  from pb_read_null_is_read [OF this, of ?s "replicate 40 0" 37] show ?thesis by simp
qed

section \<open>Encoding and round trips\<close>

text \<open>(C16) \<open>pb_write\<close> never overruns the caller's buffer: on a well-formed output stream it either appends
  exactly the given bytes behind what was written and stays within \<open>max_size\<close>, or fails with the
  buffer and the counters unchanged.\<close>

theorem pb_write_exact:
  assumes "ostream_ok s" and "\<not> is_sizing s" and "length bs < 2 ^ 64"
  shows "(case pb_write s (Some bs) (of_nat (length bs)) of
      Fault \<Rightarrow> False
    | Fail s' \<Rightarrow> ostate s' = ostate s \<and> bytes_written s' = bytes_written s \<and>
        unat (max_size s) < unat (bytes_written s) + length bs
    | Ok _ s' \<Rightarrow> ostream_ok s' \<and> written s' = written s @ bs \<and>
        unat (bytes_written s') = unat (bytes_written s) + length bs \<and>
        bytes_written s' \<le> max_size s')"
proof (cases "ofits s (length bs)")
  case True
  with assms(1) have w: "pb_write s (Some bs) (of_nat (length bs)) = Ok () (emit s bs)"
    by (rule pb_write_emit)
  have "bytes_written s \<le> max_size s" using assms by (auto elim: ostream_ok_cases)
  with True assms(2) room_after [of "bytes_written s" "max_size s" "length bs"]
  have "unat (bytes_written s + of_nat (length bs)) = unat (bytes_written s) + length bs"
    "bytes_written s + of_nat (length bs) \<le> max_size s"
    by (simp_all add: ofits_def)
  moreover have "max_size (emit s bs) = max_size s" by (simp add: emit_def)
  moreover have "written (emit s bs) = written s @ bs" using assms(1) True assms(2) by (rule written_emit)
  moreover have "ostream_ok (emit s bs)" using assms(1) True by (rule pbo.ok_emit)
  ultimately show ?thesis by (simp add: w)
next
  case False
  have "bytes_written s \<le> max_size s" using assms by (auto elim: ostream_ok_cases)
  with False assms show ?thesis
    by (simp add: pb_write_full OSTREAM_RETURN_ERROR_def OSTREAM_SET_ERROR_def ofits_def unat_sub_le)
qed

theorem pb_write_exact_witness:
  "case pb_write (pb_ostream_from_buffer [0, 0, 0] 3 :: unit pb_ostream_t) (Some [7, 8]) 2 of
     Ok _ s \<Rightarrow> written s = [7, 8] | _ \<Rightarrow> False"
proof -
  have "ostream_ok (pb_ostream_from_buffer [0, 0, 0] 3 :: unit pb_ostream_t)"
    "\<not> is_sizing (pb_ostream_from_buffer [0, 0, 0] 3 :: unit pb_ostream_t)"
    "written (pb_ostream_from_buffer [0, 0, 0] 3 :: unit pb_ostream_t) = []"
    "max_size (pb_ostream_from_buffer [0, 0, 0] 3 :: unit pb_ostream_t) = 3"
    "bytes_written (pb_ostream_from_buffer [0, 0, 0] 3 :: unit pb_ostream_t) = 0"
    by (simp_all add: ostream_ok_def is_sizing_def written_def pb_ostream_from_buffer_def)
  moreover have "(of_nat (length [7, 8 :: byte]) :: size_t) = 2" by simp
  ultimately show ?thesis
    using pb_write_exact [of "pb_ostream_from_buffer [0, 0, 0] 3 :: unit pb_ostream_t" "[7, 8]"]
    by (simp split: outcome.splits)
qed

text \<open>(C5) Round trip of varints and zigzag varints: a 64-bit value that was encoded into a buffer is
  decoded to itself, and nothing is left over.  Every 64-bit value, negative ones included, and every
  buffer in which the encoder reported success.\<close>

theorem varint_roundtrip:
  assumes "unat n \<le> length buf"
  shows "(pb_encode_varint (pb_ostream_from_buffer buf n) v = Ok () s \<longrightarrow>
      (\<exists>t. pb_decode_varint (reread s :: unit pb_istream_t) = Ok v t \<and> input t = [])) \<and>
    (pb_encode_svarint (pb_ostream_from_buffer buf n) v = Ok () s \<longrightarrow>
      (\<exists>t. pb_decode_svarint (reread s :: unit pb_istream_t) = Ok v t \<and> input t = []))"
  using assms by (auto intro!: varint_codec.roundtrip svarint_codec.roundtrip)

theorem varint_roundtrip_witness:
  "\<exists>s. pb_encode_varint (pb_ostream_from_buffer [0, 0, 0] 3 :: unit pb_ostream_t) 300 = Ok () s \<and>
     (\<exists>t. pb_decode_varint (reread s :: unit pb_istream_t) = Ok 300 t \<and> input t = [])"
proof -
  let ?o = "pb_ostream_from_buffer [0, 0, 0] 3 :: unit pb_ostream_t"
  have "ofits ?o (length (varint_enc 300))"
    by (simp add: ofits_def pb_ostream_from_buffer_def varint_enc_big varint_enc_small)
  then have "pb_encode_varint ?o 300 = Ok () (emit ?o (varint_enc 300))"
    using pb_encode_varint_emit [of ?o 300] pb_ostream_from_buffer_ok [of 3 "[0, 0, 0]"] by simp
  with varint_roundtrip [of 3 "[0, 0, 0]" 300] show ?thesis by fastforce
qed

text \<open>Round trip of fixed-width values: the little-endian 32-bit and 64-bit encodings are decoded to
  the value that was encoded.\<close>

theorem fixed_roundtrip:
  assumes "unat n \<le> length buf"
  shows "(pb_encode_fixed32 (pb_ostream_from_buffer buf n) w = Ok () s \<longrightarrow>
      (\<exists>t. pb_decode_fixed32 (reread s :: unit pb_istream_t) = Ok w t \<and> input t = [])) \<and>
    (pb_encode_fixed64 (pb_ostream_from_buffer buf n) v = Ok () s \<longrightarrow>
      (\<exists>t. pb_decode_fixed64 (reread s :: unit pb_istream_t) = Ok v t \<and> input t = []))"
  using assms by (auto intro!: fixed32_codec.roundtrip fixed64_codec.roundtrip)

theorem fixed_roundtrip_witness:
  "\<exists>s. pb_encode_fixed32 (pb_ostream_from_buffer [0, 0, 0, 0] 4 :: unit pb_ostream_t) 0x12345678 = Ok () s \<and>
     (\<exists>t. pb_decode_fixed32 (reread s :: unit pb_istream_t) = Ok 0x12345678 t \<and> input t = [])"
proof -
  let ?o = "pb_ostream_from_buffer [0, 0, 0, 0] 4 :: unit pb_ostream_t"
  have "ofits ?o (length (le_bytes 4 (unat (0x12345678 :: u32))))"
    by (simp add: ofits_def pb_ostream_from_buffer_def)
  then have "pb_encode_fixed32 ?o 0x12345678 = Ok () (emit ?o (le_bytes 4 (unat (0x12345678 :: u32))))"
    using pb_write_emit [of ?o "le_bytes 4 (unat (0x12345678 :: u32))"]
      pb_ostream_from_buffer_ok [of 4 "[0, 0, 0, 0]"] by (simp add: pb_encode_fixed32_eq)
  with fixed_roundtrip [of 4 "[0, 0, 0, 0]" "0x12345678"] show ?thesis by fastforce
qed

text \<open>Round trip of field tags: a tag with a field number below \<open>2^29\<close>, the range protobuf allows,
  is decoded to the same wire type and field number and not taken for the end of the message.\<close>

theorem tag_roundtrip:
  assumes "unat n \<le> length buf" and "wt < 8" and "num < 2 ^ 29" and "num \<noteq> 0"
    and "pb_encode_tag (pb_ostream_from_buffer buf n) wt num = Ok () s"
  shows "\<exists>t. pb_decode_tag (reread s :: unit pb_istream_t) = (Ok (wire_type_of wt, num) t, False) \<and> input t = []"
proof -
  note o = pb_ostream_from_buffer_ok [OF assms(1)]
  have "unat wt < 8" "unat num < 2 ^ 29" using assms(2,3) by (simp_all add: word_less_nat_alt)
  then have "tag_word wt num < 128 ^ 5" by (simp add: tag_word_def)
  then have "length (varint_enc (tag_word wt num)) \<le> 5" by (rule length_varint_enc) simp
  then have r: "istream_ok (reread s :: unit pb_istream_t)"
    "input (reread s :: unit pb_istream_t) = varint_enc (tag_word wt num)"
    using reread_single [OF o, of "varint_enc (tag_word wt num)" s] assms(5)
    by (simp_all add: pb_encode_tag_eq [OF assms(2)])
  then show ?thesis using pb_decode_tag_enc [OF r(1) assms(2,3), of "[]"] assms(4) by simp
qed

theorem tag_roundtrip_witness:
  "\<exists>s. pb_encode_tag (pb_ostream_from_buffer [0, 0] 2 :: unit pb_ostream_t) 2 1 = Ok () s \<and>
     (\<exists>t. pb_decode_tag (reread s :: unit pb_istream_t) = (Ok (PB_WT_STRING, 1) t, False) \<and> input t = [])"
proof -
  let ?o = "pb_ostream_from_buffer [0, 0] 2 :: unit pb_ostream_t"
  have "ofits ?o (length (varint_enc (tag_word 2 1)))"
    by (simp add: ofits_def pb_ostream_from_buffer_def tag_word_def varint_enc_small)
  then have "pb_encode_tag ?o 2 1 = Ok () (emit ?o (varint_enc (tag_word 2 1)))"
    using pb_write_emit [of ?o "varint_enc (tag_word 2 1)"] pb_ostream_from_buffer_ok [of 2 "[0, 0]"]
    by (simp add: pb_encode_tag_eq)
  with tag_roundtrip [of 2 "[0, 0]" 2 1] show ?thesis by (fastforce simp: wire_type_of_def)
qed

section \<open>Where the 32-bit decoder accepts too much\<close>

text \<open>Bytes \<^verbatim>\<open>80\<close> only move the bit position, at every position.\<close>

lemma varint32_loop_zeros:
  "istream_ok s \<Longrightarrow> input s = replicate n 0x80 @ rest \<Longrightarrow>
   varint32_loop s r bp = varint32_loop (advance s n) r (bp + of_nat (7 * n))"
proof (induction n arbitrary: s bp)
  case 0
  then show ?case by simp
next
  case (Suc n)
  then have "varint32_loop s r bp = varint32_loop (advance s 1) r (bp + 7)"
    by (subst varint32_loop.simps) (simp add: pb_readbyte_ok)
  also have "\<dots> = varint32_loop (advance (advance s 1) n) r (bp + 7 + of_nat (7 * n))"
    using Suc.prems by (intro Suc.IH) auto
  finally show ?case by (simp add: algebra_simps)
qed

text \<open>Five groups with continuation bits, then bytes \<^verbatim>\<open>80\<close>.\<close>

lemma varint32_five_groups:
  assumes "istream_ok s" and "length gs = 5" and "\<forall>g \<in> set gs. 128 \<le> unat g" and "input s = gs @ replicate n 0x80 @ rest"
  shows "pb_decode_varint32 s =
    obind (varint32_loop (advance s (5 + n)) (of_nat (varint_value gs)) (35 + of_nat (7 * n))) (\<lambda>(result, bitpos, last) s'.
      if bitpos = 35 \<and> last AND 0x70 \<noteq> 0 then PB_RETURN_ERROR s' ''varint overflow'' else Ok result s')"
proof -
  obtain g hs where gs: "gs = g # hs" "length hs = 4" using assms(2) by (cases gs) auto
  have c: "128 \<le> unat g" "\<forall>h \<in> set hs. 128 \<le> unat h" using assms(3) gs by auto
  have "varint32_loop (advance s 1) (of_nat (unat g mod 128)) (of_nat (7 * 1)) =
      varint32_loop (advance (advance s 1) (length hs)) (of_nat (unat g mod 128 + 2 ^ (7 * 1) * varint_value hs)) (of_nat (7 * (1 + length hs)))"
    using assms(1,4) gs c by (intro varint32_loop_groups) auto
  also have "\<dots> = varint32_loop (advance s 5) (of_nat (varint_value gs)) 35" using gs by simp
  also have "\<dots> = varint32_loop (advance (advance s 5) n) (of_nat (varint_value gs)) (35 + of_nat (7 * n))"
    using assms by (intro varint32_loop_zeros) auto
  finally have "varint32_loop (advance s 1) (ucast (g AND 0x7F)) 7 =
      varint32_loop (advance s (5 + n)) (of_nat (varint_value gs)) (35 + of_nat (7 * n))"
    by (simp only: ucast_eq_of_nat unat_and_0x7F) simp
  moreover have "g AND 0x80 \<noteq> 0" using c(1) and_0x80_iff by blast
  ultimately show ?thesis using assms(1,4) gs by (simp add: pb_decode_varint32_def pb_decode_varint32_eof_def pb_readbyte_ok)
qed

lemma varint32_loop_last_zero: "istream_ok s \<Longrightarrow> input s = 0 # rest \<Longrightarrow> varint32_loop s r bp = Ok (r, bp + 7, 0) (advance s 1)"
  by (subst varint32_loop.simps) (simp add: pb_readbyte_ok)

lemma varint32_loop_last_wrapped:
  assumes "istream_ok s" and "input s = x # rest" and "unat x < 128"
  shows "varint32_loop s r 3 = Ok (r OR push_bit 3 (ucast x), 10, x) (advance s 1)"
proof -
  have "x AND 0x80 = 0" "x AND 0x7F = x"
    using assms(3) and_0x80_iff [of x] unat_and_0x7F [of x] by (auto simp: word_unat_eq_iff)
  then show ?thesis using assms by (subst varint32_loop.simps) (simp add: pb_readbyte_ok)
qed

lemma varint_value_append: "varint_value (gs @ hs) = varint_value gs + 128 ^ length gs * varint_value hs"
  by (induction gs) (simp_all add: algebra_simps)

lemma varint_value_zeros: "varint_value (replicate n 0x80) = 0"
  by (induction n) simp_all

text \<open>(C30) \<open>pb_decode_varint32\<close> does not detect every overflow.  The check of the bits that are dropped is only made when the varint
  ends at the fifth byte: five groups of any value with continuation bits, followed by any number of bytes \<^verbatim>\<open>80\<close> and by \<^verbatim>\<open>00\<close>, are
  accepted and give the value modulo \<open>2\<^sup>3\<^sup>2\<close>.  And because \<open>bitpos\<close> is an 8-bit counter, it has wrapped around at the 38th byte: when
  32 bytes \<^verbatim>\<open>80\<close> and any last byte \<open>x\<close> follow the five groups, which stands for a number of \<open>x * 2\<^sup>2\<^sup>5\<^sup>9\<close> and more, the varint is accepted
  with \<open>x\<close> moved to bit 3 of the result.\<close>

theorem varint32_overflow_accepted:
  assumes "istream_ok s" and "length gs = 5" and "\<forall>g \<in> set gs. 128 \<le> unat g" and "unat x < 128"
  shows "(input s = gs @ replicate n 0x80 @ 0x00 # rest \<longrightarrow>
      pb_decode_varint32 s = Ok (of_nat (varint_value gs mod 2 ^ 32)) (advance s (6 + n))) \<and>
    (input s = gs @ replicate 32 0x80 @ x # rest \<longrightarrow>
      pb_decode_varint32 s = Ok (of_nat (varint_value gs mod 2 ^ 32) OR push_bit 3 (ucast x)) (advance s 38)) \<and>
    varint_value (gs @ replicate n 0x80 @ [0x00]) = varint_value gs \<and>
    varint_value (gs @ replicate 32 0x80 @ [x]) = varint_value gs + 2 ^ 259 * unat x"
proof (intro conjI impI)
  have low: "(of_nat (varint_value gs mod 2 ^ 32) :: u32) = of_nat (varint_value gs)"
    by (simp add: word_unat_eq_iff unat_of_nat take_bit_nat_def)
  {
    assume i: "input s = gs @ replicate n 0x80 @ 0x00 # rest"
    then have "input (advance s (5 + n)) = 0x00 # rest" "istream_ok (advance s (5 + n))" using assms(1,2) by simp_all
    then show "pb_decode_varint32 s = Ok (of_nat (varint_value gs mod 2 ^ 32)) (advance s (6 + n))"
      unfolding varint32_five_groups [OF assms(1-3) i] low by (simp add: varint32_loop_last_zero)
  }
  assume i: "input s = gs @ replicate 32 0x80 @ x # rest"
  have "input (advance s 37) = x # rest" "istream_ok (advance s 37)" using assms(1,2) i by simp_all
  moreover have wrap: "35 + of_nat (7 * 32) = (3 :: 8 word)" by simp
  ultimately show "pb_decode_varint32 s = Ok (of_nat (varint_value gs mod 2 ^ 32) OR push_bit 3 (ucast x)) (advance s 38)"
    using varint32_five_groups [OF assms(1-3) i, unfolded wrap] low assms(4) by (simp add: varint32_loop_last_wrapped)
next
  show "varint_value (gs @ replicate n 0x80 @ [0x00]) = varint_value gs" by (simp add: varint_value_append varint_value_zeros)
  have "(128 :: nat) ^ 5 * 128 ^ 32 = 2 ^ 259" by simp
  then show "varint_value (gs @ replicate 32 0x80 @ [x]) = varint_value gs + 2 ^ 259 * unat x"
    using assms(2,4) by (simp add: varint_value_append varint_value_zeros)
qed

theorem varint32_overflow_accepted_witness:
  "varint_value [0x80, 0x80, 0x80, 0x80, 0xF0, 0x00] = 7 * 2 ^ 32 \<and>
   (\<exists>t. pb_decode_varint32 (example_stream [0x80, 0x80, 0x80, 0x80, 0xF0, 0x00]) = Ok 0 t) \<and>
   (\<exists>t. pb_decode_varint32 (example_stream ([0x80, 0x80, 0x80, 0x80, 0x80] @ replicate 32 0x80 @ [0x01])) = Ok 8 t)"
  using varint32_overflow_accepted [of "example_stream [0x80, 0x80, 0x80, 0x80, 0xF0, 0x00]" "[0x80, 0x80, 0x80, 0x80, 0xF0]" 0 0 "[]"]
    varint32_overflow_accepted [of "example_stream ([0x80, 0x80, 0x80, 0x80, 0x80] @ replicate 32 0x80 @ [0x01])" "[0x80, 0x80, 0x80, 0x80, 0x80]" 1 0 "[]"]
  by simp

end
