(* ===== verification/PbIter.thy ===== *)
theory PbIter
  imports Prelude "HOL-Library.Monad_Syntax"
begin

text \<open>
  The field iterator of nanopb (\<^verbatim>\<open>nanopb/pb_common.c\<close>), which walks over the field descriptors of a message and keeps the addresses of
  the current field in the structure.

  The descriptors are a list whose last element is the terminator, with tag 0; a position of the iterator is an index into it, and
  reading behind the list is the result \<open>None\<close>.  Addresses are 64-bit words, \<open>NULL\<close> being 0.  The library is built with
  32-bit field sizes (\<open>PB_FIELD_32BIT\<close>), as the project's configuration says.
\<close>

unbundle bit_operations_syntax

section \<open>Descriptors\<close>

record pb_field_t =
  tag :: u32
  field_type :: byte
  data_offset :: u32
  size_offset :: u32
  data_size :: u32
  array_size :: u32
  ptr :: u64

abbreviation (input) PB_LTYPE_BOOL :: byte where "PB_LTYPE_BOOL \<equiv> 0x00"
abbreviation (input) PB_LTYPE_VARINT :: byte where "PB_LTYPE_VARINT \<equiv> 0x01"
abbreviation (input) PB_LTYPE_UVARINT :: byte where "PB_LTYPE_UVARINT \<equiv> 0x02"
abbreviation (input) PB_LTYPE_SVARINT :: byte where "PB_LTYPE_SVARINT \<equiv> 0x03"
abbreviation (input) PB_LTYPE_FIXED32 :: byte where "PB_LTYPE_FIXED32 \<equiv> 0x04"
abbreviation (input) PB_LTYPE_FIXED64 :: byte where "PB_LTYPE_FIXED64 \<equiv> 0x05"
abbreviation (input) PB_LTYPE_LAST_PACKABLE :: byte where "PB_LTYPE_LAST_PACKABLE \<equiv> 0x05"
abbreviation (input) PB_LTYPE_BYTES :: byte where "PB_LTYPE_BYTES \<equiv> 0x06"
abbreviation (input) PB_LTYPE_STRING :: byte where "PB_LTYPE_STRING \<equiv> 0x07"
abbreviation (input) PB_LTYPE_SUBMESSAGE :: byte where "PB_LTYPE_SUBMESSAGE \<equiv> 0x08"
abbreviation (input) PB_LTYPE_EXTENSION :: byte where "PB_LTYPE_EXTENSION \<equiv> 0x09"
abbreviation (input) PB_LTYPE_FIXED_LENGTH_BYTES :: byte where "PB_LTYPE_FIXED_LENGTH_BYTES \<equiv> 0x0A"
abbreviation (input) PB_HTYPE_REQUIRED :: byte where "PB_HTYPE_REQUIRED \<equiv> 0x00"
abbreviation (input) PB_HTYPE_OPTIONAL :: byte where "PB_HTYPE_OPTIONAL \<equiv> 0x10"
abbreviation (input) PB_HTYPE_REPEATED :: byte where "PB_HTYPE_REPEATED \<equiv> 0x20"
abbreviation (input) PB_HTYPE_ONEOF :: byte where "PB_HTYPE_ONEOF \<equiv> 0x30"
abbreviation (input) PB_ATYPE_STATIC :: byte where "PB_ATYPE_STATIC \<equiv> 0x00"
abbreviation (input) PB_ATYPE_POINTER :: byte where "PB_ATYPE_POINTER \<equiv> 0x80"
abbreviation (input) PB_ATYPE_CALLBACK :: byte where "PB_ATYPE_CALLBACK \<equiv> 0x40"
abbreviation (input) PB_SIZE_MAX :: u32 where "PB_SIZE_MAX \<equiv> - 1"

definition PB_ATYPE :: "byte \<Rightarrow> byte" where "PB_ATYPE x = x AND 0xC0"
definition PB_HTYPE :: "byte \<Rightarrow> byte" where "PB_HTYPE x = x AND 0x30"
definition PB_LTYPE :: "byte \<Rightarrow> byte" where "PB_LTYPE x = x AND 0x0F"

section \<open>The iterator\<close>

record pb_field_iter_t =
  start :: "pb_field_t list"
  pos :: nat
  required_field_index :: u32
  dest_struct :: u64
  pData :: u64
  pSize :: u64

definition pb_field_iter_begin :: "pb_field_t list \<Rightarrow> u64 \<Rightarrow> (bool \<times> pb_field_iter_t) option" where
  "pb_field_iter_begin fs dest =
     do {
       f \<leftarrow> mem_at fs 0;
       let data = (if dest = 0 then 0 else dest + ucast (data_offset f));
       let size = (if dest = 0 then 0 else data + scast (size_offset f));
       Some (tag f \<noteq> 0, \<lparr>start = fs, pos = 0, required_field_index = 0, dest_struct = dest, pData = data, pSize = size\<rparr>)
     }"

definition pb_field_iter_next :: "pb_field_iter_t \<Rightarrow> (bool \<times> pb_field_iter_t) option" where
  "pb_field_iter_next it =
     do {
       prev_field \<leftarrow> mem_at (start it) (pos it);
       if tag prev_field = 0 then Some (False, it)
       else do {
         cur \<leftarrow> mem_at (start it) (pos it + 1);
         if tag cur = 0 then do { (_, it') \<leftarrow> pb_field_iter_begin (start it) (dest_struct it); Some (False, it') }
         else if PB_HTYPE (field_type prev_field) = PB_HTYPE_ONEOF \<and> PB_HTYPE (field_type cur) = PB_HTYPE_ONEOF \<and>
                 data_offset cur = PB_SIZE_MAX
         then Some (True, it\<lparr>pos := pos it + 1\<rparr>)
         else do {
           let prev_size =
             (if PB_ATYPE (field_type prev_field) = PB_ATYPE_STATIC \<and> PB_HTYPE (field_type prev_field) = PB_HTYPE_REPEATED
              then (ucast (data_size prev_field) :: size_t) * ucast (array_size prev_field)
              else if PB_ATYPE (field_type prev_field) = PB_ATYPE_POINTER then 8
              else ucast (data_size prev_field));
           let req = (if PB_HTYPE (field_type prev_field) = PB_HTYPE_REQUIRED then required_field_index it + 1
                      else required_field_index it);
           let data = pData it + prev_size + ucast (data_offset cur);
           Some (True, it\<lparr>pos := pos it + 1, required_field_index := req, pData := data, pSize := data + scast (size_offset cur)\<rparr>)
         }
       }
     }"

text \<open>The loop of \<open>pb_field_iter_find\<close>, with the position at which the search began.\<close>

partial_function (option) find_loop :: "nat \<Rightarrow> pb_field_iter_t \<Rightarrow> u32 \<Rightarrow> (bool \<times> pb_field_iter_t) option" where
  "find_loop start_pos it wanted =
     do {
       f \<leftarrow> mem_at (start it) (pos it);
       if tag f = wanted \<and> PB_LTYPE (field_type f) \<noteq> PB_LTYPE_EXTENSION then Some (True, it)
       else do {
         (_, it') \<leftarrow> pb_field_iter_next it;
         if pos it' \<noteq> start_pos then find_loop start_pos it' wanted else Some (False, it')
       }
     }"

definition pb_field_iter_find :: "pb_field_iter_t \<Rightarrow> u32 \<Rightarrow> (bool \<times> pb_field_iter_t) option" where
  "pb_field_iter_find it wanted = find_loop (pos it) it wanted"

end
