(* ===== verification/PbIterProps.thy ===== *)
theory PbIterProps
  imports PbIter
begin

text \<open>
  The field iterator stays inside of the descriptors, keeps the address of the field it stands on, and finds a field by its tag from
  wherever it stands.
\<close>

section \<open>Specification\<close>

text \<open>The descriptors of \<open>n\<close> fields and the terminator.\<close>

definition fields_ok :: "pb_field_t list \<Rightarrow> nat \<Rightarrow> bool" where
  "fields_ok fs n \<longleftrightarrow> length fs = Suc n \<and> (\<forall>j < n. tag (fs ! j) \<noteq> 0) \<and> tag (fs ! n) = 0"

text \<open>Members of a union share their place; every other field follows the one before it.\<close>

definition shares_place :: "pb_field_t \<Rightarrow> pb_field_t \<Rightarrow> bool" where
  "shares_place f g \<longleftrightarrow> PB_HTYPE (field_type f) = PB_HTYPE_ONEOF \<and> PB_HTYPE (field_type g) = PB_HTYPE_ONEOF \<and> data_offset g = PB_SIZE_MAX"

definition place_size :: "pb_field_t \<Rightarrow> u64" where
  "place_size f =
     (if PB_ATYPE (field_type f) = PB_ATYPE_STATIC \<and> PB_HTYPE (field_type f) = PB_HTYPE_REPEATED
      then ucast (data_size f) * ucast (array_size f)
      else if PB_ATYPE (field_type f) = PB_ATYPE_POINTER then 8 else ucast (data_size f))"

fun field_addr :: "pb_field_t list \<Rightarrow> u64 \<Rightarrow> nat \<Rightarrow> u64" where
  "field_addr fs dest 0 = (if dest = 0 then 0 else dest + ucast (data_offset (fs ! 0)))"
| "field_addr fs dest (Suc k) =
     (if shares_place (fs ! k) (fs ! Suc k) then field_addr fs dest k
      else field_addr fs dest k + place_size (fs ! k) + ucast (data_offset (fs ! Suc k)))"

fun size_addr :: "pb_field_t list \<Rightarrow> u64 \<Rightarrow> nat \<Rightarrow> u64" where
  "size_addr fs dest 0 = (if dest = 0 then 0 else field_addr fs dest 0 + scast (size_offset (fs ! 0)))"
| "size_addr fs dest (Suc k) =
     (if shares_place (fs ! k) (fs ! Suc k) then size_addr fs dest k
      else field_addr fs dest (Suc k) + scast (size_offset (fs ! Suc k)))"

definition required_before :: "pb_field_t list \<Rightarrow> nat \<Rightarrow> nat" where
  "required_before fs k = length (filter (\<lambda>f. PB_HTYPE (field_type f) = PB_HTYPE_REQUIRED) (take k fs))"

definition iter_at :: "pb_field_t list \<Rightarrow> u64 \<Rightarrow> nat \<Rightarrow> pb_field_iter_t" where
  "iter_at fs dest k = \<lparr>start = fs, pos = k, required_field_index = of_nat (required_before fs k), dest_struct = dest,
     pData = field_addr fs dest k, pSize = size_addr fs dest k\<rparr>"

section \<open>Walking\<close>

lemma required_before_Suc:
  "k < length fs \<Longrightarrow> required_before fs (Suc k) = (if PB_HTYPE (field_type (fs ! k)) = PB_HTYPE_REQUIRED then 1 else 0) + required_before fs k"
  by (simp add: required_before_def take_Suc_conv_app_nth)

lemma begin_ok: "fields_ok fs n \<Longrightarrow> pb_field_iter_begin fs dest = Some (0 < n, iter_at fs dest 0)"
  by (cases "n = 0") (auto simp: pb_field_iter_begin_def mem_at_def fields_ok_def iter_at_def required_before_def Let_def)

lemma next_ok:
  assumes "fields_ok fs n" and "k < n"
  shows "pb_field_iter_next (iter_at fs dest k) = Some (Suc k < n, iter_at fs dest (if Suc k < n then Suc k else 0))"
proof -
  have len: "k < length fs" "Suc k < length fs" "tag (fs ! k) \<noteq> 0" using assms by (auto simp: fields_ok_def)
  show ?thesis
  proof (cases "Suc k < n")
    case True
    then have t: "tag (fs ! Suc k) \<noteq> 0" using assms by (simp add: fields_ok_def)
    show ?thesis
    proof (cases "shares_place (fs ! k) (fs ! Suc k)")
      case sh: True
      then have "PB_HTYPE (field_type (fs ! k)) \<noteq> PB_HTYPE_REQUIRED" by (simp add: shares_place_def)
      then show ?thesis using sh len t True required_before_Suc [OF len(1)]
        by (simp add: pb_field_iter_next_def iter_at_def mem_at_def) (simp add: shares_place_def)
    next
      case False
      then show ?thesis using len t True required_before_Suc [OF len(1)]
        by (simp add: pb_field_iter_next_def iter_at_def mem_at_def Let_def place_size_def) (auto simp: shares_place_def)
    qed
  next
    case False
    then have n: "Suc k = n" using assms(2) by simp
    then have "tag (fs ! Suc k) = 0" using assms(1) by (simp add: fields_ok_def)
    then show ?thesis using False len begin_ok [OF assms(1), of dest]
      by (simp add: pb_field_iter_next_def mem_at_def iter_at_def [of fs dest k])
  qed
qed

section \<open>Searching\<close>

text \<open>The positions that a search visits, in order: each is the successor of the one before, and the last one leads back to \<open>k\<close>.\<close>

definition succ_pos :: "nat \<Rightarrow> nat \<Rightarrow> nat" where
  "succ_pos n p = (if Suc p < n then Suc p else 0)"

fun tour :: "nat \<Rightarrow> nat \<Rightarrow> nat list \<Rightarrow> bool" where
  "tour k n [] = False"
| "tour k n [p] = (p < n \<and> succ_pos n p = k)"
| "tour k n (p # q # ps) = (p < n \<and> q = succ_pos n p \<and> q \<noteq> k \<and> tour k n (q # ps))"

lemma tour_low: "p < k \<Longrightarrow> k < n \<Longrightarrow> tour k n [p..<k]"
proof (induction "k - p" arbitrary: p)
  case (Suc d)
  show ?case
  proof (cases "Suc p = k")
    case True
    then have "[p..<k] = [p]" by (simp add: upt_conv_Cons)
    then show ?thesis using True Suc.prems by (simp add: succ_pos_def)
  next
    case False
    then have "tour k n [Suc p..<k]" "Suc p < k" using Suc by auto
    then show ?thesis using Suc.prems by (simp add: upt_conv_Cons succ_pos_def)
  qed
qed simp

lemma tour_cycle: "k \<le> p \<Longrightarrow> p < n \<Longrightarrow> tour k n ([p..<n] @ [0..<k])"
proof (induction "n - p" arbitrary: p)
  case (Suc d)
  show ?case
  proof (cases "Suc p = n")
    case True
    then have p: "[p..<n] = [p]" by (simp add: upt_conv_Cons)
    show ?thesis
    proof (cases "k = 0")
      case False
      then show ?thesis using p True Suc.prems tour_low [of 0 k n] by (simp add: upt_conv_Cons [of 0 k] succ_pos_def)
    qed (use p True in \<open>simp add: succ_pos_def\<close>)
  next
    case False
    then have "tour k n ([Suc p..<n] @ [0..<k])" "Suc p < n" using Suc by auto
    then show ?thesis using Suc.prems by (simp add: upt_conv_Cons succ_pos_def)
  qed
qed simp

abbreviation wanted_field :: "u32 \<Rightarrow> pb_field_t \<Rightarrow> bool" where
  "wanted_field t f \<equiv> tag f = t \<and> PB_LTYPE (field_type f) \<noteq> PB_LTYPE_EXTENSION"

definition found :: "pb_field_t list \<Rightarrow> u64 \<Rightarrow> nat \<Rightarrow> u32 \<Rightarrow> nat list \<Rightarrow> bool \<times> pb_field_iter_t" where
  "found fs dest k t ps =
     (case List.find (\<lambda>j. wanted_field t (fs ! j)) ps of None \<Rightarrow> (False, iter_at fs dest k) | Some j \<Rightarrow> (True, iter_at fs dest j))"

lemma iter_at_sel [simp]: "start (iter_at fs dest k) = fs" "pos (iter_at fs dest k) = k"
  by (simp_all add: iter_at_def)

lemma find_step:
  assumes "fields_ok fs n" and "p < n"
  shows "find_loop k (iter_at fs dest p) t =
    (if wanted_field t (fs ! p) then Some (True, iter_at fs dest p)
     else if succ_pos n p \<noteq> k then find_loop k (iter_at fs dest (succ_pos n p)) t
     else Some (False, iter_at fs dest k))"
proof -
  have "p < length fs" using assms by (simp add: fields_ok_def)
  then show ?thesis using next_ok [OF assms, of dest]
    by (subst find_loop.simps) (auto simp: mem_at_def succ_pos_def)
qed

lemma find_loop_ok:
  assumes "fields_ok fs n" and "tour k n (p # ps)"
  shows "find_loop k (iter_at fs dest p) t = Some (found fs dest k t (p # ps))"
  using assms(2)
proof (induction ps arbitrary: p)
  case Nil
  then show ?case using find_step [OF assms(1), of p k dest t] by (simp add: found_def)
next
  case (Cons q ps)
  then show ?case using find_step [OF assms(1), of p k dest t] by (auto simp: found_def)
qed

lemma find_ok:
  assumes "fields_ok fs n" and "k < n"
  shows "pb_field_iter_find (iter_at fs dest k) t = Some (found fs dest k t ([k..<n] @ [0..<k]))"
proof -
  have e: "[k..<n] @ [0..<k] = k # ([Suc k..<n] @ [0..<k])" using assms(2) by (simp add: upt_conv_Cons)
  have "tour k n (k # ([Suc k..<n] @ [0..<k]))" using tour_cycle [of k k n] assms(2) unfolding e by simp
  from find_loop_ok [OF assms(1) this] show ?thesis unfolding pb_field_iter_find_def e by simp
qed

lemma found_True: "fst (found fs dest k t ps) \<longleftrightarrow> (\<exists>j \<in> set ps. wanted_field t (fs ! j))"
  by (auto simp: found_def find_None_iff find_Some_iff split: option.splits)

lemma find_success:
  assumes "fields_ok fs n" and "k < n"
  shows "\<exists>b it. pb_field_iter_find (iter_at fs dest k) t = Some (b, it) \<and> (b \<longleftrightarrow> (\<exists>j < n. wanted_field t (fs ! j)))"
proof -
  have s: "set ([k..<n] @ [0..<k]) = {..<n}" using assms(2) by auto
  obtain b it where b: "found fs dest k t ([k..<n] @ [0..<k]) = (b, it)" by fastforce
  then have "b \<longleftrightarrow> (\<exists>j \<in> {..<n}. wanted_field t (fs ! j))"
    using found_True [of fs dest k t "[k..<n] @ [0..<k]"] unfolding s by simp
  then show ?thesis using find_ok [OF assms, of dest t] unfolding b by blast
qed

lemma find_empty:
  assumes "fields_ok fs 0" and "t \<noteq> 0"
  shows "pb_field_iter_find (iter_at fs dest 0) t = Some (False, iter_at fs dest 0)"
  using assms by (subst pb_field_iter_find_def, subst find_loop.simps) (simp add: fields_ok_def mem_at_def pb_field_iter_next_def)

section \<open>Property\<close>

text \<open>(C25) The field iterator over a message with \<open>n\<close> fields, whose descriptors end with the terminator, never reads behind the
  descriptors and always stands on a field with the address of that field's data and of its size or presence flag, and the number of
  required fields before it: \<open>pb_field_iter_begin\<close> puts it on the first field and says whether there is one;
  \<open>pb_field_iter_next\<close> moves it to the next field, or back to the first one after the last and says which;
  \<open>pb_field_iter_find\<close> always returns, and from any field it goes to the first wanted field in cyclic order starting with the
  current one, or, when there is none, it is back where it was and says so; it succeeds exactly when some field has the tag and
  is no extension.  On an empty message it finds nothing.
\<close>

theorem pb_field_iter_exact:
  assumes "fields_ok fs n"
  shows "pb_field_iter_begin fs dest = Some (0 < n, iter_at fs dest 0) \<and>
    (k < n \<longrightarrow>
       pb_field_iter_next (iter_at fs dest k) = Some (Suc k < n, iter_at fs dest (if Suc k < n then Suc k else 0)) \<and>
       pb_field_iter_find (iter_at fs dest k) t =
         Some (case List.find (\<lambda>j. wanted_field t (fs ! j)) ([k..<n] @ [0..<k]) of
                 None \<Rightarrow> (False, iter_at fs dest k) | Some j \<Rightarrow> (True, iter_at fs dest j)) \<and>
       (\<exists>b it. pb_field_iter_find (iter_at fs dest k) t = Some (b, it) \<and> (b \<longleftrightarrow> (\<exists>j < n. wanted_field t (fs ! j))))) \<and>
    (n = 0 \<and> t \<noteq> 0 \<longrightarrow> pb_field_iter_find (iter_at fs dest 0) t = Some (False, iter_at fs dest 0))"
  using begin_ok [OF assms] next_ok [OF assms] find_ok [OF assms, unfolded found_def] find_success [OF assms] find_empty assms
  by blast

text \<open>A required field of four bytes, two members of a union, an extension and a static array; the search from the second member wraps around.\<close>

definition demo_fields :: "pb_field_t list" where
  "demo_fields =
     [\<lparr>tag = 1, field_type = 0x01, data_offset = 0, size_offset = 0, data_size = 4, array_size = 0, ptr = 0\<rparr>,
      \<lparr>tag = 2, field_type = 0x31, data_offset = 8, size_offset = - 4, data_size = 8, array_size = 0, ptr = 0\<rparr>,
      \<lparr>tag = 3, field_type = 0x30, data_offset = - 1, size_offset = - 4, data_size = 4, array_size = 0, ptr = 0\<rparr>,
      \<lparr>tag = 100, field_type = 0x19, data_offset = 4, size_offset = 0, data_size = 8, array_size = 0, ptr = 0\<rparr>,
      \<lparr>tag = 5, field_type = 0x21, data_offset = 8, size_offset = - 4, data_size = 4, array_size = 3, ptr = 0\<rparr>,
      \<lparr>tag = 0, field_type = 0, data_offset = 0, size_offset = 0, data_size = 0, array_size = 0, ptr = 0\<rparr>]"

theorem pb_field_iter_exact_witness:
  "fields_ok demo_fields 5 \<and>
   pb_field_iter_find (iter_at demo_fields 0x1000 2) 1 = Some (True, iter_at demo_fields 0x1000 0) \<and>
   pb_field_iter_find (iter_at demo_fields 0x1000 2) 100 = Some (False, iter_at demo_fields 0x1000 2) \<and>
   pData (iter_at demo_fields 0x1000 2) = 0x100C \<and> pSize (iter_at demo_fields 0x1000 2) = 0x1008"
proof -
  have f: "fields_ok demo_fields 5" by code_simp
  have "List.find (\<lambda>j. wanted_field 1 (demo_fields ! j)) ([2..<5] @ [0..<2]) = Some 0"
    "List.find (\<lambda>j. wanted_field 100 (demo_fields ! j)) ([2..<5] @ [0..<2]) = None"
    "pData (iter_at demo_fields 0x1000 2) = 0x100C" "pSize (iter_at demo_fields 0x1000 2) = 0x1008"
    by code_simp+
  then show ?thesis using f pb_field_iter_exact [OF f, of "0x1000" 2 1] pb_field_iter_exact [OF f, of "0x1000" 2 100] by simp
qed

end
