(* ===== verification/PbEncode.thy ===== *)
theory PbEncode
  imports PbIter PbOStream
begin

text \<open>
  The message encoder of nanopb (\<^verbatim>\<open>nanopb/pb_encode.c\<close>): the encoders of the field types, arrays, callback and extension fields,
  messages and submessages.

  The structure that is encoded lies in a byte-addressed memory, of which the encoder only reads; a read of an address that is not
  mapped is a \<open>Fault\<close>.  Pointers and \<open>size_t\<close> have 64 bits, \<open>pb_size_t\<close> has 32, \<open>bool\<close> has one byte, integers are
  little-endian: the ABI of the devices the application runs on.  Arrays of descriptors are found by their address.  Function pointers of the
  application (callback fields, extensions with an encoder of their own) are values in memory; what they call is a parameter, a
  function on the stream.

  A message may contain messages, through pointers also of its own type, and a chain of extensions.  The parameter \<open>d\<close> bounds the
  nesting and the length of such chains; what goes deeper is a \<open>Fault\<close>, as it exhausts the stack.
\<close>

unbundle bit_operations_syntax

section \<open>Memory\<close>

type_synonym memory = "u64 \<Rightarrow> byte option"

fun load :: "memory \<Rightarrow> u64 \<Rightarrow> nat \<Rightarrow> byte list option" where
  "load m a 0 = Some []"
| "load m a (Suc n) = (case m a of None \<Rightarrow> None | Some b \<Rightarrow> map_option ((#) b) (load m (a + 1) n))"

fun le_word :: "byte list \<Rightarrow> 'a::len word" where
  "le_word [] = 0"
| "le_word (b # bs) = ucast b + 256 * le_word bs"

definition load_word :: "memory \<Rightarrow> u64 \<Rightarrow> nat \<Rightarrow> 'a::len word option" where
  "load_word m a n = map_option le_word (load m a n)"

abbreviation load8 :: "memory \<Rightarrow> u64 \<Rightarrow> byte option" where "load8 m a \<equiv> load_word m a 1"
abbreviation load16 :: "memory \<Rightarrow> u64 \<Rightarrow> u16 option" where "load16 m a \<equiv> load_word m a 2"
abbreviation load32 :: "memory \<Rightarrow> u64 \<Rightarrow> u32 option" where "load32 m a \<equiv> load_word m a 4"
abbreviation load64 :: "memory \<Rightarrow> u64 \<Rightarrow> u64 option" where "load64 m a \<equiv> load_word m a 8"

text \<open>The bytes that a pointer argument of \<open>pb_write\<close> stands for.\<close>

definition buffer_at :: "memory \<Rightarrow> u64 \<Rightarrow> nat \<Rightarrow> byte list option" where
  "buffer_at m a n = (if a = 0 then None else Some (case load m a n of None \<Rightarrow> [] | Some bs \<Rightarrow> bs))"

fun oread :: "'a option \<Rightarrow> ('a \<Rightarrow> ('b, 's) outcome) \<Rightarrow> ('b, 's) outcome" where
  "oread None f = Fault"
| "oread (Some a) f = f a"

record 'u pb_env =
  memory :: memory
  descriptors :: "u64 \<Rightarrow> pb_field_t list option"
  encode_callback :: "u64 \<Rightarrow> 'u pb_ostream_t \<Rightarrow> pb_field_t \<Rightarrow> u64 \<Rightarrow> (unit, 'u pb_ostream_t) outcome"
  encode_extension :: "u64 \<Rightarrow> 'u pb_ostream_t \<Rightarrow> u64 \<Rightarrow> (unit, 'u pb_ostream_t) outcome"

type_synonym 'u pb_encoder_t = "'u pb_ostream_t \<Rightarrow> pb_field_t \<Rightarrow> u64 \<Rightarrow> (unit, 'u pb_ostream_t) outcome"
type_synonym 'u message_encoder = "'u pb_ostream_t \<Rightarrow> pb_field_t list \<Rightarrow> u64 \<Rightarrow> (unit, 'u pb_ostream_t) outcome"

definition safe_read_bool :: "memory \<Rightarrow> u64 \<Rightarrow> bool option" where
  "safe_read_bool m p = map_option (\<lambda>b. b \<noteq> 0) (m p)"

section \<open>Encoders of the field types\<close>

definition pb_encode_tag_for_field :: "'u pb_ostream_t \<Rightarrow> pb_field_t \<Rightarrow> (unit, 'u pb_ostream_t) outcome" where
  "pb_encode_tag_for_field s field =
     (let t = PB_LTYPE (field_type field) in
      if t = PB_LTYPE_BOOL \<or> t = PB_LTYPE_VARINT \<or> t = PB_LTYPE_UVARINT \<or> t = PB_LTYPE_SVARINT then pb_encode_tag s 0 (tag field)
      else if t = PB_LTYPE_FIXED32 then pb_encode_tag s 5 (tag field)
      else if t = PB_LTYPE_FIXED64 then pb_encode_tag s 1 (tag field)
      else if t = PB_LTYPE_BYTES \<or> t = PB_LTYPE_STRING \<or> t = PB_LTYPE_SUBMESSAGE \<or> t = PB_LTYPE_FIXED_LENGTH_BYTES
      then pb_encode_tag s 2 (tag field)
      else OSTREAM_RETURN_ERROR s ''invalid field type'')"

definition pb_enc_bool :: "memory \<Rightarrow> 'u pb_encoder_t" where
  "pb_enc_bool m s field src = oread (safe_read_bool m src) (\<lambda>b. pb_encode_varint s (if b then 1 else 0))"

text \<open>The integer of the field's size, extended to 64 bits with its sign or with zeros; \<open>None\<close> for another size.\<close>

definition signed_value :: "memory \<Rightarrow> pb_field_t \<Rightarrow> u64 \<Rightarrow> u64 option option" where
  "signed_value m field src =
     (if data_size field = 1 then Some (map_option scast (load8 m src))
      else if data_size field = 2 then Some (map_option scast (load16 m src))
      else if data_size field = 4 then Some (map_option scast (load32 m src))
      else if data_size field = 8 then Some (load64 m src)
      else None)"

definition unsigned_value :: "memory \<Rightarrow> pb_field_t \<Rightarrow> u64 \<Rightarrow> u64 option option" where
  "unsigned_value m field src =
     (if data_size field = 1 then Some (map_option ucast (load8 m src))
      else if data_size field = 2 then Some (map_option ucast (load16 m src))
      else if data_size field = 4 then Some (map_option ucast (load32 m src))
      else if data_size field = 8 then Some (load64 m src)
      else None)"

definition pb_enc_varint :: "memory \<Rightarrow> 'u pb_encoder_t" where
  "pb_enc_varint m s field src =
     (case signed_value m field src of
        None \<Rightarrow> OSTREAM_RETURN_ERROR s ''invalid data_size''
      | Some v \<Rightarrow> oread v (pb_encode_varint s))"

definition pb_enc_uvarint :: "memory \<Rightarrow> 'u pb_encoder_t" where
  "pb_enc_uvarint m s field src =
     (case unsigned_value m field src of
        None \<Rightarrow> OSTREAM_RETURN_ERROR s ''invalid data_size''
      | Some v \<Rightarrow> oread v (pb_encode_varint s))"

definition pb_enc_svarint :: "memory \<Rightarrow> 'u pb_encoder_t" where
  "pb_enc_svarint m s field src =
     (case signed_value m field src of
        None \<Rightarrow> OSTREAM_RETURN_ERROR s ''invalid data_size''
      | Some v \<Rightarrow> oread v (pb_encode_svarint s))"

definition pb_enc_fixed32 :: "memory \<Rightarrow> 'u pb_encoder_t" where
  "pb_enc_fixed32 m s field src = oread (load32 m src) (pb_encode_fixed32 s)"

definition pb_enc_fixed64 :: "memory \<Rightarrow> 'u pb_encoder_t" where
  "pb_enc_fixed64 m s field src = oread (load64 m src) (pb_encode_fixed64 s)"

text \<open>A \<open>pb_bytes_array_t\<close> is the size, in four bytes, and the bytes.\<close>

definition pb_enc_bytes :: "memory \<Rightarrow> 'u pb_encoder_t" where
  "pb_enc_bytes m s field src =
     (if src = 0 then pb_encode_string s None 0
      else oread (load32 m src) (\<lambda>n.
        if PB_ATYPE (field_type field) = PB_ATYPE_STATIC \<and> ucast (data_size field) - 4 < (ucast n :: size_t)
        then OSTREAM_RETURN_ERROR s ''bytes size exceeded''
        else pb_encode_string s (buffer_at m (src + 4) (unat n)) (ucast n)))"

lemma room_left: "(i :: 'a::len word) < n \<Longrightarrow> unat (n - (i + 1)) < unat (n - i)"
proof -
  assume "i < n"
  then have "1 \<le> n - i" by (simp add: word_le_nat_alt Suc_le_eq unat_gt_0)
  then have "unat (n - i - 1) = unat (n - i) - 1" "0 < unat (n - i)"
    by (simp_all add: unat_sub_le word_le_nat_alt)
  then show ?thesis by (simp add: diff_diff_eq)
qed

function string_size :: "memory \<Rightarrow> size_t \<Rightarrow> size_t \<Rightarrow> u64 \<Rightarrow> size_t option" where
  "string_size m bound n p =
     (if n < bound
      then (case m p of
              None \<Rightarrow> None
            | Some c \<Rightarrow> if c \<noteq> 0 then string_size m bound (n + 1) (p + 1) else Some n)
      else Some n)"
  by pat_completeness auto
termination
proof (relation "measure (\<lambda>(m, bound, n, p). unat (bound - n))")
  fix bound n :: size_t
  assume "n < bound"
  then have "unat (bound - (n + 1)) < unat (bound - n)"
    using room_left [of n bound] by simp
  then show "((m, bound, n + 1, p + 1), m, bound, n, p) \<in> measure (\<lambda>(m, bound, n, p). unat (bound - n))"
    for m :: memory and p :: u64 by simp
qed simp

declare string_size.simps [simp del]

definition pb_enc_string :: "memory \<Rightarrow> 'u pb_encoder_t" where
  "pb_enc_string m s field src =
     (let bound = (if PB_ATYPE (field_type field) = PB_ATYPE_POINTER then - 1 else ucast (data_size field)) in
      oread (if src = 0 then Some 0 else string_size m bound 0 src)
        (\<lambda>n. pb_encode_string s (buffer_at m src (unat n)) n))"

definition pb_enc_fixed_length_bytes :: "memory \<Rightarrow> 'u pb_encoder_t" where
  "pb_enc_fixed_length_bytes m s field src =
     pb_encode_string s (buffer_at m src (unat (data_size field))) (ucast (data_size field))"

section \<open>Submessages\<close>

text \<open>\<open>rec\<close> is the encoder of whole messages.  \<open>write_submessage\<close> is what follows the length on a stream that is not for sizing;
  \<open>sub\<close> is the substream as the sizing run left it.\<close>

definition write_submessage :: "'u message_encoder \<Rightarrow> size_t \<Rightarrow> 'u pb_ostream_t \<Rightarrow> 'u message_encoder" where
  "write_submessage rec n sub s fs src_struct =
     (if max_size s < bytes_written s + n then OSTREAM_RETURN_ERROR s ''stream full''
      else
        let finish = (\<lambda>status sub.
          let s' = s\<lparr>bytes_written := bytes_written s + bytes_written sub, ostate := ostate sub, oerrmsg := oerrmsg sub\<rparr> in
          if bytes_written sub \<noteq> n then OSTREAM_RETURN_ERROR s' ''submsg size changed''
          else if status then Ok () s' else Fail s')
        in case rec (sub\<lparr>ocallback := ocallback s, ostate := ostate s, max_size := n, bytes_written := 0, oerrmsg := None\<rparr>)
                  fs src_struct of
             Fault \<Rightarrow> Fault
           | Fail sub' \<Rightarrow> finish False sub'
           | Ok _ sub' \<Rightarrow> finish True sub')"

definition pb_encode_submessage :: "'u message_encoder \<Rightarrow> 'u message_encoder" where
  "pb_encode_submessage rec s fs src_struct =
     (case rec PB_OSTREAM_SIZING fs src_struct of
        Fault \<Rightarrow> Fault
      | Fail sub \<Rightarrow> Fail (s\<lparr>oerrmsg := oerrmsg sub\<rparr>)
      | Ok _ sub \<Rightarrow>
          (let size = bytes_written sub in
           obind (pb_encode_varint s size) (\<lambda>_ s.
             if is_sizing s then pb_write s None size else write_submessage rec size sub s fs src_struct)))"

definition pb_enc_submessage :: "(u64 \<Rightarrow> pb_field_t list option) \<Rightarrow> 'u message_encoder \<Rightarrow> 'u pb_encoder_t" where
  "pb_enc_submessage descs rec s field src =
     (if ptr field = 0 then OSTREAM_RETURN_ERROR s ''invalid field descriptor''
      else oread (descs (ptr field)) (\<lambda>fs. pb_encode_submessage rec s fs src))"

text \<open>The table of encoders, by type; \<open>None\<close> is a null pointer, or lies behind the table.\<close>

definition PB_ENCODERS :: "'u pb_env \<Rightarrow> 'u message_encoder \<Rightarrow> byte \<Rightarrow> 'u pb_encoder_t option" where
  "PB_ENCODERS env rec t =
     (let m = memory env in
      if t = PB_LTYPE_BOOL then Some (pb_enc_bool m)
      else if t = PB_LTYPE_VARINT then Some (pb_enc_varint m)
      else if t = PB_LTYPE_UVARINT then Some (pb_enc_uvarint m)
      else if t = PB_LTYPE_SVARINT then Some (pb_enc_svarint m)
      else if t = PB_LTYPE_FIXED32 then Some (pb_enc_fixed32 m)
      else if t = PB_LTYPE_FIXED64 then Some (pb_enc_fixed64 m)
      else if t = PB_LTYPE_BYTES then Some (pb_enc_bytes m)
      else if t = PB_LTYPE_STRING then Some (pb_enc_string m)
      else if t = PB_LTYPE_SUBMESSAGE then Some (pb_enc_submessage (descriptors env) rec)
      else if t = PB_LTYPE_FIXED_LENGTH_BYTES then Some (pb_enc_fixed_length_bytes m)
      else None)"

text \<open>A call through a pointer to an encoder.\<close>

definition call_encoder :: "'u pb_encoder_t option \<Rightarrow> 'u pb_encoder_t" where
  "call_encoder func s field src = oread func (\<lambda>f. f s field src)"

section \<open>Arrays\<close>

text \<open>The loops of \<open>encode_array\<close>, over \<open>n\<close> entries from address \<open>p\<close> on: of a packed array, and of one with a tag per entry.\<close>

fun encode_packed :: "'u pb_encoder_t option \<Rightarrow> 'u pb_ostream_t \<Rightarrow> pb_field_t \<Rightarrow> u64 \<Rightarrow> nat \<Rightarrow> (unit, 'u pb_ostream_t) outcome" where
  "encode_packed func s field p 0 = Ok () s"
| "encode_packed func s field p (Suc n) =
     obind (call_encoder func s field p) (\<lambda>_ s. encode_packed func s field (p + ucast (data_size field)) n)"

definition has_pointer_entries :: "pb_field_t \<Rightarrow> bool" where
  "has_pointer_entries field \<longleftrightarrow> PB_ATYPE (field_type field) = PB_ATYPE_POINTER \<and>
     (PB_LTYPE (field_type field) = PB_LTYPE_STRING \<or> PB_LTYPE (field_type field) = PB_LTYPE_BYTES)"

fun encode_entries :: "memory \<Rightarrow> 'u pb_encoder_t option \<Rightarrow> 'u pb_ostream_t \<Rightarrow> pb_field_t \<Rightarrow> u64 \<Rightarrow> nat \<Rightarrow> (unit, 'u pb_ostream_t) outcome" where
  "encode_entries m func s field p 0 = Ok () s"
| "encode_entries m func s field p (Suc n) =
     obind (pb_encode_tag_for_field s field) (\<lambda>_ s.
     obind (if has_pointer_entries field then oread (load64 m p) (\<lambda>q. call_encoder func s field q)
            else call_encoder func s field p) (\<lambda>_ s.
     encode_entries m func s field (p + ucast (data_size field)) n))"

definition packed_size :: "'u pb_encoder_t option \<Rightarrow> 'u pb_ostream_t \<Rightarrow> pb_field_t \<Rightarrow> u64 \<Rightarrow> size_t \<Rightarrow> (size_t, 'u pb_ostream_t) outcome" where
  "packed_size func s field data count =
     (if PB_LTYPE (field_type field) = PB_LTYPE_FIXED32 then Ok (4 * count) s
      else if PB_LTYPE (field_type field) = PB_LTYPE_FIXED64 then Ok (8 * count) s
      else (case encode_packed func PB_OSTREAM_SIZING field data (unat count) of
              Fault \<Rightarrow> Fault
            | Fail _ \<Rightarrow> Fail s
            | Ok _ sizestream \<Rightarrow> Ok (bytes_written sizestream) s))"

definition encode_array ::
  "memory \<Rightarrow> 'u pb_ostream_t \<Rightarrow> pb_field_t \<Rightarrow> u64 \<Rightarrow> size_t \<Rightarrow> 'u pb_encoder_t option \<Rightarrow> (unit, 'u pb_ostream_t) outcome" where
  "encode_array m s field data count func =
     (if count = 0 then Ok () s
      else if PB_ATYPE (field_type field) \<noteq> PB_ATYPE_POINTER \<and> ucast (array_size field) < count
      then OSTREAM_RETURN_ERROR s ''array max size exceeded''
      else if PB_LTYPE (field_type field) \<le> PB_LTYPE_LAST_PACKABLE then
        obind (pb_encode_tag s 2 (tag field)) (\<lambda>_ s.
        obind (packed_size func s field data count) (\<lambda>size s.
        obind (pb_encode_varint s size) (\<lambda>_ s.
        if is_sizing s then pb_write s None size
        else encode_packed func s field data (unat count))))
      else encode_entries m func s field data (unat count))"

section \<open>Default values\<close>

fun all_zero :: "memory \<Rightarrow> u64 \<Rightarrow> nat \<Rightarrow> bool option" where
  "all_zero m p 0 = Some True"
| "all_zero m p (Suc n) = (case m p of None \<Rightarrow> None | Some b \<Rightarrow> if b \<noteq> 0 then Some False else all_zero m (p + 1) n)"

text \<open>The position of the iterator moves towards the end of the descriptors as long as \<open>pb_field_iter_next\<close> returns true.\<close>

lemma pb_field_iter_next_moves:
  "pb_field_iter_next it = Some (True, it') \<Longrightarrow>
   start it' = start it \<and> pos it' = Suc (pos it) \<and> pos it' < length (start it')"
  by (auto simp: pb_field_iter_next_def mem_at_def Let_def split: option.splits if_splits bind_splits prod.splits)

text \<open>The loop over the fields of a submessage.\<close>

function all_default :: "(pb_field_t \<Rightarrow> u64 \<Rightarrow> bool option) \<Rightarrow> pb_field_iter_t \<Rightarrow> bool option" where
  "all_default check it =
     do {
       f \<leftarrow> mem_at (start it) (pos it);
       b \<leftarrow> check f (pData it);
       if \<not> b then Some False
       else do {
         (go, it') \<leftarrow> pb_field_iter_next it;
         if go then all_default check it' else Some True
       }
     }"
  by pat_completeness auto
termination
  by (relation "measure (\<lambda>(check, it). length (start it) - pos it)") (auto dest: pb_field_iter_next_moves)

declare all_default.simps [simp del]

fun pb_check_proto3_default_value ::
  "nat \<Rightarrow> memory \<Rightarrow> (u64 \<Rightarrow> pb_field_t list option) \<Rightarrow> pb_field_t \<Rightarrow> u64 \<Rightarrow> bool option" where
  "pb_check_proto3_default_value 0 m descs field data = None"
| "pb_check_proto3_default_value (Suc d) m descs field data =
     (let type = field_type field; pSize = data + scast (size_offset field) in
      if PB_HTYPE type = PB_HTYPE_REQUIRED then Some False
      else if PB_HTYPE type = PB_HTYPE_REPEATED \<and> size_offset field \<noteq> 0 then map_option (\<lambda>n. n = 0) (load32 m pSize)
      else if PB_HTYPE type = PB_HTYPE_REPEATED \<and> PB_ATYPE type = PB_ATYPE_STATIC then Some False
      else if PB_HTYPE type = PB_HTYPE_ONEOF then map_option (\<lambda>n. n = 0) (load32 m pSize)
      else if PB_HTYPE type = PB_HTYPE_OPTIONAL \<and> size_offset field \<noteq> 0 then map_option Not (safe_read_bool m pSize)
      else if PB_ATYPE type = PB_ATYPE_STATIC \<and> PB_LTYPE type = PB_LTYPE_BYTES then map_option (\<lambda>n. n = 0) (load32 m data)
      else if PB_ATYPE type = PB_ATYPE_STATIC \<and> PB_LTYPE type = PB_LTYPE_STRING then map_option (\<lambda>c. c = 0) (m data)
      else if PB_ATYPE type = PB_ATYPE_STATIC \<and> PB_LTYPE type = PB_LTYPE_FIXED_LENGTH_BYTES then Some (data_size field = 0)
      else if PB_ATYPE type = PB_ATYPE_STATIC \<and> PB_LTYPE type = PB_LTYPE_SUBMESSAGE then
        do {
          fs \<leftarrow> descs (ptr field);
          (b, it) \<leftarrow> pb_field_iter_begin fs data;
          if b then all_default (pb_check_proto3_default_value d m descs) it else Some True
        }
      else if PB_ATYPE type = PB_ATYPE_POINTER \<and> PB_LTYPE_LAST_PACKABLE < PB_LTYPE type
      then map_option (\<lambda>p. p = 0) (load64 m data)
      else all_zero m data (unat (data_size field)))"

section \<open>Fields\<close>

text \<open>\<open>pSize\<close> points into the structure, or to the local variable \<open>implicit_has\<close>, one byte, of which no count can be read.\<close>

datatype size_pointer = Local_has | In_struct u64

definition read_has :: "memory \<Rightarrow> bool \<Rightarrow> size_pointer \<Rightarrow> bool option" where
  "read_has m implicit_has p = (case p of Local_has \<Rightarrow> Some implicit_has | In_struct a \<Rightarrow> safe_read_bool m a)"

definition read_count :: "memory \<Rightarrow> size_pointer \<Rightarrow> u32 option" where
  "read_count m p = (case p of Local_has \<Rightarrow> None | In_struct a \<Rightarrow> load32 m a)"

text \<open>The tag of a field and its value.\<close>

definition encode_tagged :: "'u pb_encoder_t option \<Rightarrow> 'u pb_encoder_t" where
  "encode_tagged func s field p = obind (pb_encode_tag_for_field s field) (\<lambda>_ s. call_encoder func s field p)"

definition encode_basic_field :: "nat \<Rightarrow> 'u pb_env \<Rightarrow> 'u message_encoder \<Rightarrow> 'u pb_encoder_t" where
  "encode_basic_field d env rec s field data =
     (let m = memory env; type = field_type field; func = PB_ENCODERS env rec (PB_LTYPE type) in
      if 0x0B \<le> PB_LTYPE type then Fault
      else
        let pSize = (if size_offset field \<noteq> 0 then In_struct (data + scast (size_offset field)) else Local_has) in
        oread (if size_offset field \<noteq> 0 then Some False
               else if PB_HTYPE type = PB_HTYPE_OPTIONAL
               then map_option Not (pb_check_proto3_default_value d m (descriptors env) field data)
               else Some True) (\<lambda>has.
        oread (if PB_ATYPE type = PB_ATYPE_POINTER then map_option (\<lambda>p. (p, p \<noteq> 0)) (load64 m data)
               else Some (data, has)) (\<lambda>(p, implicit_has).
        if PB_HTYPE type = PB_HTYPE_REQUIRED then
          (if p = 0 then OSTREAM_RETURN_ERROR s ''missing required field'' else encode_tagged func s field p)
        else if PB_HTYPE type = PB_HTYPE_OPTIONAL then
          oread (read_has m implicit_has pSize) (\<lambda>b. if b then encode_tagged func s field p else Ok () s)
        else if PB_HTYPE type = PB_HTYPE_REPEATED then
          oread (if size_offset field \<noteq> 0 then read_count m pSize else Some (array_size field))
            (\<lambda>count. encode_array m s field p (ucast count) func)
        else
          oread (read_count m pSize) (\<lambda>which. if which = tag field then encode_tagged func s field p else Ok () s))))"

text \<open>A \<open>pb_callback_t\<close> is the function pointer, in eight bytes, and the argument.\<close>

definition encode_callback_field :: "'u pb_env \<Rightarrow> 'u pb_encoder_t" where
  "encode_callback_field env s field data =
     oread (load64 (memory env) data) (\<lambda>encode.
       if encode \<noteq> 0 then
         (case encode_callback env encode s field (data + 8) of
            Fail s \<Rightarrow> OSTREAM_RETURN_ERROR s ''callback error''
          | r \<Rightarrow> r)
       else Ok () s)"

definition encode_field :: "nat \<Rightarrow> 'u pb_env \<Rightarrow> 'u message_encoder \<Rightarrow> 'u pb_encoder_t" where
  "encode_field d env rec s field data =
     (let a = PB_ATYPE (field_type field) in
      if a = PB_ATYPE_STATIC \<or> a = PB_ATYPE_POINTER then encode_basic_field d env rec s field data
      else if a = PB_ATYPE_CALLBACK then encode_callback_field env s field data
      else OSTREAM_RETURN_ERROR s ''invalid field type'')"

text \<open>A \<open>pb_extension_t\<close> holds the pointers \<open>type\<close>, \<open>dest\<close> and \<open>next\<close>; its type holds \<open>decode\<close>, \<open>encode\<close> and \<open>arg\<close>.\<close>

definition default_extension_encoder ::
  "nat \<Rightarrow> 'u pb_env \<Rightarrow> 'u message_encoder \<Rightarrow> 'u pb_ostream_t \<Rightarrow> u64 \<Rightarrow> (unit, 'u pb_ostream_t) outcome" where
  "default_extension_encoder d env rec s extension =
     oread (load64 (memory env) extension) (\<lambda>type.
     oread (load64 (memory env) (type + 16)) (\<lambda>arg.
     oread (Option.bind (descriptors env arg) (\<lambda>fs. mem_at fs 0)) (\<lambda>field.
     if PB_ATYPE (field_type field) = PB_ATYPE_POINTER then encode_field d env rec s field (extension + 8)
     else oread (load64 (memory env) (extension + 8)) (\<lambda>dest. encode_field d env rec s field dest))))"

fun encode_extensions ::
  "nat \<Rightarrow> nat \<Rightarrow> 'u pb_env \<Rightarrow> 'u message_encoder \<Rightarrow> 'u pb_ostream_t \<Rightarrow> u64 \<Rightarrow> (unit, 'u pb_ostream_t) outcome" where
  "encode_extensions 0 d env rec s extension = (if extension = 0 then Ok () s else Fault)"
| "encode_extensions (Suc n) d env rec s extension =
     (if extension = 0 then Ok () s
      else
        oread (load64 (memory env) extension) (\<lambda>type.
        oread (load64 (memory env) (type + 8)) (\<lambda>encode.
        obind (if encode \<noteq> 0 then encode_extension env encode s extension else default_extension_encoder d env rec s extension) (\<lambda>_ s.
        oread (load64 (memory env) (extension + 16)) (\<lambda>next. encode_extensions n d env rec s next)))))"

definition encode_extension_field :: "nat \<Rightarrow> 'u pb_env \<Rightarrow> 'u message_encoder \<Rightarrow> 'u pb_encoder_t" where
  "encode_extension_field d env rec s field data =
     oread (load64 (memory env) data) (\<lambda>extension. encode_extensions d d env rec s extension)"

section \<open>Messages\<close>

text \<open>The loop of \<open>pb_encode\<close>, from where the iterator stands.\<close>

function encode_fields :: "nat \<Rightarrow> 'u pb_env \<Rightarrow> 'u message_encoder \<Rightarrow> 'u pb_ostream_t \<Rightarrow> pb_field_iter_t \<Rightarrow> (unit, 'u pb_ostream_t) outcome" where
  "encode_fields d env rec s it =
     oread (mem_at (start it) (pos it)) (\<lambda>field.
     obind (if PB_LTYPE (field_type field) = PB_LTYPE_EXTENSION then encode_extension_field d env rec s field (pData it)
            else encode_field d env rec s field (pData it)) (\<lambda>_ s.
     (case pb_field_iter_next it of
        None \<Rightarrow> Fault
      | Some (go, it') \<Rightarrow> if go then encode_fields d env rec s it' else Ok () s)))"
  by pat_completeness auto
termination
  by (relation "measure (\<lambda>(d, env, rec, s, it). length (start it) - pos it)") (auto dest: pb_field_iter_next_moves)

declare encode_fields.simps [simp del]

fun pb_encode :: "nat \<Rightarrow> 'u pb_env \<Rightarrow> 'u message_encoder" where
  "pb_encode 0 env s fs src_struct = Fault"
| "pb_encode (Suc d) env s fs src_struct =
     (case pb_field_iter_begin fs src_struct of
        None \<Rightarrow> Fault
      | Some (b, it) \<Rightarrow> if b then encode_fields d env (pb_encode d env) s it else Ok () s)"

definition pb_encode_delimited :: "nat \<Rightarrow> 'u pb_env \<Rightarrow> 'u message_encoder" where
  "pb_encode_delimited d env s fs src_struct = pb_encode_submessage (pb_encode d env) s fs src_struct"

definition pb_encode_nullterminated :: "nat \<Rightarrow> 'u pb_env \<Rightarrow> 'u message_encoder" where
  "pb_encode_nullterminated d env s fs src_struct =
     obind (pb_encode d env s fs src_struct) (\<lambda>_ s. pb_write s (Some [0]) 1)"

text \<open>The size, or that the function returned false.\<close>

definition pb_get_encoded_size :: "nat \<Rightarrow> 'u pb_env \<Rightarrow> pb_field_t list \<Rightarrow> u64 \<Rightarrow> size_t option option" where
  "pb_get_encoded_size d env fs src_struct =
     (case pb_encode d env PB_OSTREAM_SIZING fs src_struct of
        Fault \<Rightarrow> None
      | Fail _ \<Rightarrow> Some None
      | Ok _ stream \<Rightarrow> Some (Some (bytes_written stream)))"

end
