(* ===== verification/PbEncSpec.thy ===== *)
theory PbEncSpec
  imports PbEncode PbIterProps PbWireEnc
begin

text \<open>
  What the message encoder of nanopb is to write.  \<open>view_message\<close> reads a structure as a list of items, tagged values, without
  streams and iterators: every field lies at the address that its descriptors give it.  It uses the memory and the layout of the
  descriptors, and none of the encoder's functions: what an integer means, and when a field of proto3 holds its default value and
  is left out, is said here.  \<open>wire_items\<close> is the protocol buffer encoding of items.  \<open>emits\<close> says that a function on output streams writes certain bytes, or fails when they do not fit.
\<close>

section \<open>Items and their encoding\<close>

datatype pb_value =
    Varint u64
  | Fixed32 u32
  | Fixed64 u64
  | Delimited "byte list"
  | Message "pb_item list"
and pb_item =
    Item u32 pb_value
  | Packed u32 "pb_value list"
  | Raw "byte list"

fun wire_type :: "pb_value \<Rightarrow> u32" where
  "wire_type (Varint _) = 0"
| "wire_type (Fixed64 _) = 1"
| "wire_type (Delimited _) = 2"
| "wire_type (Message _) = 2"
| "wire_type (Fixed32 _) = 5"

definition delimited :: "byte list \<Rightarrow> byte list" where
  "delimited bs = varint_enc (length bs) @ bs"

fun wire_value :: "pb_value \<Rightarrow> byte list" and wire_item :: "pb_item \<Rightarrow> byte list" where
  "wire_value (Varint v) = varint_enc (unat v)"
| "wire_value (Fixed32 v) = le_bytes 4 (unat v)"
| "wire_value (Fixed64 v) = le_bytes 8 (unat v)"
| "wire_value (Delimited bs) = delimited bs"
| "wire_value (Message is) = delimited (concat (map wire_item is))"
| "wire_item (Item t v) = varint_enc (tag_word (wire_type v) t) @ wire_value v"
| "wire_item (Packed t vs) = varint_enc (tag_word 2 t) @ delimited (concat (map wire_value vs))"
| "wire_item (Raw bs) = bs"

definition wire_items :: "pb_item list \<Rightarrow> byte list" where
  "wire_items is = concat (map wire_item is)"

section \<open>Reading a structure\<close>

text \<open>What the application's encoders write, by function pointer, field and address.\<close>

record app_bytes =
  callback_bytes :: "u64 \<Rightarrow> pb_field_t \<Rightarrow> u64 \<Rightarrow> byte list option"
  extension_bytes :: "u64 \<Rightarrow> u64 \<Rightarrow> byte list option"

text \<open>The characters in front of a terminating zero, at most \<open>n\<close>.\<close>

fun c_string :: "memory \<Rightarrow> nat \<Rightarrow> u64 \<Rightarrow> byte list option" where
  "c_string m 0 p = Some []"
| "c_string m (Suc n) p =
     (case m p of None \<Rightarrow> None | Some c \<Rightarrow> if c = 0 then Some [] else map_option ((#) c) (c_string m n (p + 1)))"

text \<open>The integers that one, two, four or eight bytes stand for, modulo \<open>2\<^sup>6\<^sup>4\<close>, in two's complement and without sign, and the
  zigzag numbers of signed ones.\<close>

fun le_int :: "byte list \<Rightarrow> int" where
  "le_int [] = 0"
| "le_int (b # bs) = uint b + 256 * le_int bs"

definition view_int :: "(nat \<Rightarrow> int \<Rightarrow> int) \<Rightarrow> memory \<Rightarrow> pb_field_t \<Rightarrow> u64 \<Rightarrow> u64 option" where
  "view_int meaning m f p =
     (let n = unat (data_size f) in
      if n \<in> {1, 2, 4, 8} then map_option (\<lambda>bs. of_int (meaning (8 * n) (le_int bs))) (load m p n) else None)"

definition twos_complement :: "nat \<Rightarrow> int \<Rightarrow> int" where
  "twos_complement n v = (if v < 2 ^ (n - 1) then v else v - 2 ^ n)"

definition no_sign :: "nat \<Rightarrow> int \<Rightarrow> int" where
  "no_sign n v = v"

definition zigzag_word :: "u64 \<Rightarrow> u64" where
  "zigzag_word v = of_int (if sint v < 0 then - 2 * sint v - 1 else 2 * sint v)"

definition view_bool :: "memory \<Rightarrow> u64 \<Rightarrow> bool option" where
  "view_bool m p = (case m p of None \<Rightarrow> None | Some b \<Rightarrow> Some (b \<noteq> 0))"

definition string_bound :: "pb_field_t \<Rightarrow> nat" where
  "string_bound f = (if PB_ATYPE (field_type f) = PB_ATYPE_POINTER then 2 ^ 64 - 1 else unat (data_size f))"

definition view_bytes :: "memory \<Rightarrow> pb_field_t \<Rightarrow> u64 \<Rightarrow> byte list option" where
  "view_bytes m f p =
     (if p = 0 then Some []
      else do {
        n \<leftarrow> load32 m p;
        if PB_ATYPE (field_type f) = PB_ATYPE_STATIC \<and> ucast (data_size f) - 4 < (ucast n :: size_t) then None
        else load m (p + 4) (unat n)
      })"

definition view_value ::
  "'u pb_env \<Rightarrow> (pb_field_t list \<Rightarrow> u64 \<Rightarrow> pb_item list option) \<Rightarrow> pb_field_t \<Rightarrow> u64 \<Rightarrow> pb_value option" where
  "view_value env vm f p =
     (let t = PB_LTYPE (field_type f); m = memory env in
      if t = PB_LTYPE_BOOL then map_option (\<lambda>b. Varint (of_bool b)) (view_bool m p)
      else if t = PB_LTYPE_VARINT then map_option Varint (view_int twos_complement m f p)
      else if t = PB_LTYPE_UVARINT then map_option Varint (view_int no_sign m f p)
      else if t = PB_LTYPE_SVARINT then map_option (\<lambda>v. Varint (zigzag_word v)) (view_int twos_complement m f p)
      else if t = PB_LTYPE_FIXED32 then map_option Fixed32 (load32 m p)
      else if t = PB_LTYPE_FIXED64 then map_option Fixed64 (load64 m p)
      else if t = PB_LTYPE_BYTES then map_option Delimited (view_bytes m f p)
      else if t = PB_LTYPE_STRING then map_option Delimited (if p = 0 then Some [] else c_string m (string_bound f) p)
      else if t = PB_LTYPE_SUBMESSAGE then
        (if ptr f = 0 then None else map_option Message (Option.bind (descriptors env (ptr f)) (\<lambda>fs. vm fs p)))
      else if t = PB_LTYPE_FIXED_LENGTH_BYTES then map_option Delimited (load m p (unat (data_size f)))
      else None)"

text \<open>The values of an array of \<open>n\<close> entries; \<open>entry\<close> is how the address of an entry leads to its value.  The entries of an allocated
  array of strings or of bytes are pointers.\<close>

definition pointer_entries :: "pb_field_t \<Rightarrow> bool" where
  "pointer_entries f \<longleftrightarrow>
     PB_ATYPE (field_type f) = PB_ATYPE_POINTER \<and> PB_LTYPE (field_type f) \<in> {PB_LTYPE_STRING, PB_LTYPE_BYTES}"

fun view_entries :: "(u64 \<Rightarrow> 'v option) \<Rightarrow> pb_field_t \<Rightarrow> u64 \<Rightarrow> nat \<Rightarrow> 'v list option" where
  "view_entries entry f p 0 = Some []"
| "view_entries entry f p (Suc n) =
     do { v \<leftarrow> entry p; vs \<leftarrow> view_entries entry f (p + ucast (data_size f)) n; Some (v # vs) }"

definition view_array ::
  "'u pb_env \<Rightarrow> (pb_field_t list \<Rightarrow> u64 \<Rightarrow> pb_item list option) \<Rightarrow> pb_field_t \<Rightarrow> u64 \<Rightarrow> nat \<Rightarrow> pb_item list option" where
  "view_array env vm f p n =
     (if n = 0 then Some []
      else if PB_ATYPE (field_type f) \<noteq> PB_ATYPE_POINTER \<and> unat (array_size f) < n then None
      else if PB_LTYPE (field_type f) \<le> PB_LTYPE_LAST_PACKABLE
      then map_option (\<lambda>vs. [Packed (tag f) vs]) (view_entries (view_value env vm f) f p n)
      else map_option (map (Item (tag f)))
        (view_entries (\<lambda>q. if pointer_entries f then Option.bind (load64 (memory env) q) (view_value env vm f) else view_value env vm f q)
           f p n))"

text \<open>Conjunction from the left, up to the first that is false.\<close>

fun lazy_all :: "bool option list \<Rightarrow> bool option" where
  "lazy_all [] = Some True"
| "lazy_all (x # xs) = (case x of None \<Rightarrow> None | Some b \<Rightarrow> if b then lazy_all xs else Some False)"

text \<open>What counts as the default value of proto3.  What tells about its own presence (a count, the tag of a union, a flag) is at its
  default when that is zero; a required field and a fixed array never are; bytes when they have no byte; a string when its first
  character is the terminator; a message when all its fields are; a pointer to something of variable size when it is null; any
  other value when all its bytes are zero.\<close>

definition zero_count :: "memory \<Rightarrow> u64 \<Rightarrow> bool option" where
  "zero_count m p = map_option (list_all ((=) 0)) (load m p 4)"

definition zero_value :: "memory \<Rightarrow> pb_field_t \<Rightarrow> u64 \<Rightarrow> bool option" where
  "zero_value m f p = lazy_all (map (\<lambda>i. map_option (\<lambda>b. b = 0) (m (p + of_nat i))) [0..<unat (data_size f)])"

datatype presence = Always | Counted | Flagged | By_value

definition presence_of :: "pb_field_t \<Rightarrow> presence" where
  "presence_of f =
     (let h = PB_HTYPE (field_type f) in
      if h = PB_HTYPE_REQUIRED then Always
      else if h = PB_HTYPE_ONEOF then Counted
      else if h = PB_HTYPE_REPEATED then
        (if size_offset f \<noteq> 0 then Counted else if PB_ATYPE (field_type f) = PB_ATYPE_STATIC then Always else By_value)
      else if size_offset f \<noteq> 0 then Flagged else By_value)"

fun holds_default :: "nat \<Rightarrow> memory \<Rightarrow> (u64 \<Rightarrow> pb_field_t list option) \<Rightarrow> pb_field_t \<Rightarrow> u64 \<Rightarrow> bool option" where
  "holds_default 0 m descs f p = None"
| "holds_default (Suc d) m descs f p =
     (case presence_of f of
        Always \<Rightarrow> Some False
      | Counted \<Rightarrow> zero_count m (p + scast (size_offset f))
      | Flagged \<Rightarrow> map_option Not (view_bool m (p + scast (size_offset f)))
      | By_value \<Rightarrow>
          (let t = PB_LTYPE (field_type f); a = PB_ATYPE (field_type f) in
           if a = PB_ATYPE_STATIC \<and> t = PB_LTYPE_BYTES then zero_count m p
           else if a = PB_ATYPE_STATIC \<and> t = PB_LTYPE_STRING then map_option ((=) []) (c_string m 1 p)
           else if a = PB_ATYPE_STATIC \<and> t = PB_LTYPE_FIXED_LENGTH_BYTES then Some (data_size f = 0)
           else if a = PB_ATYPE_STATIC \<and> t = PB_LTYPE_SUBMESSAGE then
             (case descs (ptr f) of
                None \<Rightarrow> None
              | Some fs \<Rightarrow>
                  if fields_ok fs (length fs - 1)
                  then lazy_all (map (\<lambda>k. holds_default d m descs (fs ! k) (field_addr fs p k)) [0..<length fs - 1])
                  else None)
           else if a = PB_ATYPE_POINTER \<and> PB_LTYPE_LAST_PACKABLE < t then map_option (list_all ((=) 0)) (load m p 8)
           else zero_value m f p))"

text \<open>Whether an optional field is present: by its flag, by its pointer, or because it does not hold its default value.\<close>

definition present :: "nat \<Rightarrow> 'u pb_env \<Rightarrow> pb_field_t \<Rightarrow> u64 \<Rightarrow> bool option" where
  "present d env f p =
     (if size_offset f \<noteq> 0 then view_bool (memory env) (p + scast (size_offset f))
      else do {
        default \<leftarrow> holds_default d (memory env) (descriptors env) f p;
        if PB_ATYPE (field_type f) = PB_ATYPE_POINTER then map_option (\<lambda>q. q \<noteq> 0) (load64 (memory env) p)
        else Some (\<not> default)
      })"

definition view_basic ::
  "nat \<Rightarrow> 'u pb_env \<Rightarrow> (pb_field_t list \<Rightarrow> u64 \<Rightarrow> pb_item list option) \<Rightarrow> pb_field_t \<Rightarrow> u64 \<Rightarrow> pb_item list option" where
  "view_basic d env vm f p =
     (if 0x0B \<le> PB_LTYPE (field_type f) then None else do {
       q \<leftarrow> (if PB_ATYPE (field_type f) = PB_ATYPE_POINTER then load64 (memory env) p else Some p);
       let one = map_option (\<lambda>v. [Item (tag f) v]) (view_value env vm f q);
       let which = load32 (memory env) (p + scast (size_offset f));
       if PB_HTYPE (field_type f) = PB_HTYPE_REQUIRED then (if q = 0 then None else one)
       else if PB_HTYPE (field_type f) = PB_HTYPE_OPTIONAL then Option.bind (present d env f p) (\<lambda>b. if b then one else Some [])
       else if PB_HTYPE (field_type f) = PB_HTYPE_REPEATED
       then Option.bind (if size_offset f \<noteq> 0 then which else Some (array_size f)) (\<lambda>n. view_array env vm f q (unat n))
       else if size_offset f = 0 then None
       else Option.bind which (\<lambda>t. if t = tag f then one else Some [])
     })"

definition view_callback :: "'u pb_env \<Rightarrow> app_bytes \<Rightarrow> pb_field_t \<Rightarrow> u64 \<Rightarrow> pb_item list option" where
  "view_callback env app f p =
     do {
       g \<leftarrow> load64 (memory env) p;
       if g = 0 then Some [] else map_option (\<lambda>bs. [Raw bs]) (callback_bytes app g f (p + 8))
     }"

definition view_field ::
  "nat \<Rightarrow> 'u pb_env \<Rightarrow> app_bytes \<Rightarrow> (pb_field_t list \<Rightarrow> u64 \<Rightarrow> pb_item list option) \<Rightarrow> pb_field_t \<Rightarrow> u64 \<Rightarrow> pb_item list option" where
  "view_field d env app vm f p =
     (if PB_ATYPE (field_type f) = PB_ATYPE_STATIC \<or> PB_ATYPE (field_type f) = PB_ATYPE_POINTER then view_basic d env vm f p
      else if PB_ATYPE (field_type f) = PB_ATYPE_CALLBACK then view_callback env app f p
      else None)"

text \<open>One extension, whose type has the encoder \<open>g\<close> or none.\<close>

definition view_extension ::
  "nat \<Rightarrow> 'u pb_env \<Rightarrow> app_bytes \<Rightarrow> (pb_field_t list \<Rightarrow> u64 \<Rightarrow> pb_item list option) \<Rightarrow> u64 \<Rightarrow> u64 \<Rightarrow> u64 \<Rightarrow> pb_item list option" where
  "view_extension d env app vm type g e =
     (if g \<noteq> 0 then map_option (\<lambda>bs. [Raw bs]) (extension_bytes app g e)
      else do {
        arg \<leftarrow> load64 (memory env) (type + 16);
        fs \<leftarrow> descriptors env arg;
        f \<leftarrow> mem_at fs 0;
        p \<leftarrow> (if PB_ATYPE (field_type f) = PB_ATYPE_POINTER then Some (e + 8) else load64 (memory env) (e + 8));
        view_field d env app vm f p
      })"

fun view_extensions ::
  "nat \<Rightarrow> nat \<Rightarrow> 'u pb_env \<Rightarrow> app_bytes \<Rightarrow> (pb_field_t list \<Rightarrow> u64 \<Rightarrow> pb_item list option) \<Rightarrow> u64 \<Rightarrow> pb_item list option" where
  "view_extensions 0 d env app vm e = (if e = 0 then Some [] else None)"
| "view_extensions (Suc n) d env app vm e =
     (if e = 0 then Some []
      else do {
        type \<leftarrow> load64 (memory env) e;
        g \<leftarrow> load64 (memory env) (type + 8);
        here \<leftarrow> view_extension d env app vm type g e;
        next \<leftarrow> load64 (memory env) (e + 16);
        rest \<leftarrow> view_extensions n d env app vm next;
        Some (here @ rest)
      })"

definition view_any ::
  "nat \<Rightarrow> 'u pb_env \<Rightarrow> app_bytes \<Rightarrow> (pb_field_t list \<Rightarrow> u64 \<Rightarrow> pb_item list option) \<Rightarrow> pb_field_t \<Rightarrow> u64 \<Rightarrow> pb_item list option" where
  "view_any d env app vm f p =
     (if PB_LTYPE (field_type f) = PB_LTYPE_EXTENSION then Option.bind (load64 (memory env) p) (view_extensions d d env app vm)
      else view_field d env app vm f p)"

fun concat_views :: "'v list option list \<Rightarrow> 'v list option" where
  "concat_views [] = Some []"
| "concat_views (x # xs) = do { a \<leftarrow> x; b \<leftarrow> concat_views xs; Some (a @ b) }"

text \<open>A message: the descriptors end with the only terminator, and field \<open>k\<close> is at \<open>field_addr fs p k\<close>.\<close>

fun view_message :: "nat \<Rightarrow> 'u pb_env \<Rightarrow> app_bytes \<Rightarrow> pb_field_t list \<Rightarrow> u64 \<Rightarrow> pb_item list option" where
  "view_message 0 env app fs p = None"
| "view_message (Suc d) env app fs p =
     (if fields_ok fs (length fs - 1)
      then concat_views (map (\<lambda>k. view_any d env app (view_message d env app) (fs ! k) (field_addr fs p k)) [0..<length fs - 1])
      else None)"

section \<open>Writing bytes\<close>

definition ready :: "'u pb_ostream_t \<Rightarrow> bool" where
  "ready s \<longleftrightarrow> ostream_ok s \<and> oerrmsg s = None"

text \<open>A memory stream after a failure: what was in front of the write pointer and behind the room of the stream is untouched, and
  there is a message.\<close>

definition cut_short :: "'u pb_ostream_t \<Rightarrow> 'u pb_ostream_t \<Rightarrow> bool" where
  "cut_short s s' \<longleftrightarrow>
     (case (ostate s, ostate s') of
        (BufOut dest w, BufOut dest' w') \<Rightarrow>
          length dest' = length dest \<and> take w dest' = take w dest \<and>
          drop (w + unat (max_size s - bytes_written s)) dest' = drop (w + unat (max_size s - bytes_written s)) dest
      | _ \<Rightarrow> False) \<and> oerrmsg s' \<noteq> None"

definition emits :: "('u pb_ostream_t \<Rightarrow> (unit, 'u pb_ostream_t) outcome) \<Rightarrow> byte list \<Rightarrow> bool" where
  "emits f bs \<longleftrightarrow>
     (\<forall>s. ready s \<and> length bs < 2 ^ 64 \<longrightarrow>
        (ofits s (length bs) \<longrightarrow> f s = Ok () (emit s bs)) \<and>
        (\<not> ofits s (length bs) \<and> unat (max_size s) + length bs < 2 ^ 64 \<longrightarrow> (\<exists>s'. f s = Fail s' \<and> cut_short s s')))"

lemma emitsD:
  "emits f bs \<Longrightarrow> ready s \<Longrightarrow> length bs < 2 ^ 64 \<Longrightarrow> ofits s (length bs) \<Longrightarrow> f s = Ok () (emit s bs)"
  "emits f bs \<Longrightarrow> ready s \<Longrightarrow> \<not> ofits s (length bs) \<Longrightarrow> unat (max_size s) + length bs < 2 ^ 64 \<Longrightarrow>
    \<exists>s'. f s = Fail s' \<and> cut_short s s'"
  by (simp_all add: emits_def)

lemma ready_emit: "ready s \<Longrightarrow> ofits s (length bs) \<Longrightarrow> ready (emit s bs)"
  using pbo.ok_emit [of s bs] by (simp add: ready_def) (simp add: emit_def)

lemma max_size_emit [simp]: "max_size (emit s bs) = max_size s"
  by (simp add: emit_def)

lemma emit_Nil: "ready s \<Longrightarrow> emit s [] = s"
  by (cases s) (auto simp: emit_def ready_def ostream_ok_def split: ostate.splits ocallback.splits)

lemma emits_write: "emits (\<lambda>s. pb_write s (Some bs) (of_nat (length bs))) bs"
proof -
  have "\<exists>s'. pb_write s (Some bs) (of_nat (length bs)) = Fail s' \<and> cut_short s s'"
    if r: "ready s" and "length bs < 2 ^ 64" "\<not> ofits s (length bs)" for s :: "'u pb_ostream_t"
  proof -
    from r have "ostream_ok s" by (simp add: ready_def)
    moreover from this have "cut_short s (OSTREAM_SET_ERROR s ''stream full'')"
      using that(3) by (cases rule: ostream_ok_cases) (auto simp: cut_short_def OSTREAM_SET_ERROR_def ofits_def split: option.splits)
    ultimately show ?thesis using that by (simp add: pb_write_full OSTREAM_RETURN_ERROR_def)
  qed
  then show ?thesis by (auto simp: emits_def ready_def pb_write_emit)
qed

lemma emits_Ok: "emits (Ok ()) []"
  by (auto simp: emits_def emit_Nil ofits_def)

lemma cut_short_emit:
  assumes "ready s" and "ofits s (length bs)" and "\<not> is_sizing s" and "cut_short (emit s bs) s'"
  shows "cut_short s s'"
proof -
  from assms(1) have "ostream_ok s" by (simp add: ready_def)
  then show ?thesis
  proof (cases rule: ostream_ok_cases)
    case (buffer dest w)
    have r: "length bs \<le> unat (max_size s - bytes_written s)" using assms(2,3) by (simp add: ofits_def)
    have e: "unat (max_size s - (bytes_written s + of_nat (length bs))) = unat (max_size s - bytes_written s) - length bs"
      using room_after [OF buffer(4) r] by simp
    have "ostate (emit s bs) = BufOut (take w dest @ bs @ drop (w + length bs) dest) (w + length bs)"
      using buffer by (simp add: emit_def)
    then obtain dest' w' where s': "ostate s' = BufOut dest' w'" "oerrmsg s' \<noteq> None" and l: "length dest' = length dest"
      and t: "take (w + length bs) dest' = take w dest @ bs"
      and d: "drop (w + length bs + (unat (max_size s - bytes_written s) - length bs)) dest' =
        drop (w + unat (max_size s - bytes_written s)) dest"
      using assms(4) buffer r e by (auto simp: cut_short_def emit_def add.commute split: ostate.splits)
    have "take w dest' = take w (take (w + length bs) dest')" by simp
    also have "\<dots> = take w dest" unfolding t using buffer by simp
    finally have "take w dest' = take w dest" .
    moreover have "w + length bs + (unat (max_size s - bytes_written s) - length bs) = w + unat (max_size s - bytes_written s)" using r by simp
    ultimately show ?thesis using s' l d buffer by (simp add: cut_short_def)
  qed (use assms in simp)
qed

lemma emits_bind:
  assumes "emits f bs" and "emits g cs"
  shows "emits (\<lambda>s. obind (f s) (\<lambda>_. g)) (bs @ cs)"
proof -
  have "(ofits s (length (bs @ cs)) \<longrightarrow> obind (f s) (\<lambda>_. g) = Ok () (emit s (bs @ cs))) \<and>
        (\<not> ofits s (length (bs @ cs)) \<and> unat (max_size s) + length (bs @ cs) < 2 ^ 64 \<longrightarrow>
          (\<exists>s'. obind (f s) (\<lambda>_. g) = Fail s' \<and> cut_short s s'))"
    if s: "ready s" "length (bs @ cs) < 2 ^ 64" for s
  proof (cases "ofits s (length bs)")
    case True
    then have f: "f s = Ok () (emit s bs)" and r: "ready (emit s bs)"
      using emitsD(1) [OF assms(1) s(1)] s ready_emit by simp_all
    have fit: "ofits (emit s bs) (length cs) \<longleftrightarrow> ofits s (length (bs @ cs))"
      using pbo.fits_emit [of s bs "length cs"] True s by (simp add: ready_def)
    show ?thesis
    proof (cases "ofits s (length (bs @ cs))")
      case True
      then show ?thesis using f fit emitsD(1) [OF assms(2) r] s pbo.emit_emit [of s bs cs] by (simp add: ready_def)
    next
      case False
      then have "\<not> is_sizing s" by (simp add: ofits_def)
      then show ?thesis using False f fit emitsD(2) [OF assms(2) r] cut_short_emit [OF s(1) True] s by auto
    qed
  next
    case False
    then have "\<not> ofits s (length (bs @ cs))" by (auto simp: ofits_def)
    then show ?thesis using emitsD(2) [OF assms(1) s(1) False] by auto
  qed
  then show ?thesis by (simp add: emits_def)
qed

end
