(* ===== verification/PbEncValues.thy ===== *)
theory PbEncValues
  imports PbEncSpec
begin

text \<open>
  The encoders of the field types, of arrays and of submessages write what \<open>PbEncSpec\<close> says.
\<close>

section \<open>Bytes in memory\<close>

lemma load_length: "load m a n = Some bs \<Longrightarrow> length bs = n"
  by (induction n arbitrary: a bs) (auto split: option.splits)

lemma load_null: "m 0 = None \<Longrightarrow> load m 0 n = Some bs \<Longrightarrow> n = 0 \<and> bs = []"
  by (cases n) auto

lemma string_size_c_string:
  assumes "c_string m k p = Some bs" and "n \<le> bound" and "k = unat (bound - n)"
  shows "string_size m bound n p = Some (n + of_nat (length bs)) \<and> load m p (length bs) = Some bs \<and> length bs \<le> k"
  using assms
proof (induction m k p arbitrary: n bs rule: c_string.induct)
  case (1 m p)
  then have "n = bound" by (simp add: unat_sub_le word_le_nat_alt word_unat_eq_iff)
  then show ?case using 1 by (subst string_size.simps) simp
next
  case (2 m k p)
  then have lt: "n < bound" by (cases "n = bound") auto
  have "k = unat (bound - (n + 1))"
    using lt 2(4) unat_sub_le [of 1 "bound - n"] by (simp add: diff_diff_eq [symmetric] word_le_nat_alt)
  moreover have "n + 1 \<le> bound" using lt by (rule inc_le)
  ultimately have ih: "m p = Some c \<Longrightarrow> c \<noteq> 0 \<Longrightarrow> c_string m k (p + 1) = Some cs \<Longrightarrow> string_size m bound (n + 1) (p + 1) = Some (n + 1 + of_nat (length cs)) \<and>
      load m (p + 1) (length cs) = Some cs \<and> length cs \<le> k" for c cs using 2(1) by blast
  from 2(2) obtain c where c: "m p = Some c" by (auto split: option.splits)
  show ?case
  proof (cases "c = 0")
    case True
    then show ?thesis using c 2(2) lt by (subst string_size.simps) auto
  next
    case False
    then obtain cs where cs: "c_string m k (p + 1) = Some cs" "bs = c # cs" using c 2(2) by auto
    then show ?thesis using ih [OF c False cs(1)] c False lt
      by (subst string_size.simps) (auto simp: add.assoc add.commute add.left_commute)
  qed
qed

section \<open>Integers in memory\<close>

lemma le_word_eq: "le_word bs = of_nat (le_nat bs)"
  by (induction bs) simp_all

lemma le_int_eq: "le_int bs = int (le_nat bs)"
  by (induction bs) simp_all

lemma le_nat_zero_iff: "le_nat bs = 0 \<longleftrightarrow> list_all ((=) 0) bs"
  by (induction bs) (auto simp: unat_eq_zero)

lemma sint_of_nat_less:
  assumes "v < 2 ^ LENGTH('a)"
  shows "sint (of_nat v :: 'a::len word) = twos_complement LENGTH('a) (int v)"
proof -
  obtain n where n: "LENGTH('a) = Suc n" by (metis len_not_eq_0 not0_implies_Suc)
  have "int v < 2 ^ Suc n" using assms n by (metis of_nat_less_iff of_nat_numeral of_nat_power)
  then have "take_bit (Suc n) (int v) = int v" by (simp add: take_bit_int_eq_self)
  moreover have "v div 2 ^ n < 2" using assms n by (simp add: div_less_iff_less_mult mult.commute)
  then have "v div 2 ^ n = 0 \<or> v div 2 ^ n = 1" by linarith
  then have "bit v n \<longleftrightarrow> \<not> v < 2 ^ n" by (auto simp: bit_iff_odd div_eq_0_iff)
  then have "bit (int v) n \<longleftrightarrow> \<not> v < 2 ^ n" by (simp only: bit_of_nat_iff) simp
  moreover have "sint (of_nat v :: 'a word) = signed_take_bit n (int v)" using n by (simp add: signed_of_nat)
  moreover have "int v < 2 ^ n \<longleftrightarrow> v < 2 ^ n" by (metis of_nat_less_iff of_nat_numeral of_nat_power)
  ultimately show ?thesis using n by (simp add: signed_take_bit_eq_take_bit_minus twos_complement_def)
qed

lemma load_word_int:
  assumes "load m p n = Some bs" and "LENGTH('a) = 8 * n"
  shows "\<exists>w :: 'a::len word. load_word m p n = Some w \<and> sint w = twos_complement (8 * n) (le_int bs) \<and> unat w = le_nat bs"
proof -
  have "le_nat bs < 2 ^ LENGTH('a)" using le_nat_bound [of bs] load_length [OF assms(1)] assms(2) by (simp add: power_mult)
  then show ?thesis using assms sint_of_nat_less [of "le_nat bs", where 'a = 'a]
    by (simp add: load_word_def le_word_eq le_int_eq unat_of_nat_less)
qed

lemma load_scast:
  assumes "load m p n = Some bs" and "LENGTH('a) = 8 * n"
  shows "map_option scast (load_word m p n :: 'a::len word option) = Some (of_int (twos_complement (8 * n) (le_int bs)) :: u64)"
proof -
  obtain w :: "'a word" where w: "load_word m p n = Some w" "sint w = twos_complement (8 * n) (le_int bs)"
    using load_word_int [OF assms] by blast
  show ?thesis unfolding w(2) [symmetric] using scast_eq [of w] w(1) by simp
qed

lemma load_ucast:
  assumes "load m p n = Some bs" and "LENGTH('a) = 8 * n"
  shows "map_option ucast (load_word m p n :: 'a::len word option) = Some (of_int (no_sign (8 * n) (le_int bs)) :: u64)"
proof -
  obtain w :: "'a word" where w: "load_word m p n = Some w" "unat w = le_nat bs" using load_word_int [OF assms] by blast
  then show ?thesis by (simp add: no_sign_def le_int_eq flip: w(2))
qed

lemma view_int_sizes:
  assumes "view_int meaning m f p = Some v"
  obtains n bs where "n \<in> {1, 2, 4, 8}" and "data_size f = of_nat n" and "load m p n = Some bs" and "v = of_int (meaning (8 * n) (le_int bs))"
proof -
  obtain bs where bs: "unat (data_size f) \<in> {1, 2, 4, 8}" "load m p (unat (data_size f)) = Some bs"
      "v = of_int (meaning (8 * unat (data_size f)) (le_int bs))"
    using assms by (auto simp: view_int_def Let_def split: if_splits)
  then show thesis by (intro that [OF bs(1) _ bs(2,3)]) simp
qed

lemma signed_value_view:
  assumes "view_int twos_complement m f p = Some v"
  shows "signed_value m f p = Some (Some v)"
  using assms
proof (rule view_int_sizes)
  fix n bs
  assume n: "n \<in> {1, 2, 4, 8}" and s: "data_size f = of_nat n" and l: "load m p n = Some bs"
    and v: "v = of_int (twos_complement (8 * n) (le_int bs))"
  note * = load_scast [OF l, folded v]
  show ?thesis using n
  proof (elim insertE emptyE)
    assume "n = 1"
    then show ?thesis using * [where 'a = 8] s by (simp add: signed_value_def)
  next
    assume "n = 2"
    then show ?thesis using * [where 'a = 16] s by (simp add: signed_value_def)
  next
    assume "n = 4"
    then show ?thesis using * [where 'a = 32] s by (simp add: signed_value_def)
  next
    assume "n = 8"
    then show ?thesis using * [where 'a = 64] s by (simp add: signed_value_def)
  qed
qed

lemma unsigned_value_view:
  assumes "view_int no_sign m f p = Some v"
  shows "unsigned_value m f p = Some (Some v)"
  using assms
proof (rule view_int_sizes)
  fix n bs
  assume n: "n \<in> {1, 2, 4, 8}" and s: "data_size f = of_nat n" and l: "load m p n = Some bs" and v: "v = of_int (no_sign (8 * n) (le_int bs))"
  note * = load_ucast [OF l, folded v]
  show ?thesis using n
  proof (elim insertE emptyE)
    assume "n = 1"
    then show ?thesis using * [where 'a = 8] s by (simp add: unsigned_value_def)
  next
    assume "n = 2"
    then show ?thesis using * [where 'a = 16] s by (simp add: unsigned_value_def)
  next
    assume "n = 4"
    then show ?thesis using * [where 'a = 32] s by (simp add: unsigned_value_def)
  next
    assume "n = 8"
    then show ?thesis using * [where 'a = 64] s by (simp add: unsigned_value_def)
  qed
qed

lemma zigzag_word_eq: "zigzag_word v = (if sint v < 0 then NOT (push_bit 1 v) else push_bit 1 v)"
proof -
  have "(of_int (2 * sint v) :: u64) = 2 * v" by simp
  moreover have "(of_int (- 2 * sint v - 1) :: u64) = - 2 * v - 1" by simp
  ultimately show ?thesis by (simp add: zigzag_word_def push_bit_eq_mult not_eq_complement mult.commute)
qed

lemma view_bool_eq: "view_bool m p = safe_read_bool m p"
  by (simp add: view_bool_def safe_read_bool_def split: option.splits)

lemma pointer_entries_eq: "pointer_entries f = has_pointer_entries f"
  by (auto simp: pointer_entries_def has_pointer_entries_def)

section \<open>Default values\<close>

lemma load_word_zero:
  assumes "load m p n = Some bs" and "LENGTH('a) = 8 * n"
  shows "\<exists>w :: 'a::len word. load_word m p n = Some w \<and> (w = 0 \<longleftrightarrow> list_all ((=) 0) bs)"
  using load_word_int [OF assms] by (auto simp: word_unat_eq_iff le_nat_zero_iff)

lemma zero_count_load: "zero_count m p = Some b \<Longrightarrow> map_option (\<lambda>n. n = 0) (load32 m p) = Some b"
  using load_word_zero [of m p 4, where 'a = 32] by (auto simp: zero_count_def)

lemma all_zero_eq: "all_zero m p n = lazy_all (map (\<lambda>i. map_option (\<lambda>b. b = 0) (m (p + of_nat i))) [0..<n])"
proof (induction n arbitrary: p)
  case (Suc n)
  have "map (\<lambda>i. map_option (\<lambda>b. b = 0) (m (p + of_nat i))) [0..<Suc n] =
      map_option (\<lambda>b. b = 0) (m p) # map (\<lambda>i. map_option (\<lambda>b. b = 0) (m (p + 1 + of_nat i))) [0..<n]"
    by (simp add: upt_conv_Cons map_Suc_upt [symmetric] comp_def add.assoc del: upt_Suc)
  then show ?case using Suc [of "p + 1"] by (simp split: option.splits)
qed simp

lemma all_default_ok:
  assumes "\<And>f q b. spec f q = Some b \<Longrightarrow> check f q = Some b" and "fields_ok fs n" and "k < n"
    and "lazy_all (map (\<lambda>j. spec (fs ! j) (field_addr fs p j)) [k..<n]) = Some b"
  shows "all_default check (iter_at fs p k) = Some b"
  using assms(3,4)
proof (induction "n - k" arbitrary: k)
  case (Suc m)
  have at: "mem_at fs k = Some (fs ! k)" using assms(2) Suc.prems by (simp add: fields_ok_def mem_at_def)
  have "[k..<n] = k # [Suc k..<n]" using Suc.prems by (simp add: upt_conv_Cons)
  then obtain c where c: "spec (fs ! k) (field_addr fs p k) = Some c"
      "(if c then lazy_all (map (\<lambda>j. spec (fs ! j) (field_addr fs p j)) [Suc k..<n]) else Some False) = Some b"
    using Suc.prems by (auto split: option.splits)
  have i: "start (iter_at fs p k) = fs" "pos (iter_at fs p k) = k" "pData (iter_at fs p k) = field_addr fs p k" by (simp_all add: iter_at_def)
  show ?case
  proof (cases "c \<and> Suc k < n")
    case True
    then show ?thesis using c(2) Suc.hyps(1) [of "Suc k"] Suc.hyps(2) assms(1) [OF c(1)] at next_ok [OF assms(2) Suc.prems(1), of p]
      by (subst all_default.simps) (simp add: i)
  next
    case False
    then show ?thesis using c(2) assms(1) [OF c(1)] at next_ok [OF assms(2) Suc.prems(1), of p]
      by (subst all_default.simps) (auto simp: i split: if_splits)
  qed
qed simp

lemma two_bits: "(t :: byte) AND 0x30 = push_bit 4 (drop_bit 4 t AND mask 2)"
proof -
  have "(0x30 :: byte) = push_bit 4 (mask 2)" by code_simp
  moreover have "t AND push_bit 4 (mask 2) = push_bit 4 (drop_bit 4 t AND mask 2)"
    by (rule bit_word_eqI) (auto simp: bit_simps)
  ultimately show ?thesis by argo
qed

lemma htype_cases: "PB_HTYPE t \<in> {PB_HTYPE_REQUIRED, PB_HTYPE_OPTIONAL, PB_HTYPE_REPEATED, PB_HTYPE_ONEOF}"
proof -
  define n where "n = unat (drop_bit 4 t AND mask 2)"
  have "n < 4" by (simp add: n_def unat_take_mask)
  then have "n = 0 \<or> n = 1 \<or> n = 2 \<or> n = 3" by linarith
  moreover have "PB_HTYPE t = push_bit 4 (of_nat n)" by (simp add: PB_HTYPE_def two_bits n_def)
  ultimately show ?thesis by auto
qed

lemma proto3_default_ok:
  "holds_default d m descs f p = Some b \<Longrightarrow> pb_check_proto3_default_value d m descs f p = Some b"
proof (induction d arbitrary: f p b)
  case (Suc d)
  let ?a = "PB_ATYPE (field_type f)" and ?t = "PB_LTYPE (field_type f)"
  have sub: "do { fs \<leftarrow> descs (ptr f); (go, it) \<leftarrow> pb_field_iter_begin fs p;
      if go then all_default (pb_check_proto3_default_value d m descs) it else Some True } = Some b"
    if message: "(case descs (ptr f) of None \<Rightarrow> None | Some fs \<Rightarrow> if fields_ok fs (length fs - 1)
        then lazy_all (map (\<lambda>k. holds_default d m descs (fs ! k) (field_addr fs p k)) [0..<length fs - 1]) else None) = Some b"
  proof -
    obtain fs where fs: "descs (ptr f) = Some fs" "fields_ok fs (length fs - 1)"
        "lazy_all (map (\<lambda>k. holds_default d m descs (fs ! k) (field_addr fs p k)) [0..<length fs - 1]) = Some b"
      using message by (auto split: option.splits if_splits)
    show ?thesis
    proof (cases "0 < length fs - 1")
      case True
      then show ?thesis using begin_ok [OF fs(2), of p] fs(1)
          all_default_ok [where spec = "holds_default d m descs", OF Suc.IH fs(2) True fs(3)] by simp
    next
      case False
      then show ?thesis using begin_ok [OF fs(2), of p] fs by simp
    qed
  qed
  show ?case
  proof (cases "presence_of f")
    case Always
    then show ?thesis using Suc.prems by (auto simp: presence_of_def Let_def split: if_splits)
  next
    case Counted
    then show ?thesis using Suc.prems zero_count_load [of m "p + scast (size_offset f)" b]
      by (auto simp: presence_of_def Let_def split: if_splits)
  next
    case Flagged
    then show ?thesis using Suc.prems htype_cases [of "field_type f"]
      by (auto simp: presence_of_def Let_def view_bool_eq split: if_splits)
  next
    case By_value
    have h: "PB_HTYPE (field_type f) \<noteq> PB_HTYPE_REQUIRED" "PB_HTYPE (field_type f) \<noteq> PB_HTYPE_ONEOF" "size_offset f = 0"
        "\<not> (PB_HTYPE (field_type f) = PB_HTYPE_REPEATED \<and> ?a = PB_ATYPE_STATIC)"
      using By_value by (auto simp: presence_of_def Let_def split: if_splits)
    note v = Suc.prems [unfolded holds_default.simps By_value presence.case Let_def]
    consider (bytes) "?a = PB_ATYPE_STATIC \<and> ?t = PB_LTYPE_BYTES" | (string) "?a = PB_ATYPE_STATIC \<and> ?t = PB_LTYPE_STRING"
      | (fixed) "?a = PB_ATYPE_STATIC \<and> ?t = PB_LTYPE_FIXED_LENGTH_BYTES" | (message) "?a = PB_ATYPE_STATIC \<and> ?t = PB_LTYPE_SUBMESSAGE"
      | (pointer) "?a = PB_ATYPE_POINTER \<and> PB_LTYPE_LAST_PACKABLE < ?t"
      | (scalar) "\<not> (?a = PB_ATYPE_STATIC \<and> ?t \<in> {PB_LTYPE_BYTES, PB_LTYPE_STRING, PB_LTYPE_FIXED_LENGTH_BYTES, PB_LTYPE_SUBMESSAGE})"
          "\<not> (?a = PB_ATYPE_POINTER \<and> PB_LTYPE_LAST_PACKABLE < ?t)"
      by blast
    then show ?thesis
    proof cases
      case bytes
      then show ?thesis using v h zero_count_load by simp
    next
      case string
      then show ?thesis using v h by (auto split: option.splits if_splits)
    next
      case message
      then show ?thesis using sub v h by simp
    next
      case pointer
      then show ?thesis using v h load_word_zero [of m p 8, where 'a = 64] by auto
    next
      case scalar
      then show ?thesis using v h by (auto simp: all_zero_eq zero_value_def)
    qed (use v h in simp)
  qed
qed simp

lemma emits_cong: "emits f bs \<Longrightarrow> (\<And>s. f s = g s) \<Longrightarrow> emits g bs"
  by (metis ext)

lemma emits_varint: "emits (\<lambda>s. pb_encode_varint s v) (varint_enc (unat v))"
  using emits_write by (rule emits_cong) (simp add: pb_encode_varint_eq)

lemma emits_varint_nat: "n < 2 ^ 64 \<Longrightarrow> emits (\<lambda>s. pb_encode_varint s (of_nat n)) (varint_enc n)"
  using emits_varint [of "of_nat n"] by (simp add: unat_of_nat_less)

lemma emits_tag: "wt < 8 \<Longrightarrow> emits (\<lambda>s. pb_encode_tag s wt n) (varint_enc (tag_word wt n))"
  by (rule emits_cong, rule emits_write) (simp add: pb_encode_tag_eq)

lemma emits_nothing: "emits (\<lambda>s. pb_write s b 0) []"
  by (rule emits_cong, rule emits_Ok) (simp add: pb_write_def)

lemma emits_buffer:
  assumes "m 0 = None" and "load m a n = Some bs" and "n < 2 ^ 64"
  shows "emits (\<lambda>s. pb_encode_string s (buffer_at m a n) (of_nat n)) (delimited bs)"
proof -
  have "length bs = n" using assms(2) by (rule load_length)
  moreover have "emits (\<lambda>s. pb_write s (buffer_at m a n) (of_nat n)) bs"
  proof (cases "a = 0")
    case True
    then have "n = 0" "bs = []" using load_null assms by blast+
    then show ?thesis using emits_nothing by simp
  next
    case False
    then show ?thesis using emits_write [of bs] assms(2) \<open>length bs = n\<close> by (simp add: buffer_at_def)
  qed
  ultimately show ?thesis unfolding pb_encode_string_def delimited_def
    using emits_bind [OF emits_varint_nat [OF assms(3)]] by simp
qed

lemma emits_null_string: "emits (\<lambda>s. pb_encode_string s b 0) (delimited [])"
  using emits_bind [OF emits_varint [of 0] emits_nothing] by (simp add: pb_encode_string_def delimited_def)

lemma emits_fixed: "emits (\<lambda>s. pb_encode_fixed32 s v) (le_bytes 4 (unat v))" "emits (\<lambda>s. pb_encode_fixed64 s w) (le_bytes 8 (unat w))"
  by (rule emits_cong, rule emits_write, simp add: pb_encode_fixed32_eq pb_encode_fixed64_eq)+

lemma emits_bytes:
  assumes "m 0 = None" and "view_bytes m f p = Some bs"
  shows "emits (\<lambda>s. pb_enc_bytes m s f p) (delimited bs)"
proof (cases "p = 0")
  case True
  then show ?thesis using assms emits_null_string by (simp add: view_bytes_def pb_enc_bytes_def)
next
  case False
  then obtain n where n: "load32 m p = Some n"
    "\<not> (PB_ATYPE (field_type f) = PB_ATYPE_STATIC \<and> ucast (data_size f) - 4 < (ucast n :: size_t))"
    "load m (p + 4) (unat n) = Some bs"
    using assms(2) by (auto simp: view_bytes_def split: bind_splits if_splits)
  have "unat n < 2 ^ 64" using unat_lt_2p [of n] by simp
  then show ?thesis using emits_buffer [OF assms(1) n(3)] n(1,2) False by (auto simp: pb_enc_bytes_def elim: emits_cong)
qed

lemma emits_c_string:
  assumes "m 0 = None" and "(if p = 0 then Some [] else c_string m (string_bound f) p) = Some bs"
  shows "emits (\<lambda>s. pb_enc_string m s f p) (delimited bs)"
proof (cases "p = 0")
  case True
  then show ?thesis using assms emits_null_string by (simp add: pb_enc_string_def)
next
  case False
  let ?b = "if PB_ATYPE (field_type f) = PB_ATYPE_POINTER then - 1 else ucast (data_size f) :: size_t"
  have "unat (- 1 :: size_t) = 2 ^ 64 - 1" by (simp add: unsigned_minus_1_eq_mask mask_eq_exp_minus_1)
  moreover have "unat (ucast (data_size f) :: size_t) = unat (data_size f)" by (rule unat_ucast_u32)
  ultimately have "string_bound f = unat ?b" by (simp add: string_bound_def)
  then have *: "string_size m ?b 0 p = Some (of_nat (length bs))" "load m p (length bs) = Some bs" "length bs \<le> unat ?b"
    using string_size_c_string [of m "string_bound f" p bs 0 ?b] assms(2) False by auto
  then have l: "length bs < 2 ^ 64" using unat_lt_2p [of ?b] by simp
  show ?thesis using emits_buffer [OF assms(1) *(2) l] * l False
    by (simp add: pb_enc_string_def Let_def unat_of_nat_less)
qed

section \<open>Submessages\<close>

lemma sizing_ready: "ready PB_OSTREAM_SIZING" "is_sizing PB_OSTREAM_SIZING" "bytes_written PB_OSTREAM_SIZING = 0"
  by (simp_all add: ready_def ostream_ok_def PB_OSTREAM_SIZING_def is_sizing_def)

lemma emits_sizing:
  "emits f bs \<Longrightarrow> length bs < 2 ^ 64 \<Longrightarrow> f PB_OSTREAM_SIZING = Ok () (emit PB_OSTREAM_SIZING bs)"
  by (simp add: emitsD(1) sizing_ready ofits_def)

text \<open>Writing \<open>bs\<close> at once on sizing streams, and with \<open>f\<close> on others that have room for it.\<close>

lemma emits_if_sizing:
  assumes "\<And>s. ready s \<Longrightarrow> \<not> is_sizing s \<Longrightarrow> ofits s (length bs) \<Longrightarrow> length bs < 2 ^ 64 \<Longrightarrow> f s = Ok () (emit s bs)"
    and "\<And>s. ready s \<Longrightarrow> \<not> is_sizing s \<Longrightarrow> \<not> ofits s (length bs) \<Longrightarrow> unat (max_size s) + length bs < 2 ^ 64 \<Longrightarrow>
      \<exists>s'. f s = Fail s' \<and> cut_short s s'"
  shows "emits (\<lambda>s. if is_sizing s then pb_write s None (of_nat (length bs)) else f s) bs"
proof -
  have "pb_write s None (of_nat (length bs)) = Ok () (emit s bs)" if "ready s" "is_sizing s" for s :: "'a pb_ostream_t"
    using that by (simp add: pb_write_def emit_def)
  moreover have "is_sizing s \<Longrightarrow> ofits s (length bs)" for s :: "'a pb_ostream_t" by (simp add: ofits_def)
  ultimately show ?thesis using assms by (auto simp: emits_def)
qed

lemma sub_stream_ready:
  assumes "ready s" and "\<not> is_sizing s" and "ofits s n"
  shows "ready (sub\<lparr>ocallback := ocallback s, ostate := ostate s, max_size := of_nat n, bytes_written := 0, oerrmsg := None\<rparr>)"
    and "ofits (sub\<lparr>ocallback := ocallback s, ostate := ostate s, max_size := of_nat n, bytes_written := 0, oerrmsg := None\<rparr>) n"
proof -
  have n: "n \<le> unat (max_size s - bytes_written s)" using assms(2,3) by (simp add: ofits_def)
  then have u: "unat (of_nat n :: size_t) = n" using unat_lt_2p [of "max_size s - bytes_written s"] by (intro unat_of_nat_less) simp
  from assms(1) have "ostream_ok s" by (simp add: ready_def)
  then show "ready (sub\<lparr>ocallback := ocallback s, ostate := ostate s, max_size := of_nat n, bytes_written := 0, oerrmsg := None\<rparr>)"
  proof (cases rule: ostream_ok_cases)
    case (buffer dest w)
    then show ?thesis using n u by (simp add: ready_def ostream_ok_def)
  qed (use assms in simp)
  show "ofits (sub\<lparr>ocallback := ocallback s, ostate := ostate s, max_size := of_nat n, bytes_written := 0, oerrmsg := None\<rparr>) n"
    using u by (simp add: ofits_def)
qed

lemma check_room:
  assumes "ready s" and "\<not> is_sizing s" and "unat (max_size s) + n < 2 ^ 64 \<or> ofits s n"
  shows "max_size s < bytes_written s + of_nat n \<longleftrightarrow> \<not> ofits s n"
proof -
  from assms(1) have "ostream_ok s" by (simp add: ready_def)
  then have b: "bytes_written s \<le> max_size s" using assms(2) by (cases rule: ostream_ok_cases) auto
  show ?thesis
  proof (cases "ofits s n")
    case True
    then show ?thesis using room_after [OF b, of n] assms(2) by (simp add: ofits_def not_less)
  next
    case False
    then have "unat (max_size s) + n < 2 ^ 64" using assms(3) by simp
    then have "unat (bytes_written s + of_nat n) = unat (bytes_written s) + n"
      using b by (subst unat_add_no_overflow) (simp_all add: unat_of_nat_less word_le_nat_alt)
    then show ?thesis using False assms(2) b by (simp add: ofits_def word_less_nat_alt unat_sub_le)
  qed
qed

lemma write_submessage_fits:
  assumes "emits (\<lambda>s. rec s fs p) bs" and "ready s" and "\<not> is_sizing s" and "ofits s (length bs)" and "length bs < 2 ^ 64"
  shows "write_submessage rec (of_nat (length bs)) sub s fs p = Ok () (emit s bs)"
proof -
  let ?sub = "sub\<lparr>ocallback := ocallback s, ostate := ostate s, max_size := of_nat (length bs), bytes_written := 0, oerrmsg := None\<rparr>"
  have r: "rec ?sub fs p = Ok () (emit ?sub bs)"
    using emitsD(1) [OF assms(1) sub_stream_ready(1) [OF assms(2-4)] assms(5) sub_stream_ready(2) [OF assms(2-4)]] .
  have "\<not> max_size s < bytes_written s + of_nat (length bs)" using check_room [of s "length bs"] assms by simp
  moreover have "is_sizing ?sub = is_sizing s" by (simp add: is_sizing_def)
  ultimately show ?thesis unfolding write_submessage_def r using assms(2,3)
    by (simp add: emit_def ready_def Let_def)
qed

lemma emits_submessage:
  assumes "emits (\<lambda>s. rec s fs p) bs"
  shows "emits (\<lambda>s. pb_encode_submessage rec s fs p) (delimited bs)"
proof (cases "length bs < 2 ^ 64")
  case True
  let ?sub = "emit PB_OSTREAM_SIZING bs"
  have sz: "rec PB_OSTREAM_SIZING fs p = Ok () ?sub" using emits_sizing [OF assms True] .
  have b: "bytes_written ?sub = of_nat (length bs)" by (simp add: sizing_ready)
  have eq: "pb_encode_submessage rec s fs p =
      obind (pb_encode_varint s (of_nat (length bs)))
        (\<lambda>_ s. if is_sizing s then pb_write s None (of_nat (length bs)) else write_submessage rec (of_nat (length bs)) ?sub s fs p)" for s
    by (simp only: pb_encode_submessage_def sz Let_def b outcome.case)
  have "emits (\<lambda>s. if is_sizing s then pb_write s None (of_nat (length bs)) else write_submessage rec (of_nat (length bs)) ?sub s fs p) bs"
  proof (rule emits_if_sizing)
    fix s :: "'a pb_ostream_t"
    assume s: "ready s" "\<not> is_sizing s" "\<not> ofits s (length bs)" "unat (max_size s) + length bs < 2 ^ 64"
    then have "max_size s < bytes_written s + of_nat (length bs)" using check_room [of s "length bs"] by simp
    moreover have "ostream_ok s" using s by (simp add: ready_def)
    then have "cut_short s (OSTREAM_SET_ERROR s ''stream full'')"
      using s(2) by (cases rule: ostream_ok_cases) (auto simp: cut_short_def OSTREAM_SET_ERROR_def split: option.splits)
    ultimately show "\<exists>s'. write_submessage rec (of_nat (length bs)) ?sub s fs p = Fail s' \<and> cut_short s s'"
      by (simp add: write_submessage_def OSTREAM_RETURN_ERROR_def)
  qed (use write_submessage_fits [of rec fs p bs] assms in blast)
  then show ?thesis unfolding eq delimited_def by (rule emits_bind [OF emits_varint_nat [OF True]])
next
  case False
  then show ?thesis by (simp add: emits_def delimited_def)
qed

section \<open>Values of every type\<close>

text \<open>\<open>rec\<close> writes the messages that \<open>vm\<close> reads.\<close>

definition writes_messages :: "'u message_encoder \<Rightarrow> (pb_field_t list \<Rightarrow> u64 \<Rightarrow> pb_item list option) \<Rightarrow> bool" where
  "writes_messages rec vm \<longleftrightarrow> (\<forall>fs p is. vm fs p = Some is \<longrightarrow> emits (\<lambda>s. rec s fs p) (wire_items is))"

lemma ltype_cases:
  assumes "view_value env vm f p = Some v"
  shows "PB_LTYPE (field_type f) \<in> {PB_LTYPE_BOOL, PB_LTYPE_VARINT, PB_LTYPE_UVARINT, PB_LTYPE_SVARINT, PB_LTYPE_FIXED32,
    PB_LTYPE_FIXED64, PB_LTYPE_BYTES, PB_LTYPE_STRING, PB_LTYPE_SUBMESSAGE, PB_LTYPE_FIXED_LENGTH_BYTES}"
  using assms by (auto simp: view_value_def Let_def split: if_splits)

lemma emits_value:
  assumes "memory env 0 = None" and "writes_messages rec vm" and "view_value env vm f p = Some v"
  shows "emits (\<lambda>s. call_encoder (PB_ENCODERS env rec (PB_LTYPE (field_type f))) s f p) (wire_value v)"
  using ltype_cases [OF assms(3)]
proof (elim insertE emptyE)
  assume "PB_LTYPE (field_type f) = PB_LTYPE_BOOL"
  then show ?thesis using assms(3) emits_varint [of 0] emits_varint [of 1]
    by (auto simp: view_value_def PB_ENCODERS_def call_encoder_def pb_enc_bool_def view_bool_eq)
next
  assume "PB_LTYPE (field_type f) = PB_LTYPE_VARINT"
  then show ?thesis using assms(3) emits_varint
    by (auto simp: view_value_def PB_ENCODERS_def call_encoder_def pb_enc_varint_def Let_def dest!: signed_value_view)
next
  assume "PB_LTYPE (field_type f) = PB_LTYPE_UVARINT"
  then show ?thesis using assms(3) emits_varint
    by (auto simp: view_value_def PB_ENCODERS_def call_encoder_def pb_enc_uvarint_def Let_def dest!: unsigned_value_view)
next
  assume "PB_LTYPE (field_type f) = PB_LTYPE_SVARINT"
  then show ?thesis using assms(3) emits_varint
    by (auto simp: view_value_def PB_ENCODERS_def call_encoder_def pb_enc_svarint_def pb_encode_svarint_def zigzag_word_eq Let_def
        dest!: signed_value_view)
next
  assume "PB_LTYPE (field_type f) = PB_LTYPE_FIXED32"
  then show ?thesis using assms(3) emits_fixed(1)
    by (auto simp: view_value_def PB_ENCODERS_def call_encoder_def pb_enc_fixed32_def Let_def)
next
  assume "PB_LTYPE (field_type f) = PB_LTYPE_FIXED64"
  then show ?thesis using assms(3) emits_fixed(2)
    by (auto simp: view_value_def PB_ENCODERS_def call_encoder_def pb_enc_fixed64_def Let_def)
next
  assume "PB_LTYPE (field_type f) = PB_LTYPE_BYTES"
  then show ?thesis using assms(3) emits_bytes [of "memory env"] assms(1)
    by (auto simp: view_value_def PB_ENCODERS_def call_encoder_def Let_def)
next
  assume t: "PB_LTYPE (field_type f) = PB_LTYPE_STRING"
  then obtain bs where "(if p = 0 then Some [] else c_string (memory env) (string_bound f) p) = Some bs" "v = Delimited bs"
    using assms(3) by (auto simp: view_value_def Let_def)
  then show ?thesis using t emits_c_string [of "memory env"] assms(1) by (simp add: PB_ENCODERS_def call_encoder_def Let_def)
next
  assume t: "PB_LTYPE (field_type f) = PB_LTYPE_SUBMESSAGE"
  then obtain fs "is" where "ptr f \<noteq> 0" "descriptors env (ptr f) = Some fs" "vm fs p = Some is" "v = Message is"
    using assms(3) by (auto simp: view_value_def Let_def split: if_splits bind_splits)
  then show ?thesis using t assms(2) emits_submessage [of rec fs p "wire_items is"]
    by (simp add: PB_ENCODERS_def call_encoder_def Let_def pb_enc_submessage_def writes_messages_def wire_items_def)
next
  assume t: "PB_LTYPE (field_type f) = PB_LTYPE_FIXED_LENGTH_BYTES"
  then obtain bs where "load (memory env) p (unat (data_size f)) = Some bs" "v = Delimited bs"
    using assms(3) by (auto simp: view_value_def Let_def)
  moreover have "unat (data_size f) < 2 ^ 64" using unat_lt_2p [of "data_size f"] by simp
  ultimately show ?thesis using t assms(1) emits_buffer [of "memory env" p "unat (data_size f)"]
    by (simp add: PB_ENCODERS_def call_encoder_def Let_def pb_enc_fixed_length_bytes_def)
qed

lemma emits_tag_for_field:
  assumes "view_value env vm f p = Some v"
  shows "emits (\<lambda>s. pb_encode_tag_for_field s f) (varint_enc (tag_word (wire_type v) (tag f)))"
  using ltype_cases [OF assms] assms
  by (elim insertE emptyE)
    (auto simp: pb_encode_tag_for_field_def view_value_def Let_def intro!: emits_tag split: if_splits bind_splits)

lemma emits_tagged:
  assumes "memory env 0 = None" and "writes_messages rec vm" and "view_value env vm f p = Some v"
  shows "emits (\<lambda>s. encode_tagged (PB_ENCODERS env rec (PB_LTYPE (field_type f))) s f p) (wire_item (Item (tag f) v))"
  using emits_bind [OF emits_tag_for_field [OF assms(3)] emits_value [OF assms]] by (simp add: encode_tagged_def)

end
