(* ===== verification/PbEncProps.thy ===== *)
theory PbEncProps
  imports PbEncValues
begin

text \<open>
  The message encoder of nanopb writes the encoding of the message that it reads, the same bytes that it has counted for the lengths of
  submessages and packed arrays.
\<close>

section \<open>Arrays\<close>

lemma emits_packed:
  assumes "memory env 0 = None" and "writes_messages rec vm" and "view_entries (view_value env vm f) f p n = Some vs"
  shows "emits (\<lambda>s. encode_packed (PB_ENCODERS env rec (PB_LTYPE (field_type f))) s f p n) (concat (map wire_value vs))"
  using assms(3)
proof (induction n arbitrary: p vs)
  case 0
  then show ?case using emits_Ok by simp
next
  case (Suc n)
  then obtain v ws where "view_value env vm f p = Some v" "view_entries (view_value env vm f) f (p + ucast (data_size f)) n = Some ws"
    "vs = v # ws" by (auto split: bind_splits)
  then show ?case using emits_bind [OF emits_value [OF assms(1,2)] Suc.IH] by simp
qed

lemma emits_entries:
  assumes "memory env 0 = None" and "writes_messages rec vm"
    and "view_entries (\<lambda>q. if pointer_entries f then Option.bind (load64 (memory env) q) (view_value env vm f) else view_value env vm f q)
      f p n = Some vs"
  shows "emits (\<lambda>s. encode_entries (memory env) (PB_ENCODERS env rec (PB_LTYPE (field_type f))) s f p n)
    (wire_items (map (Item (tag f)) vs))"
  using assms(3)
proof (induction n arbitrary: p vs)
  case 0
  then show ?case using emits_Ok by (simp add: wire_items_def)
next
  case (Suc n)
  let ?func = "PB_ENCODERS env rec (PB_LTYPE (field_type f))"
  obtain v ws q where q: "(if has_pointer_entries f then load64 (memory env) p else Some p) = Some q"
    and v: "view_value env vm f q = Some v"
    and ws: "view_entries (\<lambda>q. if pointer_entries f then Option.bind (load64 (memory env) q) (view_value env vm f) else view_value env vm f q)
      f (p + ucast (data_size f)) n = Some ws" and vs: "vs = v # ws"
    using Suc.prems by (auto simp flip: pointer_entries_eq split: bind_splits if_splits)
  from q have eq: "(if has_pointer_entries f then oread (load64 (memory env) p) (\<lambda>q. call_encoder ?func s f q) else call_encoder ?func s f p) =
    call_encoder ?func s f q" for s by (auto split: if_splits)
  have "emits (\<lambda>s. encode_entries (memory env) ?func s f p (Suc n))
    (varint_enc (tag_word (wire_type v) (tag f)) @ wire_value v @ wire_items (map (Item (tag f)) ws))"
    unfolding encode_entries.simps eq
    using emits_bind [OF emits_tag_for_field [OF v] emits_bind [OF emits_value [OF assms(1,2) v] Suc.IH [OF ws]]] by simp
  then show ?case by (simp add: wire_items_def vs)
qed

lemma fixed_entries_length:
  assumes "view_entries (view_value env vm f) f p n = Some vs"
  shows "PB_LTYPE (field_type f) = PB_LTYPE_FIXED32 \<Longrightarrow> length (concat (map wire_value vs)) = 4 * n"
    and "PB_LTYPE (field_type f) = PB_LTYPE_FIXED64 \<Longrightarrow> length (concat (map wire_value vs)) = 8 * n"
  using assms by (induction n arbitrary: p vs) (auto simp: view_value_def Let_def split: bind_splits)

lemma packed_size_ok:
  assumes "memory env 0 = None" and "writes_messages rec vm" and "view_entries (view_value env vm f) f p (unat count) = Some vs"
    and "length (concat (map wire_value vs)) < 2 ^ 64"
  shows "packed_size (PB_ENCODERS env rec (PB_LTYPE (field_type f))) s f p count =
    Ok (of_nat (length (concat (map wire_value vs)))) s"
proof -
  have "emit PB_OSTREAM_SIZING bs = s' \<Longrightarrow> bytes_written s' = of_nat (length bs)" for bs and s' :: "'a pb_ostream_t"
    using sizing_ready(3) by auto
  moreover have "encode_packed (PB_ENCODERS env rec (PB_LTYPE (field_type f))) PB_OSTREAM_SIZING f p (unat count) =
      Ok () (emit PB_OSTREAM_SIZING (concat (map wire_value vs)))"
    using emits_sizing [OF emits_packed [OF assms(1-3)] assms(4)] .
  moreover have "4 * count = of_nat (4 * unat count)" "8 * count = of_nat (8 * unat count)" by simp_all
  ultimately show ?thesis using fixed_entries_length [OF assms(3)] by (auto simp: packed_size_def)
qed

lemma emits_array:
  assumes "memory env 0 = None" and "writes_messages rec vm" and "view_array env vm f p (unat count) = Some is"
  shows "emits (\<lambda>s. encode_array (memory env) s f p (ucast (count :: u32)) (PB_ENCODERS env rec (PB_LTYPE (field_type f)))) (wire_items is)"
proof (cases "count = 0")
  case True
  then show ?thesis using assms(3) emits_Ok by (simp add: view_array_def encode_array_def wire_items_def)
next
  case False
  let ?func = "PB_ENCODERS env rec (PB_LTYPE (field_type f))"
  have c: "unat (ucast count :: size_t) = unat count" "(ucast count :: size_t) \<noteq> 0" using False unat_ucast_u32 [of count]
    by (auto simp: word_unat_eq_iff)
  have room: "\<not> (PB_ATYPE (field_type f) \<noteq> PB_ATYPE_POINTER \<and> (ucast (array_size f) :: size_t) < ucast count)"
    using assms(3) False c(1) unat_ucast_u32 [of "array_size f"]
    by (auto simp: view_array_def word_less_nat_alt unat_eq_zero split: if_splits)
  show ?thesis
  proof (cases "PB_LTYPE (field_type f) \<le> PB_LTYPE_LAST_PACKABLE")
    case packed: True
    then obtain vs where vs: "view_entries (view_value env vm f) f p (unat (ucast count :: size_t)) = Some vs" "is = [Packed (tag f) vs]"
      using assms(3) False c by (auto simp: view_array_def unat_eq_zero split: if_splits)
    let ?b = "concat (map wire_value vs)"
    show ?thesis
    proof (cases "length ?b < 2 ^ 64")
      case True
      have "emits (\<lambda>s. if is_sizing s then pb_write s None (of_nat (length ?b)) else encode_packed ?func s f p (unat (ucast count :: size_t))) ?b"
        using emitsD [OF emits_packed [OF assms(1,2) vs(1)]] by (intro emits_if_sizing) blast+
      from emits_bind [OF emits_tag [of 2 "tag f"] emits_bind [OF emits_varint_nat [OF True] this]]
      have "emits (\<lambda>s. encode_array (memory env) s f p (ucast count) ?func)
          (varint_enc (tag_word 2 (tag f)) @ varint_enc (length ?b) @ ?b)"
        using packed room c packed_size_ok [OF assms(1,2) vs(1) True] by (auto simp: encode_array_def elim!: emits_cong)
      then show ?thesis using vs by (simp add: wire_items_def delimited_def)
    next
      case False
      then show ?thesis using vs by (simp add: emits_def wire_items_def delimited_def)
    qed
  next
    case False
    with \<open>count \<noteq> 0\<close> obtain vs where "view_entries (\<lambda>q. if pointer_entries f then Option.bind (load64 (memory env) q) (view_value env vm f) else view_value env vm f q)
      f p (unat count) = Some vs" "is = map (Item (tag f)) vs"
      using assms(3) by (auto simp: view_array_def unat_eq_zero split: if_splits)
    then show ?thesis using False room c emits_entries [OF assms(1,2)] by (auto simp: encode_array_def elim: emits_cong)
  qed
qed

section \<open>Fields\<close>

text \<open>What the application's own encoders are relied upon for: each writes the bytes it is said to write.\<close>

definition app_writes :: "'u pb_env \<Rightarrow> app_bytes \<Rightarrow> bool" where
  "app_writes env app \<longleftrightarrow>
     (\<forall>g f p bs. callback_bytes app g f p = Some bs \<longrightarrow> emits (\<lambda>s. encode_callback env g s f p) bs) \<and>
     (\<forall>g e bs. extension_bytes app g e = Some bs \<longrightarrow> emits (\<lambda>s. encode_extension env g s e) bs)"

lemma wire_items_simps [simp]:
  "wire_items [] = []" "wire_items (i # is) = wire_item i @ wire_items is" "wire_items (is @ js) = wire_items is @ wire_items js"
  by (simp_all add: wire_items_def)

lemma emits_basic:
  assumes "memory env 0 = None" and "writes_messages rec vm" and "view_basic d env vm f p = Some is"
  shows "emits (\<lambda>s. encode_basic_field d env rec s f p) (wire_items is)"
proof -
  let ?func = "PB_ENCODERS env rec (PB_LTYPE (field_type f))"
  have l: "\<not> 0x0B \<le> PB_LTYPE (field_type f)" using assms(3) by (auto simp: view_basic_def split: if_splits)
  then obtain q where q: "(if PB_ATYPE (field_type f) = PB_ATYPE_POINTER then load64 (memory env) p else Some p) = Some q"
    using assms(3) by (auto simp: view_basic_def split: bind_splits)
  note v = assms(3) [unfolded view_basic_def q Let_def if_not_P [OF l] bind.bind_lunit]
  have one: "emits (\<lambda>s. encode_tagged ?func s f q) (wire_items [Item (tag f) x])" if "view_value env vm f q = Some x" for x
    using emits_tagged [OF assms(1,2) that] by simp
  show ?thesis using htype_cases [of "field_type f"]
  proof (elim insertE emptyE)
    assume t: "PB_HTYPE (field_type f) = PB_HTYPE_REQUIRED"
    then obtain x where "q \<noteq> 0" "view_value env vm f q = Some x" "is = [Item (tag f) x]" using v by (auto split: if_splits)
    moreover from this have "encode_basic_field d env rec s f p = encode_tagged ?func s f q" for s
      using t l q by (auto simp: encode_basic_field_def Let_def split: if_splits)
    ultimately show ?thesis using one by simp
  next
    assume t: "PB_HTYPE (field_type f) = PB_HTYPE_OPTIONAL"
    then obtain b where b: "present d env f p = Some b"
      "(if b then map_option (\<lambda>v. [Item (tag f) v]) (view_value env vm f q) else Some []) = Some is"
      using v by (auto split: bind_splits)
    then have "encode_basic_field d env rec s f p = (if b then encode_tagged ?func s f q else Ok () s)" for s
      using t l q by (auto simp: encode_basic_field_def Let_def present_def read_has_def view_bool_eq
        dest!: proto3_default_ok split: if_splits bind_splits)
    then show ?thesis using b(2) one emits_Ok by (cases b) auto
  next
    assume t: "PB_HTYPE (field_type f) = PB_HTYPE_REPEATED"
    then obtain n where n: "(if size_offset f \<noteq> 0 then load32 (memory env) (p + scast (size_offset f)) else Some (array_size f)) = Some n"
      "view_array env vm f q (unat n) = Some is"
      using v by (auto split: bind_splits if_splits)
    then have "encode_basic_field d env rec s f p = encode_array (memory env) s f q (ucast n) ?func" for s
      using t l q by (auto simp: encode_basic_field_def Let_def read_count_def split: if_splits)
    then show ?thesis using emits_array [OF assms(1,2) n(2)] by simp
  next
    assume t: "PB_HTYPE (field_type f) = PB_HTYPE_ONEOF"
    then obtain w where w: "size_offset f \<noteq> 0" "load32 (memory env) (p + scast (size_offset f)) = Some w"
      "(if w = tag f then map_option (\<lambda>v. [Item (tag f) v]) (view_value env vm f q) else Some []) = Some is"
      using v by (auto split: bind_splits if_splits)
    then have "encode_basic_field d env rec s f p = (if w = tag f then encode_tagged ?func s f q else Ok () s)" for s
      using t l q by (auto simp: encode_basic_field_def Let_def read_count_def split: if_splits)
    then show ?thesis using w(3) one emits_Ok by (cases "w = tag f") auto
  qed
qed

lemma emits_callback:
  assumes "app_writes env app" and "view_callback env app f p = Some is"
  shows "emits (\<lambda>s. encode_callback_field env s f p) (wire_items is)"
proof -
  obtain g where g: "load64 (memory env) p = Some g" using assms(2) by (auto simp: view_callback_def split: bind_splits)
  show ?thesis
  proof (cases "g = 0")
    case True
    then show ?thesis using assms(2) g emits_Ok by (auto simp: view_callback_def encode_callback_field_def)
  next
    case False
    then obtain bs where bs: "callback_bytes app g f (p + 8) = Some bs" "is = [Raw bs]"
      using assms(2) g by (auto simp: view_callback_def)
    then have "emits (\<lambda>s. encode_callback env g s f (p + 8)) bs" using assms(1) by (auto simp: app_writes_def)
    then have "emits (\<lambda>s. case encode_callback env g s f (p + 8) of Fail s \<Rightarrow> OSTREAM_RETURN_ERROR s ''callback error'' | r \<Rightarrow> r) bs"
      unfolding emits_def
      by (fastforce simp: OSTREAM_RETURN_ERROR_def OSTREAM_SET_ERROR_def cut_short_def split: option.splits ostate.splits)
    then show ?thesis using g False bs by (simp add: encode_callback_field_def)
  qed
qed

lemma emits_field:
  assumes "memory env 0 = None" and "app_writes env app" and "writes_messages rec vm" and "view_field d env app vm f p = Some is"
  shows "emits (\<lambda>s. encode_field d env rec s f p) (wire_items is)"
  using assms emits_basic [OF assms(1,3)] emits_callback [OF assms(2)]
  by (auto simp: view_field_def encode_field_def Let_def split: if_splits)

lemma emits_extension:
  assumes "memory env 0 = None" and "app_writes env app" and "writes_messages rec vm" and "load64 (memory env) e = Some ty"
    and "view_extension d env app vm ty g e = Some is"
  shows "emits (\<lambda>s. if g \<noteq> 0 then encode_extension env g s e else default_extension_encoder d env rec s e) (wire_items is)"
proof (cases "g = 0")
  case True
  then obtain arg fs f q where "load64 (memory env) (ty + 16) = Some arg" "descriptors env arg = Some fs" "mem_at fs 0 = Some f"
    "(if PB_ATYPE (field_type f) = PB_ATYPE_POINTER then Some (e + 8) else load64 (memory env) (e + 8)) = Some q"
    "view_field d env app vm f q = Some is"
    using assms(5) by (auto simp: view_extension_def split: bind_splits)
  then show ?thesis using True assms(4) emits_field [OF assms(1-3)]
    by (auto simp: default_extension_encoder_def split: if_splits)
next
  case False
  then obtain bs where "extension_bytes app g e = Some bs" "is = [Raw bs]" using assms(5) by (auto simp: view_extension_def)
  then show ?thesis using False assms(2) by (auto simp: app_writes_def)
qed

lemma emits_extensions:
  assumes "memory env 0 = None" and "app_writes env app" and "writes_messages rec vm" and "view_extensions n d env app vm e = Some is"
  shows "emits (\<lambda>s. encode_extensions n d env rec s e) (wire_items is)"
  using assms(4)
proof (induction n arbitrary: e "is")
  case 0
  then show ?case using emits_Ok by (auto split: if_splits)
next
  case (Suc n)
  show ?case
  proof (cases "e = 0")
    case True
    then show ?thesis using Suc.prems emits_Ok by simp
  next
    case False
    then obtain ty g here e' rest where l: "load64 (memory env) e = Some ty" "load64 (memory env) (ty + 8) = Some g"
        "load64 (memory env) (e + 16) = Some e'"
      and here: "view_extension d env app vm ty g e = Some here"
      and rest: "view_extensions n d env app vm e' = Some rest" and i: "is = here @ rest"
      using Suc.prems by (auto split: bind_splits)
    from emits_bind [OF emits_extension [OF assms(1-3) l(1) here] Suc.IH [OF rest]] show ?thesis using l i False by simp
  qed
qed

lemma emits_any:
  assumes "memory env 0 = None" and "app_writes env app" and "writes_messages rec vm" and "view_any d env app vm f p = Some is"
  shows "emits (\<lambda>s. if PB_LTYPE (field_type f) = PB_LTYPE_EXTENSION then encode_extension_field d env rec s f p
    else encode_field d env rec s f p) (wire_items is)"
  using assms(4) emits_field [OF assms(1-3)] emits_extensions [OF assms(1-3)]
  by (auto simp: view_any_def encode_extension_field_def split: if_splits bind_splits)

section \<open>Messages\<close>

lemma pData_iter_at [simp]: "pData (iter_at fs p k) = field_addr fs p k"
  by (simp add: iter_at_def)

lemma emits_fields:
  assumes "memory env 0 = None" and "app_writes env app" and "writes_messages rec vm" and "fields_ok fs n"
    and "k < n" and "concat_views (map (\<lambda>j. view_any d env app vm (fs ! j) (field_addr fs p j)) [k..<n]) = Some is"
  shows "emits (\<lambda>s. encode_fields d env rec s (iter_at fs p k)) (wire_items is)"
  using assms(5,6)
proof (induction "n - k" arbitrary: k "is")
  case (Suc m)
  have len: "k < length fs" using assms(4) Suc.prems by (simp add: fields_ok_def)
  have "[k..<n] = k # [Suc k..<n]" using Suc.prems by (simp add: upt_conv_Cons)
  then obtain here rest where h: "view_any d env app vm (fs ! k) (field_addr fs p k) = Some here"
    and r: "concat_views (map (\<lambda>j. view_any d env app vm (fs ! j) (field_addr fs p j)) [Suc k..<n]) = Some rest" and i: "is = here @ rest"
    using Suc.prems by (auto split: bind_splits)
  let ?f = "fs ! k"
  have "emits (\<lambda>s. case pb_field_iter_next (iter_at fs p k) of None \<Rightarrow> Fault
      | Some (b, it') \<Rightarrow> if b then encode_fields d env rec s it' else Ok () s) (wire_items rest)"
  proof (cases "Suc k < n")
    case True
    then show ?thesis using next_ok [OF assms(4) Suc.prems(1)] Suc.hyps(1) [OF _ True r] Suc.hyps(2) by simp
  next
    case False
    then have "rest = []" using r by simp
    then show ?thesis using next_ok [OF assms(4) Suc.prems(1)] False emits_Ok by simp
  qed
  from emits_bind [OF emits_any [OF assms(1-3) h] this]
  show ?case unfolding i by (subst encode_fields.simps) (simp add: mem_at_def len cong: if_cong)
qed simp

lemma emits_message:
  assumes "memory env 0 = None" and "app_writes env app"
  shows "writes_messages (pb_encode d env) (view_message d env app)"
proof (induction d)
  case 0
  then show ?case by (simp add: writes_messages_def)
next
  case (Suc d)
  have "emits (\<lambda>s. pb_encode (Suc d) env s fs p) (wire_items is)" if v: "view_message (Suc d) env app fs p = Some is" for fs p "is"
  proof -
    let ?n = "length fs - 1"
    have ok: "fields_ok fs ?n"
      and c: "concat_views (map (\<lambda>k. view_any d env app (view_message d env app) (fs ! k) (field_addr fs p k)) [0..<?n]) = Some is"
      using v by (auto split: if_splits)
    show ?thesis
    proof (cases "0 < ?n")
      case True
      then show ?thesis using begin_ok [OF ok, of p] emits_fields [OF assms Suc ok True c] by simp
    next
      case False
      then have "is = []" using c by simp
      then show ?thesis using begin_ok [OF ok, of p] False emits_Ok by simp
    qed
  qed
  then show ?case by (simp add: writes_messages_def)
qed

text \<open>On a fresh buffer.\<close>

lemma emits_from_buffer:
  assumes "emits f bs" and "unat n \<le> length buf" and "length buf + length bs < 2 ^ 64"
  shows "if length bs \<le> unat n then \<exists>s. f (pb_ostream_from_buffer buf n) = Ok () s \<and> written s = bs \<and>
        bytes_written s = of_nat (length bs) \<and> ostate s = BufOut (bs @ drop (length bs) buf) (length bs)
    else \<exists>s. f (pb_ostream_from_buffer buf n) = Fail s \<and> oerrmsg s \<noteq> None \<and>
        (\<exists>buf' w. ostate s = BufOut buf' w \<and> length buf' = length buf \<and> drop (unat n) buf' = drop (unat n) buf)"
proof -
  let ?s = "pb_ostream_from_buffer buf n :: 'a pb_ostream_t"
  have s: "ready ?s" "max_size ?s = n" "bytes_written ?s = 0" "ostate ?s = BufOut buf 0" "\<not> is_sizing ?s"
    "ofits ?s k \<longleftrightarrow> k \<le> unat n" for k
    using pb_ostream_from_buffer_ok [OF assms(2)]
    by (simp_all add: ready_def pb_ostream_from_buffer_def is_sizing_def ofits_def)
  have l: "length bs < 2 ^ 64" "unat n + length bs < 2 ^ 64" using assms(2,3) by simp_all
  show ?thesis
  proof (cases "length bs \<le> unat n")
    case True
    then show ?thesis using emitsD(1) [OF assms(1) s(1) l(1)] s by (simp add: emit_def written_def)
  next
    case False
    then obtain s' where "f ?s = Fail s'" "cut_short ?s s'" using emitsD(2) [OF assms(1) s(1)] s l by auto
    then show ?thesis using s False by (cases "ostate s'") (auto simp: cut_short_def)
  qed
qed

section \<open>Properties\<close>

text \<open>(C9) Encoding a message.  Whenever a structure in memory holds a message (\<open>view_message\<close>), \<open>pb_encode\<close> to a buffer writes exactly the
  protocol buffer encoding of its items: if the buffer has room for it, the buffer starts with the encoding and the rest of it is as
  before; if not, the function returns false with an error message and touches nothing outside of the buffer's room.
  \<open>pb_get_encoded_size\<close> returns the length of the encoding.\<close>

theorem pb_encode_exact:
  assumes "memory env 0 = None" and "app_writes env app" and "view_message d env app fs p = Some is"
    and "unat n \<le> length buf" and "length buf + length (wire_items is) < 2 ^ 64"
  shows "(length (wire_items is) \<le> unat n \<longrightarrow>
      (\<exists>s. pb_encode d env (pb_ostream_from_buffer buf n) fs p = Ok () s \<and> bytes_written s = of_nat (length (wire_items is)) \<and>
        ostate s = BufOut (wire_items is @ drop (length (wire_items is)) buf) (length (wire_items is)))) \<and>
    (unat n < length (wire_items is) \<longrightarrow>
      (\<exists>s. pb_encode d env (pb_ostream_from_buffer buf n) fs p = Fail s \<and> oerrmsg s \<noteq> None \<and>
        (\<exists>buf' w. ostate s = BufOut buf' w \<and> length buf' = length buf \<and> drop (unat n) buf' = drop (unat n) buf))) \<and>
    pb_get_encoded_size d env fs p = Some (Some (of_nat (length (wire_items is))))"
proof -
  have e: "emits (\<lambda>s. pb_encode d env s fs p) (wire_items is)"
    using emits_message [OF assms(1,2)] assms(3) by (auto simp: writes_messages_def)
  have "pb_get_encoded_size d env fs p = Some (Some (of_nat (length (wire_items is))))"
    using emits_sizing [OF e] assms(5) sizing_ready(3) by (simp add: pb_get_encoded_size_def)
  then show ?thesis using emits_from_buffer [OF e assms(4,5)] by (auto split: if_splits)
qed

text \<open>A structure with a required integer, an optional string, an array of two signed integers, a pointer to another structure, and two
  integers of proto3, of which one holds its default value.\<close>

definition demo_bytes :: "byte list" where
  "demo_bytes =
     [0x96, 0, 0, 0, 1, 0x68, 0x69, 0, 0, 0, 0, 0, 2, 0, 0, 0, 1, 0, 0, 0, 0xFF, 0xFF, 0xFF, 0xFF,
      0x20, 0x10, 0, 0, 0, 0, 0, 0, 0x96, 0, 0, 0,
      0, 0, 0, 0, 7, 0, 0, 0]"

definition demo_sub_fields :: "pb_field_t list" where
  "demo_sub_fields =
     [\<lparr>tag = 1, field_type = 0x01, data_offset = 0, size_offset = 0, data_size = 4, array_size = 0, ptr = 0\<rparr>,
      \<lparr>tag = 0, field_type = 0, data_offset = 0, size_offset = 0, data_size = 0, array_size = 0, ptr = 0\<rparr>]"

definition demo_message_fields :: "pb_field_t list" where
  "demo_message_fields =
     [\<lparr>tag = 1, field_type = 0x01, data_offset = 0, size_offset = 0, data_size = 4, array_size = 0, ptr = 0\<rparr>,
      \<lparr>tag = 2, field_type = 0x17, data_offset = 1, size_offset = - 1, data_size = 4, array_size = 0, ptr = 0\<rparr>,
      \<lparr>tag = 3, field_type = 0x23, data_offset = 7, size_offset = - 4, data_size = 4, array_size = 2, ptr = 0\<rparr>,
      \<lparr>tag = 4, field_type = 0x98, data_offset = 0, size_offset = 0, data_size = 4, array_size = 0, ptr = 0x2000\<rparr>,
      \<lparr>tag = 5, field_type = 0x11, data_offset = 4, size_offset = 0, data_size = 4, array_size = 0, ptr = 0\<rparr>,
      \<lparr>tag = 6, field_type = 0x11, data_offset = 0, size_offset = 0, data_size = 4, array_size = 0, ptr = 0\<rparr>,
      \<lparr>tag = 0, field_type = 0, data_offset = 0, size_offset = 0, data_size = 0, array_size = 0, ptr = 0\<rparr>]"

definition demo_env :: "unit pb_env" where
  "demo_env =
     \<lparr>memory = (\<lambda>a. if 0x1000 \<le> a then mem_at demo_bytes (unat (a - 0x1000)) else None),
      descriptors = (\<lambda>a. if a = 0x2000 then Some demo_sub_fields else None),
      encode_callback = (\<lambda>g s f p. Fail s), encode_extension = (\<lambda>g s e. Fail s)\<rparr>"

definition no_app :: app_bytes where
  "no_app = \<lparr>callback_bytes = (\<lambda>_ _ _. None), extension_bytes = (\<lambda>_ _. None)\<rparr>"

definition demo_items :: "pb_item list" where
  "demo_items =
     [Item 1 (Varint 150), Item 2 (Delimited [0x68, 0x69]), Packed 3 [Varint 2, Varint 1], Item 4 (Message [Item 1 (Varint 150)]),
      Item 6 (Varint 7)]"

lemma demo_view: "view_message 3 demo_env no_app demo_message_fields 0x1000 = Some demo_items"
  by code_simp

lemma demo_app: "app_writes demo_env no_app" "memory demo_env 0 = None"
  by (simp_all add: app_writes_def no_app_def demo_env_def)

lemma demo_wire:
  "wire_items demo_items =
     [0x08, 0x96, 0x01, 0x12, 0x02, 0x68, 0x69, 0x1A, 0x02, 0x02, 0x01, 0x22, 0x03, 0x08, 0x96, 0x01, 0x30, 0x07]"
  by (simp add: demo_items_def wire_items_def delimited_def tag_word_def varint_enc_small varint_enc_big)

theorem pb_encode_exact_witness:
  "(\<exists>s. pb_encode 3 demo_env (pb_ostream_from_buffer (replicate 20 0) 20) demo_message_fields 0x1000 = Ok () s \<and>
     ostate s = BufOut [0x08, 0x96, 0x01, 0x12, 0x02, 0x68, 0x69, 0x1A, 0x02, 0x02, 0x01, 0x22, 0x03, 0x08, 0x96, 0x01, 0x30, 0x07, 0, 0] 18) \<and>
   (\<exists>s. pb_encode 3 demo_env (pb_ostream_from_buffer (replicate 20 0) 15) demo_message_fields 0x1000 = Fail s \<and> oerrmsg s \<noteq> None) \<and>
   pb_get_encoded_size 3 demo_env demo_message_fields 0x1000 = Some (Some 18)"
proof -
  have "replicate 2 (0 :: byte) = [0, 0]" by (simp add: numeral_eq_Suc)
  moreover have l: "length (wire_items demo_items) = 18" by (simp add: demo_wire)
  ultimately show ?thesis
    using pb_encode_exact [OF demo_app(2,1) demo_view, of 20 "replicate 20 0"]
      pb_encode_exact [OF demo_app(2,1) demo_view, of 15 "replicate 20 0"]
    unfolding l by (simp add: demo_wire) blast
qed

text \<open>(C24) The framed forms.  \<open>pb_encode_delimited\<close> writes the length of the encoding as a varint and the encoding,
  \<open>pb_encode_nullterminated\<close> the encoding and a zero byte, if the buffer has room for them, and return false otherwise; the second run
  over the message never disagrees with the first, which has counted the bytes.\<close>

theorem pb_encode_framed_exact:
  assumes "memory env 0 = None" and "app_writes env app" and "view_message d env app fs p = Some is"
    and "unat n \<le> length buf" and "length buf + length (wire_items is) + 11 < 2 ^ 64"
  shows "(if length (delimited (wire_items is)) \<le> unat n
      then \<exists>s. pb_encode_delimited d env (pb_ostream_from_buffer buf n) fs p = Ok () s \<and> written s = delimited (wire_items is)
      else \<exists>s. pb_encode_delimited d env (pb_ostream_from_buffer buf n) fs p = Fail s) \<and>
    (if length (wire_items is) < unat n
      then \<exists>s. pb_encode_nullterminated d env (pb_ostream_from_buffer buf n) fs p = Ok () s \<and> written s = wire_items is @ [0]
      else \<exists>s. pb_encode_nullterminated d env (pb_ostream_from_buffer buf n) fs p = Fail s)"
proof -
  have e: "emits (\<lambda>s. pb_encode d env s fs p) (wire_items is)"
    using emits_message [OF assms(1,2)] assms(3) by (auto simp: writes_messages_def)
  have "emits (\<lambda>s. pb_encode_delimited d env s fs p) (delimited (wire_items is))"
    using emits_submessage [of "pb_encode d env", OF e] by (simp add: pb_encode_delimited_def)
  moreover have "emits (\<lambda>s. pb_encode_nullterminated d env s fs p) (wire_items is @ [0])"
    using emits_bind [OF e emits_write [of "[0]"]] by (simp add: pb_encode_nullterminated_def)
  moreover have "length (varint_enc (length (wire_items is))) \<le> 10"
    using length_varint_enc_u64 [of "of_nat (length (wire_items is))"] assms(5) by (simp add: unat_of_nat_less)
  then have "length (delimited (wire_items is)) \<le> length (wire_items is) + 10" by (simp add: delimited_def)
  ultimately show ?thesis
    using emits_from_buffer [of "\<lambda>s. pb_encode_delimited d env s fs p" "delimited (wire_items is)" n buf]
      emits_from_buffer [of "\<lambda>s. pb_encode_nullterminated d env s fs p" "wire_items is @ [0]" n buf] assms(4,5)
    by (simp add: Suc_le_eq split: if_splits) blast+
qed

theorem pb_encode_framed_exact_witness:
  "(\<exists>s. pb_encode_delimited 3 demo_env (pb_ostream_from_buffer (replicate 20 0) 20) demo_message_fields 0x1000 = Ok () s \<and>
     written s = 0x12 # wire_items demo_items) \<and>
   (\<exists>s. pb_encode_nullterminated 3 demo_env (pb_ostream_from_buffer (replicate 20 0) 16) demo_message_fields 0x1000 = Fail s)"
proof -
  have l: "length (wire_items demo_items) = 18" "delimited (wire_items demo_items) = 0x12 # wire_items demo_items"
    by (simp_all add: demo_wire delimited_def varint_enc_small)
  show ?thesis
    using pb_encode_framed_exact [OF demo_app(2,1) demo_view, of 20 "replicate 20 0"]
      pb_encode_framed_exact [OF demo_app(2,1) demo_view, of 16 "replicate 20 0"]
    unfolding l by (simp add: l(1))
qed

end
