(* ===== verification/Cbs.thy ===== *)
theory Cbs
  imports Prelude ByteIO
begin

text \<open>
  BoringSSL's byte-string reader (\<^verbatim>\<open>crypto/bytestring/cbs.c\<close>): a \<open>CBS\<close> is a pointer and a length, and every
  \<open>CBS_get\<close> function takes something off its front.  \<open>cbs_data\<close> holds the memory from the pointer to the
  end of the underlying object, so a read behind that end is a \<open>Fault\<close>; \<open>cbs_len\<close> is the length field.
  The functions that only look at the reader (\<open>const CBS *\<close>) return it unchanged.
\<close>

unbundle bit_operations_syntax

record CBS =
  cbs_data :: "byte list"
  cbs_len :: size_t

section \<open>Taking bytes\<close>

definition CBS_init :: "byte list \<Rightarrow> size_t \<Rightarrow> CBS" where
  "CBS_init data len = \<lparr>cbs_data = data, cbs_len = len\<rparr>"

text \<open>\<open>cbs_get\<close> returns the old pointer, that is, the memory from it on.\<close>

definition cbs_get :: "CBS \<Rightarrow> size_t \<Rightarrow> (byte list, CBS) outcome" where
  "cbs_get cbs n =
     (if cbs_len cbs < n then Fail cbs
      else Ok (cbs_data cbs)
             (cbs\<lparr>cbs_data := drop (unat n) (cbs_data cbs), cbs_len := cbs_len cbs - n\<rparr>))"

definition CBS_skip :: "CBS \<Rightarrow> size_t \<Rightarrow> (unit, CBS) outcome" where
  "CBS_skip cbs len = obind (cbs_get cbs len) (\<lambda>_ cbs'. Ok () cbs')"

definition CBS_data :: "CBS \<Rightarrow> byte list" where
  "CBS_data cbs = cbs_data cbs"

definition CBS_len :: "CBS \<Rightarrow> size_t" where
  "CBS_len cbs = cbs_len cbs"

text \<open>\<open>memchr(s, c, n)\<close>: the index of the first \<open>c\<close>; a scan that runs off the object is a \<open>Fault\<close> (outer \<open>None\<close>).\<close>

fun memchr_from :: "byte list \<Rightarrow> byte \<Rightarrow> nat \<Rightarrow> nat option option" where
  "memchr_from m c 0 = Some None"
| "memchr_from [] c (Suc n) = None"
| "memchr_from (x # xs) c (Suc n) =
     (if x = c then Some (Some 0) else map_option (map_option Suc) (memchr_from xs c n))"

definition CBS_contains_zero_byte :: "CBS \<Rightarrow> (bool, CBS) outcome" where
  "CBS_contains_zero_byte cbs =
     (case memchr_from (cbs_data cbs) 0 (unat (cbs_len cbs)) of
        None \<Rightarrow> Fault
      | Some r \<Rightarrow> Ok (r \<noteq> None) cbs)"

text \<open>\<open>CRYPTO_memcmp\<close>: the accumulated difference of two memory ranges of length \<open>n\<close>.\<close>

definition CRYPTO_memcmp :: "byte list \<Rightarrow> byte list \<Rightarrow> nat \<Rightarrow> byte option" where
  "CRYPTO_memcmp a b n =
     (case (mem_range a n, mem_range b n) of
        (Some xs, Some ys) \<Rightarrow> Some (fold (\<lambda>(p, q) x. x OR (p XOR q)) (zip xs ys) 0)
      | _ \<Rightarrow> None)"

definition CBS_mem_equal :: "CBS \<Rightarrow> byte list \<Rightarrow> size_t \<Rightarrow> (bool, CBS) outcome" where
  "CBS_mem_equal cbs data len =
     (if len \<noteq> cbs_len cbs then Ok False cbs
      else (case CRYPTO_memcmp (cbs_data cbs) data (unat len) of
              None \<Rightarrow> Fault
            | Some x \<Rightarrow> Ok (x = 0) cbs))"

section \<open>Integers\<close>

definition cbs_get_u :: "CBS \<Rightarrow> size_t \<Rightarrow> (u64, CBS) outcome" where
  "cbs_get_u cbs len =
     obind (cbs_get cbs len) (\<lambda>data cbs'.
       (case mem_range data (unat len) of
          None \<Rightarrow> Fault
        | Some bs \<Rightarrow> Ok (fold (\<lambda>b result. push_bit 8 result OR ucast b) bs 0) cbs'))"

definition CBS_get_u8 :: "CBS \<Rightarrow> (byte, CBS) outcome" where
  "CBS_get_u8 cbs =
     obind (cbs_get cbs 1) (\<lambda>v cbs'. (case mem_at v 0 of None \<Rightarrow> Fault | Some b \<Rightarrow> Ok b cbs'))"

definition CBS_get_u16 :: "CBS \<Rightarrow> (u16, CBS) outcome" where
  "CBS_get_u16 cbs = obind (cbs_get_u cbs 2) (\<lambda>v cbs'. Ok (ucast v) cbs')"

text \<open>\<open>__builtin_bswap\<close>: reverse the bytes of a word.\<close>

definition CRYPTO_bswap2 :: "u16 \<Rightarrow> u16" where
  "CRYPTO_bswap2 x = of_nat (be_nat (le_bytes 2 (unat x)))"

definition CRYPTO_bswap4 :: "u32 \<Rightarrow> u32" where
  "CRYPTO_bswap4 x = of_nat (be_nat (le_bytes 4 (unat x)))"

definition CRYPTO_bswap8 :: "u64 \<Rightarrow> u64" where
  "CRYPTO_bswap8 x = of_nat (be_nat (le_bytes 8 (unat x)))"

definition CBS_get_u16le :: "CBS \<Rightarrow> (u16, CBS) outcome" where
  "CBS_get_u16le cbs = obind (CBS_get_u16 cbs) (\<lambda>v cbs'. Ok (CRYPTO_bswap2 v) cbs')"

definition CBS_get_u24 :: "CBS \<Rightarrow> (u32, CBS) outcome" where
  "CBS_get_u24 cbs = obind (cbs_get_u cbs 3) (\<lambda>v cbs'. Ok (ucast v) cbs')"

definition CBS_get_u32 :: "CBS \<Rightarrow> (u32, CBS) outcome" where
  "CBS_get_u32 cbs = obind (cbs_get_u cbs 4) (\<lambda>v cbs'. Ok (ucast v) cbs')"

definition CBS_get_u32le :: "CBS \<Rightarrow> (u32, CBS) outcome" where
  "CBS_get_u32le cbs = obind (CBS_get_u32 cbs) (\<lambda>v cbs'. Ok (CRYPTO_bswap4 v) cbs')"

definition CBS_get_u64 :: "CBS \<Rightarrow> (u64, CBS) outcome" where
  "CBS_get_u64 cbs = cbs_get_u cbs 8"

definition CBS_get_u64le :: "CBS \<Rightarrow> (u64, CBS) outcome" where
  "CBS_get_u64le cbs = obind (cbs_get_u cbs 8) (\<lambda>v cbs'. Ok (CRYPTO_bswap8 v) cbs')"

definition CBS_get_last_u8 :: "CBS \<Rightarrow> (byte, CBS) outcome" where
  "CBS_get_last_u8 cbs =
     (if cbs_len cbs = 0 then Fail cbs
      else (case mem_at (cbs_data cbs) (unat (cbs_len cbs - 1)) of
              None \<Rightarrow> Fault
            | Some b \<Rightarrow> Ok b (cbs\<lparr>cbs_len := cbs_len cbs - 1\<rparr>)))"

section \<open>Byte strings\<close>

definition CBS_get_bytes :: "CBS \<Rightarrow> size_t \<Rightarrow> (CBS, CBS) outcome" where
  "CBS_get_bytes cbs len = obind (cbs_get cbs len) (\<lambda>v cbs'. Ok (CBS_init v len) cbs')"

definition CBS_copy_bytes :: "CBS \<Rightarrow> size_t \<Rightarrow> (byte list, CBS) outcome" where
  "CBS_copy_bytes cbs len =
     obind (cbs_get cbs len) (\<lambda>v cbs'.
       (case mem_range v (unat len) of None \<Rightarrow> Fault | Some bs \<Rightarrow> Ok bs cbs'))"

text \<open>A failed \<open>assert\<close> is a \<open>Fault\<close>: here \<open>assert(len_len <= 3)\<close>.\<close>

definition cbs_get_length_prefixed :: "CBS \<Rightarrow> size_t \<Rightarrow> (CBS, CBS) outcome" where
  "cbs_get_length_prefixed cbs len_len =
     (if len_len > 3 then Fault else obind (cbs_get_u cbs len_len) (\<lambda>len cbs'. CBS_get_bytes cbs' len))"

definition CBS_get_u8_length_prefixed :: "CBS \<Rightarrow> (CBS, CBS) outcome" where
  "CBS_get_u8_length_prefixed cbs = cbs_get_length_prefixed cbs 1"

definition CBS_get_u16_length_prefixed :: "CBS \<Rightarrow> (CBS, CBS) outcome" where
  "CBS_get_u16_length_prefixed cbs = cbs_get_length_prefixed cbs 2"

definition CBS_get_u24_length_prefixed :: "CBS \<Rightarrow> (CBS, CBS) outcome" where
  "CBS_get_u24_length_prefixed cbs = cbs_get_length_prefixed cbs 3"

definition CBS_get_until_first :: "CBS \<Rightarrow> byte \<Rightarrow> (CBS, CBS) outcome" where
  "CBS_get_until_first cbs c =
     (case memchr_from (CBS_data cbs) c (unat (CBS_len cbs)) of
        None \<Rightarrow> Fault
      | Some None \<Rightarrow> Fail cbs
      | Some (Some split) \<Rightarrow> CBS_get_bytes cbs (of_nat split))"

section \<open>Memory copies\<close>

text \<open>\<open>OPENSSL_memdup\<close> and \<open>OPENSSL_strndup\<close> either fail to allocate (\<open>None\<close>) or return a fresh copy of the
  range; whether the allocation succeeds is the parameter \<open>alloc\<close>.  A range that leaves the object is a fault.\<close>

definition OPENSSL_memdup :: "(nat \<Rightarrow> bool) \<Rightarrow> byte list \<Rightarrow> nat \<Rightarrow> byte list option option" where
  "OPENSSL_memdup alloc data n =
     (if n = 0 then Some None
      else if \<not> alloc n then Some None
      else map_option Some (mem_range data n))"

text \<open>\<open>CBS_stow\<close> first frees the buffer that its out-parameters hold; the pair it stores is the new buffer
  (\<open>None\<close> for the null pointer) and its length.\<close>

definition CBS_stow :: "(nat \<Rightarrow> bool) \<Rightarrow> CBS \<Rightarrow> (byte list option \<times> size_t, CBS) outcome" where
  "CBS_stow alloc cbs =
     (if cbs_len cbs = 0 then Ok (None, 0) cbs
      else (case OPENSSL_memdup alloc (cbs_data cbs) (unat (cbs_len cbs)) of
              None \<Rightarrow> Fault
            | Some None \<Rightarrow> Fail cbs
            | Some (Some buf) \<Rightarrow> Ok (Some buf, cbs_len cbs) cbs))"

section \<open>ASN.1 identifiers\<close>

abbreviation CBS_ASN1_TAG_SHIFT :: nat where "CBS_ASN1_TAG_SHIFT \<equiv> 24"
abbreviation CBS_ASN1_TAG_NUMBER_MASK :: u32 where "CBS_ASN1_TAG_NUMBER_MASK \<equiv> 0x1FFFFFFF"
abbreviation CBS_ASN1_CONSTRUCTED :: u32 where "CBS_ASN1_CONSTRUCTED \<equiv> 0x20000000"
abbreviation CBS_ASN1_BOOLEAN :: u32 where "CBS_ASN1_BOOLEAN \<equiv> 0x1"
abbreviation CBS_ASN1_INTEGER :: u32 where "CBS_ASN1_INTEGER \<equiv> 0x2"
abbreviation CBS_ASN1_BITSTRING :: u32 where "CBS_ASN1_BITSTRING \<equiv> 0x3"
abbreviation CBS_ASN1_OCTETSTRING :: u32 where "CBS_ASN1_OCTETSTRING \<equiv> 0x4"

lemma CBS_get_u8_shrinks:
  "CBS_get_u8 cbs = Ok b cbs' \<Longrightarrow> unat (cbs_len cbs') < unat (cbs_len cbs)"
  by (auto simp: CBS_get_u8_def cbs_get_def unat_minus_one unat_gt_0 split: option.splits if_splits)

text \<open>The \<open>do\<close> loop of \<open>parse_base128_integer\<close>; \<open>v\<close> is the local accumulator.\<close>

function base128_loop :: "CBS \<Rightarrow> u64 \<Rightarrow> (u64, CBS) outcome" where
  "base128_loop cbs v =
     obind (CBS_get_u8 cbs) (\<lambda>b cbs'.
       if drop_bit (64 - 7) v \<noteq> 0 then Fail cbs'
       else if v = 0 \<and> b = 0x80 then Fail cbs'
       else (let v' = push_bit 7 v OR ucast (b AND 0x7F) in
             if b AND 0x80 \<noteq> 0 then base128_loop cbs' v' else Ok v' cbs'))"
  by pat_completeness auto
termination
  by (relation "measure (\<lambda>(cbs, v). unat (cbs_len cbs))") (auto dest: CBS_get_u8_shrinks)

declare base128_loop.simps [simp del]

definition parse_base128_integer :: "CBS \<Rightarrow> (u64, CBS) outcome" where
  "parse_base128_integer cbs = base128_loop cbs 0"

definition parse_asn1_tag :: "CBS \<Rightarrow> (u32, CBS) outcome" where
  "parse_asn1_tag cbs =
     obind (CBS_get_u8 cbs) (\<lambda>tag_byte cbs1.
       let tag = push_bit CBS_ASN1_TAG_SHIFT (ucast tag_byte AND 0xE0);
           tag_number = ucast (tag_byte AND 0x1F)
       in if tag_number = 0x1F
          then obind (parse_base128_integer cbs1) (\<lambda>v cbs2.
                 if v > ucast CBS_ASN1_TAG_NUMBER_MASK \<or> v < 0x1F then Fail cbs2
                 else Ok (tag OR ucast v) cbs2)
          else Ok (tag OR tag_number) cbs1)"

section \<open>ASN.1 elements\<close>

text \<open>\<open>cbs_get_any_asn1_element\<close> parses the header on a copy, so that every failure leaves \<open>cbs\<close> alone.  It
  stores the element, its tag, the length of its header and whether a BER-only form was seen.\<close>

definition cbs_get_any_asn1_element :: "CBS \<Rightarrow> bool \<Rightarrow> (CBS \<times> u32 \<times> size_t \<times> bool, CBS) outcome" where
  "cbs_get_any_asn1_element cbs ber_ok =
     obind_local (parse_asn1_tag cbs) cbs (\<lambda>tag header1.
     obind_local (CBS_get_u8 header1) cbs (\<lambda>length_byte header2.
       let header_len = CBS_len cbs - CBS_len header2 in
       if length_byte AND 0x80 = 0
       then obind (CBS_get_bytes cbs (ucast length_byte + header_len)) (\<lambda>out cbs'.
              Ok (out, tag, header_len, False) cbs')
       else let num_bytes = (ucast (length_byte AND 0x7F) :: size_t) in
         if ber_ok \<and> tag AND CBS_ASN1_CONSTRUCTED \<noteq> 0 \<and> num_bytes = 0
         then obind (CBS_get_bytes cbs header_len) (\<lambda>out cbs'. Ok (out, tag, header_len, True) cbs')
         else if num_bytes = 0 \<or> num_bytes > 4 then Fail cbs
         else obind_local (cbs_get_u header2 num_bytes) cbs (\<lambda>len64 header3.
           if len64 < 128 \<and> \<not> ber_ok then Fail cbs
           else if drop_bit (unat ((num_bytes - 1) * 8)) len64 = 0 \<and> \<not> ber_ok then Fail cbs
           else let ber_found = (len64 < 128 \<or> drop_bit (unat ((num_bytes - 1) * 8)) len64 = 0) in
             if len64 + header_len + num_bytes < len64 then Fail cbs
             else obind (CBS_get_bytes cbs (len64 + (header_len + num_bytes))) (\<lambda>out cbs'.
                    Ok (out, tag, header_len + num_bytes, ber_found) cbs'))))"

definition CBS_get_any_asn1_element :: "CBS \<Rightarrow> (CBS \<times> u32 \<times> size_t, CBS) outcome" where
  "CBS_get_any_asn1_element cbs =
     obind (cbs_get_any_asn1_element cbs False) (\<lambda>(out, tag, header_len, _) cbs'.
       Ok (out, tag, header_len) cbs')"

definition CBS_get_any_ber_asn1_element :: "CBS \<Rightarrow> (CBS \<times> u32 \<times> size_t \<times> bool, CBS) outcome" where
  "CBS_get_any_ber_asn1_element cbs = cbs_get_any_asn1_element cbs True"

text \<open>An element is never shorter than its header: the two functions below assert that they can skip it.\<close>

definition CBS_get_any_asn1 :: "CBS \<Rightarrow> (CBS \<times> u32, CBS) outcome" where
  "CBS_get_any_asn1 cbs =
     obind (CBS_get_any_asn1_element cbs) (\<lambda>(out, tag, header_len) cbs'.
       (case CBS_skip out header_len of
          Ok _ out' \<Rightarrow> Ok (out', tag) cbs'
        | _ \<Rightarrow> Fault))"

definition cbs_get_asn1 :: "CBS \<Rightarrow> u32 \<Rightarrow> bool \<Rightarrow> (CBS, CBS) outcome" where
  "cbs_get_asn1 cbs tag_value skip_header =
     obind (CBS_get_any_asn1_element cbs) (\<lambda>(out, tag, header_len) cbs'.
       if tag \<noteq> tag_value then Fail cbs'
       else if skip_header then
         (case CBS_skip out header_len of
            Ok _ out' \<Rightarrow> Ok out' cbs'
          | _ \<Rightarrow> Fault)
       else Ok out cbs')"

definition CBS_get_asn1 :: "CBS \<Rightarrow> u32 \<Rightarrow> (CBS, CBS) outcome" where
  "CBS_get_asn1 cbs tag_value = cbs_get_asn1 cbs tag_value True"

definition CBS_get_asn1_element :: "CBS \<Rightarrow> u32 \<Rightarrow> (CBS, CBS) outcome" where
  "CBS_get_asn1_element cbs tag_value = cbs_get_asn1 cbs tag_value False"

definition CBS_peek_asn1_tag :: "CBS \<Rightarrow> u32 \<Rightarrow> (bool, CBS) outcome" where
  "CBS_peek_asn1_tag cbs tag_value =
     (if CBS_len cbs < 1 then Ok False cbs
      else (case parse_asn1_tag cbs of
              Fault \<Rightarrow> Fault
            | Fail _ \<Rightarrow> Ok False cbs
            | Ok actual_tag _ \<Rightarrow> Ok (tag_value = actual_tag) cbs))"

section \<open>ASN.1 values\<close>

text \<open>Predicates on a \<open>const CBS *\<close>: \<open>Ok\<close> when they return 1, \<open>Fail\<close> when they return 0.\<close>

definition CBS_is_valid_asn1_integer :: "CBS \<Rightarrow> (bool, CBS) outcome" where
  "CBS_is_valid_asn1_integer cbs =
     obind_local (CBS_get_u8 cbs) cbs (\<lambda>first_byte copy.
       let is_negative = (first_byte AND 0x80 \<noteq> 0) in
       (case CBS_get_u8 copy of
          Fault \<Rightarrow> Fault
        | Fail _ \<Rightarrow> Ok is_negative cbs
        | Ok second_byte _ \<Rightarrow>
            if (first_byte = 0x00 \<and> second_byte AND 0x80 = 0) \<or>
               (first_byte = 0xFF \<and> second_byte AND 0x80 \<noteq> 0)
            then Fail cbs
            else Ok is_negative cbs))"

definition CBS_is_unsigned_asn1_integer :: "CBS \<Rightarrow> (unit, CBS) outcome" where
  "CBS_is_unsigned_asn1_integer cbs =
     obind (CBS_is_valid_asn1_integer cbs) (\<lambda>is_negative cbs'.
       if is_negative then Fail cbs' else Ok () cbs')"

text \<open>The loop of \<open>CBS_get_asn1_uint64\<close>: outer \<open>None\<close> is a read outside the object, inner \<open>None\<close> is a value
  that does not fit.\<close>

fun asn1_uint64_loop :: "byte list \<Rightarrow> nat \<Rightarrow> u64 \<Rightarrow> u64 option option" where
  "asn1_uint64_loop data 0 out = Some (Some out)"
| "asn1_uint64_loop data (Suc n) out =
     (if drop_bit 56 out \<noteq> 0 then Some None
      else (case data of
              [] \<Rightarrow> None
            | b # data' \<Rightarrow> asn1_uint64_loop data' n (push_bit 8 out OR ucast b)))"

definition CBS_get_asn1_uint64 :: "CBS \<Rightarrow> (u64, CBS) outcome" where
  "CBS_get_asn1_uint64 cbs =
     obind (CBS_get_asn1 cbs CBS_ASN1_INTEGER) (\<lambda>bytes cbs'.
     obind_local (CBS_is_unsigned_asn1_integer bytes) cbs' (\<lambda>_ _.
       (case asn1_uint64_loop (CBS_data bytes) (unat (CBS_len bytes)) 0 of
          None \<Rightarrow> Fault
        | Some None \<Rightarrow> Fail cbs'
        | Some (Some out) \<Rightarrow> Ok out cbs')))"

text \<open>\<open>CBS_get_asn1_int64\<close> fills the union's eight bytes with the sign and overwrites the low ones with the
  reversed contents; the union read as \<open>int64_t\<close> on a little-endian machine.\<close>

definition CBS_get_asn1_int64 :: "CBS \<Rightarrow> (u64, CBS) outcome" where
  "CBS_get_asn1_int64 cbs =
     obind (CBS_get_asn1 cbs CBS_ASN1_INTEGER) (\<lambda>bytes cbs'.
     obind_local (CBS_is_valid_asn1_integer bytes) cbs' (\<lambda>is_negative _.
       if CBS_len bytes > 8 then Fail cbs'
       else (case mem_range (CBS_data bytes) (unat (CBS_len bytes)) of
               None \<Rightarrow> Fault
             | Some data \<Rightarrow>
                 let u_bytes = rev data @ drop (length data) (replicate 8 (if is_negative then 0xFF else 0))
                 in Ok (of_nat (le_nat u_bytes)) cbs')))"

definition CBS_get_asn1_bool :: "CBS \<Rightarrow> (bool, CBS) outcome" where
  "CBS_get_asn1_bool cbs =
     obind (CBS_get_asn1 cbs CBS_ASN1_BOOLEAN) (\<lambda>bytes cbs'.
       if CBS_len bytes \<noteq> 1 then Fail cbs'
       else (case mem_at (CBS_data bytes) 0 of
               None \<Rightarrow> Fault
             | Some v \<Rightarrow> if v \<noteq> 0 \<and> v \<noteq> 0xFF then Fail cbs' else Ok (v \<noteq> 0) cbs'))"

text \<open>\<open>CBS_get_optional_asn1\<close>: \<open>None\<close> when the element is absent, the contents when it is present.\<close>

definition CBS_get_optional_asn1 :: "CBS \<Rightarrow> u32 \<Rightarrow> (CBS option, CBS) outcome" where
  "CBS_get_optional_asn1 cbs tag =
     obind (CBS_peek_asn1_tag cbs tag) (\<lambda>peek cbs1.
       if peek then obind (CBS_get_asn1 cbs1 tag) (\<lambda>out cbs2. Ok (Some out) cbs2)
       else Ok None cbs1)"

definition CBS_get_optional_asn1_octet_string :: "CBS \<Rightarrow> u32 \<Rightarrow> (CBS \<times> bool, CBS) outcome" where
  "CBS_get_optional_asn1_octet_string cbs tag =
     obind (CBS_get_optional_asn1 cbs tag) (\<lambda>present cbs'.
       (case present of
          None \<Rightarrow> Ok (CBS_init [] 0, False) cbs'
        | Some child \<Rightarrow>
            obind_local (CBS_get_asn1 child CBS_ASN1_OCTETSTRING) cbs' (\<lambda>out child'.
              if CBS_len child' \<noteq> 0 then Fail cbs' else Ok (out, True) cbs')))"

definition CBS_get_optional_asn1_uint64 :: "CBS \<Rightarrow> u32 \<Rightarrow> u64 \<Rightarrow> (u64, CBS) outcome" where
  "CBS_get_optional_asn1_uint64 cbs tag default_value =
     obind (CBS_get_optional_asn1 cbs tag) (\<lambda>present cbs'.
       (case present of
          None \<Rightarrow> Ok default_value cbs'
        | Some child \<Rightarrow>
            obind_local (CBS_get_asn1_uint64 child) cbs' (\<lambda>out child'.
              if CBS_len child' \<noteq> 0 then Fail cbs' else Ok out cbs')))"

definition CBS_get_optional_asn1_bool :: "CBS \<Rightarrow> u32 \<Rightarrow> bool \<Rightarrow> (bool, CBS) outcome" where
  "CBS_get_optional_asn1_bool cbs tag default_value =
     obind (CBS_get_optional_asn1 cbs tag) (\<lambda>present cbs'.
       (case present of
          None \<Rightarrow> Ok default_value cbs'
        | Some child \<Rightarrow>
            obind_local (CBS_get_asn1 child CBS_ASN1_BOOLEAN) cbs' (\<lambda>child2 child'.
              if CBS_len child2 \<noteq> 1 \<or> CBS_len child' \<noteq> 0 then Fail cbs'
              else (case mem_at (CBS_data child2) 0 of
                      None \<Rightarrow> Fault
                    | Some boolean \<Rightarrow>
                        if boolean = 0 then Ok False cbs'
                        else if boolean = 0xFF then Ok True cbs'
                        else Fail cbs'))))"

definition CBS_is_valid_asn1_bitstring :: "CBS \<Rightarrow> (unit, CBS) outcome" where
  "CBS_is_valid_asn1_bitstring cbs =
     obind_local (CBS_get_u8 cbs) cbs (\<lambda>num_unused_bits in1.
       if num_unused_bits > 7 then Fail cbs
       else if num_unused_bits = 0 then Ok () cbs
       else obind_local (CBS_get_last_u8 in1) cbs (\<lambda>last _.
              if last AND (push_bit (unat num_unused_bits) 1 - 1) \<noteq> 0 then Fail cbs else Ok () cbs))"

definition CBS_asn1_bitstring_has_bit :: "CBS \<Rightarrow> u32 \<Rightarrow> (bool, CBS) outcome" where
  "CBS_asn1_bitstring_has_bit cbs k =
     (case CBS_is_valid_asn1_bitstring cbs of
        Fault \<Rightarrow> Fault
      | Fail _ \<Rightarrow> Ok False cbs
      | Ok _ _ \<Rightarrow>
          let byte_num = drop_bit 3 k + 1; bit_num = 7 - (k AND 7) in
          if ucast byte_num < CBS_len cbs
          then (case mem_at (CBS_data cbs) (unat byte_num) of
                  None \<Rightarrow> Fault
                | Some b \<Rightarrow> Ok (b AND push_bit (unat bit_num) 1 \<noteq> 0) cbs)
          else Ok False cbs)"

end
