(* ===== verification/Der.thy ===== *)
theory Der
  imports Prelude
begin

text \<open>
  The distinguished encoding rules as a specification, independent of the code: base-128 integers, identifier
  octets, length octets and elements (ITU-T X.690, sections 8.1 and 10.1).  \<open>der_element\<close> is what the reader
  \<open>CBS\<close> accepts and what the builder \<open>CBB\<close> produces.  Tags are the 32-bit tags of
  \<^verbatim>\<open>bytestring.h\<close>: class and constructed bit in the top three bits, the number in the other 29.
\<close>

section \<open>Base-128 integers\<close>

text \<open>\<open>base128_hi n\<close> are the groups of \<open>n\<close>, most significant first, each with the continuation bit.\<close>

fun base128_hi :: "nat \<Rightarrow> byte list" where
  "base128_hi n = (if n = 0 then [] else base128_hi (n div 128) @ [of_nat (n mod 128 + 128)])"

declare base128_hi.simps [simp del]

definition base128_enc :: "nat \<Rightarrow> byte list" where
  "base128_enc n = base128_hi (n div 128) @ [of_nat (n mod 128)]"

lemma base128_hi_0 [simp]: "base128_hi 0 = []"
  by (simp add: base128_hi.simps)

lemma base128_hi_step:
  "d < 128 \<Longrightarrow> v \<noteq> 0 \<or> d \<noteq> 0 \<Longrightarrow> base128_hi (128 * v + d) = base128_hi v @ [of_nat (d + 128)]"
  by (subst base128_hi.simps) auto

lemma base128_enc_step: "d < 128 \<Longrightarrow> base128_enc (128 * v + d) = base128_hi v @ [of_nat d]"
  by (simp add: base128_enc_def)

lemma base128_enc_not_Nil [simp]: "base128_enc n \<noteq> []"
  by (simp add: base128_enc_def)

lemma length_base128_hi: "n < 128 ^ k \<Longrightarrow> length (base128_hi n) \<le> k"
proof (induction k arbitrary: n)
  case (Suc k)
  then have "n div 128 < 128 ^ k" by (simp add: less_mult_imp_div_less mult.commute)
  with Suc.IH show ?case by (subst base128_hi.simps) auto
qed simp

lemma length_base128_enc: "n < 128 ^ k \<Longrightarrow> 0 < k \<Longrightarrow> length (base128_enc n) \<le> k"
  using length_base128_hi [of "n div 128" "k - 1"]
  by (cases k) (auto simp: base128_enc_def less_mult_imp_div_less mult.commute)

section \<open>Identifier and length octets\<close>

definition tag_class :: "u32 \<Rightarrow> nat" where
  "tag_class tag = unat tag div 2 ^ 29"

definition tag_number :: "u32 \<Rightarrow> nat" where
  "tag_number tag = unat tag mod 2 ^ 29"

definition der_tag :: "u32 \<Rightarrow> byte list" where
  "der_tag tag =
     (if tag_number tag < 31 then [of_nat (32 * tag_class tag + tag_number tag)]
      else of_nat (32 * tag_class tag + 31) # base128_enc (tag_number tag))"

fun nbytes :: "nat \<Rightarrow> nat" where
  "nbytes n = (if n < 256 then 1 else Suc (nbytes (n div 256)))"

declare nbytes.simps [simp del]

definition der_len :: "nat \<Rightarrow> byte list" where
  "der_len n = (if n < 128 then [of_nat n] else of_nat (128 + nbytes n) # be_bytes (nbytes n) n)"

definition der_header :: "u32 \<Rightarrow> nat \<Rightarrow> byte list" where
  "der_header tag n = der_tag tag @ der_len n"

definition der_element :: "u32 \<Rightarrow> byte list \<Rightarrow> byte list" where
  "der_element tag contents = der_header tag (length contents) @ contents"

lemma nbytes_pos [simp]: "0 < nbytes n"
  by (subst nbytes.simps) simp

lemma nbytes_upper: "n < 256 ^ nbytes n"
proof (induction n rule: nbytes.induct)
  case (1 n)
  show ?case
  proof (cases "n < 256")
    case False
    with 1 have "n div 256 < 256 ^ nbytes (n div 256)" by simp
    then have "n < 256 * 256 ^ nbytes (n div 256)" by linarith
    with False show ?thesis by (subst nbytes.simps) simp
  qed (subst nbytes.simps, simp)
qed

lemma nbytes_unique: "256 ^ k \<le> n \<Longrightarrow> n < 256 ^ Suc k \<Longrightarrow> nbytes n = Suc k"
proof (induction k arbitrary: n)
  case 0
  then show ?case by (subst nbytes.simps) simp
next
  case (Suc k)
  have "256 * 256 ^ k \<le> n" "n < 256 * (256 ^ Suc k)" using Suc.prems by simp_all
  then have "256 ^ k \<le> n div 256" "n div 256 < 256 ^ Suc k"
    by (metis div_le_mono nonzero_mult_div_cancel_left zero_neq_numeral)
       (metis \<open>n < 256 * (256 ^ Suc k)\<close> less_mult_imp_div_less mult.commute)
  moreover have "256 \<le> n" using \<open>256 * 256 ^ k \<le> n\<close> le_trans [of 256 "256 * 256 ^ k" n] by simp
  ultimately show ?case using Suc.IH by (subst nbytes.simps) simp
qed

lemma nbytes_lower: "1 \<le> n \<Longrightarrow> 256 ^ (nbytes n - 1) \<le> n"
proof (induction n rule: nbytes.induct)
  case (1 n)
  show ?case
  proof (cases "n < 256")
    case False
    with 1 have "256 ^ (nbytes (n div 256) - 1) \<le> n div 256" by simp
    then have "256 * 256 ^ (nbytes (n div 256) - 1) \<le> n" by linarith
    moreover have "nbytes n = Suc (nbytes (n div 256))" using False by (subst nbytes.simps) simp
    ultimately show ?thesis by (simp flip: power_Suc)
  qed (subst nbytes.simps, use 1 in simp)
qed

lemma nbytes_le: "n < 256 ^ k \<Longrightarrow> 1 \<le> k \<Longrightarrow> nbytes n \<le> k"
proof (rule ccontr)
  assume "n < 256 ^ k" "1 \<le> k" "\<not> nbytes n \<le> k"
  then have "k \<le> nbytes n - 1" by simp
  then have "(256::nat) ^ k \<le> 256 ^ (nbytes n - 1)" by (intro power_increasing) simp_all
  moreover have "1 \<le> n" using \<open>\<not> nbytes n \<le> k\<close> \<open>1 \<le> k\<close> by (subst (asm) nbytes.simps) (auto split: if_splits)
  ultimately show False using \<open>n < 256 ^ k\<close> nbytes_lower [of n] by linarith
qed

lemma length_der_len: "n < 2 ^ 32 \<Longrightarrow> length (der_len n) \<le> 5"
  using nbytes_le [of n 4] by (simp add: der_len_def)

lemma tag_number_less: "tag_number tag < 2 ^ 29"
  by (simp add: tag_number_def)

lemma tag_class_less: "tag_class tag < 8"
  using unat_lt_2p [of tag] by (simp add: tag_class_def less_mult_imp_div_less)

lemma length_der_tag: "length (der_tag tag) \<le> 6"
  using tag_number_less [of tag] length_base128_enc [of "tag_number tag" 5] by (simp add: der_tag_def)

lemma der_tag_not_Nil [simp]: "der_tag tag \<noteq> []"
  by (simp add: der_tag_def)

lemma length_der_header: "n < 2 ^ 32 \<Longrightarrow> length (der_header tag n) \<le> 11"
  using length_der_len [of n] length_der_tag [of tag] by (simp add: der_header_def)

lemma length_der_element: "length (der_element tag bs) = length (der_header tag (length bs)) + length bs"
  by (simp add: der_element_def)

section \<open>Integers in two's complement\<close>

text \<open>\<open>int_bytes i\<close> is the shortest two's complement form of \<open>i\<close>, most significant byte first: the contents of
  a DER \<open>INTEGER\<close>.  \<open>int_val\<close> reads such a string, minimal or not.\<close>

function int_bytes :: "int \<Rightarrow> byte list" where
  "int_bytes i = (if - 128 \<le> i \<and> i < 128 then [of_int i] else int_bytes (i div 256) @ [of_int i])"
  by pat_completeness auto
termination
  by (relation "measure (\<lambda>i. nat \<bar>i\<bar>)") auto

declare int_bytes.simps [simp del]

definition int_val :: "byte list \<Rightarrow> int" where
  "int_val bs = int (be_nat bs) - (if bs \<noteq> [] \<and> 128 \<le> unat (hd bs) then 256 ^ length bs else 0)"

text \<open>The first nine bits of the contents are not all equal.\<close>

fun int_minimal :: "byte list \<Rightarrow> bool" where
  "int_minimal [] = False"
| "int_minimal [_] = True"
| "int_minimal (a # b # _) = (\<not> (a = 0 \<and> unat b < 128 \<or> a = 0xFF \<and> 128 \<le> unat b))"

lemma int_bytes_not_Nil [simp]: "int_bytes i \<noteq> []"
  by (subst int_bytes.simps) simp

lemma int_val_snoc: "bs \<noteq> [] \<Longrightarrow> int_val (bs @ [b]) = 256 * int_val bs + int (unat b)"
  by (simp add: int_val_def be_nat_snoc)

lemma byte_unat_less: "unat (b :: byte) < 256"
  using unat_lt_2p [of b] by simp

lemma byte_of_int_sum: "(of_int (256 * i + int (unat (b :: byte))) :: byte) = b"
proof -
  have "(256 :: byte) = 0" by simp
  then show ?thesis by (simp only: of_int_add of_int_mult of_int_numeral) simp
qed

declare of_nat_unat [simp del]

lemma int_val_single: "- 128 \<le> int_val [b] \<and> int_val [b] < 128 \<and> of_int (int_val [b]) = b"
proof -
  have "be_nat [b] = unat b" using be_nat_snoc [of "[]" b] by simp
  moreover have "(of_int (int (unat b)) :: byte) = b" "(of_int (int (unat b) - 256) :: byte) = b"
    using byte_of_int_sum [of 0 b] byte_of_int_sum [of "- 1" b] by (simp_all add: algebra_simps)
  ultimately show ?thesis using byte_unat_less [of b] by (simp add: int_val_def)
qed

lemma int_minimal_snoc: "length bs \<ge> 2 \<Longrightarrow> int_minimal (bs @ [b]) = int_minimal bs"
  by (cases bs rule: int_minimal.cases) auto

lemma byte_0_255: "(a :: byte) = 0 \<longleftrightarrow> unat a = 0" "a = 0xFF \<longleftrightarrow> unat a = 255"
  by (simp_all add: word_unat_eq_iff)

lemma int_minimal_pair: "int_minimal [a, b] \<longleftrightarrow> \<not> (- 128 \<le> int_val [a, b] \<and> int_val [a, b] < 128)"
proof -
  have "be_nat [a, b] = 256 * unat a + unat b"
    using be_nat_snoc [of "[]" a] be_nat_snoc [of "[a]" b] by simp
  then show ?thesis
    using byte_unat_less [of a] byte_unat_less [of b] by (auto simp: int_val_def byte_0_255)
qed

lemma int_minimal_range:
  "int_minimal bs \<Longrightarrow> 2 \<le> length bs \<Longrightarrow> \<not> (- 128 \<le> int_val bs \<and> int_val bs < 128)"
proof (induction bs rule: rev_induct)
  case (snoc b bs)
  have b: "unat b < 256" by (rule byte_unat_less)
  show ?case
  proof (cases "2 \<le> length bs")
    case True
    then have "int_minimal bs" and "bs \<noteq> []" using snoc.prems int_minimal_snoc [of bs b] by auto
    then have "\<not> (- 128 \<le> int_val bs \<and> int_val bs < 128)" using snoc.IH True by blast
    then show ?thesis using b \<open>bs \<noteq> []\<close> by (simp add: int_val_snoc) linarith
  next
    case False
    then obtain a where "bs = [a]" using snoc.prems by (cases bs) (auto simp: Suc_le_eq)
    then show ?thesis using snoc.prems int_minimal_pair [of a b] by simp
  qed
qed simp

lemma int_bytes_step:
  assumes "\<not> (- 128 \<le> 256 * i + int (unat (b :: byte)) \<and> 256 * i + int (unat b) < 128)"
  shows "int_bytes (256 * i + int (unat b)) = int_bytes i @ [b]"
proof -
  have "(256 * i + int (unat b)) div 256 = i" using byte_unat_less [of b] by simp
  then show ?thesis using assms byte_of_int_sum [of i b] by (subst int_bytes.simps) (simp only: if_False simp_thms)
qed

lemma int_bytes_val: "int_minimal bs \<Longrightarrow> int_bytes (int_val bs) = bs"
proof (induction bs rule: rev_induct)
  case (snoc b bs)
  show ?case
  proof (cases "bs = []")
    case True
    then show ?thesis using int_val_single [of b] by (subst int_bytes.simps) simp
  next
    case False
    then have "1 \<le> length bs" by (simp add: Suc_le_eq)
    then have "int_minimal bs"
      using snoc.prems int_minimal_snoc [of bs b] by (cases bs rule: int_minimal.cases) auto
    then have "int_bytes (int_val bs) = bs" by (rule snoc.IH)
    moreover have "\<not> (- 128 \<le> int_val (bs @ [b]) \<and> int_val (bs @ [b]) < 128)"
      using snoc.prems \<open>1 \<le> length bs\<close> by (intro int_minimal_range) auto
    ultimately show ?thesis using int_bytes_step [of "int_val bs" b] False by (simp add: int_val_snoc)
  qed
qed simp

lemma byte_of_int: "int (unat (of_int i :: byte)) = i mod 256"
  by (simp add: unsigned_of_int take_bit_eq_mod)

lemma int_val_bytes: "int_val (int_bytes i) = i"
proof (induction i rule: int_bytes.induct)
  case (1 i)
  show ?case
  proof (cases "- 128 \<le> i \<and> i < 128")
    case True
    define b where "b = (of_int i :: byte)"
    have "int_bytes i = [b]" using True by (subst int_bytes.simps) (simp add: b_def)
    moreover have "be_nat [b] = unat b" using be_nat_snoc [of "[]" b] by simp
    moreover have "int (unat b) = i mod 256" unfolding b_def by (rule byte_of_int)
    moreover have "i mod 256 = (if 0 \<le> i then i else i + 256)"
      using True mod_pos_pos_trivial [of "i + 256" 256] by auto
    ultimately show ?thesis using True by (simp add: int_val_def split: if_splits)
  next
    case False
    then have "int_bytes i = int_bytes (i div 256) @ [of_int i]" by (subst int_bytes.simps) auto
    then have "int_val (int_bytes i) = 256 * (i div 256) + i mod 256"
      using 1 [OF False] by (simp add: int_val_snoc byte_of_int)
    then show ?thesis by simp
  qed
qed

lemma int_minimal_bytes: "int_minimal (int_bytes i)"
proof (induction i rule: int_bytes.induct)
  case (1 i)
  show ?case
  proof (cases "- 128 \<le> i \<and> i < 128")
    case True
    then show ?thesis by (subst int_bytes.simps) simp
  next
    case False
    then have e: "int_bytes i = int_bytes (i div 256) @ [of_int i]" by (subst int_bytes.simps) auto
    show ?thesis
    proof (cases "2 \<le> length (int_bytes (i div 256))")
      case True
      then show ?thesis using 1 [OF False] by (simp add: e int_minimal_snoc)
    next
      case F: False
      then obtain a where "int_bytes (i div 256) = [a]"
        by (cases "int_bytes (i div 256)") (auto simp: Suc_le_eq)
      then show ?thesis using int_minimal_pair [of a "of_int i"] int_val_bytes [of i] False by (simp add: e)
    qed
  qed
qed

lemma int_minimal_iff: "int_minimal bs \<longleftrightarrow> bs = int_bytes (int_val bs)"
  using int_bytes_val [of bs] int_minimal_bytes [of "int_val bs"] by metis

lemma int_val_bound:
  assumes "bs \<noteq> []"
  shows "- (128 * 256 ^ (length bs - 1)) \<le> int_val bs" "int_val bs < 128 * 256 ^ (length bs - 1)"
proof -
  obtain a cs where bs: "bs = a # cs" using assms by (cases bs) auto
  have "be_nat cs < 256 ^ length cs" by (rule be_nat_bound)
  then have *: "int (be_nat cs) < 256 ^ length cs" using of_nat_less_iff [of "be_nat cs" "256 ^ length cs", where 'a = int] by simp
  have a: "unat a < 256" by (rule byte_unat_less)
  have v: "int_val bs = (int (unat a) - (if 128 \<le> unat a then 256 else 0)) * 256 ^ length cs + int (be_nat cs)"
    by (simp add: bs int_val_def be_nat_Cons algebra_simps)
  define x where "x = int (unat a) - (if 128 \<le> unat a then 256 else 0)"
  have x: "- 128 \<le> x" "x \<le> 127" using a by (auto simp: x_def)
  have l: "length bs - 1 = length cs" by (simp add: bs)
  have "- 128 * 256 ^ length cs \<le> x * 256 ^ length cs" "x * 256 ^ length cs \<le> 127 * 256 ^ length cs"
    using x by (intro mult_right_mono; simp)+
  then show "- (128 * 256 ^ (length bs - 1)) \<le> int_val bs" "int_val bs < 128 * 256 ^ (length bs - 1)"
    using * unfolding v x_def [symmetric] l by linarith+
qed

lemma int_bytes_length:
  "- (128 * 256 ^ k) \<le> i \<Longrightarrow> i < 128 * 256 ^ k \<Longrightarrow> length (int_bytes i) \<le> Suc k"
proof (induction k arbitrary: i)
  case 0
  then show ?case by (subst int_bytes.simps) simp
next
  case (Suc k)
  have "- (128 * 256 ^ k) \<le> i div 256" "i div 256 < 128 * 256 ^ k" using Suc.prems by simp_all
  then have "length (int_bytes (i div 256)) \<le> Suc k" by (rule Suc.IH)
  then show ?case by (subst int_bytes.simps) simp
qed

declare of_nat_unat [simp]

end
