(* ===== verification/CbsParse.thy ===== *)
theory CbsParse
  imports Cbs Der
begin

text \<open>
  The reader \<open>CBS\<close> against its specification.  A reader in a good state (\<open>cbs_ok\<close>) stands for the bytes
  \<open>cbs_bytes\<close>; taking from it never leaves the object, and the ASN.1 functions accept exactly the encodings of
  \<open>der_element\<close>.
\<close>

unbundle bit_operations_syntax

section \<open>The abstraction\<close>

definition cbs_ok :: "CBS \<Rightarrow> bool" where
  "cbs_ok cbs \<longleftrightarrow> unat (cbs_len cbs) \<le> length (cbs_data cbs)"

definition cbs_bytes :: "CBS \<Rightarrow> byte list" where
  "cbs_bytes cbs = take (unat (cbs_len cbs)) (cbs_data cbs)"

definition cbs_drop :: "CBS \<Rightarrow> nat \<Rightarrow> CBS" where
  "cbs_drop cbs n = cbs\<lparr>cbs_data := drop n (cbs_data cbs), cbs_len := cbs_len cbs - of_nat n\<rparr>"

text \<open>The reader over the first \<open>n\<close> bytes of another one.\<close>

definition cbs_take :: "CBS \<Rightarrow> nat \<Rightarrow> CBS" where
  "cbs_take cbs n = CBS_init (cbs_data cbs) (of_nat n)"

named_theorems cbs_simps \<open>evaluating the reader on its bytes\<close>

lemma length_cbs_bytes [simp]: "cbs_ok cbs \<Longrightarrow> length (cbs_bytes cbs) = unat (cbs_len cbs)"
  by (simp add: cbs_ok_def cbs_bytes_def)

lemma cbs_bytes_less [simp]: "length (cbs_bytes cbs) < 2 ^ 64"
  using unat_lt_2p [of "cbs_len cbs"] by (simp add: cbs_bytes_def min_less_iff_disj)

lemma len_minus:
  "n \<le> unat (l :: size_t) \<Longrightarrow> unat (l - of_nat n) = unat l - n"
  using unat_lt_2p [of l] by (simp add: unat_sub_le word_le_nat_alt unat_of_nat_less)

lemma cbs_ok_drop [simp]: "cbs_ok cbs \<Longrightarrow> n \<le> length (cbs_bytes cbs) \<Longrightarrow> cbs_ok (cbs_drop cbs n)"
  by (simp add: len_minus cbs_ok_def cbs_drop_def cbs_bytes_def)

lemma cbs_bytes_drop [simp]:
  "cbs_ok cbs \<Longrightarrow> n \<le> length (cbs_bytes cbs) \<Longrightarrow> cbs_bytes (cbs_drop cbs n) = drop n (cbs_bytes cbs)"
  by (simp add: len_minus cbs_ok_def cbs_drop_def cbs_bytes_def drop_take)

lemma cbs_drop_drop [simp]: "cbs_drop (cbs_drop cbs m) n = cbs_drop cbs (m + n)"
  by (simp add: cbs_drop_def algebra_simps)

lemma cbs_drop_0 [simp]: "cbs_drop cbs 0 = cbs"
  by (simp add: cbs_drop_def)

lemma cbs_ok_take [simp]: "cbs_ok cbs \<Longrightarrow> n \<le> length (cbs_bytes cbs) \<Longrightarrow> cbs_ok (cbs_take cbs n)"
  using unat_lt_2p [of "cbs_len cbs"]
  by (simp add: cbs_take_def CBS_init_def cbs_ok_def cbs_bytes_def unat_of_nat_less)

lemma cbs_bytes_take [simp]:
  "cbs_ok cbs \<Longrightarrow> n \<le> length (cbs_bytes cbs) \<Longrightarrow> cbs_bytes (cbs_take cbs n) = take n (cbs_bytes cbs)"
  using unat_lt_2p [of "cbs_len cbs"]
  by (simp add: cbs_take_def CBS_init_def cbs_ok_def cbs_bytes_def unat_of_nat_less min.absorb1)

section \<open>Taking bytes\<close>

lemma cbs_get_eq:
  "cbs_ok cbs \<Longrightarrow>
   cbs_get cbs n =
     (if length (cbs_bytes cbs) < unat n then Fail cbs else Ok (cbs_data cbs) (cbs_drop cbs (unat n)))"
  by (simp add: cbs_get_def cbs_drop_def word_less_nat_alt)

lemma CBS_skip_eq [cbs_simps]:
  "cbs_ok cbs \<Longrightarrow>
   CBS_skip cbs n = (if length (cbs_bytes cbs) < unat n then Fail cbs else Ok () (cbs_drop cbs (unat n)))"
  by (simp add: CBS_skip_def cbs_get_eq)

lemma CBS_get_bytes_eq [cbs_simps]:
  "cbs_ok cbs \<Longrightarrow>
   CBS_get_bytes cbs n =
     (if length (cbs_bytes cbs) < unat n then Fail cbs
      else Ok (cbs_take cbs (unat n)) (cbs_drop cbs (unat n)))"
  by (simp add: CBS_get_bytes_def cbs_get_eq cbs_take_def)

lemma CBS_get_u8_eq [cbs_simps]:
  "cbs_ok cbs \<Longrightarrow>
   CBS_get_u8 cbs = (case cbs_bytes cbs of [] \<Rightarrow> Fail cbs | b # _ \<Rightarrow> Ok b (cbs_drop cbs 1))"
  by (cases "cbs_data cbs"; cases "unat (cbs_len cbs)")
     (auto simp: CBS_get_u8_def cbs_get_def cbs_drop_def word_less_nat_alt cbs_bytes_def mem_at_def
        cbs_ok_def)

lemma mem_range_take [simp]: "cbs_ok cbs \<Longrightarrow> n \<le> length (cbs_bytes cbs) \<Longrightarrow>
   mem_range (cbs_data cbs) n = Some (take n (cbs_bytes cbs))"
  by (simp add: mem_range_def cbs_ok_def cbs_bytes_def min.absorb1)

lemma CBS_copy_bytes_eq [cbs_simps]:
  "cbs_ok cbs \<Longrightarrow>
   CBS_copy_bytes cbs n =
     (if length (cbs_bytes cbs) < unat n then Fail cbs
      else Ok (take (unat n) (cbs_bytes cbs)) (cbs_drop cbs (unat n)))"
  by (simp add: CBS_copy_bytes_def cbs_get_eq)

interpretation cbs: byte_source cbs_ok cbs_bytes cbs_drop "\<lambda>cbs n. CBS_copy_bytes cbs (of_nat n)"
proof unfold_locales
  fix s n assume "cbs_ok s" and "n \<le> length (cbs_bytes s)"
  then show "CBS_copy_bytes s (of_nat n) = Ok (take n (cbs_bytes s)) (cbs_drop s n)"
    using unat_lt_2p [of "cbs_len s"] by (simp add: CBS_copy_bytes_eq unat_of_nat_less)
qed (simp_all add: CBS_copy_bytes_eq unat_of_nat_less)

lemma cbs_get_u_eq [cbs_simps]:
  assumes "cbs_ok cbs" and "unat n \<le> 8"
  shows "cbs_get_u cbs n =
     (if length (cbs_bytes cbs) < unat n then Fail cbs
      else Ok (of_nat (be_nat (take (unat n) (cbs_bytes cbs)))) (cbs_drop cbs (unat n)))"
  using assms by (simp add: cbs_get_u_def cbs_get_eq fold_be_word)

section \<open>Base-128 integers\<close>

lemma push7_or:
  assumes "v < 2 ^ 57"
  shows "push_bit 7 (of_nat v :: u64) OR ucast ((b :: byte) AND 0x7F) = of_nat (128 * v + unat b mod 128)"
proof -
  have "push_bit 7 (of_nat v :: u64) OR ucast (b AND 0x7F) = of_nat (unat b mod 128) OR push_bit 7 (of_nat v)"
    by (simp only: or.commute ucast_eq_of_nat unat_and_0x7F)
  also have "\<dots> = of_nat (unat b mod 128 + 2 ^ 7 * v)"
    by (intro or_push_bit_of_nat) simp
  finally show ?thesis by (simp add: add.commute)
qed

lemma drop57: "v < 2 ^ 64 \<Longrightarrow> drop_bit 57 (of_nat v :: u64) = 0 \<longleftrightarrow> v < 2 ^ 57"
  by (simp add: word_unat_eq_iff unat_drop_bit unat_of_nat_less div_eq_0_iff)

lemma byte_split: "b = of_nat (if 128 \<le> unat b then unat b mod 128 + 128 else unat b mod 128)" for b :: byte
proof -
  have "unat b < 256" using unat_lt_2p [of b] by simp
  then have "(if 128 \<le> unat b then unat b mod 128 + 128 else unat b mod 128) = unat b" by (simp add: le_mod_geq)
  then show ?thesis by (simp add: word_unat_eq_iff unat_of_nat_byte)
qed

lemma base128_loop_step:
  assumes "cbs_ok s" and "v < 2 ^ 64"
  shows "base128_loop s (of_nat v) =
    (case cbs_bytes s of
       [] \<Rightarrow> Fail s
     | b # _ \<Rightarrow>
         if 2 ^ 57 \<le> v \<or> v = 0 \<and> b = 0x80 then Fail (cbs_drop s 1)
         else if 128 \<le> unat b then base128_loop (cbs_drop s 1) (of_nat (128 * v + unat b mod 128))
         else Ok (of_nat (128 * v + unat b mod 128)) (cbs_drop s 1))"
proof (cases "cbs_bytes s")
  case Nil
  then show ?thesis using assms by (subst base128_loop.simps) (simp add: CBS_get_u8_eq)
next
  case (Cons b bs)
  have z: "(of_nat v :: u64) = 0 \<longleftrightarrow> v = 0"
    using assms(2) by (simp add: word_unat_eq_iff unat_of_nat_less)
  show ?thesis
  proof (cases "v < 2 ^ 57")
    case True
    then show ?thesis
      using assms Cons drop57 [of v] push7_or [of v b] z and_0x80_iff [of b]
      by (subst base128_loop.simps) (simp add: CBS_get_u8_eq Let_def)
  next
    case False
    then show ?thesis
      using assms Cons drop57 [of v] by (subst base128_loop.simps) (simp add: CBS_get_u8_eq)
  qed
qed

lemma base128_loop_no_fault:
  assumes "cbs_ok s"
  shows "base128_loop s v \<noteq> Fault"
  using assms
proof (induction s v rule: base128_loop.induct)
  case (1 s v)
  then show ?case
    by (subst base128_loop.simps) (auto simp: CBS_get_u8_eq Let_def split: list.splits)
qed

lemma base128_loop_sound:
  assumes "cbs_ok s" and "v < 2 ^ 64" and "base128_loop s (of_nat v) = Ok r s'"
  shows "\<exists>bs rest. cbs_bytes s = bs @ rest \<and> base128_hi v @ bs = base128_enc (unat r) \<and>
           s' = cbs_drop s (length bs)"
  using assms
proof (induction "length (cbs_bytes s)" arbitrary: s v rule: less_induct)
  case less
  note step = base128_loop_step [OF less.prems(1,2)]
  obtain b cs where cs: "cbs_bytes s = b # cs"
    using less.prems(3) step by (cases "cbs_bytes s") auto
  let ?d = "unat b mod 128"
  have v: "v < 2 ^ 57" and nz: "\<not> (v = 0 \<and> b = 0x80)"
    using less.prems(3) cs unfolding step by (auto split: if_splits)
  have "?d < 128" by simp
  with v have v': "128 * v + ?d < 2 ^ 64" by simp
  show ?case
  proof (cases "128 \<le> unat b")
    case True
    have rec: "base128_loop (cbs_drop s 1) (of_nat (128 * v + ?d)) = Ok r s'"
      using less.prems(3) cs v nz True unfolding step by simp
    have b: "b = of_nat (?d + 128)" using True byte_split [of b] by simp
    have ok: "cbs_ok (cbs_drop s 1)" and cs': "cbs_bytes (cbs_drop s 1) = cs"
      using less.prems(1) cs by (simp_all add: del: length_cbs_bytes)
    have "\<exists>bs rest. cbs_bytes (cbs_drop s 1) = bs @ rest \<and>
        base128_hi (128 * v + ?d) @ bs = base128_enc (unat r) \<and>
        s' = cbs_drop (cbs_drop s 1) (length bs)"
      using less.hyps [OF _ ok v' rec] cs cs' by simp
    then obtain bs rest where "cs = bs @ rest" "base128_hi (128 * v + ?d) @ bs = base128_enc (unat r)"
      "s' = cbs_drop s (1 + length bs)" unfolding cs' by auto
    moreover have "base128_hi (128 * v + ?d) = base128_hi v @ [b]"
    proof -
      have "v \<noteq> 0 \<or> ?d \<noteq> 0" using nz b by auto
      then show ?thesis using base128_hi_step [of ?d v] b by simp
    qed
    ultimately show ?thesis using cs by (intro exI [of _ "b # bs"] exI [of _ rest]) simp
  next
    case False
    then have r: "r = of_nat (128 * v + ?d)" and s': "s' = cbs_drop s 1"
      using less.prems(3) cs v nz unfolding step by auto
    have b: "b = of_nat ?d" using False byte_split [of b] by simp
    have "unat r = 128 * v + ?d" using v' unfolding r by (intro unat_of_nat_less) simp
    then have "base128_enc (unat r) = base128_hi v @ [b]" using base128_enc_step [of ?d v] b by simp
    with cs s' show ?thesis by (intro exI [of _ "[b]"] exI [of _ cs]) simp
  qed
qed

lemma base128_loop_hi:
  assumes "cbs_ok s" and "v < 2 ^ 57" and "cbs_bytes s = base128_hi v @ rest"
  shows "base128_loop s 0 = base128_loop (cbs_drop s (length (base128_hi v))) (of_nat v)"
  using assms
proof (induction v arbitrary: rest rule: base128_hi.induct)
  case (1 v)
  show ?case
  proof (cases "v = 0")
    case False
    define c where "c = (of_nat (v mod 128 + 128) :: byte)"
    have hi: "base128_hi v = base128_hi (v div 128) @ [c]"
      using False by (subst base128_hi.simps) (simp add: c_def)
    let ?s = "cbs_drop s (length (base128_hi (v div 128)))"
    have ok: "cbs_ok ?s" and bs: "cbs_bytes ?s = c # rest"
      using 1 hi by (simp_all del: length_cbs_bytes)
    have c: "unat c = v mod 128 + 128" unfolding c_def by (simp only: unat_of_nat_byte) simp
    have "base128_loop s 0 = base128_loop ?s (of_nat (v div 128))"
      using 1 False hi by (intro 1(1)) auto
    also have "\<dots> = base128_loop (cbs_drop ?s 1) (of_nat (128 * (v div 128) + unat c mod 128))"
    proof -
      have "\<not> (v div 128 = 0 \<and> c = 0x80)"
      proof
        assume a: "v div 128 = 0 \<and> c = 0x80"
        then have "unat c = 128" by simp
        then have "v mod 128 = 0" using c by simp
        with a False show False by (metis div_mult_mod_eq mult_zero_left add_0)
      qed
      moreover have "v div 128 < 2 ^ 57" using 1 by linarith
      ultimately show ?thesis by (subst base128_loop_step [OF ok]) (auto simp: bs c)
    qed
    also have "128 * (v div 128) + unat c mod 128 = v" using c by simp
    finally show ?thesis using hi by simp
  qed simp
qed

lemma parse_base128_complete:
  assumes "cbs_ok s" and "v < 2 ^ 64" and "cbs_bytes s = base128_enc v @ rest"
  shows "parse_base128_integer s = Ok (of_nat v) (cbs_drop s (length (base128_enc v)))"
proof -
  define c where "c = (of_nat (v mod 128) :: byte)"
  let ?h = "base128_hi (v div 128)"
  let ?s = "cbs_drop s (length ?h)"
  have bs: "cbs_bytes s = ?h @ c # rest" using assms by (simp add: base128_enc_def c_def)
  have ok: "cbs_ok ?s" and bs': "cbs_bytes ?s = c # rest"
    using assms(1) bs by (simp_all del: length_cbs_bytes)
  have lt: "v div 128 < 2 ^ 57" using assms(2) by (simp add: less_mult_imp_div_less)
  have c: "unat c = v mod 128" unfolding c_def by (simp only: unat_of_nat_byte) simp
  have m: "\<not> 128 \<le> v mod 128" by (simp add: not_le)
  have nz: "c \<noteq> 0x80"
  proof
    assume "c = 0x80"
    with c have "v mod 128 = unat (0x80 :: byte)" by argo
    then show False using mod_less_divisor [of 128 v] by simp
  qed
  have "base128_loop s 0 = base128_loop ?s (of_nat (v div 128))"
    using base128_loop_hi [OF assms(1) lt bs] .
  also have "\<dots> = Ok (of_nat (128 * (v div 128) + v mod 128)) (cbs_drop ?s 1)"
    using lt nz by (subst base128_loop_step [OF ok]) (simp_all add: bs' c m)
  finally show ?thesis by (simp add: parse_base128_integer_def base128_enc_def)
qed

lemma parse_base128_iff:
  assumes "cbs_ok s"
  shows "parse_base128_integer s = Ok r s' \<longleftrightarrow>
    (\<exists>rest. cbs_bytes s = base128_enc (unat r) @ rest) \<and> s' = cbs_drop s (length (base128_enc (unat r)))"
proof
  assume "parse_base128_integer s = Ok r s'"
  then have "base128_loop s (of_nat 0) = Ok r s'" by (simp add: parse_base128_integer_def)
  from base128_loop_sound [OF assms _ this]
  show "(\<exists>rest. cbs_bytes s = base128_enc (unat r) @ rest) \<and> s' = cbs_drop s (length (base128_enc (unat r)))"
    by auto
next
  assume "(\<exists>rest. cbs_bytes s = base128_enc (unat r) @ rest) \<and> s' = cbs_drop s (length (base128_enc (unat r)))"
  then obtain rest where "cbs_bytes s = base128_enc (unat r) @ rest"
    and "s' = cbs_drop s (length (base128_enc (unat r)))" by blast
  with parse_base128_complete [OF assms _ this(1)] unat_lt_2p [of r]
  show "parse_base128_integer s = Ok r s'" by simp
qed

section \<open>Identifier octets\<close>

lemma byte_class_bits:
  "push_bit 24 (ucast (b :: byte) AND 0xE0 :: u32) = push_bit 29 (of_nat (unat b div 32))"
proof -
  have "(ucast b AND 0xE0 :: u32) = ucast (b AND 0xE0)" by (simp add: unsigned_and_eq)
  then have "(ucast b AND 0xE0 :: u32) = of_nat (32 * (unat b div 32))"
    by (simp only: ucast_eq_of_nat byte_and_0xE0)
  then show ?thesis by (simp only: push_bit_of_nat) (simp add: push_bit_eq_mult)
qed

lemma byte_number_bits: "unat ((b :: byte) AND 0x1F) = unat b mod 32"
  using unat_take_mask [of b 5] by (simp add: mask_eq_exp_minus_1)

definition mk_tag :: "nat \<Rightarrow> nat \<Rightarrow> u32" where
  "mk_tag c k = of_nat (k + 2 ^ 29 * c)"

lemma tag_word:
  assumes "k < 2 ^ 29"
  shows "push_bit 24 (ucast (b :: byte) AND 0xE0 :: u32) OR of_nat k = mk_tag (unat b div 32) k"
proof -
  show ?thesis unfolding byte_class_bits
    using or_push_bit_of_nat [OF assms, of "unat b div 32"] by (simp only: or.commute mk_tag_def)
qed

lemma unat_mk_tag: "k < 2 ^ 29 \<Longrightarrow> c < 8 \<Longrightarrow> unat (mk_tag c k) = k + 2 ^ 29 * c"
  unfolding mk_tag_def by (rule unat_of_nat_less) simp

lemma mk_tag_parts:
  assumes "k < 2 ^ 29" and "c < 8"
  shows "tag_class (mk_tag c k) = c" "tag_number (mk_tag c k) = k"
  using assms by (simp_all add: tag_class_def tag_number_def unat_mk_tag)

lemma mk_tag_eq: "mk_tag (tag_class tag) (tag_number tag) = tag"
  unfolding mk_tag_def tag_class_def tag_number_def
  by (subst add.commute) (simp only: mult_div_mod_eq ucast_eq_of_nat [symmetric] ucast_id)

lemma parse_asn1_tag_eq:
  assumes "cbs_ok s"
  shows "parse_asn1_tag s =
    (case cbs_bytes s of
       [] \<Rightarrow> Fail s
     | b # _ \<Rightarrow>
         if unat b mod 32 = 31
         then obind (parse_base128_integer (cbs_drop s 1)) (\<lambda>v s2.
                if 2 ^ 29 \<le> unat v \<or> unat v < 31 then Fail s2
                else Ok (mk_tag (unat b div 32) (unat v)) s2)
         else Ok (mk_tag (unat b div 32) (unat b mod 32)) (cbs_drop s 1))"
proof (cases "cbs_bytes s")
  case (Cons b bs)
  have n: "(ucast (b AND 0x1F) :: u32) = of_nat (unat b mod 32)"
    by (simp only: ucast_eq_of_nat byte_number_bits)
  have m: "unat b mod 32 < 2 ^ 29" by (rule less_trans [of _ 32]) simp_all
  have n31: "(of_nat (unat b mod 32) :: u32) = 0x1F \<longleftrightarrow> unat b mod 32 = 31"
    using m by (simp add: word_unat_eq_iff unat_of_nat_less)
  have v: "v > ucast CBS_ASN1_TAG_NUMBER_MASK \<or> v < 0x1F \<longleftrightarrow> 2 ^ 29 \<le> unat v \<or> unat v < 31" for v :: u64
    by (auto simp: word_less_nat_alt)
  have t: "push_bit 24 (ucast b AND 0xE0 :: u32) OR ucast v = mk_tag (unat b div 32) (unat v)"
    if "\<not> (2 ^ 29 \<le> unat v \<or> unat v < 31)" for v :: u64
    using that tag_word [of "unat v" b] by simp
  have "parse_asn1_tag s =
      (if unat b mod 32 = 31
       then obind (parse_base128_integer (cbs_drop s 1)) (\<lambda>v s2.
              if 2 ^ 29 \<le> unat v \<or> unat v < 31 then Fail s2
              else Ok (push_bit 24 (ucast b AND 0xE0) OR ucast v) s2)
       else Ok (mk_tag (unat b div 32) (unat b mod 32)) (cbs_drop s 1))"
    by (simp only: parse_asn1_tag_def Let_def CBS_get_u8_eq [OF assms] Cons list.case obind.simps n n31 v
          tag_word [OF m, of b])
  also have "\<dots> = (if unat b mod 32 = 31
       then obind (parse_base128_integer (cbs_drop s 1)) (\<lambda>v s2.
              if 2 ^ 29 \<le> unat v \<or> unat v < 31 then Fail s2
              else Ok (mk_tag (unat b div 32) (unat v)) s2)
       else Ok (mk_tag (unat b div 32) (unat b mod 32)) (cbs_drop s 1))"
    by (intro if_cong obind_cong refl arg_cong2 [where f = Ok] t)
  finally show ?thesis by (simp only: Cons list.case)
qed (use assms in \<open>simp add: parse_asn1_tag_def CBS_get_u8_eq\<close>)

lemma parse_asn1_tag_sound:
  assumes "cbs_ok s" and "parse_asn1_tag s = Ok tag s'"
  shows "(\<exists>rest. cbs_bytes s = der_tag tag @ rest) \<and> s' = cbs_drop s (length (der_tag tag))"
proof -
  obtain b bs where bs: "cbs_bytes s = b # bs"
    using assms by (cases "cbs_bytes s") (auto simp: parse_asn1_tag_eq)
  have "unat b < 256" using unat_lt_2p [of b] by simp
  then have c: "unat b div 32 < 8" by simp
  have b: "of_nat (32 * (unat b div 32) + unat b mod 32) = b" by simp
  have ok: "cbs_ok (cbs_drop s 1)" and bs': "cbs_bytes (cbs_drop s 1) = bs"
    using assms(1) bs by (simp_all del: length_cbs_bytes)
  show ?thesis
  proof (cases "unat b mod 32 = 31")
    case True
    then obtain v where v: "parse_base128_integer (cbs_drop s 1) = Ok v s'" "31 \<le> unat v" "unat v < 2 ^ 29"
        and tag: "tag = mk_tag (unat b div 32) (unat v)"
      using assms bs by (auto simp: parse_asn1_tag_eq split: if_splits)
    have "der_tag tag = b # base128_enc (unat v)"
      using v(2,3) c True b by (simp add: der_tag_def tag mk_tag_parts)
    then show ?thesis using parse_base128_iff [OF ok, of v s'] v(1) unfolding bs bs' by auto
  next
    case False
    then have *: "tag = mk_tag (unat b div 32) (unat b mod 32)" "s' = cbs_drop s 1"
      using assms bs by (auto simp: parse_asn1_tag_eq)
    have "unat b mod 32 < 32" by simp
    then have "unat b mod 32 < 31" using False by linarith
    then have "der_tag tag = [b]"
      using c b by (simp add: der_tag_def * mk_tag_parts)
    then show ?thesis using bs * by simp
  qed
qed

lemma unat_tag_byte: "k < 32 \<Longrightarrow> unat (of_nat (32 * tag_class tag + k) :: byte) = 32 * tag_class tag + k"
  using tag_class_less [of tag] by (intro unat_of_nat_less) simp

lemma parse_asn1_tag_complete:
  assumes "cbs_ok s" and "cbs_bytes s = der_tag tag @ rest"
  shows "parse_asn1_tag s = Ok tag (cbs_drop s (length (der_tag tag)))"
proof (cases "tag_number tag < 31")
  case True
  define b where "b = (of_nat (32 * tag_class tag + tag_number tag) :: byte)"
  have "unat b = 32 * tag_class tag + tag_number tag" unfolding b_def using True by (intro unat_tag_byte) simp
  then have "unat b mod 32 = tag_number tag" "unat b div 32 = tag_class tag" using True by simp_all
  moreover have "der_tag tag = [b]" using True by (simp add: der_tag_def b_def)
  ultimately show ?thesis using True assms by (simp add: parse_asn1_tag_eq mk_tag_eq)
next
  case False
  define b where "b = (of_nat (32 * tag_class tag + 31) :: byte)"
  have "unat b = 32 * tag_class tag + 31" unfolding b_def by (intro unat_tag_byte) simp
  then have b: "unat b mod 32 = 31" "unat b div 32 = tag_class tag" by simp_all
  let ?e = "base128_enc (tag_number tag)"
  have bs: "cbs_bytes s = b # ?e @ rest" and len: "length (der_tag tag) = 1 + length ?e"
    using False assms by (simp_all add: der_tag_def b_def)
  have k: "unat (of_nat (tag_number tag) :: u64) = tag_number tag"
    using tag_number_less [of tag] by (intro unat_of_nat_less) simp
  have "parse_base128_integer (cbs_drop s 1) = Ok (of_nat (tag_number tag)) (cbs_drop (cbs_drop s 1) (length ?e))"
    using assms(1) bs tag_number_less [of tag]
    by (intro parse_base128_complete [of _ _ rest]) (simp_all del: length_cbs_bytes)
  then show ?thesis
    using False assms(1) bs b len tag_number_less [of tag] by (simp add: parse_asn1_tag_eq k mk_tag_eq)
qed

lemma parse_asn1_tag_no_fault: "cbs_ok s \<Longrightarrow> parse_asn1_tag s \<noteq> Fault"
  by (auto simp: parse_asn1_tag_eq parse_base128_integer_def obind_neq_Fault base128_loop_no_fault
       simp del: length_cbs_bytes split: list.splits if_splits)

section \<open>Elements\<close>

text \<open>What \<open>cbs_get_any_asn1_element\<close> returns once the header of length \<open>hl\<close> announced \<open>n\<close> bytes of contents.\<close>

definition take_element :: "CBS \<Rightarrow> u32 \<Rightarrow> nat \<Rightarrow> nat \<Rightarrow> bool \<Rightarrow> (CBS \<times> u32 \<times> size_t \<times> bool, CBS) outcome" where
  "take_element s tag hl n ber_found =
     (if length (cbs_bytes s) < hl + n then Fail s
      else Ok (cbs_take s (hl + n), tag, of_nat hl, ber_found) (cbs_drop s (hl + n)))"

text \<open>The length octets \<open>ls\<close> after a first length octet, read as numbers.\<close>

definition long_form :: "CBS \<Rightarrow> bool \<Rightarrow> u32 \<Rightarrow> nat \<Rightarrow> nat \<Rightarrow> byte list \<Rightarrow> (CBS \<times> u32 \<times> size_t \<times> bool, CBS) outcome" where
  "long_form s ber_ok tag hl k ls =
     (if ber_ok \<and> tag AND CBS_ASN1_CONSTRUCTED \<noteq> 0 \<and> k = 0 then take_element s tag hl 0 True
      else if k = 0 \<or> 4 < k \<or> length ls < k then Fail s
      else let n = be_nat (take k ls); nonminimal = (n < 128 \<or> n < 256 ^ (k - 1)) in
        if nonminimal \<and> \<not> ber_ok then Fail s
        else take_element s tag (hl + k) n nonminimal)"

definition element_spec :: "CBS \<Rightarrow> bool \<Rightarrow> u32 \<Rightarrow> nat \<Rightarrow> byte list \<Rightarrow> (CBS \<times> u32 \<times> size_t \<times> bool, CBS) outcome" where
  "element_spec s ber_ok tag t octets =
     (case octets of
        [] \<Rightarrow> Fail s
      | lb # ls \<Rightarrow>
          if unat lb < 128 then take_element s tag (t + 1) (unat lb) False
          else long_form s ber_ok tag (t + 1) (unat lb - 128) ls)"

lemma get_bytes_take_element:
  assumes "cbs_ok s" and "unat len = hl + n" and "h = of_nat hl"
  shows "obind (CBS_get_bytes s len) (\<lambda>out s'. Ok (out, tag, h, f) s') = take_element s tag hl n f"
  using assms by (simp add: CBS_get_bytes_eq take_element_def)

lemma be_nat_u32: "length bs \<le> 4 \<Longrightarrow> be_nat bs < 2 ^ 32"
  using be_nat_bound [of bs] power_increasing [of "length bs" 4 "256::nat"] by simp

lemma long_form_eq:
  assumes s: "cbs_ok s" and bs: "cbs_bytes s = pre @ lb # ls" and pre: "length pre \<le> 6"
    and lb: "128 \<le> unat lb" and hl: "hl = length pre + 1"
  shows "(let num_bytes = (ucast (lb AND 0x7F) :: size_t) in
         if ber_ok \<and> tag AND CBS_ASN1_CONSTRUCTED \<noteq> 0 \<and> num_bytes = 0
         then obind (CBS_get_bytes s (of_nat hl)) (\<lambda>out cbs'. Ok (out, tag, of_nat hl, True) cbs')
         else if num_bytes = 0 \<or> num_bytes > 4 then Fail s
         else obind_local (cbs_get_u (cbs_drop s hl) num_bytes) s (\<lambda>len64 header3.
           if len64 < 128 \<and> \<not> ber_ok then Fail s
           else if drop_bit (unat ((num_bytes - 1) * 8)) len64 = 0 \<and> \<not> ber_ok then Fail s
           else let ber_found = (len64 < 128 \<or> drop_bit (unat ((num_bytes - 1) * 8)) len64 = 0) in
             if len64 + of_nat hl + num_bytes < len64 then Fail s
             else obind (CBS_get_bytes s (len64 + (of_nat hl + num_bytes))) (\<lambda>out cbs'.
                    Ok (out, tag, of_nat hl + num_bytes, ber_found) cbs')))
     = long_form s ber_ok tag hl (unat lb - 128) ls"
proof -
  define k where "k = unat lb - 128"
  have "unat lb < 256" using unat_lt_2p [of lb] by simp
  then have "unat lb mod 128 = k" and k128: "k < 128" using lb unfolding k_def by (simp_all add: le_mod_geq)
  then have nb: "(ucast (lb AND 0x7F) :: size_t) = of_nat k"
    by (simp only: ucast_eq_of_nat unat_and_0x7F)
  have uk: "unat (of_nat k :: size_t) = k" using k128 by (intro unat_of_nat_less) simp
  have k0: "(of_nat k :: size_t) = 0 \<longleftrightarrow> k = 0" and k4: "(of_nat k :: size_t) > 4 \<longleftrightarrow> 4 < k"
    using uk by (simp_all add: word_unat_eq_iff word_less_nat_alt)
  have uhl: "unat (of_nat hl :: size_t) = hl" using pre hl by (intro unat_of_nat_less) simp
  have ok: "cbs_ok (cbs_drop s hl)" and ls: "cbs_bytes (cbs_drop s hl) = ls"
    using s bs hl by (simp_all del: length_cbs_bytes)
  consider "k = 0" | "4 < k" | "0 < k" "k \<le> 4" "length ls < k" | "0 < k" "k \<le> 4" "k \<le> length ls"
    by linarith
  then show ?thesis
  proof cases
    case 1
    then show ?thesis
      using get_bytes_take_element [OF s, of "of_nat hl" hl 0 "of_nat hl" tag True]
      by (simp add: nb Let_def long_form_def uhl flip: k_def)
  next
    case 2
    then show ?thesis by (simp add: nb k0 k4 Let_def long_form_def flip: k_def)
  next
    case 3
    then show ?thesis
      by (simp add: nb k0 k4 Let_def long_form_def cbs_get_u_eq [OF ok] uk ls flip: k_def)
  next
    case 4
    define n where "n = be_nat (take k ls)"
    have n32: "n < 2 ^ 32" unfolding n_def using 4 by (intro be_nat_u32) simp
    have un: "unat (of_nat n :: u64) = n" using n32 by (intro unat_of_nat_less) simp
    have get: "cbs_get_u (cbs_drop s hl) (of_nat k) = Ok (of_nat n) (cbs_drop (cbs_drop s hl) k)"
      using 4 by (simp add: cbs_get_u_eq [OF ok] uk ls n_def)
    have sh: "unat (((of_nat k :: size_t) - 1) * 8) = (k - 1) * 8"
    proof -
      have "((of_nat k :: size_t) - 1) * 8 = of_nat ((k - 1) * 8)" using 4 by (simp add: of_nat_diff)
      then show ?thesis using 4 by (simp only:) (intro unat_of_nat_less, simp)
    qed
    have min: "drop_bit ((k - 1) * 8) (of_nat n :: u64) = 0 \<longleftrightarrow> n < 256 ^ (k - 1)"
    proof -
      have "(2::nat) ^ ((k - 1) * 8) = 256 ^ (k - 1)" by (subst mult.commute) (simp add: power_mult)
      then show ?thesis by (simp only: word_unat_eq_iff unat_drop_bit un) (simp add: div_eq_0_iff)
    qed
    have lt: "(of_nat n :: u64) < 128 \<longleftrightarrow> n < 128" by (simp add: word_less_nat_alt un)
    have tot: "unat ((of_nat n :: u64) + (of_nat hl + of_nat k)) = hl + k + n"
    proof -
      have "(of_nat n :: u64) + (of_nat hl + of_nat k) = of_nat (hl + k + n)" by simp
      then show ?thesis using n32 4 pre hl by (simp only:) (intro unat_of_nat_less, simp)
    qed
    have ovf: "\<not> (of_nat n :: u64) + of_nat hl + of_nat k < of_nat n"
      using tot by (simp add: word_less_nat_alt un add.assoc)
    show ?thesis
      using 4 get_bytes_take_element [OF s tot, of "of_nat hl + of_nat k" tag]
      by (simp only: nb k0 k4 Let_def long_form_def get obind_local.simps sh min lt ovf k_def [symmetric]
            n_def [symmetric]) auto
  qed
qed

lemma any_asn1_element_eq:
  assumes "cbs_ok s"
  shows "cbs_get_any_asn1_element s ber_ok =
    (case parse_asn1_tag s of
       Ok tag _ \<Rightarrow> element_spec s ber_ok tag (length (der_tag tag)) (drop (length (der_tag tag)) (cbs_bytes s))
     | _ \<Rightarrow> Fail s)"
proof (cases "parse_asn1_tag s")
  case (Ok tag h1)
  from parse_asn1_tag_sound [OF assms this] obtain rest where bs: "cbs_bytes s = der_tag tag @ rest"
    and h1: "h1 = cbs_drop s (length (der_tag tag))" by blast
  have ok1: "cbs_ok h1" and bs1: "cbs_bytes h1 = rest"
    using assms bs by (simp_all add: h1 del: length_cbs_bytes)
  show ?thesis
  proof (cases rest)
    case Nil
    then show ?thesis
      using Ok bs by (simp add: cbs_get_any_asn1_element_def CBS_get_u8_eq [OF ok1] bs1 element_spec_def)
  next
    case (Cons lb ls)
    let ?t = "length (der_tag tag)"
    let ?hl = "?t + 1"
    have h2: "cbs_drop h1 1 = cbs_drop s ?hl" by (simp add: h1)
    have le: "?hl \<le> length (cbs_bytes s)" using bs Cons by simp
    have hl: "CBS_len s - CBS_len (cbs_drop s ?hl) = of_nat ?hl"
      by (simp add: CBS_len_def cbs_drop_def)
    have "length (der_tag tag) \<le> 6" by (rule length_der_tag)
    show ?thesis
    proof (cases "unat lb < 128")
      case True
      have "unat (ucast lb + of_nat ?hl :: size_t) = ?hl + unat lb"
        using True length_der_tag [of tag]
        by (simp only: ucast_eq_of_nat of_nat_add [symmetric] add.commute)
           (intro unat_of_nat_less, simp)
      from get_bytes_take_element [OF assms this refl]
      show ?thesis
        using Ok True and_0x80_iff [of lb] bs Cons
        by (simp add: cbs_get_any_asn1_element_def CBS_get_u8_eq [OF ok1] bs1 element_spec_def h2 hl
              Let_def del: of_nat_add of_nat_Suc One_nat_def)
    next
      case False
      then have "(lb AND 0x80 = 0) = False" "128 \<le> unat lb" using and_0x80_iff [of lb] by simp_all
      note lf = this(1) long_form_eq [OF assms bs [unfolded Cons] length_der_tag this(2) refl, of ber_ok tag]
      have "drop ?t (cbs_bytes s) = lb # ls" by (simp add: bs Cons)
      with False show ?thesis
        by (simp only: cbs_get_any_asn1_element_def Ok obind_local.simps CBS_get_u8_eq [OF ok1] bs1 Cons
              list.case element_spec_def h2 hl lf(1) if_False outcome.case lf(2) [unfolded Let_def] Let_def)
    qed
  qed
qed (use parse_asn1_tag_no_fault [OF assms] in \<open>simp_all add: cbs_get_any_asn1_element_def\<close>)

section \<open>The accepted language is DER\<close>

lemma be_bytes_prefix: "k = length bs \<Longrightarrow> be_bytes k (be_nat bs) = bs"
  by (simp add: be_bytes_be_nat)

lemma element_spec_der:
  assumes "n < 2 ^ 32"
  shows "element_spec s ber_ok tag t (der_len n @ rest) = take_element s tag (t + length (der_len n)) n False"
proof (cases "n < 128")
  case True
  then have "unat (of_nat n :: byte) = n" by (intro unat_of_nat_less) simp
  with True show ?thesis by (simp add: element_spec_def der_len_def)
next
  case False
  define k where "k = nbytes n"
  have k: "0 < k" "k \<le> 4" using nbytes_le [of n 4] assms by (simp_all add: k_def)
  define lb where "lb = (of_nat (128 + k) :: byte)"
  have lb: "unat lb = 128 + k" unfolding lb_def using k by (intro unat_of_nat_less) simp
  have "n < 256 ^ k" unfolding k_def by (rule nbytes_upper)
  then have n: "be_nat (be_bytes k n) = n" by (simp add: be_nat_be_bytes)
  have "256 ^ (k - 1) \<le> n" using nbytes_lower [of n] False by (simp add: k_def)
  then have "\<not> (n < 128 \<or> n < 256 ^ (k - 1))" using False by simp
  moreover have "der_len n = lb # be_bytes k n" using False by (simp add: der_len_def lb_def k_def)
  ultimately show ?thesis
    using k n lb by (simp add: element_spec_def long_form_def Let_def)
qed

lemma element_spec_minimal:
  assumes "element_spec s ber_ok tag t octets = Ok (out, tag', hl, False) s'"
  shows "\<exists>n rest. n < 2 ^ 32 \<and> octets = der_len n @ rest"
proof -
  obtain lb ls where o: "octets = lb # ls"
    using assms by (cases octets) (auto simp: element_spec_def)
  show ?thesis
  proof (cases "unat lb < 128")
    case True
    then have "octets = der_len (unat lb) @ ls" by (simp add: der_len_def o)
    with True show ?thesis by (intro exI [of _ "unat lb"] exI [of _ ls]) simp
  next
    case False
    define k where "k = unat lb - 128"
    define n where "n = be_nat (take k ls)"
    have k: "0 < k" "k \<le> 4" "k \<le> length ls" and n: "128 \<le> n" "256 ^ (k - 1) \<le> n"
      using assms False o
      by (auto simp: element_spec_def long_form_def Let_def take_element_def k_def n_def not_less split: if_splits)
    have n32: "n < 2 ^ 32" unfolding n_def using k by (intro be_nat_u32) simp
    have "n < 256 ^ Suc (k - 1)" using be_nat_bound [of "take k ls"] k by (simp add: n_def min.absorb1)
    then have nb: "nbytes n = k" using nbytes_unique [of "k - 1" n] n k by simp
    have "be_bytes k n = take k ls" unfolding n_def using k by (intro be_bytes_prefix) simp
    moreover have "(of_nat (128 + k) :: byte) = lb" using False by (simp add: k_def)
    ultimately have "octets = der_len n @ drop k ls" using n by (simp add: der_len_def nb o)
    with n32 show ?thesis by blast
  qed
qed

lemma element_complete:
  assumes "cbs_ok s" and "length contents < 2 ^ 32" and "cbs_bytes s = der_element tag contents @ rest"
  shows "cbs_get_any_asn1_element s ber_ok =
    Ok (cbs_take s (length (der_element tag contents)), tag,
        of_nat (length (der_header tag (length contents))), False)
       (cbs_drop s (length (der_element tag contents)))"
proof -
  have bs: "cbs_bytes s = der_tag tag @ der_len (length contents) @ contents @ rest"
    using assms(3) by (simp add: der_element_def der_header_def)
  from parse_asn1_tag_complete [OF assms(1) bs]
  have "cbs_get_any_asn1_element s ber_ok =
      take_element s tag (length (der_tag tag) + length (der_len (length contents))) (length contents) False"
    using element_spec_der [OF assms(2)] by (simp add: any_asn1_element_eq [OF assms(1)] bs)
  then show ?thesis using bs by (simp add: take_element_def der_element_def der_header_def add.assoc del: length_cbs_bytes)
qed

lemma element_minimal:
  assumes "cbs_ok s" and "cbs_get_any_asn1_element s ber_ok = Ok (out, tag, hl, False) s'"
  obtains contents rest where "length contents < 2 ^ 32" and "cbs_bytes s = der_element tag contents @ rest"
proof -
  obtain tag' h where p: "parse_asn1_tag s = Ok tag' h"
    and e: "element_spec s ber_ok tag' (length (der_tag tag')) (drop (length (der_tag tag')) (cbs_bytes s)) =
      Ok (out, tag, hl, False) s'"
    using assms by (auto simp: any_asn1_element_eq split: outcome.splits)
  obtain rest where bs: "cbs_bytes s = der_tag tag' @ rest" using parse_asn1_tag_sound [OF assms(1) p] by blast
  then have e: "element_spec s ber_ok tag' (length (der_tag tag')) rest = Ok (out, tag, hl, False) s'"
    using e by simp
  then obtain n ls where n: "n < 2 ^ 32" and rest: "rest = der_len n @ ls" using element_spec_minimal by blast
  have tk: "take_element s tag' (length (der_tag tag') + length (der_len n)) n False = Ok (out, tag, hl, False) s'"
    using e element_spec_der [OF n] by (simp add: rest)
  then have "n \<le> length ls" and "tag = tag'"
    using bs rest by (auto simp: take_element_def simp del: length_cbs_bytes split: if_splits)
  then have "cbs_bytes s = der_element tag (take n ls) @ drop n ls" and "length (take n ls) < 2 ^ 32"
    using bs rest n by (simp_all add: der_element_def der_header_def min.absorb2)
  then show ?thesis using that by blast
qed

text \<open>The reader in either mode reports an element without BER-only forms exactly when a DER encoding is in
  front, and returns that element.\<close>

lemma element_iff:
  assumes "cbs_ok s"
  shows "cbs_get_any_asn1_element s ber_ok = Ok (out, tag, hl, False) s' \<longleftrightarrow>
    (\<exists>contents rest. length contents < 2 ^ 32 \<and> cbs_bytes s = der_element tag contents @ rest \<and>
       out = cbs_take s (length (der_element tag contents)) \<and>
       hl = of_nat (length (der_header tag (length contents))) \<and>
       s' = cbs_drop s (length (der_element tag contents)))"
proof
  assume a: "cbs_get_any_asn1_element s ber_ok = Ok (out, tag, hl, False) s'"
  then obtain contents rest where c: "length contents < 2 ^ 32" "cbs_bytes s = der_element tag contents @ rest"
    using element_minimal [OF assms] by blast
  with element_complete [OF assms c, of ber_ok] a
  show "\<exists>contents rest. length contents < 2 ^ 32 \<and> cbs_bytes s = der_element tag contents @ rest \<and>
       out = cbs_take s (length (der_element tag contents)) \<and>
       hl = of_nat (length (der_header tag (length contents))) \<and>
       s' = cbs_drop s (length (der_element tag contents))" by auto
qed (use element_complete [OF assms] in auto)

lemma element_der_strict:
  assumes "cbs_ok s" and "cbs_get_any_asn1_element s False = Ok (out, tag, hl, f) s'"
  shows "\<not> f"
  using assms by (auto simp: any_asn1_element_eq element_spec_def long_form_def take_element_def Let_def
      split: outcome.splits list.splits if_splits)

lemma element_fail:
  assumes "cbs_ok s"
  shows "cbs_get_any_asn1_element s ber_ok \<noteq> Fault" and
    "cbs_get_any_asn1_element s ber_ok = Fail s' \<Longrightarrow> s' = s"
  using assms by (auto simp: any_asn1_element_eq element_spec_def long_form_def take_element_def Let_def
      split: outcome.splits list.splits if_splits)

section \<open>Elements with a given tag\<close>

text \<open>\<open>der_at s tag contents\<close>: the reader stands in front of the DER encoding of an element.\<close>

definition der_at :: "CBS \<Rightarrow> u32 \<Rightarrow> byte list \<Rightarrow> bool" where
  "der_at s tag contents \<longleftrightarrow>
     length contents < 2 ^ 32 \<and> (\<exists>rest. cbs_bytes s = der_element tag contents @ rest)"

abbreviation after_element :: "CBS \<Rightarrow> u32 \<Rightarrow> byte list \<Rightarrow> CBS" where
  "after_element s tag contents \<equiv> cbs_drop s (length (der_element tag contents))"

definition contents_of :: "CBS \<Rightarrow> u32 \<Rightarrow> byte list \<Rightarrow> CBS" where
  "contents_of s tag contents =
     cbs_drop (cbs_take s (length (der_element tag contents))) (length (der_header tag (length contents)))"

lemma any_element_der:
  "cbs_ok s \<Longrightarrow> der_at s tag contents \<Longrightarrow>
   CBS_get_any_asn1_element s =
     Ok (cbs_take s (length (der_element tag contents)), tag,
         of_nat (length (der_header tag (length contents))))
        (after_element s tag contents)"
  using element_complete [of s contents tag _ False] by (auto simp: der_at_def CBS_get_any_asn1_element_def)

lemma any_element_cases:
  assumes "cbs_ok s"
  obtains tag contents where "der_at s tag contents"
  | "\<And>tag contents. \<not> der_at s tag contents" and "CBS_get_any_asn1_element s = Fail s"
proof (cases "cbs_get_any_asn1_element s False")
  case (Ok r s')
  obtain out tag hl f where "r = (out, tag, hl, f)" by (cases r)
  with Ok element_der_strict [OF assms] have "cbs_get_any_asn1_element s False = Ok (out, tag, hl, False) s'" by auto
  then obtain contents rest where "length contents < 2 ^ 32" "cbs_bytes s = der_element tag contents @ rest"
    by (rule element_minimal [OF assms])
  then show ?thesis using that(1) unfolding der_at_def by blast
next
  case (Fail s')
  moreover have "\<not> der_at s tag contents" for tag contents
    using Fail element_complete [OF assms, of contents tag _ False] by (auto simp: der_at_def)
  ultimately show ?thesis
    using that(2) element_fail [OF assms] by (auto simp: CBS_get_any_asn1_element_def)
qed (use element_fail [OF assms] in blast)

lemma contents_reader:
  assumes "cbs_ok s" and "der_at s tag contents"
  shows "cbs_ok (contents_of s tag contents)" "cbs_bytes (contents_of s tag contents) = contents"
    "cbs_ok (after_element s tag contents)"
    "cbs_bytes (after_element s tag contents) = drop (length (der_element tag contents)) (cbs_bytes s)"
proof -
  obtain rest where bs: "cbs_bytes s = der_element tag contents @ rest" using assms by (auto simp: der_at_def)
  have ok: "cbs_ok (cbs_take s (length (der_element tag contents)))"
    and b: "cbs_bytes (cbs_take s (length (der_element tag contents))) = der_element tag contents"
    using assms(1) bs by (simp_all del: length_cbs_bytes)
  show "cbs_ok (contents_of s tag contents)" "cbs_bytes (contents_of s tag contents) = contents"
    using ok b by (simp_all add: contents_of_def der_element_def del: length_cbs_bytes)
  show "cbs_ok (after_element s tag contents)"
    "cbs_bytes (after_element s tag contents) = drop (length (der_element tag contents)) (cbs_bytes s)"
    using assms(1) bs by (simp_all del: length_cbs_bytes)
qed

lemma skip_header:
  assumes "cbs_ok s" and "der_at s tag contents"
  shows "CBS_skip (cbs_take s (length (der_element tag contents)))
           (of_nat (length (der_header tag (length contents)))) = Ok () (contents_of s tag contents)"
proof -
  obtain rest where bs: "cbs_bytes s = der_element tag contents @ rest" using assms by (auto simp: der_at_def)
  have ok: "cbs_ok (cbs_take s (length (der_element tag contents)))"
    and b: "cbs_bytes (cbs_take s (length (der_element tag contents))) = der_element tag contents"
    using assms(1) bs by (simp_all del: length_cbs_bytes)
  have "unat (of_nat (length (der_header tag (length contents))) :: size_t) = length (der_header tag (length contents))"
    using length_der_header [of "length contents" tag] assms(2) by (intro unat_of_nat_less) (simp add: der_at_def)
  then show ?thesis
    using b by (simp only: CBS_skip_eq [OF ok] contents_of_def) (simp add: length_der_element)
qed

lemma CBS_get_any_asn1_der:
  "cbs_ok s \<Longrightarrow> der_at s tag contents \<Longrightarrow>
   CBS_get_any_asn1 s = Ok (contents_of s tag contents, tag) (after_element s tag contents)"
  by (simp add: CBS_get_any_asn1_def any_element_der skip_header)

lemma CBS_get_asn1_der:
  "cbs_ok s \<Longrightarrow> der_at s tag' contents \<Longrightarrow>
   CBS_get_asn1 s tag =
     (if tag' = tag then Ok (contents_of s tag contents) (after_element s tag contents)
      else Fail (after_element s tag' contents))"
  by (auto simp add: CBS_get_asn1_def cbs_get_asn1_def any_element_der skip_header)

lemma CBS_get_asn1_element_der:
  "cbs_ok s \<Longrightarrow> der_at s tag' contents \<Longrightarrow>
   CBS_get_asn1_element s tag =
     (if tag' = tag then Ok (cbs_take s (length (der_element tag contents))) (after_element s tag contents)
      else Fail (after_element s tag' contents))"
  by (auto simp add: CBS_get_asn1_element_def cbs_get_asn1_def any_element_der)

lemma der_at_unique:
  assumes "cbs_ok s" and "der_at s tag contents" and "der_at s tag' contents'"
  shows "tag' = tag \<and> contents' = contents"
proof -
  have "contents_of s tag contents = contents_of s tag' contents'" and "tag = tag'"
    using trans [OF CBS_get_any_asn1_der [OF assms(1,2), symmetric] CBS_get_any_asn1_der [OF assms(1,3)]]
    unfolding outcome.inject prod.inject by blast+
  moreover have "contents = cbs_bytes (contents_of s tag contents)" "contents' = cbs_bytes (contents_of s tag' contents')"
    using contents_reader(2) [OF assms(1,2)] contents_reader(2) [OF assms(1,3)] by argo+
  ultimately show ?thesis by argo
qed

lemma CBS_get_asn1_iff:
  assumes "cbs_ok s"
  shows "CBS_get_asn1 s tag = Ok out s' \<longleftrightarrow>
    (\<exists>contents. der_at s tag contents \<and> out = contents_of s tag contents \<and> s' = after_element s tag contents)"
  using assms
proof (cases rule: any_element_cases)
  case (1 tag' contents)
  then have "der_at s tag c \<longleftrightarrow> tag' = tag \<and> contents = c" for c using der_at_unique [OF assms 1] by blast
  then show ?thesis using CBS_get_asn1_der [OF assms 1, of tag] by auto
next
  case 2
  then show ?thesis by (simp add: CBS_get_asn1_def cbs_get_asn1_def)
qed

end
