(* ===== verification/CbsValues.thy ===== *)
theory CbsValues
  imports CbsParse
begin

text \<open>
  The reader's functions for values: safety of all of them (no access outside the object, the reader stays
  good and only moves forward), and what the \<open>INTEGER\<close> and \<open>BOOLEAN\<close> readers and the \<open>OPTIONAL\<close> readers accept.
\<close>

unbundle bit_operations_syntax

section \<open>Safety\<close>

text \<open>\<open>cbs_safe s m\<close>: the outcome \<open>m\<close> of a function called on \<open>s\<close> is no fault, and leaves a good reader over a
  suffix of the bytes of \<open>s\<close>.\<close>

definition cbs_safe :: "CBS \<Rightarrow> ('a, CBS) outcome \<Rightarrow> bool" where
  "cbs_safe s m \<longleftrightarrow>
     (\<exists>s'. final_state m = Some s' \<and> cbs_ok s' \<and> (\<exists>pre. cbs_bytes s = pre @ cbs_bytes s'))"

named_theorems cbs_safe_intros \<open>safety of the reader's functions\<close>

lemma cbs_safe_Ok [cbs_safe_intros]: "cbs_ok s \<Longrightarrow> cbs_safe s (Ok a s)"
  by (simp add: cbs_safe_def)

lemma cbs_safe_Fail [cbs_safe_intros]: "cbs_ok s \<Longrightarrow> cbs_safe s (Fail s)"
  by (simp add: cbs_safe_def)

lemma cbs_safe_if [cbs_safe_intros]: "(b \<Longrightarrow> cbs_safe s x) \<Longrightarrow> (\<not> b \<Longrightarrow> cbs_safe s y) \<Longrightarrow> cbs_safe s (if b then x else y)"
  by simp

lemma cbs_safe_Let [cbs_safe_intros]: "cbs_safe s (f x) \<Longrightarrow> cbs_safe s (Let x f)"
  by simp

lemma cbs_safe_OkD: "cbs_safe s (Ok a s') \<Longrightarrow> cbs_ok s'"
  by (simp add: cbs_safe_def)

lemma cbs_safe_no_fault: "cbs_safe s m \<Longrightarrow> m \<noteq> Fault"
  by (auto simp: cbs_safe_def)

lemma cbs_safe_obind [cbs_safe_intros]:
  assumes "cbs_safe s m" and "\<And>a s'. m = Ok a s' \<Longrightarrow> cbs_ok s' \<Longrightarrow> cbs_safe s' (f a s')"
  shows "cbs_safe s (obind m f)"
proof (cases m)
  case (Ok a s')
  from assms(1) obtain pre where ok: "cbs_ok s'" and pre: "cbs_bytes s = pre @ cbs_bytes s'"
    by (auto simp: cbs_safe_def Ok)
  obtain t pre' where "final_state (f a s') = Some t" "cbs_ok t" "cbs_bytes s' = pre' @ cbs_bytes t"
    using assms(2) [OF Ok ok] by (auto simp: cbs_safe_def)
  then show ?thesis using pre by (auto simp: cbs_safe_def Ok)
qed (use assms in \<open>auto simp: cbs_safe_def\<close>)

text \<open>A function run on a copy, or on another reader that is good.\<close>

lemma cbs_safe_local [cbs_safe_intros]:
  assumes "cbs_ok s" and "cbs_safe t m" and "\<And>a t'. m = Ok a t' \<Longrightarrow> cbs_ok t' \<Longrightarrow> cbs_safe s (f a t')"
  shows "cbs_safe s (obind_local m s f)"
  using assms by (cases m) (auto simp: cbs_safe_def)

lemma cbs_safe_u8 [cbs_safe_intros]: "cbs_ok s \<Longrightarrow> cbs_safe s (CBS_get_u8 s)"
  by (cases "cbs_bytes s") (simp_all add: CBS_get_u8_eq cbs_safe_def del: length_cbs_bytes)

lemma cbs_safe_drop:
  "cbs_ok s \<Longrightarrow> n \<le> length (cbs_bytes s) \<Longrightarrow> cbs_safe s (Ok a (cbs_drop s n))"
  by (auto simp: cbs_safe_def simp del: length_cbs_bytes intro!: exI [of _ "take n (cbs_bytes s)"])

lemma cbs_safe_get_bytes [cbs_safe_intros]: "cbs_ok s \<Longrightarrow> cbs_safe s (CBS_get_bytes s n)"
  using cbs_safe_drop [of s "unat n"] by (auto simp: CBS_get_bytes_eq intro: cbs_safe_Fail)

lemma CBS_get_bytes_ok: "cbs_ok s \<Longrightarrow> CBS_get_bytes s n = Ok out s' \<Longrightarrow> cbs_ok out"
  by (auto simp: CBS_get_bytes_eq simp del: length_cbs_bytes split: if_splits)

lemma cbs_safe_skip [cbs_safe_intros]: "cbs_ok s \<Longrightarrow> cbs_safe s (CBS_skip s n)"
  using cbs_safe_drop [of s "unat n"] by (auto simp: CBS_skip_eq intro: cbs_safe_Fail)

lemma cbs_safe_copy_bytes [cbs_safe_intros]: "cbs_ok s \<Longrightarrow> cbs_safe s (CBS_copy_bytes s n)"
  using cbs_safe_drop [of s "unat n"] by (auto simp: CBS_copy_bytes_eq intro: cbs_safe_Fail)

lemma cbs_safe_get_u: "cbs_ok s \<Longrightarrow> cbs_safe s (cbs_get_u s n)"
  using cbs_safe_drop [of s "unat n"]
  by (auto simp: cbs_get_u_def cbs_get_eq intro: cbs_safe_Fail)

lemmas [cbs_safe_intros] = cbs_safe_get_u

lemma cbs_safe_length_prefixed: "cbs_ok s \<Longrightarrow> n \<le> 3 \<Longrightarrow> cbs_safe s (cbs_get_length_prefixed s n)"
  unfolding cbs_get_length_prefixed_def by (auto simp: not_less intro: cbs_safe_intros)

lemma cbs_safe_length_prefixes [cbs_safe_intros]:
  "cbs_ok s \<Longrightarrow> cbs_safe s (CBS_get_u8_length_prefixed s)" "cbs_ok s \<Longrightarrow> cbs_safe s (CBS_get_u16_length_prefixed s)"
  "cbs_ok s \<Longrightarrow> cbs_safe s (CBS_get_u24_length_prefixed s)"
  unfolding CBS_get_u8_length_prefixed_def CBS_get_u16_length_prefixed_def CBS_get_u24_length_prefixed_def
  by (auto intro: cbs_safe_length_prefixed)

lemma memchr_from_Some: "n \<le> length m \<Longrightarrow> \<exists>r. memchr_from m c n = Some r"
  by (induction m c n rule: memchr_from.induct) auto

lemma memchr_from_bound: "memchr_from m c n = Some (Some i) \<Longrightarrow> i < n"
  by (induction m c n arbitrary: i rule: memchr_from.induct) (auto split: if_splits)

lemma cbs_safe_until_first [cbs_safe_intros]:
  assumes "cbs_ok s"
  shows "cbs_safe s (CBS_get_until_first s c)"
proof -
  obtain r where "memchr_from (CBS_data s) c (unat (CBS_len s)) = Some r"
    using assms memchr_from_Some [of "unat (CBS_len s)" "CBS_data s" c]
    by (auto simp: CBS_data_def CBS_len_def cbs_ok_def)
  then show ?thesis
    using assms by (cases r) (auto simp: CBS_get_until_first_def intro: cbs_safe_intros)
qed

lemma cbs_safe_element [cbs_safe_intros]:
  assumes "cbs_ok s"
  shows "cbs_safe s (cbs_get_any_asn1_element s ber_ok)"
proof -
  have "cbs_safe s (take_element s tag hl n f)" for tag hl n f
    using assms cbs_safe_drop [OF assms, of "hl + n"]
    by (auto simp: take_element_def intro: cbs_safe_Fail)
  then have "cbs_safe s (element_spec s ber_ok tag t os)" for tag t os
    using assms by (auto simp: element_spec_def long_form_def Let_def intro: cbs_safe_Fail split: list.splits)
  then show ?thesis
    using assms by (auto simp: any_asn1_element_eq intro: cbs_safe_Fail split: outcome.splits)
qed

lemma cbs_safe_after:
  assumes "cbs_ok s" and "der_at s tag contents"
  shows "cbs_safe s (Ok a (after_element s tag contents))" "cbs_safe s (Fail (after_element s tag contents))"
  using contents_reader(3,4) [OF assms]
  by (auto simp: cbs_safe_def intro!: exI [of _ "take (length (der_element tag contents)) (cbs_bytes s)"])

lemma cbs_safe_get_asn1 [cbs_safe_intros]:
  assumes "cbs_ok s"
  shows "cbs_safe s (cbs_get_asn1 s tag skip_header)"
  using assms
proof (cases rule: any_element_cases)
  case (1 tag' contents)
  then show ?thesis
    using assms cbs_safe_after [OF assms 1]
    by (auto simp: cbs_get_asn1_def any_element_der skip_header)
next
  case 2
  then show ?thesis using assms by (simp add: cbs_get_asn1_def cbs_safe_Fail)
qed

lemmas [cbs_safe_intros] = cbs_safe_get_asn1 [where skip_header = True, folded CBS_get_asn1_def]

lemma CBS_get_asn1_ok: "cbs_ok s \<Longrightarrow> CBS_get_asn1 s tag = Ok out s' \<Longrightarrow> cbs_ok out"
  by (auto simp: CBS_get_asn1_iff contents_reader)

lemma cbs_safe_valid_integer [cbs_safe_intros]: "cbs_ok s \<Longrightarrow> cbs_safe s (CBS_is_valid_asn1_integer s)"
  unfolding CBS_is_valid_asn1_integer_def
  by (intro cbs_safe_intros)
     (auto split: outcome.splits intro: cbs_safe_intros dest: cbs_safe_no_fault [OF cbs_safe_u8])

section \<open>Integers\<close>

lemma CBS_is_valid_asn1_integer_eq:
  assumes "cbs_ok s"
  shows "CBS_is_valid_asn1_integer s =
    (if int_minimal (cbs_bytes s) then Ok (int_val (cbs_bytes s) < 0) s else Fail s)"
proof (cases "cbs_bytes s")
  case Nil
  then show ?thesis using assms by (simp add: CBS_is_valid_asn1_integer_def CBS_get_u8_eq)
next
  case (Cons a bs)
  have ok: "cbs_ok (cbs_drop s 1)" and bs: "cbs_bytes (cbs_drop s 1) = bs"
    using assms Cons by (simp_all del: length_cbs_bytes)
  have neg: "a AND 0x80 \<noteq> 0 \<longleftrightarrow> int_val (a # bs) < 0"
  proof -
    have "int (be_nat (a # bs)) < 256 ^ length (a # bs)"
      using be_nat_bound [of "a # bs"] of_nat_less_iff [of "be_nat (a # bs)" "256 ^ length (a # bs)", where 'a = int]
      by simp
    then show ?thesis by (auto simp: int_val_def and_0x80_iff)
  qed
  have h: "b AND 0x80 = 0 \<longleftrightarrow> unat b < 128" for b :: byte using and_0x80_iff [of b] by auto
  show ?thesis
  proof (cases bs)
    case Nil
    then show ?thesis using assms Cons neg ok bs by (simp add: CBS_is_valid_asn1_integer_def CBS_get_u8_eq)
  next
    case (Cons b cs)
    then show ?thesis
      using assms \<open>cbs_bytes s = a # bs\<close> neg ok bs
      by (auto simp: CBS_is_valid_asn1_integer_def CBS_get_u8_eq h not_less)
  qed
qed

lemma CBS_is_unsigned_asn1_integer_eq:
  "cbs_ok s \<Longrightarrow> CBS_is_unsigned_asn1_integer s =
    (if int_minimal (cbs_bytes s) \<and> 0 \<le> int_val (cbs_bytes s) then Ok () s else Fail s)"
  by (simp add: CBS_is_unsigned_asn1_integer_def CBS_is_valid_asn1_integer_eq)

lemma asn1_uint64_loop_eq:
  assumes "n \<le> length m" and "v < 2 ^ 64"
  shows "asn1_uint64_loop m n (of_nat v) =
    Some (if v * 256 ^ n + be_nat (take n m) < 2 ^ 64 then Some (of_nat (v * 256 ^ n + be_nat (take n m))) else None)"
  using assms
proof (induction n arbitrary: m v)
  case (Suc n)
  then obtain b bs where m: "m = b # bs" by (cases m) auto
  have d: "drop_bit 56 (of_nat v :: u64) = 0 \<longleftrightarrow> v < 2 ^ 56"
    using Suc.prems by (simp add: word_unat_eq_iff unat_drop_bit unat_of_nat_less div_eq_0_iff)
  have b: "unat b < 256" by (rule byte_unat_less)
  show ?case
  proof (cases "v < 2 ^ 56")
    case True
    have "push_bit 8 (of_nat v :: u64) OR ucast b = of_nat (unat b) OR push_bit 8 (of_nat v)"
      by (simp add: or.commute)
    also have "\<dots> = of_nat (256 * v + unat b)"
      using b or_push_bit_of_nat [of "unat b" 8 v] by (simp add: add.commute)
    finally have w: "push_bit 8 (of_nat v :: u64) OR ucast b = of_nat (256 * v + unat b)" .
    have "256 * v + unat b < 2 ^ 64" using True b by simp
    moreover have "be_nat (take (Suc n) m) = unat b * 256 ^ n + be_nat (take n bs)"
      using Suc.prems m by (simp add: be_nat_Cons min.absorb2)
    ultimately show ?thesis
      using Suc.IH [of bs "256 * v + unat b"] Suc.prems True d m w
      by (simp add: algebra_simps del: of_nat_add of_nat_mult)
  next
    case False
    then have "2 ^ 56 * 256 ^ Suc n \<le> v * 256 ^ Suc n" by (intro mult_le_mono1) simp
    moreover have "(2::nat) ^ 64 \<le> 2 ^ 56 * 256 ^ Suc n" by simp
    ultimately have "\<not> v * 256 ^ Suc n + be_nat (take (Suc n) m) < 2 ^ 64" by linarith
    then show ?thesis using False d m by simp
  qed
qed simp

lemma int_val_nonneg: "0 \<le> int_val bs \<Longrightarrow> int_val bs = int (be_nat bs)"
proof -
  have "int (be_nat bs) < 256 ^ length bs"
    using be_nat_bound [of bs] of_nat_less_iff [of "be_nat bs" "256 ^ length bs", where 'a = int] by simp
  then show "0 \<le> int_val bs \<Longrightarrow> int_val bs = int (be_nat bs)" by (auto simp: int_val_def split: if_splits)
qed

text \<open>The reader over the contents of an element, as memory.\<close>

lemma contents_memory:
  assumes "cbs_ok s" and "der_at s tag c"
  shows "unat (cbs_len (contents_of s tag c)) = length c"
    "length c \<le> length (cbs_data (contents_of s tag c))"
    "take (length c) (cbs_data (contents_of s tag c)) = c"
  using contents_reader(1,2) [OF assms] length_cbs_bytes [OF contents_reader(1) [OF assms]]
  by (auto simp: cbs_ok_def cbs_bytes_def)

lemma CBS_get_asn1_uint64_der:
  assumes "cbs_ok s" and "der_at s CBS_ASN1_INTEGER c"
  shows "CBS_get_asn1_uint64 s =
    (if int_minimal c \<and> 0 \<le> int_val c \<and> int_val c < 2 ^ 64
     then Ok (of_nat (be_nat c)) (after_element s CBS_ASN1_INTEGER c)
     else Fail (after_element s CBS_ASN1_INTEGER c))"
proof -
  note mem = contents_memory [OF assms] contents_reader(1,2) [OF assms]
  have "asn1_uint64_loop (cbs_data (contents_of s CBS_ASN1_INTEGER c)) (length c) 0 =
      Some (if be_nat c < 2 ^ 64 then Some (of_nat (be_nat c)) else None)"
    using asn1_uint64_loop_eq [OF mem(2), of 0] by (simp add: mem(3))
  moreover have "0 \<le> int_val c \<Longrightarrow> int_val c < 2 ^ 64 \<longleftrightarrow> be_nat c < 2 ^ 64"
    using int_val_nonneg [of c] by simp
  ultimately show ?thesis
    by (simp add: CBS_get_asn1_uint64_def CBS_get_asn1_der [OF assms] CBS_is_unsigned_asn1_integer_eq mem
        CBS_data_def CBS_len_def)
qed

lemma CBS_get_asn1_uint64_iff:
  assumes "cbs_ok s"
  shows "CBS_get_asn1_uint64 s = Ok v s' \<longleftrightarrow>
    der_at s CBS_ASN1_INTEGER (int_bytes (uint v)) \<and> s' = after_element s CBS_ASN1_INTEGER (int_bytes (uint v))"
    (is "?l \<longleftrightarrow> ?r")
proof
  assume l: ?l
  then obtain c where at: "der_at s CBS_ASN1_INTEGER c"
    by (auto simp: CBS_get_asn1_uint64_def CBS_get_asn1_iff [OF assms])
  have min: "int_minimal c" "0 \<le> int_val c" "int_val c < 2 ^ 64" and v: "v = of_nat (be_nat c)"
    and s': "s' = after_element s CBS_ASN1_INTEGER c"
    using l unfolding CBS_get_asn1_uint64_der [OF assms at] by (simp_all split: if_splits)
  have "uint v = int_val c"
    using int_val_nonneg [OF min(2)] min(3) by (simp add: v unsigned_of_nat take_bit_nat_eq_self_iff)
  then show ?r using at s' int_bytes_val [OF min(1)] by simp
next
  assume r: ?r
  have iv: "int_val (int_bytes (uint v)) = uint v" by (rule int_val_bytes)
  then have "int (be_nat (int_bytes (uint v))) = uint v" using int_val_nonneg [of "int_bytes (uint v)"] by simp
  then have "be_nat (int_bytes (uint v)) = unat v" by (metis nat_int unat_eq_nat_uint)
  then show ?l
    using r CBS_get_asn1_uint64_der [OF assms, of "int_bytes (uint v)"] int_minimal_bytes [of "uint v"]
      unsigned_less [of v]
    by (simp add: iv)
qed

lemma le_nat_append: "le_nat (xs @ ys) = le_nat xs + 256 ^ length xs * le_nat ys"
  by (induction xs) (simp_all add: algebra_simps)

lemma le_nat_fill: "le_nat (replicate m 0xFF) + 1 = 256 ^ m" "le_nat (replicate m 0) = 0"
  by (induction m) simp_all

lemma sign_extend:
  assumes "c \<noteq> []" and "length c \<le> 8"
  shows "(of_nat (le_nat (rev c @ drop (length c) (replicate 8 (if int_val c < 0 then 0xFF else 0)))) :: u64) =
    of_int (int_val c)"
proof (cases "int_val c < 0")
  case False
  then show ?thesis using int_val_nonneg [of c] by (simp add: le_nat_append le_nat_fill be_nat_def)
next
  case True
  let ?m = "8 - length c"
  have "int (le_nat (rev c @ replicate ?m 0xFF)) + 256 ^ length c =
      int (be_nat c) + 256 ^ length c * int (le_nat (replicate ?m 0xFF) + 1)"
    by (simp add: le_nat_append be_nat_def algebra_simps)
  also have "\<dots> = int (be_nat c) + 256 ^ length c * 256 ^ ?m" by (simp only: le_nat_fill) simp
  also have "(256 :: int) ^ length c * 256 ^ ?m = 2 ^ 64"
    using assms(2) by (simp flip: power_add)
  finally have "int (le_nat (rev c @ replicate ?m 0xFF)) = int_val c + 2 ^ 64"
    using True by (auto simp: int_val_def split: if_splits)
  then have "(of_int (int (le_nat (rev c @ replicate ?m 0xFF))) :: u64) = of_int (int_val c + 2 ^ 64)" by simp
  then show ?thesis using True by simp
qed

lemma CBS_get_asn1_int64_der:
  assumes "cbs_ok s" and "der_at s CBS_ASN1_INTEGER c"
  shows "CBS_get_asn1_int64 s =
    (if int_minimal c \<and> length c \<le> 8
     then Ok (of_int (int_val c)) (after_element s CBS_ASN1_INTEGER c)
     else Fail (after_element s CBS_ASN1_INTEGER c))"
proof -
  note mem = contents_memory [OF assms] contents_reader(1,2) [OF assms]
  have "int_minimal c \<Longrightarrow> c \<noteq> []" by auto
  then show ?thesis
    using sign_extend [of c]
    by (auto simp: CBS_get_asn1_int64_def CBS_get_asn1_der [OF assms] CBS_is_valid_asn1_integer_eq mem
        CBS_data_def CBS_len_def word_less_nat_alt mem_range_def Let_def)
qed

lemma CBS_get_asn1_int64_iff:
  assumes "cbs_ok s"
  shows "CBS_get_asn1_int64 s = Ok v s' \<longleftrightarrow>
    der_at s CBS_ASN1_INTEGER (int_bytes (sint v)) \<and> s' = after_element s CBS_ASN1_INTEGER (int_bytes (sint v))"
    (is "?l \<longleftrightarrow> ?r")
proof
  assume l: ?l
  then obtain c where at: "der_at s CBS_ASN1_INTEGER c"
    by (auto simp: CBS_get_asn1_int64_def CBS_get_asn1_iff [OF assms])
  have min: "int_minimal c" "length c \<le> 8" and v: "v = of_int (int_val c)"
    and s': "s' = after_element s CBS_ASN1_INTEGER c"
    using l unfolding CBS_get_asn1_int64_der [OF assms at] by (simp_all split: if_splits)
  have "c \<noteq> []" using min(1) by auto
  have "(128::int) * 256 ^ (length c - 1) \<le> 128 * 256 ^ 7" using min(2) by (intro mult_left_mono power_increasing) auto
  then have "- (2 ^ 63) \<le> int_val c" "int_val c < 2 ^ 63"
    using int_val_bound [OF \<open>c \<noteq> []\<close>] by simp_all
  then have "sint v = int_val c" unfolding v by (simp add: signed_of_int signed_take_bit_int_eq_self)
  then show ?r using at s' int_bytes_val [OF min(1)] by simp
next
  assume r: ?r
  have "- (2 ^ 63) \<le> sint v" "sint v < 2 ^ 63" using sint_ge [of v] sint_less [of v] by simp_all
  then have "length (int_bytes (sint v)) \<le> 8" using int_bytes_length [of 7 "sint v"] by simp
  then show ?l
    using r CBS_get_asn1_int64_der [OF assms, of "int_bytes (sint v)"] int_minimal_bytes [of "sint v"]
      int_val_bytes [of "sint v"] by simp
qed

section \<open>Booleans\<close>

lemma CBS_get_asn1_bool_iff:
  assumes "cbs_ok s"
  shows "CBS_get_asn1_bool s = Ok v s' \<longleftrightarrow>
    der_at s CBS_ASN1_BOOLEAN [if v then 0xFF else 0] \<and>
    s' = after_element s CBS_ASN1_BOOLEAN [if v then 0xFF else 0]"
    (is "?l \<longleftrightarrow> ?r")
proof -
  have der: "CBS_get_asn1_bool s =
      (if c = [0] \<or> c = [0xFF] then Ok (c = [0xFF]) (after_element s CBS_ASN1_BOOLEAN c)
       else Fail (after_element s CBS_ASN1_BOOLEAN c))" if "der_at s CBS_ASN1_BOOLEAN c" for c
  proof -
    note mem = contents_memory [OF assms that]
    have one: "cbs_len (contents_of s CBS_ASN1_BOOLEAN c) = 1 \<longleftrightarrow> length c = 1"
      by (simp add: word_unat_eq_iff mem(1))
    show ?thesis
    proof (cases "length c = 1")
      case True
      then obtain b where c: "c = [b]" by (auto simp: length_Suc_conv)
      have "mem_at (cbs_data (contents_of s CBS_ASN1_BOOLEAN c)) 0 = Some b"
        using mem(2,3) by (cases "cbs_data (contents_of s CBS_ASN1_BOOLEAN c)") (auto simp: mem_at_def c)
      then show ?thesis
        using True one by (auto simp: CBS_get_asn1_bool_def CBS_get_asn1_der [OF assms that] CBS_len_def CBS_data_def c)
    next
      case False
      then show ?thesis
        using one by (auto simp: CBS_get_asn1_bool_def CBS_get_asn1_der [OF assms that] CBS_len_def)
    qed
  qed
  show ?thesis
  proof
    assume l: ?l
    then obtain c where at: "der_at s CBS_ASN1_BOOLEAN c"
      by (auto simp: CBS_get_asn1_bool_def CBS_get_asn1_iff [OF assms])
    show ?r using l at der [OF at] by (cases v) (auto split: if_splits)
  next
    assume ?r
    then show ?l using der [of "[if v then 0xFF else 0]"] by (cases v) auto
  qed
qed

section \<open>Optional elements\<close>

definition tag_ahead :: "CBS \<Rightarrow> u32 \<Rightarrow> bool" where
  "tag_ahead s tag \<longleftrightarrow> (\<exists>rest. cbs_bytes s = der_tag tag @ rest)"

lemma CBS_peek_asn1_tag_eq:
  assumes "cbs_ok s"
  shows "CBS_peek_asn1_tag s tag = Ok (tag_ahead s tag) s"
proof (cases "cbs_len s < 1")
  case True
  then have "cbs_bytes s = []" by (simp add: cbs_bytes_def word_less_nat_alt)
  then show ?thesis using True by (simp add: CBS_peek_asn1_tag_def tag_ahead_def CBS_len_def)
next
  case False
  have "tag_ahead s tag" if "parse_asn1_tag s = Ok tag s'" for s'
    using parse_asn1_tag_sound [OF assms that] by (simp add: tag_ahead_def)
  moreover have "parse_asn1_tag s = Ok tag (cbs_drop s (length (der_tag tag)))" if "tag_ahead s tag"
    using that parse_asn1_tag_complete [OF assms] by (auto simp: tag_ahead_def)
  ultimately show ?thesis
    using False parse_asn1_tag_no_fault [OF assms]
    by (auto simp: CBS_peek_asn1_tag_def CBS_len_def split: outcome.splits)
qed

lemma der_at_tag_ahead: "der_at s tag c \<Longrightarrow> tag_ahead s tag"
  by (auto simp: der_at_def tag_ahead_def der_element_def der_header_def)

lemma CBS_get_optional_asn1_eq:
  "cbs_ok s \<Longrightarrow> CBS_get_optional_asn1 s tag =
     (if tag_ahead s tag then obind (CBS_get_asn1 s tag) (\<lambda>out s'. Ok (Some out) s') else Ok None s)"
  by (simp add: CBS_get_optional_asn1_def CBS_peek_asn1_tag_eq)

text \<open>An element that fills its reader: what \<open>CBS_len(&child) == 0\<close> checks after the inner element was read.\<close>

lemma whole_element:
  assumes "cbs_ok r" and "der_at r tag c"
  shows "cbs_len (after_element r tag c) = 0 \<longleftrightarrow> cbs_bytes r = der_element tag c"
proof -
  obtain rest where b: "cbs_bytes r = der_element tag c @ rest" using assms(2) by (auto simp: der_at_def)
  have "unat (cbs_len (after_element r tag c)) = length (drop (length (der_element tag c)) (cbs_bytes r))"
    using length_cbs_bytes [OF contents_reader(3) [OF assms]] contents_reader(4) [OF assms] by simp
  then show ?thesis by (simp add: b word_unat_eq_iff)
qed

lemma nested_der_at:
  assumes "cbs_ok s" and "der_at s tag (der_element tag2 c)"
  shows "der_at (contents_of s tag (der_element tag2 c)) tag2 c"
  using contents_reader(2) [OF assms] assms(2) by (auto simp: der_at_def length_der_element)

lemma CBS_get_optional_asn1_uint64_iff:
  assumes "cbs_ok s"
  shows "CBS_get_optional_asn1_uint64 s tag d = Ok v s' \<longleftrightarrow>
    (if tag_ahead s tag
     then (let c = der_element CBS_ASN1_INTEGER (int_bytes (uint v))
           in der_at s tag c \<and> s' = after_element s tag c)
     else v = d \<and> s' = s)"
    (is "?l \<longleftrightarrow> ?r")
proof (cases "tag_ahead s tag")
  case False
  then show ?thesis using assms by (auto simp: CBS_get_optional_asn1_uint64_def CBS_get_optional_asn1_eq)
next
  case True
  let ?c = "der_element CBS_ASN1_INTEGER (int_bytes (uint v))"
  have "?l \<longleftrightarrow> (\<exists>c. der_at s tag c \<and> s' = after_element s tag c \<and>
      (\<exists>t. CBS_get_asn1_uint64 (contents_of s tag c) = Ok v t \<and> cbs_len t = 0))"
  proof (cases "\<exists>c. der_at s tag c")
    case D: True
    then obtain c where at: "der_at s tag c" by blast
    then have "der_at s tag c' \<longleftrightarrow> c' = c" for c' using der_at_unique [OF assms at] by blast
    then show ?thesis
      using True by (auto simp: CBS_get_optional_asn1_uint64_def CBS_get_optional_asn1_eq [OF assms]
          CBS_get_asn1_der [OF assms at] CBS_len_def split: if_splits)
  next
    case False
    then show ?thesis
      using True by (auto simp: CBS_get_optional_asn1_uint64_def CBS_get_optional_asn1_eq [OF assms]
          CBS_get_asn1_iff [OF assms])
  qed
  also have "\<dots> \<longleftrightarrow> (\<exists>c. der_at s tag c \<and> s' = after_element s tag c \<and> c = ?c)"
  proof (intro ex_cong1 conj_cong refl)
    fix c assume at: "der_at s tag c"
    note r = contents_reader(1,2) [OF assms at]
    show "(\<exists>t. CBS_get_asn1_uint64 (contents_of s tag c) = Ok v t \<and> cbs_len t = 0) \<longleftrightarrow> c = ?c"
      using whole_element [OF r(1), of CBS_ASN1_INTEGER "int_bytes (uint v)"] nested_der_at [OF assms, of tag] at r(2)
      by (auto simp: CBS_get_asn1_uint64_iff [OF r(1)])
  qed
  finally show ?thesis using True by auto
qed

section \<open>Bit strings\<close>

lemma low_bits_zero: "(b :: byte) AND (push_bit u 1 - 1) = 0 \<longleftrightarrow> (\<forall>i<u. \<not> bit b i)"
proof -
  have "b AND (push_bit u 1 - 1) = take_bit u b"
    by (simp add: take_bit_eq_mask mask_eq_exp_minus_1 push_bit_eq_mult)
  moreover have "bit b i \<Longrightarrow> i < 8" for i using bit_imp_le_length [of b i] by simp
  ultimately show ?thesis by (auto simp: bit_eq_iff bit_take_bit_iff)
qed

definition bitstring_ok :: "byte list \<Rightarrow> bool" where
  "bitstring_ok bs \<longleftrightarrow> bs \<noteq> [] \<and> unat (hd bs) \<le> 7 \<and>
     (unat (hd bs) = 0 \<or> 2 \<le> length bs \<and> (\<forall>i<unat (hd bs). \<not> bit (last bs) i))"

lemma CBS_get_last_u8_eq:
  assumes "cbs_ok s"
  shows "CBS_get_last_u8 s =
    (if cbs_bytes s = [] then Fail s else Ok (last (cbs_bytes s)) (s\<lparr>cbs_len := cbs_len s - 1\<rparr>))"
proof (cases "cbs_len s = 0")
  case False
  define n where "n = unat (cbs_len s)"
  have n: "0 < n" "n \<le> length (cbs_data s)" "unat (cbs_len s - 1) = n - 1"
    using False assms by (simp_all add: n_def cbs_ok_def unat_gt_0 unat_minus_one)
  have "last (take n (cbs_data s)) = cbs_data s ! (n - 1)" using n by (subst last_conv_nth) auto
  moreover have "take n (cbs_data s) \<noteq> []" using n by auto
  ultimately show ?thesis using False n by (simp add: CBS_get_last_u8_def cbs_bytes_def mem_at_def flip: n_def)
qed (simp add: CBS_get_last_u8_def cbs_bytes_def)

lemma CBS_is_valid_asn1_bitstring_eq:
  assumes "cbs_ok s"
  shows "CBS_is_valid_asn1_bitstring s = (if bitstring_ok (cbs_bytes s) then Ok () s else Fail s)"
proof (cases "cbs_bytes s")
  case Nil
  then show ?thesis using assms by (simp add: CBS_is_valid_asn1_bitstring_def CBS_get_u8_eq bitstring_ok_def)
next
  case (Cons u bs)
  have ok: "cbs_ok (cbs_drop s 1)" and bs: "cbs_bytes (cbs_drop s 1) = bs"
    using assms Cons by (simp_all del: length_cbs_bytes)
  have z: "u = 0 \<longleftrightarrow> unat u = 0" "u > 7 \<longleftrightarrow> \<not> unat u \<le> 7"
    by (simp_all add: word_unat_eq_iff word_less_nat_alt not_le)
  have two: "2 \<le> length (cbs_bytes s) \<longleftrightarrow> bs \<noteq> []" by (cases bs) (simp_all add: Cons)
  have l: "bs \<noteq> [] \<Longrightarrow> last (cbs_bytes s) = last bs" by (simp add: Cons)
  show ?thesis
    unfolding CBS_is_valid_asn1_bitstring_def CBS_get_u8_eq [OF assms] Cons list.case obind_local.simps
      CBS_get_last_u8_eq [OF ok] bs z low_bits_zero
    using Cons two l by (auto simp: bitstring_ok_def)
qed

lemma CBS_asn1_bitstring_has_bit_eq:
  assumes "cbs_ok s" and "bitstring_ok (cbs_bytes s)"
  shows "CBS_asn1_bitstring_has_bit s k =
    Ok (unat k < 8 * (length (cbs_bytes s) - 1) - unat (hd (cbs_bytes s)) \<and>
        bit (cbs_bytes s ! (unat k div 8 + 1)) (7 - unat k mod 8)) s"
proof -
  let ?bs = "cbs_bytes s"
  let ?j = "unat k div 8 + 1"
  have k: "unat k < 2 ^ 32" using unat_lt_2p [of k] by simp
  have j: "unat (drop_bit 3 k + 1) = ?j"
    using k by (subst unat_add_no_overflow) (simp_all add: unat_drop_bit)
  have i: "unat (7 - (k AND 7)) = 7 - unat k mod 8"
  proof -
    have "unat (k AND 7) = unat k mod 8" using unat_take_mask [of k 3] by (simp add: mask_eq_exp_minus_1)
    moreover have "k AND 7 \<le> 7" using calculation by (simp add: word_le_nat_alt)
    ultimately show ?thesis by (simp add: unat_sub_le)
  qed
  have c: "ucast (drop_bit 3 k + 1) < cbs_len s \<longleftrightarrow> ?j < length ?bs"
  proof -
    have "unat (ucast (drop_bit 3 k + 1) :: size_t) = ?j"
      using k by (simp only: ucast_eq_of_nat j) (intro unat_of_nat_less, simp)
    then show ?thesis using assms(1) by (simp add: word_less_nat_alt)
  qed
  have m: "?j < length ?bs \<Longrightarrow> mem_at (cbs_data s) ?j = Some (?bs ! ?j)"
    using assms(1) by (simp add: mem_at_def cbs_ok_def cbs_bytes_def)
  have b: "(x :: byte) AND push_bit n 1 \<noteq> 0 \<longleftrightarrow> bit x n" if "n < 8" for x n
    using that by (simp add: push_bit_eq_mult and_exp_eq_0_iff_not_bit)
  have res: "CBS_asn1_bitstring_has_bit s k = Ok (?j < length ?bs \<and> bit (?bs ! ?j) (7 - unat k mod 8)) s"
    using assms m b
    by (simp add: CBS_asn1_bitstring_has_bit_def CBS_is_valid_asn1_bitstring_eq Let_def j i c CBS_len_def CBS_data_def)
  have "\<not> bit (?bs ! ?j) (7 - unat k mod 8)"
    if "?j < length ?bs" "8 * (length ?bs - 1) - unat (hd ?bs) \<le> unat k"
  proof -
    have h: "unat (hd ?bs) \<le> 7" using assms(2) by (simp add: bitstring_ok_def)
    have "unat k div 8 + 2 \<ge> length ?bs"
    proof (rule ccontr)
      assume "\<not> unat k div 8 + 2 \<ge> length ?bs"
      then show False using that h by linarith
    qed
    then have last: "?j = length ?bs - 1" using that by simp
    then have "unat k div 8 = length ?bs - 2" by linarith
    then have "unat k = 8 * (length ?bs - 2) + unat k mod 8" by (metis mult_div_mod_eq)
    then have "7 - unat k mod 8 < unat (hd ?bs)" using that h last by linarith
    moreover have "?bs ! ?j = List.last ?bs" using last that by (subst last_conv_nth) auto
    ultimately show ?thesis using assms(2) by (auto simp: bitstring_ok_def)
  qed
  moreover have "?j < length ?bs" if "unat k < 8 * (length ?bs - 1) - unat (hd ?bs)" using that by linarith
  ultimately show ?thesis unfolding res outcome.inject by (meson not_le)
qed

section \<open>Safety of the value readers\<close>

lemma cbs_safe_optional [cbs_safe_intros]: "cbs_ok s \<Longrightarrow> cbs_safe s (CBS_get_optional_asn1 s tag)"
  by (auto simp: CBS_get_optional_asn1_eq intro!: cbs_safe_intros)

lemma CBS_get_optional_asn1_ok:
  "cbs_ok s \<Longrightarrow> CBS_get_optional_asn1 s tag = Ok (Some out) s' \<Longrightarrow> cbs_ok out"
  by (auto simp: CBS_get_optional_asn1_eq intro: CBS_get_asn1_ok split: if_splits)

lemma CBS_get_asn1_bytes:
  assumes "cbs_ok s" and "CBS_get_asn1 s tag = Ok out s'"
  shows "cbs_ok out" "unat (cbs_len out) \<le> length (cbs_data out)"
    "cbs_len out = 1 \<Longrightarrow> mem_at (cbs_data out) 0 \<noteq> None"
    "mem_range (cbs_data out) (unat (cbs_len out)) \<noteq> None"
    "\<exists>r. asn1_uint64_loop (cbs_data out) (unat (cbs_len out)) 0 = Some r"
proof -
  show ok: "cbs_ok out" using CBS_get_asn1_ok [OF assms] .
  then show l: "unat (cbs_len out) \<le> length (cbs_data out)" by (simp add: cbs_ok_def)
  then show "cbs_len out = 1 \<Longrightarrow> mem_at (cbs_data out) 0 \<noteq> None" by (auto simp: mem_at_def)
  show "mem_range (cbs_data out) (unat (cbs_len out)) \<noteq> None" using l by (simp add: mem_range_def)
  show "\<exists>r. asn1_uint64_loop (cbs_data out) (unat (cbs_len out)) 0 = Some r"
    using asn1_uint64_loop_eq [OF l, of 0] by simp
qed

lemma cbs_safe_uint64 [cbs_safe_intros]: "cbs_ok s \<Longrightarrow> cbs_safe s (CBS_get_asn1_uint64 s)"
  unfolding CBS_get_asn1_uint64_def CBS_data_def CBS_len_def CBS_is_unsigned_asn1_integer_def
  by (intro cbs_safe_intros)
     (auto dest: CBS_get_asn1_bytes(1,5) intro: cbs_safe_intros split: option.splits)

lemma cbs_safe_int64 [cbs_safe_intros]: "cbs_ok s \<Longrightarrow> cbs_safe s (CBS_get_asn1_int64 s)"
  unfolding CBS_get_asn1_int64_def CBS_data_def CBS_len_def
  by (intro cbs_safe_intros)
     (auto dest: CBS_get_asn1_bytes(1,4) intro: cbs_safe_intros split: option.splits simp: Let_def)

lemma cbs_safe_bool [cbs_safe_intros]: "cbs_ok s \<Longrightarrow> cbs_safe s (CBS_get_asn1_bool s)"
  unfolding CBS_get_asn1_bool_def CBS_data_def CBS_len_def
  by (intro cbs_safe_intros)
     (auto dest: CBS_get_asn1_bytes(3) intro: cbs_safe_intros split: option.splits)

lemma cbs_safe_optional_uint64 [cbs_safe_intros]:
  "cbs_ok s \<Longrightarrow> cbs_safe s (CBS_get_optional_asn1_uint64 s tag d)"
  unfolding CBS_get_optional_asn1_uint64_def
  by (intro cbs_safe_obind cbs_safe_optional)
     (auto dest: CBS_get_optional_asn1_ok intro!: cbs_safe_local cbs_safe_Ok cbs_safe_Fail cbs_safe_uint64
       split: option.splits)

lemma cbs_safe_optional_octet_string [cbs_safe_intros]:
  "cbs_ok s \<Longrightarrow> cbs_safe s (CBS_get_optional_asn1_octet_string s tag)"
  unfolding CBS_get_optional_asn1_octet_string_def
  by (intro cbs_safe_obind cbs_safe_optional)
     (auto dest: CBS_get_optional_asn1_ok intro!: cbs_safe_local cbs_safe_Ok cbs_safe_Fail
        cbs_safe_get_asn1 [where skip_header = True, folded CBS_get_asn1_def]
       split: option.splits)

lemma cbs_safe_optional_bool [cbs_safe_intros]:
  "cbs_ok s \<Longrightarrow> cbs_safe s (CBS_get_optional_asn1_bool s tag d)"
  unfolding CBS_get_optional_asn1_bool_def CBS_data_def CBS_len_def
  by (intro cbs_safe_obind cbs_safe_optional)
     (auto dest: CBS_get_optional_asn1_ok CBS_get_asn1_bytes(3) [OF CBS_get_optional_asn1_ok] intro!: cbs_safe_local cbs_safe_Ok cbs_safe_Fail
        cbs_safe_get_asn1 [where skip_header = True, folded CBS_get_asn1_def]
       split: option.splits)

end
