(* ===== verification/Cbb.thy ===== *)
theory Cbb
  imports Cbs
begin

text \<open>
  BoringSSL's byte-string builder (\<^verbatim>\<open>crypto/bytestring/cbb.c\<close>).  A top-level \<open>CBB\<close> and the children that are
  open below it share one buffer; every \<open>CBB\<close> points to at most one open child, so the objects that share a
  buffer form a chain.  The state of a builder is the buffer together with that chain (top-level object
  first); a \<open>CBB *\<close> argument is its position \<open>d\<close> in the chain.  An object that was closed by a flush has
  \<open>base == NULL\<close> in C; here its position is outside the chain.

  \<open>OPENSSL_malloc\<close> is the parameter \<open>alloc\<close>: \<open>None\<close> when it fails, otherwise the (uninitialised) fresh memory.
  Writes are checked against the memory behind \<open>buf\<close>; a write outside of it is a \<open>Fault\<close>.
\<close>

unbundle bit_operations_syntax

type_synonym allocator = "size_t \<Rightarrow> byte list option"

record cbb_buffer_st =
  buf :: "byte list"
  buf_len :: size_t
  cap :: size_t
  can_resize :: bool
  error :: bool

record cbb_st =
  offset :: size_t
  pending_len_len :: byte
  pending_is_asn1 :: bool
  is_child :: bool

record CBB =
  base :: "cbb_buffer_st option"
  chain :: "cbb_st list"

section \<open>Memory\<close>

definition OPENSSL_realloc :: "allocator \<Rightarrow> byte list \<Rightarrow> size_t \<Rightarrow> byte list option" where
  "OPENSSL_realloc alloc orig new_size =
     (case alloc new_size of
        None \<Rightarrow> None
      | Some fresh \<Rightarrow> Some (take (unat new_size) orig @ drop (length orig) fresh))"

section \<open>Initialisation\<close>

definition CBB_zero :: CBB where
  "CBB_zero = \<lparr>base = None,
     chain = [\<lparr>offset = 0, pending_len_len = 0, pending_is_asn1 = False, is_child = False\<rparr>]\<rparr>"

text \<open>\<open>cbb_init\<close> allocates the buffer descriptor (32 bytes) and hangs it into the zeroed object.\<close>

definition cbb_init :: "allocator \<Rightarrow> byte list \<Rightarrow> size_t \<Rightarrow> (unit, CBB) outcome" where
  "cbb_init alloc m capacity =
     (case alloc 32 of
        None \<Rightarrow> Fail CBB_zero
      | Some _ \<Rightarrow> Ok () (CBB_zero\<lparr>base := Some \<lparr>buf = m, buf_len = 0, cap = capacity,
                                               can_resize = True, error = False\<rparr>\<rparr>))"

definition CBB_init :: "allocator \<Rightarrow> size_t \<Rightarrow> (unit, CBB) outcome" where
  "CBB_init alloc initial_capacity =
     (case alloc initial_capacity of
        None \<Rightarrow> if initial_capacity > 0 then Fail CBB_zero else cbb_init alloc [] initial_capacity
      | Some m \<Rightarrow> cbb_init alloc m initial_capacity)"

definition CBB_init_fixed :: "allocator \<Rightarrow> byte list \<Rightarrow> size_t \<Rightarrow> (unit, CBB) outcome" where
  "CBB_init_fixed alloc m len =
     obind (cbb_init alloc m len) (\<lambda>_ cbb.
       Ok () (cbb\<lparr>base := map_option (\<lambda>b. b\<lparr>can_resize := False\<rparr>) (base cbb)\<rparr>))"

text \<open>\<open>CBB_cleanup\<close> asserts that it is not called on a child, open or closed: \<open>None\<close> is the failed assertion.\<close>

definition CBB_cleanup :: "CBB \<Rightarrow> nat \<Rightarrow> CBB option" where
  "CBB_cleanup cbb d = (if d < length (chain cbb) \<and> \<not> is_child (chain cbb ! d) then Some (cbb\<lparr>base := None\<rparr>) else None)"

text \<open>The error exits of the functions that build in an object of their own: they clean it up and return 0.\<close>

definition clean_exit :: "CBB \<Rightarrow> 's \<Rightarrow> ('a, 's) outcome" where
  "clean_exit cbb s = (case CBB_cleanup cbb 0 of None \<Rightarrow> Fault | Some _ \<Rightarrow> Fail s)"

section \<open>The buffer\<close>

text \<open>\<open>cbb_buffer_reserve\<close> returns the position of the reserved space.\<close>

definition cbb_buffer_reserve :: "allocator \<Rightarrow> cbb_buffer_st \<Rightarrow> size_t \<Rightarrow> (nat, cbb_buffer_st) outcome" where
  "cbb_buffer_reserve alloc b len =
     (let newlen = buf_len b + len in
      if newlen < buf_len b then Fail (b\<lparr>error := True\<rparr>)
      else if newlen > cap b then
        (let newcap = (if cap b * 2 < cap b \<or> cap b * 2 < newlen then newlen else cap b * 2) in
         if \<not> can_resize b then Fail (b\<lparr>error := True\<rparr>)
         else (case OPENSSL_realloc alloc (buf b) newcap of
                 None \<Rightarrow> Fail (b\<lparr>error := True\<rparr>)
               | Some newbuf \<Rightarrow> Ok (unat (buf_len b)) (b\<lparr>buf := newbuf, cap := newcap\<rparr>)))
      else Ok (unat (buf_len b)) b)"

definition cbb_buffer_add :: "allocator \<Rightarrow> cbb_buffer_st \<Rightarrow> size_t \<Rightarrow> (nat, cbb_buffer_st) outcome" where
  "cbb_buffer_add alloc b len =
     obind (cbb_buffer_reserve alloc b len) (\<lambda>p b'. Ok p (b'\<lparr>buf_len := buf_len b' + len\<rparr>))"

text \<open>The loop that writes \<open>v\<close> in big-endian order from the last byte to the first, shifting it out; what is
  left of \<open>v\<close> is returned.\<close>

fun put_be :: "byte list \<Rightarrow> nat \<Rightarrow> nat \<Rightarrow> u64 \<Rightarrow> (byte list \<times> u64) option" where
  "put_be m p 0 v = Some (m, v)"
| "put_be m p (Suc i) v =
     (case mem_put m (p + i) (ucast v) of
        None \<Rightarrow> None
      | Some m' \<Rightarrow> put_be m' p i (drop_bit 8 v))"

definition cbb_buffer_add_u :: "allocator \<Rightarrow> cbb_buffer_st \<Rightarrow> u64 \<Rightarrow> size_t \<Rightarrow> (unit, cbb_buffer_st) outcome" where
  "cbb_buffer_add_u alloc b v len_len =
     (if len_len = 0 then Ok () b
      else obind (cbb_buffer_add alloc b len_len) (\<lambda>p b1.
        (case put_be (buf b1) p (unat len_len) v of
           None \<Rightarrow> Fault
         | Some (m, v') \<Rightarrow>
             let b2 = b1\<lparr>buf := m\<rparr> in
             if v' \<noteq> 0 then Fail (b2\<lparr>error := True\<rparr>) else Ok () b2)))"

section \<open>Flushing\<close>

text \<open>The form of a DER length: the number of bytes of the prefix, the first byte, and what is left to write
  behind it.\<close>

definition asn1_len_form :: "size_t \<Rightarrow> (byte \<times> byte \<times> size_t) option" where
  "asn1_len_form len =
     (if len > 0xFFFFFFFE then None
      else if len > 0xFFFFFF then Some (5, 0x80 OR 4, len)
      else if len > 0xFFFF then Some (4, 0x80 OR 3, len)
      else if len > 0xFF then Some (3, 0x80 OR 2, len)
      else if len > 0x7F then Some (2, 0x80 OR 1, len)
      else Some (1, ucast len, 0))"

text \<open>The ASN.1 branch of \<open>CBB_flush\<close>, with its assertion that one byte was set aside for the length.\<close>

definition flush_asn1_len ::
    "allocator \<Rightarrow> cbb_buffer_st \<Rightarrow> cbb_st \<Rightarrow> size_t \<Rightarrow> size_t \<Rightarrow> (cbb_st \<times> size_t, cbb_buffer_st) outcome" where
  "flush_asn1_len alloc b child child_start len =
     (if pending_len_len child \<noteq> 1 then Fault else
      case asn1_len_form len of
        None \<Rightarrow> Fail b
      | Some (len_len, initial_length_byte, len') \<Rightarrow>
          obind (if len_len \<noteq> 1
                 then let extra_bytes = ucast len_len - 1 in
                   obind (cbb_buffer_add alloc b extra_bytes) (\<lambda>_ b1.
                     (case mem_move (buf b1) (unat (child_start + extra_bytes)) (unat child_start) (unat len') of
                        None \<Rightarrow> Fault
                      | Some m \<Rightarrow> Ok () (b1\<lparr>buf := m\<rparr>)))
                 else Ok () b) (\<lambda>_ b2.
            (case mem_put (buf b2) (unat (offset child)) initial_length_byte of
               None \<Rightarrow> Fault
             | Some m \<Rightarrow>
                 Ok (child\<lparr>offset := offset child + 1, pending_len_len := len_len - 1\<rparr>, len')
                    (b2\<lparr>buf := m\<rparr>))))"

text \<open>Writing out the length prefix of \<open>child\<close>, whose own children \<open>cs\<close> have been flushed.  On success the
  child is detached.\<close>

definition flush_prefix ::
    "allocator \<Rightarrow> cbb_buffer_st \<Rightarrow> cbb_st \<Rightarrow> cbb_st list \<Rightarrow> (unit, cbb_buffer_st \<times> cbb_st list) outcome" where
  "flush_prefix alloc b child cs =
     (let child_start = offset child + ucast (pending_len_len child) in
      if child_start < offset child \<or> buf_len b < child_start then Fail (b\<lparr>error := True\<rparr>, child # cs)
      else let len = buf_len b - child_start in
        (case (if pending_is_asn1 child then flush_asn1_len alloc b child child_start len
               else Ok (child, len) b) of
           Fault \<Rightarrow> Fault
         | Fail b1 \<Rightarrow> Fail (b1\<lparr>error := True\<rparr>, child # cs)
         | Ok (child1, len1) b1 \<Rightarrow>
             (case put_be (buf b1) (unat (offset child1)) (unat (pending_len_len child1)) len1 of
                None \<Rightarrow> Fault
              | Some (m, len2) \<Rightarrow>
                  let b2 = b1\<lparr>buf := m\<rparr> in
                  if len2 \<noteq> 0 then Fail (b2\<lparr>error := True\<rparr>, child1 # cs) else Ok () (b2, []))))"

text \<open>\<open>CBB_flush\<close> on an object whose open descendants are the given list.\<close>

fun flush_children ::
    "allocator \<Rightarrow> cbb_buffer_st \<Rightarrow> cbb_st list \<Rightarrow> (unit, cbb_buffer_st \<times> cbb_st list) outcome" where
  "flush_children alloc b [] = (if error b then Fail (b, []) else Ok () (b, []))"
| "flush_children alloc b (child # cs) =
     (if error b then Fail (b, child # cs)
      else if pending_len_len child = 0 then Ok () (b, child # cs)
      else (case flush_children alloc b cs of
              Fault \<Rightarrow> Fault
            | Fail (b1, cs1) \<Rightarrow> Fail (b1\<lparr>error := True\<rparr>, child # cs1)
            | Ok _ (b1, cs1) \<Rightarrow> flush_prefix alloc b1 child cs1))"

definition CBB_flush :: "allocator \<Rightarrow> CBB \<Rightarrow> nat \<Rightarrow> (unit, CBB) outcome" where
  "CBB_flush alloc cbb d =
     (if length (chain cbb) \<le> d then Fail cbb
      else (case base cbb of
              None \<Rightarrow> Fail cbb
            | Some b \<Rightarrow>
                let put = (\<lambda>(b', cs). cbb\<lparr>base := Some b', chain := take (Suc d) (chain cbb) @ cs\<rparr>) in
                (case flush_children alloc b (drop (Suc d) (chain cbb)) of
                   Fault \<Rightarrow> Fault
                 | Fail s \<Rightarrow> Fail (put s)
                 | Ok _ s \<Rightarrow> Ok () (put s))))"

text \<open>Running an operation of the buffer, which fails when there is none.\<close>

definition on_base :: "CBB \<Rightarrow> (cbb_buffer_st \<Rightarrow> ('a, cbb_buffer_st) outcome) \<Rightarrow> ('a, CBB) outcome" where
  "on_base cbb f =
     (case base cbb of
        None \<Rightarrow> Fail cbb
      | Some b \<Rightarrow>
          (case f b of
             Fault \<Rightarrow> Fault
           | Fail b' \<Rightarrow> Fail (cbb\<lparr>base := Some b'\<rparr>)
           | Ok a b' \<Rightarrow> Ok a (cbb\<lparr>base := Some b'\<rparr>)))"

text \<open>\<open>out_given\<close>: neither out-parameter is \<open>NULL\<close>.  The caller takes over the memory.\<close>

definition CBB_finish :: "allocator \<Rightarrow> CBB \<Rightarrow> nat \<Rightarrow> bool \<Rightarrow> (byte list \<times> size_t, CBB) outcome" where
  "CBB_finish alloc cbb d out_given =
     (if length (chain cbb) \<le> d \<or> is_child (chain cbb ! d) then Fail cbb
      else obind (CBB_flush alloc cbb d) (\<lambda>_ cbb1.
        (case base cbb1 of
           None \<Rightarrow> Fault
         | Some b \<Rightarrow>
             if can_resize b \<and> \<not> out_given then Fail cbb1
             else (case CBB_cleanup cbb1 d of None \<Rightarrow> Fault | Some cbb2 \<Rightarrow> Ok (buf b, buf_len b) cbb2))))"

text \<open>\<open>CBB_data\<close> and \<open>CBB_len\<close> dereference the base and assert that no child is open, and \<open>CBB_len\<close> that the object does not end
  behind the buffer: \<open>None\<close> otherwise.\<close>

definition CBB_data :: "CBB \<Rightarrow> nat \<Rightarrow> byte list option" where
  "CBB_data cbb d =
     (case base cbb of
        None \<Rightarrow> None
      | Some b \<Rightarrow>
          if Suc d = length (chain cbb)
          then Some (drop (unat (offset (chain cbb ! d) + ucast (pending_len_len (chain cbb ! d)))) (buf b))
          else None)"

definition CBB_len :: "CBB \<Rightarrow> nat \<Rightarrow> size_t option" where
  "CBB_len cbb d =
     (case base cbb of
        None \<Rightarrow> None
      | Some b \<Rightarrow>
          if Suc d = length (chain cbb) \<and> offset (chain cbb ! d) + ucast (pending_len_len (chain cbb ! d)) \<le> buf_len b
          then Some (buf_len b - offset (chain cbb ! d) - ucast (pending_len_len (chain cbb ! d)))
          else None)"

section \<open>Children\<close>

text \<open>The end of \<open>cbb_add_length_prefixed\<close> and \<open>CBB_add_asn1\<close>: a new object becomes the child of the object at
  position \<open>d\<close>, in place of any other.\<close>

definition attach_child :: "CBB \<Rightarrow> nat \<Rightarrow> size_t \<Rightarrow> byte \<Rightarrow> bool \<Rightarrow> CBB" where
  "attach_child cbb d off len_len is_asn1 =
     cbb\<lparr>chain := take (Suc d) (chain cbb) @
       [\<lparr>offset = off, pending_len_len = len_len, pending_is_asn1 = is_asn1, is_child = True\<rparr>]\<rparr>"

definition cbb_add_length_prefixed :: "allocator \<Rightarrow> CBB \<Rightarrow> nat \<Rightarrow> byte \<Rightarrow> (unit, CBB) outcome" where
  "cbb_add_length_prefixed alloc cbb d len_len =
     obind (CBB_flush alloc cbb d) (\<lambda>_ cbb1.
     obind (on_base cbb1 (\<lambda>b.
       obind (cbb_buffer_add alloc b (ucast len_len)) (\<lambda>p b1.
         (case mem_write (buf b1) p (replicate (unat len_len) 0) of
            None \<Rightarrow> Fault
          | Some m \<Rightarrow> Ok (buf_len b) (b1\<lparr>buf := m\<rparr>))))) (\<lambda>off cbb2.
       Ok () (attach_child cbb2 d off len_len False)))"

definition CBB_add_u8_length_prefixed :: "allocator \<Rightarrow> CBB \<Rightarrow> nat \<Rightarrow> (unit, CBB) outcome" where
  "CBB_add_u8_length_prefixed alloc cbb d = cbb_add_length_prefixed alloc cbb d 1"

definition CBB_add_u16_length_prefixed :: "allocator \<Rightarrow> CBB \<Rightarrow> nat \<Rightarrow> (unit, CBB) outcome" where
  "CBB_add_u16_length_prefixed alloc cbb d = cbb_add_length_prefixed alloc cbb d 2"

definition CBB_add_u24_length_prefixed :: "allocator \<Rightarrow> CBB \<Rightarrow> nat \<Rightarrow> (unit, CBB) outcome" where
  "CBB_add_u24_length_prefixed alloc cbb d = cbb_add_length_prefixed alloc cbb d 3"

section \<open>Bytes and integers\<close>

text \<open>\<open>data\<close> is the memory that the source pointer points to.\<close>

definition CBB_add_bytes :: "allocator \<Rightarrow> CBB \<Rightarrow> nat \<Rightarrow> byte list \<Rightarrow> size_t \<Rightarrow> (unit, CBB) outcome" where
  "CBB_add_bytes alloc cbb d data len =
     obind (CBB_flush alloc cbb d) (\<lambda>_ cbb1.
       on_base cbb1 (\<lambda>b.
         obind (cbb_buffer_add alloc b len) (\<lambda>p b1.
           (case mem_range data (unat len) of
              None \<Rightarrow> Fault
            | Some bs \<Rightarrow>
                (case mem_write (buf b1) p bs of
                   None \<Rightarrow> Fault
                 | Some m \<Rightarrow> Ok () (b1\<lparr>buf := m\<rparr>))))))"

text \<open>\<open>CBB_add_space\<close> and \<open>CBB_reserve\<close> return the position of the space in the buffer.\<close>

definition CBB_add_space :: "allocator \<Rightarrow> CBB \<Rightarrow> nat \<Rightarrow> size_t \<Rightarrow> (nat, CBB) outcome" where
  "CBB_add_space alloc cbb d len =
     obind (CBB_flush alloc cbb d) (\<lambda>_ cbb1. on_base cbb1 (\<lambda>b. cbb_buffer_add alloc b len))"

definition CBB_add_zeros :: "allocator \<Rightarrow> CBB \<Rightarrow> nat \<Rightarrow> size_t \<Rightarrow> (unit, CBB) outcome" where
  "CBB_add_zeros alloc cbb d len =
     obind (CBB_add_space alloc cbb d len) (\<lambda>p cbb1.
       on_base cbb1 (\<lambda>b.
         (case mem_write (buf b) p (replicate (unat len) 0) of
            None \<Rightarrow> Fault
          | Some m \<Rightarrow> Ok () (b\<lparr>buf := m\<rparr>))))"

definition CBB_reserve :: "allocator \<Rightarrow> CBB \<Rightarrow> nat \<Rightarrow> size_t \<Rightarrow> (nat, CBB) outcome" where
  "CBB_reserve alloc cbb d len =
     obind (CBB_flush alloc cbb d) (\<lambda>_ cbb1. on_base cbb1 (\<lambda>b. cbb_buffer_reserve alloc b len))"

definition CBB_did_write :: "CBB \<Rightarrow> nat \<Rightarrow> size_t \<Rightarrow> (unit, CBB) outcome" where
  "CBB_did_write cbb d len =
     (case base cbb of
        None \<Rightarrow> Fault
      | Some b \<Rightarrow>
          let newlen = buf_len b + len in
          if Suc d < length (chain cbb) \<or> newlen < buf_len b \<or> newlen > cap b then Fail cbb
          else Ok () (cbb\<lparr>base := Some (b\<lparr>buf_len := newlen\<rparr>)\<rparr>))"

definition cbb_add_u :: "allocator \<Rightarrow> CBB \<Rightarrow> nat \<Rightarrow> u64 \<Rightarrow> size_t \<Rightarrow> (unit, CBB) outcome" where
  "cbb_add_u alloc cbb d v len_len =
     obind (CBB_flush alloc cbb d) (\<lambda>_ cbb1. on_base cbb1 (\<lambda>b. cbb_buffer_add_u alloc b v len_len))"

definition CBB_add_u8 :: "allocator \<Rightarrow> CBB \<Rightarrow> nat \<Rightarrow> byte \<Rightarrow> (unit, CBB) outcome" where
  "CBB_add_u8 alloc cbb d v = cbb_add_u alloc cbb d (ucast v) 1"

definition CBB_add_u16 :: "allocator \<Rightarrow> CBB \<Rightarrow> nat \<Rightarrow> u16 \<Rightarrow> (unit, CBB) outcome" where
  "CBB_add_u16 alloc cbb d v = cbb_add_u alloc cbb d (ucast v) 2"

definition CBB_add_u16le :: "allocator \<Rightarrow> CBB \<Rightarrow> nat \<Rightarrow> u16 \<Rightarrow> (unit, CBB) outcome" where
  "CBB_add_u16le alloc cbb d v = CBB_add_u16 alloc cbb d (CRYPTO_bswap2 v)"

definition CBB_add_u24 :: "allocator \<Rightarrow> CBB \<Rightarrow> nat \<Rightarrow> u32 \<Rightarrow> (unit, CBB) outcome" where
  "CBB_add_u24 alloc cbb d v = cbb_add_u alloc cbb d (ucast v) 3"

definition CBB_add_u32 :: "allocator \<Rightarrow> CBB \<Rightarrow> nat \<Rightarrow> u32 \<Rightarrow> (unit, CBB) outcome" where
  "CBB_add_u32 alloc cbb d v = cbb_add_u alloc cbb d (ucast v) 4"

definition CBB_add_u32le :: "allocator \<Rightarrow> CBB \<Rightarrow> nat \<Rightarrow> u32 \<Rightarrow> (unit, CBB) outcome" where
  "CBB_add_u32le alloc cbb d v = CBB_add_u32 alloc cbb d (CRYPTO_bswap4 v)"

definition CBB_add_u64 :: "allocator \<Rightarrow> CBB \<Rightarrow> nat \<Rightarrow> u64 \<Rightarrow> (unit, CBB) outcome" where
  "CBB_add_u64 alloc cbb d v = cbb_add_u alloc cbb d v 8"

definition CBB_add_u64le :: "allocator \<Rightarrow> CBB \<Rightarrow> nat \<Rightarrow> u64 \<Rightarrow> (unit, CBB) outcome" where
  "CBB_add_u64le alloc cbb d v = CBB_add_u64 alloc cbb d (CRYPTO_bswap8 v)"

definition CBB_discard_child :: "CBB \<Rightarrow> nat \<Rightarrow> (unit, CBB) outcome" where
  "CBB_discard_child cbb d =
     (if length (chain cbb) \<le> Suc d then Ok () cbb
      else (case base cbb of
              None \<Rightarrow> Fault
            | Some b \<Rightarrow>
                Ok () (cbb\<lparr>base := Some (b\<lparr>buf_len := offset (chain cbb ! Suc d)\<rparr>),
                           chain := take (Suc d) (chain cbb)\<rparr>)))"

section \<open>ASN.1\<close>

text \<open>The number of base-128 groups of a value: the \<open>while\<close> loop of \<open>add_base128_integer\<close>.\<close>

function base128_len :: "u64 \<Rightarrow> nat" where
  "base128_len copy = (if copy > 0 then Suc (base128_len (drop_bit 7 copy)) else 0)"
  by pat_completeness auto
termination
  by (relation "measure unat") (auto simp: unat_drop_bit unat_gt_0 word_gt_0)

declare base128_len.simps [simp del]

text \<open>The \<open>for\<close> loop with \<open>n\<close> groups left to write, the index being \<open>n - 1\<close>.\<close>

fun add_base128_loop :: "allocator \<Rightarrow> CBB \<Rightarrow> nat \<Rightarrow> u64 \<Rightarrow> nat \<Rightarrow> (unit, CBB) outcome" where
  "add_base128_loop alloc cbb d v 0 = Ok () cbb"
| "add_base128_loop alloc cbb d v (Suc i) =
     (let b = ucast (drop_bit (7 * i) v AND 0x7F);
          b' = (if i \<noteq> 0 then b OR 0x80 else b)
      in obind (CBB_add_u8 alloc cbb d b') (\<lambda>_ cbb1. add_base128_loop alloc cbb1 d v i))"

definition add_base128_integer :: "allocator \<Rightarrow> CBB \<Rightarrow> nat \<Rightarrow> u64 \<Rightarrow> (unit, CBB) outcome" where
  "add_base128_integer alloc cbb d v =
     add_base128_loop alloc cbb d v (if base128_len v = 0 then 1 else base128_len v)"

definition CBB_add_asn1 :: "allocator \<Rightarrow> CBB \<Rightarrow> nat \<Rightarrow> u32 \<Rightarrow> (unit, CBB) outcome" where
  "CBB_add_asn1 alloc cbb d tag =
     obind (CBB_flush alloc cbb d) (\<lambda>_ cbb1.
       let tag_bits = (ucast (drop_bit CBS_ASN1_TAG_SHIFT tag AND 0xE0) :: byte);
           tag_number = tag AND CBS_ASN1_TAG_NUMBER_MASK
       in obind (if tag_number \<ge> 0x1F
                 then obind (CBB_add_u8 alloc cbb1 d (tag_bits OR 0x1F)) (\<lambda>_ cbb2.
                        add_base128_integer alloc cbb2 d (ucast tag_number))
                 else CBB_add_u8 alloc cbb1 d (tag_bits OR ucast tag_number)) (\<lambda>_ cbb3.
            (case base cbb3 of
               None \<Rightarrow> Fault
             | Some b \<Rightarrow>
                 obind (CBB_add_u8 alloc cbb3 d 0) (\<lambda>_ cbb4.
                   Ok () (attach_child cbb4 d (buf_len b) 1 True)))))"

text \<open>The loop of \<open>CBB_add_asn1_uint64\<close> over the bytes of the value, most significant first; \<open>n\<close> bytes are left.\<close>

fun asn1_uint64_bytes :: "allocator \<Rightarrow> CBB \<Rightarrow> nat \<Rightarrow> u64 \<Rightarrow> bool \<Rightarrow> nat \<Rightarrow> (bool, CBB) outcome" where
  "asn1_uint64_bytes alloc cbb d v started 0 = Ok started cbb"
| "asn1_uint64_bytes alloc cbb d v started (Suc n) =
     (let b = (ucast (drop_bit (8 * n) v AND 0xFF) :: byte) in
      if \<not> started \<and> b = 0 then asn1_uint64_bytes alloc cbb d v started n
      else obind (if \<not> started \<and> b AND 0x80 \<noteq> 0 then CBB_add_u8 alloc cbb d 0 else Ok () cbb) (\<lambda>_ cbb1.
           obind (CBB_add_u8 alloc cbb1 d b) (\<lambda>_ cbb2. asn1_uint64_bytes alloc cbb2 d v True n)))"

definition CBB_add_asn1_uint64 :: "allocator \<Rightarrow> CBB \<Rightarrow> nat \<Rightarrow> u64 \<Rightarrow> (unit, CBB) outcome" where
  "CBB_add_asn1_uint64 alloc cbb d v =
     obind (CBB_add_asn1 alloc cbb d CBS_ASN1_INTEGER) (\<lambda>_ cbb1.
     obind (asn1_uint64_bytes alloc cbb1 (Suc d) v False 8) (\<lambda>started cbb2.
     obind (if \<not> started then CBB_add_u8 alloc cbb2 (Suc d) 0 else Ok () cbb2) (\<lambda>_ cbb3.
       CBB_flush alloc cbb3 d)))"

text \<open>\<open>CBB_add_asn1_int64\<close>: the union's bytes are the little-endian bytes of the value.\<close>

fun int64_start :: "byte list \<Rightarrow> nat \<Rightarrow> nat" where
  "int64_start u 0 = 0"
| "int64_start u (Suc n) =
     (if u ! Suc n = 0xFF \<and> u ! n AND 0x80 \<noteq> 0 then int64_start u n else Suc n)"

fun add_bytes_down :: "allocator \<Rightarrow> CBB \<Rightarrow> nat \<Rightarrow> byte list \<Rightarrow> nat \<Rightarrow> (unit, CBB) outcome" where
  "add_bytes_down alloc cbb d u 0 = Ok () cbb"
| "add_bytes_down alloc cbb d u (Suc i) =
     obind (CBB_add_u8 alloc cbb d (u ! i)) (\<lambda>_ cbb1. add_bytes_down alloc cbb1 d u i)"

definition CBB_add_asn1_int64 :: "allocator \<Rightarrow> CBB \<Rightarrow> nat \<Rightarrow> u64 \<Rightarrow> (unit, CBB) outcome" where
  "CBB_add_asn1_int64 alloc cbb d v =
     (if 0 \<le>s v then CBB_add_asn1_uint64 alloc cbb d v
      else let u_bytes = le_bytes 8 (unat v); start = int64_start u_bytes 7 in
        obind (CBB_add_asn1 alloc cbb d CBS_ASN1_INTEGER) (\<lambda>_ cbb1.
        obind (add_bytes_down alloc cbb1 (Suc d) u_bytes (Suc start)) (\<lambda>_ cbb2.
          CBB_flush alloc cbb2 d)))"

definition CBB_add_asn1_octet_string :: "allocator \<Rightarrow> CBB \<Rightarrow> nat \<Rightarrow> byte list \<Rightarrow> size_t \<Rightarrow> (unit, CBB) outcome" where
  "CBB_add_asn1_octet_string alloc cbb d data data_len =
     obind (CBB_add_asn1 alloc cbb d CBS_ASN1_OCTETSTRING) (\<lambda>_ cbb1.
     obind (CBB_add_bytes alloc cbb1 (Suc d) data data_len) (\<lambda>_ cbb2.
       CBB_flush alloc cbb2 d))"

definition CBB_add_asn1_bool :: "allocator \<Rightarrow> CBB \<Rightarrow> nat \<Rightarrow> int \<Rightarrow> (unit, CBB) outcome" where
  "CBB_add_asn1_bool alloc cbb d v =
     obind (CBB_add_asn1 alloc cbb d CBS_ASN1_BOOLEAN) (\<lambda>_ cbb1.
     obind (CBB_add_u8 alloc cbb1 (Suc d) (if v \<noteq> 0 then 0xFF else 0)) (\<lambda>_ cbb2.
       CBB_flush alloc cbb2 d))"

section \<open>Object identifiers as text\<close>

abbreviation DOT :: byte where "DOT \<equiv> 0x2E"
abbreviation ZERO :: byte where "ZERO \<equiv> 0x30"
abbreviation NINE :: byte where "NINE \<equiv> 0x39"

text \<open>The loop of \<open>parse_dotted_decimal\<close>; a component ends at the end of the string or at a dot that is not the
  last character.\<close>

function dotted_loop :: "CBS \<Rightarrow> u64 \<Rightarrow> bool \<Rightarrow> (u64, CBS) outcome" where
  "dotted_loop cbs out seen_digit =
     (case CBS_get_u8 cbs of
        Fault \<Rightarrow> Fault
      | Fail cbs' \<Rightarrow> if seen_digit then Ok out cbs' else Fail cbs'
      | Ok u cbs' \<Rightarrow>
          if u = DOT \<and> CBS_len cbs' > 0 then (if seen_digit then Ok out cbs' else Fail cbs')
          else if u < ZERO \<or> u > NINE \<or> (seen_digit \<and> out = 0) \<or>
                  out > (- 1) div 10 \<or> out * 10 > - 1 - ucast (u - ZERO)
          then Fail cbs'
          else dotted_loop cbs' (out * 10 + ucast (u - ZERO)) True)"
  by pat_completeness auto
termination
  by (relation "measure (\<lambda>(cbs, out, seen). unat (cbs_len cbs))") (auto dest: CBS_get_u8_shrinks)

declare dotted_loop.simps [simp del]

definition parse_dotted_decimal :: "CBS \<Rightarrow> (u64, CBS) outcome" where
  "parse_dotted_decimal cbs = dotted_loop cbs 0 False"

lemma dotted_loop_shrinks:
  "dotted_loop cbs out seen = Ok v cbs' \<Longrightarrow>
   unat (cbs_len cbs') \<le> unat (cbs_len cbs) \<and> (\<not> seen \<longrightarrow> unat (cbs_len cbs') < unat (cbs_len cbs))"
proof (induction cbs out seen rule: dotted_loop.induct)
  case (1 cbs out seen)
  show ?case
  proof (cases "CBS_get_u8 cbs")
    case Fault
    then show ?thesis using 1(2) by (subst (asm) dotted_loop.simps) simp
  next
    case (Fail c)
    then have "c = cbs" by (auto simp: CBS_get_u8_def cbs_get_def obind_eq_Fail split: if_splits option.splits)
    then show ?thesis using 1(2) Fail by (subst (asm) dotted_loop.simps) (auto split: if_splits)
  next
    case (Ok u c)
    from CBS_get_u8_shrinks [OF this] 1(1) [OF Ok] 1(2) Ok show ?thesis
      by (subst (asm) dotted_loop.simps) (auto split: if_splits)
  qed
qed

text \<open>The \<open>while\<close> loop of \<open>CBB_add_asn1_oid_from_text\<close> over the remaining components.\<close>

function oid_components :: "allocator \<Rightarrow> CBB \<Rightarrow> nat \<Rightarrow> CBS \<Rightarrow> (unit, CBB) outcome" where
  "oid_components alloc cbb d cbs =
     (if CBS_len cbs > 0
      then obind_local (parse_dotted_decimal cbs) cbb (\<lambda>a cbs'.
           obind (add_base128_integer alloc cbb d a) (\<lambda>_ cbb'. oid_components alloc cbb' d cbs'))
      else Ok () cbb)"
  by pat_completeness auto
termination
  by (relation "measure (\<lambda>(alloc, cbb, d, cbs). unat (cbs_len cbs))")
     (auto simp: parse_dotted_decimal_def dest: dotted_loop_shrinks)

declare oid_components.simps [simp del]

definition CBB_add_asn1_oid_from_text :: "allocator \<Rightarrow> CBB \<Rightarrow> nat \<Rightarrow> byte list \<Rightarrow> size_t \<Rightarrow> (unit, CBB) outcome" where
  "CBB_add_asn1_oid_from_text alloc cbb d txt len =
     obind (CBB_flush alloc cbb d) (\<lambda>_ cbb1.
     obind_local (parse_dotted_decimal (CBS_init txt len)) cbb1 (\<lambda>a cbs1.
     obind_local (parse_dotted_decimal cbs1) cbb1 (\<lambda>b cbs2.
       if a > 2 \<or> (a < 2 \<and> b > 39) \<or> b > - 1 - 80 then Fail cbb1
       else obind (add_base128_integer alloc cbb1 d (40 * a + b)) (\<lambda>_ cbb2.
              oid_components alloc cbb2 d cbs2))))"

text \<open>\<open>"%" PRIu64\<close>: the decimal digits of a number in ASCII.\<close>

fun decimal :: "nat \<Rightarrow> byte list" where
  "decimal n = (if n < 10 then [ZERO + of_nat n] else decimal (n div 10) @ [ZERO + of_nat (n mod 10)])"

declare decimal.simps [simp del]

definition add_decimal :: "allocator \<Rightarrow> CBB \<Rightarrow> nat \<Rightarrow> u64 \<Rightarrow> (unit, CBB) outcome" where
  "add_decimal alloc out d v =
     CBB_add_bytes alloc out d (decimal (unat v)) (of_nat (length (decimal (unat v))))"

lemma base128_loop_shrinks:
  "base128_loop cbs v = Ok r cbs' \<Longrightarrow> unat (cbs_len cbs') < unat (cbs_len cbs)"
proof (induction cbs v rule: base128_loop.induct)
  case (1 cbs v)
  from 1(2) obtain b c where c: "CBS_get_u8 cbs = Ok b c" by (subst (asm) base128_loop.simps) auto
  from CBS_get_u8_shrinks [OF c] 1(1) [OF c] 1(2) c show ?case
    by (subst (asm) base128_loop.simps) (auto simp: Let_def split: if_splits intro: less_trans)
qed

function oid_text_loop :: "allocator \<Rightarrow> CBB \<Rightarrow> CBS \<Rightarrow> (unit, CBB) outcome" where
  "oid_text_loop alloc cbb copy =
     (if CBS_len copy \<noteq> 0
      then obind_local (parse_base128_integer copy) cbb (\<lambda>v copy'.
           obind (CBB_add_u8 alloc cbb 0 DOT) (\<lambda>_ cbb1.
           obind (add_decimal alloc cbb1 0 v) (\<lambda>_ cbb2. oid_text_loop alloc cbb2 copy')))
      else Ok () cbb)"
  by pat_completeness auto
termination
  by (relation "measure (\<lambda>(alloc, cbb, copy). unat (cbs_len copy))")
     (auto simp: parse_base128_integer_def dest: base128_loop_shrinks)

declare oid_text_loop.simps [simp del]

text \<open>\<open>CBS_asn1_oid_to_text\<close> builds the text in a builder of its own and returns the memory it finished with,
  or the null pointer (\<open>Fail\<close>, after cleaning up the builder).\<close>

definition CBS_asn1_oid_to_text :: "allocator \<Rightarrow> CBS \<Rightarrow> (byte list \<times> size_t, CBB) outcome" where
  "CBS_asn1_oid_to_text alloc cbs =
     (case obind (CBB_init alloc 32) (\<lambda>_ cbb.
     obind_local (parse_base128_integer cbs) cbb (\<lambda>v copy.
     obind (if v \<ge> 80
            then obind (CBB_add_bytes alloc cbb 0 [0x32, DOT] 2) (\<lambda>_ cbb1. add_decimal alloc cbb1 0 (v - 80))
            else obind (add_decimal alloc cbb 0 (v div 40)) (\<lambda>_ cbb1.
                 obind (CBB_add_u8 alloc cbb1 0 DOT) (\<lambda>_ cbb2. add_decimal alloc cbb2 0 (v mod 40)))) (\<lambda>_ cbb3.
     obind (oid_text_loop alloc cbb3 copy) (\<lambda>_ cbb4.
     obind (CBB_add_u8 alloc cbb4 0 0) (\<lambda>_ cbb5. CBB_finish alloc cbb5 0 True))))) of
        Fault \<Rightarrow> Fault
      | Fail cbb \<Rightarrow> clean_exit cbb (cbb\<lparr>base := None\<rparr>)
      | Ok txt cbb \<Rightarrow> Ok txt cbb)"

section \<open>SET OF\<close>

text \<open>\<open>memcmp\<close> as the sign of the first difference.\<close>

fun memcmp_list :: "byte list \<Rightarrow> byte list \<Rightarrow> int" where
  "memcmp_list (x # xs) (y # ys) = (if x < y then - 1 else if y < x then 1 else memcmp_list xs ys)"
| "memcmp_list _ _ = 0"

definition compare_set_of_element :: "CBS \<Rightarrow> CBS \<Rightarrow> int option" where
  "compare_set_of_element a b =
     (let a_len = CBS_len a; b_len = CBS_len b; min_len = (if a_len < b_len then a_len else b_len) in
      (case (mem_range (CBS_data a) (unat min_len), mem_range (CBS_data b) (unat min_len)) of
         (Some xs, Some ys) \<Rightarrow>
           (let ret = memcmp_list xs ys in
            Some (if ret \<noteq> 0 then ret else if a_len = b_len then 0 else if a_len < b_len then - 1 else 1))
       | _ \<Rightarrow> None))"

text \<open>\<open>qsort\<close> with a comparison that may fault: an insertion sort.  Elements that compare equal hold the same
  bytes, so every sorting algorithm leaves the same contents.\<close>

fun insert_element :: "CBS \<Rightarrow> CBS list \<Rightarrow> CBS list option" where
  "insert_element x [] = Some [x]"
| "insert_element x (y # ys) =
     (case compare_set_of_element x y of
        None \<Rightarrow> None
      | Some r \<Rightarrow> if r \<le> 0 then Some (x # y # ys) else map_option ((#) y) (insert_element x ys))"

fun qsort_elements :: "CBS list \<Rightarrow> CBS list option" where
  "qsort_elements [] = Some []"
| "qsort_elements (x # xs) = Option.bind (qsort_elements xs) (insert_element x)"

text \<open>The first pass of \<open>CBB_flush_asn1_set_of\<close>.  Every element takes at least one byte off the reader, so
  the number of its bytes is enough fuel.\<close>

fun count_children :: "nat \<Rightarrow> CBS \<Rightarrow> nat \<Rightarrow> (nat, CBS) outcome" where
  "count_children fuel cbs num =
     (if CBS_len cbs \<noteq> 0
      then (case fuel of
              0 \<Rightarrow> Fault
            | Suc n \<Rightarrow> obind (CBS_get_any_asn1_element cbs) (\<lambda>_ cbs'. count_children n cbs' (num + 1)))
      else Ok num cbs)"

declare count_children.simps [simp del]

text \<open>The second pass, which knows the number of elements.\<close>

fun get_children :: "CBS \<Rightarrow> nat \<Rightarrow> (CBS list, CBS) outcome" where
  "get_children cbs 0 = Ok [] cbs"
| "get_children cbs (Suc n) =
     obind (CBS_get_any_asn1_element cbs) (\<lambda>(child, _, _) cbs'.
     obind (get_children cbs' n) (\<lambda>children cbs''. Ok (child # children) cbs''))"

fun write_children :: "allocator \<Rightarrow> CBB \<Rightarrow> nat \<Rightarrow> CBS list \<Rightarrow> (unit, CBB) outcome" where
  "write_children alloc cbb d [] = Ok () cbb"
| "write_children alloc cbb d (c # cs) =
     obind (CBB_add_bytes alloc cbb d (CBS_data c) (CBS_len c)) (\<lambda>_ cbb'. write_children alloc cbb' d cs)"

text \<open>Setting \<open>cbb->base->len\<close> back to the start of the contents.\<close>

definition rewind :: "CBB \<Rightarrow> nat \<Rightarrow> CBB" where
  "rewind cbb d =
     cbb\<lparr>base := map_option (\<lambda>b. b\<lparr>buf_len :=
       offset (chain cbb ! d) + ucast (pending_len_len (chain cbb ! d))\<rparr>) (base cbb)\<rparr>"

definition CBB_flush_asn1_set_of :: "allocator \<Rightarrow> CBB \<Rightarrow> nat \<Rightarrow> (unit, CBB) outcome" where
  "CBB_flush_asn1_set_of alloc cbb d =
     obind (CBB_flush alloc cbb d) (\<lambda>_ cbb1.
       (case (CBB_data cbb1 d, CBB_len cbb1 d) of
          (Some data, Some blen) \<Rightarrow>
            obind_local (count_children (unat blen) (CBS_init data blen) 0) cbb1 (\<lambda>num_children _.
              if num_children < 2 then Ok () cbb1
              else if num_children > (2 ^ 64 - 1) div 16 then Fail cbb1
              else
                (case (OPENSSL_memdup (\<lambda>n. alloc (of_nat n) \<noteq> None) data (unat blen),
                       alloc (of_nat (num_children * 16))) of
                   (None, _) \<Rightarrow> Fault
                 | (Some (Some copy), Some _) \<Rightarrow>
                     obind_local (get_children (CBS_init copy blen) num_children) cbb1 (\<lambda>children _.
                       (case qsort_elements children of
                          None \<Rightarrow> Fault
                        | Some ordered \<Rightarrow>
                            obind (write_children alloc (rewind cbb1 d) d ordered) (\<lambda>_ cbb2.
                              if CBB_len cbb2 d = Some blen then Ok () cbb2 else Fault)))
                 | _ \<Rightarrow> Fail cbb1))
        | _ \<Rightarrow> Fault))"

end
