(* ===== verification/CbbBuffer.thy ===== *)
theory CbbBuffer
  imports Cbb Der
begin

text \<open>
  The builder's buffer: growing it keeps what was written, writes stay inside it, and it only refuses when
  the memory is fixed and full, the length would wrap around, or the allocator has nothing left.
\<close>

unbundle bit_operations_syntax

definition alloc_ok :: "allocator \<Rightarrow> bool" where
  "alloc_ok alloc \<longleftrightarrow> (\<forall>n m. alloc n = Some m \<longrightarrow> length m = unat n)"

definition alloc_total :: "allocator \<Rightarrow> bool" where
  "alloc_total alloc \<longleftrightarrow> (\<forall>n. alloc n \<noteq> None)"

definition buf_ok :: "cbb_buffer_st \<Rightarrow> bool" where
  "buf_ok b \<longleftrightarrow> unat (buf_len b) \<le> unat (cap b) \<and> unat (cap b) \<le> length (buf b) \<and> \<not> error b"

definition bytes_of :: "cbb_buffer_st \<Rightarrow> byte list" where
  "bytes_of b = take (unat (buf_len b)) (buf b)"

text \<open>A buffer after some operations on a good one: still good, its memory not smaller.\<close>

definition evolves :: "cbb_buffer_st \<Rightarrow> cbb_buffer_st \<Rightarrow> bool" where
  "evolves b b' \<longleftrightarrow> buf_ok b' \<and> can_resize b' = can_resize b \<and> unat (cap b) \<le> unat (cap b')"

text \<open>There is room for a total of \<open>n\<close> bytes.\<close>

definition room :: "allocator \<Rightarrow> cbb_buffer_st \<Rightarrow> nat \<Rightarrow> bool" where
  "room alloc b n \<longleftrightarrow> n < 2 ^ 64 \<and> (n \<le> unat (cap b) \<or> can_resize b \<and> alloc_total alloc)"

lemma evolves_refl: "buf_ok b \<Longrightarrow> evolves b b"
  by (simp add: evolves_def)

lemma evolves_trans: "evolves a b \<Longrightarrow> evolves b c \<Longrightarrow> evolves a c"
  by (auto simp: evolves_def)

lemma evolves_room: "evolves b b' \<Longrightarrow> room alloc b n \<Longrightarrow> room alloc b' n"
  by (auto simp: evolves_def room_def)

lemma evolves_ok: "evolves b b' \<Longrightarrow> buf_ok b'"
  by (simp add: evolves_def)

lemma room_mono: "room alloc b n \<Longrightarrow> m \<le> n \<Longrightarrow> room alloc b m"
  by (auto simp: room_def)

lemma length_bytes_of [simp]: "buf_ok b \<Longrightarrow> length (bytes_of b) = unat (buf_len b)"
  by (simp add: buf_ok_def bytes_of_def)

section \<open>Growing\<close>

text \<open>The buffer that \<open>cbb_buffer_reserve\<close> leaves behind when it succeeds.\<close>

lemma reserve_cases:
  assumes a: "alloc_ok alloc" and b: "buf_ok b"
  obtains (Ok) b' where "cbb_buffer_reserve alloc b n = Ok (unat (buf_len b)) b'" and "evolves b b'"
      and "bytes_of b' = bytes_of b" and "buf_len b' = buf_len b"
      and "unat (buf_len b) + unat n \<le> unat (cap b')"
  | (Fail) "cbb_buffer_reserve alloc b n = Fail (b\<lparr>error := True\<rparr>)"
      and "\<not> room alloc b (unat (buf_len b) + unat n)"
proof -
  let ?newlen = "buf_len b + n"
  have ovf: "?newlen < buf_len b \<longleftrightarrow> 2 ^ 64 \<le> unat (buf_len b) + unat n"
  proof (cases "unat (buf_len b) + unat n < 2 ^ 64")
    case True
    then have "unat ?newlen = unat (buf_len b) + unat n" by (intro unat_add_no_overflow) simp
    then show ?thesis using True by (simp add: word_less_nat_alt)
  next
    case False
    have "unat ?newlen = (unat (buf_len b) + unat n) mod 2 ^ 64" by (simp add: unat_word_ariths)
    also have "\<dots> = unat (buf_len b) + unat n - 2 ^ 64"
      using False unat_lt_2p [of "buf_len b"] unat_lt_2p [of n] by (simp add: le_mod_geq)
    finally show ?thesis using False unat_lt_2p [of n] by (simp add: word_less_nat_alt)
  qed
  show ?thesis
  proof (cases "?newlen < buf_len b")
    case True
    then show ?thesis using ovf by (intro Fail) (auto simp: cbb_buffer_reserve_def room_def)
  next
    case F: False
    then have nl: "unat ?newlen = unat (buf_len b) + unat n" and lt: "unat (buf_len b) + unat n < 2 ^ 64"
      using ovf unat_add_no_overflow [of "buf_len b" n] by simp_all
    show ?thesis
    proof (cases "?newlen > cap b")
      case False
      then show ?thesis
        using F nl b by (intro Ok [of b]) (auto simp: cbb_buffer_reserve_def Let_def evolves_refl word_less_nat_alt)
    next
      case G: True
      define newcap where
        "newcap = (if cap b * 2 < cap b \<or> cap b * 2 < ?newlen then ?newlen else cap b * 2)"
      have le: "unat ?newlen \<le> unat newcap"
        unfolding newcap_def by (auto simp: not_less word_le_nat_alt)
      have full: "\<not> unat (buf_len b) + unat n \<le> unat (cap b)" using G nl by (simp add: word_less_nat_alt)
      show ?thesis
      proof (cases "can_resize b \<and> alloc newcap \<noteq> None")
        case False
        then have "cbb_buffer_reserve alloc b n = Fail (b\<lparr>error := True\<rparr>)"
          using F G by (auto simp: cbb_buffer_reserve_def Let_def OPENSSL_realloc_def newcap_def [symmetric])
        then show ?thesis using False full by (intro Fail) (auto simp: room_def alloc_total_def)
      next
        case True
        then obtain fresh where fresh: "alloc newcap = Some fresh" by auto
        then have len: "length fresh = unat newcap" using a by (simp add: alloc_ok_def)
        let ?m = "take (unat newcap) (buf b) @ drop (length (buf b)) fresh"
        let ?b = "b\<lparr>buf := ?m, cap := newcap\<rparr>"
        have lm: "length ?m = unat newcap" using len by (simp add: min_def)
        have bl: "unat (buf_len b) \<le> unat newcap" using nl le by simp
        have "cbb_buffer_reserve alloc b n = Ok (unat (buf_len b)) ?b"
          using F G True fresh
          by (simp add: cbb_buffer_reserve_def Let_def OPENSSL_realloc_def newcap_def [symmetric])
        moreover have "evolves b ?b"
          using b bl lm G le by (auto simp: evolves_def buf_ok_def word_less_nat_alt)
        moreover have "bytes_of ?b = bytes_of b"
          using b bl by (auto simp: bytes_of_def buf_ok_def min_def)
        ultimately show ?thesis using le nl by (intro Ok [of ?b]) auto
      qed
    qed
  qed
qed

lemma add_cases:
  assumes "alloc_ok alloc" and "buf_ok b"
  obtains (Ok) b' junk where "cbb_buffer_add alloc b n = Ok (unat (buf_len b)) b'" and "evolves b b'"
      and "bytes_of b' = bytes_of b @ junk" and "length junk = unat n"
      and "unat (buf_len b') = unat (buf_len b) + unat n"
  | (Fail) "cbb_buffer_add alloc b n = Fail (b\<lparr>error := True\<rparr>)"
      and "\<not> room alloc b (unat (buf_len b) + unat n)"
proof (cases rule: reserve_cases [OF assms, of n])
  case (1 b')
  let ?b = "b'\<lparr>buf_len := buf_len b' + n\<rparr>"
  have "unat (cap b') < 2 ^ 64" using unat_lt_2p [of "cap b'"] by simp
  then have nl: "unat (buf_len b' + n) = unat (buf_len b) + unat n"
    using 1(4,5) by (subst unat_add_no_overflow) auto
  have bo: "buf_ok b'" using 1(2) by (rule evolves_ok)
  have ev: "evolves b ?b" using 1(2,5) nl by (auto simp: evolves_def buf_ok_def)
  have le: "unat (buf_len b) + unat n \<le> length (buf b')" using bo 1(5) by (simp add: buf_ok_def)
  have "bytes_of ?b = bytes_of b @ take (unat n) (drop (unat (buf_len b)) (buf b'))"
    using 1(3,4) nl by (simp add: bytes_of_def take_add)
  then show ?thesis using 1 ev nl le by (intro Ok [of ?b]) (auto simp: cbb_buffer_add_def)
next
  case 2
  then show ?thesis by (intro Fail) (auto simp: cbb_buffer_add_def)
qed

section \<open>Writing\<close>

lemma put_be_eq:
  "p + n \<le> length m \<Longrightarrow>
   put_be m p n v = Some (take p m @ be_bytes n (unat v) @ drop (p + n) m, drop_bit (8 * n) v)"
proof (induction n arbitrary: m v)
  case 0
  then show ?case by (simp add: be_bytes_def)
next
  case (Suc n)
  let ?m = "m[p + n := ucast v]"
  have "be_bytes (Suc n) (unat v) = be_bytes n (unat (drop_bit 8 v)) @ [ucast v]"
    by (simp add: be_bytes_def unat_drop_bit)
  moreover have "drop (p + n) ?m = ucast v # drop (p + Suc n) m"
    using Suc.prems by (simp add: drop_update_swap Cons_nth_drop_Suc [symmetric] list_update_append)
  moreover have "put_be m p (Suc n) v = put_be ?m p n (drop_bit 8 v)"
    using Suc.prems by (simp add: mem_put_def)
  moreover have "take p ?m = take p m" by simp
  ultimately show ?case using Suc.IH [of ?m "drop_bit 8 v"] Suc.prems by (simp add: add.commute)
qed

text \<open>Overwriting a piece of what was written.\<close>

definition overwrite :: "cbb_buffer_st \<Rightarrow> nat \<Rightarrow> byte list \<Rightarrow> cbb_buffer_st" where
  "overwrite b p bs = b\<lparr>buf := take p (buf b) @ bs @ drop (p + length bs) (buf b)\<rparr>"

lemma overwrite_bytes:
  assumes "buf_ok b" and "bytes_of b = xs @ ys @ zs" and "length bs = length ys"
  shows "mem_write (buf b) (length xs) bs = Some (buf (overwrite b (length xs) bs))"
    and "bytes_of (overwrite b (length xs) bs) = xs @ bs @ zs"
    and "evolves b (overwrite b (length xs) bs)"
    and "buf_len (overwrite b (length xs) bs) = buf_len b"
proof -
  have n: "unat (buf_len b) = length xs + length bs + length zs"
    and le: "length xs + length bs + length zs \<le> length (buf b)"
    using assms length_bytes_of [OF assms(1)] by (auto simp: buf_ok_def)
  have full: "take (length xs + length bs + length zs) (buf b) = xs @ ys @ zs"
    using assms(2) by (simp add: bytes_of_def n)
  have t: "take (length xs) (buf b) = xs"
    using arg_cong [OF full, of "take (length xs)"] by simp
  have z: "take (length zs) (drop (length xs + length bs) (buf b)) = zs"
    using arg_cong [OF full, of "drop (length xs + length bs)"] assms(3) by (simp add: drop_take)
  show "mem_write (buf b) (length xs) bs = Some (buf (overwrite b (length xs) bs))"
    using le by (simp add: mem_write_def overwrite_def)
  show "bytes_of (overwrite b (length xs) bs) = xs @ bs @ zs"
    using le t z by (simp add: bytes_of_def overwrite_def n)
  show "evolves b (overwrite b (length xs) bs)"
    using assms(1) le by (auto simp: buf_ok_def evolves_def overwrite_def)
  show "buf_len (overwrite b (length xs) bs) = buf_len b" by (simp add: overwrite_def)
qed

lemma overwrite_buf: "b\<lparr>buf := buf (overwrite b p bs)\<rparr> = overwrite b p bs"
  by (simp add: overwrite_def)

text \<open>\<open>appends alloc b m bs\<close>: the outcome \<open>m\<close> of a buffer operation is to append \<open>bs\<close>, or to fail because there
  is no room for them.\<close>

definition appends :: "allocator \<Rightarrow> cbb_buffer_st \<Rightarrow> ('a, cbb_buffer_st) outcome \<Rightarrow> byte list \<Rightarrow> bool" where
  "appends alloc b m bs \<longleftrightarrow>
     (case m of
        Fault \<Rightarrow> False
      | Fail b' \<Rightarrow> error b' \<and> \<not> room alloc b (length (bytes_of b) + length bs)
      | Ok _ b' \<Rightarrow> evolves b b' \<and> bytes_of b' = bytes_of b @ bs)"

lemma append_write:
  assumes "alloc_ok alloc" and "buf_ok b" and "length bs = unat n"
  shows "appends alloc b
    (obind (cbb_buffer_add alloc b n) (\<lambda>p b1.
       (case mem_write (buf b1) p bs of None \<Rightarrow> Fault | Some m \<Rightarrow> Ok x (b1\<lparr>buf := m\<rparr>)))) bs"
proof (cases rule: add_cases [OF assms(1,2), of n])
  case (1 b' junk)
  have ok: "buf_ok b'" using 1(2) by (rule evolves_ok)
  have l: "length (bytes_of b) = unat (buf_len b)" using assms(2) by simp
  note f = overwrite_bytes [of b' "bytes_of b" junk "[]" bs, unfolded l, simplified, OF ok 1(3)]
  show ?thesis
    using 1 f assms(3) by (auto simp: appends_def overwrite_buf intro: evolves_trans)
next
  case 2
  then show ?thesis using assms by (simp add: appends_def)
qed

lemma append_u:
  assumes "alloc_ok alloc" and "buf_ok b" and "0 < unat n"
  shows "unat v < 256 ^ unat n \<Longrightarrow> appends alloc b (cbb_buffer_add_u alloc b v n) (be_bytes (unat n) (unat v))"
    and "\<not> unat v < 256 ^ unat n \<Longrightarrow> \<exists>b'. cbb_buffer_add_u alloc b v n = Fail b' \<and> error b'"
proof -
  have n: "n \<noteq> 0" using assms(3) by auto
  let ?bs = "be_bytes (unat n) (unat v)"
  have d: "drop_bit (8 * unat n) v = 0 \<longleftrightarrow> unat v < 256 ^ unat n"
    by (simp add: word_unat_eq_iff unat_drop_bit div_eq_0_iff power_mult)
  have "(unat v < 256 ^ unat n \<longrightarrow> appends alloc b (cbb_buffer_add_u alloc b v n) ?bs) \<and>
    (\<not> unat v < 256 ^ unat n \<longrightarrow> (\<exists>b'. cbb_buffer_add_u alloc b v n = Fail b' \<and> error b'))"
  proof (cases rule: add_cases [OF assms(1,2), of n])
    case (1 b' junk)
    have ok: "buf_ok b'" using 1(2) by (rule evolves_ok)
    have l: "length (bytes_of b) = unat (buf_len b)" using assms(2) by simp
    note f = overwrite_bytes [of b' "bytes_of b" junk "[]" ?bs, unfolded l, simplified, OF ok 1(3)]
    have le: "unat (buf_len b) + unat n \<le> length (buf b')" using ok 1(5) by (simp add: buf_ok_def)
    have put: "put_be (buf b') (unat (buf_len b)) (unat n) v =
        Some (buf (overwrite b' (unat (buf_len b)) ?bs), drop_bit (8 * unat n) v)"
      using put_be_eq [OF le] by (simp add: overwrite_def)
    show ?thesis
      using 1(1,2,4) f(2,3) d n
      by (auto simp: cbb_buffer_add_u_def put appends_def overwrite_buf intro: evolves_trans)
  next
    case 2
    then show ?thesis using assms(2) n by (auto simp: cbb_buffer_add_u_def appends_def)
  qed
  then show "unat v < 256 ^ unat n \<Longrightarrow> appends alloc b (cbb_buffer_add_u alloc b v n) ?bs"
    "\<not> unat v < 256 ^ unat n \<Longrightarrow> \<exists>b'. cbb_buffer_add_u alloc b v n = Fail b' \<and> error b'" by blast+
qed

section \<open>Length prefixes\<close>

datatype prefix_kind = Asn1_prefix | Len_prefix nat

fun prefix_fits :: "prefix_kind \<Rightarrow> nat \<Rightarrow> bool" where
  "prefix_fits Asn1_prefix n = (n \<le> 0xFFFFFFFE)"
| "prefix_fits (Len_prefix k) n = (n < 256 ^ k)"

fun prefix_bytes :: "prefix_kind \<Rightarrow> nat \<Rightarrow> byte list" where
  "prefix_bytes Asn1_prefix n = der_len n"
| "prefix_bytes (Len_prefix k) n = be_bytes k n"

fun prefix_space :: "prefix_kind \<Rightarrow> nat" where
  "prefix_space Asn1_prefix = 1"
| "prefix_space (Len_prefix k) = k"

fun frame_kind :: "cbb_st \<Rightarrow> prefix_kind \<Rightarrow> bool" where
  "frame_kind f Asn1_prefix = (pending_is_asn1 f \<and> pending_len_len f = 1 \<and> is_child f)"
| "frame_kind f (Len_prefix k) =
     (\<not> pending_is_asn1 f \<and> unat (pending_len_len f) = k \<and> 0 < k \<and> k \<le> 3 \<and> is_child f)"

lemma frame_space: "frame_kind f k \<Longrightarrow> unat (pending_len_len f) = prefix_space k \<and> 0 < prefix_space k"
  by (cases k) auto

lemma prefix_space_le: "prefix_fits k n \<Longrightarrow> prefix_space k \<le> length (prefix_bytes k n)"
  by (cases k) (auto simp: der_len_def)

lemma asn1_len_form_eq:
  assumes "n < 2 ^ 64"
  shows "asn1_len_form (of_nat n) =
    (if n > 0xFFFFFFFE then None
     else if n < 128 then Some (1, of_nat n, 0)
     else Some (of_nat (nbytes n + 1), of_nat (128 + nbytes n), of_nat n))"
proof -
  have w: "(of_nat n :: size_t) > numeral x \<longleftrightarrow> n > unat (numeral x :: size_t)" for x
    using assms by (simp add: word_less_nat_alt unat_of_nat_less)
  consider "n > 0xFFFFFFFE" | "n < 128" | "128 \<le> n" "n < 256 ^ 1" | "256 ^ 1 \<le> n" "n < 256 ^ Suc 1"
    | "256 ^ Suc 1 \<le> n" "n < 256 ^ Suc 2" | "256 ^ Suc 2 \<le> n" "n \<le> 0xFFFFFFFE" by fastforce
  then show ?thesis
  proof cases
    case 2
    have "(ucast (of_nat n :: size_t) :: byte) = of_nat n"
      using assms unat_of_nat_less [of n, where 'a = 64] by (simp only: ucast_eq_of_nat) simp
    with 2 show ?thesis by (simp add: asn1_len_form_def w)
  next
    case 3
    then have "nbytes n = 1" by (subst nbytes.simps) simp
    with 3 show ?thesis by (simp add: asn1_len_form_def w)
  next
    case 4
    then have "nbytes n = 2" using nbytes_unique [of 1 n] by simp
    with 4 show ?thesis by (simp add: asn1_len_form_def w)
  next
    case 5
    then have "nbytes n = 3" using nbytes_unique [of 2 n] by simp
    with 5 show ?thesis by (simp add: asn1_len_form_def w)
  next
    case 6
    then have "nbytes n = 4" using nbytes_unique [of 3 n] by simp
    with 6 show ?thesis by (simp add: asn1_len_form_def w)
  qed (simp_all add: asn1_len_form_def w)
qed

text \<open>\<open>flushes alloc b m out\<close>: the outcome \<open>m\<close> of flushing is that the buffer holds \<open>out\<close> and no child is left open,
  or it failed because there is no such \<open>out\<close>, or no room for it.\<close>

definition flushes ::
    "allocator \<Rightarrow> cbb_buffer_st \<Rightarrow> (unit, cbb_buffer_st \<times> cbb_st list) outcome \<Rightarrow> byte list option \<Rightarrow> bool" where
  "flushes alloc b m out \<longleftrightarrow>
     (case m of
        Fault \<Rightarrow> False
      | Fail (b', _) \<Rightarrow> error b' \<and> (\<forall>bs. out = Some bs \<longrightarrow> \<not> room alloc b (length bs))
      | Ok _ (b', cs) \<Rightarrow> cs = [] \<and> evolves b b' \<and> out = Some (bytes_of b'))"

lemma put_be_overwrite:
  assumes "buf_ok b" and "bytes_of b = xs @ ys @ zs" and "length ys = n"
  shows "put_be (buf b) (length xs) n v =
    Some (buf (overwrite b (length xs) (be_bytes n (unat v))), drop_bit (8 * n) v)"
proof -
  have "length xs + n \<le> length (buf b)"
    using assms length_bytes_of [OF assms(1)] by (auto simp: buf_ok_def)
  from put_be_eq [OF this] show ?thesis by (simp add: overwrite_def)
qed

lemma mem_put_overwrite:
  assumes "buf_ok b" and "bytes_of b = xs @ [y] @ zs"
  shows "mem_put (buf b) (length xs) x = Some (buf (overwrite b (length xs) [x]))"
proof -
  have "length xs < length (buf b)"
    using assms length_bytes_of [OF assms(1)] by (auto simp: buf_ok_def)
  then show ?thesis by (simp add: mem_put_def overwrite_def upd_conv_take_nth_drop)
qed

lemma mem_move_overwrite:
  assumes "buf_ok b" and "bytes_of b = xs @ r @ junk"
  shows "mem_move (buf b) (length xs + length junk) (length xs) (length r) =
      Some (buf (overwrite b (length xs + length junk) r))"
    and "bytes_of (overwrite b (length xs + length junk) r) = xs @ take (length junk) (r @ junk) @ r"
    and "evolves b (overwrite b (length xs + length junk) r)"
proof -
  let ?xs = "xs @ take (length junk) (r @ junk)"
  have n: "unat (buf_len b) = length xs + length r + length junk"
    and le: "length xs + length r + length junk \<le> length (buf b)"
    using assms length_bytes_of [OF assms(1)] by (auto simp: buf_ok_def)
  have full: "take (length xs + length r + length junk) (buf b) = xs @ r @ junk"
    using assms(2) by (simp add: bytes_of_def n)
  have r: "mem_range (drop (length xs) (buf b)) (length r) = Some r"
    using arg_cong [OF full, of "\<lambda>l. take (length r) (drop (length xs) l)"] le
    by (simp add: mem_range_def drop_take)
  have b: "bytes_of b = ?xs @ drop (length junk) (r @ junk) @ []"
    unfolding assms(2) append.assoc append_Nil2 append_take_drop_id ..
  have l: "length ?xs = length xs + length junk" by simp
  note o = overwrite_bytes [OF assms(1) b, of r, unfolded l]
  show "mem_move (buf b) (length xs + length junk) (length xs) (length r) =
      Some (buf (overwrite b (length xs + length junk) r))"
    using r o(1) by (simp add: mem_move_def)
  show "bytes_of (overwrite b (length xs + length junk) r) = xs @ take (length junk) (r @ junk) @ r"
    using o(2) by simp
  show "evolves b (overwrite b (length xs + length junk) r)" using o(3) by simp
qed

section \<open>Writing out one prefix\<close>

lemma flush_prefix_start:
  assumes "buf_ok b" and "bytes_of b = pre @ ph @ r" and "length ph = unat (pending_len_len f)"
    and "unat (offset f) = length pre"
  defines "start \<equiv> offset f + ucast (pending_len_len f)"
  shows "unat start = length pre + length ph" and "\<not> (start < offset f \<or> buf_len b < start)"
    and "buf_len b - start = of_nat (length r)" and "length r < 2 ^ 64"
proof -
  have n: "unat (buf_len b) = length pre + length ph + length r"
    using assms length_bytes_of [OF assms(1)] by auto
  have p: "unat (ucast (pending_len_len f) :: size_t) = length ph"
    using byte_unat_less [of "pending_len_len f"] assms(3)
    by (simp only: ucast_eq_of_nat) (intro trans [OF unat_of_nat_less], simp_all)
  have bl: "unat (buf_len b) < 2 ^ 64" using unat_lt_2p [of "buf_len b"] by simp
  show s: "unat start = length pre + length ph"
    unfolding start_def using n bl p assms(4) by (subst unat_add_no_overflow) auto
  show "\<not> (start < offset f \<or> buf_len b < start)" using s n assms(4) by (simp add: word_less_nat_alt)
  show "length r < 2 ^ 64" using n bl by simp
  have "unat (buf_len b - start) = length r" using s n by (subst unat_sub_le) (simp_all add: word_le_nat_alt)
  then show "buf_len b - start = of_nat (length r)" by (metis of_nat_unat ucast_id)
qed

lemma drop_bit_of_nat_0: "n < 2 ^ 64 \<Longrightarrow> drop_bit (8 * k) (of_nat n :: u64) = 0 \<longleftrightarrow> n < 256 ^ k"
  by (simp add: word_unat_eq_iff unat_drop_bit unat_of_nat_less div_eq_0_iff power_mult)

lemma flush_len_prefix:
  assumes "buf_ok b" and "bytes_of b = pre @ ph @ r" and "length ph = k"
    and "unat (offset f) = length pre" and "frame_kind f (Len_prefix k)"
  shows "flushes alloc b (flush_prefix alloc b f [])
    (if prefix_fits (Len_prefix k) (length r) then Some (pre @ prefix_bytes (Len_prefix k) (length r) @ r) else None)"
proof -
  have k: "unat (pending_len_len f) = k" "\<not> pending_is_asn1 f" using assms(5) by simp_all
  note st = flush_prefix_start [OF assms(1,2) _ assms(4), unfolded k(1), OF assms(3)]
  have u: "unat (of_nat (length r) :: size_t) = length r" using st(4) by (intro unat_of_nat_less) simp
  note put = put_be_overwrite [OF assms(1,2,3), of "of_nat (length r)", unfolded u]
  note o = overwrite_bytes [OF assms(1,2), of "be_bytes k (length r)"]
  show ?thesis
    using st(2) k o(2,3) assms(3) drop_bit_of_nat_0 [OF st(4), of k]
    by (auto simp: flush_prefix_def Let_def st(3) put assms(4) flushes_def overwrite_buf)
qed

lemma flush_asn1_prefix:
  assumes a: "alloc_ok alloc" and b: "buf_ok b" and bs: "bytes_of b = pre @ [ph] @ r"
    and o: "unat (offset f) = length pre" and k: "frame_kind f Asn1_prefix"
  shows "flushes alloc b (flush_prefix alloc b f [])
    (if length r \<le> 0xFFFFFFFE then Some (pre @ der_len (length r) @ r) else None)"
proof -
  let ?n = "length r"
  have p: "pending_len_len f = 1" "pending_is_asn1 f" and np: "\<not> pending_len_len f \<noteq> 1" using k by simp_all
  have l1: "length [ph] = unat (pending_len_len f)" using p by simp
  note st = flush_prefix_start [OF b bs l1 o]
  let ?start = "offset f + ucast (pending_len_len f)"
  have start: "unat ?start = length (pre @ [ph])" using st(1) by simp
  have form: "asn1_len_form (buf_len b - ?start) = (if ?n > 0xFFFFFFFE then None
     else if ?n < 128 then Some (1, of_nat ?n, 0)
     else Some (of_nat (nbytes ?n + 1), of_nat (128 + nbytes ?n), of_nat ?n))"
    unfolding st(3) by (rule asn1_len_form_eq [OF st(4)])
  consider "?n > 0xFFFFFFFE" | "?n < 128" | "128 \<le> ?n" "?n \<le> 0xFFFFFFFE" by linarith
  then show ?thesis
  proof cases
    case 1
    then show ?thesis
      using st(2) p form by (auto simp: flush_prefix_def Let_def flushes_def flush_asn1_len_def)
  next
    case 2
    let ?b = "overwrite b (length pre) [of_nat ?n]"
    note w = overwrite_bytes [OF b bs, of "[of_nat ?n]"]
    have "flush_prefix alloc b f [] = Ok () (?b, [])"
      using 2 st(2) p form mem_put_overwrite [OF b bs, of "of_nat ?n"]
      by (simp add: flush_prefix_def Let_def flush_asn1_len_def o overwrite_buf)
    then show ?thesis using 2 w(2,3) by (simp add: flushes_def der_len_def)
  next
    case 3
    let ?e = "nbytes ?n"
    have e: "0 < ?e" "?e \<le> 4" using nbytes_le [of ?n 4] 3 by simp_all
    have el: "(of_nat (?e + 1) :: byte) \<noteq> 1" "unat (of_nat (?e + 1) - 1 :: byte) = ?e"
      "(ucast (of_nat (?e + 1) :: byte) - 1 :: size_t) = of_nat ?e" "unat (of_nat ?e :: size_t) = ?e"
    proof -
      have u: "unat (of_nat (?e + 1) :: byte) = ?e + 1" using e by (intro unat_of_nat_less) simp
      then show "(of_nat (?e + 1) :: byte) \<noteq> 1" using e by (metis add_cancel_left_left unat_1 less_irrefl add.commute)
      show "unat (of_nat (?e + 1) - 1 :: byte) = ?e" using e by (simp add: unat_of_nat_less)
      show "(ucast (of_nat (?e + 1) :: byte) - 1 :: size_t) = of_nat ?e" by (simp only: ucast_eq_of_nat u) simp
      show "unat (of_nat ?e :: size_t) = ?e" using e by (intro unat_of_nat_less) simp
    qed
    have dl: "der_len ?n = of_nat (128 + ?e) # be_bytes ?e ?n" using 3 by (simp add: der_len_def)
    have bl: "unat (buf_len b) = length pre + 1 + ?n" using length_bytes_of [OF b] bs by simp
    show ?thesis
    proof (cases rule: add_cases [OF a b, of "of_nat ?e"])
      case (1 b1 junk)
      let ?lb = "of_nat (128 + ?e) :: byte" and ?h = "pre @ [ph]" and ?x = "take ?e (r @ junk)"
      have junk: "length junk = ?e" using 1(4) el(4) by simp
      have ok1: "buf_ok b1" using 1(2) by (rule evolves_ok)
      have bs1: "bytes_of b1 = ?h @ r @ junk" using 1(3) bs by simp
      note mv = mem_move_overwrite [OF ok1 bs1, unfolded junk]
      define b2 where "b2 = overwrite b1 (length ?h + ?e) r"
      have ok2: "buf_ok b2" and bs2: "bytes_of b2 = pre @ [ph] @ (?x @ r)" and ev2: "evolves b b2"
        using mv(2,3) evolves_ok evolves_trans [OF 1(2)] by (auto simp: b2_def)
      define b3 where "b3 = overwrite b2 (length pre) [?lb]"
      note w3 = overwrite_bytes [OF ok2 bs2, of "[?lb]", folded b3_def]
      have ok3: "buf_ok b3" and bs3: "bytes_of b3 = (pre @ [?lb]) @ ?x @ r"
        using w3(2,3) evolves_ok by auto
      have x: "length ?x = ?e" using junk by simp
      define b4 where "b4 = overwrite b3 (length (pre @ [?lb])) (be_bytes ?e ?n)"
      note w4 = overwrite_bytes [OF ok3 bs3, of "be_bytes ?e ?n", unfolded x length_be_bytes, OF refl, folded b4_def]
      have dst: "unat (?start + of_nat ?e) = length ?h + ?e"
        using start el(4) unat_lt_2p [of "buf_len b1"] 1(5) bl
        by (subst unat_add_no_overflow) (simp_all del: of_nat_add)
      have off: "unat (offset f + 1) = length (pre @ [?lb])"
        using o unat_lt_2p [of "buf_len b"] bl by (subst unat_add_no_overflow) simp_all
      have n: "unat (of_nat ?n :: size_t) = ?n" using st(4) by (intro unat_of_nat_less) simp
      have z: "drop_bit (8 * ?e) (of_nat ?n :: u64) = 0" using drop_bit_of_nat_0 [OF st(4)] nbytes_upper by blast
      have put: "put_be (buf b3) (unat (offset f + 1)) ?e (of_nat ?n) = Some (buf b4, 0)"
        using put_be_overwrite [OF ok3 bs3 x, of "of_nat ?n"] unfolding off n z b4_def .
      have asn1: "flush_asn1_len alloc b f ?start (buf_len b - ?start) =
          Ok (f\<lparr>offset := offset f + 1, pending_len_len := of_nat (?e + 1) - 1\<rparr>, of_nat ?n) b3"
        unfolding flush_asn1_len_def if_not_P [OF np] using 3 form el(1,3) 1(1) mv(1) mem_put_overwrite [OF ok2 bs2, of ?lb]
        by (simp add: dst start n o overwrite_buf b3_def b2_def junk Let_def
              del: of_nat_add of_nat_Suc length_append)
      have "flush_prefix alloc b f [] = Ok () (b4, [])"
        using st(2) p put el(2) asn1 by (simp add: flush_prefix_def Let_def overwrite_buf b4_def
              del: of_nat_add of_nat_Suc length_append)
      moreover have "evolves b b4" using ev2 w3(3) w4(3) evolves_trans by force
      ultimately show ?thesis using 3 w4(2) dl by (simp add: flushes_def)
    next
      case 2
      then have "\<not> room alloc b (length pre + (1 + ?e) + ?n)" using bl el(4) by (simp add: algebra_simps)
      then show ?thesis
        using 3 2 st(2) p form el dl
        by (auto simp: flush_prefix_def Let_def flushes_def flush_asn1_len_def algebra_simps simp del: of_nat_add of_nat_Suc)
    qed
  qed
qed

end
