(* ===== verification/CbbRefine.thy ===== *)
theory CbbRefine
  imports CbbBuffer
begin

text \<open>
  The builder against an abstract builder.  The abstract state is the contents written at top level and, for
  every open child, its kind of length prefix and the contents written to it.  Flushing closes the children
  from the innermost one outwards: closing puts the prefix in front of the contents and appends both to the
  parent.  Every operation of \<^verbatim>\<open>cbb.c\<close> is a simulation of an operation on this state, for any allocator.
\<close>

unbundle bit_operations_syntax

section \<open>The abstract builder\<close>

type_synonym segments = "(prefix_kind \<times> byte list) list"
type_synonym builder = "byte list \<times> segments"

fun close_all :: "byte list \<Rightarrow> segments \<Rightarrow> byte list option" where
  "close_all c [] = Some c"
| "close_all c ((k, c') # segs) =
     (case close_all c' segs of
        None \<Rightarrow> None
      | Some r \<Rightarrow> if prefix_fits k (length r) then Some (c @ prefix_bytes k (length r) @ r) else None)"

fun abs_flush :: "nat \<Rightarrow> builder \<Rightarrow> builder option" where
  "abs_flush 0 (c, segs) = map_option (\<lambda>r. (r, [])) (close_all c segs)"
| "abs_flush (Suc d) (c, []) = None"
| "abs_flush (Suc d) (c, (k, c') # segs) =
     map_option (\<lambda>(c'', segs'). (c, (k, c'') # segs')) (abs_flush d (c', segs))"

text \<open>Appending to the innermost contents, and opening a child there.\<close>

fun abs_append :: "byte list \<Rightarrow> builder \<Rightarrow> builder" where
  "abs_append bs (c, []) = (c @ bs, [])"
| "abs_append bs (c, (k, c') # segs) = (case abs_append bs (c', segs) of (c'', segs') \<Rightarrow> (c, (k, c'') # segs'))"

definition abs_open :: "prefix_kind \<Rightarrow> builder \<Rightarrow> builder" where
  "abs_open k st = (fst st, snd st @ [(k, [])])"

fun abs_size :: "builder \<Rightarrow> nat" where
  "abs_size (c, []) = length c"
| "abs_size (c, (k, c') # segs) = length c + prefix_space k + abs_size (c', segs)"

lemma close_all_size: "close_all c segs = Some r \<Longrightarrow> abs_size (c, segs) \<le> length r"
proof (induction segs arbitrary: c r)
  case (Cons s segs)
  obtain k c' where s: "s = (k, c')" by (cases s)
  from Cons.prems s obtain r' where r': "close_all c' segs = Some r'" "prefix_fits k (length r')"
    and r: "r = c @ prefix_bytes k (length r') @ r'"
    by (auto split: option.splits if_splits)
  then show ?case using Cons.IH [OF r'(1)] prefix_space_le [OF r'(2)] s by simp
qed simp

lemma abs_flush_size: "abs_flush d st = Some st' \<Longrightarrow> abs_size st \<le> abs_size st'"
  by (induction d st arbitrary: st' rule: abs_flush.induct) (auto dest: close_all_size)

lemma abs_flush_length: "abs_flush d st = Some st' \<Longrightarrow> length (snd st') = d"
  by (induction d st arbitrary: st' rule: abs_flush.induct) auto

lemma abs_append_size: "abs_size (abs_append bs st) = abs_size st + length bs"
  by (induction bs st rule: abs_append.induct) (auto split: prod.splits)

lemma abs_append_length: "length (snd (abs_append bs st)) = length (snd st)"
  by (induction bs st rule: abs_append.induct) (auto split: prod.splits)

lemma abs_append_append: "abs_append ys (abs_append xs st) = abs_append (xs @ ys) st"
  by (induction xs st rule: abs_append.induct) (auto split: prod.splits)

lemma abs_open_size: "abs_size (abs_open k st) = abs_size st + prefix_space k"
  by (induction st rule: abs_size.induct) (simp_all add: abs_open_def)

text \<open>Flushing what is already flushed changes nothing.\<close>

lemma abs_flush_idem: "length (snd st) = d \<Longrightarrow> abs_flush d st = Some st"
  by (induction d st rule: abs_flush.induct) auto

section \<open>Layout of the buffer\<close>

text \<open>\<open>layout bs p c fs segs\<close>: the bytes \<open>bs\<close>, which start at position \<open>p\<close> of the buffer, are the contents \<open>c\<close>
  followed by the open children \<open>fs\<close> with contents \<open>segs\<close>, each behind the space for its prefix.\<close>

fun layout :: "byte list \<Rightarrow> nat \<Rightarrow> byte list \<Rightarrow> cbb_st list \<Rightarrow> segments \<Rightarrow> bool" where
  "layout bs p c [] [] = (bs = c)"
| "layout bs p c (f # fs) ((k, c') # segs) =
     (frame_kind f k \<and> unat (offset f) = p + length c \<and>
      (\<exists>ph bs'. bs = c @ ph @ bs' \<and> length ph = prefix_space k \<and>
        layout bs' (p + length c + prefix_space k) c' fs segs))"
| "layout _ _ _ _ _ = False"

lemma layout_length: "layout bs p c fs segs \<Longrightarrow> length fs = length segs"
  by (induction bs p c fs segs rule: layout.induct) auto

lemma layout_size: "layout bs p c fs segs \<Longrightarrow> length bs = abs_size (c, segs)"
  by (induction bs p c fs segs rule: layout.induct) auto

lemma layout_append:
  "layout bs p c fs segs \<Longrightarrow>
   layout (bs @ xs) p (fst (abs_append xs (c, segs))) fs (snd (abs_append xs (c, segs)))"
proof (induction bs p c fs segs rule: layout.induct)
  case (2 bs p c f fs k c' segs)
  then obtain ph bs' where "bs = c @ ph @ bs'" "length ph = prefix_space k"
    "layout bs' (p + length c + prefix_space k) c' fs segs" by auto
  moreover obtain x1 x2 where e: "abs_append xs (c', segs) = (x1, x2)" by fastforce
  ultimately have "layout (bs' @ xs) (p + length c + prefix_space k) x1 fs x2" using 2(1) [of bs'] by simp
  with \<open>bs = c @ ph @ bs'\<close> \<open>length ph = prefix_space k\<close> 2(2) show ?case
    by (simp add: e) (rule exI [of _ ph], rule exI [of _ "bs' @ xs"], simp)
qed auto

lemma layout_open:
  assumes "layout bs p c fs segs" and "frame_kind f k" and "unat (offset f) = p + length bs"
    and "length ph = prefix_space k"
  shows "layout (bs @ ph) p c (fs @ [f]) (segs @ [(k, [])])"
  using assms
proof (induction bs p c fs segs rule: layout.induct)
  case (2 bs p c g fs l c' segs)
  then obtain ph' bs' where "bs = c @ ph' @ bs'" "length ph' = prefix_space l"
    "layout bs' (p + length c + prefix_space l) c' fs segs" by auto
  with 2 show ?case by auto
qed auto

section \<open>Flushing refines closing\<close>

lemma flush_children_refines:
  assumes "alloc_ok alloc"
  shows "buf_ok b \<Longrightarrow> bytes_of b = pre @ bs \<Longrightarrow> layout bs (length pre) c fs segs \<Longrightarrow>
    flushes alloc b (flush_children alloc b fs) (map_option ((@) pre) (close_all c segs))"
proof (induction fs arbitrary: b pre bs c segs)
  case Nil
  then have "segs = []" "bs = c" by (cases segs; auto)+
  with Nil show ?case by (auto simp: flushes_def buf_ok_def evolves_refl)
next
  case (Cons f fs)
  then obtain k c' segs' where segs: "segs = (k, c') # segs'" by (cases segs) auto
  with Cons.prems obtain ph bs' where k: "frame_kind f k" and o: "unat (offset f) = length pre + length c"
    and bs: "bs = c @ ph @ bs'" and ph: "length ph = prefix_space k"
    and lay: "layout bs' (length pre + length c + prefix_space k) c' fs segs'" by auto
  have noerr: "\<not> error b" using Cons.prems by (simp add: buf_ok_def)
  have nz: "pending_len_len f \<noteq> 0" using frame_space [OF k] by auto
  have IH: "flushes alloc b (flush_children alloc b fs) (map_option ((@) (pre @ c @ ph)) (close_all c' segs'))"
    using Cons.prems bs lay ph by (intro Cons.IH [of b "pre @ c @ ph" bs']) (simp_all add: add.assoc)
  show ?case
  proof (cases "flush_children alloc b fs")
    case Fault
    with IH show ?thesis by (simp add: flushes_def)
  next
    case (Fail s)
    obtain b1 cs where s: "s = (b1, cs)" by (cases s)
    have "\<not> room alloc b (length bs'')" if "map_option ((@) pre) (close_all c segs) = Some bs''" for bs''
    proof -
      from that segs obtain r where r: "close_all c' segs' = Some r" "prefix_fits k (length r)"
        "bs'' = pre @ c @ prefix_bytes k (length r) @ r" by (auto split: option.splits if_splits)
      then have "\<not> room alloc b (length (pre @ c @ ph @ r))" using IH Fail s by (auto simp: flushes_def)
      then show ?thesis using r prefix_space_le [OF r(2)] ph
        by (auto intro: room_mono)
    qed
    then show ?thesis using Fail s noerr nz IH by (auto simp: flushes_def)
  next
    case (Ok u s)
    obtain b1 cs where s: "s = (b1, cs)" by (cases s)
    with IH Ok obtain r where r: "close_all c' segs' = Some r" and cs: "cs = []" and ev: "evolves b b1"
      and b1: "bytes_of b1 = (pre @ c) @ ph @ r" by (auto simp: flushes_def)
    have ok1: "buf_ok b1" using ev by (rule evolves_ok)
    let ?out = "if prefix_fits k (length r) then Some ((pre @ c) @ prefix_bytes k (length r) @ r) else None"
    have "flushes alloc b1 (flush_prefix alloc b1 f []) ?out"
    proof (cases k)
      case Asn1_prefix
      with ph obtain x where "ph = [x]" by (auto simp: length_Suc_conv)
      with Asn1_prefix show ?thesis
        using flush_asn1_prefix [OF assms ok1, of "pre @ c" x r f] b1 o k
        by (cases "length r \<le> 0xFFFFFFFE") simp_all
    next
      case (Len_prefix n)
      then show ?thesis
        using flush_len_prefix [OF ok1 b1, of n f alloc] ph o k by (cases "length r < 256 ^ n") simp_all
    qed
    moreover have "?out = map_option ((@) pre) (close_all c segs)" by (simp add: segs r)
    moreover have "flush_children alloc b (f # fs) = flush_prefix alloc b1 f []"
      using Ok s cs noerr nz by simp
    ultimately show ?thesis
      using ev by (auto simp: flushes_def intro: evolves_trans evolves_room split: outcome.splits prod.splits)
  qed
qed

section \<open>The simulation\<close>

definition builder_rel :: "CBB \<Rightarrow> builder \<Rightarrow> bool" where
  "builder_rel cbb st \<longleftrightarrow>
     (\<exists>b root fs. base cbb = Some b \<and> buf_ok b \<and> chain cbb = root # fs \<and>
        offset root = 0 \<and> pending_len_len root = 0 \<and> \<not> is_child root \<and>
        layout (bytes_of b) 0 (fst st) fs (snd st))"

text \<open>A builder that met an error: every later operation fails.\<close>

definition dead :: "CBB \<Rightarrow> bool" where
  "dead cbb \<longleftrightarrow> (\<exists>b. base cbb = Some b \<and> error b)"

definition cbb_room :: "allocator \<Rightarrow> CBB \<Rightarrow> nat \<Rightarrow> bool" where
  "cbb_room alloc cbb n \<longleftrightarrow> (\<exists>b. base cbb = Some b \<and> room alloc b n)"

text \<open>\<open>refines alloc cbb m out\<close>: an operation called on \<open>cbb\<close> had the outcome \<open>m\<close>; its abstract counterpart leads to
  \<open>out\<close>.  A success is a state that represents \<open>out\<close> and has no less room than before; a failure leaves the
  builder dead and only happens when the abstract operation fails or there is no room for its result.\<close>

definition refines :: "allocator \<Rightarrow> CBB \<Rightarrow> ('a, CBB) outcome \<Rightarrow> builder option \<Rightarrow> bool" where
  "refines alloc cbb m out \<longleftrightarrow>
     (case m of
        Fault \<Rightarrow> False
      | Fail cbb' \<Rightarrow> dead cbb' \<and> (\<forall>st. out = Some st \<longrightarrow> \<not> cbb_room alloc cbb (abs_size st))
      | Ok _ cbb' \<Rightarrow>
          (\<exists>st. out = Some st \<and> builder_rel cbb' st) \<and>
          (\<forall>n. cbb_room alloc cbb n \<longrightarrow> cbb_room alloc cbb' n))"

lemma refines_bind:
  assumes "refines alloc cbb m out"
    and "\<And>a cbb' st. m = Ok a cbb' \<Longrightarrow> out = Some st \<Longrightarrow> builder_rel cbb' st \<Longrightarrow> refines alloc cbb' (f a cbb') (g st)"
    and "\<And>st st'. out = Some st \<Longrightarrow> g st = Some st' \<Longrightarrow> abs_size st \<le> abs_size st'"
  shows "refines alloc cbb (obind m f) (Option.bind out g)"
proof (cases m)
  case Fault
  then show ?thesis using assms(1) by (simp add: refines_def)
next
  case (Fail cbb')
  have "\<not> cbb_room alloc cbb (abs_size st')" if "Option.bind out g = Some st'" for st'
  proof -
    from that obtain st where "out = Some st" "g st = Some st'" by (cases out) auto
    moreover have "\<not> cbb_room alloc cbb (abs_size st)" using assms(1) Fail calculation by (simp add: refines_def)
    ultimately show ?thesis using assms(3) [of st st'] room_mono unfolding cbb_room_def by blast
  qed
  then show ?thesis using assms(1) Fail by (simp add: refines_def)
next
  case (Ok a cbb')
  then obtain st where st: "out = Some st" "builder_rel cbb' st"
    and r: "\<forall>n. cbb_room alloc cbb n \<longrightarrow> cbb_room alloc cbb' n" using assms(1) by (auto simp: refines_def)
  have "refines alloc cbb' (f a cbb') (g st)" using assms(2) Ok st by blast
  then show ?thesis using Ok st r by (auto simp: refines_def split: outcome.splits)
qed

lemma refines_Ok: "builder_rel cbb st \<Longrightarrow> refines alloc cbb (Ok a cbb) (Some st)"
  by (simp add: refines_def)

text \<open>The part of the layout below position \<open>d\<close> of the chain.\<close>

lemma layout_at:
  assumes "layout bs p c fs segs" and "d \<le> length fs"
  obtains pre c' bs' where "bs = pre @ bs'" and "layout bs' (p + length pre) c' (drop d fs) (drop d segs)"
    and "abs_flush d (c, segs) = None \<longleftrightarrow> close_all c' (drop d segs) = None"
    and "\<And>r. close_all c' (drop d segs) = Some r \<Longrightarrow>
      \<exists>st. abs_flush d (c, segs) = Some st \<and> layout (pre @ r) p (fst st) (take d fs) (snd st)"
proof -
  have "\<exists>pre c' bs'. bs = pre @ bs' \<and> layout bs' (p + length pre) c' (drop d fs) (drop d segs) \<and>
    (abs_flush d (c, segs) = None \<longleftrightarrow> close_all c' (drop d segs) = None) \<and>
    (\<forall>r. close_all c' (drop d segs) = Some r \<longrightarrow>
      (\<exists>st. abs_flush d (c, segs) = Some st \<and> layout (pre @ r) p (fst st) (take d fs) (snd st)))"
    using assms
  proof (induction d arbitrary: bs p c fs segs)
    case 0
    then show ?case by (intro exI [of _ "[]"] exI [of _ c] exI [of _ bs]) auto
  next
    case (Suc d)
    then obtain f fs' k c1 segs' where fs: "fs = f # fs'" and segs: "segs = (k, c1) # segs'"
      by (cases fs; cases segs) auto
    with Suc.prems obtain ph bs1 where k: "frame_kind f k" and o: "unat (offset f) = p + length c"
      and bs: "bs = c @ ph @ bs1" and ph: "length ph = prefix_space k"
      and lay: "layout bs1 (p + length c + prefix_space k) c1 fs' segs'" by auto
    from Suc.IH [OF lay] Suc.prems(2) fs obtain pre c' bs' where h: "bs1 = pre @ bs'"
      "layout bs' (p + length c + prefix_space k + length pre) c' (drop d fs') (drop d segs')"
      "abs_flush d (c1, segs') = None \<longleftrightarrow> close_all c' (drop d segs') = None"
      "\<forall>r. close_all c' (drop d segs') = Some r \<longrightarrow> (\<exists>st. abs_flush d (c1, segs') = Some st \<and>
        layout (pre @ r) (p + length c + prefix_space k) (fst st) (take d fs') (snd st))" by auto
    have closed: "\<exists>st. abs_flush (Suc d) (c, segs) = Some st \<and>
        layout ((c @ ph @ pre) @ r) p (fst st) (take (Suc d) fs) (snd st)"
      if r: "close_all c' (drop (Suc d) segs) = Some r" for r
    proof -
      from h(4) r segs obtain c2 s2 where s: "abs_flush d (c1, segs') = Some (c2, s2)"
        "layout (pre @ r) (p + length c + prefix_space k) c2 (take d fs') s2" by auto
      have "layout (c @ ph @ pre @ r) p c (f # take d fs') ((k, c2) # s2)"
        unfolding layout.simps using k o ph s(2) by blast
      then show ?thesis using s(1) by (simp add: segs fs)
    qed
    show ?case
    proof (rule exI [of _ "c @ ph @ pre"], rule exI [of _ c'], rule exI [of _ bs'], intro conjI allI impI)
      show "bs = (c @ ph @ pre) @ bs'" using bs h(1) by simp
      show "layout bs' (p + length (c @ ph @ pre)) c' (drop (Suc d) fs) (drop (Suc d) segs)"
        using h(2) ph fs segs by (simp add: add.assoc)
      show "abs_flush (Suc d) (c, segs) = None \<longleftrightarrow> close_all c' (drop (Suc d) segs) = None"
        using h(3) segs by simp
    qed (rule closed)
  qed
  then show ?thesis
    by (elim exE conjE) (rule that, assumption, assumption, assumption, drule spec, drule mp, assumption, assumption)
qed

lemma CBB_flush_refines:
  assumes "alloc_ok alloc" and "builder_rel cbb st" and "d \<le> length (snd st)"
  shows "refines alloc cbb (CBB_flush alloc cbb d) (abs_flush d st)"
proof -
  obtain c segs where st: "st = (c, segs)" by (cases st)
  obtain b root fs where b: "base cbb = Some b" "buf_ok b" and ch: "chain cbb = root # fs"
    and root: "offset root = 0" "pending_len_len root = 0" "\<not> is_child root"
    and lay: "layout (bytes_of b) 0 c fs segs" using assms(2) by (auto simp: builder_rel_def st)
  have d: "d \<le> length fs" using assms(3) layout_length [OF lay] by (simp add: st)
  obtain pre c' bs' where bs: "bytes_of b = pre @ bs'" and l: "layout bs' (length pre) c' (drop d fs) (drop d segs)"
    and none: "abs_flush d st = None \<longleftrightarrow> close_all c' (drop d segs) = None"
    and some: "\<And>r. close_all c' (drop d segs) = Some r \<Longrightarrow>
      \<exists>st'. abs_flush d st = Some st' \<and> layout (pre @ r) 0 (fst st') (take d fs) (snd st')"
    by (rule layout_at [OF lay d]) (simp add: st)
  have fl: "flushes alloc b (flush_children alloc b (drop d fs)) (map_option ((@) pre) (close_all c' (drop d segs)))"
    using flush_children_refines [OF assms(1) b(2) bs l] .
  show ?thesis
  proof (cases "flush_children alloc b (drop d fs)")
    case Fault
    with fl show ?thesis by (simp add: flushes_def)
  next
    case (Fail s)
    obtain b1 cs where s: "s = (b1, cs)" by (cases s)
    have "\<not> cbb_room alloc cbb (abs_size st')" if f: "abs_flush d st = Some st'" for st'
    proof -
      from none f obtain r where r: "close_all c' (drop d segs) = Some r" by auto
      with some [OF r] f have "layout (pre @ r) 0 (fst st') (take d fs) (snd st')" by simp
      then have "abs_size st' = length (pre @ r)" using layout_size by fastforce
      then show ?thesis using fl Fail s r b(1) by (simp add: flushes_def cbb_room_def)
    qed
    then show ?thesis
      using Fail s fl b(1) ch d by (simp add: CBB_flush_def refines_def flushes_def dead_def Let_def)
  next
    case (Ok u s)
    obtain b1 cs where s: "s = (b1, cs)" by (cases s)
    with fl Ok obtain r where r: "close_all c' (drop d segs) = Some r" and cs: "cs = []" and ev: "evolves b b1"
      and b1: "bytes_of b1 = pre @ r" by (auto simp: flushes_def)
    from some [OF r] obtain st' where st': "abs_flush d st = Some st'"
      "layout (pre @ r) 0 (fst st') (take d fs) (snd st')" by blast
    have "CBB_flush alloc cbb d = Ok () (cbb\<lparr>base := Some b1, chain := root # take d fs\<rparr>)"
      using Ok s cs b(1) ch d by (simp add: CBB_flush_def Let_def)
    then show ?thesis
      using st' b1 root b(1) ev evolves_ok [OF ev] evolves_room [OF ev]
      by (auto simp: refines_def builder_rel_def cbb_room_def)
  qed
qed

section \<open>Appending\<close>

definition abs_put :: "nat \<Rightarrow> byte list \<Rightarrow> builder \<Rightarrow> builder option" where
  "abs_put d bs st = map_option (abs_append bs) (abs_flush d st)"

lemma abs_append_mono: "abs_append bs st = st' \<Longrightarrow> abs_size st \<le> abs_size st'"
  using abs_append_size [of bs st] by simp

lemma on_base_appends:
  assumes "builder_rel cbb st" and "\<And>b. base cbb = Some b \<Longrightarrow> buf_ok b \<Longrightarrow> appends alloc b (f b) bs"
  shows "refines alloc cbb (on_base cbb f) (Some (abs_append bs st))"
proof -
  obtain b root fs where b: "base cbb = Some b" "buf_ok b" and ch: "chain cbb = root # fs"
    and root: "offset root = 0" "pending_len_len root = 0" "\<not> is_child root"
    and lay: "layout (bytes_of b) 0 (fst st) fs (snd st)" using assms(1) by (auto simp: builder_rel_def)
  note f = assms(2) [OF b]
  have size: "length (bytes_of b) = abs_size st" using layout_size [OF lay] by simp
  show ?thesis
  proof (cases "f b")
    case Fault
    with f show ?thesis by (simp add: appends_def)
  next
    case (Fail b')
    with f show ?thesis
      using b(1) size by (simp add: appends_def on_base_def refines_def dead_def cbb_room_def abs_append_size)
  next
    case (Ok a b')
    with f have ev: "evolves b b'" and bs: "bytes_of b' = bytes_of b @ bs" by (simp_all add: appends_def)
    have "layout (bytes_of b') 0 (fst (abs_append bs st)) fs (snd (abs_append bs st))"
      using layout_append [OF lay, of bs] bs by simp
    then show ?thesis
      using Ok b(1) ch root ev evolves_ok [OF ev] evolves_room [OF ev]
      by (auto simp: on_base_def refines_def builder_rel_def cbb_room_def)
  qed
qed

lemma refines_flush_bind:
  assumes "alloc_ok alloc" and "builder_rel cbb st" and "d \<le> length (snd st)"
    and "\<And>cbb' st'. builder_rel cbb' st' \<Longrightarrow> length (snd st') = d \<Longrightarrow> refines alloc cbb' (f cbb') (g st')"
    and "\<And>st' st''. g st' = Some st'' \<Longrightarrow> abs_size st' \<le> abs_size st''"
  shows "refines alloc cbb (obind (CBB_flush alloc cbb d) (\<lambda>_ cbb'. f cbb')) (Option.bind (abs_flush d st) g)"
  by (rule refines_bind [OF CBB_flush_refines [OF assms(1-3)]]) (auto intro: assms(4,5) dest: abs_flush_length)

lemma bind_Some: "Option.bind m (\<lambda>x. Some (f x)) = map_option f m"
  by (cases m) auto

lemma abs_put_bind: "Option.bind (abs_flush d st) (\<lambda>s. Some (abs_append bs s)) = abs_put d bs st"
  by (simp add: abs_put_def bind_Some)

lemma CBB_add_bytes_refines:
  assumes "alloc_ok alloc" and "builder_rel cbb st" and "d \<le> length (snd st)" and "unat n \<le> length data"
  shows "refines alloc cbb (CBB_add_bytes alloc cbb d data n) (abs_put d (take (unat n) data) st)"
proof -
  have "refines alloc cbb (obind (CBB_flush alloc cbb d) (\<lambda>_ cbb1. on_base cbb1 (\<lambda>b.
         obind (cbb_buffer_add alloc b n) (\<lambda>p b1.
           (case mem_write (buf b1) p (take (unat n) data) of
              None \<Rightarrow> Fault
            | Some m \<Rightarrow> Ok () (b1\<lparr>buf := m\<rparr>)))))) (abs_put d (take (unat n) data) st)"
    unfolding abs_put_bind [symmetric] using assms(1-4)
    by (intro refines_flush_bind on_base_appends append_write) (auto dest: abs_append_mono)
  then show ?thesis using assms(4) by (simp add: CBB_add_bytes_def mem_range_def)
qed

lemma cbb_add_u_refines:
  assumes "alloc_ok alloc" and "builder_rel cbb st" and "d \<le> length (snd st)" and "0 < unat n"
  shows "refines alloc cbb (cbb_add_u alloc cbb d v n)
    (if unat v < 256 ^ unat n then abs_put d (be_bytes (unat n) (unat v)) st else None)"
proof (cases "unat v < 256 ^ unat n")
  case True
  then have "refines alloc cbb (cbb_add_u alloc cbb d v n) (abs_put d (be_bytes (unat n) (unat v)) st)"
    unfolding cbb_add_u_def abs_put_bind [symmetric] using assms
    by (intro refines_flush_bind on_base_appends append_u(1)) (auto dest: abs_append_mono)
  then show ?thesis using True by simp
next
  case False
  have "refines alloc cbb' (on_base cbb' (\<lambda>b. cbb_buffer_add_u alloc b v n)) None" if "builder_rel cbb' st'" for cbb' st'
  proof -
    from that obtain b where b: "base cbb' = Some b" "buf_ok b" by (auto simp: builder_rel_def)
    from append_u(2) [OF assms(1) b(2) assms(4) False] b(1) show ?thesis
      by (auto simp: on_base_def refines_def dead_def)
  qed
  then have "refines alloc cbb (cbb_add_u alloc cbb d v n) (Option.bind (abs_flush d st) (\<lambda>_. None))"
    unfolding cbb_add_u_def using assms by (intro refines_flush_bind) auto
  then show ?thesis using False by (cases "abs_flush d st") auto
qed

lemma be_bytes_1: "be_bytes 1 n = [of_nat n]"
  by (simp add: be_bytes_def)

lemma CBB_add_u8_refines:
  assumes "alloc_ok alloc" and "builder_rel cbb st" and "d \<le> length (snd st)"
  shows "refines alloc cbb (CBB_add_u8 alloc cbb d v) (abs_put d [v] st)"
proof -
  have u: "unat (ucast v :: u64) = unat v"
    using byte_unat_less [of v] by (simp only: ucast_eq_of_nat) (intro unat_of_nat_less, simp)
  have "refines alloc cbb (cbb_add_u alloc cbb d (ucast v) 1)
    (if unat (ucast v :: u64) < 256 ^ unat (1 :: size_t) then abs_put d (be_bytes (unat (1 :: size_t)) (unat (ucast v :: u64))) st else None)"
    by (rule cbb_add_u_refines [OF assms]) simp
  then show ?thesis using byte_unat_less [of v] by (simp add: CBB_add_u8_def u be_bytes_1 [unfolded One_nat_def])
qed

text \<open>At a position whose children are all closed, operations append directly.\<close>

lemma abs_put_flushed: "length (snd st) = d \<Longrightarrow> abs_put d bs st = Some (abs_append bs st)"
  by (simp add: abs_put_def abs_flush_idem)

lemma refines_append_seq:
  assumes "refines alloc cbb m (Some (abs_append xs st))"
    and "\<And>cbb'. builder_rel cbb' (abs_append xs st) \<Longrightarrow>
      refines alloc cbb' (f cbb') (Some (abs_append ys (abs_append xs st)))"
  shows "refines alloc cbb (obind m (\<lambda>_ cbb'. f cbb')) (Some (abs_append (xs @ ys) st))"
proof -
  have "refines alloc cbb (obind m (\<lambda>_ cbb'. f cbb')) (Option.bind (Some (abs_append xs st)) (\<lambda>s. Some (abs_append ys s)))"
    using assms by (intro refines_bind) (auto dest: abs_append_mono)
  then show ?thesis by (simp add: abs_append_append)
qed

section \<open>Children\<close>

lemma attach_refines:
  assumes "builder_rel cbb st" and "length (snd st) = d"
    and "base cbb' = Some b'" and "evolves b b'" and "bytes_of b' = bytes_of b @ ph" and "base cbb = Some b"
    and "chain cbb' = chain cbb" and "length ph = prefix_space k"
    and "frame_kind \<lparr>offset = buf_len b, pending_len_len = p, pending_is_asn1 = a, is_child = True\<rparr> k"
  shows "builder_rel (attach_child cbb' d (buf_len b) p a) (abs_open k st)"
proof -
  obtain root fs where b: "buf_ok b" and ch: "chain cbb = root # fs"
    and root: "offset root = 0" "pending_len_len root = 0" "\<not> is_child root"
    and lay: "layout (bytes_of b) 0 (fst st) fs (snd st)" using assms(1,6) by (auto simp: builder_rel_def)
  have "take (Suc d) (chain cbb) = chain cbb" using layout_length [OF lay] assms(2) ch by simp
  moreover have "layout (bytes_of b @ ph) 0 (fst st)
      (fs @ [\<lparr>offset = buf_len b, pending_len_len = p, pending_is_asn1 = a, is_child = True\<rparr>]) (snd st @ [(k, [])])"
    using layout_open [OF lay assms(9) _ assms(8)] b by simp
  ultimately show ?thesis
    using assms(3,5,7) ch root evolves_ok [OF assms(4)] by (simp add: attach_child_def builder_rel_def abs_open_def)
qed

definition abs_child :: "nat \<Rightarrow> byte list \<Rightarrow> prefix_kind \<Rightarrow> builder \<Rightarrow> builder option" where
  "abs_child d bs k st = map_option (\<lambda>s. abs_open k (abs_append bs s)) (abs_flush d st)"

lemma abs_open_mono: "abs_open k st = st' \<Longrightarrow> abs_size st \<le> abs_size st'"
  using abs_open_size [of k st] by simp

lemma add_length_prefixed_refines:
  assumes "alloc_ok alloc" and "builder_rel cbb st" and "d \<le> length (snd st)"
    and k: "0 < unat n" "unat n \<le> 3"
  shows "refines alloc cbb (cbb_add_length_prefixed alloc cbb d n) (abs_child d [] (Len_prefix (unat n)) st)"
proof -
  have n: "unat (ucast n :: size_t) = unat n"
    using byte_unat_less [of n] by (simp only: ucast_eq_of_nat) (intro unat_of_nat_less, simp)
  let ?f = "\<lambda>b. obind (cbb_buffer_add alloc b (ucast n)) (\<lambda>p b1.
         (case mem_write (buf b1) p (replicate (unat n) 0) of
            None \<Rightarrow> Fault
          | Some m \<Rightarrow> Ok (buf_len b) (b1\<lparr>buf := m\<rparr>)))"
  have step: "refines alloc cbb1
      (obind (on_base cbb1 ?f) (\<lambda>off cbb2. Ok () (attach_child cbb2 d off n False)))
      (Some (abs_open (Len_prefix (unat n)) s))" if rel: "builder_rel cbb1 s" and d: "length (snd s) = d" for cbb1 s
  proof -
    obtain b where b: "base cbb1 = Some b" "buf_ok b"
      and size: "length (bytes_of b) = abs_size s"
      using rel layout_size by (fastforce simp: builder_rel_def)
    have ap: "appends alloc b (?f b) (replicate (unat n) 0)"
      using append_write [OF assms(1) b(2), of "replicate (unat n) 0" "ucast n"] n by simp
    show ?thesis
    proof (cases "?f b")
      case Fault
      with ap show ?thesis by (simp add: appends_def)
    next
      case (Fail b')
      then show ?thesis
        using ap b(1) size by (simp add: on_base_def refines_def dead_def appends_def cbb_room_def abs_open_size)
    next
      case (Ok off b')
      then have off: "off = buf_len b" by (auto split: option.splits)
      have ev: "evolves b b'" and bs: "bytes_of b' = bytes_of b @ replicate (unat n) 0"
        using ap Ok by (simp_all add: appends_def)
      have "builder_rel (attach_child (cbb1\<lparr>base := Some b'\<rparr>) d (buf_len b) n False) (abs_open (Len_prefix (unat n)) s)"
        using attach_refines [OF rel d _ ev bs b(1), of "cbb1\<lparr>base := Some b'\<rparr>" "Len_prefix (unat n)" n False] k by simp
      then show ?thesis
        using Ok off b(1) evolves_room [OF ev]
        by (auto simp: on_base_def refines_def cbb_room_def attach_child_def)
    qed
  qed
  have "refines alloc cbb (cbb_add_length_prefixed alloc cbb d n)
      (Option.bind (abs_flush d st) (\<lambda>s. Some (abs_open (Len_prefix (unat n)) s)))"
    unfolding cbb_add_length_prefixed_def using assms(1-3) step
    by (intro refines_flush_bind) (auto dest: abs_open_mono)
  moreover have "abs_append [] s = s" for s by (induction "[] :: byte list" s rule: abs_append.induct) auto
  ultimately show ?thesis by (simp add: abs_child_def bind_Some)
qed

section \<open>Base-128 integers and identifier octets\<close>

definition hi_groups :: "nat \<Rightarrow> nat \<Rightarrow> byte list" where
  "hi_groups v n = map (\<lambda>i. of_nat (v div 128 ^ i mod 128 + 128)) (rev [0..<n])"

lemma hi_groups_Suc: "hi_groups v (Suc n) = hi_groups (v div 128) n @ [of_nat (v mod 128 + 128)]"
proof -
  have "rev [0..<Suc n] = map Suc (rev [0..<n]) @ [0]"
    by (simp add: upt_conv_Cons map_Suc_upt [symmetric] rev_map del: upt_Suc)
  then show ?thesis by (simp add: hi_groups_def div_mult2_eq del: upt_Suc)
qed

lemma base128_hi_groups: "base128_hi (unat v) = hi_groups (unat v) (base128_len v)"
proof (induction v rule: base128_len.induct)
  case (1 v)
  show ?case
  proof (cases "v > 0")
    case True
    then have "unat v \<noteq> 0" by (simp add: unat_eq_zero word_gt_0)
    have "base128_len v = Suc (base128_len (drop_bit 7 v))" using True by (subst base128_len.simps) simp
    then have "hi_groups (unat v) (base128_len v) = hi_groups (unat v div 128) (base128_len (drop_bit 7 v)) @ [of_nat (unat v mod 128 + 128)]"
      by (simp only: hi_groups_Suc)
    also have "hi_groups (unat v div 128) (base128_len (drop_bit 7 v)) = base128_hi (unat v div 128)"
      using 1 [OF True] by (simp add: unat_drop_bit)
    finally show ?thesis using \<open>unat v \<noteq> 0\<close> by (subst base128_hi.simps) simp
  next
    case False
    then have "v = 0" by (simp add: word_gt_0)
    then show ?thesis by (subst base128_len.simps) (simp add: hi_groups_def)
  qed
qed

text \<open>The bytes that the loop of \<open>add_base128_integer\<close> writes.\<close>

fun base128_groups :: "u64 \<Rightarrow> nat \<Rightarrow> byte list" where
  "base128_groups v 0 = []"
| "base128_groups v (Suc i) =
     (let b = ucast (drop_bit (7 * i) v AND 0x7F) in (if i \<noteq> 0 then b OR 0x80 else b)) # base128_groups v i"

lemma group_byte: "(ucast (drop_bit (7 * i) v AND 0x7F :: u64) :: byte) = of_nat (unat v div 128 ^ i mod 128)"
proof -
  have "unat (drop_bit (7 * i) v AND 0x7F :: u64) = unat v div 128 ^ i mod 128"
    using unat_take_mask [of "drop_bit (7 * i) v" 7] by (simp add: unat_drop_bit mask_eq_exp_minus_1 power_mult)
  then show ?thesis by (simp only: ucast_eq_of_nat)
qed

lemma group_or: "n < 128 \<Longrightarrow> (of_nat n :: byte) OR 0x80 = of_nat (n + 128)"
  using or_push_bit_of_nat [of n 7 1, where 'a = 8] by simp

lemma base128_groups_eq:
  "base128_groups v (Suc n) = hi_groups (unat v div 128) n @ [of_nat (unat v mod 128)]"
proof (induction n)
  case 0
  then show ?case using group_byte [of 0 v] by (simp add: hi_groups_def)
next
  case (Suc n)
  have "base128_groups v (Suc (Suc n)) = of_nat (unat v div 128 ^ Suc n mod 128 + 128) # base128_groups v (Suc n)"
    using group_byte [of "Suc n" v] by (simp add: group_or del: of_nat_add)
  then show ?case unfolding Suc by (simp add: hi_groups_def div_mult2_eq)
qed

lemma base128_groups_enc:
  "base128_groups v (if base128_len v = 0 then 1 else base128_len v) = base128_enc (unat v)"
proof (cases "v > 0")
  case True
  then have "base128_len v = Suc (base128_len (drop_bit 7 v))" by (subst base128_len.simps) simp
  then show ?thesis
    using base128_hi_groups [of "drop_bit 7 v"] by (simp add: base128_groups_eq base128_enc_def unat_drop_bit
        del: base128_groups.simps)
next
  case False
  then have "base128_len v = 0" "v = 0" by (subst base128_len.simps, simp_all add: word_gt_0)
  then show ?thesis by (simp add: base128_enc_def)
qed

lemma add_base128_loop_refines:
  assumes "alloc_ok alloc"
  shows "builder_rel cbb st \<Longrightarrow> length (snd st) = d \<Longrightarrow>
    refines alloc cbb (add_base128_loop alloc cbb d v n) (Some (abs_append (base128_groups v n) st))"
proof (induction n arbitrary: cbb st)
  case 0
  moreover have "abs_append [] s = s" for s by (induction "[] :: byte list" s rule: abs_append.induct) auto
  ultimately show ?case by (simp add: refines_Ok)
next
  case (Suc n)
  let ?b = "let b = ucast (drop_bit (7 * n) v AND 0x7F) in (if n \<noteq> 0 then b OR 0x80 else b) :: byte"
  have "refines alloc cbb (CBB_add_u8 alloc cbb d ?b) (Some (abs_append [?b] st))"
    using CBB_add_u8_refines [OF assms Suc.prems(1), of d ?b] Suc.prems(2) by (simp add: abs_put_flushed)
  moreover have "refines alloc cbb' (add_base128_loop alloc cbb' d v n)
      (Some (abs_append (base128_groups v n) (abs_append [?b] st)))"
    if "builder_rel cbb' (abs_append [?b] st)" for cbb'
    using that Suc.prems(2) by (intro Suc.IH) (simp_all add: abs_append_length)
  ultimately have "refines alloc cbb (obind (CBB_add_u8 alloc cbb d ?b) (\<lambda>_ cbb1. add_base128_loop alloc cbb1 d v n))
      (Some (abs_append ([?b] @ base128_groups v n) st))"
    by (rule refines_append_seq)
  then show ?case by (simp add: Let_def)
qed

lemma add_base128_refines:
  "alloc_ok alloc \<Longrightarrow> builder_rel cbb st \<Longrightarrow> length (snd st) = d \<Longrightarrow>
   refines alloc cbb (add_base128_integer alloc cbb d v) (Some (abs_append (base128_enc (unat v)) st))"
  using add_base128_loop_refines [of alloc cbb st d v "if base128_len v = 0 then 1 else base128_len v"]
  unfolding base128_groups_enc add_base128_integer_def by blast

lemma tag_bits_byte: "unat (ucast (drop_bit 24 tag AND 0xE0 :: u32) :: byte) = 32 * tag_class tag"
proof -
  define b where "b = (ucast (drop_bit 24 tag :: u32) :: byte)"
  have "(ucast (drop_bit 24 tag AND 0xE0 :: u32) :: byte) = b AND 0xE0"
    unfolding b_def by (rule bit_word_eqI) (auto simp: bit_simps)
  moreover have "unat b = unat tag div 2 ^ 24"
  proof -
    have "unat tag div 2 ^ 24 < 256" using unat_lt_2p [of tag] by (simp add: less_mult_imp_div_less)
    then show ?thesis unfolding b_def by (simp only: ucast_eq_of_nat unat_of_nat_byte unat_drop_bit) simp
  qed
  ultimately show ?thesis by (simp add: byte_and_0xE0 tag_class_def div_mult2_eq [symmetric])
qed

lemma tag_byte_or:
  assumes "k < 32"
  shows "(ucast (drop_bit 24 tag AND 0xE0 :: u32) :: byte) OR of_nat k = of_nat (32 * tag_class tag + k)"
proof -
  let ?b = "ucast (drop_bit 24 tag AND 0xE0 :: u32) :: byte"
  have "?b = of_nat (32 * tag_class tag)" using tag_bits_byte [of tag] by (metis of_nat_unat ucast_id)
  then have "?b OR of_nat k = of_nat k OR push_bit 5 (of_nat (tag_class tag))"
    by (simp add: or.commute push_bit_eq_mult mult.commute)
  also have "\<dots> = of_nat (k + 2 ^ 5 * tag_class tag)" using assms by (intro or_push_bit_of_nat) simp
  finally show ?thesis by (simp add: add.commute)
qed

lemma tag_number_word: "unat (tag AND CBS_ASN1_TAG_NUMBER_MASK) = tag_number tag"
  using unat_take_mask [of tag 29] by (simp add: tag_number_def mask_eq_exp_minus_1)

text \<open>The identifier octets, written at a position without open children.\<close>

lemma add_tag_refines:
  assumes a: "alloc_ok alloc" and rel: "builder_rel cbb st" and d: "length (snd st) = d"
  shows "refines alloc cbb
    (if tag AND CBS_ASN1_TAG_NUMBER_MASK \<ge> 0x1F
     then obind (CBB_add_u8 alloc cbb d (ucast (drop_bit 24 tag AND 0xE0) OR 0x1F)) (\<lambda>_ cbb2.
            add_base128_integer alloc cbb2 d (ucast (tag AND CBS_ASN1_TAG_NUMBER_MASK)))
     else CBB_add_u8 alloc cbb d (ucast (drop_bit 24 tag AND 0xE0) OR ucast (tag AND CBS_ASN1_TAG_NUMBER_MASK)))
    (Some (abs_append (der_tag tag) st))"
proof -
  let ?n = "tag AND CBS_ASN1_TAG_NUMBER_MASK"
  have n: "unat (ucast ?n :: u64) = tag_number tag"
    using tag_number_less [of tag] tag_number_word [of tag]
    by (simp only: ucast_eq_of_nat) (intro unat_of_nat_less, simp)
  have hi: "?n \<ge> 0x1F \<longleftrightarrow> \<not> tag_number tag < 31" by (simp add: word_le_nat_alt tag_number_word not_less)
  note u8 = CBB_add_u8_refines [OF a rel, of d] 
  show ?thesis
  proof (cases "tag_number tag < 31")
    case True
    have "(ucast ?n :: byte) = of_nat (tag_number tag)" by (simp only: ucast_eq_of_nat tag_number_word)
    then have "(ucast (drop_bit 24 tag AND 0xE0) OR ucast ?n :: byte) = of_nat (32 * tag_class tag + tag_number tag)"
      using tag_byte_or [of "tag_number tag" tag] True by simp
    then show ?thesis using u8 d True hi by (simp add: abs_put_flushed der_tag_def del: of_nat_add of_nat_mult)
  next
    case False
    let ?b = "of_nat (32 * tag_class tag + 31) :: byte"
    have b: "(ucast (drop_bit 24 tag AND 0xE0) OR 0x1F :: byte) = ?b" using tag_byte_or [of 31 tag] by simp
    have "refines alloc cbb (obind (CBB_add_u8 alloc cbb d ?b) (\<lambda>_ cbb2. add_base128_integer alloc cbb2 d (ucast ?n)))
        (Some (abs_append ([?b] @ base128_enc (tag_number tag)) st))"
      using u8 [of ?b] d add_base128_refines [OF a, of _ "abs_append [?b] st" d "ucast ?n"]
      by (intro refines_append_seq) (simp_all add: abs_put_flushed abs_append_length n del: of_nat_add of_nat_mult)
    then show ?thesis using False hi b by (simp add: der_tag_def del: of_nat_add of_nat_mult)
  qed
qed

lemma start_asn1_refines:
  assumes a: "alloc_ok alloc" and rel: "builder_rel cbb st" and d: "length (snd st) = d"
  shows "refines alloc cbb
    (case base cbb of
       None \<Rightarrow> Fault
     | Some b \<Rightarrow> obind (CBB_add_u8 alloc cbb d 0) (\<lambda>_ cbb4. Ok () (attach_child cbb4 d (buf_len b) 1 True)))
    (Some (abs_open Asn1_prefix st))"
proof -
  obtain b root fs where b: "base cbb = Some b" "buf_ok b" and ch: "chain cbb = root # fs"
    and lay: "layout (bytes_of b) 0 (fst st) fs (snd st)" using rel by (auto simp: builder_rel_def)
  have fs: "length fs = d" using layout_length [OF lay] d by simp
  have size: "length (bytes_of b) = abs_size st" using layout_size [OF lay] by simp
  have e: "CBB_add_u8 alloc cbb d 0 = on_base cbb (\<lambda>b. cbb_buffer_add_u alloc b 0 1)"
    using b ch fs by (cases cbb) (simp add: CBB_add_u8_def cbb_add_u_def CBB_flush_def buf_ok_def Let_def)
  have ap: "appends alloc b (cbb_buffer_add_u alloc b 0 1) [0]"
    using append_u(1) [OF a b(2), of 1 0] be_bytes_1 [of 0] by simp
  show ?thesis
  proof (cases "cbb_buffer_add_u alloc b 0 1")
    case Fault
    with ap show ?thesis by (simp add: appends_def)
  next
    case (Fail b')
    then show ?thesis
      using ap b(1) size by (simp add: e on_base_def refines_def dead_def appends_def cbb_room_def abs_open_size)
  next
    case (Ok u b')
    then have ev: "evolves b b'" and bs: "bytes_of b' = bytes_of b @ [0]" using ap by (simp_all add: appends_def)
    have "builder_rel (attach_child (cbb\<lparr>base := Some b'\<rparr>) d (buf_len b) 1 True) (abs_open Asn1_prefix st)"
      using attach_refines [OF rel d _ ev bs b(1), of "cbb\<lparr>base := Some b'\<rparr>" Asn1_prefix 1 True] by simp
    then show ?thesis
      using Ok b(1) evolves_room [OF ev] by (auto simp: e on_base_def refines_def cbb_room_def attach_child_def)
  qed
qed

lemma CBB_add_asn1_refines:
  assumes "alloc_ok alloc" and "builder_rel cbb st" and "d \<le> length (snd st)"
  shows "refines alloc cbb (CBB_add_asn1 alloc cbb d tag) (abs_child d (der_tag tag) Asn1_prefix st)"
proof -
  let ?put_tag = "\<lambda>cbb1. if tag AND CBS_ASN1_TAG_NUMBER_MASK \<ge> 0x1F
     then obind (CBB_add_u8 alloc cbb1 d (ucast (drop_bit 24 tag AND 0xE0) OR 0x1F)) (\<lambda>_ cbb2.
            add_base128_integer alloc cbb2 d (ucast (tag AND CBS_ASN1_TAG_NUMBER_MASK)))
     else CBB_add_u8 alloc cbb1 d (ucast (drop_bit 24 tag AND 0xE0) OR ucast (tag AND CBS_ASN1_TAG_NUMBER_MASK))"
  let ?start = "\<lambda>cbb3. case base cbb3 of
       None \<Rightarrow> Fault
     | Some b \<Rightarrow> obind (CBB_add_u8 alloc cbb3 d 0) (\<lambda>_ cbb4. Ok () (attach_child cbb4 d (buf_len b) 1 True))"
  have "refines alloc cbb1 (obind (?put_tag cbb1) (\<lambda>_ cbb3. ?start cbb3))
      (Option.bind (Some (abs_append (der_tag tag) s)) (\<lambda>s'. Some (abs_open Asn1_prefix s')))"
    if "builder_rel cbb1 s" and "length (snd s) = d" for cbb1 s
  proof (rule refines_bind)
    show "refines alloc cbb1 (?put_tag cbb1) (Some (abs_append (der_tag tag) s))"
      using add_tag_refines [OF assms(1) that] .
    show "refines alloc cbb' (?start cbb') (Some (abs_open Asn1_prefix s'))"
      if "builder_rel cbb' s'" and "Some (abs_append (der_tag tag) s) = Some s'" for cbb' s'
      using start_asn1_refines [OF assms(1) that(1), of d] that(2) \<open>length (snd s) = d\<close>
      by (auto simp: abs_append_length)
  qed (auto dest: abs_open_mono)
  then have "refines alloc cbb (obind (CBB_flush alloc cbb d) (\<lambda>_ cbb1. obind (?put_tag cbb1) (\<lambda>_ cbb3. ?start cbb3)))
      (Option.bind (abs_flush d st) (\<lambda>s. Some (abs_open Asn1_prefix (abs_append (der_tag tag) s))))"
    using assms by (intro refines_flush_bind) (auto dest!: abs_open_mono simp: abs_append_size)
  then show ?thesis by (simp only: CBB_add_asn1_def Let_def abs_child_def bind_Some)
qed

section \<open>Whole elements\<close>

lemma abs_flush_child:
  "length (snd st) = d \<Longrightarrow>
   abs_flush d (abs_append bs (abs_open k st)) =
     (if prefix_fits k (length bs) then Some (abs_append (prefix_bytes k (length bs) @ bs) st) else None)"
proof (induction d st rule: abs_flush.induct)
  case (3 d c l c' segs)
  then show ?case by (auto simp: abs_open_def split: prod.splits if_splits)
qed (auto simp: abs_open_def)

lemma abs_child_length: "abs_child d bs k st = Some s \<Longrightarrow> length (snd s) = Suc d"
  by (cases "abs_flush d st") (auto simp: abs_child_def abs_open_def abs_append_length dest: abs_flush_length)

lemma abs_flush_append_mono: "abs_flush d (abs_append bs s) = Some s' \<Longrightarrow> abs_size s \<le> abs_size s'"
  using abs_flush_size [of d "abs_append bs s" s'] abs_append_size [of bs s] by linarith

text \<open>An element whose contents were appended to the child that \<open>CBB_add_asn1\<close> opened.\<close>

lemma asn1_element_refines:
  assumes a: "alloc_ok alloc" and "builder_rel cbb st" and "d \<le> length (snd st)" and bs: "length bs \<le> 0xFFFFFFFE"
    and body: "\<And>cbb1 s. builder_rel cbb1 s \<Longrightarrow> length (snd s) = Suc d \<Longrightarrow>
      refines alloc cbb1 (body cbb1) (Some (abs_append bs s))"
  shows "refines alloc cbb
    (obind (CBB_add_asn1 alloc cbb d tag) (\<lambda>_ cbb1. obind (body cbb1) (\<lambda>_ cbb2. CBB_flush alloc cbb2 d)))
    (abs_put d (der_element tag bs) st)"
proof -
  have step: "refines alloc cbb1 (obind (body cbb1) (\<lambda>_ cbb2. CBB_flush alloc cbb2 d))
      (Option.bind (Some (abs_append bs s)) (abs_flush d))" if "builder_rel cbb1 s" "length (snd s) = Suc d" for cbb1 s
    using body [OF that] that a abs_append_length [of bs s]
    by (intro refines_bind) (auto intro!: CBB_flush_refines dest: abs_flush_size)
  have "refines alloc cbb
      (obind (CBB_add_asn1 alloc cbb d tag) (\<lambda>_ cbb1. obind (body cbb1) (\<lambda>_ cbb2. CBB_flush alloc cbb2 d)))
      (Option.bind (abs_child d (der_tag tag) Asn1_prefix st) (\<lambda>s. abs_flush d (abs_append bs s)))"
  proof (rule refines_bind [OF CBB_add_asn1_refines [OF assms(1-3)]])
    fix a cbb' s assume "abs_child d (der_tag tag) Asn1_prefix st = Some s" and "builder_rel cbb' s"
    then show "refines alloc cbb' (obind (body cbb') (\<lambda>_ cbb2. CBB_flush alloc cbb2 d)) (abs_flush d (abs_append bs s))"
      using step [of cbb' s] abs_child_length by simp
  qed (rule abs_flush_append_mono)
  moreover have "Option.bind (abs_child d (der_tag tag) Asn1_prefix st) (\<lambda>s. abs_flush d (abs_append bs s)) =
      abs_put d (der_element tag bs) st"
    using bs by (cases "abs_flush d st")
      (auto simp: abs_child_def abs_put_def abs_flush_child abs_append_length abs_append_append der_element_def
        der_header_def dest: abs_flush_length)
  ultimately show ?thesis by simp
qed

lemma CBB_add_asn1_octet_string_refines:
  assumes "alloc_ok alloc" and "builder_rel cbb st" and "d \<le> length (snd st)" and "unat n \<le> length data"
    and "unat n \<le> 0xFFFFFFFE"
  shows "refines alloc cbb (CBB_add_asn1_octet_string alloc cbb d data n)
    (abs_put d (der_element CBS_ASN1_OCTETSTRING (take (unat n) data)) st)"
  unfolding CBB_add_asn1_octet_string_def using assms
  by (intro asn1_element_refines) (auto simp flip: abs_put_flushed intro: CBB_add_bytes_refines)

lemma CBB_add_asn1_bool_refines:
  assumes "alloc_ok alloc" and "builder_rel cbb st" and "d \<le> length (snd st)"
  shows "refines alloc cbb (CBB_add_asn1_bool alloc cbb d v)
    (abs_put d (der_element CBS_ASN1_BOOLEAN [if v \<noteq> 0 then 0xFF else 0]) st)"
  unfolding CBB_add_asn1_bool_def using assms
  by (intro asn1_element_refines) (auto simp flip: abs_put_flushed intro: CBB_add_u8_refines)

section \<open>The life of a builder\<close>

lemma CBB_init_spec:
  assumes "alloc_ok alloc"
  shows "case CBB_init alloc n of
      Fault \<Rightarrow> False
    | Fail _ \<Rightarrow> \<not> alloc_total alloc
    | Ok _ cbb \<Rightarrow> builder_rel cbb ([], []) \<and> (alloc_total alloc \<longrightarrow> (\<forall>k<2 ^ 64. cbb_room alloc cbb k))"
proof -
  have init: "case cbb_init alloc m n of
      Fault \<Rightarrow> False
    | Fail _ \<Rightarrow> \<not> alloc_total alloc
    | Ok _ cbb \<Rightarrow> builder_rel cbb ([], []) \<and> (alloc_total alloc \<longrightarrow> (\<forall>k<2 ^ 64. cbb_room alloc cbb k))"
    if "length m = unat n" for m
    using that by (auto simp: cbb_init_def CBB_zero_def builder_rel_def buf_ok_def bytes_of_def cbb_room_def
        room_def alloc_total_def split: option.splits)
  show ?thesis
  proof (cases "alloc n")
    case None
    then show ?thesis using init [of "[]"] by (cases "n = 0") (auto simp: CBB_init_def alloc_total_def word_gt_0)
  next
    case (Some m)
    then show ?thesis using init [of m] assms by (simp add: CBB_init_def alloc_ok_def)
  qed
qed

text \<open>\<open>CBB_finish\<close> returns the closed contents and leaves no buffer behind.\<close>

lemma CBB_finish_spec:
  assumes "alloc_ok alloc" and "builder_rel cbb st"
  shows "case CBB_finish alloc cbb 0 True of
      Fault \<Rightarrow> False
    | Fail cbb' \<Rightarrow> dead cbb' \<and> (\<forall>bs. close_all (fst st) (snd st) = Some bs \<longrightarrow> \<not> cbb_room alloc cbb (length bs))
    | Ok (m, n) cbb' \<Rightarrow> base cbb' = None \<and> unat n \<le> length m \<and>
        close_all (fst st) (snd st) = Some (take (unat n) m)"
proof -
  obtain c segs where st: "st = (c, segs)" by (cases st)
  have ref: "refines alloc cbb (CBB_flush alloc cbb 0) (map_option (\<lambda>r. (r, [])) (close_all c segs))"
    using CBB_flush_refines [OF assms, of 0] by (simp add: st)
  have top: "\<not> (length (chain cbb) \<le> 0 \<or> is_child (chain cbb ! 0))" using assms(2) by (auto simp: builder_rel_def)
  show ?thesis
  proof (cases "CBB_flush alloc cbb 0")
    case Fault
    with ref show ?thesis by (simp add: refines_def)
  next
    case (Fail cbb')
    with ref top show ?thesis by (auto simp: CBB_finish_def refines_def st)
  next
    case (Ok u cbb')
    with ref obtain r where r: "close_all c segs = Some r" and rel: "builder_rel cbb' (r, [])"
      by (auto simp: refines_def)
    from rel obtain b root where b: "base cbb' = Some b" "buf_ok b" "bytes_of b = r"
      and ch: "chain cbb' = [root]" "\<not> is_child root"
      by (auto simp: builder_rel_def dest: layout_length) (metis layout.simps(1) layout_length length_0_conv list.size(3))
    then show ?thesis
      using Ok top r by (auto simp: CBB_finish_def CBB_cleanup_def st bytes_of_def buf_ok_def)
  qed
qed

section \<open>Building and parsing one element\<close>

text \<open>A builder that is brought into the abstract state \<open>st\<close> and finished returns the closed contents, when memory
  can be had.\<close>

lemma build_and_finish:
  assumes a: "alloc_ok alloc" "alloc_total alloc" and size: "length bs < 2 ^ 64"
    and body: "\<And>cbb. builder_rel cbb ([], []) \<Longrightarrow> refines alloc cbb (body cbb) (Some st)"
    and closed: "close_all (fst st) (snd st) = Some bs"
  obtains m n cbb where
    "obind (CBB_init alloc cap0) (\<lambda>_ cbb. obind (body cbb) (\<lambda>_ cbb'. CBB_finish alloc cbb' 0 True)) = Ok (m, n) cbb"
    and "unat n \<le> length m" and "take (unat n) m = bs"
proof -
  have le: "abs_size st \<le> length bs" using close_all_size [OF closed] by simp
  obtain cbb0 where i: "CBB_init alloc cap0 = Ok () cbb0" and rel: "builder_rel cbb0 ([], [])"
    and room0: "\<And>k. k < 2 ^ 64 \<Longrightarrow> cbb_room alloc cbb0 k"
    using CBB_init_spec [OF a(1), of cap0] a(2) by (cases "CBB_init alloc cap0") auto
  obtain u cbb1 where b: "body cbb0 = Ok u cbb1" and rel1: "builder_rel cbb1 st"
    and room1: "cbb_room alloc cbb1 (length bs)"
    using body [OF rel] room0 [of "length bs"] room0 [of "abs_size st"] size le
    by (cases "body cbb0") (auto simp: refines_def)
  obtain m n cbb2 where "CBB_finish alloc cbb1 0 True = Ok (m, n) cbb2" and "unat n \<le> length m" and "take (unat n) m = bs"
    using CBB_finish_spec [OF a(1) rel1] room1 closed by (cases "CBB_finish alloc cbb1 0 True") auto
  then show ?thesis using i b that [of m n cbb2] by simp
qed

end
