(* ===== verification/CbbInt.thy ===== *)
theory CbbInt
  imports CbbRefine
begin

text \<open>
  The builder's \<open>INTEGER\<close> writers append exactly the DER encoding of the number, for unsigned and for negative
  values.
\<close>

unbundle bit_operations_syntax

section \<open>Unsigned integers\<close>

fun uint64_emit :: "u64 \<Rightarrow> bool \<Rightarrow> nat \<Rightarrow> byte list" where
  "uint64_emit v started 0 = []"
| "uint64_emit v started (Suc n) =
     (let b = (ucast (drop_bit (8 * n) v AND 0xFF) :: byte) in
      if \<not> started \<and> b = 0 then uint64_emit v started n
      else (if \<not> started \<and> b AND 0x80 \<noteq> 0 then [0] else []) @ [b] @ uint64_emit v True n)"

lemma byte_at: "(ucast (drop_bit (8 * n) v AND 0xFF :: u64) :: byte) = of_nat (unat v div 256 ^ n)"
  by (simp only: byte_splits) (simp add: power_mult)

lemma be_bytes_Suc: "be_bytes (Suc n) v = of_nat (v div 256 ^ n) # be_bytes n v"
proof -
  have "le_bytes (Suc n) v = le_bytes n v @ [of_nat (v div 256 ^ n)]"
    by (induction n arbitrary: v) (simp_all add: div_mult2_eq)
  then show ?thesis by (simp add: be_bytes_def)
qed

lemma be_bytes_0: "be_bytes 0 v = []"
  by (simp add: be_bytes_def)

lemma uint64_emit_started: "uint64_emit v True n = be_bytes n (unat v)"
  by (induction n) (simp_all add: be_bytes_0 be_bytes_Suc byte_at Let_def)

lemma mod_256_split: "(v :: nat) mod 256 ^ Suc n = v div 256 ^ n mod 256 * 256 ^ n + v mod 256 ^ n"
  using mod_mult2_eq [of v "256 ^ n" 256] by (simp add: mult.commute)

lemma uint64_emit_fresh:
  "uint64_emit v False n = (if unat v mod 256 ^ n = 0 then [] else int_bytes (int (unat v mod 256 ^ n)))"
proof (induction n)
  case 0
  then show ?case by simp
next
  case (Suc n)
  define b where "b = (of_nat (unat v div 256 ^ n) :: byte)"
  define w where "w = unat v mod 256 ^ Suc n"
  have b: "(ucast (drop_bit (8 * n) v AND 0xFF :: u64) :: byte) = b" by (simp add: byte_at b_def)
  have ub: "unat b = unat v div 256 ^ n mod 256" unfolding b_def by (rule unat_of_nat_byte)
  have w: "w = unat b * 256 ^ n + unat v mod 256 ^ n" using mod_256_split [of "unat v" n] by (simp add: w_def ub)
  show ?case
  proof (cases "b = 0")
    case True
    then have "unat v mod 256 ^ Suc n = unat v mod 256 ^ n" using w by (simp add: w_def)
    then show ?thesis using True Suc b by (simp del: power_Suc)
  next
    case False
    then have "0 < unat b" by (simp add: unat_gt_0)
    then have "w \<noteq> 0" using w by simp
    let ?bs = "(if b AND 0x80 \<noteq> 0 then [0] else []) @ b # be_bytes n (unat v)"
    have "be_nat (b # be_bytes n (unat v)) = w" by (simp add: be_nat_Cons be_nat_be_bytes w)
    then have "int_val ?bs = int w"
      using and_0x80_iff [of b] by (auto simp: int_val_def be_nat_Cons)
    moreover have "int_minimal ?bs"
    proof (cases "b AND 0x80 \<noteq> 0")
      case True
      then show ?thesis using and_0x80_iff [of b] by simp
    next
      case F: False
      then have "b \<noteq> 0xFF" using and_0x80_iff [of b] by auto
      then show ?thesis using F False by (cases "be_bytes n (unat v)") simp_all
    qed
    ultimately have "int_bytes (int w) = ?bs" using int_bytes_val [of ?bs] by simp
    then show ?thesis
      using False b \<open>w \<noteq> 0\<close> by (simp add: w_def [symmetric] uint64_emit_started Let_def del: power_Suc)
  qed
qed

lemma append_Nil_id: "abs_append [] st = st"
  by (induction "[] :: byte list" st rule: abs_append.induct) auto

lemma asn1_uint64_bytes_refines:
  assumes a: "alloc_ok alloc"
  shows "builder_rel cbb st \<Longrightarrow> length (snd st) = d \<Longrightarrow>
    refines alloc cbb (asn1_uint64_bytes alloc cbb d v started n) (Some (abs_append (uint64_emit v started n) st))"
proof (induction n arbitrary: cbb st started)
  case 0
  then show ?case by (simp add: refines_Ok append_Nil_id)
next
  case (Suc n)
  define b where "b = (ucast (drop_bit (8 * n) v AND 0xFF) :: byte)"
  define pad where "pad = (if \<not> started \<and> b AND 0x80 \<noteq> 0 then [0 :: byte] else [])"
  have u8: "refines alloc cbb' (CBB_add_u8 alloc cbb' d x) (Some (abs_append [x] s))"
    if "builder_rel cbb' s" and "length (snd s) = d" for cbb' s x
    using CBB_add_u8_refines [OF a that(1), of d x] that(2) by (simp add: abs_put_flushed)
  show ?case
  proof (cases "\<not> started \<and> b = 0")
    case True
    then show ?thesis using Suc.IH [OF Suc.prems] by (simp add: Let_def flip: b_def)
  next
    case False
    have p: "refines alloc cbb (if \<not> started \<and> b AND 0x80 \<noteq> 0 then CBB_add_u8 alloc cbb d 0 else Ok () cbb)
        (Some (abs_append pad st))"
      using u8 [OF Suc.prems] Suc.prems by (simp add: pad_def refines_Ok append_Nil_id)
    have rest: "refines alloc cbb1 (obind (CBB_add_u8 alloc cbb1 d b) (\<lambda>_ cbb2. asn1_uint64_bytes alloc cbb2 d v True n))
        (Some (abs_append ([b] @ uint64_emit v True n) s))"
      if "builder_rel cbb1 s" and "length (snd s) = d" for cbb1 s
      using u8 [OF that] that(2) by (intro refines_append_seq Suc.IH) (simp_all add: abs_append_length)
    have "refines alloc cbb
        (obind (if \<not> started \<and> b AND 0x80 \<noteq> 0 then CBB_add_u8 alloc cbb d 0 else Ok () cbb) (\<lambda>_ cbb1.
          obind (CBB_add_u8 alloc cbb1 d b) (\<lambda>_ cbb2. asn1_uint64_bytes alloc cbb2 d v True n)))
        (Some (abs_append (pad @ [b] @ uint64_emit v True n) st))"
      using rest Suc.prems(2) by (intro refines_append_seq [OF p]) (auto simp: abs_append_length)
    then show ?thesis
      using False unfolding asn1_uint64_bytes.simps uint64_emit.simps Let_def b_def [symmetric] pad_def [symmetric]
      by (simp only: if_False)
  qed
qed

lemma asn1_uint64_bytes_flag:
  "asn1_uint64_bytes alloc cbb d v started n = Ok s cbb' \<Longrightarrow> s = (started \<or> unat v mod 256 ^ n \<noteq> 0)"
proof (induction n arbitrary: cbb started)
  case (Suc n)
  define b where "b = (ucast (drop_bit (8 * n) v AND 0xFF) :: byte)"
  have ub: "unat b = unat v div 256 ^ n mod 256" unfolding b_def byte_at by (rule unat_of_nat_byte)
  have "b = 0 \<longleftrightarrow> unat v div 256 ^ n mod 256 = 0" using ub by (simp add: word_unat_eq_iff)
  then have "unat v mod 256 ^ Suc n = 0 \<longleftrightarrow> b = 0 \<and> unat v mod 256 ^ n = 0"
    using mod_256_split [of "unat v" n] by simp
  then show ?case
    using Suc by (cases "\<not> started \<and> b = 0") (auto simp: Let_def simp flip: b_def)
qed simp

lemma CBB_add_asn1_uint64_refines:
  assumes a: "alloc_ok alloc" and "builder_rel cbb st" and "d \<le> length (snd st)"
  shows "refines alloc cbb (CBB_add_asn1_uint64 alloc cbb d v)
    (abs_put d (der_element CBS_ASN1_INTEGER (int_bytes (uint v))) st)"
proof -
  let ?body = "\<lambda>cbb1. obind (asn1_uint64_bytes alloc cbb1 (Suc d) v False 8) (\<lambda>started cbb2.
     if \<not> started then CBB_add_u8 alloc cbb2 (Suc d) 0 else Ok () cbb2)"
  have m: "unat v mod 256 ^ 8 = unat v" using unat_lt_2p [of v] by simp
  have "refines alloc cbb1 (?body cbb1) (Some (abs_append (int_bytes (uint v)) s))"
    if r: "builder_rel cbb1 s" "length (snd s) = Suc d" for cbb1 s
  proof (cases "v = 0")
    case True
    have "int_bytes 0 = [0]" by (subst int_bytes.simps) simp
    moreover have "uint64_emit v False 8 = []" using True by (simp only: uint64_emit_fresh) simp
    moreover have "refines alloc cbb1 (?body cbb1) (Some (abs_append ([] @ [0]) s))"
    proof -
      have "refines alloc cbb1 (?body cbb1) (Option.bind (Some (abs_append [] s)) (\<lambda>s. Some (abs_append [0] s)))"
      proof (rule refines_bind)
        show "refines alloc cbb1 (asn1_uint64_bytes alloc cbb1 (Suc d) v False 8) (Some (abs_append [] s))"
          using asn1_uint64_bytes_refines [OF a r, of v False 8] calculation(2) by simp
        fix started cbb2 s'
        assume "asn1_uint64_bytes alloc cbb1 (Suc d) v False 8 = Ok started cbb2"
          and "Some (abs_append [] s) = Some s'" and "builder_rel cbb2 s'"
        then show "refines alloc cbb2 (if \<not> started then CBB_add_u8 alloc cbb2 (Suc d) 0 else Ok () cbb2)
            (Some (abs_append [0] s'))"
          using asn1_uint64_bytes_flag CBB_add_u8_refines [OF a, of cbb2 s' "Suc d" 0] r(2) True
          by (fastforce simp: append_Nil_id abs_put_flushed)
      qed (auto dest: abs_append_mono)
      then show ?thesis by (simp add: abs_append_append)
    qed
    ultimately show ?thesis using True by simp
  next
    case False
    then have nz: "unat v mod 256 ^ 8 \<noteq> 0" using m by (simp add: unat_eq_zero)
    then have e: "uint64_emit v False 8 = int_bytes (uint v)" using m by (simp add: uint64_emit_fresh)
    have "refines alloc cbb1 (?body cbb1) (Option.bind (Some (abs_append (int_bytes (uint v)) s)) Some)"
    proof (rule refines_bind)
      show "refines alloc cbb1 (asn1_uint64_bytes alloc cbb1 (Suc d) v False 8) (Some (abs_append (int_bytes (uint v)) s))"
        using asn1_uint64_bytes_refines [OF a r, of v False 8] e by simp
      fix started cbb2 s'
      assume "asn1_uint64_bytes alloc cbb1 (Suc d) v False 8 = Ok started cbb2" and "builder_rel cbb2 s'"
      then show "refines alloc cbb2 (if \<not> started then CBB_add_u8 alloc cbb2 (Suc d) 0 else Ok () cbb2) (Some s')"
        using asn1_uint64_bytes_flag nz by (fastforce intro: refines_Ok)
    qed simp
    then show ?thesis by simp
  qed
  moreover have "length (int_bytes (uint v)) \<le> 0xFFFFFFFE"
  proof -
    have "0 \<le> uint v" "uint v < 2 ^ 64" using uint_bounded [of v] by simp_all
    then have "length (int_bytes (uint v)) \<le> Suc 8" by (intro int_bytes_length) (simp_all add: order_trans [of _ 0])
    then show ?thesis by simp
  qed
  moreover have "CBB_add_asn1_uint64 alloc cbb d v =
      obind (CBB_add_asn1 alloc cbb d CBS_ASN1_INTEGER) (\<lambda>_ cbb1. obind (?body cbb1) (\<lambda>_ cbb2. CBB_flush alloc cbb2 d))"
    by (simp add: CBB_add_asn1_uint64_def obind_assoc)
  ultimately show ?thesis using asn1_element_refines [OF a assms(2,3), of "int_bytes (uint v)" ?body] by simp
qed

section \<open>Signed integers\<close>

lemma int_val_drop_sign:
  assumes "128 \<le> unat b"
  shows "int_val (0xFF # b # cs) = int_val (b # cs)"
proof -
  have "int (be_nat (0xFF # b # cs)) = 255 * 256 ^ length (b # cs) + int (be_nat (b # cs))"
    by (simp add: be_nat_Cons [of "0xFF"])
  then show ?thesis using assms by (simp add: int_val_def)
qed

text \<open>\<open>int64_start\<close> drops sign bytes without changing the value, and stops at the minimal form.\<close>

lemma int64_start_le: "int64_start u n \<le> n"
  by (induction n) (auto intro: le_SucI)

lemma rev_take_Suc: "n < length u \<Longrightarrow> rev (take (Suc n) u) = u ! n # rev (take n u)"
  by (simp add: take_Suc_conv_app_nth)

lemma int64_start_spec:
  "n < length u \<Longrightarrow> 128 \<le> unat (u ! n) \<Longrightarrow>
   int_val (rev (take (Suc (int64_start u n)) u)) = int_val (rev (take (Suc n) u)) \<and>
   int_minimal (rev (take (Suc (int64_start u n)) u))"
proof (induction n)
  case 0
  then have "take (Suc 0) u = [u ! 0]" by (cases u) auto
  then show ?case by simp
next
  case (Suc n)
  show ?case
  proof (cases "u ! Suc n = 0xFF \<and> u ! n AND 0x80 \<noteq> 0")
    case True
    then have hi: "128 \<le> unat (u ! n)" using and_0x80_iff [of "u ! n"] by simp
    have "rev (take (Suc (Suc n)) u) = 0xFF # u ! n # rev (take n u)"
      using Suc.prems(1) True by (simp add: rev_take_Suc del: take_Suc)
    moreover have "rev (take (Suc n) u) = u ! n # rev (take n u)" using Suc.prems(1) by (simp add: rev_take_Suc)
    ultimately have "int_val (rev (take (Suc (Suc n)) u)) = int_val (rev (take (Suc n) u))"
      using int_val_drop_sign [OF hi] by simp
    then show ?thesis using Suc.IH hi Suc.prems(1) True by simp
  next
    case False
    have "rev (take (Suc (Suc n)) u) = u ! Suc n # u ! n # rev (take n u)"
      using Suc.prems(1) by (simp add: rev_take_Suc del: take_Suc)
    moreover have "u ! Suc n \<noteq> 0" using Suc.prems(2) by auto
    ultimately have "int_minimal (rev (take (Suc (Suc n)) u))" using False and_0x80_iff [of "u ! n"] by auto
    moreover have "int64_start u (Suc n) = Suc n" using False by auto
    ultimately show ?thesis by simp
  qed
qed

lemma add_bytes_down_refines:
  assumes a: "alloc_ok alloc"
  shows "builder_rel cbb st \<Longrightarrow> length (snd st) = d \<Longrightarrow> n \<le> length u \<Longrightarrow>
    refines alloc cbb (add_bytes_down alloc cbb d u n) (Some (abs_append (rev (take n u)) st))"
proof (induction n arbitrary: cbb st)
  case 0
  then show ?case by (simp add: refines_Ok append_Nil_id)
next
  case (Suc n)
  have "refines alloc cbb (CBB_add_u8 alloc cbb d (u ! n)) (Some (abs_append [u ! n] st))"
    using CBB_add_u8_refines [OF a Suc.prems(1), of d "u ! n"] Suc.prems(2) by (simp add: abs_put_flushed)
  then have "refines alloc cbb (obind (CBB_add_u8 alloc cbb d (u ! n)) (\<lambda>_ cbb1. add_bytes_down alloc cbb1 d u n))
      (Some (abs_append ([u ! n] @ rev (take n u)) st))"
    using Suc.prems by (intro refines_append_seq Suc.IH) (simp_all add: abs_append_length)
  then show ?case using Suc.prems(3) by (simp add: rev_take_Suc)
qed

lemma negative_word:
  assumes "\<not> 0 \<le>s (v :: u64)"
  shows "sint v = uint v - 2 ^ 64" and "2 ^ 63 \<le> unat v"
proof -
  have neg: "sint v < 0" using assms by (simp add: word_sle_eq)
  have lo: "- (2 ^ 63) \<le> sint v" using sint_ge [of v] by simp
  have "uint v = sint v mod 2 ^ 64" by (subst uint_sint) (simp add: take_bit_eq_mod)
  also have "\<dots> = sint v + 2 ^ 64" using neg lo mod_pos_pos_trivial [of "sint v + 2 ^ 64" "2 ^ 64"] by simp
  finally show s: "sint v = uint v - 2 ^ 64" by simp
  then have "int (2 ^ 63) \<le> int (unat v)" using lo by simp
  then show "2 ^ 63 \<le> unat v" by (simp only: of_nat_le_iff)
qed

lemma CBB_add_asn1_int64_refines:
  assumes a: "alloc_ok alloc" and "builder_rel cbb st" and "d \<le> length (snd st)"
  shows "refines alloc cbb (CBB_add_asn1_int64 alloc cbb d v)
    (abs_put d (der_element CBS_ASN1_INTEGER (int_bytes (sint v))) st)"
proof (cases "0 \<le>s v")
  case True
  then have "sint v \<ge> 0" by (simp add: word_sle_eq)
  moreover have "sint v < 2 ^ 63" using sint_less [of v] by simp
  moreover have "uint v = sint v mod 2 ^ 64" by (subst uint_sint) (simp add: take_bit_eq_mod)
  ultimately have "uint v = sint v" by simp
  then show ?thesis
    using CBB_add_asn1_uint64_refines [OF assms, of v] True by (simp add: CBB_add_asn1_int64_def)
next
  case False
  let ?u = "le_bytes 8 (unat v)" and ?s = "int64_start (le_bytes 8 (unat v)) 7"
  note neg = negative_word [OF False]
  have rev_u: "rev ?u = be_bytes 8 (unat v)" by (simp add: be_bytes_def)
  have bn: "be_nat (rev ?u) = unat v" using unat_lt_2p [of v] by (simp add: rev_u be_nat_be_bytes)
  have top: "128 \<le> unat (?u ! 7)"
  proof -
    have e: "rev ?u = ?u ! 7 # rev (take 7 ?u)" using rev_take_Suc [of 7 ?u] by simp
    have "unat v = unat (?u ! 7) * 256 ^ length (rev (take 7 ?u)) + be_nat (rev (take 7 ?u))"
      using bn by (simp only: e be_nat_Cons)
    then have "unat v = unat (?u ! 7) * 256 ^ 7 + be_nat (rev (take 7 ?u))" by simp
    moreover have "be_nat (rev (take 7 ?u)) < 256 ^ 7" using be_nat_bound [of "rev (take 7 ?u)"] by simp
    ultimately show ?thesis using neg(2) by simp
  qed
  have "int_val (rev ?u) = sint v"
  proof -
    have "hd (rev ?u) = ?u ! 7" by (simp add: hd_rev last_conv_nth flip: length_0_conv)
    moreover have "?u \<noteq> []" by (simp flip: length_0_conv)
    ultimately show ?thesis using bn top neg(1) by (simp add: int_val_def)
  qed
  then have "int_bytes (sint v) = rev (take (Suc ?s) ?u)"
    using int64_start_spec [of 7 ?u] top int_bytes_val by fastforce
  then have "refines alloc cbb1 (add_bytes_down alloc cbb1 (Suc d) ?u (Suc ?s)) (Some (abs_append (int_bytes (sint v)) s))"
    if "builder_rel cbb1 s" "length (snd s) = Suc d" for cbb1 s
    using add_bytes_down_refines [OF a that, of "Suc ?s" ?u] int64_start_le [of ?u 7] by simp
  moreover have "length (int_bytes (sint v)) \<le> 0xFFFFFFFE"
    using \<open>int_bytes (sint v) = rev (take (Suc ?s) ?u)\<close> int64_start_le [of ?u 7] by simp
  ultimately show ?thesis
    using False asn1_element_refines [OF assms, of "int_bytes (sint v)" "\<lambda>c. add_bytes_down alloc c (Suc d) ?u (Suc ?s)"]
    by (simp add: CBB_add_asn1_int64_def Let_def)
qed

end
