(* ===== verification/CbbOps.thy ===== *)
theory CbbOps
  imports CbbInt
begin

text \<open>
  The remaining operations of the builder against the abstract builder: integers of every width and byte order, zeros, space that
  the caller fills, the three length prefixes, and the discarding of a child.
\<close>

unbundle bit_operations_syntax

section \<open>Integers\<close>

lemma cbb_add_u_fits:
  assumes "alloc_ok alloc" and "builder_rel cbb st" and "d \<le> length (snd st)" and "0 < unat n" and "unat v < 256 ^ unat n"
  shows "refines alloc cbb (cbb_add_u alloc cbb d v n) (abs_put d (be_bytes (unat n) (unat v)) st)"
  using cbb_add_u_refines [OF assms(1-4), of v] assms(5) by simp

lemma CBB_add_u_refines:
  assumes "alloc_ok alloc" and "builder_rel cbb st" and "d \<le> length (snd st)"
  shows "refines alloc cbb (CBB_add_u16 alloc cbb d v2) (abs_put d (be_bytes 2 (unat v2)) st)"
    and "refines alloc cbb (CBB_add_u24 alloc cbb d v4) (if unat v4 < 2 ^ 24 then abs_put d (be_bytes 3 (unat v4)) st else None)"
    and "refines alloc cbb (CBB_add_u32 alloc cbb d v4) (abs_put d (be_bytes 4 (unat v4)) st)"
    and "refines alloc cbb (CBB_add_u64 alloc cbb d v8) (abs_put d (be_bytes 8 (unat v8)) st)"
proof -
  have u: "unat (ucast v2 :: u64) = unat v2" "unat (ucast v4 :: u64) = unat v4"
    using unat_lt_2p [of v2] unat_lt_2p [of v4] by (simp only: ucast_eq_of_nat, intro unat_of_nat_less, simp)+
  show "refines alloc cbb (CBB_add_u16 alloc cbb d v2) (abs_put d (be_bytes 2 (unat v2)) st)"
    using cbb_add_u_fits [OF assms, of 2 "ucast v2"] unat_lt_2p [of v2] unfolding CBB_add_u16_def u by simp
  show "refines alloc cbb (CBB_add_u24 alloc cbb d v4) (if unat v4 < 2 ^ 24 then abs_put d (be_bytes 3 (unat v4)) st else None)"
    using cbb_add_u_refines [OF assms, of 3 "ucast v4"] unfolding CBB_add_u24_def u by (simp split: if_splits)
  show "refines alloc cbb (CBB_add_u32 alloc cbb d v4) (abs_put d (be_bytes 4 (unat v4)) st)"
    using cbb_add_u_fits [OF assms, of 4 "ucast v4"] unat_lt_2p [of v4] unfolding CBB_add_u32_def u by simp
  show "refines alloc cbb (CBB_add_u64 alloc cbb d v8) (abs_put d (be_bytes 8 (unat v8)) st)"
    using cbb_add_u_fits [OF assms, of 8 v8] unat_lt_2p [of v8] unfolding CBB_add_u64_def by simp
qed

lemma swapped_bytes:
  assumes "8 * k = LENGTH('a)"
  shows "be_bytes k (unat (of_nat (be_nat (le_bytes k (unat v))) :: 'a::len word)) = le_bytes k (unat v)"
proof -
  have "be_nat (le_bytes k (unat v)) < 256 ^ k" using be_nat_bound [of "le_bytes k (unat v)"] by simp
  also have "(256 :: nat) ^ k = 2 ^ LENGTH('a)" unfolding assms [symmetric] by (simp add: power_mult)
  finally have "unat (of_nat (be_nat (le_bytes k (unat v))) :: 'a word) = be_nat (le_bytes k (unat v))" by (rule unat_of_nat_less)
  then show ?thesis using be_bytes_be_nat [of "le_bytes k (unat v)"] by simp
qed

lemma CBB_add_ule_refines:
  assumes "alloc_ok alloc" and "builder_rel cbb st" and "d \<le> length (snd st)"
  shows "refines alloc cbb (CBB_add_u16le alloc cbb d v2) (abs_put d (le_bytes 2 (unat v2)) st)"
    and "refines alloc cbb (CBB_add_u32le alloc cbb d v4) (abs_put d (le_bytes 4 (unat v4)) st)"
    and "refines alloc cbb (CBB_add_u64le alloc cbb d v8) (abs_put d (le_bytes 8 (unat v8)) st)"
proof -
  show "refines alloc cbb (CBB_add_u16le alloc cbb d v2) (abs_put d (le_bytes 2 (unat v2)) st)"
    using CBB_add_u_refines(1) [OF assms, of "CRYPTO_bswap2 v2"] swapped_bytes [where 'a = 16, of 2 v2]
    by (simp add: CBB_add_u16le_def CRYPTO_bswap2_def)
  show "refines alloc cbb (CBB_add_u32le alloc cbb d v4) (abs_put d (le_bytes 4 (unat v4)) st)"
    using CBB_add_u_refines(3) [OF assms, of "CRYPTO_bswap4 v4"] swapped_bytes [where 'a = 32, of 4 v4]
    by (simp add: CBB_add_u32le_def CRYPTO_bswap4_def)
  show "refines alloc cbb (CBB_add_u64le alloc cbb d v8) (abs_put d (le_bytes 8 (unat v8)) st)"
    using CBB_add_u_refines(4) [OF assms, of "CRYPTO_bswap8 v8"] swapped_bytes [where 'a = 64, of 8 v8]
    by (simp add: CBB_add_u64le_def CRYPTO_bswap8_def)
qed

section \<open>Length prefixes\<close>

lemma length_prefixes_refine:
  assumes "alloc_ok alloc" and "builder_rel cbb st" and "d \<le> length (snd st)"
  shows "refines alloc cbb (CBB_add_u8_length_prefixed alloc cbb d) (abs_child d [] (Len_prefix 1) st)"
    and "refines alloc cbb (CBB_add_u16_length_prefixed alloc cbb d) (abs_child d [] (Len_prefix 2) st)"
    and "refines alloc cbb (CBB_add_u24_length_prefixed alloc cbb d) (abs_child d [] (Len_prefix 3) st)"
  using add_length_prefixed_refines [OF assms, of 1] add_length_prefixed_refines [OF assms, of 2]
    add_length_prefixed_refines [OF assms, of 3]
  by (simp_all add: CBB_add_u8_length_prefixed_def CBB_add_u16_length_prefixed_def CBB_add_u24_length_prefixed_def)

section \<open>Space\<close>

text \<open>Space that is not written yet holds some bytes of the requested number.\<close>

lemma append_space:
  assumes "alloc_ok alloc" and "buf_ok b"
  shows "\<exists>bs. length bs = unat n \<and> appends alloc b (cbb_buffer_add alloc b n) bs"
proof (cases rule: add_cases [OF assms, of n])
  case (1 b' junk)
  then show ?thesis by (intro exI [of _ junk]) (simp add: appends_def)
next
  case 2
  then show ?thesis using assms(2) by (intro exI [of _ "replicate (unat n) 0"]) (simp add: appends_def)
qed

lemma CBB_add_space_refines:
  assumes "alloc_ok alloc" and "builder_rel cbb st" and "d \<le> length (snd st)"
  shows "\<exists>bs. length bs = unat n \<and> refines alloc cbb (CBB_add_space alloc cbb d n) (abs_put d bs st)"
proof (cases "CBB_flush alloc cbb d")
  case (Ok u cbb1)
  then obtain st1 where st1: "abs_flush d st = Some st1" "builder_rel cbb1 st1"
    using CBB_flush_refines [OF assms] by (auto simp: refines_def)
  obtain b where b: "base cbb1 = Some b" "buf_ok b" using st1(2) by (auto simp: builder_rel_def)
  obtain bs where bs: "length bs = unat n" "appends alloc b (cbb_buffer_add alloc b n) bs" using append_space [OF assms(1) b(2)] by blast
  have on: "refines alloc cbb1 (on_base cbb1 (\<lambda>b. cbb_buffer_add alloc b n)) (Some (abs_append bs st1))"
    using on_base_appends [OF st1(2), of alloc "\<lambda>b. cbb_buffer_add alloc b n" bs] bs(2) b by simp
  have "refines alloc cbb (CBB_add_space alloc cbb d n) (Option.bind (abs_flush d st) (\<lambda>s. Some (abs_append bs s)))"
    unfolding CBB_add_space_def
    by (rule refines_bind [OF CBB_flush_refines [OF assms]]) (use on Ok st1 in \<open>auto dest: abs_append_mono\<close>)
  then show ?thesis using bs(1) unfolding abs_put_bind by blast
next
  case (Fail cbb1)
  have "refines alloc cbb (CBB_add_space alloc cbb d n)
      (Option.bind (abs_flush d st) (\<lambda>s. Some (abs_append (replicate (unat n) 0) s)))"
    unfolding CBB_add_space_def
    by (rule refines_bind [OF CBB_flush_refines [OF assms]]) (use Fail in \<open>auto dest: abs_append_mono\<close>)
  then show ?thesis unfolding abs_put_bind by (intro exI [of _ "replicate (unat n) 0"]) simp
qed (use CBB_flush_refines [OF assms] in \<open>simp add: refines_def\<close>)

lemma CBB_add_zeros_refines:
  assumes "alloc_ok alloc" and "builder_rel cbb st" and "d \<le> length (snd st)"
  shows "refines alloc cbb (CBB_add_zeros alloc cbb d n) (abs_put d (replicate (unat n) 0) st)"
proof -
  let ?f = "\<lambda>b. obind (cbb_buffer_add alloc b n) (\<lambda>p b1.
      (case mem_write (buf b1) p (replicate (unat n) 0) of None \<Rightarrow> Fault | Some m \<Rightarrow> Ok () (b1\<lparr>buf := m\<rparr>)))"
  have "obind (on_base cbb1 (\<lambda>b. cbb_buffer_add alloc b n)) (\<lambda>p cbb2. on_base cbb2 (\<lambda>b.
         (case mem_write (buf b) p (replicate (unat n) 0) of None \<Rightarrow> Fault | Some m \<Rightarrow> Ok () (b\<lparr>buf := m\<rparr>)))) = on_base cbb1 ?f" for cbb1
  proof (cases "base cbb1")
    case (Some b)
    show ?thesis
    proof (cases "cbb_buffer_add alloc b n")
      case (Ok p b1)
      then show ?thesis using Some by (cases "mem_write (buf b1) p (replicate (unat n) 0)") (simp_all add: on_base_def)
    qed (use Some in \<open>simp_all add: on_base_def\<close>)
  qed (simp add: on_base_def)
  then have "CBB_add_zeros alloc cbb d n = obind (CBB_flush alloc cbb d) (\<lambda>_ cbb1. on_base cbb1 ?f)"
    by (simp add: CBB_add_zeros_def CBB_add_space_def obind_assoc)
  moreover have "refines alloc cbb (obind (CBB_flush alloc cbb d) (\<lambda>_ cbb1. on_base cbb1 ?f)) (abs_put d (replicate (unat n) 0) st)"
    unfolding abs_put_bind [symmetric] using assms
    by (intro refines_flush_bind on_base_appends append_write) (auto dest: abs_append_mono)
  ultimately show ?thesis by simp
qed

text \<open>The capacity of the buffer.\<close>

definition cbb_cap :: "CBB \<Rightarrow> nat" where
  "cbb_cap cbb = (case base cbb of None \<Rightarrow> 0 | Some b \<Rightarrow> unat (cap b))"

text \<open>\<open>CBB_reserve\<close> flushes and makes room for \<open>n\<close> more bytes.\<close>

lemma CBB_reserve_spec:
  assumes "alloc_ok alloc" and "builder_rel cbb st" and "d \<le> length (snd st)"
  shows "case CBB_reserve alloc cbb d n of
      Fault \<Rightarrow> False
    | Fail cbb' \<Rightarrow> dead cbb' \<and> (\<forall>st'. abs_flush d st = Some st' \<longrightarrow> \<not> cbb_room alloc cbb (abs_size st' + unat n))
    | Ok p cbb' \<Rightarrow> \<exists>st'. abs_flush d st = Some st' \<and> builder_rel cbb' st' \<and> p = abs_size st' \<and> p + unat n \<le> cbb_cap cbb'"
proof (cases "CBB_flush alloc cbb d")
  case (Fail cbb1)
  then have "dead cbb1" "\<And>st'. abs_flush d st = Some st' \<Longrightarrow> \<not> cbb_room alloc cbb (abs_size st')"
    using CBB_flush_refines [OF assms] by (simp_all add: refines_def)
  then show ?thesis using Fail room_mono by (auto simp: CBB_reserve_def cbb_room_def)
next
  case (Ok u cbb1)
  then obtain st1 where st1: "abs_flush d st = Some st1" "builder_rel cbb1 st1" and room: "\<And>n. cbb_room alloc cbb n \<Longrightarrow> cbb_room alloc cbb1 n"
    using CBB_flush_refines [OF assms] by (auto simp: refines_def)
  obtain b root fs where b: "base cbb1 = Some b" "buf_ok b" "chain cbb1 = root # fs"
    "offset root = 0" "pending_len_len root = 0" "\<not> is_child root" and lay: "layout (bytes_of b) 0 (fst st1) fs (snd st1)"
    using st1(2) by (auto simp: builder_rel_def)
  have size: "unat (buf_len b) = abs_size st1" using layout_size [OF lay] b(2) by simp
  show ?thesis
  proof (cases rule: reserve_cases [OF assms(1) b(2), of n])
    case (1 b')
    then have "builder_rel (cbb1\<lparr>base := Some b'\<rparr>) st1" using b(3-6) lay evolves_ok [OF 1(2)] by (simp add: builder_rel_def)
    then show ?thesis using Ok 1 st1(1) b(1) size by (simp add: CBB_reserve_def on_base_def cbb_cap_def)
  next
    case 2
    then have "\<not> cbb_room alloc cbb (abs_size st1 + unat n)" using room b(1) size by (auto simp: cbb_room_def)
    then show ?thesis using Ok 2 st1(1) b(1) by (simp add: CBB_reserve_def on_base_def dead_def)
  qed
qed (use CBB_flush_refines [OF assms] in \<open>simp add: refines_def\<close>)

text \<open>\<open>CBB_did_write\<close> appends the bytes that the caller has put behind the contents; it refuses when a child is open or the
  capacity is exceeded, and changes nothing then.\<close>

lemma CBB_did_write_spec:
  assumes "builder_rel cbb st" and "d \<le> length (snd st)"
  shows "if d < length (snd st) \<or> cbb_cap cbb < abs_size st + unat n then CBB_did_write cbb d n = Fail cbb
    else \<exists>cbb' bs. CBB_did_write cbb d n = Ok () cbb' \<and> length bs = unat n \<and> builder_rel cbb' (abs_append bs st)"
proof -
  obtain b root fs where b: "base cbb = Some b" "buf_ok b" "chain cbb = root # fs"
    "offset root = 0" "pending_len_len root = 0" "\<not> is_child root" and lay: "layout (bytes_of b) 0 (fst st) fs (snd st)"
    using assms(1) by (auto simp: builder_rel_def)
  have size: "unat (buf_len b) = abs_size st" using layout_size [OF lay] b(2) by simp
  have len: "length fs = length (snd st)" using layout_length [OF lay] .
  have le: "buf_len b \<le> cap b" using b(2) by (simp add: buf_ok_def word_le_nat_alt)
  have over: "buf_len b + n < buf_len b \<or> cap b < buf_len b + n \<longleftrightarrow> unat (cap b) < unat (buf_len b) + unat n"
  proof (cases "unat (buf_len b) + unat n < 2 ^ 64")
    case True
    then have "unat (buf_len b + n) = unat (buf_len b) + unat n" by (intro unat_add_no_overflow) simp
    then show ?thesis by (simp add: word_less_nat_alt)
  next
    case False
    then have "unat (buf_len b + n) = unat (buf_len b) + unat n - 2 ^ 64"
      using unat_lt_2p [of "buf_len b"] unat_lt_2p [of n] by (simp add: unat_word_ariths le_mod_geq)
    moreover have "unat n < 2 ^ 64" "unat (cap b) < 2 ^ 64" using unat_lt_2p [of n] unat_lt_2p [of "cap b"] by simp_all
    ultimately have "unat (buf_len b + n) < unat (buf_len b)" "unat (cap b) < unat (buf_len b) + unat n" using False by linarith+
    then show ?thesis by (simp add: word_less_nat_alt)
  qed
  show ?thesis
  proof (cases "d < length (snd st) \<or> cbb_cap cbb < abs_size st + unat n")
    case True
    then show ?thesis using b(1,3) len over size by (auto simp: CBB_did_write_def cbb_cap_def Let_def)
  next
    case False
    let ?b = "b\<lparr>buf_len := buf_len b + n\<rparr>" and ?bs = "take (unat n) (drop (unat (buf_len b)) (buf b))"
    have fits: "unat (buf_len b) + unat n \<le> unat (cap b)" using False b(1) size by (simp add: cbb_cap_def)
    then have nl: "unat (buf_len b + n) = unat (buf_len b) + unat n" using unat_lt_2p [of "cap b"] by (intro unat_add_no_overflow) simp
    have "buf_ok ?b" using b(2) fits nl by (simp add: buf_ok_def)
    moreover have "bytes_of ?b = bytes_of b @ ?bs" using nl by (simp add: bytes_of_def take_add)
    moreover have "length ?bs = unat n" using b(2) fits by (auto simp: buf_ok_def)
    ultimately have "builder_rel (cbb\<lparr>base := Some ?b\<rparr>) (abs_append ?bs st)"
      using b(3-6) layout_append [OF lay, of ?bs] by (simp add: builder_rel_def)
    moreover have "CBB_did_write cbb d n = Ok () (cbb\<lparr>base := Some ?b\<rparr>)"
      using False b(1,3) len over fits by (simp add: CBB_did_write_def Let_def)
    ultimately have "\<exists>cbb' bs. CBB_did_write cbb d n = Ok () cbb' \<and> length bs = unat n \<and> builder_rel cbb' (abs_append bs st)"
      using \<open>length ?bs = unat n\<close> by blast
    then show ?thesis using False by simp
  qed
qed

section \<open>Discarding a child\<close>

definition abs_discard :: "nat \<Rightarrow> builder \<Rightarrow> builder" where
  "abs_discard d st = (fst st, take d (snd st))"

lemma layout_take:
  "layout bs p c fs segs \<Longrightarrow> d < length fs \<Longrightarrow>
   p \<le> unat (offset (fs ! d)) \<and> unat (offset (fs ! d)) - p \<le> length bs \<and>
   layout (take (unat (offset (fs ! d)) - p) bs) p c (take d fs) (take d segs)"
proof (induction bs p c fs segs arbitrary: d rule: layout.induct)
  case (2 bs p c f fs k c' segs)
  then obtain ph bs' where f: "frame_kind f k" "unat (offset f) = p + length c" "bs = c @ ph @ bs'"
    "length ph = prefix_space k" and lay: "layout bs' (p + length c + prefix_space k) c' fs segs" by auto
  show ?case
  proof (cases d)
    case 0
    then show ?thesis using f by simp
  next
    case (Suc e)
    let ?r = "take (unat (offset (fs ! e)) - (p + length c + prefix_space k)) bs'"
    have ex: "\<exists>ph' bs''. ph @ ?r = ph' @ bs'' \<and> length ph' = prefix_space k \<and>
        layout bs'' (p + length c + prefix_space k) c' (take e fs) (take e segs)"
      using 2(1) [OF lay, of e] 2(3) f(4) Suc by (intro exI [of _ ph] exI [of _ ?r]) simp
    have tk: "take (unat (offset (fs ! e)) - p) bs = c @ ph @ ?r" using 2(1) [OF lay, of e] 2(3) f Suc by auto
    have "layout (take (unat (offset (fs ! e)) - p) bs) p c (f # take e fs) ((k, c') # take e segs)"
      unfolding tk layout.simps using f(1,2) ex by simp
    moreover have "p \<le> unat (offset (fs ! e))" "unat (offset (fs ! e)) - p \<le> length bs"
      using 2(1) [OF lay, of e] 2(3) f(3,4) Suc by auto
    ultimately show ?thesis using Suc by simp
  qed
qed auto

lemma CBB_discard_child_spec:
  assumes "builder_rel cbb st" and "d \<le> length (snd st)"
  shows "\<exists>cbb'. CBB_discard_child cbb d = Ok () cbb' \<and> builder_rel cbb' (abs_discard d st)"
proof -
  obtain b root fs where b: "base cbb = Some b" "buf_ok b" "chain cbb = root # fs"
    "offset root = 0" "pending_len_len root = 0" "\<not> is_child root" and lay: "layout (bytes_of b) 0 (fst st) fs (snd st)"
    using assms(1) by (auto simp: builder_rel_def)
  have len: "length fs = length (snd st)" using layout_length [OF lay] .
  show ?thesis
  proof (cases "d < length fs")
    case False
    then have "abs_discard d st = st" using len assms(2) by (simp add: abs_discard_def)
    then show ?thesis using False b(3) assms(1) by (simp add: CBB_discard_child_def)
  next
    case True
    let ?b = "b\<lparr>buf_len := offset (fs ! d)\<rparr>"
    note l = layout_take [OF lay True]
    have le: "unat (offset (fs ! d)) \<le> unat (buf_len b)" using l b(2) by simp
    then have "buf_ok ?b" using b(2) by (simp add: buf_ok_def)
    moreover have "bytes_of ?b = take (unat (offset (fs ! d))) (bytes_of b)" using le by (simp add: bytes_of_def min_def)
    ultimately have "builder_rel (cbb\<lparr>base := Some ?b, chain := root # take d fs\<rparr>) (abs_discard d st)"
      using b(3-6) l by (simp add: builder_rel_def abs_discard_def)
    then show ?thesis using True b(1,3) by (simp add: CBB_discard_child_def)
  qed
qed

end
