(* ===== verification/CbsUnicode.thy ===== *)
theory CbsUnicode
  imports CbsParse CbbRefine
begin

text \<open>
  The Unicode readers and writers of \<^verbatim>\<open>crypto/bytestring/unicode.c\<close>, and their correctness: \<open>cbs_get_utf8\<close> accepts
  exactly the shortest UTF-8 forms of valid code points, and \<open>cbb_add_utf8\<close> writes them.
\<close>

unbundle bit_operations_syntax

definition is_valid_code_point :: "u32 \<Rightarrow> bool" where
  "is_valid_code_point v \<longleftrightarrow>
     \<not> (v > 0x10FFFF \<or> v AND 0xFFFE = 0xFFFE \<or> (v \<ge> 0xFDD0 \<and> v \<le> 0xFDEF) \<or> (v \<ge> 0xD800 \<and> v \<le> 0xDFFF))"

text \<open>\<open>BOTTOM_BITS(n)\<close> and \<open>TOP_BITS(n)\<close> as macros of a literal \<open>n\<close>.\<close>

definition BOTTOM_BITS :: "nat \<Rightarrow> byte" where
  "BOTTOM_BITS n = push_bit n 1 - 1"

definition TOP_BITS :: "nat \<Rightarrow> byte" where
  "TOP_BITS n = NOT (BOTTOM_BITS (8 - n))"

fun utf8_continuation :: "CBS \<Rightarrow> u32 \<Rightarrow> nat \<Rightarrow> (u32, CBS) outcome" where
  "utf8_continuation cbs v 0 = Ok v cbs"
| "utf8_continuation cbs v (Suc n) =
     obind (CBS_get_u8 cbs) (\<lambda>c cbs'.
       if c AND TOP_BITS 2 \<noteq> TOP_BITS 1 then Fail cbs'
       else utf8_continuation cbs' (push_bit 6 v OR ucast (c AND BOTTOM_BITS 6)) n)"

definition cbs_get_utf8 :: "CBS \<Rightarrow> (u32, CBS) outcome" where
  "cbs_get_utf8 cbs =
     obind (CBS_get_u8 cbs) (\<lambda>c cbs1.
       if c \<le> 0x7F then Ok (ucast c) cbs1
       else (case (if c AND TOP_BITS 3 = TOP_BITS 2 then Some (ucast (c AND BOTTOM_BITS 5), 1, 0x80)
                   else if c AND TOP_BITS 4 = TOP_BITS 3 then Some (ucast (c AND BOTTOM_BITS 4), 2, 0x800)
                   else if c AND TOP_BITS 5 = TOP_BITS 4 then Some (ucast (c AND BOTTOM_BITS 3), 3, 0x10000)
                   else None) of
               None \<Rightarrow> Fail cbs1
             | Some (v, len, lower_bound) \<Rightarrow>
                 obind (utf8_continuation cbs1 v len) (\<lambda>v' cbs2.
                   if \<not> is_valid_code_point v' \<or> v' < lower_bound then Fail cbs2 else Ok v' cbs2)))"

definition cbs_get_latin1 :: "CBS \<Rightarrow> (u32, CBS) outcome" where
  "cbs_get_latin1 cbs = obind (CBS_get_u8 cbs) (\<lambda>c cbs'. Ok (ucast c) cbs')"

definition cbs_get_ucs2_be :: "CBS \<Rightarrow> (u32, CBS) outcome" where
  "cbs_get_ucs2_be cbs =
     obind (CBS_get_u16 cbs) (\<lambda>c cbs'. if is_valid_code_point (ucast c) then Ok (ucast c) cbs' else Fail cbs')"

definition cbs_get_utf32_be :: "CBS \<Rightarrow> (u32, CBS) outcome" where
  "cbs_get_utf32_be cbs =
     obind (CBS_get_u32 cbs) (\<lambda>c cbs'. if is_valid_code_point c then Ok c cbs' else Fail cbs')"

definition cbb_get_utf8_len :: "u32 \<Rightarrow> size_t" where
  "cbb_get_utf8_len u = (if u \<le> 0x7F then 1 else if u \<le> 0x7FF then 2 else if u \<le> 0xFFFF then 3 else 4)"

text \<open>\<open>CBB_add_u8(...) && CBB_add_u8(...) && \<dots>\<close>\<close>

fun add_u8s :: "allocator \<Rightarrow> CBB \<Rightarrow> nat \<Rightarrow> byte list \<Rightarrow> (unit, CBB) outcome" where
  "add_u8s alloc cbb d [] = Ok () cbb"
| "add_u8s alloc cbb d (b # bs) = obind (CBB_add_u8 alloc cbb d b) (\<lambda>_ cbb'. add_u8s alloc cbb' d bs)"

definition cbb_add_utf8 :: "allocator \<Rightarrow> CBB \<Rightarrow> nat \<Rightarrow> u32 \<Rightarrow> (unit, CBB) outcome" where
  "cbb_add_utf8 alloc cbb d u =
     (if \<not> is_valid_code_point u then Fail cbb
      else if u \<le> 0x7F then CBB_add_u8 alloc cbb d (ucast u)
      else if u \<le> 0x7FF then
        add_u8s alloc cbb d
          [ucast (ucast (TOP_BITS 2) OR drop_bit 6 u), ucast (ucast (TOP_BITS 1) OR (u AND ucast (BOTTOM_BITS 6)))]
      else if u \<le> 0xFFFF then
        add_u8s alloc cbb d
          [ucast (ucast (TOP_BITS 3) OR drop_bit 12 u),
           ucast (ucast (TOP_BITS 1) OR (drop_bit 6 u AND ucast (BOTTOM_BITS 6))),
           ucast (ucast (TOP_BITS 1) OR (u AND ucast (BOTTOM_BITS 6)))]
      else if u \<le> 0x10FFFF then
        add_u8s alloc cbb d
          [ucast (ucast (TOP_BITS 4) OR drop_bit 18 u),
           ucast (ucast (TOP_BITS 1) OR (drop_bit 12 u AND ucast (BOTTOM_BITS 6))),
           ucast (ucast (TOP_BITS 1) OR (drop_bit 6 u AND ucast (BOTTOM_BITS 6))),
           ucast (ucast (TOP_BITS 1) OR (u AND ucast (BOTTOM_BITS 6)))]
      else Fail cbb)"

definition cbb_add_latin1 :: "allocator \<Rightarrow> CBB \<Rightarrow> nat \<Rightarrow> u32 \<Rightarrow> (unit, CBB) outcome" where
  "cbb_add_latin1 alloc cbb d u = (if u \<le> 0xFF then CBB_add_u8 alloc cbb d (ucast u) else Fail cbb)"

definition cbb_add_ucs2_be :: "allocator \<Rightarrow> CBB \<Rightarrow> nat \<Rightarrow> u32 \<Rightarrow> (unit, CBB) outcome" where
  "cbb_add_ucs2_be alloc cbb d u =
     (if u \<le> 0xFFFF \<and> is_valid_code_point u then CBB_add_u16 alloc cbb d (ucast u) else Fail cbb)"

definition cbb_add_utf32_be :: "allocator \<Rightarrow> CBB \<Rightarrow> nat \<Rightarrow> u32 \<Rightarrow> (unit, CBB) outcome" where
  "cbb_add_utf32_be alloc cbb d u = (if is_valid_code_point u then CBB_add_u32 alloc cbb d u else Fail cbb)"

section \<open>UTF-8 as a specification\<close>

definition utf8 :: "nat \<Rightarrow> byte list" where
  "utf8 n =
     (if n < 0x80 then [of_nat n]
      else if n < 0x800 then [of_nat (0xC0 + n div 64), of_nat (0x80 + n mod 64)]
      else if n < 0x10000 then [of_nat (0xE0 + n div 4096), of_nat (0x80 + n div 64 mod 64), of_nat (0x80 + n mod 64)]
      else [of_nat (0xF0 + n div 262144), of_nat (0x80 + n div 4096 mod 64), of_nat (0x80 + n div 64 mod 64),
            of_nat (0x80 + n mod 64)])"

lemma unat_and_not_mask: "unat (w AND NOT (mask k) :: 'a::len word) = 2 ^ k * (unat w div 2 ^ k)"
proof -
  have "(w AND mask k) OR (w AND NOT (mask k)) = w" by (rule bit_word_eqI) (auto simp: bit_simps)
  moreover have "(w AND mask k) OR (w AND NOT (mask k)) = (w AND mask k) + (w AND NOT (mask k))"
    by (rule disjunctive_add [symmetric]) (auto simp: bit_simps)
  ultimately have "w AND NOT (mask k) = w - (w AND mask k)" by (simp add: eq_diff_eq add.commute)
  moreover have "w AND mask k \<le> w" by (simp add: word_le_nat_alt unat_take_mask)
  ultimately show ?thesis by (simp add: unat_sub_le unat_take_mask minus_mod_eq_mult_div)
qed

lemma bits_mask: "BOTTOM_BITS n = mask n" "TOP_BITS n = NOT (mask (8 - n))"
  by (simp_all add: BOTTOM_BITS_def TOP_BITS_def mask_eq_exp_minus_1 push_bit_eq_mult)

lemma top_bits_unat:
  "unat (TOP_BITS 1) = 0x80" "unat (TOP_BITS 2) = 0xC0" "unat (TOP_BITS 3) = 0xE0" "unat (TOP_BITS 4) = 0xF0"
  unfolding TOP_BITS_def BOTTOM_BITS_def by code_simp+

lemma lead_iff:
  "c AND TOP_BITS 2 = TOP_BITS 1 \<longleftrightarrow> unat c div 64 = 2"
  "c AND TOP_BITS 3 = TOP_BITS 2 \<longleftrightarrow> unat c div 32 = 6"
  "c AND TOP_BITS 4 = TOP_BITS 3 \<longleftrightarrow> unat c div 16 = 14"
  "c AND TOP_BITS 5 = TOP_BITS 4 \<longleftrightarrow> unat c div 8 = 30"
  using unat_and_not_mask [of c 6] unat_and_not_mask [of c 5] unat_and_not_mask [of c 4] unat_and_not_mask [of c 3]
    top_bits_unat
  by (auto simp: word_unat_eq_iff bits_mask)

lemma low_bits: "(ucast (c AND BOTTOM_BITS n) :: u32) = of_nat (unat c mod 2 ^ n)"
  by (simp only: ucast_eq_of_nat bits_mask unat_take_mask)

lemma push6_or:
  assumes "unat c div 64 = 2"
  shows "push_bit 6 (of_nat v :: u32) OR ucast (c AND BOTTOM_BITS 6) = of_nat (64 * v + unat c mod 64)"
proof -
  have "push_bit 6 (of_nat v :: u32) OR ucast (c AND BOTTOM_BITS 6) = of_nat (unat c mod 64) OR push_bit 6 (of_nat v)"
    by (simp only: low_bits or.commute) simp
  also have "\<dots> = of_nat (unat c mod 64 + 2 ^ 6 * v)" by (intro or_push_bit_of_nat) simp
  finally show ?thesis by (simp add: add.commute)
qed

section \<open>Reading UTF-8\<close>

definition is_cont :: "byte \<Rightarrow> bool" where
  "is_cont c \<longleftrightarrow> unat c div 64 = 2"

definition join6 :: "nat \<Rightarrow> byte list \<Rightarrow> nat" where
  "join6 v cs = foldl (\<lambda>a c. 64 * a + unat c mod 64) v cs"

lemma cons_reader:
  assumes "cbs_ok s" and "cbs_bytes s = c # cs"
  shows "cbs_ok (cbs_drop s 1)" and "cbs_bytes (cbs_drop s 1) = cs"
  using assms by (simp_all del: length_cbs_bytes)

lemma utf8_continuation_iff:
  "cbs_ok s \<Longrightarrow> utf8_continuation s (of_nat v) n = Ok r s' \<longleftrightarrow>
    n \<le> length (cbs_bytes s) \<and> list_all is_cont (take n (cbs_bytes s)) \<and>
    r = of_nat (join6 v (take n (cbs_bytes s))) \<and> s' = cbs_drop s n"
proof (induction n arbitrary: s v)
  case 0
  then show ?case by (auto simp: join6_def)
next
  case (Suc n)
  show ?case
  proof (cases "cbs_bytes s")
    case Nil
    then show ?thesis using Suc.prems by (auto simp: CBS_get_u8_eq simp del: length_cbs_bytes)
  next
    case (Cons c cs)
    note r = cons_reader [OF Suc.prems Cons]
    have "utf8_continuation s (of_nat v) (Suc n) = Ok r s' \<longleftrightarrow>
        is_cont c \<and> utf8_continuation (cbs_drop s 1) (of_nat (64 * v + unat c mod 64)) n = Ok r s'"
      using Suc.prems Cons push6_or [of c v] by (auto simp: CBS_get_u8_eq lead_iff is_cont_def simp del: One_nat_def)
    also have "\<dots> \<longleftrightarrow> is_cont c \<and> n \<le> length cs \<and> list_all is_cont (take n cs) \<and>
        r = of_nat (join6 (64 * v + unat c mod 64) (take n cs)) \<and> s' = cbs_drop s (Suc n)"
      using Suc.IH [OF r(1), of "64 * v + unat c mod 64"] by (simp only: r(2) cbs_drop_drop plus_1_eq_Suc)
    finally show ?thesis unfolding Cons by (auto simp: join6_def)
  qed
qed

text \<open>The three multi-byte forms: mask of the lead byte, number of continuation bytes, smallest value.\<close>

definition lead_form :: "byte \<Rightarrow> (nat \<times> nat \<times> nat) option" where
  "lead_form c =
     (if unat c div 32 = 6 then Some (unat c mod 32, 1, 0x80)
      else if unat c div 16 = 14 then Some (unat c mod 16, 2, 0x800)
      else if unat c div 8 = 30 then Some (unat c mod 8, 3, 0x10000)
      else None)"

lemma join6_bound: "v < 2 ^ k \<Longrightarrow> join6 v cs < 2 ^ (k + 6 * length cs)"
proof (induction cs arbitrary: v k)
  case (Cons c cs)
  have "unat c mod 64 < 64" by simp
  then have "64 * v + unat c mod 64 < 2 ^ (k + 6)" using Cons.prems by (simp add: power_add)
  from Cons.IH [OF this] show ?case by (simp add: join6_def algebra_simps)
qed (simp add: join6_def)

lemma cbs_get_utf8_cons:
  assumes "cbs_ok s" and "cbs_bytes s = c # cs"
  shows "cbs_get_utf8 s = Ok u s' \<longleftrightarrow>
    (if unat c < 0x80 then u = of_nat (unat c) \<and> s' = cbs_drop s 1
     else (case lead_form c of
             None \<Rightarrow> False
           | Some (v, n, l) \<Rightarrow> n \<le> length cs \<and> list_all is_cont (take n cs) \<and> u = of_nat (join6 v (take n cs)) \<and>
               is_valid_code_point u \<and> l \<le> join6 v (take n cs) \<and> s' = cbs_drop s (Suc n)))"
proof (cases "unat c < 0x80")
  case True
  then show ?thesis using assms by (auto simp: cbs_get_utf8_def CBS_get_u8_eq word_le_nat_alt)
next
  case False
  note r = cons_reader [OF assms]
  have big: "\<not> c \<le> 0x7F" using False by (simp add: word_le_nat_alt)
  have form: "(if c AND TOP_BITS 3 = TOP_BITS 2 then Some (ucast (c AND BOTTOM_BITS 5), 1, 0x80)
       else if c AND TOP_BITS 4 = TOP_BITS 3 then Some (ucast (c AND BOTTOM_BITS 4), 2, 0x800)
       else if c AND TOP_BITS 5 = TOP_BITS 4 then Some (ucast (c AND BOTTOM_BITS 3), 3, 0x10000)
       else None) = map_option (\<lambda>(v, n, l). (of_nat v :: u32, n, of_nat l :: u32)) (lead_form c)"
    by (simp add: lead_iff low_bits lead_form_def)
  have bound: "join6 v ds < 2 ^ 21 \<and> l \<le> 0x10000" if "lead_form c = Some (v, n, l)" and "length ds = n" for v n l ds
  proof -
    from that(1) consider "v < 2 ^ 5" "n = 1" "l = 0x80" | "v < 2 ^ 4" "n = 2" "l = 0x800"
      | "v < 2 ^ 3" "n = 3" "l = 0x10000" by (auto simp: lead_form_def split: if_splits)
    then show ?thesis
      using join6_bound [of v 5 ds] join6_bound [of v 4 ds] join6_bound [of v 3 ds] that(2) by cases simp_all
  qed
  have lt: "(of_nat (join6 v ds) :: u32) < of_nat l \<longleftrightarrow> join6 v ds < l"
    if "lead_form c = Some (v, n, l)" and "length ds = n" for v n l ds
    using bound [OF that] by (simp add: word_less_nat_alt unat_of_nat_less)
  show ?thesis
  proof (cases "lead_form c")
    case None
    then show ?thesis
      using assms big form False by (simp add: cbs_get_utf8_def CBS_get_u8_eq)
  next
    case (Some vnl)
    obtain v n l where vnl: "vnl = (v, n, l)" by (cases vnl)
    have "cbs_get_utf8 s = Ok u s' \<longleftrightarrow> utf8_continuation (cbs_drop s 1) (of_nat v) n = Ok u s' \<and>
        is_valid_code_point u \<and> \<not> u < of_nat l"
      using assms big form Some vnl by (auto simp: cbs_get_utf8_def CBS_get_u8_eq split: if_splits)
    also have "\<dots> \<longleftrightarrow> n \<le> length cs \<and> list_all is_cont (take n cs) \<and> u = of_nat (join6 v (take n cs)) \<and>
        is_valid_code_point u \<and> l \<le> join6 v (take n cs) \<and> s' = cbs_drop s (Suc n)"
      unfolding utf8_continuation_iff [OF r(1)] r(2) cbs_drop_drop
      using lt [OF Some [unfolded vnl], of "take n cs"] by (auto simp: not_less)
    finally show ?thesis using False Some vnl by simp
  qed
qed

lemma div64: "(e :: nat) < 64 \<Longrightarrow> (64 * y + e) div 64 = y"
  by simp

lemma byte_parts: "(of_nat (k * (unat c div k) + unat c mod k) :: byte) = c"
  by simp

lemma mod64: "(e :: nat) < 64 \<Longrightarrow> (64 * y + e) mod 64 = e"
  by simp

lemma div_4096: "(n :: nat) div 4096 = n div 64 div 64" "(n :: nat) div 262144 = n div 64 div 64 div 64"
  by (simp_all add: div_mult2_eq [symmetric])

lemma utf8_2: "n = 64 * a + b \<Longrightarrow> b < 64 \<Longrightarrow> a < 32 \<Longrightarrow> 0x80 \<le> n \<Longrightarrow>
   utf8 n = [of_nat (0xC0 + a), of_nat (0x80 + b)]"
  using div64 [of b a] mod64 [of b a] by (simp add: utf8_def del: of_nat_add)

lemma utf8_3:
  assumes n: "n = 64 * y + e" and y: "y = 64 * a + b" and lt: "b < 64" "e < 64" "a < 16" and low: "0x800 \<le> n"
  shows "utf8 n = [of_nat (0xE0 + a), of_nat (0x80 + b), of_nat (0x80 + e)]"
proof -
  have "n div 64 = y" "n mod 64 = e" using div64 [OF lt(2), of y] mod64 [OF lt(2), of y] by (simp_all only: n)
  moreover have "y div 64 = a" "y mod 64 = b" using div64 [OF lt(1), of a] mod64 [OF lt(1), of a] by (simp_all only: y)
  moreover have "n < 0x10000" using n y lt by linarith
  moreover have "\<not> n < 0x80" "\<not> n < 0x800" using low by simp_all
  ultimately show ?thesis unfolding utf8_def div_4096 by (simp only: if_False if_True)
qed

lemma utf8_4:
  assumes n: "n = 64 * z + f" and z: "z = 64 * y + e" and y: "y = 64 * a + b" and lt: "b < 64" "e < 64" "f < 64"
    and low: "0x10000 \<le> n"
  shows "utf8 n = [of_nat (0xF0 + a), of_nat (0x80 + b), of_nat (0x80 + e), of_nat (0x80 + f)]"
proof -
  have "n div 64 = z" "n mod 64 = f" using div64 [OF lt(3), of z] mod64 [OF lt(3), of z] by (simp_all only: n)
  moreover have "z div 64 = y" "z mod 64 = e" using div64 [OF lt(2), of y] mod64 [OF lt(2), of y] by (simp_all only: z)
  moreover have "y div 64 = a" "y mod 64 = b" using div64 [OF lt(1), of a] mod64 [OF lt(1), of a] by (simp_all only: y)
  moreover have "\<not> n < 0x80" "\<not> n < 0x800" "\<not> n < 0x10000" using low by simp_all
  ultimately show ?thesis unfolding utf8_def div_4096 by (simp only: if_False)
qed

text \<open>The encodings with a given lead byte are the UTF-8 forms of their values.\<close>

lemma utf8_of_form:
  assumes "lead_form c = Some (v, n, l)" and "length ds = n" and "list_all is_cont ds" and "l \<le> join6 v ds"
  shows "utf8 (join6 v ds) = c # ds"
proof -
  have cont: "(of_nat (0x80 + unat d mod 64) :: byte) = d" if "is_cont d" for d
    using that byte_parts [of 64 d] by (simp add: is_cont_def)
  have m: "unat d mod 64 < 64" for d :: byte by simp
  from assms(1) consider "unat c div 32 = 6" "v = unat c mod 32" "n = 1" "l = 0x80"
    | "unat c div 16 = 14" "v = unat c mod 16" "n = 2" "l = 0x800"
    | "unat c div 8 = 30" "v = unat c mod 8" "n = 3" "l = 0x10000"
    by (auto simp: lead_form_def split: if_splits)
  then show ?thesis
  proof cases
    case 1
    with assms(2) obtain d where ds: "ds = [d]" by (auto simp: length_Suc_conv)
    have c: "(of_nat (0xC0 + v) :: byte) = c" and v: "v < 32" using byte_parts [of 32 c] 1 by simp_all
    have "join6 v ds = 64 * v + unat d mod 64" by (simp add: join6_def ds)
    from utf8_2 [OF this m v] show ?thesis using assms(3,4) cont [of d] c 1 ds by simp
  next
    case 2
    with assms(2) obtain d e where ds: "ds = [d, e]" by (auto simp: length_Suc_conv numeral_2_eq_2)
    have c: "(of_nat (0xE0 + v) :: byte) = c" and v: "v < 16" using byte_parts [of 16 c] 2 by simp_all
    have "join6 v ds = 64 * (64 * v + unat d mod 64) + unat e mod 64" by (simp add: join6_def ds)
    from utf8_3 [OF this refl m m v] show ?thesis using assms(3,4) cont [of d] cont [of e] c 2 ds by simp
  next
    case 3
    with assms(2) obtain d e f where ds: "ds = [d, e, f]" by (auto simp: length_Suc_conv numeral_3_eq_3)
    have c: "(of_nat (0xF0 + v) :: byte) = c" using byte_parts [of 8 c] 3 by simp
    have "join6 v ds = 64 * (64 * (64 * v + unat d mod 64) + unat e mod 64) + unat f mod 64" by (simp add: join6_def ds)
    from utf8_4 [OF this refl refl m m m] show ?thesis using assms(3,4) cont [of d] cont [of e] cont [of f] c 3 ds by simp
  qed
qed

lemma div_mod_digit: "(x :: nat) < k \<Longrightarrow> (k * q + x) div k = q" "x < k \<Longrightarrow> (k * q + x) mod k = x"
  by simp_all

lemma lead_bytes:
  "x < 32 \<Longrightarrow> lead_form (of_nat (0xC0 + x)) = Some (x, 1, 0x80)"
  "x < 16 \<Longrightarrow> lead_form (of_nat (0xE0 + x)) = Some (x, 2, 0x800)"
  "x < 8 \<Longrightarrow> lead_form (of_nat (0xF0 + x)) = Some (x, 3, 0x10000)"
proof -
  have u: "x < 64 \<Longrightarrow> unat (of_nat (k + x) :: byte) = k + x" if "k < 193 \<or> k + x < 256" for k
    using that by (intro unat_of_nat_less) auto
  have d: "(192 + x) div 32 = 6 \<and> (192 + x) mod 32 = x" if "x < 32"
    using that div_mod_digit [of x 32 6] by simp
  have e: "(224 + x) div 32 = 7 \<and> (224 + x) div 16 = 14 \<and> (224 + x) mod 16 = x" if "x < 16"
    using that div_mod_digit [of x 32 7] div_mod_digit [of x 16 14] by simp
  have f: "(240 + x) div 32 = 7 \<and> (240 + x) div 16 = 15 \<and> (240 + x) div 8 = 30 \<and> (240 + x) mod 8 = x" if "x < 8"
    using that div_mod_digit [of "16 + x" 32 7] div_mod_digit [of x 16 15] div_mod_digit [of x 8 30] by simp
  show "x < 32 \<Longrightarrow> lead_form (of_nat (0xC0 + x)) = Some (x, 1, 0x80)"
    using u [of 192] d by (simp add: lead_form_def del: of_nat_add)
  show "x < 16 \<Longrightarrow> lead_form (of_nat (0xE0 + x)) = Some (x, 2, 0x800)"
    using u [of 224] e by (simp add: lead_form_def del: of_nat_add)
  show "x < 8 \<Longrightarrow> lead_form (of_nat (0xF0 + x)) = Some (x, 3, 0x10000)"
    using u [of 240] f by (simp add: lead_form_def del: of_nat_add)
qed

lemma cont_bytes:
  assumes "x < 64"
  shows "is_cont (of_nat (0x80 + x))" and "unat (of_nat (0x80 + x) :: byte) mod 64 = x"
proof -
  have "unat (of_nat (0x80 + x) :: byte) = 128 + x" using assms by (intro unat_of_nat_less) simp
  moreover have "(128 + x) div 64 = 2" "(128 + x) mod 64 = x" using assms div_mod_digit [of x 64 2] by simp_all
  ultimately show "is_cont (of_nat (0x80 + x))" "unat (of_nat (0x80 + x) :: byte) mod 64 = x"
    by (simp_all only: is_cont_def)
qed

lemma utf8_has_form:
  assumes "0x80 \<le> n" and "n < 0x110000"
  obtains c ds v k l where "utf8 n = c # ds" and "lead_form c = Some (v, k, l)" and "length ds = k"
    and "list_all is_cont ds" and "join6 v ds = n" and "l \<le> n" and "128 \<le> unat c"
proof -
  have m: "x mod 64 < 64" for x :: nat by simp
  have lead: "128 \<le> unat c" if "lead_form c = Some r" for c r
    using that by (auto simp: lead_form_def split: if_splits)
  note cb = cont_bytes [OF m]
  have j: "64 * (n div 64) + n mod 64 = n" "64 * (n div 4096) + n div 64 mod 64 = n div 64"
    "64 * (n div 262144) + n div 4096 mod 64 = n div 4096"
    by (simp_all add: div_4096)
  have j2: "4096 * (n div 4096) + 64 * (n div 64 mod 64) + n mod 64 = n"
    and j3: "262144 * (n div 262144) + 4096 * (n div 4096 mod 64) + 64 * (n div 64 mod 64) + n mod 64 = n"
    using j by linarith+
  consider "n < 0x800" | "0x800 \<le> n" "n < 0x10000" | "0x10000 \<le> n" by linarith
  then show ?thesis
  proof cases
    case 1
    have "n div 64 < 32" using 1 by simp
    from lead_bytes(1) [OF this] show ?thesis
      using 1 assms lead by (intro that [where c = "of_nat (0xC0 + n div 64)" and ds = "[of_nat (0x80 + n mod 64)]"])
        (simp_all add: utf8_def join6_def cb j del: of_nat_add, rule mult_div_mod_eq)
  next
    case 2
    have "n div 4096 < 16" using 2 by simp
    from lead_bytes(2) [OF this] show ?thesis
      using 2 assms lead
      by (intro that [where c = "of_nat (0xE0 + n div 4096)" and
            ds = "[of_nat (0x80 + n div 64 mod 64), of_nat (0x80 + n mod 64)]"])
        (simp_all add: utf8_def join6_def cb del: of_nat_add, rule j2)
  next
    case 3
    have "n div 262144 < 8" using assms by simp
    from lead_bytes(3) [OF this] show ?thesis
      using 3 assms lead
      by (intro that [where c = "of_nat (0xF0 + n div 262144)" and
            ds = "[of_nat (0x80 + n div 4096 mod 64), of_nat (0x80 + n div 64 mod 64), of_nat (0x80 + n mod 64)]"])
        (simp_all add: utf8_def join6_def cb del: of_nat_add, rule j3)
  qed
qed

lemma valid_bound: "is_valid_code_point u \<Longrightarrow> unat u < 0x110000"
  by (auto simp: is_valid_code_point_def not_less word_le_nat_alt)

lemma cbs_get_utf8_iff:
  assumes "cbs_ok s"
  shows "cbs_get_utf8 s = Ok u s' \<longleftrightarrow>
    is_valid_code_point u \<and> (\<exists>rest. cbs_bytes s = utf8 (unat u) @ rest) \<and> s' = cbs_drop s (length (utf8 (unat u)))"
    (is "?l \<longleftrightarrow> ?r")
proof
  assume ?l
  then obtain c cs where bs: "cbs_bytes s = c # cs"
    using assms by (cases "cbs_bytes s") (auto simp: cbs_get_utf8_def CBS_get_u8_eq)
  show ?r
  proof (cases "unat c < 0x80")
    case True
    then have u: "u = of_nat (unat c)" "s' = cbs_drop s 1" using \<open>?l\<close> cbs_get_utf8_cons [OF assms bs] by simp_all
    then have "unat u = unat c" using True by (simp only: unat_of_nat_less) (intro unat_of_nat_less, simp)
    moreover have "is_valid_code_point u"
    proof -
      have "\<not> u AND 0xFFFE = 0xFFFE"
      proof
        assume "u AND 0xFFFE = 0xFFFE"
        then have "unat (u AND 0xFFFE) = 0xFFFE" by simp
        moreover have "unat (u AND 0xFFFE) \<le> unat u" by (simp add: word_and_le2 flip: word_le_nat_alt)
        ultimately show False using True \<open>unat u = unat c\<close> by simp
      qed
      then show ?thesis using True \<open>unat u = unat c\<close>
        by (auto simp: is_valid_code_point_def word_less_nat_alt word_le_nat_alt)
    qed
    ultimately show ?thesis using True u bs by (simp add: utf8_def)
  next
    case False
    then obtain v n l where f: "lead_form c = Some (v, n, l)" "n \<le> length cs" "list_all is_cont (take n cs)"
      "u = of_nat (join6 v (take n cs))" "is_valid_code_point u" "l \<le> join6 v (take n cs)" "s' = cbs_drop s (Suc n)"
      using \<open>?l\<close> cbs_get_utf8_cons [OF assms bs, of u s'] by (auto split: option.splits)
    have "utf8 (join6 v (take n cs)) = c # take n cs" using utf8_of_form [OF f(1) _ f(3,6)] f(2) by simp
    moreover have "unat u = join6 v (take n cs)"
    proof -
      have "v < 2 ^ 5" "n \<le> 3" using f(1) by (auto simp: lead_form_def split: if_splits intro: less_trans [of _ 16] less_trans [of _ 8])
      then have "join6 v (take n cs) < 2 ^ (5 + 6 * length (take n cs))" by (intro join6_bound)
      also have "\<dots> \<le> 2 ^ 23" using \<open>n \<le> 3\<close> by (intro power_increasing) simp_all
      finally show ?thesis unfolding f(4) by (intro unat_of_nat_less) simp
    qed
    ultimately show ?thesis using f bs append_take_drop_id [of n cs] by (auto intro: exI [of _ "drop n cs"])
  qed
next
  assume r: ?r
  then obtain rest where bs: "cbs_bytes s = utf8 (unat u) @ rest" by blast
  show ?l
  proof (cases "unat u < 0x80")
    case True
    then have "unat (of_nat (unat u) :: byte) = unat u" by (intro unat_of_nat_less) simp
    then show ?thesis
      using True r bs cbs_get_utf8_cons [OF assms, of "of_nat (unat u)" rest u s'] by (simp add: utf8_def)
  next
    case False
    then obtain c ds v k l where f: "utf8 (unat u) = c # ds" "lead_form c = Some (v, k, l)" "length ds = k"
      "list_all is_cont ds" "join6 v ds = unat u" "l \<le> unat u" "128 \<le> unat c"
      using utf8_has_form [of "unat u"] valid_bound r by (metis not_less)
    then show ?thesis
      using r bs cbs_get_utf8_cons [OF assms, of c "ds @ rest" u s'] by simp
  qed
qed

section \<open>Writing UTF-8\<close>

lemma add_u8s_flushed:
  assumes a: "alloc_ok alloc"
  shows "builder_rel cbb st \<Longrightarrow> length (snd st) = d \<Longrightarrow>
    refines alloc cbb (add_u8s alloc cbb d bs) (Some (abs_append bs st))"
proof (induction bs arbitrary: cbb st)
  case Nil
  moreover have "abs_append [] st = st" by (induction "[] :: byte list" st rule: abs_append.induct) auto
  ultimately show ?case by (simp add: refines_Ok)
next
  case (Cons b bs)
  have "refines alloc cbb (CBB_add_u8 alloc cbb d b) (Some (abs_append [b] st))"
    using CBB_add_u8_refines [OF a Cons.prems(1), of d b] Cons.prems(2) by (simp add: abs_put_flushed)
  then have "refines alloc cbb (obind (CBB_add_u8 alloc cbb d b) (\<lambda>_ cbb'. add_u8s alloc cbb' d bs))
      (Some (abs_append ([b] @ bs) st))"
    using Cons.prems(2) by (intro refines_append_seq Cons.IH) (simp_all add: abs_append_length)
  then show ?case by simp
qed

lemma add_u8s_refines:
  assumes a: "alloc_ok alloc" and rel: "builder_rel cbb st" and d: "d \<le> length (snd st)"
  shows "refines alloc cbb (add_u8s alloc cbb d (b # bs)) (abs_put d (b # bs) st)"
proof -
  have "refines alloc cbb (obind (CBB_add_u8 alloc cbb d b) (\<lambda>_ cbb'. add_u8s alloc cbb' d bs))
      (Option.bind (abs_put d [b] st) (\<lambda>s. Some (abs_append bs s)))"
  proof (rule refines_bind [OF CBB_add_u8_refines [OF assms]])
    fix u cbb' s assume "abs_put d [b] st = Some s" and "builder_rel cbb' s"
    then show "refines alloc cbb' (add_u8s alloc cbb' d bs) (Some (abs_append bs s))"
      by (intro add_u8s_flushed [OF a]) (auto simp: abs_put_def abs_append_length dest: abs_flush_length)
  qed (auto dest: abs_append_mono)
  then show ?thesis by (cases "abs_flush d st") (simp_all add: abs_put_def abs_append_append)
qed

lemma top_or:
  "n < 64 \<Longrightarrow> (ucast ((ucast (TOP_BITS 1) :: u32) OR of_nat n) :: byte) = of_nat (0x80 + n)"
  "n < 64 \<Longrightarrow> (ucast ((ucast (TOP_BITS 2) :: u32) OR of_nat n) :: byte) = of_nat (0xC0 + n)"
  "n < 32 \<Longrightarrow> (ucast ((ucast (TOP_BITS 3) :: u32) OR of_nat n) :: byte) = of_nat (0xE0 + n)"
  "n < 16 \<Longrightarrow> (ucast ((ucast (TOP_BITS 4) :: u32) OR of_nat n) :: byte) = of_nat (0xF0 + n)"
proof -
  have w: "(ucast (of_nat k :: u32) :: byte) = of_nat k" if "k < 256" for k
    using that unat_of_nat_less [of k, where 'a = 32] by (simp only: ucast_eq_of_nat) simp
  have t: "(ucast (TOP_BITS k) :: u32) = of_nat (unat (TOP_BITS k))" for k by (rule ucast_eq_of_nat)
  show "n < 64 \<Longrightarrow> (ucast ((ucast (TOP_BITS 1) :: u32) OR of_nat n) :: byte) = of_nat (0x80 + n)"
    using or_push_bit_of_nat [of n 6 2, where 'a = 32] w [of "0x80 + n"]
    by (simp only: t top_bits_unat or.commute) (simp add: add.commute)
  show "n < 64 \<Longrightarrow> (ucast ((ucast (TOP_BITS 2) :: u32) OR of_nat n) :: byte) = of_nat (0xC0 + n)"
    using or_push_bit_of_nat [of n 6 3, where 'a = 32] w [of "0xC0 + n"]
    by (simp only: t top_bits_unat or.commute) (simp add: add.commute)
  show "n < 32 \<Longrightarrow> (ucast ((ucast (TOP_BITS 3) :: u32) OR of_nat n) :: byte) = of_nat (0xE0 + n)"
    using or_push_bit_of_nat [of n 5 7, where 'a = 32] w [of "0xE0 + n"]
    by (simp only: t top_bits_unat or.commute) (simp add: add.commute)
  show "n < 16 \<Longrightarrow> (ucast ((ucast (TOP_BITS 4) :: u32) OR of_nat n) :: byte) = of_nat (0xF0 + n)"
    using or_push_bit_of_nat [of n 4 15, where 'a = 32] w [of "0xF0 + n"]
    by (simp only: t top_bits_unat or.commute) (simp add: add.commute)
qed

lemma and_low6: "(x AND ucast (BOTTOM_BITS 6) :: u32) = of_nat (unat x mod 64)"
proof -
  have "(ucast (BOTTOM_BITS 6) :: u32) = mask 6" unfolding BOTTOM_BITS_def by code_simp
  then have "unat (x AND ucast (BOTTOM_BITS 6) :: u32) = unat x mod 64" by (simp add: unat_take_mask)
  then show ?thesis by (metis of_nat_unat ucast_id)
qed

lemma drop_u32: "(drop_bit k u :: u32) = of_nat (unat u div 2 ^ k)"
  using unat_drop_bit [of k u] by (metis of_nat_unat ucast_id)

lemma cbb_add_utf8_refines:
  assumes "alloc_ok alloc" and "builder_rel cbb st" and "d \<le> length (snd st)" and v: "is_valid_code_point u"
  shows "refines alloc cbb (cbb_add_utf8 alloc cbb d u) (abs_put d (utf8 (unat u)) st)"
proof -
  let ?n = "unat u"
  have n: "?n < 0x110000" using valid_bound [OF v] .
  have m: "x mod 64 < 64" for x :: nat by simp
  have le: "u \<le> 0x7F \<longleftrightarrow> ?n < 0x80" "u \<le> 0x7FF \<longleftrightarrow> ?n < 0x800" "u \<le> 0xFFFF \<longleftrightarrow> ?n < 0x10000" "u \<le> 0x10FFFF"
    using n by (auto simp: word_le_nat_alt)
  note t = top_or(1) [OF m]
  have d6: "unat (drop_bit 6 u) = ?n div 64" "unat (drop_bit 12 u) = ?n div 4096" by (simp_all add: unat_drop_bit)
  note u8s = add_u8s_refines [OF assms(1-3)]
  consider "?n < 0x80" | "0x80 \<le> ?n" "?n < 0x800" | "0x800 \<le> ?n" "?n < 0x10000" | "0x10000 \<le> ?n" by linarith
  then show ?thesis
  proof cases
    case 1
    have "(ucast u :: byte) = of_nat ?n" by (rule ucast_eq_of_nat)
    then show ?thesis
      using 1 v le CBB_add_u8_refines [OF assms(1-3), of "of_nat ?n"] by (simp add: cbb_add_utf8_def utf8_def)
  next
    case 2
    have "?n div 64 < 64" using 2 by simp
    then have "utf8 ?n = [ucast ((ucast (TOP_BITS 2) :: u32) OR drop_bit 6 u),
        ucast ((ucast (TOP_BITS 1) :: u32) OR (u AND ucast (BOTTOM_BITS 6)))]"
      using 2 top_or(2) [of "?n div 64"] t [of ?n] by (simp add: utf8_def and_low6 drop_u32 del: of_nat_add)
    then show ?thesis using 2 v le u8s by (simp add: cbb_add_utf8_def del: add_u8s.simps)
  next
    case 3
    have "?n div 4096 < 32" using 3 by simp
    then have "utf8 ?n = [ucast ((ucast (TOP_BITS 3) :: u32) OR drop_bit 12 u),
        ucast ((ucast (TOP_BITS 1) :: u32) OR (drop_bit 6 u AND ucast (BOTTOM_BITS 6))),
        ucast ((ucast (TOP_BITS 1) :: u32) OR (u AND ucast (BOTTOM_BITS 6)))]"
      using 3 top_or(3) [of "?n div 4096"] t [of ?n] t [of "?n div 64"]
      by (simp add: utf8_def and_low6 d6 drop_u32 [of 12] del: of_nat_add)
    then show ?thesis using 3 v le u8s by (simp add: cbb_add_utf8_def del: add_u8s.simps)
  next
    case 4
    have "?n div 262144 < 16" using n by simp
    then have "utf8 ?n = [ucast ((ucast (TOP_BITS 4) :: u32) OR drop_bit 18 u),
        ucast ((ucast (TOP_BITS 1) :: u32) OR (drop_bit 12 u AND ucast (BOTTOM_BITS 6))),
        ucast ((ucast (TOP_BITS 1) :: u32) OR (drop_bit 6 u AND ucast (BOTTOM_BITS 6))),
        ucast ((ucast (TOP_BITS 1) :: u32) OR (u AND ucast (BOTTOM_BITS 6)))]"
      using 4 top_or(4) [of "?n div 262144"] t [of ?n] t [of "?n div 64"] t [of "?n div 4096"]
      by (simp add: utf8_def and_low6 d6 drop_u32 [of 18] del: of_nat_add)
    then show ?thesis using 4 v le u8s by (simp add: cbb_add_utf8_def del: add_u8s.simps)
  qed
qed

end
