(* ===== verification/BytestringProps.thy ===== *)
theory BytestringProps
  imports CbsValues CbbOps CbsUnicode
begin

text \<open>
  The properties of BoringSSL's byte-string library: the reader \<open>CBS\<close>, the builder \<open>CBB\<close>, and the two together.
\<close>

unbundle bit_operations_syntax

section \<open>Witness data\<close>

text \<open>An allocator that always succeeds with zeroed memory, and a reader over an octet string and one more byte.\<close>

definition zero_alloc :: allocator where
  "zero_alloc n = Some (replicate (unat n) 0)"

lemma zero_alloc_ok: "alloc_ok zero_alloc" and zero_alloc_total: "alloc_total zero_alloc"
  by (simp_all add: alloc_ok_def alloc_total_def zero_alloc_def)

definition octets_ab :: CBS where
  "octets_ab = CBS_init [0x04, 0x02, 0xAA, 0xBB, 0x05] 5"

lemma octets_ab_ok: "cbs_ok octets_ab" and octets_ab_bytes: "cbs_bytes octets_ab = [0x04, 0x02, 0xAA, 0xBB, 0x05]"
  by (simp_all add: cbs_ok_def cbs_bytes_def octets_ab_def CBS_init_def)

lemma der_octets_ab: "der_element 4 [0xAA, 0xBB] = [0x04, 0x02, 0xAA, 0xBB]"
  by (simp add: der_element_def der_header_def der_tag_def der_len_def tag_number_def tag_class_def)

lemma der_at_octets_ab: "der_at octets_ab 4 [0xAA, 0xBB]"
  by (auto simp: der_at_def octets_ab_bytes der_octets_ab)

section \<open>The reader\<close>

lemma CBS_get_asn1_reads:
  assumes "cbs_ok s"
  shows "(\<exists>out s'. CBS_get_asn1 s tag = Ok out s' \<and> cbs_bytes out = contents \<and> cbs_bytes s' = rest) \<longleftrightarrow>
    length contents < 2 ^ 32 \<and> cbs_bytes s = der_element tag contents @ rest"
proof
  assume "\<exists>out s'. CBS_get_asn1 s tag = Ok out s' \<and> cbs_bytes out = contents \<and> cbs_bytes s' = rest"
  then obtain c where c: "der_at s tag c" "cbs_bytes (contents_of s tag c) = contents"
      "cbs_bytes (after_element s tag c) = rest"
    by (auto simp: CBS_get_asn1_iff [OF assms])
  with contents_reader [OF assms c(1)] show "length contents < 2 ^ 32 \<and> cbs_bytes s = der_element tag contents @ rest"
    by (auto simp: der_at_def)
next
  assume r: "length contents < 2 ^ 32 \<and> cbs_bytes s = der_element tag contents @ rest"
  then have at: "der_at s tag contents" by (auto simp: der_at_def)
  with contents_reader [OF assms at] r show "\<exists>out s'. CBS_get_asn1 s tag = Ok out s' \<and> cbs_bytes out = contents \<and> cbs_bytes s' = rest"
    by (auto simp: CBS_get_asn1_der [OF assms at])
qed

lemma cbs_safe_integers [cbs_safe_intros]:
  assumes "cbs_ok s"
  shows "cbs_safe s (CBS_get_u16 s)" "cbs_safe s (CBS_get_u16le s)" "cbs_safe s (CBS_get_u24 s)" "cbs_safe s (CBS_get_u32 s)"
    "cbs_safe s (CBS_get_u32le s)" "cbs_safe s (CBS_get_u64 s)" "cbs_safe s (CBS_get_u64le s)"
  unfolding CBS_get_u16_def CBS_get_u16le_def CBS_get_u24_def CBS_get_u32_def CBS_get_u32le_def CBS_get_u64_def CBS_get_u64le_def
  by (auto intro!: cbs_safe_obind cbs_safe_get_u cbs_safe_Ok assms)

lemma cbs_safe_elements [cbs_safe_intros]:
  assumes "cbs_ok s"
  shows "cbs_safe s (CBS_get_any_asn1_element s)" "cbs_safe s (CBS_get_any_ber_asn1_element s)"
    "cbs_safe s (CBS_get_asn1_element s tag)" "cbs_safe s (CBS_get_any_asn1 s)"
proof -
  show e: "cbs_safe s (CBS_get_any_asn1_element s)"
    unfolding CBS_get_any_asn1_element_def by (rule cbs_safe_obind) (auto intro: cbs_safe_intros assms)
  show "cbs_safe s (CBS_get_any_ber_asn1_element s)" "cbs_safe s (CBS_get_asn1_element s tag)"
    unfolding CBS_get_any_ber_asn1_element_def CBS_get_asn1_element_def by (intro cbs_safe_intros assms)+
  show "cbs_safe s (CBS_get_any_asn1 s)" using assms
  proof (cases rule: any_element_cases)
    case (1 tag contents)
    then show ?thesis using cbs_safe_after [OF assms 1] by (simp add: CBS_get_any_asn1_der [OF assms])
  next
    case 2
    then show ?thesis using assms by (simp add: CBS_get_any_asn1_def cbs_safe_Fail)
  qed
qed

text \<open>\<open>CBS_get_last_u8\<close> takes the last byte: it leaves a prefix.\<close>

lemma CBS_get_last_u8_safe:
  assumes "cbs_ok s"
  shows "\<exists>s' suf. final_state (CBS_get_last_u8 s) = Some s' \<and> cbs_ok s' \<and> cbs_bytes s = cbs_bytes s' @ suf"
proof (cases "cbs_len s = 0")
  case True
  then show ?thesis using assms by (simp add: CBS_get_last_u8_def)
next
  case False
  then have "unat (cbs_len s - 1) = unat (cbs_len s) - 1" "0 < unat (cbs_len s)" by (simp_all add: unat_minus_one unat_gt_0)
  moreover have "unat (cbs_len s) \<le> length (cbs_data s)" using assms by (simp add: cbs_ok_def)
  moreover from calculation have "take (unat (cbs_len s)) (cbs_data s) = take (unat (cbs_len s) - 1) (cbs_data s) @ [cbs_data s ! (unat (cbs_len s) - 1)]"
    using take_Suc_conv_app_nth [of "unat (cbs_len s) - 1" "cbs_data s"] by simp
  ultimately show ?thesis using False
    by (simp add: CBS_get_last_u8_def mem_at_def cbs_ok_def cbs_bytes_def)
qed

text \<open>(C14) Safety of the reader: called on a reader whose length does not exceed its memory, no function of \<^verbatim>\<open>cbs.c\<close> that takes
  something off a reader reads outside that memory or fails an assertion, and each leaves a good reader behind, whether it succeeds or
  not: \<open>CBS_get_last_u8\<close> one over a prefix of the bytes it had, every other one over a suffix.\<close>

theorem cbs_readers_safe:
  assumes "cbs_ok s"
  shows "cbs_safe s (CBS_skip s n) \<and> cbs_safe s (CBS_get_u8 s) \<and> cbs_safe s (CBS_get_u16 s) \<and> cbs_safe s (CBS_get_u16le s) \<and>
    cbs_safe s (CBS_get_u24 s) \<and> cbs_safe s (CBS_get_u32 s) \<and> cbs_safe s (CBS_get_u32le s) \<and> cbs_safe s (CBS_get_u64 s) \<and>
    cbs_safe s (CBS_get_u64le s) \<and>
    (\<exists>s' suf. final_state (CBS_get_last_u8 s) = Some s' \<and> cbs_ok s' \<and> cbs_bytes s = cbs_bytes s' @ suf) \<and>
    cbs_safe s (CBS_get_bytes s n) \<and> cbs_safe s (CBS_copy_bytes s n) \<and>
    cbs_safe s (CBS_get_u8_length_prefixed s) \<and> cbs_safe s (CBS_get_u16_length_prefixed s) \<and> cbs_safe s (CBS_get_u24_length_prefixed s) \<and>
    cbs_safe s (CBS_get_until_first s c) \<and>
    cbs_safe s (CBS_get_any_asn1_element s) \<and> cbs_safe s (CBS_get_any_ber_asn1_element s) \<and> cbs_safe s (CBS_get_any_asn1 s) \<and>
    cbs_safe s (CBS_get_asn1 s tag) \<and> cbs_safe s (CBS_get_asn1_element s tag) \<and>
    cbs_safe s (CBS_get_asn1_uint64 s) \<and> cbs_safe s (CBS_get_asn1_int64 s) \<and> cbs_safe s (CBS_get_asn1_bool s) \<and>
    cbs_safe s (CBS_get_optional_asn1 s tag) \<and> cbs_safe s (CBS_get_optional_asn1_octet_string s tag) \<and>
    cbs_safe s (CBS_get_optional_asn1_uint64 s tag dflt) \<and> cbs_safe s (CBS_get_optional_asn1_bool s tag b)"
  using assms by (intro conjI cbs_safe_intros CBS_get_last_u8_safe)

theorem cbs_readers_safe_witness: "cbs_ok octets_ab \<and> cbs_safe octets_ab (CBS_get_asn1_uint64 octets_ab)"
  using cbs_readers_safe [OF octets_ab_ok] octets_ab_ok by blast

text \<open>(C1) The reader accepts exactly DER: \<open>CBS_get_asn1\<close> succeeds iff the DER encoding of an element with the
  wanted tag (and fewer than \<open>2\<^sup>3\<^sup>2\<close> bytes of contents) is in front; it returns a reader over the contents and moves
  behind the element.\<close>

theorem CBS_get_asn1_exact:
  assumes "cbs_ok s"
  shows "(\<exists>out s'. CBS_get_asn1 s tag = Ok out s' \<and> cbs_bytes out = contents \<and> cbs_bytes s' = rest) \<longleftrightarrow>
    length contents < 2 ^ 32 \<and> cbs_bytes s = der_element tag contents @ rest"
  by (rule CBS_get_asn1_reads [OF assms])

theorem CBS_get_asn1_exact_witness:
  "\<exists>out s'. CBS_get_asn1 octets_ab 4 = Ok out s' \<and> cbs_bytes out = [0xAA, 0xBB] \<and> cbs_bytes s' = [0x05]"
  using CBS_get_asn1_exact [OF octets_ab_ok, of 4 "[0xAA, 0xBB]" "[0x05]"] by (simp add: octets_ab_bytes der_octets_ab)

text \<open>(C19) The BER mode of the reader extends DER conservatively: it reports an element without BER-only forms
  exactly when the DER mode accepts, with the same element, tag and header length.\<close>

theorem ber_extends_der:
  assumes "cbs_ok s"
  shows "CBS_get_any_ber_asn1_element s = Ok (out, tag, hl, False) s' \<longleftrightarrow>
    CBS_get_any_asn1_element s = Ok (out, tag, hl) s'"
proof -
  have "CBS_get_any_asn1_element s = Ok (out, tag, hl) s' \<longleftrightarrow>
      cbs_get_any_asn1_element s False = Ok (out, tag, hl, False) s'"
    using element_der_strict [OF assms] by (fastforce simp: CBS_get_any_asn1_element_def)
  then show ?thesis
    using element_iff [OF assms, of True] element_iff [OF assms, of False]
    by (simp add: CBS_get_any_ber_asn1_element_def)
qed

theorem ber_extends_der_witness:
  "CBS_get_any_ber_asn1_element octets_ab =
     Ok (cbs_take octets_ab 4, 4, 2, False) (cbs_drop octets_ab 4)"
proof -
  have "length (der_element 4 [0xAA, 0xBB]) = 4" and "length (der_header 4 (length [0xAA, 0xBB :: byte])) = 2"
    by (simp_all add: der_octets_ab der_header_def der_tag_def der_len_def tag_number_def)
  then have "CBS_get_any_asn1_element octets_ab = Ok (cbs_take octets_ab 4, 4, 2) (cbs_drop octets_ab 4)"
    using any_element_der [OF octets_ab_ok der_at_octets_ab] by (simp only: of_nat_numeral)
  then show ?thesis using ber_extends_der [OF octets_ab_ok] by blast
qed

text \<open>(C12) The integer readers accept exactly the minimal two's complement encodings of the numbers they can
  represent: \<open>CBS_get_asn1_uint64\<close> those of \<open>uint64_t\<close>, \<open>CBS_get_asn1_int64\<close> those of \<open>int64_t\<close>.\<close>

theorem asn1_integers_exact:
  assumes "cbs_ok s"
  shows "(CBS_get_asn1_uint64 s = Ok u s' \<longleftrightarrow>
      der_at s CBS_ASN1_INTEGER (int_bytes (uint u)) \<and> s' = after_element s CBS_ASN1_INTEGER (int_bytes (uint u))) \<and>
    (CBS_get_asn1_int64 s = Ok i s' \<longleftrightarrow>
      der_at s CBS_ASN1_INTEGER (int_bytes (sint i)) \<and> s' = after_element s CBS_ASN1_INTEGER (int_bytes (sint i)))"
  using CBS_get_asn1_uint64_iff [OF assms] CBS_get_asn1_int64_iff [OF assms] by blast

definition minus_two :: CBS where
  "minus_two = CBS_init [0x02, 0x01, 0xFE] 3"

lemma minus_two_ok: "cbs_ok minus_two" and minus_two_bytes: "cbs_bytes minus_two = [0x02, 0x01, 0xFE]"
  by (simp_all add: cbs_ok_def cbs_bytes_def minus_two_def CBS_init_def)

theorem asn1_integers_exact_witness: "\<exists>s'. CBS_get_asn1_int64 minus_two = Ok (- 2) s'"
proof -
  have "int_bytes (- 2) = [0xFE]" by (subst int_bytes.simps) simp
  moreover have "der_element 2 [0xFE] = [0x02, 0x01, 0xFE]"
    by (simp add: der_element_def der_header_def der_tag_def der_len_def tag_number_def tag_class_def)
  moreover have "sint (- 2 :: u64) = - 2" by simp
  ultimately have "der_at minus_two CBS_ASN1_INTEGER (int_bytes (sint (- 2 :: u64)))"
    by (simp add: der_at_def minus_two_bytes)
  then show ?thesis using asn1_integers_exact [OF minus_two_ok] by blast
qed

text \<open>An \<open>OPTIONAL\<close> integer: when the tag is not in front the default is returned and nothing is consumed;
  otherwise the reader accepts exactly an element with that tag that holds one \<open>INTEGER\<close> and nothing else.\<close>

theorem optional_uint64_exact:
  assumes "cbs_ok s"
  shows "CBS_get_optional_asn1_uint64 s tag d = Ok v s' \<longleftrightarrow>
    (if tag_ahead s tag
     then (let c = der_element CBS_ASN1_INTEGER (int_bytes (uint v))
           in der_at s tag c \<and> s' = after_element s tag c)
     else v = d \<and> s' = s)"
  by (rule CBS_get_optional_asn1_uint64_iff [OF assms])

theorem optional_uint64_exact_witness:
  "CBS_get_optional_asn1_uint64 octets_ab 0xA0000000 7 = Ok 7 octets_ab"
proof -
  have "der_tag 0xA0000000 = [0xA0]" by (simp add: der_tag_def tag_number_def tag_class_def)
  then have "\<not> tag_ahead octets_ab 0xA0000000" by (simp add: tag_ahead_def octets_ab_bytes)
  then show ?thesis using optional_uint64_exact [OF octets_ab_ok] by simp
qed

text \<open>Bits of a \<open>BIT STRING\<close>: \<open>CBS_asn1_bitstring_has_bit\<close> finds exactly the set bits among those that the
  string declares to be used, although it only compares whole bytes.\<close>

theorem bitstring_has_bit_exact:
  assumes "cbs_ok s" and "bitstring_ok (cbs_bytes s)"
  shows "CBS_is_valid_asn1_bitstring s = Ok () s \<and>
    CBS_asn1_bitstring_has_bit s k =
      Ok (unat k < 8 * (length (cbs_bytes s) - 1) - unat (hd (cbs_bytes s)) \<and>
          bit (cbs_bytes s ! (unat k div 8 + 1)) (7 - unat k mod 8)) s"
  using CBS_asn1_bitstring_has_bit_eq [OF assms] CBS_is_valid_asn1_bitstring_eq [OF assms(1)] assms(2) by simp

definition bits_a0 :: CBS where
  "bits_a0 = CBS_init [0x05, 0xA0] 2"

lemma bits_a0_ok: "cbs_ok bits_a0" and bits_a0_bytes: "cbs_bytes bits_a0 = [0x05, 0xA0]"
  by (simp_all add: cbs_ok_def cbs_bytes_def bits_a0_def CBS_init_def)

theorem bitstring_has_bit_exact_witness:
  "CBS_asn1_bitstring_has_bit bits_a0 2 = Ok True bits_a0 \<and> CBS_asn1_bitstring_has_bit bits_a0 3 = Ok False bits_a0"
proof -
  have "\<forall>i<5. \<not> bit (0xA0 :: byte) i" by (simp add: numeral_eq_Suc less_Suc_eq bit_0 bit_Suc)
  then have "bitstring_ok (cbs_bytes bits_a0)" by (simp add: bitstring_ok_def bits_a0_bytes)
  then show ?thesis
    using bitstring_has_bit_exact [OF bits_a0_ok, of 2] bitstring_has_bit_exact [OF bits_a0_ok, of 3]
    by (simp add: bits_a0_bytes)
qed

section \<open>The builder\<close>

text \<open>A builder with nothing written, over an empty growable buffer.\<close>

definition fresh_cbb :: CBB where
  "fresh_cbb = CBB_zero\<lparr>base := Some \<lparr>buf = [], buf_len = 0, cap = 0, can_resize = True, error = False\<rparr>\<rparr>"

lemma fresh_cbb_rel: "builder_rel fresh_cbb ([], [])"
  by (simp add: fresh_cbb_def CBB_zero_def builder_rel_def buf_ok_def bytes_of_def)

text \<open>(C2) Refinement: for every allocator, the builder simulates the abstract builder, in which a flush closes the open children below a
  position and puts their length prefix in front of their contents.  \<open>CBB_flush\<close>, \<open>CBB_add_bytes\<close>, \<open>CBB_add_zeros\<close>, the integers of every
  width and byte order, the three length prefixes, \<open>CBB_add_asn1\<close> and the ASN.1 integers, octet strings and booleans never write
  outside the buffer; each succeeds with a state that represents the abstract result, or it fails because there is no such
  result (a length that does not fit its prefix, a 24-bit integer that is too large) or no room for it, and then the builder is dead.
  \<open>CBB_add_space\<close> does the same with bytes that are not specified.  \<open>CBB_reserve\<close> flushes and makes room without writing;
  \<open>CBB_did_write\<close> appends what the caller wrote there, and refuses, changing nothing, while a child is open or when the capacity is
  exceeded; \<open>CBB_discard_child\<close> takes back the open children and their contents.\<close>

theorem cbb_refines_builder:
  assumes "alloc_ok alloc" and "builder_rel cbb st" and "d \<le> length (snd st)"
  shows "refines alloc cbb (CBB_flush alloc cbb d) (abs_flush d st) \<and>
    (unat n \<le> length data \<longrightarrow>
      refines alloc cbb (CBB_add_bytes alloc cbb d data n) (abs_put d (take (unat n) data) st)) \<and>
    refines alloc cbb (CBB_add_zeros alloc cbb d n) (abs_put d (replicate (unat n) 0) st) \<and>
    (\<exists>bs. length bs = unat n \<and> refines alloc cbb (CBB_add_space alloc cbb d n) (abs_put d bs st)) \<and>
    (case CBB_reserve alloc cbb d n of
       Fault \<Rightarrow> False
     | Fail cbb' \<Rightarrow> dead cbb' \<and> (\<forall>st'. abs_flush d st = Some st' \<longrightarrow> \<not> cbb_room alloc cbb (abs_size st' + unat n))
     | Ok p cbb' \<Rightarrow> \<exists>st'. abs_flush d st = Some st' \<and> builder_rel cbb' st' \<and> p = abs_size st' \<and> p + unat n \<le> cbb_cap cbb') \<and>
    (if d < length (snd st) \<or> cbb_cap cbb < abs_size st + unat n then CBB_did_write cbb d n = Fail cbb
     else \<exists>cbb' bs. CBB_did_write cbb d n = Ok () cbb' \<and> length bs = unat n \<and> builder_rel cbb' (abs_append bs st)) \<and>
    refines alloc cbb (CBB_add_u8 alloc cbb d b) (abs_put d [b] st) \<and>
    refines alloc cbb (CBB_add_u16 alloc cbb d v2) (abs_put d (be_bytes 2 (unat v2)) st) \<and>
    refines alloc cbb (CBB_add_u24 alloc cbb d v) (if unat v < 2 ^ 24 then abs_put d (be_bytes 3 (unat v)) st else None) \<and>
    refines alloc cbb (CBB_add_u32 alloc cbb d v) (abs_put d (be_bytes 4 (unat v)) st) \<and>
    refines alloc cbb (CBB_add_u64 alloc cbb d v8) (abs_put d (be_bytes 8 (unat v8)) st) \<and>
    refines alloc cbb (CBB_add_u16le alloc cbb d v2) (abs_put d (le_bytes 2 (unat v2)) st) \<and>
    refines alloc cbb (CBB_add_u32le alloc cbb d v) (abs_put d (le_bytes 4 (unat v)) st) \<and>
    refines alloc cbb (CBB_add_u64le alloc cbb d v8) (abs_put d (le_bytes 8 (unat v8)) st) \<and>
    refines alloc cbb (CBB_add_u8_length_prefixed alloc cbb d) (abs_child d [] (Len_prefix 1) st) \<and>
    refines alloc cbb (CBB_add_u16_length_prefixed alloc cbb d) (abs_child d [] (Len_prefix 2) st) \<and>
    refines alloc cbb (CBB_add_u24_length_prefixed alloc cbb d) (abs_child d [] (Len_prefix 3) st) \<and>
    (\<exists>cbb'. CBB_discard_child cbb d = Ok () cbb' \<and> builder_rel cbb' (abs_discard d st)) \<and>
    refines alloc cbb (CBB_add_asn1 alloc cbb d tag) (abs_child d (der_tag tag) Asn1_prefix st) \<and>
    refines alloc cbb (CBB_add_asn1_uint64 alloc cbb d v8) (abs_put d (der_element CBS_ASN1_INTEGER (int_bytes (uint v8))) st) \<and>
    refines alloc cbb (CBB_add_asn1_int64 alloc cbb d v8) (abs_put d (der_element CBS_ASN1_INTEGER (int_bytes (sint v8))) st) \<and>
    (unat n \<le> length data \<and> unat n \<le> 0xFFFFFFFE \<longrightarrow>
      refines alloc cbb (CBB_add_asn1_octet_string alloc cbb d data n) (abs_put d (der_element CBS_ASN1_OCTETSTRING (take (unat n) data)) st)) \<and>
    refines alloc cbb (CBB_add_asn1_bool alloc cbb d i) (abs_put d (der_element CBS_ASN1_BOOLEAN [if i \<noteq> 0 then 0xFF else 0]) st)"
  by (intro conjI impI CBB_flush_refines CBB_add_bytes_refines CBB_add_zeros_refines CBB_add_space_refines CBB_reserve_spec CBB_did_write_spec
      CBB_add_u8_refines CBB_add_u_refines CBB_add_ule_refines length_prefixes_refine CBB_discard_child_spec CBB_add_asn1_refines
      CBB_add_asn1_uint64_refines CBB_add_asn1_int64_refines CBB_add_asn1_octet_string_refines CBB_add_asn1_bool_refines assms) (use assms in auto)

theorem cbb_refines_builder_witness:
  "refines zero_alloc fresh_cbb (CBB_add_u8 zero_alloc fresh_cbb 0 7) (Some ([7], []))"
  using cbb_refines_builder [OF zero_alloc_ok fresh_cbb_rel, of 0, where b = 7] by (simp add: abs_put_def)

text \<open>(C18) An error is final for every operation that flushes first: once a builder is dead, \<open>CBB_flush\<close>, \<open>CBB_finish\<close>, \<open>CBB_reserve\<close>,
  \<open>CBB_flush_asn1_set_of\<close> and all the \<open>CBB_add\<close> functions fail on each of its objects.  Of the operations that report success, only \<open>CBB_did_write\<close>, which does
  not look at the error flag, can succeed on a dead builder, although \<^verbatim>\<open>bytestring.h\<close> says of the flag that all future operations will fail.\<close>

theorem dead_builder_fails:
  assumes "dead cbb"
  shows "\<not> is_ok (CBB_flush alloc cbb d) \<and> \<not> is_ok (CBB_add_bytes alloc cbb d data n) \<and> \<not> is_ok (CBB_add_zeros alloc cbb d n) \<and>
    \<not> is_ok (CBB_add_space alloc cbb d n) \<and> \<not> is_ok (CBB_reserve alloc cbb d n) \<and>
    \<not> is_ok (CBB_add_u8 alloc cbb d b) \<and> \<not> is_ok (CBB_add_u16 alloc cbb d v2) \<and> \<not> is_ok (CBB_add_u16le alloc cbb d v2) \<and>
    \<not> is_ok (CBB_add_u24 alloc cbb d v4) \<and> \<not> is_ok (CBB_add_u32 alloc cbb d v4) \<and> \<not> is_ok (CBB_add_u32le alloc cbb d v4) \<and>
    \<not> is_ok (CBB_add_u64 alloc cbb d v) \<and> \<not> is_ok (CBB_add_u64le alloc cbb d v) \<and>
    \<not> is_ok (CBB_add_u8_length_prefixed alloc cbb d) \<and> \<not> is_ok (CBB_add_u16_length_prefixed alloc cbb d) \<and>
    \<not> is_ok (CBB_add_u24_length_prefixed alloc cbb d) \<and>
    \<not> is_ok (CBB_add_asn1 alloc cbb d tag) \<and> \<not> is_ok (CBB_add_asn1_uint64 alloc cbb d v) \<and> \<not> is_ok (CBB_add_asn1_int64 alloc cbb d v) \<and>
    \<not> is_ok (CBB_add_asn1_octet_string alloc cbb d data n) \<and> \<not> is_ok (CBB_add_asn1_bool alloc cbb d i) \<and>
    \<not> is_ok (CBB_add_asn1_oid_from_text alloc cbb d data n) \<and>
    \<not> is_ok (CBB_flush_asn1_set_of alloc cbb d) \<and> \<not> is_ok (CBB_finish alloc cbb d out_given) \<and>
    (\<exists>dead_cbb. dead dead_cbb \<and> is_ok (CBB_did_write dead_cbb 0 0))"
proof -
  obtain b' where b': "base cbb = Some b'" "error b'" using assms by (auto simp: dead_def)
  have "\<exists>s. flush_children alloc b' fs = Fail s" for fs using b'(2) by (cases fs) auto
  then obtain s0 where "flush_children alloc b' (drop (Suc d) (chain cbb)) = Fail s0" by blast
  with b' obtain s where s: "CBB_flush alloc cbb d = Fail s"
    by (cases "length (chain cbb) \<le> d") (auto simp: CBB_flush_def Let_def)
  have u: "cbb_add_u alloc cbb d w k = Fail s" "cbb_add_length_prefixed alloc cbb d k' = Fail s" "CBB_add_asn1 alloc cbb d tag = Fail s"
    for w k k' tag using s by (simp_all add: cbb_add_u_def cbb_add_length_prefixed_def CBB_add_asn1_def)
  let ?c = "CBB_zero\<lparr>base := Some \<lparr>buf = [], buf_len = 0, cap = 0, can_resize = False, error = True\<rparr>\<rparr>"
  have "dead ?c \<and> is_ok (CBB_did_write ?c 0 0)" by (simp add: dead_def CBB_did_write_def CBB_zero_def)
  then have w: "\<exists>dead_cbb. dead dead_cbb \<and> is_ok (CBB_did_write dead_cbb 0 0)" by blast
  note ints = CBB_add_u8_def CBB_add_u16_def CBB_add_u16le_def CBB_add_u24_def CBB_add_u32_def CBB_add_u32le_def CBB_add_u64_def CBB_add_u64le_def
    CBB_add_u8_length_prefixed_def CBB_add_u16_length_prefixed_def CBB_add_u24_length_prefixed_def
  note asn1 = CBB_add_asn1_int64_def CBB_add_asn1_uint64_def CBB_add_asn1_octet_string_def CBB_add_asn1_bool_def CBB_add_asn1_oid_from_text_def
  show ?thesis
    using s u w by (simp add: CBB_add_bytes_def CBB_add_zeros_def CBB_add_space_def CBB_reserve_def CBB_flush_asn1_set_of_def CBB_finish_def
        Let_def ints asn1)
qed

theorem dead_builder_fails_witness:
  "\<not> is_ok (CBB_add_u8 zero_alloc
      (CBB_zero\<lparr>base := Some \<lparr>buf = [], buf_len = 0, cap = 0, can_resize = False, error = True\<rparr>\<rparr>) 0 1)"
proof -
  have "dead (CBB_zero\<lparr>base := Some \<lparr>buf = [], buf_len = 0, cap = 0, can_resize = False, error = True\<rparr>\<rparr>)"
    by (simp add: dead_def)
  from dead_builder_fails [OF this, of zero_alloc 0] show ?thesis by blast
qed

section \<open>Builder and reader together\<close>

lemma finished_reader:
  assumes "unat n \<le> length m" and "take (unat n) m = bs"
  shows "cbs_ok (CBS_init m n)" and "cbs_bytes (CBS_init m n) = bs"
  using assms by (simp_all add: cbs_ok_def cbs_bytes_def CBS_init_def)

text \<open>(C3) Round trip of elements: an element built with \<open>CBB_add_asn1\<close> and \<open>CBB_add_bytes\<close> is, byte for byte, the
  DER encoding, and \<open>CBS_get_asn1\<close> reads the contents back and nothing is left over.\<close>

theorem asn1_element_roundtrip:
  assumes "alloc_ok alloc" and "alloc_total alloc" and "length contents \<le> 0xFFFFFFFE"
  shows "\<exists>m n cbb out s.
    obind (CBB_init alloc cap0) (\<lambda>_ cbb0.
      obind (CBB_add_asn1 alloc cbb0 0 tag) (\<lambda>_ cbb1.
      obind (CBB_add_bytes alloc cbb1 1 contents (of_nat (length contents))) (\<lambda>_ cbb2.
        CBB_finish alloc cbb2 0 True))) = Ok (m, n) cbb \<and>
    take (unat n) m = der_element tag contents \<and>
    CBS_get_asn1 (CBS_init m n) tag = Ok out s \<and> cbs_bytes out = contents \<and> cbs_bytes s = []"
proof -
  let ?n = "of_nat (length contents) :: size_t"
  have len: "unat ?n = length contents" using assms(3) by (intro unat_of_nat_less) simp
  have lt: "length (der_element tag contents) < 2 ^ 64"
    using length_der_header [of "length contents" tag] assms(3) by (simp add: length_der_element)
  have closed: "close_all (fst (der_tag tag, [(Asn1_prefix, contents)])) (snd (der_tag tag, [(Asn1_prefix, contents)]))
      = Some (der_element tag contents)"
    using assms(3) by (simp add: der_element_def der_header_def)
  have ref: "refines alloc cbb (obind (CBB_add_asn1 alloc cbb 0 tag) (\<lambda>_ cbb1. CBB_add_bytes alloc cbb1 1 contents ?n))
      (Some (der_tag tag, [(Asn1_prefix, contents)]))" if "builder_rel cbb ([], [])" for cbb
  proof -
    have child: "abs_child 0 (der_tag tag) Asn1_prefix ([], []) = Some (der_tag tag, [(Asn1_prefix, [])])"
      by (simp add: abs_child_def abs_open_def)
    have "refines alloc cbb (obind (CBB_add_asn1 alloc cbb 0 tag) (\<lambda>_ cbb1. CBB_add_bytes alloc cbb1 1 contents ?n))
        (Option.bind (abs_child 0 (der_tag tag) Asn1_prefix ([], [])) (\<lambda>s. abs_put 1 contents s))"
      using that by (intro refines_bind [OF CBB_add_asn1_refines [OF assms(1)]])
        (auto simp: child abs_put_def len dest: CBB_add_bytes_refines [OF assms(1), of _ _ 1 ?n contents, unfolded len, simplified])
    then show ?thesis by (simp add: child abs_put_def)
  qed
  obtain m n cbb where "obind (CBB_init alloc cap0) (\<lambda>_ cbb0. obind (obind (CBB_add_asn1 alloc cbb0 0 tag) (\<lambda>_ cbb1.
      CBB_add_bytes alloc cbb1 1 contents ?n)) (\<lambda>_ cbb2. CBB_finish alloc cbb2 0 True)) = Ok (m, n) cbb"
    and m: "unat n \<le> length m" "take (unat n) m = der_element tag contents"
    using build_and_finish [OF assms(1,2) lt ref closed] by blast
  moreover from finished_reader [OF m] have "\<exists>out s. CBS_get_asn1 (CBS_init m n) tag = Ok out s \<and>
      cbs_bytes out = contents \<and> cbs_bytes s = []"
    using assms(3) by (subst CBS_get_asn1_reads) auto
  ultimately show ?thesis using m by (auto simp: obind_assoc)
qed

theorem asn1_element_roundtrip_witness:
  "\<exists>m n cbb out s.
    obind (CBB_init zero_alloc 2) (\<lambda>_ cbb0.
      obind (CBB_add_asn1 zero_alloc cbb0 0 4) (\<lambda>_ cbb1.
      obind (CBB_add_bytes zero_alloc cbb1 1 [0xAA, 0xBB] (of_nat (length [0xAA, 0xBB :: byte]))) (\<lambda>_ cbb2.
        CBB_finish zero_alloc cbb2 0 True))) = Ok (m, n) cbb \<and>
    take (unat n) m = der_element 4 [0xAA, 0xBB] \<and>
    CBS_get_asn1 (CBS_init m n) 4 = Ok out s \<and> cbs_bytes out = [0xAA, 0xBB] \<and> cbs_bytes s = []"
  by (rule asn1_element_roundtrip [OF zero_alloc_ok zero_alloc_total]) simp

text \<open>What one writer leaves in a finished builder is read back by any reader that is exact for its bytes.\<close>

lemma write_and_finish:
  assumes "alloc_ok alloc" "alloc_total alloc" "length bs < 2 ^ 64"
    and "\<And>cbb. builder_rel cbb ([], []) \<Longrightarrow> refines alloc cbb (body cbb) (abs_put 0 bs ([], []))"
  obtains m n cbb where
    "obind (CBB_init alloc cap0) (\<lambda>_ cbb. obind (body cbb) (\<lambda>_ cbb'. CBB_finish alloc cbb' 0 True)) = Ok (m, n) cbb"
    and "cbs_ok (CBS_init m n)" and "cbs_bytes (CBS_init m n) = bs"
proof -
  have "abs_put 0 bs ([], []) = Some (bs, [])" by (simp add: abs_put_def)
  with assms(4) have "refines alloc cbb (body cbb) (Some (bs, []))" if "builder_rel cbb ([], [])" for cbb
    using that by simp
  from build_and_finish [OF assms(1-3) this] finished_reader that show ?thesis by (metis close_all.simps(1) fst_conv snd_conv)
qed

text \<open>(C13) Round trip of integers: the encoding that \<open>CBB_add_asn1_int64\<close> builds for any \<open>int64_t\<close> is read back as that
  number by \<open>CBS_get_asn1_int64\<close>, and the one of \<open>CBB_add_asn1_uint64\<close> by \<open>CBS_get_asn1_uint64\<close>, with nothing left
  over.\<close>

theorem asn1_integer_roundtrip:
  assumes "alloc_ok alloc" and "alloc_total alloc"
  shows "(\<exists>m n cbb s.
      obind (CBB_init alloc cap0) (\<lambda>_ cbb0. obind (CBB_add_asn1_int64 alloc cbb0 0 i) (\<lambda>_ cbb1.
        CBB_finish alloc cbb1 0 True)) = Ok (m, n) cbb \<and>
      CBS_get_asn1_int64 (CBS_init m n) = Ok i s \<and> cbs_bytes s = []) \<and>
    (\<exists>m n cbb s.
      obind (CBB_init alloc cap0) (\<lambda>_ cbb0. obind (CBB_add_asn1_uint64 alloc cbb0 0 u) (\<lambda>_ cbb1.
        CBB_finish alloc cbb1 0 True)) = Ok (m, n) cbb \<and>
      CBS_get_asn1_uint64 (CBS_init m n) = Ok u s \<and> cbs_bytes s = [])"
proof -
  have here: "der_at s CBS_ASN1_INTEGER (int_bytes x) \<and> cbs_bytes (after_element s CBS_ASN1_INTEGER (int_bytes x)) = []"
    if "cbs_ok s" "cbs_bytes s = der_element CBS_ASN1_INTEGER (int_bytes x)" "length (int_bytes x) < 2 ^ 32" for s x
  proof -
    have at: "der_at s CBS_ASN1_INTEGER (int_bytes x)" using that by (simp add: der_at_def)
    with contents_reader [OF that(1) at] that(2) show ?thesis by simp
  qed
  have small: "length (int_bytes x) < 2 ^ 32" if "- (2 ^ 63) \<le> x" "x < 2 ^ 64" for x
    using int_bytes_length [of 8 x] that by simp
  have "- (2 ^ 63) \<le> sint i \<and> sint i < 2 ^ 64" using sint_range_size [of i] by (simp add: word_size)
  moreover have "- (2 ^ 63) \<le> uint u \<and> uint u < 2 ^ 64" using uint_bounded [of u] order_trans [of _ 0 "uint u"] by simp
  ultimately have len: "length (int_bytes (sint i)) < 2 ^ 32" "length (int_bytes (uint u)) < 2 ^ 32"
    using small by blast+
  have elen: "length (der_element CBS_ASN1_INTEGER c) < 2 ^ 64" if "length c < 2 ^ 32" for c
    using length_der_header [of "length c" CBS_ASN1_INTEGER] that by (simp add: length_der_element)
  obtain m n cbb where 
     1: "obind (CBB_init alloc cap0) (\<lambda>_ cbb0. obind (CBB_add_asn1_int64 alloc cbb0 0 i) (\<lambda>_ cbb1.
        CBB_finish alloc cbb1 0 True)) = Ok (m, n) cbb" "cbs_ok (CBS_init m n)" 
     "cbs_bytes (CBS_init m n) = der_element CBS_ASN1_INTEGER (int_bytes (sint i))"
    by (rule write_and_finish [OF assms elen [OF len(1)] CBB_add_asn1_int64_refines [OF assms(1), of _ "([], [])" 0]]) simp_all
  obtain m' n' cbb' where 
     2: "obind (CBB_init alloc cap0) (\<lambda>_ cbb0. obind (CBB_add_asn1_uint64 alloc cbb0 0 u) (\<lambda>_ cbb1.
        CBB_finish alloc cbb1 0 True)) = Ok (m', n') cbb'" "cbs_ok (CBS_init m' n')" 
     "cbs_bytes (CBS_init m' n') = der_element CBS_ASN1_INTEGER (int_bytes (uint u))"
    by (rule write_and_finish [OF assms elen [OF len(2)] CBB_add_asn1_uint64_refines [OF assms(1), of _ "([], [])" 0]]) simp_all
  show ?thesis
    using 1(1) CBS_get_asn1_int64_iff [OF 1(2)] here [OF 1(2,3) len(1)]
      2(1) CBS_get_asn1_uint64_iff [OF 2(2)] here [OF 2(2,3) len(2)] by blast
qed

theorem asn1_integer_roundtrip_witness:
  "\<exists>m n cbb s.
      obind (CBB_init zero_alloc 0) (\<lambda>_ cbb0. obind (CBB_add_asn1_int64 zero_alloc cbb0 0 (- 129)) (\<lambda>_ cbb1.
        CBB_finish zero_alloc cbb1 0 True)) = Ok (m, n) cbb \<and>
      CBS_get_asn1_int64 (CBS_init m n) = Ok (- 129) s \<and> cbs_bytes s = []"
  using asn1_integer_roundtrip [OF zero_alloc_ok zero_alloc_total] by blast

section \<open>Text\<close>

text \<open>(C20) UTF-8: \<open>cbs_get_utf8\<close> accepts exactly the shortest encoding of a code point that is no surrogate and no
  noncharacter, and consumes it; so overlong forms, surrogates and truncated sequences are refused.\<close>

theorem utf8_reader_exact:
  assumes "cbs_ok s"
  shows "cbs_get_utf8 s = Ok u s' \<longleftrightarrow>
    is_valid_code_point u \<and> (\<exists>rest. cbs_bytes s = utf8 (unat u) @ rest) \<and> s' = cbs_drop s (length (utf8 (unat u)))"
  by (rule cbs_get_utf8_iff [OF assms])

definition euro_sign :: CBS where
  "euro_sign = CBS_init [0xE2, 0x82, 0xAC, 0x21] 4"

lemma euro_sign_ok: "cbs_ok euro_sign" and euro_sign_bytes: "cbs_bytes euro_sign = [0xE2, 0x82, 0xAC, 0x21]"
  by (simp_all add: cbs_ok_def cbs_bytes_def euro_sign_def CBS_init_def)

theorem utf8_reader_exact_witness: "cbs_get_utf8 euro_sign = Ok 0x20AC (cbs_drop euro_sign 3)"
proof -
  have "utf8 (unat (0x20AC :: u32)) = [0xE2, 0x82, 0xAC]" by (simp add: utf8_def)
  moreover have "is_valid_code_point 0x20AC" by (simp add: is_valid_code_point_def)
  ultimately show ?thesis using utf8_reader_exact [OF euro_sign_ok] by (simp add: euro_sign_bytes eval_nat_numeral)
qed

text \<open>Round trip of UTF-8: \<open>cbb_add_utf8\<close> refuses exactly the code points that \<open>cbs_get_utf8\<close> never returns, and what
  it writes for the others is read back.\<close>

theorem utf8_roundtrip:
  assumes "alloc_ok alloc" and "alloc_total alloc"
  shows "if is_valid_code_point u
    then \<exists>m n cbb s.
      obind (CBB_init alloc cap0) (\<lambda>_ cbb0. obind (cbb_add_utf8 alloc cbb0 0 u) (\<lambda>_ cbb1.
        CBB_finish alloc cbb1 0 True)) = Ok (m, n) cbb \<and>
      cbs_get_utf8 (CBS_init m n) = Ok u s \<and> cbs_bytes s = []
    else \<not> is_ok (cbb_add_utf8 alloc cbb1 d u)"
proof (cases "is_valid_code_point u")
  case False
  then show ?thesis by (simp add: cbb_add_utf8_def)
next
  case True
  have len: "length (utf8 (unat u)) < 2 ^ 64" by (simp add: utf8_def)
  obtain m n cbb where 
     1: "obind (CBB_init alloc cap0) (\<lambda>_ cbb0. obind (cbb_add_utf8 alloc cbb0 0 u) (\<lambda>_ cbb1.
        CBB_finish alloc cbb1 0 True)) = Ok (m, n) cbb" "cbs_ok (CBS_init m n)" 
     "cbs_bytes (CBS_init m n) = utf8 (unat u)"
    by (rule write_and_finish [OF assms len cbb_add_utf8_refines [OF assms(1) _ _ True, of _ "([], [])" 0]]) simp_all
  then show ?thesis using True cbs_get_utf8_iff [OF 1(2)] cbs_bytes_drop  by auto
qed

theorem utf8_roundtrip_witness:
  "\<exists>m n cbb s.
      obind (CBB_init zero_alloc 0) (\<lambda>_ cbb0. obind (cbb_add_utf8 zero_alloc cbb0 0 0x20AC) (\<lambda>_ cbb1.
        CBB_finish zero_alloc cbb1 0 True)) = Ok (m, n) cbb \<and>
      cbs_get_utf8 (CBS_init m n) = Ok 0x20AC s \<and> cbs_bytes s = []"
proof -
  have "is_valid_code_point 0x20AC" by (simp add: is_valid_code_point_def)
  then show ?thesis using utf8_roundtrip [OF zero_alloc_ok zero_alloc_total, of "0x20AC" 0] by simp
qed

end
