(* ===== verification/Stack.thy ===== *)
theory Stack
  imports Prelude "HOL-Library.Monad_Syntax"
begin

text \<open>
  BoringSSL's generic stack (\<^verbatim>\<open>crypto/stack/stack.c\<close>), the growable pointer array behind every \<open>STACK_OF(T)\<close>.

  A pointer is an \<open>'a option\<close>: \<open>None\<close> is \<open>NULL\<close>, \<open>Some a\<close> the address \<open>a\<close>.  A stack argument is an option too, because
  most functions accept \<open>NULL\<close>.  The comparison function of a stack is a name \<open>'f\<close> (a function pointer), and
  \<open>call_cmp_func\<close> the caller's function that applies it to two elements; the functions that copy and free
  elements are parameters as well, and the calls that free elements are recorded in order.  \<open>alloc n\<close> is the array of
  (uninitialised) pointers in \<open>n\<close> fresh bytes, or \<open>None\<close>.  A result \<open>None\<close> is an access outside of the array,
  a dereferenced \<open>NULL\<close> or a failed assertion.
\<close>

unbundle bit_operations_syntax

type_synonym 'a ptr = "'a option"
type_synonym 'a ptr_alloc = "size_t \<Rightarrow> 'a ptr list option"

record ('f, 'a) stack_st =
  num :: size_t
  data :: "'a ptr list"
  sorted_flag :: bool
  num_alloc :: size_t
  comp :: "'f option"

text \<open>\<open>sizeof(void *)\<close> is 8 and \<open>sizeof(_STACK)\<close> 40 on the 64-bit platforms of the program.\<close>

definition kMinSize :: size_t where
  "kMinSize = 4"

definition sk_new :: "'a ptr_alloc \<Rightarrow> 'f option \<Rightarrow> ('f, 'a) stack_st option" where
  "sk_new alloc cmp =
     (case alloc 40 of
        None \<Rightarrow> None
      | Some _ \<Rightarrow>
          (case alloc (8 * kMinSize) of
             None \<Rightarrow> None
           | Some _ \<Rightarrow> Some \<lparr>num = 0, data = replicate (unat kMinSize) None, sorted_flag = False,
                            num_alloc = kMinSize, comp = cmp\<rparr>))"

definition sk_new_null :: "'a ptr_alloc \<Rightarrow> ('f, 'a) stack_st option" where
  "sk_new_null alloc = sk_new alloc None"

definition sk_num :: "('f, 'a) stack_st option \<Rightarrow> size_t" where
  "sk_num sk = (case sk of None \<Rightarrow> 0 | Some s \<Rightarrow> num s)"

definition sk_zero :: "('f, 'a) stack_st option \<Rightarrow> ('f, 'a) stack_st option option" where
  "sk_zero sk =
     (case sk of
        None \<Rightarrow> Some None
      | Some s \<Rightarrow>
          if num s = 0 then Some (Some s)
          else do {
            data' \<leftarrow> mem_write (data s) 0 (replicate (unat (num s)) None);
            Some (Some (s\<lparr>data := data', num := 0, sorted_flag := False\<rparr>))
          })"

definition sk_value :: "('f, 'a) stack_st option \<Rightarrow> size_t \<Rightarrow> 'a ptr option" where
  "sk_value sk i =
     (case sk of
        None \<Rightarrow> Some None
      | Some s \<Rightarrow> if i \<ge> num s then Some None else mem_at (data s) (unat i))"

definition sk_set :: "('f, 'a) stack_st option \<Rightarrow> size_t \<Rightarrow> 'a ptr \<Rightarrow> ('a ptr \<times> ('f, 'a) stack_st option) option" where
  "sk_set sk i v =
     (case sk of
        None \<Rightarrow> Some (None, None)
      | Some s \<Rightarrow>
          if i \<ge> num s then Some (None, Some s)
          else do { data' \<leftarrow> mem_put (data s) (unat i) v; Some (v, Some (s\<lparr>data := data'\<rparr>)) })"

text \<open>\<open>sk_pop_free_ex\<close>: the pointers passed to the free function, in order.\<close>

fun free_elements :: "'a ptr list \<Rightarrow> nat \<Rightarrow> 'a list option" where
  "free_elements ps 0 = Some []"
| "free_elements [] (Suc n) = None"
| "free_elements (p # ps) (Suc n) =
     do { freed \<leftarrow> free_elements ps n; Some (case p of None \<Rightarrow> freed | Some a \<Rightarrow> a # freed) }"

definition sk_pop_free_ex :: "('f, 'a) stack_st option \<Rightarrow> 'a list option" where
  "sk_pop_free_ex sk = (case sk of None \<Rightarrow> Some [] | Some s \<Rightarrow> free_elements (data s) (unat (num s)))"

text \<open>Growing the array: double it, or add one when doubling overflows.  The result is the new array and its size, or
  \<open>None\<close> when there is no memory.\<close>

definition grow :: "'a ptr_alloc \<Rightarrow> ('f, 'a) stack_st \<Rightarrow> ('f, 'a) stack_st option" where
  "grow alloc s =
     (let new_alloc = push_bit 1 (num_alloc s);
          alloc_size = new_alloc * 8;
          (new_alloc, alloc_size) =
            (if new_alloc < num_alloc s \<or> alloc_size div 8 \<noteq> new_alloc
             then (num_alloc s + 1, (num_alloc s + 1) * 8) else (new_alloc, alloc_size))
      in if new_alloc < num_alloc s \<or> alloc_size div 8 \<noteq> new_alloc then None
         else (case alloc alloc_size of
                 None \<Rightarrow> None
               | Some fresh \<Rightarrow>
                   Some (s\<lparr>data := take (unat new_alloc) (data s) @ drop (length (data s)) fresh,
                           num_alloc := new_alloc\<rparr>)))"

definition sk_insert :: "'a ptr_alloc \<Rightarrow> ('f, 'a) stack_st option \<Rightarrow> 'a ptr \<Rightarrow> size_t \<Rightarrow>
    (size_t \<times> ('f, 'a) stack_st option) option" where
  "sk_insert alloc sk p pos =
     (case sk of
        None \<Rightarrow> Some (0, None)
      | Some s \<Rightarrow>
          (case (if num_alloc s \<le> num s + 1 then grow alloc s else Some s) of
             None \<Rightarrow> Some (0, Some s)
           | Some s1 \<Rightarrow> do {
               data' \<leftarrow> (if pos \<ge> num s1 then mem_put (data s1) (unat (num s1)) p
                         else do {
                           moved \<leftarrow> mem_move (data s1) (unat (pos + 1)) (unat pos) (unat (num s1 - pos));
                           mem_put moved (unat pos) p
                         });
               Some (num s1 + 1, Some (s1\<lparr>data := data', num := num s1 + 1, sorted_flag := False\<rparr>))
             }))"

definition sk_delete :: "('f, 'a) stack_st option \<Rightarrow> size_t \<Rightarrow> ('a ptr \<times> ('f, 'a) stack_st option) option" where
  "sk_delete sk pos =
     (case sk of
        None \<Rightarrow> Some (None, None)
      | Some s \<Rightarrow>
          if pos \<ge> num s then Some (None, Some s)
          else do {
            ret \<leftarrow> mem_at (data s) (unat pos);
            data' \<leftarrow> (if pos \<noteq> num s - 1
                      then mem_move (data s) (unat pos) (unat (pos + 1)) (unat (num s - pos - 1))
                      else Some (data s));
            Some (ret, Some (s\<lparr>data := data', num := num s - 1\<rparr>))
          })"

text \<open>The first index below \<open>n\<close> at which a test holds, from index \<open>i\<close> on.\<close>

fun first_index :: "('b \<Rightarrow> bool) \<Rightarrow> 'b list \<Rightarrow> nat \<Rightarrow> nat \<Rightarrow> nat option option" where
  "first_index P ps i 0 = Some None"
| "first_index P ps i (Suc n) =
     do { e \<leftarrow> mem_at ps i; if P e then Some (Some i) else first_index P ps (Suc i) n }"

definition sk_delete_ptr :: "('f, 'a) stack_st option \<Rightarrow> 'a ptr \<Rightarrow> ('a ptr \<times> ('f, 'a) stack_st option) option" where
  "sk_delete_ptr sk p =
     (case sk of
        None \<Rightarrow> Some (None, None)
      | Some s \<Rightarrow> do {
          r \<leftarrow> first_index (\<lambda>e. e = p) (data s) 0 (unat (num s));
          (case r of None \<Rightarrow> Some (None, Some s) | Some i \<Rightarrow> sk_delete sk (of_nat i))
        })"

definition sk_is_sorted :: "('f, 'a) stack_st option \<Rightarrow> bool" where
  "sk_is_sorted sk = (case sk of None \<Rightarrow> True | Some s \<Rightarrow> sorted_flag s)"

text \<open>The binary search of \<open>sk_find\<close>; \<open>cmp e\<close> compares the wanted element with \<open>e\<close>.\<close>

function binary_search :: "('b \<Rightarrow> int) \<Rightarrow> 'b list \<Rightarrow> size_t \<Rightarrow> size_t \<Rightarrow> size_t option option" where
  "binary_search cmp ps lo hi =
     (if lo < hi
      then let mid = lo + (hi - lo - 1) div 2 in
        if \<not> (lo \<le> mid \<and> mid < hi) then None
        else (case mem_at ps (unat mid) of
                None \<Rightarrow> None
              | Some e \<Rightarrow>
                  if cmp e > 0 then binary_search cmp ps (mid + 1) hi
                  else if cmp e < 0 then binary_search cmp ps lo mid
                  else if hi - lo = 1 then Some (Some mid)
                  else if \<not> mid + 1 < hi then None
                  else binary_search cmp ps lo (mid + 1))
      else if lo = hi then Some None else None)"
  by pat_completeness auto
termination
proof (relation "measure (\<lambda>(cmp, ps, lo, hi). unat hi - unat lo)")
  have inc: "unat (mid + 1) = unat mid + 1" if "mid < hi" for mid hi :: size_t
    using that unat_lt_2p [of hi] by (intro trans [OF unat_add_no_overflow]) (auto simp: word_less_nat_alt)
  show "((cmp, ps, mid + 1, hi), (cmp, ps, lo, hi)) \<in> measure (\<lambda>(cmp, ps, lo, hi). unat hi - unat lo)"
    if "\<not> \<not> (lo \<le> mid \<and> mid < hi)" for cmp and ps :: "'b list" and mid lo hi :: size_t
    using that inc [of mid hi] by (auto simp: word_less_nat_alt word_le_nat_alt)
  show "((cmp, ps, lo, mid), (cmp, ps, lo, hi)) \<in> measure (\<lambda>(cmp, ps, lo, hi). unat hi - unat lo)"
    if "\<not> \<not> (lo \<le> mid \<and> mid < hi)" for cmp and ps :: "'b list" and mid lo hi :: size_t
    using that by (auto simp: word_less_nat_alt word_le_nat_alt)
  show "((cmp, ps, lo, mid + 1), (cmp, ps, lo, hi)) \<in> measure (\<lambda>(cmp, ps, lo, hi). unat hi - unat lo)"
    if "\<not> \<not> (lo \<le> mid \<and> mid < hi)" "\<not> \<not> mid + 1 < hi" for cmp and ps :: "'b list" and mid lo hi :: size_t
    using that inc [of mid hi] by (auto simp: word_less_nat_alt word_le_nat_alt)
qed simp

declare binary_search.simps [simp del]

definition sk_find :: "('f \<Rightarrow> 'a ptr \<Rightarrow> 'a ptr \<Rightarrow> int) \<Rightarrow> ('f, 'a) stack_st option \<Rightarrow> 'a ptr \<Rightarrow> size_t option option" where
  "sk_find call_cmp_func sk p =
     (case sk of
        None \<Rightarrow> Some None
      | Some s \<Rightarrow>
          (case comp s of
             None \<Rightarrow> map_option (map_option of_nat) (first_index (\<lambda>e. e = p) (data s) 0 (unat (num s)))
           | Some f \<Rightarrow>
               if p = None then Some None
               else if \<not> sk_is_sorted sk
               then map_option (map_option of_nat)
                 (first_index (\<lambda>e. call_cmp_func f p e = 0) (data s) 0 (unat (num s)))
               else binary_search (call_cmp_func f p) (data s) 0 (num s)))"

definition sk_shift :: "('f, 'a) stack_st option \<Rightarrow> ('a ptr \<times> ('f, 'a) stack_st option) option" where
  "sk_shift sk =
     (case sk of
        None \<Rightarrow> Some (None, None)
      | Some s \<Rightarrow> if num s = 0 then Some (None, Some s) else sk_delete sk 0)"

definition sk_push :: "'a ptr_alloc \<Rightarrow> ('f, 'a) stack_st option \<Rightarrow> 'a ptr \<Rightarrow> (size_t \<times> ('f, 'a) stack_st option) option" where
  "sk_push alloc sk p = (case sk of None \<Rightarrow> None | Some s \<Rightarrow> sk_insert alloc sk p (num s))"

definition sk_pop :: "('f, 'a) stack_st option \<Rightarrow> ('a ptr \<times> ('f, 'a) stack_st option) option" where
  "sk_pop sk =
     (case sk of
        None \<Rightarrow> Some (None, None)
      | Some s \<Rightarrow> if num s = 0 then Some (None, Some s) else sk_delete sk (num s - 1))"

text \<open>\<open>sk_dup\<close>: the result of the C function is \<open>NULL\<close> (\<open>Some None\<close>) or the copy.\<close>

definition sk_dup :: "'a ptr_alloc \<Rightarrow> ('f, 'a) stack_st option \<Rightarrow> ('f, 'a) stack_st option option" where
  "sk_dup alloc sk =
     (case sk of
        None \<Rightarrow> Some None
      | Some s \<Rightarrow>
          (case alloc 40 of
             None \<Rightarrow> Some None
           | Some _ \<Rightarrow>
               (case alloc (8 * num_alloc s) of
                  None \<Rightarrow> Some None
                | Some fresh \<Rightarrow> do {
                    ps \<leftarrow> mem_range (data s) (unat (num s));
                    data' \<leftarrow> mem_write fresh 0 ps;
                    Some (Some \<lparr>num = num s, data = data', sorted_flag = sorted_flag s,
                      num_alloc = num_alloc s, comp = comp s\<rparr>)
                  })))"

text \<open>\<open>qsort\<close> with the comparison \<open>cmp\<close>: an insertion sort.\<close>

fun insert_by :: "('b \<Rightarrow> 'b \<Rightarrow> int) \<Rightarrow> 'b \<Rightarrow> 'b list \<Rightarrow> 'b list" where
  "insert_by cmp x [] = [x]"
| "insert_by cmp x (y # ys) = (if cmp x y \<le> 0 then x # y # ys else y # insert_by cmp x ys)"

fun qsort :: "('b \<Rightarrow> 'b \<Rightarrow> int) \<Rightarrow> 'b list \<Rightarrow> 'b list" where
  "qsort cmp [] = []"
| "qsort cmp (x # xs) = insert_by cmp x (qsort cmp xs)"

definition sk_sort :: "('f \<Rightarrow> 'a ptr \<Rightarrow> 'a ptr \<Rightarrow> int) \<Rightarrow> ('f, 'a) stack_st option \<Rightarrow> ('f, 'a) stack_st option option" where
  "sk_sort call_cmp_func sk =
     (case sk of
        None \<Rightarrow> Some None
      | Some s \<Rightarrow>
          (case comp s of
             None \<Rightarrow> Some (Some s)
           | Some f \<Rightarrow>
               if sorted_flag s then Some (Some s)
               else do {
                 data' \<leftarrow> (if num s \<ge> 2
                           then do {
                             ps \<leftarrow> mem_range (data s) (unat (num s));
                             mem_write (data s) 0 (qsort (call_cmp_func f) ps)
                           }
                           else Some (data s));
                 Some (Some (s\<lparr>data := data', sorted_flag := True\<rparr>))
               }))"

definition sk_set_cmp_func :: "('f, 'a) stack_st \<Rightarrow> 'f option \<Rightarrow> 'f option \<times> ('f, 'a) stack_st" where
  "sk_set_cmp_func s cmp =
     (let s1 = (if comp s \<noteq> cmp then s\<lparr>sorted_flag := False\<rparr> else s) in (comp s, s1\<lparr>comp := cmp\<rparr>))"

text \<open>The loop of \<open>sk_deep_copy\<close> over the array of the duplicate, from index \<open>i\<close> on.  The copy function may keep a
  state; on failure the copies made so far are freed and recorded.  The flag tells whether all were copied.\<close>

fun copy_elements :: "('s \<Rightarrow> 'a \<Rightarrow> 'a ptr \<times> 's) \<Rightarrow> 's \<Rightarrow> 'a ptr list \<Rightarrow> nat \<Rightarrow> nat \<Rightarrow>
    (bool \<times> 'a ptr list \<times> 'a list \<times> 's) option" where
  "copy_elements copy st ps i 0 = Some (True, ps, [], st)"
| "copy_elements copy st ps i (Suc n) = do {
     e \<leftarrow> mem_at ps i;
     (case e of
        None \<Rightarrow> copy_elements copy st ps (Suc i) n
      | Some a \<Rightarrow> do {
          let (r, st') = copy st a;
          ps' \<leftarrow> mem_put ps i r;
          (case r of
             None \<Rightarrow> do { freed \<leftarrow> free_elements ps' i; Some (False, ps', freed, st') }
           | Some _ \<Rightarrow> copy_elements copy st' ps' (Suc i) n)
        })
   }"

definition sk_deep_copy :: "'a ptr_alloc \<Rightarrow> ('s \<Rightarrow> 'a \<Rightarrow> 'a ptr \<times> 's) \<Rightarrow> 's \<Rightarrow> ('f, 'a) stack_st option \<Rightarrow>
    (('f, 'a) stack_st option \<times> 'a list \<times> 's) option" where
  "sk_deep_copy alloc copy st sk = do {
     dup \<leftarrow> sk_dup alloc sk;
     (case dup of
        None \<Rightarrow> Some (None, [], st)
      | Some s \<Rightarrow> do {
          (ok, ps, freed, st') \<leftarrow> copy_elements copy st (data s) 0 (unat (num s));
          Some (if ok then (Some (s\<lparr>data := ps\<rparr>), freed, st') else (None, freed, st'))
        })
   }"

end
