(* ===== verification/ThreeWay.thy ===== *)
theory ThreeWay
  imports Stack "HOL-Library.Multiset"
begin

text \<open>
  Three-way comparison functions, the interface between the containers and the \<open>cmp\<close> functions of their callers:
  a negative, zero or positive result for smaller, equivalent and greater.  The laws are those that \<open>qsort\<close> and
  \<open>bsearch\<close> ask for; under them sorting sorts and the binary search of \<open>sk_find\<close> returns the first match.
\<close>

locale three_way =
  fixes cmp :: "'b \<Rightarrow> 'b \<Rightarrow> int"
  assumes swap: "cmp x y > 0 \<longleftrightarrow> cmp y x < 0"
    and trans_le: "cmp x y \<le> 0 \<Longrightarrow> cmp y z \<le> 0 \<Longrightarrow> cmp x z \<le> 0"
begin

lemma refl_cmp: "cmp x x = 0"
  using swap [of x x] by linarith

lemma linear: "cmp x y \<le> 0 \<or> cmp y x \<le> 0"
  using swap [of x y] by linarith

lemma zero_swap: "cmp x y = 0 \<longleftrightarrow> cmp y x = 0"
  using swap [of x y] swap [of y x] by linarith

lemma less_trans: "cmp x y < 0 \<Longrightarrow> cmp y z \<le> 0 \<Longrightarrow> cmp x z < 0"
  using swap [of z x] swap [of y x] trans_le [of y z x] by linarith

lemma greater_trans: "cmp x z > 0 \<Longrightarrow> cmp y z \<le> 0 \<Longrightarrow> cmp x y > 0"
  using trans_le [of x y z] by linarith

abbreviation ascending :: "'b list \<Rightarrow> bool" where
  "ascending \<equiv> sorted_wrt (\<lambda>x y. cmp x y \<le> 0)"

lemma set_insert_by: "set (insert_by cmp x xs) = insert x (set xs)"
  by (induction xs) auto

lemma insert_by_ascending: "ascending xs \<Longrightarrow> ascending (insert_by cmp x xs)"
proof (induction xs)
  case (Cons y ys)
  show ?case
  proof (cases "cmp x y \<le> 0")
    case True
    then show ?thesis using Cons.prems by (auto intro: trans_le)
  next
    case False
    then have "cmp y x \<le> 0" using linear by blast
    then show ?thesis using Cons False by (auto simp: set_insert_by)
  qed
qed simp

lemma mset_insert_by: "mset (insert_by cmp x xs) = add_mset x (mset xs)"
  by (induction xs) auto

lemma qsort_ascending: "ascending (qsort cmp xs)"
  by (induction xs) (auto intro: insert_by_ascending)

lemma mset_qsort: "mset (qsort cmp xs) = mset xs"
  by (induction xs) (simp_all add: mset_insert_by)

end

section \<open>Searching\<close>

text \<open>The contract of a search among the first \<open>n\<close> cells: the first index at which the test holds.\<close>

definition is_first :: "(nat \<Rightarrow> bool) \<Rightarrow> nat \<Rightarrow> nat option \<Rightarrow> bool" where
  "is_first P n r \<longleftrightarrow>
     (case r of
        None \<Rightarrow> \<forall>i<n. \<not> P i
      | Some i \<Rightarrow> i < n \<and> P i \<and> (\<forall>j<i. \<not> P j))"

lemma first_index_spec:
  assumes "i + n \<le> length ps" and "\<forall>j<i. \<not> P (ps ! j)"
  shows "\<exists>r. first_index P ps i n = Some r \<and> is_first (\<lambda>j. P (ps ! j)) (i + n) r"
  using assms
proof (induction n arbitrary: i)
  case (Suc n)
  have at: "mem_at ps i = Some (ps ! i)" using Suc.prems(1) by (simp add: mem_at_def)
  show ?case
  proof (cases "P (ps ! i)")
    case True
    then show ?thesis using at Suc.prems by (auto simp: is_first_def)
  next
    case False
    then have "\<forall>j<Suc i. \<not> P (ps ! j)" using Suc.prems(2) by (auto simp: less_Suc_eq)
    then show ?thesis using Suc.IH [of "Suc i"] Suc.prems(1) False at by simp
  qed
qed (simp add: is_first_def)

lemma mid_bounds:
  fixes lo hi :: size_t
  assumes "lo < hi"
  shows "unat (lo + (hi - lo - 1) div 2) = unat lo + (unat hi - unat lo - 1) div 2"
    and "lo \<le> lo + (hi - lo - 1) div 2" and "lo + (hi - lo - 1) div 2 < hi"
    and "unat (lo + (hi - lo - 1) div 2 + 1) = unat lo + (unat hi - unat lo - 1) div 2 + 1"
proof -
  have lt: "unat lo < unat hi" "unat hi < 2 ^ 64" using assms unat_lt_2p [of hi] by (simp_all add: word_less_nat_alt)
  have d: "unat (hi - lo) = unat hi - unat lo" using assms by (intro unat_sub_le) simp
  then have "unat (hi - lo - 1) = unat hi - unat lo - 1"
    using lt by (subst unat_sub_le) (simp_all add: word_le_nat_alt)
  then have h: "unat ((hi - lo - 1) div 2) = (unat hi - unat lo - 1) div 2" by (simp add: unat_div)
  show m: "unat (lo + (hi - lo - 1) div 2) = unat lo + (unat hi - unat lo - 1) div 2"
    using lt by (subst unat_add_no_overflow) (simp_all add: h)
  show "lo \<le> lo + (hi - lo - 1) div 2" "lo + (hi - lo - 1) div 2 < hi"
    unfolding word_le_nat_alt word_less_nat_alt m using lt by simp_all
  show "unat (lo + (hi - lo - 1) div 2 + 1) = unat lo + (unat hi - unat lo - 1) div 2 + 1"
    using lt by (subst unat_add_no_overflow) (simp_all add: m)
qed

context three_way
begin

lemma ascending_nth: "ascending xs \<Longrightarrow> i \<le> j \<Longrightarrow> j < length xs \<Longrightarrow> cmp (xs ! i) (xs ! j) \<le> 0"
  by (cases "i = j") (auto simp: refl_cmp sorted_wrt_iff_nth_less)

lemma binary_search_spec:
  assumes "ascending (take n ps)" and "n \<le> length ps" and "unat lo \<le> unat hi" and "unat hi \<le> n"
    and "\<forall>i<unat lo. cmp x (ps ! i) > 0"
    and "(\<forall>i. unat hi \<le> i \<and> i < n \<longrightarrow> cmp x (ps ! i) < 0) \<or> unat lo < unat hi \<and> cmp x (ps ! (unat hi - 1)) = 0"
  shows "\<exists>r. binary_search (cmp x) ps lo hi = Some r \<and> is_first (\<lambda>i. cmp x (ps ! i) = 0) n (map_option unat r)"
  using assms
proof (induction "unat hi - unat lo" arbitrary: lo hi rule: less_induct)
  case less
  have le: "cmp (ps ! i) (ps ! j) \<le> 0" if "i \<le> j" "j < n" for i j
    using ascending_nth [OF less.prems(1) that(1)] that less.prems(2) by simp
  show ?case
  proof (cases "lo < hi")
    case False
    then have "lo = hi" "unat lo = unat hi" using less.prems(3) by (simp_all add: word_less_nat_alt word_unat_eq_iff)
    moreover have "cmp x (ps ! i) \<noteq> 0" if "i < n" for i
    proof (cases "i < unat lo")
      case True
      then show ?thesis using less.prems(5) by fastforce
    next
      case False
      then have "cmp x (ps ! i) < 0" using less.prems(6) \<open>unat lo = unat hi\<close> that by auto
      then show ?thesis by simp
    qed
    ultimately show ?thesis by (subst binary_search.simps) (simp add: is_first_def)
  next
    case True
    let ?mid = "lo + (hi - lo - 1) div 2"
    note m = mid_bounds [OF True]
    define k where "k = unat ?mid"
    have k: "unat lo \<le> k" "k < unat hi" "unat (?mid + 1) = k + 1"
      using m True unfolding k_def by (simp_all add: word_le_nat_alt word_less_nat_alt)
    have last: "k + 1 = unat hi \<longleftrightarrow> unat hi - unat lo = 1"
    proof -
      obtain d where d: "unat hi = unat lo + Suc d" using k(1,2) less_iff_Suc_add [of "unat lo" "unat hi"] by auto
      then have "k = unat lo + d div 2" using m(1) by (simp add: k_def)
      with d show ?thesis by auto
    qed
    have at: "mem_at ps (unat ?mid) = Some (ps ! k)" using k less.prems(2,4) by (simp add: mem_at_def k_def)
    consider "cmp x (ps ! k) > 0" | "cmp x (ps ! k) < 0" | "cmp x (ps ! k) = 0" "unat hi - unat lo = 1"
      | "cmp x (ps ! k) = 0" "unat hi - unat lo \<noteq> 1" by linarith
    then show ?thesis
    proof cases
      case 1
      have "cmp x (ps ! i) > 0" if "i < k + 1" for i using greater_trans [OF 1 le [of i k]] that k less.prems(4) by simp
      moreover have "(\<forall>i. unat hi \<le> i \<and> i < n \<longrightarrow> cmp x (ps ! i) < 0) \<or>
          k + 1 < unat hi \<and> cmp x (ps ! (unat hi - 1)) = 0"
      proof (cases "k + 1 = unat hi")
        case True
        then have "cmp x (ps ! (unat hi - 1)) > 0" using 1 by (metis add_diff_cancel_right')
        then show ?thesis using less.prems(6) by auto
      next
        case False
        then show ?thesis using less.prems(6) k by auto
      qed
      moreover have "unat hi - (k + 1) < unat hi - unat lo" using k by linarith
      moreover have "binary_search (cmp x) ps lo hi = binary_search (cmp x) ps (?mid + 1) hi"
        using True m at 1 by (subst binary_search.simps) (simp add: Let_def)
      ultimately show ?thesis
        using less.hyps [of hi "?mid + 1"] less.prems k by (simp add: k(3))
    next
      case 2
      have "cmp x (ps ! i) < 0" if "k \<le> i" "i < n" for i using less_trans [OF 2 le [of k i]] that by simp
      moreover have "binary_search (cmp x) ps lo hi = binary_search (cmp x) ps lo ?mid"
        using True m at 2 by (subst binary_search.simps) (simp add: Let_def)
      ultimately show ?thesis
        using less.hyps [of ?mid lo] less.prems k by (simp add: k_def [symmetric])
    next
      case 3
      then have "hi - lo = 1" using True by (simp add: word_unat_eq_iff unat_sub_le)
      then have "binary_search (cmp x) ps lo hi = Some (Some ?mid)"
        using True m at 3 by (subst binary_search.simps) (simp add: Let_def)
      moreover have "k = unat lo" using 3 k by linarith
      ultimately show ?thesis using 3 less.prems(4,5) k by (force simp: is_first_def k_def [symmetric])
    next
      case 4
      then have "hi - lo \<noteq> 1" using True by (auto simp: word_unat_eq_iff unat_sub_le)
      moreover have "?mid + 1 < hi" using 4 k last by (simp add: word_less_nat_alt k(3))
      ultimately have "binary_search (cmp x) ps lo hi = binary_search (cmp x) ps lo (?mid + 1)"
        using True m at 4 by (subst binary_search.simps) (simp add: Let_def)
      moreover have "k + 1 - unat lo < unat hi - unat lo" using k last 4 by linarith
      ultimately show ?thesis
        using less.hyps [of "?mid + 1" lo] less.prems k 4 by (simp add: k(3))
    qed
  qed
qed

end

end
