(* ===== verification/SetOf.thy ===== *)
theory SetOf
  imports BytestringProps ThreeWay
begin

text \<open>
  \<open>CBB_flush_asn1_set_of\<close>: the children of an open SET OF are put into the order of X.690, section 11.6.  The
  comparison function that the code gives to \<open>qsort\<close> is a provider of the \<open>three_way\<close> interface.
\<close>

section \<open>The order of elements\<close>

definition element_order :: "byte list \<Rightarrow> byte list \<Rightarrow> int" where
  "element_order xs ys =
     (let n = min (length xs) (length ys); r = memcmp_list (take n xs) (take n ys) in
      if r \<noteq> 0 then r else if length xs = length ys then 0 else if length xs < length ys then - 1 else 1)"

lemma element_order_Nil [simp]:
  "element_order [] [] = 0" "element_order [] (y # ys) = - 1" "element_order (x # xs) [] = 1"
  by (simp_all add: element_order_def)

lemma element_order_Cons [simp]:
  "element_order (x # xs) (y # ys) = (if x < y then - 1 else if y < x then 1 else element_order xs ys)"
  by (simp add: element_order_def Let_def)

lemma compare_set_of_element_eq:
  assumes "cbs_ok a" and "cbs_ok b"
  shows "compare_set_of_element a b = Some (element_order (cbs_bytes a) (cbs_bytes b))"
proof -
  have m: "unat (if cbs_len a < cbs_len b then cbs_len a else cbs_len b) = min (unat (cbs_len a)) (unat (cbs_len b))"
    by (simp add: word_less_nat_alt)
  show ?thesis
    using assms
    by (simp add: compare_set_of_element_def CBS_len_def CBS_data_def Let_def m mem_range_def element_order_def
        cbs_ok_def cbs_bytes_def word_less_nat_alt word_unat_eq_iff min.commute)
qed

lemma element_order_swap: "element_order xs ys > 0 \<longleftrightarrow> element_order ys xs < 0"
proof (induction xs arbitrary: ys)
  case Nil
  then show ?case by (cases ys) simp_all
next
  case (Cons x xs)
  then show ?case by (cases ys) auto
qed

lemma element_order_trans:
  "element_order xs ys \<le> 0 \<Longrightarrow> element_order ys zs \<le> 0 \<Longrightarrow> element_order xs zs \<le> 0"
proof (induction xs arbitrary: ys zs)
  case Nil
  then show ?case by (cases zs) simp_all
next
  case (Cons x xs)
  then obtain y ys' where y: "ys = y # ys'" by (cases ys) simp_all
  with Cons.prems(2) obtain z zs' where z: "zs = z # zs'" by (cases zs) simp_all
  from Cons.IH [of ys' zs'] Cons.prems show ?case by (auto simp: y z split: if_splits)
qed

interpretation set_of: three_way element_order
  by unfold_locales (auto simp: element_order_swap intro: element_order_trans)

lemma element_order_0: "element_order xs ys = 0 \<longleftrightarrow> xs = ys"
proof (induction xs arbitrary: ys)
  case Nil
  then show ?case by (cases ys) simp_all
next
  case (Cons x xs)
  then show ?case by (cases ys) auto
qed

section \<open>Sorting readers\<close>

lemma insert_element_eq:
  assumes "cbs_ok x" and "\<forall>y\<in>set ys. cbs_ok y"
  shows "\<exists>zs. insert_element x ys = Some zs \<and> set zs = insert x (set ys) \<and>
    map cbs_bytes zs = insert_by element_order (cbs_bytes x) (map cbs_bytes ys)"
  using assms(2)
proof (induction ys)
  case (Cons y ys)
  then show ?case using assms(1) by (auto simp: compare_set_of_element_eq)
qed simp

lemma qsort_elements_eq:
  assumes "\<forall>x\<in>set xs. cbs_ok x"
  obtains ys where "qsort_elements xs = Some ys" and "set ys = set xs"
    and "map cbs_bytes ys = qsort element_order (map cbs_bytes xs)"
proof -
  have "\<exists>ys. qsort_elements xs = Some ys \<and> set ys = set xs \<and> map cbs_bytes ys = qsort element_order (map cbs_bytes xs)"
    using assms
  proof (induction xs)
    case (Cons x xs)
    then obtain ys where ys: "qsort_elements xs = Some ys" "set ys = set xs"
      "map cbs_bytes ys = qsort element_order (map cbs_bytes xs)" by auto
    then show ?case using insert_element_eq [of x ys] Cons.prems by auto
  qed simp
  then show ?thesis using that by blast
qed

section \<open>Sequences of elements\<close>

abbreviation der_encode :: "u32 \<times> byte list \<Rightarrow> byte list" where
  "der_encode \<equiv> case_prod der_element"

definition elements_of :: "byte list \<Rightarrow> (u32 \<times> byte list) list \<Rightarrow> bool" where
  "elements_of bs es \<longleftrightarrow> bs = concat (map der_encode es) \<and> (\<forall>e\<in>set es. length (snd e) < 2 ^ 32)"

lemma elements_of_Nil [simp]: "elements_of bs [] \<longleftrightarrow> bs = []"
  by (simp add: elements_of_def)

lemma der_element_not_Nil [simp]: "der_element tag contents \<noteq> []"
  by (simp add: der_element_def der_header_def der_tag_def)

lemma elements_of_empty [simp]: "elements_of [] es \<longleftrightarrow> es = []"
  by (cases es) (auto simp: elements_of_def)

lemma length_elements: "elements_of bs es \<Longrightarrow> length es \<le> length bs"
proof (induction es arbitrary: bs)
  case (Cons e es)
  have "0 < length (der_encode e)" by (cases e) simp
  moreover have "length es \<le> length (concat (map der_encode es))"
    using Cons.IH [of "concat (map der_encode es)"] Cons.prems by (simp add: elements_of_def)
  ultimately show ?case using Cons.prems by (simp add: elements_of_def Suc_le_eq del: length_greater_0_conv)
qed simp

lemma length_concat_mset: "mset xs = mset ys \<Longrightarrow> length (concat xs) = length (concat ys)"
  unfolding length_concat by (metis mset_map sum_mset_sum_list)

lemma elements_of_Cons:
  assumes "cbs_ok s"
  shows "elements_of (cbs_bytes s) ((tag, contents) # es) \<longleftrightarrow>
    der_at s tag contents \<and> elements_of (cbs_bytes (after_element s tag contents)) es"
proof (cases "der_at s tag contents")
  case True
  then obtain rest where "cbs_bytes s = der_element tag contents @ rest" "length contents < 2 ^ 32"
    by (auto simp: der_at_def)
  then show ?thesis using True contents_reader(4) [OF assms True] by (auto simp: elements_of_def)
qed (auto simp: elements_of_def der_at_def)

lemma count_children_spec:
  assumes "cbs_ok s" and "length (cbs_bytes s) \<le> fuel"
  shows "(\<exists>es s'. elements_of (cbs_bytes s) es \<and> count_children fuel s k = Ok (k + length es) s') \<or>
    (\<forall>es. \<not> elements_of (cbs_bytes s) es) \<and> (\<exists>s'. count_children fuel s k = Fail s')"
  using assms
proof (induction fuel arbitrary: s k)
  case 0
  then have "cbs_bytes s = []" using le_zero_eq length_0_conv by metis
  moreover have "cbs_len s = 0" using length_cbs_bytes [OF 0(1)] \<open>cbs_bytes s = []\<close> by (simp add: unat_eq_zero)
  ultimately show ?case by (auto simp: count_children.simps CBS_len_def)
next
  case (Suc fuel)
  show ?case
  proof (cases "cbs_len s = 0")
    case True
    then have "cbs_bytes s = []" by (simp add: cbs_bytes_def)
    then show ?thesis using True by (auto simp: count_children.simps CBS_len_def)
  next
    case False
    from any_element_cases [OF Suc.prems(1)] show ?thesis
    proof cases
      case (1 tag contents)
      let ?s = "after_element s tag contents"
      have "length (cbs_bytes ?s) < length (cbs_bytes s)"
        using contents_reader(4) [OF Suc.prems(1) 1] 1 by (auto simp: der_at_def)
      then have le: "length (cbs_bytes ?s) \<le> fuel" using Suc.prems(2) by linarith
      have IH: "(\<exists>es s'. elements_of (cbs_bytes ?s) es \<and> count_children fuel ?s (k + 1) = Ok (k + 1 + length es) s') \<or>
          (\<forall>es. \<not> elements_of (cbs_bytes ?s) es) \<and> (\<exists>s'. count_children fuel ?s (k + 1) = Fail s')"
        by (rule Suc.IH [OF contents_reader(3) [OF Suc.prems(1) 1] le])
      have step: "count_children (Suc fuel) s k = count_children fuel ?s (k + 1)"
        using False any_element_der [OF Suc.prems(1) 1] by (subst count_children.simps) (simp add: CBS_len_def)
      from IH show ?thesis
      proof (elim disjE exE conjE)
        fix es s' assume "elements_of (cbs_bytes ?s) es" "count_children fuel ?s (k + 1) = Ok (k + 1 + length es) s'"
        then have "elements_of (cbs_bytes s) ((tag, contents) # es)"
          "count_children (Suc fuel) s k = Ok (k + length ((tag, contents) # es)) s'"
          using 1 step by (simp_all add: elements_of_Cons [OF Suc.prems(1)])
        then show ?thesis by blast
      next
        fix s' assume no: "\<forall>es. \<not> elements_of (cbs_bytes ?s) es" "count_children fuel ?s (k + 1) = Fail s'"
        have "\<not> elements_of (cbs_bytes s) es" for es
        proof (cases es)
          case Nil
          then show ?thesis using 1 by (auto simp: der_at_def)
        next
          case (Cons e es')
          then show ?thesis
            using no(1) der_at_unique [OF Suc.prems(1) 1]
            by (cases e) (auto simp: elements_of_Cons [OF Suc.prems(1)])
        qed
        then show ?thesis using no(2) step by simp
      qed
    next
      case 2
      have "\<not> elements_of (cbs_bytes s) es" for es
      proof (cases es)
        case Nil
        then show ?thesis using False length_cbs_bytes [OF Suc.prems(1)] by (auto simp: unat_eq_zero)
      next
        case (Cons e es')
        then show ?thesis using 2(1) by (cases e) (auto simp: elements_of_Cons [OF Suc.prems(1)])
      qed
      then show ?thesis using 2(2) False by (subst count_children.simps) (simp add: CBS_len_def)
    qed
  qed
qed

lemma get_children_spec:
  assumes "cbs_ok s" and "elements_of (cbs_bytes s) es"
  shows "\<exists>cs s'. get_children s (length es) = Ok cs s' \<and> map cbs_bytes cs = map der_encode es \<and> (\<forall>c\<in>set cs. cbs_ok c)"
  using assms
proof (induction es arbitrary: s)
  case (Cons e es)
  obtain tag contents where e: "e = (tag, contents)" by (cases e)
  with Cons.prems have at: "der_at s tag contents" and rest: "elements_of (cbs_bytes (after_element s tag contents)) es"
    by (simp_all add: elements_of_Cons)
  from Cons.IH [OF contents_reader(3) [OF Cons.prems(1) at] rest] obtain cs s' where
    cs: "get_children (after_element s tag contents) (length es) = Ok cs s'" "map cbs_bytes cs = map der_encode es"
      "\<forall>c\<in>set cs. cbs_ok c" by blast
  let ?c = "cbs_take s (length (der_element tag contents))"
  obtain r where "cbs_bytes s = der_element tag contents @ r" using at by (auto simp: der_at_def)
  then have "cbs_ok ?c" "cbs_bytes ?c = der_element tag contents"
    using Cons.prems(1) cbs_ok_take [OF Cons.prems(1)] cbs_bytes_take [OF Cons.prems(1)] by simp_all
  then show ?case using cs any_element_der [OF Cons.prems(1) at] by (simp add: e)
qed simp

section \<open>The innermost open segment\<close>

fun top_bytes :: "builder \<Rightarrow> byte list" where
  "top_bytes (c, []) = c"
| "top_bytes (c, (k, c') # segs) = top_bytes (c', segs)"

fun with_top :: "byte list \<Rightarrow> builder \<Rightarrow> builder" where
  "with_top xs (c, []) = (xs, [])"
| "with_top xs (c, (k, c') # segs) = (case with_top xs (c', segs) of (c'', segs') \<Rightarrow> (c, (k, c'') # segs'))"

lemma with_top_length [simp]: "length (snd (with_top xs st)) = length (snd st)"
  by (induction xs st rule: with_top.induct) (auto split: prod.splits)

lemma with_top_top [simp]: "with_top (top_bytes st) st = st"
  by (induction st rule: top_bytes.induct) auto

lemma top_with_top [simp]: "top_bytes (with_top xs st) = xs"
  by (induction xs st rule: with_top.induct) (auto split: prod.splits)

lemma append_with_top: "abs_append ys (with_top xs st) = with_top (xs @ ys) st"
  by (induction xs st rule: with_top.induct) (auto split: prod.splits)

lemma with_top_size: "abs_size (with_top xs st) + length (top_bytes st) = abs_size st + length xs"
  by (induction xs st rule: with_top.induct) (auto split: prod.splits)

lemma layout_top:
  assumes "layout bs p c fs segs"
  shows "\<exists>pre. bs = pre @ top_bytes (c, segs) \<and>
    (\<forall>ys. layout (pre @ ys) p (fst (with_top ys (c, segs))) fs (snd (with_top ys (c, segs)))) \<and>
    (if fs = [] then pre = [] else unat (offset (last fs)) + unat (pending_len_len (last fs)) = p + length pre)"
  using assms
proof (induction bs p c fs segs rule: layout.induct)
  case (2 bs p c f fs k c' segs)
  then obtain ph bs' where f: "frame_kind f k" "unat (offset f) = p + length c" "bs = c @ ph @ bs'"
    "length ph = prefix_space k" and lay: "layout bs' (p + length c + prefix_space k) c' fs segs" by auto
  from 2(1) [OF lay] obtain pre where pre: "bs' = pre @ top_bytes (c', segs)"
    "\<forall>ys. layout (pre @ ys) (p + length c + prefix_space k) (fst (with_top ys (c', segs))) fs (snd (with_top ys (c', segs)))"
    "if fs = [] then pre = []
     else unat (offset (last fs)) + unat (pending_len_len (last fs)) = p + length c + prefix_space k + length pre" by blast
  have "layout ((c @ ph @ pre) @ ys) p (fst (with_top ys (c, (k, c') # segs))) (f # fs) (snd (with_top ys (c, (k, c') # segs)))"
    for ys
    using spec [OF pre(2), of ys] f(1,2,4) by (cases "with_top ys (c', segs)") auto
  moreover have "unat (offset (last (f # fs))) + unat (pending_len_len (last (f # fs))) = p + length (c @ ph @ pre)"
    using pre(3) f frame_space [OF f(1)] by (auto split: if_splits)
  ultimately show ?case using pre(1) f(3) by (intro exI [of _ "c @ ph @ pre"]) simp
qed auto

text \<open>What \<open>CBB_data\<close> and \<open>CBB_len\<close> return for the innermost child, and the effect of \<open>rewind\<close>.\<close>

lemma innermost:
  assumes "builder_rel cbb st" and "length (snd st) = d"
  obtains data where "CBB_data cbb d = Some data" and "CBB_len cbb d = Some (of_nat (length (top_bytes st)))"
    and "length (top_bytes st) < 2 ^ 64" and "length (top_bytes st) \<le> length data" and "take (length (top_bytes st)) data = top_bytes st"
    and "builder_rel (rewind cbb d) (with_top [] st)" and "cbb_room alloc (rewind cbb d) (abs_size st)"
proof -
  obtain c segs where st: "st = (c, segs)" by (cases st)
  obtain b root fs where b: "base cbb = Some b" "buf_ok b" "chain cbb = root # fs"
      "offset root = 0" "pending_len_len root = 0" "\<not> is_child root" and lay: "layout (bytes_of b) 0 c fs segs"
    using assms(1) by (auto simp: builder_rel_def st)
  from layout_top [OF lay] obtain pre where pre: "bytes_of b = pre @ top_bytes st"
      "\<forall>ys. layout (pre @ ys) 0 (fst (with_top ys st)) fs (snd (with_top ys st))"
      "if fs = [] then pre = [] else unat (offset (last fs)) + unat (pending_len_len (last fs)) = length pre"
    by (auto simp: st)
  define f where "f = chain cbb ! d"
  have d: "d = length fs" using layout_length [OF lay] assms(2) by (simp add: st)
  have f: "unat (offset f) + unat (pending_len_len f) = length pre"
    using pre(3) b(3-5) by (auto simp: f_def d last_conv_nth nth_Cons' split: if_splits)
  have len: "unat (buf_len b) = length pre + length (top_bytes st)" "length (bytes_of b) = unat (buf_len b)"
    using length_bytes_of [OF b(2)] pre(1) by simp_all
  have lt: "unat (buf_len b) < 2 ^ 64" using unat_lt_2p [of "buf_len b"] by simp
  have u: "unat (ucast (pending_len_len f) :: size_t) = unat (pending_len_len f)" 
    using byte_unat_less [of "pending_len_len f"]
    by (simp only: ucast_eq_of_nat) (intro trans [OF unat_of_nat_less], simp_all)
  then have start: "unat (offset f + ucast (pending_len_len f)) = length pre"
    using f len lt by (subst unat_add_no_overflow) simp_all
  define start where "start = offset f + ucast (pending_len_len f)"
  have s: "unat start = length pre" using start by (simp add: start_def)
  have blen: "buf_len b - offset f - ucast (pending_len_len f) = of_nat (length (top_bytes st))"
  proof -
    have "buf_len b = of_nat (length pre) + of_nat (length (top_bytes st))" using arg_cong [OF len(1), of "of_nat :: nat \<Rightarrow> size_t"] by simp
    moreover have "start = of_nat (length pre)" using arg_cong [OF s, of "of_nat :: nat \<Rightarrow> size_t"] by simp
    ultimately show ?thesis by (simp add: start_def algebra_simps)
  qed
  have mem: "unat (buf_len b) \<le> length (buf b)" "unat (buf_len b) \<le> unat (cap b)" using b(2) by (auto simp: buf_ok_def)
  have "take (length (top_bytes st)) (drop (length pre) (buf b)) = drop (length pre) (bytes_of b)"
    using len by (simp add: bytes_of_def drop_take)
  then have taken: "take (length (top_bytes st)) (drop (unat start) (buf b)) = top_bytes st" using pre(1) by (simp add: s)
  let ?b = "b\<lparr>buf_len := start\<rparr>"
  have rw: "base (rewind cbb d) = Some ?b" "chain (rewind cbb d) = chain cbb"
    using b(1) by (simp_all add: rewind_def f_def start_def)
  have "buf_ok ?b" using b(2) s len mem by (simp add: buf_ok_def)
  moreover have "bytes_of ?b = pre"
    using pre(1) len mem by (simp add: bytes_of_def s) (metis append_eq_conv_conj min.absorb1 take_take le_add1)
  ultimately have rel: "builder_rel (rewind cbb d) (with_top [] st)"
    using rw b(3-6) spec [OF pre(2), of "[]"] by (simp add: builder_rel_def)
  have "abs_size st = unat (buf_len b)" using layout_size [OF lay] len by (simp add: st)
  then have room: "cbb_room alloc (rewind cbb d) (abs_size st)"
    using rw(1) mem(2) lt by (simp add: cbb_room_def room_def)
  have "Suc d = length (chain cbb)" "start \<le> buf_len b" using s len by (simp_all add: b(3) d word_le_nat_alt)
  then show ?thesis
    using that [of "drop (unat start) (buf b)"] b(1) blen taken rel room len lt mem s
    by (simp add: CBB_data_def CBB_len_def f_def [symmetric] start_def [symmetric])
qed

lemma write_children_refines:
  assumes "alloc_ok alloc" and "builder_rel cbb st" and "length (snd st) = d" and "\<forall>c\<in>set cs. cbs_ok c"
  shows "refines alloc cbb (write_children alloc cbb d cs) (Some (abs_append (concat (map cbs_bytes cs)) st))"
  using assms(2-)
proof (induction cs arbitrary: cbb st)
  case Nil
  have "abs_append [] st = st" by (induction "[] :: byte list" st rule: abs_append.induct) auto
  then show ?case using Nil by (simp add: refines_Ok)
next
  case (Cons c cs)
  have "refines alloc cbb (CBB_add_bytes alloc cbb d (CBS_data c) (CBS_len c)) (Some (abs_append (cbs_bytes c) st))"
    using CBB_add_bytes_refines [OF assms(1) Cons.prems(1), of d "CBS_len c" "CBS_data c"] Cons.prems(2,3)
    by (simp add: abs_put_flushed CBS_len_def CBS_data_def cbs_ok_def cbs_bytes_def)
  moreover have "refines alloc cbb' (write_children alloc cbb' d cs)
      (Some (abs_append (concat (map cbs_bytes cs)) (abs_append (cbs_bytes c) st)))"
    if "builder_rel cbb' (abs_append (cbs_bytes c) st)" for cbb'
    using Cons.IH [OF that] Cons.prems by (simp add: abs_append_length)
  ultimately show ?case by (simp add: refines_append_seq)
qed

section \<open>The whole operation\<close>

definition set_of_sorted :: "byte list \<Rightarrow> byte list \<Rightarrow> bool" where
  "set_of_sorted bs bs' \<longleftrightarrow>
     (\<exists>es ys. elements_of bs es \<and> bs' = concat ys \<and> mset ys = mset (map der_encode es) \<and>
        sorted_wrt (\<lambda>x y. element_order x y \<le> 0) ys)"

lemma rewrite_children:
  assumes "alloc_ok alloc" and "builder_rel cbb st" and "length (snd st) = d"
    and "\<forall>c\<in>set cs. cbs_ok c" and "length (concat (map cbs_bytes cs)) = length (top_bytes st)"
  shows "\<exists>cbb'. write_children alloc (rewind cbb d) d cs = Ok () cbb' \<and>
    builder_rel cbb' (with_top (concat (map cbs_bytes cs)) st) \<and> CBB_len cbb' d = Some (of_nat (length (top_bytes st)))"
proof -
  obtain data where i: "builder_rel (rewind cbb d) (with_top [] st)" "cbb_room alloc (rewind cbb d) (abs_size st)"
    by (rule innermost [OF assms(2,3)])
  have "refines alloc (rewind cbb d) (write_children alloc (rewind cbb d) d cs)
      (Some (with_top (concat (map cbs_bytes cs)) st))"
    using write_children_refines [OF assms(1) i(1) _ assms(4), of d] assms(3) by (simp add: append_with_top)
  moreover have "abs_size (with_top (concat (map cbs_bytes cs)) st) = abs_size st"
    using with_top_size [of "concat (map cbs_bytes cs)" st] assms(5) by simp
  ultimately obtain cbb' where w: "write_children alloc (rewind cbb d) d cs = Ok () cbb'"
      "builder_rel cbb' (with_top (concat (map cbs_bytes cs)) st)"
    using i(2) by (auto simp: refines_def split: outcome.splits)
  obtain data where "CBB_len cbb' d = Some (of_nat (length (top_bytes (with_top (concat (map cbs_bytes cs)) st))))"
    by (rule innermost [OF w(2)]) (use assms(3) in simp_all)
  then show ?thesis using w assms(5) by simp
qed

lemma set_of_core:
  assumes "alloc_ok alloc" and "builder_rel cbb st" and "length (snd st) = d" and "CBB_flush alloc cbb0 d = Ok () cbb"
  shows "CBB_flush_asn1_set_of alloc cbb0 d = Fail cbb \<and>
      ((\<nexists>es. elements_of (top_bytes st) es) \<or> (\<exists>n. alloc n = None) \<or> (2 ^ 64 - 1) div 16 < length (top_bytes st)) \<or>
    (\<exists>cbb' bs. CBB_flush_asn1_set_of alloc cbb0 d = Ok () cbb' \<and> set_of_sorted (top_bytes st) bs \<and>
       builder_rel cbb' (with_top bs st))"
proof -
  let ?n = "length (top_bytes st)"
  obtain data where i: "CBB_data cbb d = Some data" "CBB_len cbb d = Some (of_nat ?n)"
      "?n < 2 ^ 64" "?n \<le> length data" "take ?n data = top_bytes st"
    by (rule innermost [OF assms(2,3)])
  have u: "unat (of_nat ?n :: size_t) = ?n" using i(3) by (simp add: unat_of_nat_less)
  have rd: "cbs_ok (CBS_init m (of_nat ?n))" "cbs_bytes (CBS_init m (of_nat ?n)) = take ?n m" if "?n \<le> length m" for m
    using that by (simp_all add: cbs_ok_def cbs_bytes_def CBS_init_def u)
  note flush = CBB_flush_asn1_set_of_def assms(4) i(1,2) u
  from count_children_spec [OF rd(1) [OF i(4)], of ?n 0]
  consider (ill) s' where "\<forall>es. \<not> elements_of (top_bytes st) es" "count_children ?n (CBS_init data (of_nat ?n)) 0 = Fail s'"
    | (well) es s' where "elements_of (top_bytes st) es" "count_children ?n (CBS_init data (of_nat ?n)) 0 = Ok (length es) s'"
    by (auto simp: rd(2) [OF i(4)] i(5))
  then show ?thesis
  proof cases
    case ill
    then show ?thesis by (simp add: flush)
  next
    case (well es)
    show ?thesis
    proof (cases "length es < 2")
      case True
      then have "sorted_wrt (\<lambda>x y. element_order x y \<le> 0) (map der_encode es)"
        by (cases es rule: remdups_adj.cases) simp_all
      then have "set_of_sorted (top_bytes st) (top_bytes st)" using well(1) unfolding set_of_sorted_def
        by (intro exI [of _ es] exI [of _ "map der_encode es"]) (simp add: elements_of_def)
      then show ?thesis using True well(2) assms(2) by (auto simp: flush intro!: exI [of _ "top_bytes st"])
    next
      case False
      have "length es \<le> ?n"
        using length_elements [OF well(1)] .
      moreover have "?n \<noteq> 0" using False calculation by linarith
      moreover from get_children_spec [OF rd(1), of "top_bytes st" es] well(1) obtain cs s'' where cs:
        "get_children (CBS_init (top_bytes st) (of_nat ?n)) (length es) = Ok cs s''" "map cbs_bytes cs = map der_encode es"
        "\<forall>c\<in>set cs. cbs_ok c" by (auto simp: rd(2))
      moreover obtain ordered where o: "qsort_elements cs = Some ordered" "set ordered = set cs"
        "map cbs_bytes ordered = qsort element_order (map cbs_bytes cs)" by (rule qsort_elements_eq [OF cs(3)])
      have ms: "mset (map cbs_bytes ordered) = mset (map der_encode es)"
        unfolding o(3) set_of.mset_qsort cs(2) ..
      have len: "length (concat (map cbs_bytes ordered)) = ?n"
        using length_concat_mset [OF ms] well(1) by (simp add: elements_of_def)
      have "set_of_sorted (top_bytes st) (concat (map cbs_bytes ordered))"
        using well(1) ms set_of.qsort_ascending [of "map cbs_bytes cs"] unfolding set_of_sorted_def o(3) by blast
      moreover from rewrite_children [OF assms(1-3), of ordered] cs(3) o(2) len obtain cbb' where
        "write_children alloc (rewind cbb d) d ordered = Ok () cbb'"
        "builder_rel cbb' (with_top (concat (map cbs_bytes ordered)) st)" "CBB_len cbb' d = Some (of_nat ?n)" by auto
      ultimately show ?thesis
        using False well(2) i(4,5) o(1)
        by (auto simp: flush OPENSSL_memdup_def mem_range_def split: option.splits)
    qed
  qed
qed

text \<open>(C38) \<open>CBB_flush_asn1_set_of\<close> on every open segment and for every allocator: it first closes the children;
  then, if the segment is a sequence of DER elements, it rewrites it in place as the ascending sequence of the same
  elements, in the order that compares the encodings byte by byte.  It never runs out of room and never touches memory
  outside the buffer.  It fails when flushing fails (the builder is dead then), and with an unchanged segment when that
  is not a sequence of elements or scratch memory cannot be allocated.\<close>

theorem CBB_flush_asn1_set_of_sorts:
  assumes "alloc_ok alloc" and "builder_rel cbb st" and "d \<le> length (snd st)"
  shows "case CBB_flush_asn1_set_of alloc cbb d of
      Fault \<Rightarrow> False
    | Fail cbb' \<Rightarrow>
        dead cbb' \<and> (\<forall>st'. abs_flush d st = Some st' \<longrightarrow> \<not> cbb_room alloc cbb (abs_size st')) \<or>
        (\<exists>st'. abs_flush d st = Some st' \<and> builder_rel cbb' st' \<and>
           ((\<nexists>es. elements_of (top_bytes st') es) \<or> (\<exists>n. alloc n = None) \<or> (2 ^ 64 - 1) div 16 < length (top_bytes st')))
    | Ok _ cbb' \<Rightarrow>
        \<exists>st' bs. abs_flush d st = Some st' \<and> set_of_sorted (top_bytes st') bs \<and> builder_rel cbb' (with_top bs st')"
proof (cases "CBB_flush alloc cbb d")
  case Fault
  then show ?thesis using CBB_flush_refines [OF assms] by (simp add: refines_def)
next
  case (Fail cbb')
  then show ?thesis
    using CBB_flush_refines [OF assms] by (simp add: refines_def CBB_flush_asn1_set_of_def)
next
  case (Ok u cbb')
  then obtain st' where st': "abs_flush d st = Some st'" "builder_rel cbb' st'"
    using CBB_flush_refines [OF assms] by (auto simp: refines_def)
  from set_of_core [OF assms(1) st'(2) abs_flush_length [OF st'(1)], of cbb] Ok st' show ?thesis by auto
qed

theorem CBB_flush_asn1_set_of_sorts_witness:
  "\<exists>cbb' bs. CBB_flush_asn1_set_of (\<lambda>n. Some (replicate (unat n) 0))
      \<lparr>base = Some \<lparr>buf = [2, 1, 5, 2, 1, 3], buf_len = 6, cap = 6, can_resize = False, error = False\<rparr>,
       chain = [\<lparr>offset = 0, pending_len_len = 0, pending_is_asn1 = False, is_child = False\<rparr>]\<rparr> 0 = Ok () cbb' \<and>
    set_of_sorted [2, 1, 5, 2, 1, 3] bs \<and> builder_rel cbb' (bs, [])"
proof -
  let ?a = "\<lambda>n. Some (replicate (unat (n :: size_t)) (0 :: byte))"
  define cbb where "cbb = \<lparr>base = Some \<lparr>buf = [2, 1, 5, 2, 1, 3 :: byte], buf_len = 6, cap = 6, can_resize = False, error = False\<rparr>,
       chain = [\<lparr>offset = 0, pending_len_len = 0, pending_is_asn1 = False, is_child = False\<rparr>]\<rparr>"
  have a: "alloc_ok ?a" by (simp add: alloc_ok_def)
  have rel: "builder_rel cbb ([2, 1, 5, 2, 1, 3], [])"
    by (simp add: builder_rel_def cbb_def buf_ok_def bytes_of_def)
  have room: "cbb_room ?a cbb (Suc (Suc (Suc (Suc (Suc (Suc 0))))))" by (simp add: cbb_room_def room_def cbb_def)
  have "elements_of [2, 1, 5, 2, 1, 3] [(2, [5]), (2, [3])]"
    by (simp add: elements_of_def der_element_def der_header_def der_len_def der_tag_def tag_number_def tag_class_def)
  with CBB_flush_asn1_set_of_sorts [OF a rel, of 0] room show ?thesis
    unfolding cbb_def [symmetric] by (auto split: outcome.splits)
qed

end
