(* ===== verification/Ber.thy ===== *)
theory Ber
  imports Cbb
begin

text \<open>
  The BER to DER converter (\<^verbatim>\<open>crypto/bytestring/ber.c\<close>).  It reads with \<open>CBS\<close> and writes with \<open>CBB\<close>; the state of
  the converting functions is the pair of both, and the \<open>CBB *\<close> argument \<open>out\<close> is the position \<open>d\<close> in the chain of
  open objects.  Every recursive call and every iteration works on a shorter input, so the number of
  input bytes bounds the depth of the calls; \<open>fuel\<close> counts it, and running out of it is a \<open>Fault\<close>.
\<close>

unbundle bit_operations_syntax

definition kMaxDepth :: nat where
  "kMaxDepth = 2048"

definition primitive_tag :: "u32 \<Rightarrow> u32" where
  "primitive_tag tag = tag AND NOT CBS_ASN1_CONSTRUCTED"

definition is_string_type :: "u32 \<Rightarrow> bool" where
  "is_string_type tag \<longleftrightarrow>
     primitive_tag tag \<in> {0x04, 0x0C, 0x12, 0x13, 0x14, 0x15, 0x16, 0x19, 0x1A, 0x1B, 0x1C, 0x1E}"

section \<open>Looking for BER\<close>

text \<open>\<open>*ber_found\<close> is the result; the next element overwrites what an earlier one has stored there.\<close>

fun cbs_find_ber :: "nat \<Rightarrow> CBS \<Rightarrow> nat \<Rightarrow> (bool, unit) outcome"
  and find_ber_loop :: "nat \<Rightarrow> CBS \<Rightarrow> bool \<Rightarrow> nat \<Rightarrow> (bool, unit) outcome" where
  "cbs_find_ber 0 orig_in depth = Fault"
| "cbs_find_ber (Suc fuel) orig_in depth =
     (if depth > kMaxDepth then Fail ()
      else find_ber_loop fuel (CBS_init (CBS_data orig_in) (CBS_len orig_in)) False depth)"
| "find_ber_loop 0 inp ber_found depth = (if CBS_len inp > 0 then Fault else Ok ber_found ())"
| "find_ber_loop (Suc fuel) inp ber_found depth =
     (if CBS_len inp > 0
      then obind_local (CBS_get_any_ber_asn1_element inp) () (\<lambda>(contents, tag, header_len, ber_found) inp'.
        if ber_found then Ok True ()
        else if tag AND CBS_ASN1_CONSTRUCTED \<noteq> 0
        then if is_string_type tag then Ok True ()
             else obind_local (CBS_skip contents header_len) () (\<lambda>_ contents'.
                  obind (cbs_find_ber fuel contents' (depth + 1)) (\<lambda>ber_found _.
                  find_ber_loop fuel inp' ber_found depth))
        else find_ber_loop fuel inp' ber_found depth)
      else Ok ber_found ())"

section \<open>Converting\<close>

definition is_eoc :: "size_t \<Rightarrow> CBS \<Rightarrow> bool option" where
  "is_eoc header_len contents =
     (if header_len = 2 \<and> CBS_len contents = 2
      then map_option (\<lambda>bs. bs = [0, 0]) (mem_range (CBS_data contents) 2)
      else Some False)"

text \<open>The test for an element of indefinite length.\<close>

definition is_indefinite :: "size_t \<Rightarrow> CBS \<Rightarrow> bool option" where
  "is_indefinite header_len contents =
     (if CBS_len contents = header_len \<and> header_len > 0
      then map_option (\<lambda>b. b = 0x80) (mem_at (CBS_data contents) (unat (header_len - 1)))
      else Some False)"

text \<open>Running an operation of the reader or of the builder on its half of the state.\<close>

fun on_in :: "('a, CBS) outcome \<Rightarrow> CBB \<Rightarrow> ('a, CBS \<times> CBB) outcome" where
  "on_in Fault cbb = Fault"
| "on_in (Fail inp) cbb = Fail (inp, cbb)"
| "on_in (Ok a inp) cbb = Ok a (inp, cbb)"

fun on_out :: "CBS \<Rightarrow> ('a, CBB) outcome \<Rightarrow> ('a, CBS \<times> CBB) outcome" where
  "on_out inp Fault = Fault"
| "on_out inp (Fail cbb) = Fail (inp, cbb)"
| "on_out inp (Ok a cbb) = Ok a (inp, cbb)"

text \<open>A call that reads from a local reader instead of \<open>inp\<close>.\<close>

fun with_in :: "CBS \<Rightarrow> ('a, CBS \<times> CBB) outcome \<Rightarrow> ('a, CBS \<times> CBB) outcome" where
  "with_in inp Fault = Fault"
| "with_in inp (Fail (_, cbb)) = Fail (inp, cbb)"
| "with_in inp (Ok a (_, cbb)) = Ok a (inp, cbb)"

text \<open>The object that receives the contents of an element: its position in the chain and the string tag for the
  elements inside.\<close>

definition open_contents :: "allocator \<Rightarrow> CBB \<Rightarrow> nat \<Rightarrow> u32 \<Rightarrow> u32 \<Rightarrow> (nat \<times> u32, CBB) outcome" where
  "open_contents alloc cbb d string_tag tag =
     (if string_tag \<noteq> 0
      then if primitive_tag tag \<noteq> string_tag then Fail cbb else Ok (d, string_tag) cbb
      else let constructed_string = (tag AND CBS_ASN1_CONSTRUCTED \<noteq> 0 \<and> is_string_type tag);
               out_tag = (if constructed_string then primitive_tag tag else tag);
               child_string_tag = (if constructed_string then out_tag else string_tag)
           in obind (CBB_add_asn1 alloc cbb d out_tag) (\<lambda>_ cbb'. Ok (Suc d, child_string_tag) cbb'))"

fun cbs_convert_ber :: "allocator \<Rightarrow> nat \<Rightarrow> CBS \<times> CBB \<Rightarrow> nat \<Rightarrow> u32 \<Rightarrow> bool \<Rightarrow> nat \<Rightarrow> (unit, CBS \<times> CBB) outcome"
  and convert_loop :: "allocator \<Rightarrow> nat \<Rightarrow> CBS \<times> CBB \<Rightarrow> nat \<Rightarrow> u32 \<Rightarrow> bool \<Rightarrow> nat \<Rightarrow> (unit, CBS \<times> CBB) outcome" where
  "cbs_convert_ber alloc 0 s d string_tag looking_for_eoc depth = Fault"
| "cbs_convert_ber alloc (Suc fuel) s d string_tag looking_for_eoc depth =
     (if string_tag AND CBS_ASN1_CONSTRUCTED \<noteq> 0 then Fault
      else if depth > kMaxDepth then Fail s
      else convert_loop alloc fuel s d string_tag looking_for_eoc depth)"
| "convert_loop alloc 0 (inp, cbb) d string_tag looking_for_eoc depth =
     (if CBS_len inp > 0 then Fault else if looking_for_eoc then Fail (inp, cbb) else Ok () (inp, cbb))"
| "convert_loop alloc (Suc fuel) (inp, cbb) d string_tag looking_for_eoc depth =
     (if CBS_len inp > 0
      then obind (on_in (CBS_get_any_ber_asn1_element inp) cbb) (\<lambda>(contents, tag, header_len, ber_found) (inp1, cbb).
        (case is_eoc header_len contents of
           None \<Rightarrow> Fault
         | Some True \<Rightarrow> if looking_for_eoc then Ok () (inp1, cbb) else Fail (inp1, cbb)
         | Some False \<Rightarrow>
             obind (on_out inp1 (open_contents alloc cbb d string_tag tag)) (\<lambda>(d1, child_string_tag) (inp1, cbb1).
               (case is_indefinite header_len contents of
                  None \<Rightarrow> Fault
                | Some True \<Rightarrow>
                    obind (cbs_convert_ber alloc fuel (inp1, cbb1) d1 child_string_tag True (depth + 1)) (\<lambda>_ (inp2, cbb2).
                    obind (on_out inp2 (CBB_flush alloc cbb2 d)) (\<lambda>_ (inp2, cbb3).
                    convert_loop alloc fuel (inp2, cbb3) d string_tag looking_for_eoc depth))
                | Some False \<Rightarrow>
                    obind_local (CBS_skip contents header_len) (inp1, cbb1) (\<lambda>_ body.
                    obind (if tag AND CBS_ASN1_CONSTRUCTED \<noteq> 0
                           then with_in inp1 (cbs_convert_ber alloc fuel (body, cbb1) d1 child_string_tag False (depth + 1))
                           else on_out inp1 (CBB_add_bytes alloc cbb1 d1 (CBS_data body) (CBS_len body))) (\<lambda>_ (inp1, cbb2).
                    obind (on_out inp1 (CBB_flush alloc cbb2 d)) (\<lambda>_ (inp1, cbb3).
                    convert_loop alloc fuel (inp1, cbb3) d string_tag looking_for_eoc depth)))))))
      else if looking_for_eoc then Fail (inp, cbb) else Ok () (inp, cbb))"

text \<open>The end of both functions below: the storage that the builder hands over, and a reader over it.\<close>

definition finish_string :: "allocator \<Rightarrow> CBB \<Rightarrow> CBS \<Rightarrow> (CBS \<times> byte list option, CBS) outcome" where
  "finish_string alloc cbb inp =
     (case CBB_finish alloc cbb 0 True of
        Fault \<Rightarrow> Fault
      | Fail cbb' \<Rightarrow> clean_exit cbb' inp
      | Ok (storage, len) _ \<Rightarrow> Ok (CBS_init storage len, Some storage) inp)"

text \<open>The result is the element and the memory that holds it: \<open>None\<close> when it is a part of the input.\<close>

definition CBS_asn1_ber_to_der :: "allocator \<Rightarrow> CBS \<Rightarrow> (CBS \<times> byte list option, CBS) outcome" where
  "CBS_asn1_ber_to_der alloc inp =
     (let fuel = unat (CBS_len inp) + 1 in
      obind_local (cbs_find_ber fuel inp 0) inp (\<lambda>conversion_needed _.
        if \<not> conversion_needed
        then obind (CBS_get_any_asn1_element inp) (\<lambda>(out, _, _) inp'. Ok (out, None) inp')
        else
          (case CBB_init alloc (CBS_len inp) of
             Fault \<Rightarrow> Fault
           | Fail cbb \<Rightarrow> clean_exit cbb inp
           | Ok _ cbb \<Rightarrow>
               (case cbs_convert_ber alloc fuel (inp, cbb) 0 0 False 0 of
                  Fault \<Rightarrow> Fault
                | Fail (inp', cbb') \<Rightarrow> clean_exit cbb' inp'
                | Ok _ (inp', cbb') \<Rightarrow> finish_string alloc cbb' inp'))))"

section \<open>Implicitly tagged strings\<close>

fun implicit_chunks :: "allocator \<Rightarrow> nat \<Rightarrow> CBS \<Rightarrow> CBB \<Rightarrow> u32 \<Rightarrow> (unit, CBB) outcome" where
  "implicit_chunks alloc 0 child result inner_tag = (if CBS_len child > 0 then Fault else Ok () result)"
| "implicit_chunks alloc (Suc fuel) child result inner_tag =
     (if CBS_len child > 0
      then obind_local (CBS_get_asn1 child inner_tag) result (\<lambda>chunk child'.
           obind (CBB_add_bytes alloc result 0 (CBS_data chunk) (CBS_len chunk)) (\<lambda>_ result'.
           implicit_chunks alloc fuel child' result' inner_tag))
      else Ok () result)"

definition CBS_get_asn1_implicit_string ::
    "allocator \<Rightarrow> CBS \<Rightarrow> u32 \<Rightarrow> u32 \<Rightarrow> (CBS \<times> byte list option, CBS) outcome" where
  "CBS_get_asn1_implicit_string alloc inp outer_tag inner_tag =
     (if outer_tag AND CBS_ASN1_CONSTRUCTED \<noteq> 0 \<or> inner_tag AND CBS_ASN1_CONSTRUCTED \<noteq> 0 \<or> \<not> is_string_type inner_tag
      then Fault
      else obind (CBS_peek_asn1_tag inp outer_tag) (\<lambda>plain inp.
        if plain then obind (CBS_get_asn1 inp outer_tag) (\<lambda>out inp'. Ok (out, None) inp')
        else
          (case CBB_init alloc (CBS_len inp) of
             Fault \<Rightarrow> Fault
           | Fail result \<Rightarrow> clean_exit result inp
           | Ok _ result \<Rightarrow>
               (case CBS_get_asn1 inp (outer_tag OR CBS_ASN1_CONSTRUCTED) of
                  Fault \<Rightarrow> Fault
                | Fail inp' \<Rightarrow> clean_exit result inp'
                | Ok child inp' \<Rightarrow>
                    (case implicit_chunks alloc (unat (CBS_len child)) child result inner_tag of
                       Fault \<Rightarrow> Fault
                     | Fail result' \<Rightarrow> clean_exit result' inp'
                     | Ok _ result' \<Rightarrow> finish_string alloc result' inp')))))"

end
