(* ===== verification/BerSpec.thy ===== *)
theory BerSpec
  imports Ber BytestringProps
begin

text \<open>
  BER values as trees, their encodings, and the DER encoding that each of them stands for.  An element is primitive or
  constructed; the length is given by \<open>k\<close> length octets (0 for the short form), minimal or not, and a constructed
  element may instead have indefinite length, ended by two zero octets.  A constructed string stands for the
  concatenation of its parts.
\<close>

unbundle bit_operations_syntax

datatype ber = Prim u32 nat "byte list" | Constr u32 "nat option" "ber list"

definition ber_len :: "nat \<Rightarrow> nat \<Rightarrow> byte list" where
  "ber_len k n = (if k = 0 then [of_nat n] else of_nat (128 + k) # be_bytes k n)"

definition len_ok :: "nat \<Rightarrow> nat \<Rightarrow> bool" where
  "len_ok k n \<longleftrightarrow> (if k = 0 then n < 128 else k \<le> 4 \<and> n < 256 ^ k)"

text \<open>Length octets that DER does not allow.\<close>

definition nonminimal :: "nat \<Rightarrow> nat \<Rightarrow> bool" where
  "nonminimal k n \<longleftrightarrow> k \<noteq> 0 \<and> (n < 128 \<or> n < 256 ^ (k - 1))"

fun ber_enc :: "ber \<Rightarrow> byte list" where
  "ber_enc (Prim tag k c) = der_tag tag @ ber_len k (length c) @ c"
| "ber_enc (Constr tag None ts) = der_tag tag @ 0x80 # concat (map ber_enc ts) @ [0, 0]"
| "ber_enc (Constr tag (Some k) ts) =
     der_tag tag @ ber_len k (length (concat (map ber_enc ts))) @ concat (map ber_enc ts)"

abbreviation ber_encs :: "ber list \<Rightarrow> byte list" where
  "ber_encs ts \<equiv> concat (map ber_enc ts)"

text \<open>The bytes of a string and the DER encoding of a value.\<close>

fun string_bytes :: "ber \<Rightarrow> byte list" where
  "string_bytes (Prim tag k c) = c"
| "string_bytes (Constr tag l ts) = concat (map string_bytes ts)"

fun ber_der :: "ber \<Rightarrow> byte list" where
  "ber_der (Prim tag k c) = der_element tag c"
| "ber_der (Constr tag l ts) =
     (if is_string_type tag then der_element (primitive_tag tag) (concat (map string_bytes ts))
      else der_element tag (concat (map ber_der ts)))"

text \<open>What is written for an element inside a string with the given tag, or, for the tag 0, outside of strings.\<close>

definition written :: "u32 \<Rightarrow> ber \<Rightarrow> byte list" where
  "written st t = (if st = 0 then ber_der t else string_bytes t)"

definition inner_tag :: "u32 \<Rightarrow> u32 \<Rightarrow> u32" where
  "inner_tag st tag = (if st \<noteq> 0 then st else if is_string_type tag then primitive_tag tag else 0)"

text \<open>\<open>ber_wf st n t\<close>: the value can be written with its length octets, nests at most \<open>n\<close> deep, contains no
  end-of-contents marker as a value, the parts of a string have the tag of the string, and the contents of every
  element fit a DER length that the builder can write.\<close>

fun ber_wf :: "u32 \<Rightarrow> nat \<Rightarrow> ber \<Rightarrow> bool" where
  "ber_wf st n (Prim tag k c) =
     (tag AND CBS_ASN1_CONSTRUCTED = 0 \<and> len_ok k (length c) \<and> \<not> (tag = 0 \<and> k = 0 \<and> c = []) \<and>
      length c \<le> 0xFFFFFFFE \<and> (st = 0 \<or> tag = st))"
| "ber_wf st 0 (Constr tag l ts) = False"
| "ber_wf st (Suc n) (Constr tag l ts) =
     (tag AND CBS_ASN1_CONSTRUCTED \<noteq> 0 \<and>
      (case l of None \<Rightarrow> True | Some k \<Rightarrow> len_ok k (length (concat (map ber_enc ts)))) \<and>
      length (concat (map (written (inner_tag st tag)) ts)) \<le> 0xFFFFFFFE \<and>
      (st = 0 \<or> primitive_tag tag = st) \<and> (\<forall>t\<in>set ts. ber_wf (inner_tag st tag) n t))"

section \<open>Reading an element\<close>

lemma ber_len_not_Nil [simp]: "ber_len k n \<noteq> []"
  by (simp add: ber_len_def)

lemma length_ber_len: "len_ok k n \<Longrightarrow> length (ber_len k n) \<le> 5"
  by (auto simp: ber_len_def len_ok_def split: if_splits)

lemma len_ok_less: "len_ok k n \<Longrightarrow> n < 2 ^ 32"
  using power_increasing [of k 4 "256::nat"] by (auto simp: len_ok_def split: if_splits)

lemma element_spec_ber:
  assumes "len_ok k n"
  shows "element_spec s True tag t (ber_len k n @ rest) = take_element s tag (t + length (ber_len k n)) n (nonminimal k n)"
proof (cases "k = 0")
  case True
  then have "unat (of_nat n :: byte) = n" "n < 128" using assms by (simp_all add: len_ok_def unat_of_nat_less)
  then show ?thesis using True by (simp add: element_spec_def ber_len_def nonminimal_def)
next
  case False
  then have k: "0 < k" "k \<le> 4" "n < 256 ^ k" using assms by (simp_all add: len_ok_def)
  have "unat (of_nat (128 + k) :: byte) = 128 + k" using k by (intro unat_of_nat_less) simp
  then show ?thesis
    using k by (simp add: element_spec_def long_form_def ber_len_def Let_def be_nat_be_bytes nonminimal_def)
qed

text \<open>An element of definite length in front of a reader.\<close>

lemma read_definite:
  assumes "cbs_ok s" and "cbs_bytes s = der_tag tag @ ber_len k (length c) @ c @ rest" and "len_ok k (length c)"
  defines "hl \<equiv> length (der_tag tag) + length (ber_len k (length c))"
  shows "CBS_get_any_ber_asn1_element s =
    Ok (cbs_take s (hl + length c), tag, of_nat hl, nonminimal k (length c)) (cbs_drop s (hl + length c))"
proof -
  have "element_spec s True tag (length (der_tag tag)) (ber_len k (length c) @ c @ rest) =
      take_element s tag hl (length c) (nonminimal k (length c))"
    using element_spec_ber [OF assms(3)] unfolding hl_def by blast
  moreover have "take_element s tag hl (length c) (nonminimal k (length c)) =
      Ok (cbs_take s (hl + length c), tag, of_nat hl, nonminimal k (length c)) (cbs_drop s (hl + length c))"
    using assms(2) by (simp add: take_element_def hl_def del: length_cbs_bytes)
  ultimately show ?thesis
    using parse_asn1_tag_complete [OF assms(1,2)]
    by (simp add: CBS_get_any_ber_asn1_element_def any_asn1_element_eq [OF assms(1)] assms(2))
qed

lemma read_indefinite:
  assumes "cbs_ok s" and "cbs_bytes s = der_tag tag @ 0x80 # rest" and "tag AND CBS_ASN1_CONSTRUCTED \<noteq> 0"
  defines "hl \<equiv> length (der_tag tag) + 1"
  shows "CBS_get_any_ber_asn1_element s = Ok (cbs_take s hl, tag, of_nat hl, True) (cbs_drop s hl)"
proof -
  have "element_spec s True tag (length (der_tag tag)) (0x80 # rest) = take_element s tag hl 0 True"
    using assms(3) by (simp add: element_spec_def long_form_def hl_def)
  moreover have "take_element s tag hl 0 True = Ok (cbs_take s hl, tag, of_nat hl, True) (cbs_drop s hl)"
    using assms(2) by (simp add: take_element_def hl_def del: length_cbs_bytes)
  ultimately show ?thesis
    using parse_asn1_tag_complete [OF assms(1,2)]
    by (simp add: CBS_get_any_ber_asn1_element_def any_asn1_element_eq [OF assms(1)] assms(2))
qed

lemma is_eoc_eq:
  assumes "cbs_ok c" and "hl < 2 ^ 64"
  shows "is_eoc (of_nat hl) c = Some (hl = 2 \<and> cbs_bytes c = [0, 0])"
proof -
  have "(of_nat hl :: size_t) = 2 \<longleftrightarrow> hl = 2" using assms(2) by (simp add: word_unat_eq_iff unat_of_nat_less)
  moreover have "cbs_len c = 2" if "cbs_bytes c = [0, 0]"
    using length_cbs_bytes [OF assms(1)] that by (simp add: word_unat_eq_iff)
  ultimately show ?thesis
    using assms(1) by (auto simp: is_eoc_def CBS_len_def CBS_data_def mem_range_def cbs_ok_def cbs_bytes_def)
qed

lemma is_indefinite_eq:
  assumes "cbs_ok c" and "0 < hl" and "hl \<le> length (cbs_bytes c)"
  shows "is_indefinite (of_nat hl) c = Some (length (cbs_bytes c) = hl \<and> last (cbs_bytes c) = 0x80)"
proof -
  have lt: "length (cbs_bytes c) < 2 ^ 64" using unat_lt_2p [of "cbs_len c"] assms(1) by simp
  have u: "unat (of_nat hl :: size_t) = hl" using lt assms(3) by (intro unat_of_nat_less) simp
  have "unat (of_nat hl - 1 :: size_t) = hl - 1" using u assms(2) by (subst unat_sub_le) (simp_all add: word_le_nat_alt)
  moreover have "cbs_len c = of_nat hl \<longleftrightarrow> length (cbs_bytes c) = hl" using assms(1) u by (auto simp: word_unat_eq_iff)
  moreover have "(of_nat hl :: size_t) > 0" using u assms(2) by (simp add: word_less_nat_alt)
  moreover have "mem_at (cbs_data c) (hl - 1) = Some (last (cbs_bytes c))" if "length (cbs_bytes c) = hl"
  proof -
    have "last (cbs_bytes c) = cbs_bytes c ! (hl - 1)" using that assms(2) by (subst last_conv_nth) auto
    also have "\<dots> = cbs_data c ! (hl - 1)" using that assms(1,2) by (simp add: cbs_bytes_def)
    finally show ?thesis using that assms(1,2) by (auto simp: mem_at_def cbs_ok_def)
  qed
  ultimately show ?thesis by (auto simp: is_indefinite_def CBS_len_def CBS_data_def)
qed

lemma der_tag_zero: "der_tag tag = [0] \<Longrightarrow> tag = 0"
proof -
  assume "der_tag tag = [0]"
  then have "tag_number tag < 31" "(of_nat (32 * tag_class tag + tag_number tag) :: byte) = 0"
    by (auto simp: der_tag_def split: if_splits)
  then have "32 * tag_class tag + tag_number tag = 0"
    using unat_tag_byte [of "tag_number tag" tag] by simp
  then have "unat tag = 0" by (simp add: tag_class_def tag_number_def) (metis div_mult_mod_eq mult_0_right add_0 mult.commute)
  then show ?thesis by (simp add: unat_eq_zero)
qed

lemma ber_len_last: "len_ok k 0 \<Longrightarrow> last (ber_len k 0) = 0"
  by (cases k) (auto simp: ber_len_def be_bytes_def)

end
