(* ===== verification/BerConvert.thy ===== *)
theory BerConvert
  imports BerSpec
begin

text \<open>
  The converter writes, for every BER value, the DER encoding that the value stands for.
\<close>

unbundle bit_operations_syntax

section \<open>Operations on both halves of the state\<close>

text \<open>\<open>converts alloc cbb m inp st\<close>: the outcome \<open>m\<close> of an operation called with the builder \<open>cbb\<close> leaves the reader at \<open>inp\<close>
  and a builder that represents \<open>st\<close>; it fails only when there is no room for \<open>st\<close>.\<close>

definition converts :: "allocator \<Rightarrow> CBB \<Rightarrow> ('a, CBS \<times> CBB) outcome \<Rightarrow> CBS \<Rightarrow> builder \<Rightarrow> bool" where
  "converts alloc cbb m inp st \<longleftrightarrow>
     (case m of
        Fault \<Rightarrow> False
      | Fail (_, cbb') \<Rightarrow> dead cbb' \<and> \<not> cbb_room alloc cbb (abs_size st)
      | Ok _ (inp', cbb') \<Rightarrow>
          inp' = inp \<and> builder_rel cbb' st \<and> (\<forall>n. cbb_room alloc cbb n \<longrightarrow> cbb_room alloc cbb' n))"

lemma converts_out: "refines alloc cbb m (Some st) \<Longrightarrow> converts alloc cbb (on_out inp m) inp st"
  by (cases m) (simp_all add: refines_def converts_def)

lemma converts_with_in: "converts alloc cbb m inp' st \<Longrightarrow> converts alloc cbb (with_in inp m) inp st"
  by (cases m) (auto simp: converts_def)

lemma converts_Ok: "builder_rel cbb st \<Longrightarrow> converts alloc cbb (Ok a (inp, cbb)) inp st"
  by (simp add: converts_def)

lemma converts_bind:
  assumes "converts alloc cbb m inp st"
    and "\<And>a cbb'. m = Ok a (inp, cbb') \<Longrightarrow> builder_rel cbb' st \<Longrightarrow> converts alloc cbb' (f a (inp, cbb')) inp' st'"
    and "abs_size st \<le> abs_size st'"
  shows "converts alloc cbb (obind m f) inp' st'"
proof (cases m)
  case (Fail s)
  then show ?thesis
    using assms(1,3) room_mono unfolding converts_def cbb_room_def by (cases s) (fastforce split: prod.splits)
next
  case (Ok a s)
  then obtain cbb' where s: "s = (inp, cbb')" and rel: "builder_rel cbb' st"
    and room: "\<forall>n. cbb_room alloc cbb n \<longrightarrow> cbb_room alloc cbb' n"
    using assms(1) by (cases s) (auto simp: converts_def)
  have "converts alloc cbb' (f a s) inp' st'" using assms(2) Ok rel by (simp add: s)
  then show ?thesis using Ok room by (auto simp: converts_def split: outcome.splits)
qed (use assms(1) in \<open>simp add: converts_def\<close>)

lemma flush_flushed:
  assumes "alloc_ok alloc" and "builder_rel cbb st" and "length (snd st) = d"
  shows "refines alloc cbb (CBB_flush alloc cbb d) (Some st)"
  using CBB_flush_refines [OF assms(1,2), of d] assms(3) by (simp add: abs_flush_idem)

section \<open>One element\<close>

definition frame_bytes :: "u32 \<Rightarrow> u32 \<Rightarrow> byte list \<Rightarrow> byte list" where
  "frame_bytes st tag bs =
     (if st \<noteq> 0 then bs
      else der_element (if tag AND CBS_ASN1_CONSTRUCTED \<noteq> 0 \<and> is_string_type tag then primitive_tag tag else tag) bs)"

definition child_tag :: "u32 \<Rightarrow> u32 \<Rightarrow> u32" where
  "child_tag st tag = (if tag AND CBS_ASN1_CONSTRUCTED \<noteq> 0 then inner_tag st tag else st)"

text \<open>Opening the contents, writing them and flushing.\<close>

lemma element_converts:
  assumes a: "alloc_ok alloc" and rel: "builder_rel cbb st" and d: "length (snd st) = d"
    and bs: "length bs \<le> 0xFFFFFFFE" and stag: "stag = 0 \<or> primitive_tag tag = stag"
    and body: "\<And>cbb1 s d1. builder_rel cbb1 s \<Longrightarrow> length (snd s) = d1 \<Longrightarrow>
      converts alloc cbb1 (body d1 (child_tag stag tag) (inp1, cbb1)) inp2 (abs_append bs s)"
    and rest: "\<And>cbb3. builder_rel cbb3 (abs_append (frame_bytes stag tag bs) st) \<Longrightarrow>
      converts alloc cbb3 (k (inp2, cbb3)) inp3 st3"
    and mono: "abs_size (abs_append (frame_bytes stag tag bs) st) \<le> abs_size st3"
  shows "converts alloc cbb
    (obind (on_out inp1 (open_contents alloc cbb d stag tag)) (\<lambda>(d1, ct) s1.
       obind (body d1 ct s1) (\<lambda>_ (inp2, cbb2).
       obind (on_out inp2 (CBB_flush alloc cbb2 d)) (\<lambda>_ s3. k s3)))) inp3 st3"
proof (cases "stag = 0")
  case False
  then have o: "open_contents alloc cbb d stag tag = Ok (d, child_tag stag tag) cbb"
    using stag by (auto simp: open_contents_def child_tag_def inner_tag_def)
  have fl: "converts alloc c (obind (on_out inp2 (CBB_flush alloc c d)) (\<lambda>_ s3. k s3)) inp3 st3"
    if "builder_rel c (abs_append bs st)" for c
  proof (rule converts_bind)
    show "converts alloc c (on_out inp2 (CBB_flush alloc c d)) inp2 (abs_append bs st)"
      using flush_flushed [OF a that] d by (intro converts_out) (simp add: abs_append_length)
    show "converts alloc cbb' (k (inp2, cbb')) inp3 st3" if "builder_rel cbb' (abs_append bs st)" for cbb'
      using rest [of cbb'] that False by (simp add: frame_bytes_def)
    show "abs_size (abs_append bs st) \<le> abs_size st3" using mono False by (simp add: frame_bytes_def)
  qed
  have "converts alloc cbb (obind (body d (child_tag stag tag) (inp1, cbb)) (\<lambda>_ (inp2, cbb2).
       obind (on_out inp2 (CBB_flush alloc cbb2 d)) (\<lambda>_ s3. k s3))) inp3 st3"
  proof (rule converts_bind [OF body [OF rel d]])
    show "converts alloc cbb' (case (inp2, cbb') of (inp2, cbb2) \<Rightarrow>
        obind (on_out inp2 (CBB_flush alloc cbb2 d)) (\<lambda>_ s3. k s3)) inp3 st3"
      if "builder_rel cbb' (abs_append bs st)" for cbb' using fl [OF that] by simp
    show "abs_size (abs_append bs st) \<le> abs_size st3" using mono False by (simp add: frame_bytes_def)
  qed
  then show ?thesis by (simp add: o)
next
  case True
  define ot where "ot = (if tag AND CBS_ASN1_CONSTRUCTED \<noteq> 0 \<and> is_string_type tag then primitive_tag tag else tag)"
  define s1 where "s1 = abs_open Asn1_prefix (abs_append (der_tag ot) st)"
  have o: "open_contents alloc cbb d stag tag =
      obind (CBB_add_asn1 alloc cbb d ot) (\<lambda>_ cbb'. Ok (Suc d, child_tag stag tag) cbb')"
    using True by (auto simp: open_contents_def child_tag_def inner_tag_def ot_def Let_def)
  have child: "refines alloc cbb (CBB_add_asn1 alloc cbb d ot) (Some s1)"
    using CBB_add_asn1_refines [OF a rel, of d ot] d by (simp add: abs_child_def abs_flush_idem s1_def)
  have s1: "length (snd s1) = Suc d" using d by (simp add: s1_def abs_open_def abs_append_length)
  have close: "abs_flush d (abs_append bs s1) = Some (abs_append (frame_bytes stag tag bs) st)"
    using bs d True unfolding s1_def
    by (subst abs_flush_child) (simp_all add: abs_append_length abs_append_append frame_bytes_def der_element_def
        der_header_def ot_def)
  have le: "abs_size (abs_append bs s1) \<le> abs_size st3" using abs_flush_size [OF close] mono by linarith
  have fl: "converts alloc c (obind (on_out inp2 (CBB_flush alloc c d)) (\<lambda>_ s3. k s3)) inp3 st3"
    if "builder_rel c (abs_append bs s1)" for c
    using CBB_flush_refines [OF a that, of d] s1 close rest mono
    by (intro converts_bind [OF converts_out]) (simp_all add: abs_append_length)
  have fl1: "converts alloc c (obind (body (Suc d) (child_tag stag tag) (inp1, c)) (\<lambda>_ (inp2, cbb2).
       obind (on_out inp2 (CBB_flush alloc cbb2 d)) (\<lambda>_ s3. k s3))) inp3 st3"
    if "builder_rel c s1" for c
    using fl le by (intro converts_bind [OF body [OF that s1]]) simp_all
  have "converts alloc cbb (on_out inp1 (CBB_add_asn1 alloc cbb d ot)) inp1 s1" by (rule converts_out [OF child])
  moreover have "abs_size s1 \<le> abs_size st3" using le abs_append_size [of bs s1] by linarith
  ultimately have "converts alloc cbb (obind (on_out inp1 (CBB_add_asn1 alloc cbb d ot)) (\<lambda>_ s1.
       obind (body (Suc d) (child_tag stag tag) s1) (\<lambda>_ (inp2, cbb2).
       obind (on_out inp2 (CBB_flush alloc cbb2 d)) (\<lambda>_ s3. k s3)))) inp3 st3"
    using fl1 by - (rule converts_bind, assumption, simp_all)
  then show ?thesis unfolding o by (cases "CBB_add_asn1 alloc cbb d ot") simp_all
qed

section \<open>The loop\<close>

definition element_body ::
    "allocator \<Rightarrow> nat \<Rightarrow> nat \<Rightarrow> CBS \<Rightarrow> u32 \<Rightarrow> size_t \<Rightarrow> nat \<Rightarrow> u32 \<Rightarrow> CBS \<times> CBB \<Rightarrow> (unit, CBS \<times> CBB) outcome" where
  "element_body alloc fuel depth contents tag hl d1 ct s1 =
     (case is_indefinite hl contents of
        None \<Rightarrow> Fault
      | Some True \<Rightarrow> cbs_convert_ber alloc fuel s1 d1 ct True (depth + 1)
      | Some False \<Rightarrow>
          obind_local (CBS_skip contents hl) s1 (\<lambda>_ body.
            if tag AND CBS_ASN1_CONSTRUCTED \<noteq> 0
            then with_in (fst s1) (cbs_convert_ber alloc fuel (body, snd s1) d1 ct False (depth + 1))
            else on_out (fst s1) (CBB_add_bytes alloc (snd s1) d1 (CBS_data body) (CBS_len body))))"

lemma on_out_fst: "on_out inp m = Ok a s \<Longrightarrow> fst s = inp"
  by (cases m) auto

lemma convert_loop_element:
  assumes "CBS_get_any_ber_asn1_element inp = Ok (contents, tag, hl, f) inp1" and "is_eoc hl contents = Some False"
    and "0 < CBS_len inp"
  shows "convert_loop alloc (Suc fuel) (inp, cbb) d stag eoc depth =
    obind (on_out inp1 (open_contents alloc cbb d stag tag)) (\<lambda>(d1, ct) s1.
      obind (element_body alloc fuel depth contents tag hl d1 ct s1) (\<lambda>_ (inp2, cbb2).
      obind (on_out inp2 (CBB_flush alloc cbb2 d)) (\<lambda>_ s3. convert_loop alloc fuel s3 d stag eoc depth)))"
proof (cases "open_contents alloc cbb d stag tag")
  case (Ok p cbb1)
  obtain d1 ct where p: "p = (d1, ct)" by (cases p)
  have pr: "(\<lambda>(i, c). convert_loop alloc fuel (i, c) d stag eoc depth) = (\<lambda>s. convert_loop alloc fuel s d stag eoc depth)"
    by auto
  show ?thesis
  proof (cases "is_indefinite hl contents")
    case (Some b)
    then show ?thesis
      using assms Ok
      by (cases b; cases "CBS_skip contents hl")
         (simp_all add: p element_body_def pr)
  qed (use assms Ok in \<open>simp add: p element_body_def\<close>)
qed (use assms in simp_all)

text \<open>The header of an element of definite length: what \<open>is_eoc\<close>, \<open>is_indefinite\<close> and the skipping of the header make
  of it.\<close>

lemma definite_element:
  assumes s: "cbs_ok s" and bs: "cbs_bytes s = der_tag tag @ ber_len k (length c) @ c @ rest" and len: "len_ok k (length c)"
  obtains hl where "CBS_get_any_ber_asn1_element s =
      Ok (cbs_take s (hl + length c), tag, of_nat hl, nonminimal k (length c)) (cbs_drop s (hl + length c))"
    and "is_eoc (of_nat hl) (cbs_take s (hl + length c)) = Some (tag = 0 \<and> k = 0 \<and> c = [])"
    and "is_indefinite (of_nat hl) (cbs_take s (hl + length c)) = Some False"
    and "\<exists>body. CBS_skip (cbs_take s (hl + length c)) (of_nat hl) = Ok () body \<and> cbs_ok body \<and> cbs_bytes body = c"
    and "cbs_ok (cbs_drop s (hl + length c))" and "cbs_bytes (cbs_drop s (hl + length c)) = rest"
    and "hl = length (der_tag tag) + length (ber_len k (length c))" and "2 \<le> hl"
proof -
  define hl where "hl = length (der_tag tag) + length (ber_len k (length c))"
  have hl: "2 \<le> hl" "hl < 2 ^ 64"
  proof -
    have "0 < length (der_tag tag)" "0 < length (ber_len k (length c))" by simp_all
    then show "2 \<le> hl" unfolding hl_def by linarith
    show "hl < 2 ^ 64" unfolding hl_def using length_der_tag [of tag] length_ber_len [OF len] by simp
  qed
  let ?e = "cbs_take s (hl + length c)"
  have le: "hl + length c \<le> length (cbs_bytes s)" using bs by (simp add: hl_def del: length_cbs_bytes)
  have e: "cbs_ok ?e" "cbs_bytes ?e = der_tag tag @ ber_len k (length c) @ c"
    using cbs_ok_take [OF s le] cbs_bytes_take [OF s le] bs by (simp_all add: hl_def del: length_cbs_bytes)
  have get: "CBS_get_any_ber_asn1_element s = Ok (?e, tag, of_nat hl, nonminimal k (length c)) (cbs_drop s (hl + length c))"
    using read_definite [OF s bs len] unfolding hl_def by blast
  have iff: "(hl = 2 \<and> der_tag tag @ ber_len k (length c) @ c = [0, 0]) \<longleftrightarrow> tag = 0 \<and> k = 0 \<and> c = []"
  proof
    assume a: "hl = 2 \<and> der_tag tag @ ber_len k (length c) @ c = [0, 0]"
    then obtain x y where xy: "der_tag tag = [x]" "ber_len k (length c) = [y]"
      using der_tag_not_Nil [of tag] ber_len_not_Nil [of k "length c"]
      by (cases "der_tag tag"; cases "ber_len k (length c)") (auto simp: hl_def)
    have "k = 0" using arg_cong [OF xy(2), of length] by (simp add: ber_len_def split: if_splits)
    moreover have "der_tag tag = [0]" "c = []" using a xy by auto
    ultimately show "tag = 0 \<and> k = 0 \<and> c = []" using der_tag_zero by simp
  qed (auto simp: der_tag_def ber_len_def hl_def tag_number_def tag_class_def)
  have eoc: "is_eoc (of_nat hl) ?e = Some (tag = 0 \<and> k = 0 \<and> c = [])"
    unfolding is_eoc_eq [OF e(1) hl(2)] e(2) iff ..
  have "last (der_tag tag @ ber_len k (length c) @ c) = 0" if "c = []"
    using that ber_len_last [of k] len by simp
  then have n: "(length (cbs_bytes ?e) = hl \<and> last (cbs_bytes ?e) = 0x80) = False"
    unfolding e(2) by (cases c) (auto simp: hl_def)
  have hle: "hl \<le> length (cbs_bytes ?e)" unfolding e(2) by (simp add: hl_def)
  have "0 < hl" using hl(1) by simp
  have indef: "is_indefinite (of_nat hl) ?e = Some False"
    unfolding is_indefinite_eq [OF e(1) \<open>0 < hl\<close> hle] n ..
  have u: "unat (of_nat hl :: size_t) = hl" using hl(2) by (simp add: unat_of_nat_less)
  have "CBS_skip ?e (of_nat hl) = Ok () (cbs_drop ?e hl)" using hle by (simp add: CBS_skip_eq [OF e(1)] u del: length_cbs_bytes)
  moreover have "cbs_ok (cbs_drop ?e hl)" "cbs_bytes (cbs_drop ?e hl) = c"
    using cbs_ok_drop [OF e(1) hle] cbs_bytes_drop [OF e(1) hle] e(2) by (simp_all add: hl_def)
  moreover have "cbs_ok (cbs_drop s (hl + length c))" "cbs_bytes (cbs_drop s (hl + length c)) = rest"
    using cbs_ok_drop [OF s le] cbs_bytes_drop [OF s le] bs by (simp_all add: hl_def)
  ultimately show ?thesis using that [of hl] get eoc indef hl(1) hl_def by blast
qed

lemma indefinite_element:
  assumes s: "cbs_ok s" and bs: "cbs_bytes s = der_tag tag @ 0x80 # rest" and con: "tag AND CBS_ASN1_CONSTRUCTED \<noteq> 0"
  obtains hl where "CBS_get_any_ber_asn1_element s = Ok (cbs_take s hl, tag, of_nat hl, True) (cbs_drop s hl)"
    and "is_eoc (of_nat hl) (cbs_take s hl) = Some False" and "is_indefinite (of_nat hl) (cbs_take s hl) = Some True"
    and "cbs_ok (cbs_drop s hl)" and "cbs_bytes (cbs_drop s hl) = rest" and "hl = length (der_tag tag) + 1"
proof -
  define hl where "hl = length (der_tag tag) + 1"
  have le: "hl \<le> length (cbs_bytes s)" using bs by (simp add: hl_def del: length_cbs_bytes)
  have e: "cbs_ok (cbs_take s hl)" "cbs_bytes (cbs_take s hl) = der_tag tag @ [0x80]"
    using cbs_ok_take [OF s le] cbs_bytes_take [OF s le] bs by (simp_all add: hl_def del: length_cbs_bytes)
  have "hl < 2 ^ 64" "0 < hl" using length_der_tag [of tag] by (simp_all add: hl_def)
  then have "is_eoc (of_nat hl) (cbs_take s hl) = Some False" "is_indefinite (of_nat hl) (cbs_take s hl) = Some True"
    using is_eoc_eq [OF e(1), of hl] is_indefinite_eq [OF e(1), of hl] unfolding e(2)
    by (auto simp: hl_def append_eq_Cons_conv)
  moreover have "cbs_ok (cbs_drop s hl)" "cbs_bytes (cbs_drop s hl) = rest"
    using cbs_ok_drop [OF s le] cbs_bytes_drop [OF s le] bs by (simp_all add: hl_def)
  ultimately show ?thesis using that [of hl] read_indefinite [OF s bs con] hl_def by simp
qed

section \<open>The converter\<close>

definition tail_of :: "bool \<Rightarrow> byte list \<Rightarrow> byte list" where
  "tail_of eoc rest = (if eoc then 0 # 0 # rest else [])"

text \<open>The claim about the loop, for a given amount of fuel: on the encodings of the values \<open>ts\<close>, followed by the end-of-contents
  marker if that is looked for, it appends what has to be written for them.\<close>

definition loop_ok :: "allocator \<Rightarrow> nat \<Rightarrow> bool" where
  "loop_ok alloc fuel \<longleftrightarrow>
     (\<forall>inp cbb st d stag eoc depth ts rest.
        cbs_ok inp \<longrightarrow> cbs_bytes inp = ber_encs ts @ tail_of eoc rest \<longrightarrow> length (cbs_bytes inp) \<le> fuel \<longrightarrow>
        builder_rel cbb st \<longrightarrow> length (snd st) = d \<longrightarrow> depth \<le> kMaxDepth \<longrightarrow>
        (\<forall>t\<in>set ts. ber_wf stag (kMaxDepth - depth) t) \<longrightarrow>
        converts alloc cbb (convert_loop alloc fuel (inp, cbb) d stag eoc depth)
          (cbs_drop inp (length (ber_encs ts) + (if eoc then 2 else 0)))
          (abs_append (concat (map (written stag) ts)) st))"

lemma loop_okD:
  assumes "loop_ok alloc fuel" and "cbs_ok inp" and "cbs_bytes inp = ber_encs ts @ tail_of eoc rest"
    and "length (cbs_bytes inp) \<le> fuel" and "builder_rel cbb st" and "length (snd st) = d" and "depth \<le> kMaxDepth"
    and "\<forall>t\<in>set ts. ber_wf stag (kMaxDepth - depth) t"
  shows "converts alloc cbb (convert_loop alloc fuel (inp, cbb) d stag eoc depth)
    (cbs_drop inp (length (ber_encs ts) + (if eoc then 2 else 0))) (abs_append (concat (map (written stag) ts)) st)"
  using assms unfolding loop_ok_def by blast

lemma abs_append_Nil [simp]: "abs_append [] st = st"
  by (induction "[] :: byte list" st rule: abs_append.induct) auto

lemma loop_end:
  assumes "cbs_ok inp" and "cbs_bytes inp = tail_of eoc rest" and "builder_rel cbb st" and "length (cbs_bytes inp) \<le> fuel"
  shows "converts alloc cbb (convert_loop alloc fuel (inp, cbb) d stag eoc depth) (cbs_drop inp (if eoc then 2 else 0)) st"
proof (cases eoc)
  case False
  then have "CBS_len inp = 0" using assms(1,2) length_cbs_bytes [OF assms(1)] by (simp add: tail_of_def CBS_len_def unat_eq_zero)
  then show ?thesis using False assms(3) by (cases fuel) (simp_all add: converts_Ok)
next
  case True
  then have bs: "cbs_bytes inp = der_tag 0 @ ber_len 0 (length ([] :: byte list)) @ [] @ rest"
    using assms(2) by (simp add: tail_of_def der_tag_def ber_len_def tag_number_def tag_class_def)
  obtain hl where h: "CBS_get_any_ber_asn1_element inp =
        Ok (cbs_take inp (hl + length ([] :: byte list)), 0, of_nat hl, nonminimal 0 (length ([] :: byte list))) (cbs_drop inp (hl + length ([] :: byte list)))"
      "is_eoc (of_nat hl) (cbs_take inp (hl + length ([] :: byte list))) = Some (0 = (0 :: u32) \<and> 0 = (0 :: nat) \<and> [] = ([] :: byte list))"
      "hl = length (der_tag 0) + length (ber_len 0 (length ([] :: byte list)))"
    by (rule definite_element [OF assms(1) bs]) (simp add: len_ok_def)
  have hl: "hl = 2" using h(3) by (simp add: der_tag_def ber_len_def tag_number_def tag_class_def)
  have "2 \<le> unat (cbs_len inp)" using length_cbs_bytes [OF assms(1)] assms(2) True by (simp add: tail_of_def)
  then have "0 < CBS_len inp" "fuel \<noteq> 0" using assms(1,4) by (simp_all add: CBS_len_def word_less_nat_alt)
  then show ?thesis using h(1,2) True assms(3) by (cases fuel) (simp_all add: hl converts_Ok)
qed

lemma written_Prim: "ber_wf stag n (Prim tag k c) \<Longrightarrow> written stag (Prim tag k c) = frame_bytes stag tag c"
  by (auto simp: written_def frame_bytes_def)

lemma written_Constr:
  "ber_wf stag (Suc n) (Constr tag l ts) \<Longrightarrow>
   written stag (Constr tag l ts) = frame_bytes stag tag (concat (map (written (inner_tag stag tag)) ts))"
proof -
  assume wf: "ber_wf stag (Suc n) (Constr tag l ts)"
  have s: "primitive_tag tag \<noteq> 0" if "is_string_type tag" using that by (auto simp: is_string_type_def)
  have w: "written st = (if st = 0 then ber_der else string_bytes)" for st by (auto simp: written_def)
  show ?thesis using wf s by (auto simp: frame_bytes_def inner_tag_def w)
qed

lemma primitive_primitive [simp]: "primitive_tag (primitive_tag tag) = primitive_tag tag"
  by (simp add: primitive_tag_def bit_eq_iff bit_simps)

lemma primitive_tag_not_constructed [simp]: "primitive_tag tag AND CBS_ASN1_CONSTRUCTED = 0"
  by (rule bit_word_eqI) (auto simp: primitive_tag_def bit_simps)

lemma primitive_tag_id: "tag AND CBS_ASN1_CONSTRUCTED = 0 \<Longrightarrow> primitive_tag tag = tag"
proof -
  assume "tag AND CBS_ASN1_CONSTRUCTED = 0"
  then have "bit (tag AND CBS_ASN1_CONSTRUCTED) n = bit (0 :: u32) n" for n by simp
  then show ?thesis by (intro bit_word_eqI) (auto simp: primitive_tag_def bit_simps)
qed

lemma inner_tag_not_constructed:
  "stag AND CBS_ASN1_CONSTRUCTED = 0 \<Longrightarrow> inner_tag stag tag AND CBS_ASN1_CONSTRUCTED = 0"
  by (simp add: inner_tag_def)

text \<open>A nested call: the loop with one unit of fuel less, one level deeper.\<close>

lemma nested_converts:
  assumes "\<And>f. f < fuel \<Longrightarrow> loop_ok alloc f" and "cbs_ok inp" and "cbs_bytes inp = ber_encs ts @ tail_of eoc rest"
    and "length (cbs_bytes inp) < fuel" and "builder_rel cbb st" and "length (snd st) = d" and "depth < kMaxDepth"
    and "\<forall>t\<in>set ts. ber_wf stag (kMaxDepth - Suc depth) t" and "stag AND CBS_ASN1_CONSTRUCTED = 0"
  shows "converts alloc cbb (cbs_convert_ber alloc fuel (inp, cbb) d stag eoc (depth + 1))
    (cbs_drop inp (length (ber_encs ts) + (if eoc then 2 else 0))) (abs_append (concat (map (written stag) ts)) st)"
proof -
  obtain f where f: "fuel = Suc f" using assms(4) by (cases fuel) auto
  have "loop_ok alloc f" using assms(1) f by simp
  from loop_okD [OF this assms(2,3) _ assms(5,6), of "depth + 1" stag] show ?thesis
    using assms(4,7-9) by (simp add: f del: length_cbs_bytes)
qed

text \<open>The three kinds of elements: what the loop does with them is what \<open>element_converts\<close> asks for.\<close>

lemma prim_body:
  assumes "alloc_ok alloc" and "is_indefinite hl contents = Some False" and "CBS_skip contents hl = Ok () body"
    and "cbs_ok body" and "tag AND CBS_ASN1_CONSTRUCTED = 0" and "builder_rel cbb s" and "length (snd s) = d1"
  shows "converts alloc cbb (element_body alloc fuel depth contents tag hl d1 ct (inp1, cbb)) inp1 (abs_append (cbs_bytes body) s)"
proof -
  have "refines alloc cbb (CBB_add_bytes alloc cbb d1 (CBS_data body) (CBS_len body)) (Some (abs_append (cbs_bytes body) s))"
    using CBB_add_bytes_refines [OF assms(1,6), of d1 "CBS_len body" "CBS_data body"] assms(4,7)
    by (simp add: abs_put_flushed CBS_len_def CBS_data_def cbs_ok_def cbs_bytes_def)
  then show ?thesis using assms(2,3,5) by (simp add: element_body_def converts_out)
qed

lemma definite_body:
  assumes "\<And>f. f < fuel \<Longrightarrow> loop_ok alloc f" and "is_indefinite hl contents = Some False" and "CBS_skip contents hl = Ok () body"
    and "cbs_ok body" and "cbs_bytes body = ber_encs ts" and "tag AND CBS_ASN1_CONSTRUCTED \<noteq> 0"
    and "length (ber_encs ts) < fuel" and "depth < kMaxDepth" and "\<forall>t\<in>set ts. ber_wf ct (kMaxDepth - Suc depth) t"
    and "ct AND CBS_ASN1_CONSTRUCTED = 0" and "builder_rel cbb s" and "length (snd s) = d1"
  shows "converts alloc cbb (element_body alloc fuel depth contents tag hl d1 ct (inp1, cbb)) inp1
    (abs_append (concat (map (written ct) ts)) s)"
proof -
  have "cbs_bytes body = ber_encs ts @ tail_of False []" using assms(5) by (simp add: tail_of_def)
  moreover have "length (cbs_bytes body) < fuel" using assms(5,7) by simp
  ultimately have "converts alloc cbb (cbs_convert_ber alloc fuel (body, cbb) d1 ct False (depth + 1))
      (cbs_drop body (length (ber_encs ts) + (if False then 2 else 0))) (abs_append (concat (map (written ct) ts)) s)"
    using assms(4,8-) by (intro nested_converts [OF assms(1)])
  then show ?thesis using assms(2,3,6) by (auto simp: element_body_def intro: converts_with_in)
qed

lemma indefinite_body:
  assumes "\<And>f. f < fuel \<Longrightarrow> loop_ok alloc f" and "is_indefinite hl contents = Some True"
    and "cbs_ok inp1" and "cbs_bytes inp1 = ber_encs ts @ 0 # 0 # rest"
    and "length (cbs_bytes inp1) < fuel" and "depth < kMaxDepth" and "\<forall>t\<in>set ts. ber_wf ct (kMaxDepth - Suc depth) t"
    and "ct AND CBS_ASN1_CONSTRUCTED = 0" and "builder_rel cbb s" and "length (snd s) = d1"
  shows "converts alloc cbb (element_body alloc fuel depth contents tag hl d1 ct (inp1, cbb))
    (cbs_drop inp1 (length (ber_encs ts) + 2)) (abs_append (concat (map (written ct) ts)) s)"
proof -
  have "cbs_bytes inp1 = ber_encs ts @ tail_of True rest" using assms(4) by (simp add: tail_of_def)
  from nested_converts [OF assms(1,3) this assms(5,9,10,6-8)] show ?thesis using assms(2) by (simp add: element_body_def)
qed

text \<open>One step of the loop: the element and then the rest.\<close>

lemma loop_step:
  assumes a: "alloc_ok alloc" and IH: "loop_ok alloc fuel"
    and get: "CBS_get_any_ber_asn1_element inp = Ok (contents, tag, hl, f) inp1" "is_eoc hl contents = Some False" "0 < CBS_len inp"
    and rel: "builder_rel cbb st" "length (snd st) = d"
    and bs: "length bs \<le> 0xFFFFFFFE" "stag = 0 \<or> primitive_tag tag = stag" "frame_bytes stag tag bs = w"
    and body: "\<And>cbb1 s d1. builder_rel cbb1 s \<Longrightarrow> length (snd s) = d1 \<Longrightarrow>
      converts alloc cbb1 (element_body alloc fuel depth contents tag hl d1 (child_tag stag tag) (inp1, cbb1)) inp2 (abs_append bs s)"
    and inp2: "cbs_ok inp2" "cbs_bytes inp2 = ber_encs ts @ tail_of eoc rest" "length (cbs_bytes inp2) \<le> fuel"
    and depth: "depth \<le> kMaxDepth" "\<forall>t\<in>set ts. ber_wf stag (kMaxDepth - depth) t"
  shows "converts alloc cbb (convert_loop alloc (Suc fuel) (inp, cbb) d stag eoc depth)
    (cbs_drop inp2 (length (ber_encs ts) + (if eoc then 2 else 0)))
    (abs_append (w @ concat (map (written stag) ts)) st)"
  unfolding convert_loop_element [OF get]
proof (rule element_converts [OF a rel bs(1,2)])
  show "converts alloc cbb1 (element_body alloc fuel depth contents tag hl d1 (child_tag stag tag) (inp1, cbb1)) inp2
      (abs_append bs s)" if "builder_rel cbb1 s" "length (snd s) = d1" for cbb1 s d1 by (rule body [OF that])
  fix cbb3 assume r: "builder_rel cbb3 (abs_append (frame_bytes stag tag bs) st)"
  show "converts alloc cbb3 (convert_loop alloc fuel (inp2, cbb3) d stag eoc depth)
      (cbs_drop inp2 (length (ber_encs ts) + (if eoc then 2 else 0))) (abs_append (w @ concat (map (written stag) ts)) st)"
    using loop_okD [OF IH inp2 r _ depth] rel(2) bs(3) by (simp add: abs_append_length abs_append_append)
qed (use bs(3) in \<open>simp_all add: abs_append_size\<close>)

lemma child_tag_primitive: "tag AND CBS_ASN1_CONSTRUCTED = 0 \<Longrightarrow> child_tag stag tag = stag"
  by (simp add: child_tag_def)

lemma child_tag_constructed: "tag AND CBS_ASN1_CONSTRUCTED \<noteq> 0 \<Longrightarrow> child_tag stag tag = inner_tag stag tag"
  by (simp add: child_tag_def)

lemma wf_string_tag: "ber_wf stag n t \<Longrightarrow> stag AND CBS_ASN1_CONSTRUCTED = 0"
  by (cases t; cases n) (auto simp: primitive_tag_not_constructed)

lemma ber_enc_not_Nil [simp]: "ber_enc t \<noteq> []"
  by (cases t rule: ber_enc.cases) auto

lemma nonempty_reader: "cbs_ok s \<Longrightarrow> cbs_bytes s \<noteq> [] \<Longrightarrow> 0 < CBS_len s"
  using length_cbs_bytes [of s] by (simp add: CBS_len_def word_less_nat_alt flip: length_greater_0_conv)

lemma element_step:
  assumes a: "alloc_ok alloc" and IH: "\<And>f. f < Suc fuel \<Longrightarrow> loop_ok alloc f"
    and inp: "cbs_ok inp" "cbs_bytes inp = ber_enc t @ ber_encs ts @ tail_of eoc rest" "length (cbs_bytes inp) \<le> Suc fuel"
    and rel: "builder_rel cbb st" "length (snd st) = d" and depth: "depth \<le> kMaxDepth"
    and wf: "ber_wf stag (kMaxDepth - depth) t" "\<forall>t\<in>set ts. ber_wf stag (kMaxDepth - depth) t"
  shows "converts alloc cbb (convert_loop alloc (Suc fuel) (inp, cbb) d stag eoc depth)
    (cbs_drop inp (length (ber_encs (t # ts)) + (if eoc then 2 else 0)))
    (abs_append (concat (map (written stag) (t # ts))) st)"
proof -
  have pos: "0 < CBS_len inp" using nonempty_reader [OF inp(1)] inp(2) by simp
  have IHf: "loop_ok alloc fuel" and IHn: "\<And>f. f < fuel \<Longrightarrow> loop_ok alloc f" using IH by simp_all
  let ?tl = "ber_encs ts @ tail_of eoc rest"
  show ?thesis
  proof (cases t)
    case (Prim tag k c)
    with wf have w: "tag AND CBS_ASN1_CONSTRUCTED = 0" "len_ok k (length c)" "\<not> (tag = 0 \<and> k = 0 \<and> c = [])"
      "length c \<le> 0xFFFFFFFE" "stag = 0 \<or> primitive_tag tag = stag" by (auto simp: primitive_tag_id)
    have bs: "cbs_bytes inp = der_tag tag @ ber_len k (length c) @ c @ ?tl" using inp(2) Prim by simp
    obtain hl where h: "CBS_get_any_ber_asn1_element inp =
          Ok (cbs_take inp (hl + length c), tag, of_nat hl, nonminimal k (length c)) (cbs_drop inp (hl + length c))"
        "is_eoc (of_nat hl) (cbs_take inp (hl + length c)) = Some (tag = 0 \<and> k = 0 \<and> c = [])"
        "is_indefinite (of_nat hl) (cbs_take inp (hl + length c)) = Some False"
        "\<exists>body. CBS_skip (cbs_take inp (hl + length c)) (of_nat hl) = Ok () body \<and> cbs_ok body \<and> cbs_bytes body = c"
        "cbs_ok (cbs_drop inp (hl + length c))" "cbs_bytes (cbs_drop inp (hl + length c)) = ?tl"
        "hl = length (der_tag tag) + length (ber_len k (length c))" "2 \<le> hl"
      by (rule definite_element [OF inp(1) bs w(2)])
    from h(4) obtain body where body: "CBS_skip (cbs_take inp (hl + length c)) (of_nat hl) = Ok () body" "cbs_ok body"
      "cbs_bytes body = c" by blast
    have "length ?tl \<le> fuel" using inp(3) h(7,8) unfolding bs by simp
    then have "converts alloc cbb (convert_loop alloc (Suc fuel) (inp, cbb) d stag eoc depth)
        (cbs_drop (cbs_drop inp (hl + length c)) (length (ber_encs ts) + (if eoc then 2 else 0)))
        (abs_append (written stag t @ concat (map (written stag) ts)) st)"
      using prim_body [OF a h(3) body(1,2) w(1)] h w written_Prim [of stag "kMaxDepth - depth" tag k c] wf(1)
      by (intro loop_step [OF a IHf h(1) _ pos rel w(4,5)] wf(2) depth) (auto simp: Prim body(3))
    then show ?thesis using h(7) by (simp add: Prim cbs_drop_drop add.assoc)
  next
    case (Constr tag l us)
    then obtain n where n: "kMaxDepth - depth = Suc n" using wf(1) by (cases "kMaxDepth - depth") auto
    then have n': "kMaxDepth - Suc depth = n" "depth < kMaxDepth" by simp_all
    have w: "tag AND CBS_ASN1_CONSTRUCTED \<noteq> 0" "stag = 0 \<or> primitive_tag tag = stag"
        "length (concat (map (written (inner_tag stag tag)) us)) \<le> 0xFFFFFFFE"
        "\<forall>t\<in>set us. ber_wf (inner_tag stag tag) (kMaxDepth - Suc depth) t"
      using wf(1) by (simp_all add: Constr n n'(1))
    have wr: "frame_bytes stag tag (concat (map (written (inner_tag stag tag)) us)) = written stag t"
      using written_Constr [of stag n tag l us] wf(1) by (simp add: Constr n)
    have ct: "child_tag stag tag = inner_tag stag tag" "inner_tag stag tag AND CBS_ASN1_CONSTRUCTED = 0"
      using child_tag_constructed [OF w(1)] inner_tag_not_constructed [OF wf_string_tag [OF wf(1)]] by simp_all
    show ?thesis
    proof (cases l)
      case (Some k)
      let ?c = "ber_encs us"
      have len: "len_ok k (length ?c)" using wf(1) by (simp add: Constr n Some)
      have bs: "cbs_bytes inp = der_tag tag @ ber_len k (length ?c) @ ?c @ ?tl" using inp(2) by (simp add: Constr Some)
      obtain hl where h: "CBS_get_any_ber_asn1_element inp =
            Ok (cbs_take inp (hl + length ?c), tag, of_nat hl, nonminimal k (length ?c)) (cbs_drop inp (hl + length ?c))"
          "is_eoc (of_nat hl) (cbs_take inp (hl + length ?c)) = Some (tag = 0 \<and> k = 0 \<and> ?c = [])"
          "is_indefinite (of_nat hl) (cbs_take inp (hl + length ?c)) = Some False"
          "\<exists>body. CBS_skip (cbs_take inp (hl + length ?c)) (of_nat hl) = Ok () body \<and> cbs_ok body \<and> cbs_bytes body = ?c"
          "cbs_ok (cbs_drop inp (hl + length ?c))" "cbs_bytes (cbs_drop inp (hl + length ?c)) = ?tl"
          "hl = length (der_tag tag) + length (ber_len k (length ?c))" "2 \<le> hl"
        by (rule definite_element [OF inp(1) bs len])
      from h(4) obtain body where body: "CBS_skip (cbs_take inp (hl + length ?c)) (of_nat hl) = Ok () body" "cbs_ok body"
        "cbs_bytes body = ?c" by blast
      have eoc: "is_eoc (of_nat hl) (cbs_take inp (hl + length ?c)) = Some False" using h(2) w(1) by auto
      have fuel: "length ?tl \<le> fuel" "length ?c < fuel" using inp(3) h(7,8) unfolding bs by simp_all
      have "converts alloc cbb (convert_loop alloc (Suc fuel) (inp, cbb) d stag eoc depth)
          (cbs_drop (cbs_drop inp (hl + length ?c)) (length (ber_encs ts) + (if eoc then 2 else 0)))
          (abs_append (written stag t @ concat (map (written stag) ts)) st)"
        using definite_body [OF IHn h(3) body w(1) fuel(2) n'(2) w(4) ct(2)] fuel(1)
        by (intro loop_step [OF a IHf h(1) eoc pos rel w(3,2) wr _ h(5,6)] wf(2) depth) (auto simp: ct(1) h(6))
      then show ?thesis using h(7) by (simp add: Constr Some cbs_drop_drop add.assoc)
    next
      case None
      have bs: "cbs_bytes inp = der_tag tag @ 0x80 # ber_encs us @ 0 # 0 # ?tl" using inp(2) by (simp add: Constr None)
      obtain hl where h: "CBS_get_any_ber_asn1_element inp = Ok (cbs_take inp hl, tag, of_nat hl, True) (cbs_drop inp hl)"
          "is_eoc (of_nat hl) (cbs_take inp hl) = Some False" "is_indefinite (of_nat hl) (cbs_take inp hl) = Some True"
          "cbs_ok (cbs_drop inp hl)" "cbs_bytes (cbs_drop inp hl) = ber_encs us @ 0 # 0 # ?tl" "hl = length (der_tag tag) + 1"
        by (rule indefinite_element [OF inp(1) bs w(1)])
      have "0 < length (der_tag tag)" by simp
      then have fuel: "length (ber_encs us @ 0 # 0 # ?tl) < fuel" using inp(3) unfolding bs length_append list.size by linarith
      let ?i = "cbs_drop (cbs_drop inp hl) (length (ber_encs us) + 2)"
      have le: "length (ber_encs us) + 2 \<le> length (cbs_bytes (cbs_drop inp hl))" unfolding h(5) by simp
      have i: "cbs_ok ?i" "cbs_bytes ?i = ?tl"
        using cbs_ok_drop [OF h(4) le] cbs_bytes_drop [OF h(4) le] unfolding h(5) by simp_all
      have il: "length (cbs_bytes ?i) \<le> fuel" using fuel unfolding i(2) by simp
      have "converts alloc cbb (convert_loop alloc (Suc fuel) (inp, cbb) d stag eoc depth)
          (cbs_drop ?i (length (ber_encs ts) + (if eoc then 2 else 0)))
          (abs_append (written stag t @ concat (map (written stag) ts)) st)"
        using indefinite_body [OF IHn h(3,4,5) fuel [folded h(5)] n'(2) w(4) ct(2)]
        by (intro loop_step [OF a IHf h(1,2) pos rel w(3,2) wr _ i il] wf(2) depth) (auto simp: ct(1))
      then show ?thesis using h(6) by (simp add: Constr None cbs_drop_drop add_ac)
    qed
  qed
qed

lemma convert_loop_ok:
  assumes "alloc_ok alloc"
  shows "loop_ok alloc fuel"
proof (induction fuel rule: less_induct)
  case (less fuel)
  show ?case
    unfolding loop_ok_def
  proof (intro allI impI)
    fix inp cbb st d stag eoc depth ts rest
    assume i: "cbs_ok inp" "cbs_bytes inp = ber_encs ts @ tail_of eoc rest" "length (cbs_bytes inp) \<le> fuel"
      and rel: "builder_rel cbb st" "length (snd st) = d" and depth: "depth \<le> kMaxDepth"
      and wf: "\<forall>t\<in>set ts. ber_wf stag (kMaxDepth - depth) t"
    show "converts alloc cbb (convert_loop alloc fuel (inp, cbb) d stag eoc depth)
        (cbs_drop inp (length (ber_encs ts) + (if eoc then 2 else 0))) (abs_append (concat (map (written stag) ts)) st)"
    proof (cases ts)
      case Nil
      then show ?thesis using loop_end [OF i(1) _ rel(1) i(3)] i(2) by simp
    next
      case (Cons t ts')
      have "fuel \<noteq> 0"
      proof
        assume "fuel = 0"
        with i(3) have "cbs_bytes inp = []" by (metis le_zero_eq length_0_conv)
        then show False using i(2) Cons by simp
      qed
      then obtain f where f: "fuel = Suc f" by (cases fuel) auto
      show ?thesis
        using element_step [OF assms less.IH [unfolded f] i(1) _ _ rel depth, where t = t and ts = ts' and eoc = eoc and rest = rest and stag = stag] i(2,3) wf
        by (simp add: Cons f del: length_cbs_bytes)
    qed
  qed
qed

end
