(* ===== verification/BerSafe.thy ===== *)
theory BerSafe
  imports BerConvert
begin

text \<open>
  The BER functions on arbitrary input: no read outside of the input, no failed assertion, and the depth of the calls
  stays below the number of input bytes, so they return.
\<close>

unbundle bit_operations_syntax

lemma element_spec_take:
  assumes "element_spec s ber_ok tag t octets = Ok r s'"
  shows "\<exists>h n f. t + 1 \<le> h \<and> take_element s tag h n f = Ok r s'"
proof -
  obtain lb ls where o: "octets = lb # ls" using assms by (cases octets) (auto simp: element_spec_def)
  show ?thesis
  proof (cases "unat lb < 128")
    case True
    then show ?thesis using assms by (auto simp: element_spec_def o)
  next
    case False
    then have "long_form s ber_ok tag (t + 1) (unat lb - 128) ls = Ok r s'" using assms by (simp add: element_spec_def o)
    then show ?thesis
      unfolding long_form_def Let_def by (fastforce split: if_splits intro: exI [of _ "t + 1 + (unat lb - 128)"])
  qed
qed

lemma any_ber_element_shape:
  assumes "cbs_ok s" and "CBS_get_any_ber_asn1_element s = Ok (contents, tag, hl, f) s'"
  obtains h n where "contents = cbs_take s (h + n)" and "hl = of_nat h" and "s' = cbs_drop s (h + n)"
    and "2 \<le> h" and "h + n \<le> length (cbs_bytes s)"
proof -
  from assms obtain tag' c where "element_spec s True tag' (length (der_tag tag')) c = Ok (contents, tag, hl, f) s'"
    by (auto simp: CBS_get_any_ber_asn1_element_def any_asn1_element_eq split: outcome.splits)
  from element_spec_take [OF this] obtain h n f' where h: "length (der_tag tag') + 1 \<le> h"
    "take_element s tag' h n f' = Ok (contents, tag, hl, f) s'" by blast
  have "0 < length (der_tag tag')" by simp
  then have "2 \<le> h" using h(1) by linarith
  then show ?thesis using that [of h n] h(2) by (auto simp: take_element_def simp del: length_cbs_bytes split: if_splits)
qed

lemma any_ber_element_safe:
  assumes "cbs_ok s" and "CBS_get_any_ber_asn1_element s = Ok (contents, tag, hl, f) s'"
  shows "cbs_ok contents" and "cbs_ok s'" and "0 < unat hl" and "unat hl \<le> length (cbs_bytes contents)"
    and "length (cbs_bytes contents) + length (cbs_bytes s') = length (cbs_bytes s)" and "2 \<le> unat hl"
proof -
  obtain h n where h: "contents = cbs_take s (h + n)" "hl = of_nat h" "s' = cbs_drop s (h + n)" "2 \<le> h"
      "h + n \<le> length (cbs_bytes s)"
    by (rule any_ber_element_shape [OF assms])
  have "length (cbs_bytes s) < 2 ^ 64" using unat_lt_2p [of "cbs_len s"] assms(1) by simp
  then have u: "unat (of_nat h :: size_t) = h" using h(5) by (intro unat_of_nat_less) simp
  note t = cbs_ok_take [OF assms(1) h(5)] cbs_bytes_take [OF assms(1) h(5)]
  note d = cbs_ok_drop [OF assms(1) h(5)] cbs_bytes_drop [OF assms(1) h(5)]
  show "cbs_ok contents" "cbs_ok s'" using t(1) d(1) h(1,3) by simp_all
  show "0 < unat hl" "2 \<le> unat hl" using h(2,4) u by simp_all
  have l: "length (cbs_bytes contents) = h + n" using t(2) h(1,5) by (simp del: length_cbs_bytes)
  then show "unat hl \<le> length (cbs_bytes contents)" using h(2) u by simp
  show "length (cbs_bytes contents) + length (cbs_bytes s') = length (cbs_bytes s)"
    using l d(2) h(3,5) by (simp del: length_cbs_bytes)
qed

lemma any_ber_element_no_fault: "cbs_ok s \<Longrightarrow> CBS_get_any_ber_asn1_element s \<noteq> Fault"
  by (simp add: CBS_get_any_ber_asn1_element_def element_fail)

lemma is_eoc_no_fault: "cbs_ok c \<Longrightarrow> is_eoc hl c \<noteq> None"
  by (auto simp: is_eoc_def CBS_len_def CBS_data_def mem_range_def cbs_ok_def)

lemma is_indefinite_no_fault:
  "cbs_ok c \<Longrightarrow> 0 < unat hl \<Longrightarrow> unat hl \<le> length (cbs_bytes c) \<Longrightarrow> is_indefinite hl c \<noteq> None"
  using is_indefinite_eq [of c "unat hl"] by simp

lemma skip_header_safe:
  assumes "cbs_ok c" and "unat hl \<le> length (cbs_bytes c)"
  obtains body where "CBS_skip c hl = Ok () body" and "cbs_ok body" and "length (cbs_bytes body) + unat hl = length (cbs_bytes c)"
proof (rule that)
  show "CBS_skip c hl = Ok () (cbs_drop c (unat hl))" using assms by (simp add: CBS_skip_eq del: length_cbs_bytes)
  show "cbs_ok (cbs_drop c (unat hl))" using assms by (rule cbs_ok_drop)
  show "length (cbs_bytes (cbs_drop c (unat hl))) + unat hl = length (cbs_bytes c)"
    using assms cbs_bytes_drop [OF assms] by (simp del: length_cbs_bytes)
qed

lemma empty_reader: "cbs_ok s \<Longrightarrow> length (cbs_bytes s) \<le> 0 \<Longrightarrow> \<not> 0 < CBS_len s"
  by (simp add: CBS_len_def word_less_nat_alt)

section \<open>Looking for BER\<close>

lemma find_ber_no_fault:
  shows "cbs_ok s \<Longrightarrow> length (cbs_bytes s) < fuel \<Longrightarrow> cbs_find_ber fuel s depth \<noteq> Fault"
    and "cbs_ok s \<Longrightarrow> length (cbs_bytes s) \<le> fuel \<Longrightarrow> find_ber_loop fuel s b depth \<noteq> Fault"
proof (induction fuel s depth and fuel s b depth rule: cbs_find_ber_find_ber_loop.induct)
  case (2 fuel orig_in depth)
  have "CBS_init (CBS_data orig_in) (CBS_len orig_in) = orig_in" by (simp add: CBS_init_def CBS_data_def CBS_len_def)
  then show ?case using 2 by simp
next
  case (3 inp ber_found depth)
  then show ?case using empty_reader by simp
next
  case (4 fuel inp ber_found depth)
  show ?case
  proof (cases "0 < CBS_len inp")
    case True
    show ?thesis
    proof (cases "CBS_get_any_ber_asn1_element inp")
      case (Ok p inp')
      obtain contents tag hl f where p: "p = (contents, tag, hl, f)" by (cases p)
      note e = any_ber_element_safe [OF 4(4) Ok [unfolded p]]
      obtain body where b: "CBS_skip contents hl = Ok () body" "cbs_ok body"
          "length (cbs_bytes body) + unat hl = length (cbs_bytes contents)"
        by (rule skip_header_safe [OF e(1,4)])
      have len: "length (cbs_bytes body) < fuel" "length (cbs_bytes inp') \<le> fuel" using b(3) e(3-6) 4(5) by linarith+
      show ?thesis
        using True Ok p b(1) 4(1) [OF True Ok p [symmetric] refl refl _ _ _ b(1) b(2) len(1)]
          4(2) [OF True Ok p [symmetric] refl refl] 4(3) [OF True Ok p [symmetric] refl refl] b(2) e(2) len
        by (auto simp: obind_neq_Fault simp del: length_cbs_bytes)
    qed (use True any_ber_element_no_fault [OF 4(4)] in simp_all)
  qed simp
qed simp

section \<open>Converting\<close>

definition open_at :: "CBB \<Rightarrow> nat \<Rightarrow> bool" where
  "open_at cbb d \<longleftrightarrow> (\<exists>st. builder_rel cbb st \<and> length (snd st) = d)"

lemma open_atI: "builder_rel cbb st \<Longrightarrow> length (snd st) = d \<Longrightarrow> open_at cbb d"
  unfolding open_at_def by blast

text \<open>\<open>steady d n m\<close>: the outcome \<open>m\<close> leaves a good reader with at most \<open>n\<close> bytes and a builder whose innermost open object is
  the one at position \<open>d\<close>.\<close>

definition steady :: "nat \<Rightarrow> nat \<Rightarrow> ('a, CBS \<times> CBB) outcome \<Rightarrow> bool" where
  "steady d n m \<longleftrightarrow>
     (case m of
        Fault \<Rightarrow> False
      | Fail _ \<Rightarrow> True
      | Ok _ (inp, cbb) \<Rightarrow> cbs_ok inp \<and> length (cbs_bytes inp) \<le> n \<and> open_at cbb d)"

lemma steady_bind:
  assumes "steady d n m"
    and "\<And>a inp cbb. m = Ok a (inp, cbb) \<Longrightarrow> cbs_ok inp \<Longrightarrow> length (cbs_bytes inp) \<le> n \<Longrightarrow> open_at cbb d \<Longrightarrow>
      steady d' n' (f a (inp, cbb))"
  shows "steady d' n' (obind m f)"
  using assms by (cases m) (auto simp: steady_def)

lemma steady_mono: "steady d n m \<Longrightarrow> n \<le> n' \<Longrightarrow> steady d n' m"
  by (auto simp: steady_def split: outcome.splits)

lemma steady_out:
  assumes "refines alloc cbb m (Some st)" and "cbs_ok inp" and "length (cbs_bytes inp) \<le> n" and "length (snd st) = d"
  shows "steady d n (on_out inp m)"
  using assms by (cases m) (auto simp: refines_def steady_def intro: open_atI)

lemma steady_flush:
  assumes "alloc_ok alloc" and "open_at cbb d1" and "d \<le> d1" and "cbs_ok inp" and "length (cbs_bytes inp) \<le> n"
  shows "steady d n (on_out inp (CBB_flush alloc cbb d))"
proof -
  obtain st where st: "builder_rel cbb st" "length (snd st) = d1" using assms(2) by (auto simp: open_at_def)
  then show ?thesis
  using CBB_flush_refines [OF assms(1) st(1), of d] assms(3-5)
  by (cases "CBB_flush alloc cbb d") (auto simp: refines_def steady_def intro!: open_atI dest: abs_flush_length)
qed

lemma steady_with_in:
  assumes "steady d n m" and "cbs_ok inp" and "length (cbs_bytes inp) \<le> n'"
  shows "steady d n' (with_in inp m)"
  using assms by (cases m) (auto simp: steady_def)

lemma steady_open:
  assumes "alloc_ok alloc" and "open_at cbb d" and "stag AND CBS_ASN1_CONSTRUCTED = 0"
  shows "case open_contents alloc cbb d stag tag of
      Fault \<Rightarrow> False
    | Fail _ \<Rightarrow> True
    | Ok (d1, ct) cbb1 \<Rightarrow> d \<le> d1 \<and> ct AND CBS_ASN1_CONSTRUCTED = 0 \<and> open_at cbb1 d1"
proof -
  define ot where "ot = (if tag AND CBS_ASN1_CONSTRUCTED \<noteq> 0 \<and> is_string_type tag then primitive_tag tag else tag)"
  obtain st where st: "builder_rel cbb st" "length (snd st) = d" using assms(2) by (auto simp: open_at_def)
  have ref: "refines alloc cbb (CBB_add_asn1 alloc cbb d ot) (abs_child d (der_tag ot) Asn1_prefix st)"
    using CBB_add_asn1_refines [OF assms(1) st(1), of d ot] st(2) by simp
  have "open_at cbb1 (Suc d)" if "CBB_add_asn1 alloc cbb d ot = Ok u cbb1" for u cbb1
    using ref that abs_child_length by (fastforce simp: refines_def intro: open_atI)
  moreover have "CBB_add_asn1 alloc cbb d ot \<noteq> Fault" using ref by (auto simp: refines_def)
  ultimately show ?thesis
    using assms(2,3) by (cases "CBB_add_asn1 alloc cbb d ot") (auto simp: open_contents_def Let_def ot_def [symmetric])
qed

text \<open>The claim about the loop for a given amount of fuel.\<close>

definition loop_safe :: "allocator \<Rightarrow> nat \<Rightarrow> bool" where
  "loop_safe alloc fuel \<longleftrightarrow>
     (\<forall>inp cbb d stag eoc depth.
        cbs_ok inp \<longrightarrow> length (cbs_bytes inp) \<le> fuel \<longrightarrow> open_at cbb d \<longrightarrow>
        stag AND CBS_ASN1_CONSTRUCTED = 0 \<longrightarrow>
        steady d (length (cbs_bytes inp)) (convert_loop alloc fuel (inp, cbb) d stag eoc depth))"

lemma nested_safe:
  assumes "\<And>f. f < fuel \<Longrightarrow> loop_safe alloc f" and "cbs_ok inp" and "length (cbs_bytes inp) < fuel"
    and "open_at cbb d" and "stag AND CBS_ASN1_CONSTRUCTED = 0"
  shows "steady d (length (cbs_bytes inp)) (cbs_convert_ber alloc fuel (inp, cbb) d stag eoc depth)"
proof -
  obtain f where f: "fuel = Suc f" using assms(3) by (cases fuel) auto
  have "loop_safe alloc f" using assms(1) f by simp
  then have "steady d (length (cbs_bytes inp)) (convert_loop alloc f (inp, cbb) d stag eoc depth)"
    using assms(2-) unfolding loop_safe_def by (simp add: f del: length_cbs_bytes)
  then show ?thesis using assms(5) by (simp add: f steady_def)
qed

lemma body_safe:
  assumes a: "alloc_ok alloc" and IH: "\<And>f. f < fuel \<Longrightarrow> loop_safe alloc f"
    and c: "cbs_ok contents" "2 \<le> unat hl" "unat hl \<le> length (cbs_bytes contents)" "length (cbs_bytes contents) \<le> Suc fuel"
    and i: "cbs_ok inp1" "length (cbs_bytes inp1) < fuel"
    and s: "open_at cbb d1" "ct AND CBS_ASN1_CONSTRUCTED = 0"
  shows "steady d1 (length (cbs_bytes inp1)) (element_body alloc fuel depth contents tag hl d1 ct (inp1, cbb))"
proof -
  obtain b where b: "is_indefinite hl contents = Some b" using is_indefinite_no_fault [OF c(1) _ c(3)] c(2) by auto
  obtain body where body: "CBS_skip contents hl = Ok () body" "cbs_ok body"
      "length (cbs_bytes body) + unat hl = length (cbs_bytes contents)"
    by (rule skip_header_safe [OF c(1,3)])
  have len: "length (cbs_bytes body) < fuel" using body(3) c(2,4) by linarith
  show ?thesis
  proof (cases b)
    case True
    then show ?thesis using b nested_safe [OF IH i s] by (simp add: element_body_def)
  next
    case False
    have "steady d1 (length (cbs_bytes inp1)) (with_in inp1 (cbs_convert_ber alloc fuel (body, cbb) d1 ct False (depth + 1)))"
      using nested_safe [OF IH body(2) len s] i(1) by (intro steady_with_in) simp_all
    moreover have "steady d1 (length (cbs_bytes inp1)) (on_out inp1 (CBB_add_bytes alloc cbb d1 (CBS_data body) (CBS_len body)))"
    proof -
      obtain st where st: "builder_rel cbb st" "length (snd st) = d1" using s(1) by (auto simp: open_at_def)
      have "refines alloc cbb (CBB_add_bytes alloc cbb d1 (CBS_data body) (CBS_len body)) (Some (abs_append (cbs_bytes body) st))"
        using CBB_add_bytes_refines [OF a st(1), of d1 "CBS_len body" "CBS_data body"] st(2) body(2)
        by (simp add: abs_put_flushed CBS_len_def CBS_data_def cbs_ok_def cbs_bytes_def)
      from steady_out [OF this i(1) order_refl] show ?thesis using st(2) by (simp add: abs_append_length)
    qed
    ultimately show ?thesis using b False body(1) by (simp add: element_body_def)
  qed
qed

lemma convert_loop_safe:
  assumes a: "alloc_ok alloc"
  shows "loop_safe alloc fuel"
proof (induction fuel rule: less_induct)
  case (less fuel)
  show ?case
    unfolding loop_safe_def
  proof (intro allI impI)
    fix inp cbb d stag eoc depth
    assume i: "cbs_ok inp" "length (cbs_bytes inp) \<le> fuel" and rel: "open_at cbb d" and st: "stag AND CBS_ASN1_CONSTRUCTED = 0"
    show "steady d (length (cbs_bytes inp)) (convert_loop alloc fuel (inp, cbb) d stag eoc depth)"
    proof (cases "0 < CBS_len inp")
      case False
      then show ?thesis using i rel by (cases fuel) (simp_all add: steady_def del: length_cbs_bytes)
    next
      case True
      then obtain f where f: "fuel = Suc f" using i empty_reader by (cases fuel) auto
      show ?thesis
      proof (cases "CBS_get_any_ber_asn1_element inp")
        case Fault
        then show ?thesis using any_ber_element_no_fault [OF i(1)] by simp
      next
        case (Fail s)
        then show ?thesis using True by (simp add: f steady_def)
      next
        case (Ok p inp1)
        obtain contents tag hl b where p: "p = (contents, tag, hl, b)" by (cases p)
        note e = any_ber_element_safe [OF i(1) Ok [unfolded p]]
        have len: "length (cbs_bytes inp1) < f" "length (cbs_bytes inp1) \<le> length (cbs_bytes inp)"
            "length (cbs_bytes contents) \<le> Suc f"
          using e(4-6) i(2) f by linarith+
        obtain eo where eo: "is_eoc hl contents = Some eo" using is_eoc_no_fault [OF e(1)] by auto
        show ?thesis
        proof (cases eo)
          case eoc: True
          then show ?thesis using True Ok p eo e(2) len(2) rel by (simp add: f steady_def)
        next
          case False
          have go: "convert_loop alloc fuel (inp, cbb) d stag eoc depth =
            obind (on_out inp1 (open_contents alloc cbb d stag tag)) (\<lambda>(d1, ct) s1.
              obind (element_body alloc f depth contents tag hl d1 ct s1) (\<lambda>_ (inp2, cbb2).
              obind (on_out inp2 (CBB_flush alloc cbb2 d)) (\<lambda>_ s3. convert_loop alloc f s3 d stag eoc depth)))"
            unfolding f using Ok p eo False True by (intro convert_loop_element) simp_all
          show ?thesis
          proof (cases "open_contents alloc cbb d stag tag")
            case (Ok q cbb1)
            obtain d1 ct where q: "q = (d1, ct)" by (cases q)
            have o: "d \<le> d1" "ct AND CBS_ASN1_CONSTRUCTED = 0" "open_at cbb1 d1"
              using steady_open [OF a rel st, of tag] Ok q by simp_all
            have "steady d1 (length (cbs_bytes inp1)) (element_body alloc f depth contents tag hl d1 ct (inp1, cbb1))"
              using less.IH f by (intro body_safe [OF a _ e(1,6,4) len(3) e(2) len(1) o(3,2)]) simp
            then have "steady d (length (cbs_bytes inp)) (obind (element_body alloc f depth contents tag hl d1 ct (inp1, cbb1))
                (\<lambda>_ (inp2, cbb2). obind (on_out inp2 (CBB_flush alloc cbb2 d)) (\<lambda>_ s3. convert_loop alloc f s3 d stag eoc depth)))"
            proof (rule steady_bind)
              fix u inp2 cbb2 assume s2: "cbs_ok inp2" "length (cbs_bytes inp2) \<le> length (cbs_bytes inp1)" "open_at cbb2 d1"
              have "steady d (length (cbs_bytes inp1)) (on_out inp2 (CBB_flush alloc cbb2 d))"
                by (rule steady_flush [OF a s2(3) o(1) s2(1,2)])
              then have "steady d (length (cbs_bytes inp))
                  (obind (on_out inp2 (CBB_flush alloc cbb2 d)) (\<lambda>_ s3. convert_loop alloc f s3 d stag eoc depth))"
              proof (rule steady_bind)
                fix v inp3 cbb3 assume s3: "cbs_ok inp3" "length (cbs_bytes inp3) \<le> length (cbs_bytes inp1)" "open_at cbb3 d"
                have "length (cbs_bytes inp3) \<le> f" using s3(2) len(1) by linarith
                then have "steady d (length (cbs_bytes inp3)) (convert_loop alloc f (inp3, cbb3) d stag eoc depth)"
                  using less.IH [of f] s3(1,3) st unfolding loop_safe_def f by blast
                then show "steady d (length (cbs_bytes inp)) (convert_loop alloc f (inp3, cbb3) d stag eoc depth)"
                  by (rule steady_mono) (use s3(2) len(2) in linarith)
              qed
              then show "steady d (length (cbs_bytes inp)) (case (inp2, cbb2) of (inp2, cbb2) \<Rightarrow>
                  obind (on_out inp2 (CBB_flush alloc cbb2 d)) (\<lambda>_ s3. convert_loop alloc f s3 d stag eoc depth))" by simp
            qed
            then show ?thesis unfolding go by (simp add: Ok q)
          qed (use steady_open [OF a rel st, of tag] go in \<open>simp_all add: steady_def\<close>)
        qed
      qed
    qed
  qed
qed

lemma convert_ber_safe:
  assumes "alloc_ok alloc" and "cbs_ok inp" and "length (cbs_bytes inp) < fuel" and "open_at cbb d" and "stag AND CBS_ASN1_CONSTRUCTED = 0"
  shows "steady d (length (cbs_bytes inp)) (cbs_convert_ber alloc fuel (inp, cbb) d stag eoc depth)"
  using nested_safe [OF convert_loop_safe [OF assms(1)] assms(2-)] .

lemma init_open: "alloc_ok alloc \<Longrightarrow> CBB_init alloc n = Ok u cbb \<Longrightarrow> open_at cbb 0"
  using CBB_init_spec [of alloc n] by (auto intro: open_atI)

lemma finish_no_fault: "alloc_ok alloc \<Longrightarrow> open_at cbb d \<Longrightarrow> CBB_finish alloc cbb 0 True \<noteq> Fault"
  using CBB_finish_spec [of alloc cbb] by (auto simp: open_at_def split: outcome.splits)

text \<open>The error exits: no operation of the builder loses the top-level object, so \<open>CBB_cleanup\<close> passes its assertion there.\<close>

definition rooted :: "CBB \<Rightarrow> bool" where
  "rooted cbb \<longleftrightarrow> chain cbb \<noteq> [] \<and> \<not> is_child (hd (chain cbb))"

definition roots :: "('s \<Rightarrow> CBB) \<Rightarrow> ('a, 's) outcome \<Rightarrow> bool" where
  "roots f m \<longleftrightarrow> (\<forall>s. final_state m = Some s \<longrightarrow> rooted (f s))"

named_theorems root_intros \<open>operations that keep the top-level object\<close>

lemma clean_exit_rooted: "rooted cbb \<Longrightarrow> clean_exit cbb s = Fail s"
  using hd_conv_nth [of "chain cbb"] by (simp add: rooted_def clean_exit_def CBB_cleanup_def)

lemma roots_simps [simp]: "roots f Fault" "roots f (Fail s) \<longleftrightarrow> rooted (f s)" "roots f (Ok a s) \<longleftrightarrow> rooted (f s)"
  by (simp_all add: roots_def)

lemma roots_obind [root_intros]: "roots f m \<Longrightarrow> (\<And>a s. rooted (f s) \<Longrightarrow> roots f (g a s)) \<Longrightarrow> roots f (obind m g)"
  by (cases m) auto

lemma roots_local [root_intros]: "rooted (f s) \<Longrightarrow> (\<And>a t. roots f (g a t)) \<Longrightarrow> roots f (obind_local m s g)"
  by (cases m) auto

lemma roots_if [root_intros]: "roots f m \<Longrightarrow> roots f m' \<Longrightarrow> roots f (if b then m else m')"
  by simp

lemma roots_on_in [root_intros]: "rooted cbb \<Longrightarrow> roots snd (on_in m cbb)"
  by (cases m) auto

lemma roots_on_out [root_intros]: "roots (\<lambda>c. c) m \<Longrightarrow> roots snd (on_out inp m)"
  by (cases m) auto

lemma roots_with_in [root_intros]: "roots snd m \<Longrightarrow> roots snd (with_in inp m)"
  by (cases m) auto

lemma roots_on_base [root_intros]: "rooted cbb \<Longrightarrow> roots (\<lambda>c. c) (on_base cbb g)"
  by (auto simp: on_base_def rooted_def split: option.split outcome.split)

lemma roots_flush [root_intros]: "rooted cbb \<Longrightarrow> roots (\<lambda>c. c) (CBB_flush alloc cbb d)"
  by (auto simp: CBB_flush_def rooted_def Let_def split: option.split outcome.split)

lemma rooted_attach: "rooted cbb \<Longrightarrow> rooted (attach_child cbb d off n a)"
  by (simp add: rooted_def attach_child_def)

lemma roots_add_u8 [root_intros]: "rooted cbb \<Longrightarrow> roots (\<lambda>c. c) (CBB_add_u8 alloc cbb d b)"
  unfolding CBB_add_u8_def cbb_add_u_def by (intro root_intros)

lemma roots_add_bytes [root_intros]: "rooted cbb \<Longrightarrow> roots (\<lambda>c. c) (CBB_add_bytes alloc cbb d data n)"
  unfolding CBB_add_bytes_def by (intro root_intros)

lemma roots_base128 [root_intros]: "rooted cbb \<Longrightarrow> roots (\<lambda>c. c) (add_base128_integer alloc cbb d v)"
proof -
  have "rooted cbb \<Longrightarrow> roots (\<lambda>c. c) (add_base128_loop alloc cbb d v n)" for n cbb
    by (induction n arbitrary: cbb) (auto simp: Let_def intro!: root_intros)
  then show "rooted cbb \<Longrightarrow> ?thesis" by (simp add: add_base128_integer_def)
qed

lemma roots_add_asn1 [root_intros]: "rooted cbb \<Longrightarrow> roots (\<lambda>c. c) (CBB_add_asn1 alloc cbb d tag)"
  unfolding CBB_add_asn1_def Let_def by (auto intro!: root_intros rooted_attach split: option.split)

lemma roots_open [root_intros]: "rooted cbb \<Longrightarrow> roots (\<lambda>c. c) (open_contents alloc cbb d stag tag)"
  unfolding open_contents_def Let_def by (auto intro!: root_intros)

lemma init_rooted: "roots (\<lambda>c. c) (CBB_init alloc n)"
  by (auto simp: CBB_init_def cbb_init_def CBB_zero_def rooted_def split: option.split)

lemma finish_rooted: "rooted cbb \<Longrightarrow> roots (\<lambda>c. c) (CBB_finish alloc cbb d given)"
  unfolding CBB_finish_def
  by (auto intro!: root_intros simp: CBB_cleanup_def split: option.split) (simp_all add: rooted_def)

lemma convert_rooted:
  "rooted (snd s) \<Longrightarrow> roots snd (cbs_convert_ber alloc fuel s d stag eoc depth)"
  "rooted (snd s) \<Longrightarrow> roots snd (convert_loop alloc fuel s d stag eoc depth)"
proof (induction fuel arbitrary: s d stag eoc depth)
  case 0
  {
    case 1
    then show ?case by simp
  next
    case 2
    then show ?case by (cases s) simp
  }
next
  case (Suc fuel)
  {
    case 1
    then show ?case using Suc.IH(2) by simp
  next
    case 2
    then show ?case
      by (cases s) (auto intro!: root_intros Suc.IH split: option.split bool.split)
  }
qed

lemma chunks_rooted: "rooted result \<Longrightarrow> roots (\<lambda>c. c) (implicit_chunks alloc fuel child result tag)"
  by (induction fuel arbitrary: child result) (auto intro!: root_intros)

lemma open_rooted: "open_at cbb d \<Longrightarrow> rooted cbb"
  by (auto simp: open_at_def builder_rel_def rooted_def)

lemma finish_string_no_fault: "alloc_ok alloc \<Longrightarrow> open_at cbb d \<Longrightarrow> finish_string alloc cbb inp \<noteq> Fault"
  using finish_no_fault [of alloc cbb d] finish_rooted [OF open_rooted [of cbb d], of alloc 0 True]
  by (auto simp: finish_string_def clean_exit_rooted split: outcome.split)

lemma init_no_fault: "CBB_init alloc n \<noteq> Fault"
  by (auto simp: CBB_init_def cbb_init_def split: option.splits)

lemma obind_local_neq_Fault: "obind_local m s f \<noteq> Fault \<longleftrightarrow> m \<noteq> Fault \<and> (\<forall>a t. m = Ok a t \<longrightarrow> f a t \<noteq> Fault)"
  by (cases m) auto

lemma ber_to_der_no_fault:
  assumes "alloc_ok alloc" and "cbs_ok inp"
  shows "CBS_asn1_ber_to_der alloc inp \<noteq> Fault"
proof -
  let ?fuel = "unat (CBS_len inp) + 1"
  have len: "length (cbs_bytes inp) < ?fuel" using assms(2) by (simp add: CBS_len_def)
  have conv: "cbs_convert_ber alloc ?fuel (inp, cbb) 0 0 False 0 \<noteq> Fault \<and>
      (\<forall>u inp' cbb'. cbs_convert_ber alloc ?fuel (inp, cbb) 0 0 False 0 = Ok u (inp', cbb') \<longrightarrow> open_at cbb' 0)"
    if "open_at cbb 0" for cbb
    using convert_ber_safe [OF assms len that, of 0 False 0] by (auto simp: steady_def)
  have "CBS_get_any_asn1_element inp \<noteq> Fault" using assms(2) by (auto simp: CBS_get_any_asn1_element_def obind_neq_Fault element_fail)
  moreover have "cbs_find_ber ?fuel inp 0 \<noteq> Fault" by (rule find_ber_no_fault(1) [OF assms(2) len])
  moreover have "(case CBB_init alloc (CBS_len inp) of
             Fault \<Rightarrow> Fault
           | Fail cbb \<Rightarrow> clean_exit cbb inp
           | Ok _ cbb \<Rightarrow>
               (case cbs_convert_ber alloc ?fuel (inp, cbb) 0 0 False 0 of
                  Fault \<Rightarrow> Fault
                | Fail (inp', cbb') \<Rightarrow> clean_exit cbb' inp'
                | Ok _ (inp', cbb') \<Rightarrow> finish_string alloc cbb' inp')) \<noteq> Fault"
  proof (cases "CBB_init alloc (CBS_len inp)")
    case (Ok u cbb)
    have r: "rooted cbb" using init_rooted [of alloc "CBS_len inp"] Ok by (simp add: roots_def)
    have "roots snd (cbs_convert_ber alloc ?fuel (inp, cbb) 0 0 False 0)" using convert_rooted r by simp
    then show ?thesis
      using Ok conv [OF init_open [OF assms(1) Ok]] finish_string_no_fault [OF assms(1)]
      by (auto simp: roots_def clean_exit_rooted split: outcome.splits)
  qed (use init_no_fault init_rooted [of alloc "CBS_len inp"] in \<open>auto simp: roots_def clean_exit_rooted\<close>)
  ultimately show ?thesis
    unfolding CBS_asn1_ber_to_der_def Let_def by (auto simp: obind_local_neq_Fault obind_neq_Fault)
qed

section \<open>Implicitly tagged strings\<close>

lemma get_asn1_shrinks:
  assumes "cbs_ok s" and "CBS_get_asn1 s tag = Ok out s'"
  shows "cbs_ok out" and "cbs_ok s'" and "length (cbs_bytes s') < length (cbs_bytes s)"
proof -
  obtain c where c: "der_at s tag c" "out = contents_of s tag c" "s' = after_element s tag c"
    using assms CBS_get_asn1_iff by blast
  note r = contents_reader [OF assms(1) c(1)]
  show "cbs_ok out" "cbs_ok s'" using r(1,3) c by simp_all
  have "0 < length (der_element tag c)" by (simp add: der_element_def der_header_def)
  moreover have "cbs_bytes s \<noteq> []" using c(1) by (auto simp: der_at_def der_element_def der_header_def)
  then have "0 < length (cbs_bytes s)" by simp
  ultimately show "length (cbs_bytes s') < length (cbs_bytes s)"
    using r(4) c(3) by (simp del: length_cbs_bytes length_greater_0_conv)
qed

lemma get_asn1_no_fault: "cbs_ok s \<Longrightarrow> CBS_get_asn1 s tag \<noteq> Fault"
proof -
  assume s: "cbs_ok s"
  from any_element_cases [OF s] show ?thesis
  proof cases
    case 1
    then show ?thesis by (simp add: CBS_get_asn1_der [OF s])
  next
    case 2
    then show ?thesis by (simp add: CBS_get_asn1_def cbs_get_asn1_def)
  qed
qed

lemma implicit_chunks_safe:
  assumes "alloc_ok alloc"
  shows "cbs_ok child \<Longrightarrow> length (cbs_bytes child) \<le> fuel \<Longrightarrow> open_at result 0 \<Longrightarrow>
    (case implicit_chunks alloc fuel child result tag of Fault \<Rightarrow> False | Fail _ \<Rightarrow> True | Ok _ result' \<Rightarrow> open_at result' 0)"
proof (induction fuel arbitrary: child result)
  case 0
  then show ?case using empty_reader by auto
next
  case (Suc fuel)
  show ?case
  proof (cases "0 < CBS_len child")
    case True
    show ?thesis
    proof (cases "CBS_get_asn1 child tag")
      case Fault
      then show ?thesis using get_asn1_no_fault [OF Suc.prems(1)] by simp
    next
      case (Fail s)
      then show ?thesis using True by simp
    next
      case (Ok chunk child')
      note c = get_asn1_shrinks [OF Suc.prems(1) Ok]
      obtain st where st: "builder_rel result st" "length (snd st) = 0" using Suc.prems(3) by (auto simp: open_at_def)
      have ref: "refines alloc result (CBB_add_bytes alloc result 0 (CBS_data chunk) (CBS_len chunk))
          (Some (abs_append (cbs_bytes chunk) st))"
        using CBB_add_bytes_refines [OF assms st(1), of 0 "CBS_len chunk" "CBS_data chunk"] st(2) c(1)
        by (simp add: abs_put_flushed CBS_len_def CBS_data_def cbs_ok_def cbs_bytes_def)
      show ?thesis
      proof (cases "CBB_add_bytes alloc result 0 (CBS_data chunk) (CBS_len chunk)")
        case O: (Ok u result')
        have "length (snd (abs_append (cbs_bytes chunk) st)) = 0" using st(2) by (simp only: abs_append_length)
        moreover have "builder_rel result' (abs_append (cbs_bytes chunk) st)" using ref O by (simp add: refines_def)
        ultimately have "open_at result' 0" by (rule open_atI [rotated])
        then show ?thesis using Suc.IH [OF c(2), of result'] c(3) Suc.prems(2) True Ok O by simp
      qed (use ref True Ok in \<open>simp_all add: refines_def\<close>)
    qed
  qed (use Suc.prems in simp)
qed

lemma implicit_string_no_fault:
  assumes "alloc_ok alloc" and "cbs_ok inp" and "otag AND CBS_ASN1_CONSTRUCTED = 0"
    and "itag AND CBS_ASN1_CONSTRUCTED = 0" and "is_string_type itag"
  shows "CBS_get_asn1_implicit_string alloc inp otag itag \<noteq> Fault"
proof -
  have peek: "CBS_peek_asn1_tag inp otag \<noteq> Fault" "CBS_peek_asn1_tag inp otag = Ok b s \<Longrightarrow> s = inp" for b s
    using parse_asn1_tag_no_fault [OF assms(2)] by (auto simp: CBS_peek_asn1_tag_def split: outcome.splits if_splits)
  have chunks: "(case implicit_chunks alloc (unat (CBS_len child)) child result itag of
                       Fault \<Rightarrow> Fault
                     | Fail result' \<Rightarrow> clean_exit result' inp'
                     | Ok _ result' \<Rightarrow> finish_string alloc result' inp') \<noteq> Fault"
    if "CBB_init alloc (CBS_len inp) = Ok u result" "CBS_get_asn1 inp tag = Ok child inp'" for u result tag child inp'
  proof -
    note c = get_asn1_shrinks [OF assms(2) that(2)]
    have "length (cbs_bytes child) \<le> unat (CBS_len child)" using c(1) by (simp add: CBS_len_def)
    from implicit_chunks_safe [OF assms(1) c(1) this init_open [OF assms(1) that(1)], of itag]
    moreover have "roots (\<lambda>c. c) (implicit_chunks alloc (unat (CBS_len child)) child result itag)"
      using init_rooted [of alloc "CBS_len inp"] that(1) by (intro chunks_rooted) (simp add: roots_def)
    ultimately show ?thesis using finish_string_no_fault [OF assms(1)]
      by (auto simp: roots_def clean_exit_rooted split: outcome.splits)
  qed
  have err: "clean_exit result s \<noteq> Fault" if "final_state (CBB_init alloc (CBS_len inp)) = Some result" for result and s :: CBS
    using init_rooted [of alloc "CBS_len inp"] that by (simp add: roots_def clean_exit_rooted)
  have "(case CBB_init alloc (CBS_len inp) of
             Fault \<Rightarrow> Fault
           | Fail result \<Rightarrow> clean_exit result inp
           | Ok _ result \<Rightarrow>
               (case CBS_get_asn1 inp tag of
                  Fault \<Rightarrow> Fault
                | Fail inp' \<Rightarrow> clean_exit result inp'
                | Ok child inp' \<Rightarrow>
                    (case implicit_chunks alloc (unat (CBS_len child)) child result itag of
                       Fault \<Rightarrow> Fault
                     | Fail result' \<Rightarrow> clean_exit result' inp'
                     | Ok _ result' \<Rightarrow> finish_string alloc result' inp'))) \<noteq> Fault" for tag
  proof (cases "CBB_init alloc (CBS_len inp)")
    case (Ok u result)
    then show ?thesis using chunks [OF Ok] err [of result] get_asn1_no_fault [OF assms(2), of tag]
      by (cases "CBS_get_asn1 inp tag") simp_all
  next
    case (Fail result)
    then show ?thesis using err [of result inp] by simp
  qed (use init_no_fault in simp)
  then show ?thesis
    using assms(3-5) peek get_asn1_no_fault [OF assms(2)]
    by (auto simp: CBS_get_asn1_implicit_string_def obind_neq_Fault)
qed

end
