(* ===== verification/BerProps.thy ===== *)
theory BerProps
  imports BerSafe
begin

text \<open>
  What \<open>CBS_asn1_ber_to_der\<close> and \<open>CBS_get_asn1_implicit_string\<close> return.
\<close>

unbundle bit_operations_syntax

section \<open>Looking for BER\<close>

text \<open>The verdict of \<open>cbs_find_ber\<close> on a sequence of values.  A BER form of an element itself is always seen; what was found inside a
  constructed element counts only when no element follows.\<close>

fun ber_scan :: "bool \<Rightarrow> ber list \<Rightarrow> bool" where
  "ber_scan found [] = found"
| "ber_scan found (Prim tag k c # ts) = (nonminimal k (length c) \<or> ber_scan False ts)"
| "ber_scan found (Constr tag None us # ts) = True"
| "ber_scan found (Constr tag (Some k) us # ts) =
     (nonminimal k (length (ber_encs us)) \<or> is_string_type tag \<or> ber_scan (ber_scan False us) ts)"

lemma find_ber_exact:
  assumes "cbs_ok inp" and "cbs_bytes inp = ber_encs ts" and "length (ber_encs ts) \<le> fuel" and "depth \<le> kMaxDepth"
    and "\<forall>t\<in>set ts. \<exists>stag. ber_wf stag (kMaxDepth - depth) t"
  shows "find_ber_loop fuel inp found depth = Ok (ber_scan found ts) ()"
  using assms
proof (induction fuel arbitrary: inp ts found depth rule: less_induct)
  case (less fuel)
  show ?case
  proof (cases ts)
    case Nil
    then have "\<not> 0 < CBS_len inp" using less.prems(1,2) by (intro empty_reader) simp_all
    then show ?thesis using Nil by (cases fuel) simp_all
  next
    case (Cons t ts')
    have "0 < length (ber_enc t)" by simp
    then obtain f where f: "fuel = Suc f" using less.prems(3) Cons by (cases fuel) simp_all
    have pos: "0 < CBS_len inp" using less.prems(1,2) Cons by (intro nonempty_reader) simp_all
    obtain stag where wf: "ber_wf stag (kMaxDepth - depth) t" using less.prems(5) Cons by auto
    have IH: "find_ber_loop f inp' found' depth = Ok (ber_scan found' ts') ()"
      if "cbs_ok inp'" "cbs_bytes inp' = ber_encs ts'" for inp' found'
      using less.prems(3-5) \<open>0 < length (ber_enc t)\<close> Cons f that by (intro less.IH) (simp_all del: length_greater_0_conv)
    show ?thesis
    proof (cases t)
      case (Prim tag k c)
      have bs: "cbs_bytes inp = der_tag tag @ ber_len k (length c) @ c @ ber_encs ts'" using less.prems(2) Cons Prim by simp
      have len: "len_ok k (length c)" and con: "tag AND CBS_ASN1_CONSTRUCTED = 0" using wf by (auto simp: Prim)
      obtain hl where h: "CBS_get_any_ber_asn1_element inp =
            Ok (cbs_take inp (hl + length c), tag, of_nat hl, nonminimal k (length c)) (cbs_drop inp (hl + length c))"
          "cbs_ok (cbs_drop inp (hl + length c))" "cbs_bytes (cbs_drop inp (hl + length c)) = ber_encs ts'"
        by (rule definite_element [OF less.prems(1) bs len])
      then show ?thesis using pos con IH [OF h(2,3)] by (simp add: f Cons Prim)
    next
      case (Constr tag l us)
      then obtain n where n: "kMaxDepth - depth = Suc n" using wf by (cases "kMaxDepth - depth") auto
      then have n': "kMaxDepth - Suc depth = n" "depth < kMaxDepth" by simp_all
      have con: "tag AND CBS_ASN1_CONSTRUCTED \<noteq> 0" using wf by (simp add: Constr n)
      show ?thesis
      proof (cases l)
        case None
        have bs: "cbs_bytes inp = der_tag tag @ 0x80 # ber_encs us @ 0 # 0 # ber_encs ts'"
          using less.prems(2) by (simp add: Cons Constr None)
        show ?thesis
          using read_indefinite [OF less.prems(1) bs con] pos by (simp add: f Cons Constr None)
      next
        case (Some k)
        let ?c = "ber_encs us"
        have bs: "cbs_bytes inp = der_tag tag @ ber_len k (length ?c) @ ?c @ ber_encs ts'"
          using less.prems(2) by (simp add: Cons Constr Some)
        have len: "len_ok k (length ?c)" using wf by (simp add: Constr n Some)
        obtain hl where h: "CBS_get_any_ber_asn1_element inp =
              Ok (cbs_take inp (hl + length ?c), tag, of_nat hl, nonminimal k (length ?c)) (cbs_drop inp (hl + length ?c))"
            "cbs_ok (cbs_drop inp (hl + length ?c))" "cbs_bytes (cbs_drop inp (hl + length ?c)) = ber_encs ts'"
            "\<exists>body. CBS_skip (cbs_take inp (hl + length ?c)) (of_nat hl) = Ok () body \<and> cbs_ok body \<and> cbs_bytes body = ?c"
            "hl = length (der_tag tag) + length (ber_len k (length ?c))" "2 \<le> hl"
          by (rule definite_element [OF less.prems(1) bs len])
        then obtain body where b: "CBS_skip (cbs_take inp (hl + length ?c)) (of_nat hl) = Ok () body" "cbs_ok body"
          "cbs_bytes body = ?c" by blast
        have "hl + length ?c \<le> length (ber_encs ts)" by (simp add: Cons Constr Some h(5))
        then have le: "length ?c < f" using less.prems(3) f h(6) by linarith
        then obtain g where g: "f = Suc g" by (cases f) auto
        have "CBS_init (CBS_data body) (CBS_len body) = body" by (simp add: CBS_init_def CBS_data_def CBS_len_def)
        moreover have "find_ber_loop g body False (Suc depth) = Ok (ber_scan False us) ()"
          using b(2,3) le n' wf by (intro less.IH) (auto simp: f g Constr n Some)
        ultimately have "cbs_find_ber f body (Suc depth) = Ok (ber_scan False us) ()" using n'(2) by (simp add: g)
        then show ?thesis using pos h(1) con b(1) IH [OF h(2,3)] by (simp add: f Cons Constr Some)
      qed
    qed
  qed
qed

text \<open>Values without any BER form.\<close>

fun der_only :: "ber \<Rightarrow> bool" where
  "der_only (Prim tag k c) = (\<not> nonminimal k (length c))"
| "der_only (Constr tag None us) = False"
| "der_only (Constr tag (Some k) us) =
     (\<not> nonminimal k (length (concat (map ber_enc us))) \<and> \<not> is_string_type tag \<and> (\<forall>u\<in>set us. der_only u))"

lemma ber_len_minimal:
  assumes "len_ok k n" and "\<not> nonminimal k n"
  shows "ber_len k n = der_len n"
proof (cases "k = 0")
  case True
  then show ?thesis using assms by (simp add: ber_len_def der_len_def len_ok_def)
next
  case False
  then have "128 \<le> n" "256 ^ (k - 1) \<le> n" "n < 256 ^ Suc (k - 1)" using assms by (simp_all add: nonminimal_def len_ok_def)
  then have "nbytes n = k" using nbytes_unique [of "k - 1" n] False by simp
  then show ?thesis using \<open>128 \<le> n\<close> False by (simp add: ber_len_def der_len_def)
qed

lemma der_only_enc: "der_only t \<Longrightarrow> ber_wf 0 n t \<Longrightarrow> ber_enc t = ber_der t"
proof (induction t arbitrary: n rule: ber_enc.induct)
  case (1 tag k c)
  then show ?case by (simp add: ber_len_minimal der_element_def der_header_def)
next
  case (3 tag k us)
  then obtain m where n: "n = Suc m" by (cases n) auto
  have "ber_enc u = ber_der u" if "u \<in> set us" for u
    using 3 that by (intro 3(1) [of u m]) (auto simp: n inner_tag_def)
  then have "concat (map ber_enc us) = concat (map ber_der us)" by (intro arg_cong [of _ _ concat]) simp
  then show ?case using 3(2-) by (simp add: n ber_len_minimal der_element_def der_header_def)
qed simp

lemma der_only_scan: "\<forall>t\<in>set ts. der_only t \<Longrightarrow> ber_scan False ts = False"
  by (induction "False" ts rule: ber_scan.induct) auto

section \<open>The whole conversion\<close>

lemma scan_found: "ber_scan False ts \<Longrightarrow> ts \<noteq> []"
  by auto

text \<open>The first element of a sequence in which no BER form was seen is of definite, minimal length.\<close>

lemma scan_not_found:
  assumes "\<not> ber_scan False (t # ts)" and "ber_wf stag n t"
  shows "\<exists>tag c. ber_enc t = der_element tag c \<and> length c < 2 ^ 32"
proof (cases t)
  case (Prim tag k c)
  then have "ber_enc t = der_element tag c" "length c < 2 ^ 32"
    using assms len_ok_less by (auto simp: ber_len_minimal der_element_def der_header_def)
  then show ?thesis by blast
next
  case (Constr tag l us)
  then obtain k where l: "l = Some k" using assms(1) by (cases l) auto
  obtain m where "n = Suc m" using assms(2) Constr by (cases n) auto
  then have "ber_enc t = der_element tag (ber_encs us)" "length (ber_encs us) < 2 ^ 32"
    using assms len_ok_less by (auto simp: Constr l ber_len_minimal der_element_def der_header_def)
  then show ?thesis by blast
qed

lemma find_ber_top:
  assumes "cbs_ok inp" and "cbs_bytes inp = ber_encs ts" and "\<forall>u\<in>set ts. ber_wf 0 kMaxDepth u"
  shows "cbs_find_ber (unat (CBS_len inp) + 1) inp 0 = Ok (ber_scan False ts) ()"
proof -
  have self: "CBS_init (CBS_data inp) (CBS_len inp) = inp" by (simp add: CBS_init_def CBS_data_def CBS_len_def)
  have len: "length (ber_encs ts) \<le> unat (CBS_len inp)"
    using length_cbs_bytes [OF assms(1)] unfolding assms(2) by (simp add: CBS_len_def)
  have "find_ber_loop (unat (CBS_len inp)) inp False 0 = Ok (ber_scan False ts) ()"
    using assms(3) by (intro find_ber_exact [OF assms(1,2) len]) auto
  then show ?thesis by (simp add: self)
qed

lemma ber_to_der_unscanned:
  assumes "cbs_ok inp" and "cbs_bytes inp = ber_encs (t # ts)" and "\<forall>u\<in>set (t # ts). ber_wf 0 kMaxDepth u"
    and "\<not> ber_scan False (t # ts)"
  shows "\<exists>out inp'. CBS_asn1_ber_to_der alloc inp = Ok (out, None) inp' \<and> cbs_ok out \<and>
    cbs_bytes out = ber_enc t \<and> cbs_bytes inp' = ber_encs ts"
proof -
  obtain tag c where c: "ber_enc t = der_element tag c" "length c < 2 ^ 32"
    using scan_not_found [OF assms(4), of 0 kMaxDepth] assms(3) by (meson list.set_intros(1))
  have bs: "cbs_bytes inp = der_element tag c @ ber_encs ts" using assms(2) c(1) by simp
  then have at: "der_at inp tag c" using c(2) by (auto simp: der_at_def)
  let ?n = "length (der_element tag c)"
  have le: "?n \<le> length (cbs_bytes inp)" unfolding bs by simp
  have "CBS_asn1_ber_to_der alloc inp = Ok (cbs_take inp ?n, None) (cbs_drop inp ?n)"
    using find_ber_top [OF assms(1-3)] assms(4) any_element_der [OF assms(1) at]
    by (simp add: CBS_asn1_ber_to_der_def Let_def)
  moreover have "cbs_ok (cbs_take inp ?n)" "cbs_bytes (cbs_take inp ?n) = ber_enc t" "cbs_bytes (cbs_drop inp ?n) = ber_encs ts"
    using cbs_ok_take [OF assms(1) le] cbs_bytes_take [OF assms(1) le] cbs_bytes_drop [OF assms(1) le] c(1)
    by (simp_all add: bs)
  ultimately show ?thesis by auto
qed

lemma convert_and_finish:
  assumes a: "alloc_ok alloc" "alloc_total alloc" and inp: "cbs_ok inp" "cbs_bytes inp = ber_encs ts"
    and wf: "\<forall>t\<in>set ts. ber_wf 0 kMaxDepth t" and len: "length (concat (map ber_der ts)) < 2 ^ 64"
  obtains cbb0 cbb m n cbb' where "CBB_init alloc c0 = Ok () cbb0"
    and "cbs_convert_ber alloc (unat (CBS_len inp) + 1) (inp, cbb0) 0 0 False 0 = Ok () (cbs_drop inp (length (ber_encs ts)), cbb)"
    and "CBB_finish alloc cbb 0 True = Ok (m, n) cbb'" and "unat n \<le> length m" and "take (unat n) m = concat (map ber_der ts)"
proof -
  let ?f = "unat (CBS_len inp)" and ?out = "concat (map ber_der ts)"
  obtain cbb0 where i: "CBB_init alloc c0 = Ok () cbb0" and rel: "builder_rel cbb0 ([], [])"
    and room: "\<And>k. k < 2 ^ 64 \<Longrightarrow> cbb_room alloc cbb0 k"
    using CBB_init_spec [OF a(1), of c0] a(2) by (cases "CBB_init alloc c0") auto
  have "converts alloc cbb0 (convert_loop alloc ?f (inp, cbb0) 0 0 False 0)
      (cbs_drop inp (length (ber_encs ts) + (if False then 2 else 0))) (abs_append (concat (map (written 0) ts)) ([], []))"
    using inp wf rel length_cbs_bytes [OF inp(1)]
    by (intro loop_okD [OF convert_loop_ok [OF a(1)]]) (simp_all add: tail_of_def CBS_len_def)
  moreover have "abs_append (concat (map (written 0) ts)) ([], []) = (?out, [])" by (simp add: written_def cong: map_cong)
  ultimately have c: "converts alloc cbb0 (convert_loop alloc ?f (inp, cbb0) 0 0 False 0) (cbs_drop inp (length (ber_encs ts))) (?out, [])"
    by simp
  then obtain cbb where cv: "convert_loop alloc ?f (inp, cbb0) 0 0 False 0 = Ok () (cbs_drop inp (length (ber_encs ts)), cbb)"
    and rel1: "builder_rel cbb (?out, [])" and room1: "\<forall>n. cbb_room alloc cbb0 n \<longrightarrow> cbb_room alloc cbb n"
    using room [OF len] by (auto simp: converts_def split: outcome.splits)
  obtain m n cbb' where "CBB_finish alloc cbb 0 True = Ok (m, n) cbb'" "unat n \<le> length m" "take (unat n) m = ?out"
    using CBB_finish_spec [OF a(1) rel1] room1 room [OF len] by (cases "CBB_finish alloc cbb 0 True") auto
  then show ?thesis using that [of cbb0 cbb m n cbb'] i cv by (simp add: kMaxDepth_def)
qed

text \<open>(C6) \<open>CBS_asn1_ber_to_der\<close> on the encodings of any sequence of well-formed BER values.  When the scan sees a BER form, the result
  is a fresh buffer with the DER encoding that the values stand for (indefinite and oversized lengths replaced by minimal ones,
  constructed strings joined, at any depth up to the limit) and the whole input is consumed, all elements of it, although
  \<^verbatim>\<open>internal.h\<close> documents that one element is read and \<open>*in\<close> advanced over it; otherwise the result is the first element of the
  input itself, the reader is left behind that element, and nothing is allocated.\<close>

theorem ber_to_der_exact:
  assumes "alloc_ok alloc" and "alloc_total alloc" and "cbs_ok inp" and "cbs_bytes inp = ber_encs (t # ts)"
    and "\<forall>u\<in>set (t # ts). ber_wf 0 kMaxDepth u" and "length (concat (map ber_der (t # ts))) < 2 ^ 64"
  shows "if ber_scan False (t # ts)
    then \<exists>out storage inp'. CBS_asn1_ber_to_der alloc inp = Ok (out, Some storage) inp' \<and> cbs_ok out \<and>
      cbs_bytes out = concat (map ber_der (t # ts)) \<and> cbs_bytes inp' = []
    else \<exists>out inp'. CBS_asn1_ber_to_der alloc inp = Ok (out, None) inp' \<and> cbs_ok out \<and>
      cbs_bytes out = ber_enc t \<and> cbs_bytes inp' = ber_encs ts"
proof -
  let ?f = "unat (CBS_len inp)" and ?us = "t # ts"
  have find: "cbs_find_ber (?f + 1) inp 0 = Ok (ber_scan False ?us) ()" by (rule find_ber_top [OF assms(3-5)])
  show ?thesis
  proof (cases "ber_scan False ?us")
    case True
    obtain cbb0 cbb m n cbb' where c: "CBB_init alloc (CBS_len inp) = Ok () cbb0"
      "cbs_convert_ber alloc (?f + 1) (inp, cbb0) 0 0 False 0 = Ok () (cbs_drop inp (length (ber_encs ?us)), cbb)"
      "CBB_finish alloc cbb 0 True = Ok (m, n) cbb'" "unat n \<le> length m" "take (unat n) m = concat (map ber_der ?us)"
      by (rule convert_and_finish [OF assms(1-6)])
    have "CBS_asn1_ber_to_der alloc inp = Ok (CBS_init m n, Some m) (cbs_drop inp (length (ber_encs ?us)))"
      using find True c(1,2,3)
      by (simp add: CBS_asn1_ber_to_der_def Let_def finish_string_def del: cbs_convert_ber.simps cbs_find_ber.simps)
    moreover have "cbs_bytes (cbs_drop inp (length (ber_encs ?us))) = []"
      using cbs_bytes_drop [OF assms(3), of "length (ber_encs ?us)"] unfolding assms(4) by simp
    ultimately show ?thesis using True finished_reader [OF c(4,5)] by auto
  qed (use ber_to_der_unscanned [OF assms(3-5)] in simp)
qed

theorem ber_to_der_exact_witness:
  "\<exists>out storage inp'. CBS_asn1_ber_to_der zero_alloc (CBS_init [0x30, 0x80, 0x24, 0x81, 6, 4, 1, 7, 4, 1, 8, 2, 1, 5, 0, 0, 5, 0] 18) =
     Ok (out, Some storage) inp' \<and> cbs_ok out \<and> cbs_bytes out = [0x30, 7, 4, 2, 7, 8, 2, 1, 5, 5, 0] \<and> cbs_bytes inp' = []"
proof -
  note der = der_tag_def ber_len_def der_len_def der_element_def der_header_def tag_number_def tag_class_def be_bytes_def
  let ?t = "Constr 0x20000010 None [Constr 0x20000004 (Some 1) [Prim 4 0 [7], Prim 4 0 [8]], Prim 2 0 [5]]"
  let ?i = "CBS_init [0x30, 0x80, 0x24, 0x81, 6, 4, 1, 7, 4, 1, 8, 2, 1, 5, 0, 0, 5, 0] 18"
  have i: "cbs_ok ?i" "cbs_bytes ?i = ber_encs (?t # [Prim 5 0 []])"
    by (simp_all add: cbs_ok_def cbs_bytes_def CBS_init_def der)
  have d: "concat (map ber_der (?t # [Prim 5 0 []])) = [0x30, 7, 4, 2, 7, 8, 2, 1, 5, 5, 0]"
    by (simp add: der is_string_type_def primitive_tag_def)
  have "\<exists>n. kMaxDepth = Suc (Suc n)" by (intro exI [of _ 2046]) (simp add: kMaxDepth_def)
  then obtain n where n: "kMaxDepth = Suc (Suc n)" by blast
  have w: "\<forall>u\<in>set (?t # [Prim 5 0 []]). ber_wf 0 kMaxDepth u"
    by (simp add: n len_ok_def written_def inner_tag_def is_string_type_def primitive_tag_def der)
  show ?thesis
    using ber_to_der_exact [OF zero_alloc_ok zero_alloc_total i w] unfolding d by simp
qed

text \<open>(C39) Input that is DER already, at every level, is returned as it is, without an allocation: the result is the first element,
  byte for byte its DER encoding.\<close>

theorem der_input_unchanged:
  assumes "cbs_ok inp" and "cbs_bytes inp = ber_encs (t # ts)"
    and "\<forall>u\<in>set (t # ts). ber_wf 0 kMaxDepth u \<and> der_only u"
  shows "\<exists>out inp'. CBS_asn1_ber_to_der alloc inp = Ok (out, None) inp' \<and> cbs_ok out \<and>
    cbs_bytes out = ber_der t \<and> cbs_bytes inp' = ber_encs ts"
proof -
  have "\<not> ber_scan False (t # ts)" using assms(3) der_only_scan [of "t # ts"] by blast
  moreover have "ber_enc t = ber_der t" using assms(3) by (intro der_only_enc [of t kMaxDepth]) simp_all
  ultimately show ?thesis using ber_to_der_unscanned [OF assms(1,2), of alloc] assms(3) by simp
qed

theorem der_input_unchanged_witness:
  "\<exists>out inp'. CBS_asn1_ber_to_der (\<lambda>_. None) (CBS_init [0x30, 3, 2, 1, 5] 5) = Ok (out, None) inp' \<and> cbs_ok out \<and>
    cbs_bytes out = ber_der (Constr 0x20000010 (Some 0) [Prim 2 0 [5]]) \<and> cbs_bytes inp' = ber_encs []"
proof (rule der_input_unchanged)
  note der = der_tag_def ber_len_def tag_number_def tag_class_def
  have "\<exists>n. kMaxDepth = Suc (Suc n)" by (intro exI [of _ 2046]) (simp add: kMaxDepth_def)
  then obtain n where n: "kMaxDepth = Suc (Suc n)" by blast
  show "cbs_ok (CBS_init [0x30, 3, 2, 1, 5] 5)"
    "cbs_bytes (CBS_init [0x30, 3, 2, 1, 5] 5) = ber_encs (Constr 0x20000010 (Some 0) [Prim 2 0 [5]] # [])"
    by (simp_all add: cbs_ok_def cbs_bytes_def CBS_init_def der)
  show "\<forall>u\<in>set (Constr 0x20000010 (Some 0) [Prim 2 0 [5]] # []). ber_wf 0 kMaxDepth u \<and> der_only u"
    by (simp add: n len_ok_def written_def inner_tag_def is_string_type_def primitive_tag_def der nonminimal_def
        der_element_def der_header_def der_len_def)
qed

text \<open>An element whose own header is DER: of definite, minimal length and no constructed string; its contents may be anything.\<close>

fun plain_header :: "ber \<Rightarrow> bool" where
  "plain_header (Prim tag k c) = (\<not> nonminimal k (length c))"
| "plain_header (Constr tag None us) = False"
| "plain_header (Constr tag (Some k) us) = (\<not> nonminimal k (length (ber_encs us)) \<and> \<not> is_string_type tag)"

lemma scan_forgets: "\<forall>v\<in>set us. plain_header v \<Longrightarrow> der_only u \<Longrightarrow> \<not> ber_scan found (us @ [u])"
proof (induction us arbitrary: found)
  case Nil
  then show ?case using der_only_scan by (cases u rule: der_only.cases) auto
next
  case (Cons v us)
  then show ?case by (cases v rule: plain_header.cases) auto
qed

text \<open>(C40) The scan forgets BER that it found inside of an element when a sibling follows.  Take any element whose header, and the
  headers of whose children \<open>us\<close>, are DER, and whose last child \<open>u\<close> is DER at every level: whatever BER forms are nested deeper in the
  other children, \<open>CBS_asn1_ber_to_der\<close> sees none, returns the element as it is and allocates nothing.\<close>

theorem ber_to_der_misses_ber:
  assumes "cbs_ok inp" and "cbs_bytes inp = ber_enc (Constr tag (Some k) (us @ [u]))"
    and "ber_wf 0 kMaxDepth (Constr tag (Some k) (us @ [u]))" and "plain_header (Constr tag (Some k) (us @ [u]))"
    and "\<forall>v\<in>set us. plain_header v" and "der_only u"
  shows "\<exists>out inp'. CBS_asn1_ber_to_der alloc inp = Ok (out, None) inp' \<and>
    cbs_bytes out = ber_enc (Constr tag (Some k) (us @ [u])) \<and> cbs_bytes inp' = []"
proof -
  let ?t = "Constr tag (Some k) (us @ [u])"
  have "\<not> ber_scan False [?t]" using assms(4) scan_forgets [OF assms(5,6), of False] by simp
  moreover have "cbs_bytes inp = ber_encs [?t]" "\<forall>u\<in>set [?t]. ber_wf 0 kMaxDepth u" using assms(2,3) by simp_all
  ultimately obtain out inp' where "CBS_asn1_ber_to_der alloc inp = Ok (out, None) inp'" "cbs_bytes out = ber_enc ?t"
      "cbs_bytes inp' = ber_encs []"
    using ber_to_der_unscanned [OF assms(1)] by blast
  then show ?thesis by simp
qed

text \<open>A SEQUENCE with a SEQUENCE with a constructed OCTET STRING, and a NULL after it; its DER encoding would be two bytes shorter.\<close>

theorem ber_to_der_misses_ber_witness:
  "(\<exists>out inp'. CBS_asn1_ber_to_der zero_alloc (CBS_init [0x30, 8, 0x30, 4, 0x24, 2, 4, 0, 5, 0] 10) = Ok (out, None) inp' \<and>
     cbs_bytes out = [0x30, 8, 0x30, 4, 0x24, 2, 4, 0, 5, 0] \<and> cbs_bytes inp' = []) \<and>
   ber_der (Constr 0x20000010 (Some 0) ([Constr 0x20000010 (Some 0) [Constr 0x20000004 (Some 0) [Prim 4 0 []]]] @ [Prim 5 0 []])) =
     [0x30, 6, 0x30, 2, 4, 0, 5, 0]"
proof -
  note der = der_tag_def ber_len_def der_len_def der_element_def der_header_def tag_number_def tag_class_def be_bytes_def
  let ?us = "[Constr 0x20000010 (Some 0) [Constr 0x20000004 (Some 0) [Prim 4 0 []]]]" and ?u = "Prim 5 0 []"
  let ?i = "CBS_init [0x30, 8, 0x30, 4, 0x24, 2, 4, 0, 5, 0] 10"
  have e: "ber_enc (Constr 0x20000010 (Some 0) (?us @ [?u])) = [0x30, 8, 0x30, 4, 0x24, 2, 4, 0, 5, 0]" by (simp add: der)
  have "\<exists>n. kMaxDepth = Suc (Suc (Suc n))" by (intro exI [of _ 2045]) (simp add: kMaxDepth_def)
  then obtain n where n: "kMaxDepth = Suc (Suc (Suc n))" by blast
  have i: "cbs_ok ?i" "cbs_bytes ?i = ber_enc (Constr 0x20000010 (Some 0) (?us @ [?u]))"
    unfolding e by (simp_all add: cbs_ok_def cbs_bytes_def CBS_init_def)
  have w: "ber_wf 0 kMaxDepth (Constr 0x20000010 (Some 0) (?us @ [?u]))"
    by (simp add: n len_ok_def written_def inner_tag_def is_string_type_def primitive_tag_def der)
  have p: "plain_header (Constr 0x20000010 (Some 0) (?us @ [?u]))" "\<forall>v\<in>set ?us. plain_header v" "der_only ?u"
    by (simp_all add: nonminimal_def is_string_type_def primitive_tag_def)
  have "ber_der (Constr 0x20000010 (Some 0) (?us @ [?u])) = [0x30, 6, 0x30, 2, 4, 0, 5, 0]"
    by (simp add: der is_string_type_def primitive_tag_def)
  then show ?thesis using ber_to_der_misses_ber [OF i w p, of zero_alloc] unfolding e by simp
qed

text \<open>(C7) No input makes the converter or the reader of implicitly tagged strings read outside of the input, fail an assertion or run
  on: for every reader, every allocator and every nesting they return, with the depth of the calls below the number of bytes.  The
  tags that a caller passes to \<open>CBS_get_asn1_implicit_string\<close> are those its first assertions ask for.\<close>

theorem ber_functions_total:
  assumes "alloc_ok alloc" and "cbs_ok inp" and "otag AND CBS_ASN1_CONSTRUCTED = 0" and "itag AND CBS_ASN1_CONSTRUCTED = 0"
    and "is_string_type itag"
  shows "CBS_asn1_ber_to_der alloc inp \<noteq> Fault \<and> CBS_get_asn1_implicit_string alloc inp otag itag \<noteq> Fault"
  using ber_to_der_no_fault [OF assms(1,2)] implicit_string_no_fault [OF assms] by blast

theorem ber_functions_total_witness:
  "CBS_asn1_ber_to_der zero_alloc (CBS_init [0x30, 0x80, 0x24, 0x80, 4] 5) \<noteq> Fault \<and>
   CBS_get_asn1_implicit_string zero_alloc (CBS_init [0x30, 0x80, 0x24, 0x80, 4] 5) 0x80000000 4 \<noteq> Fault"
  by (rule ber_functions_total [OF zero_alloc_ok])
     (simp_all add: cbs_ok_def CBS_init_def is_string_type_def primitive_tag_def)

section \<open>Implicitly tagged strings\<close>

lemma implicit_chunks_refines:
  assumes "alloc_ok alloc"
  shows "cbs_ok child \<Longrightarrow> cbs_bytes child = concat (map (der_element tag) cs) \<Longrightarrow> \<forall>c\<in>set cs. length c < 2 ^ 32 \<Longrightarrow>
    length (cbs_bytes child) \<le> fuel \<Longrightarrow> builder_rel result st \<Longrightarrow> snd st = [] \<Longrightarrow>
    refines alloc result (implicit_chunks alloc fuel child result tag) (Some (abs_append (concat cs) st))"
proof (induction cs arbitrary: fuel child result st)
  case Nil
  then have "\<not> 0 < CBS_len child" by (intro empty_reader) simp_all
  then show ?case using Nil by (cases fuel) (simp_all add: refines_Ok)
next
  case (Cons c cs)
  have at: "der_at child tag c" using Cons.prems(2,3) by (auto simp: der_at_def)
  note r = contents_reader [OF Cons.prems(1) at]
  have ne: "cbs_bytes child \<noteq> []" using Cons.prems(2) by (simp add: der_element_def der_header_def)
  then have pos: "0 < CBS_len child" by (rule nonempty_reader [OF Cons.prems(1)])
  obtain f where f: "fuel = Suc f" using Cons.prems(4) ne by (cases fuel) (simp_all del: length_cbs_bytes)
  have get: "CBS_get_asn1 child tag = Ok (contents_of child tag c) (after_element child tag c)"
    by (simp add: CBS_get_asn1_der [OF Cons.prems(1) at])
  have sh: "length (cbs_bytes (after_element child tag c)) \<le> f"
    using get_asn1_shrinks(3) [OF Cons.prems(1) get] Cons.prems(4) f by linarith
  let ?o = "contents_of child tag c"
  have "refines alloc result (CBB_add_bytes alloc result 0 (CBS_data ?o) (CBS_len ?o)) (Some (abs_append c st))"
    using CBB_add_bytes_refines [OF assms Cons.prems(5), of 0 "CBS_len ?o" "CBS_data ?o"] Cons.prems(6) r(1,2)
    by (simp add: abs_put_flushed CBS_len_def CBS_data_def cbs_ok_def cbs_bytes_def)
  moreover have "refines alloc result' (implicit_chunks alloc f (after_element child tag c) result' tag)
      (Some (abs_append (concat cs) (abs_append c st)))" if "builder_rel result' (abs_append c st)" for result'
    using that r(3,4) Cons.prems(2,3,6) sh abs_append_length [of c st] by (intro Cons.IH) simp_all
  ultimately have "refines alloc result
      (obind (CBB_add_bytes alloc result 0 (CBS_data ?o) (CBS_len ?o)) (\<lambda>_ result'.
         implicit_chunks alloc f (after_element child tag c) result' tag)) (Some (abs_append (c @ concat cs) st))"
    by (rule refines_append_seq)
  then show ?case using pos get by (simp add: f)
qed

lemma peek_exact:
  assumes "cbs_ok s" and "cbs_bytes s = der_element tag c @ rest"
  shows "CBS_peek_asn1_tag s tag' = Ok (tag' = tag) s"
proof -
  have bs: "cbs_bytes s = der_tag tag @ der_len (length c) @ c @ rest" using assms(2) by (simp add: der_element_def der_header_def)
  have "0 < CBS_len s" using nonempty_reader [OF assms(1)] bs by simp
  then have "\<not> CBS_len s < 1" by (simp add: word_less_nat_alt)
  then show ?thesis using parse_asn1_tag_complete [OF assms(1) bs] by (simp add: CBS_peek_asn1_tag_def)
qed

text \<open>\<open>CBS_get_asn1_implicit_string\<close> returns the contents of a primitive string as a part of the input, and the concatenation of the
  parts of a constructed string in a fresh buffer, and leaves the reader behind the element.\<close>

theorem implicit_string_exact:
  assumes "alloc_ok alloc" and "alloc_total alloc" and "cbs_ok inp" and "otag AND CBS_ASN1_CONSTRUCTED = 0"
    and "itag AND CBS_ASN1_CONSTRUCTED = 0" and "is_string_type itag"
    and "\<forall>c\<in>set cs. length c < 2 ^ 32" and "length (concat (map (der_element itag) cs)) < 2 ^ 32"
    and "length c < 2 ^ 32"
  shows "(cbs_bytes inp = der_element otag c @ rest \<longrightarrow>
      (\<exists>out inp'. CBS_get_asn1_implicit_string alloc inp otag itag = Ok (out, None) inp' \<and>
         cbs_bytes out = c \<and> cbs_bytes inp' = rest)) \<and>
    (cbs_bytes inp = der_element (otag OR CBS_ASN1_CONSTRUCTED) (concat (map (der_element itag) cs)) @ rest \<longrightarrow>
      (\<exists>out storage inp'. CBS_get_asn1_implicit_string alloc inp otag itag = Ok (out, Some storage) inp' \<and>
         cbs_bytes out = concat cs \<and> cbs_bytes inp' = rest))"
proof (intro conjI impI)
  assume bs: "cbs_bytes inp = der_element otag c @ rest"
  then have at: "der_at inp otag c" using assms(9) by (auto simp: der_at_def)
  show "\<exists>out inp'. CBS_get_asn1_implicit_string alloc inp otag itag = Ok (out, None) inp' \<and>
      cbs_bytes out = c \<and> cbs_bytes inp' = rest"
    using assms(4-6) peek_exact [OF assms(3) bs] contents_reader [OF assms(3) at] bs
    by (simp add: CBS_get_asn1_implicit_string_def CBS_get_asn1_der [OF assms(3) at])
next
  let ?tag = "otag OR CBS_ASN1_CONSTRUCTED" and ?c = "concat (map (der_element itag) cs)"
  assume bs: "cbs_bytes inp = der_element ?tag ?c @ rest"
  then have at: "der_at inp ?tag ?c" using assms(8) by (auto simp: der_at_def)
  note r = contents_reader [OF assms(3) at]
  have "otag \<noteq> ?tag"
  proof
    assume "otag = ?tag"
    then have "otag AND CBS_ASN1_CONSTRUCTED = ?tag AND CBS_ASN1_CONSTRUCTED" by simp
    then show False using assms(4) by (simp add: bit.conj_disj_distrib2)
  qed
  then have peek: "CBS_peek_asn1_tag inp otag = Ok False inp" using peek_exact [OF assms(3) bs, of otag] by simp
  let ?child = "contents_of inp ?tag ?c"
  have len: "length (cbs_bytes ?child) \<le> unat (CBS_len ?child)" using r(1) by (simp add: CBS_len_def)
  have "length (concat cs) \<le> length ?c" by (induction cs) (simp_all add: length_der_element)
  then have "length (concat cs) < 2 ^ 64" using assms(8) by simp
  moreover have "refines alloc cbb (implicit_chunks alloc (unat (CBS_len ?child)) ?child cbb itag) (abs_put 0 (concat cs) ([], []))"
    if "builder_rel cbb ([], [])" for cbb
    using implicit_chunks_refines [OF assms(1) r(1,2) assms(7) len that] by (simp add: abs_put_def)
  ultimately obtain m n cbb where "obind (CBB_init alloc (CBS_len inp)) (\<lambda>_ cbb.
      obind (implicit_chunks alloc (unat (CBS_len ?child)) ?child cbb itag) (\<lambda>_ cbb'. CBB_finish alloc cbb' 0 True)) = Ok (m, n) cbb"
    and m: "cbs_bytes (CBS_init m n) = concat cs"
    using write_and_finish [OF assms(1,2), of "concat cs" "\<lambda>cbb. implicit_chunks alloc (unat (CBS_len ?child)) ?child cbb itag"] by blast
  then obtain cbb0 cbb1 where "CBB_init alloc (CBS_len inp) = Ok () cbb0"
    "implicit_chunks alloc (unat (CBS_len ?child)) ?child cbb0 itag = Ok () cbb1" "CBB_finish alloc cbb1 0 True = Ok (m, n) cbb" by auto
  then show "\<exists>out storage inp'. CBS_get_asn1_implicit_string alloc inp otag itag = Ok (out, Some storage) inp' \<and>
      cbs_bytes out = concat cs \<and> cbs_bytes inp' = rest"
    using assms(4-6) peek m r(4) bs
    by (simp add: CBS_get_asn1_implicit_string_def finish_string_def CBS_get_asn1_der [OF assms(3) at])
qed

theorem implicit_string_exact_witness:
  "\<exists>out storage inp'. CBS_get_asn1_implicit_string zero_alloc (CBS_init [0xA0, 6, 4, 1, 7, 4, 1, 8, 9] 9) 0x80000000 4 =
     Ok (out, Some storage) inp' \<and> cbs_bytes out = [7, 8] \<and> cbs_bytes inp' = [9]"
proof -
  have "cbs_bytes (CBS_init [0xA0, 6, 4, 1, 7, 4, 1, 8, 9] 9) =
      der_element (0x80000000 OR CBS_ASN1_CONSTRUCTED) (concat (map (der_element 4) [[7], [8]])) @ [9]"
    by (simp add: cbs_bytes_def CBS_init_def der_tag_def der_len_def der_element_def der_header_def tag_number_def tag_class_def)
  with implicit_string_exact [OF zero_alloc_ok zero_alloc_total, where inp = "CBS_init [0xA0, 6, 4, 1, 7, 4, 1, 8, 9] 9" and otag = "0x80000000" and itag = 4 and cs = "[[7], [8]]"
      and c = "[]" and rest = "[9]"]
  show ?thesis
    by (simp add: cbs_ok_def CBS_init_def is_string_type_def primitive_tag_def der_tag_def der_len_def der_element_def
        der_header_def tag_number_def tag_class_def)
qed

end
