(* ===== verification/ConstTime.thy ===== *)
theory ConstTime
  imports Prelude
begin

text \<open>
  BoringSSL's branch-free comparisons (\<^verbatim>\<open>crypto/internal.h\<close>): functions that return a mask of all ones or all
  zeros, computed from the top bit of an arithmetic expression, and the selection between two values by such
  a mask.  Each is shown to be the comparison it stands for, on all 64-bit words.
\<close>

unbundle bit_operations_syntax

type_synonym crypto_word_t = u64

definition value_barrier_w :: "crypto_word_t \<Rightarrow> crypto_word_t" where
  "value_barrier_w a = a"

definition constant_time_msb_w :: "crypto_word_t \<Rightarrow> crypto_word_t" where
  "constant_time_msb_w a = 0 - drop_bit 63 a"

definition constant_time_lt_w :: "crypto_word_t \<Rightarrow> crypto_word_t \<Rightarrow> crypto_word_t" where
  "constant_time_lt_w a b = constant_time_msb_w (a XOR ((a XOR b) OR ((a - b) XOR a)))"

definition constant_time_lt_8 :: "crypto_word_t \<Rightarrow> crypto_word_t \<Rightarrow> byte" where
  "constant_time_lt_8 a b = ucast (constant_time_lt_w a b)"

definition constant_time_ge_w :: "crypto_word_t \<Rightarrow> crypto_word_t \<Rightarrow> crypto_word_t" where
  "constant_time_ge_w a b = NOT (constant_time_lt_w a b)"

definition constant_time_ge_8 :: "crypto_word_t \<Rightarrow> crypto_word_t \<Rightarrow> byte" where
  "constant_time_ge_8 a b = ucast (constant_time_ge_w a b)"

definition constant_time_is_zero_w :: "crypto_word_t \<Rightarrow> crypto_word_t" where
  "constant_time_is_zero_w a = constant_time_msb_w (NOT a AND (a - 1))"

definition constant_time_is_zero_8 :: "crypto_word_t \<Rightarrow> byte" where
  "constant_time_is_zero_8 a = ucast (constant_time_is_zero_w a)"

definition constant_time_eq_w :: "crypto_word_t \<Rightarrow> crypto_word_t \<Rightarrow> crypto_word_t" where
  "constant_time_eq_w a b = constant_time_is_zero_w (a XOR b)"

definition constant_time_eq_8 :: "crypto_word_t \<Rightarrow> crypto_word_t \<Rightarrow> byte" where
  "constant_time_eq_8 a b = ucast (constant_time_eq_w a b)"

text \<open>An \<open>int\<close> argument is converted to \<open>crypto_word_t\<close> with sign extension.\<close>

definition constant_time_eq_int :: "32 word \<Rightarrow> 32 word \<Rightarrow> crypto_word_t" where
  "constant_time_eq_int a b = constant_time_eq_w (scast a) (scast b)"

definition constant_time_eq_int_8 :: "32 word \<Rightarrow> 32 word \<Rightarrow> byte" where
  "constant_time_eq_int_8 a b = constant_time_eq_8 (scast a) (scast b)"

definition constant_time_select_w :: "crypto_word_t \<Rightarrow> crypto_word_t \<Rightarrow> crypto_word_t \<Rightarrow> crypto_word_t" where
  "constant_time_select_w m a b = (value_barrier_w m AND a) OR (value_barrier_w (NOT m) AND b)"

definition constant_time_select_8 :: "byte \<Rightarrow> byte \<Rightarrow> byte \<Rightarrow> byte" where
  "constant_time_select_8 m a b = ucast (constant_time_select_w (ucast m) (ucast a) (ucast b))"

definition constant_time_select_int :: "crypto_word_t \<Rightarrow> 32 word \<Rightarrow> 32 word \<Rightarrow> 32 word" where
  "constant_time_select_int m a b = ucast (constant_time_select_w m (scast a) (scast b))"

section \<open>What they compute\<close>

named_theorems const_time \<open>the constant-time helpers as comparisons\<close>

abbreviation mask_of :: "bool \<Rightarrow> 'a::len word" where
  "mask_of c \<equiv> if c then - 1 else 0"

lemma top_bit_iff: "bit (a :: u64) 63 \<longleftrightarrow> 2 ^ 63 \<le> unat a"
proof -
  have "unat a < 2 ^ 64" using unat_lt_2p [of a] by simp
  then have "unat a div 2 ^ 63 = (if 2 ^ 63 \<le> unat a then 1 else 0)" by auto
  then have "bit (unat a) 63 \<longleftrightarrow> 2 ^ 63 \<le> unat a" unfolding bit_iff_odd by simp
  then show ?thesis by (simp add: bit_unsigned_iff)
qed

lemma constant_time_msb_w_eq: "constant_time_msb_w a = mask_of (bit a 63)"
proof -
  have "unat a < 2 ^ 64" using unat_lt_2p [of a] by simp
  then have "unat (drop_bit 63 a) = (if bit a 63 then 1 else 0)"
    unfolding top_bit_iff unat_drop_bit by auto
  then have "drop_bit 63 a = (if bit a 63 then 1 else 0)" by (intro word_unat_eq_iff [THEN iffD2]) simp
  then show ?thesis by (simp add: constant_time_msb_w_def)
qed

lemma unat_sub_cases:
  "unat (a - b :: u64) = (if unat b \<le> unat a then unat a - unat b else unat a + 2 ^ 64 - unat b)"
  using unat_sub_if' [of a b] by simp

lemma constant_time_lt_w_eq [const_time]: "constant_time_lt_w a b = mask_of (a < b)"
proof -
  have "unat a < 2 ^ 64" "unat b < 2 ^ 64" using unat_lt_2p [of a] unat_lt_2p [of b] by simp_all
  then have "(a < b) = (if bit a 63 = bit b 63 then bit (a - b) 63 else bit b 63)"
    unfolding top_bit_iff word_less_nat_alt unat_sub_cases by auto
  moreover have "bit (a XOR ((a XOR b) OR ((a - b) XOR a))) 63 =
      (if bit a 63 = bit b 63 then bit (a - b) 63 else bit b 63)"
    by (auto simp: bit_simps)
  ultimately show ?thesis by (simp add: constant_time_lt_w_def constant_time_msb_w_eq)
qed

lemma constant_time_is_zero_w_eq [const_time]: "constant_time_is_zero_w a = mask_of (a = 0)"
proof -
  have "bit (NOT a AND (a - 1)) 63 \<longleftrightarrow> \<not> bit a 63 \<and> bit (a - 1) 63" by (simp add: bit_simps)
  moreover have "\<dots> \<longleftrightarrow> a = 0"
    using unat_sub_cases [of a 1] unat_lt_2p [of a] unfolding top_bit_iff unat_eq_0 [symmetric] by auto
  ultimately show ?thesis by (simp add: constant_time_is_zero_w_def constant_time_msb_w_eq)
qed

lemma constant_time_eq_w_eq [const_time]: "constant_time_eq_w a b = mask_of (a = b)"
proof -
  have "a XOR b = 0 \<longleftrightarrow> a = b" by (auto simp: bit_eq_iff bit_simps)
  then show ?thesis by (simp add: constant_time_eq_w_def constant_time_is_zero_w_eq)
qed

lemma ucast_minus_1: "(ucast (- 1 :: u64) :: byte) = - 1"
  by (rule bit_word_eqI) (simp add: bit_simps)

lemma constant_time_8_eq [const_time]:
  "constant_time_lt_8 a b = mask_of (a < b)" "constant_time_eq_8 a b = mask_of (a = b)"
  "constant_time_is_zero_8 a = mask_of (a = 0)"
  by (simp_all add: constant_time_lt_8_def constant_time_eq_8_def constant_time_is_zero_8_def const_time ucast_minus_1)

lemma constant_time_ge_eq [const_time]:
  "constant_time_ge_w a b = mask_of (b \<le> a)" "constant_time_ge_8 a b = mask_of (b \<le> a)"
  by (simp_all add: constant_time_ge_w_def constant_time_ge_8_def const_time not_less leD ucast_minus_1)

lemma scast_inj: "(scast (a :: 32 word) :: u64) = scast b \<longleftrightarrow> a = b"
proof
  assume "(scast a :: u64) = scast b"
  then have "(ucast (scast a :: u64) :: 32 word) = ucast (scast b :: u64)" by simp
  moreover have "(ucast (scast x :: u64) :: 32 word) = x" for x :: "32 word"
    by (rule bit_word_eqI) (auto simp: bit_simps)
  ultimately show "a = b" by simp
qed simp

lemma constant_time_eq_int_eq [const_time]:
  "constant_time_eq_int a b = mask_of (a = b)" "constant_time_eq_int_8 a b = mask_of (a = b)"
  by (simp_all add: constant_time_eq_int_def constant_time_eq_int_8_def const_time scast_inj)

lemma constant_time_select_w_eq [const_time]: "constant_time_select_w (mask_of c) a b = (if c then a else b)"
  by (simp add: constant_time_select_w_def value_barrier_w_def)

lemma constant_time_select_8_eq [const_time]: "constant_time_select_8 (mask_of c) a b = (if c then a else b)"
  by (rule bit_word_eqI) (auto simp: constant_time_select_8_def constant_time_select_w_def value_barrier_w_def bit_simps)

lemma constant_time_select_int_eq [const_time]: "constant_time_select_int (mask_of c) a b = (if c then a else b)"
proof -
  have "(ucast (scast x :: u64) :: 32 word) = x" for x :: "32 word"
    by (rule bit_word_eqI) (auto simp: bit_simps)
  then show ?thesis by (simp add: constant_time_select_int_def const_time)
qed

end
