(* ===== verification/Base64.thy ===== *)
theory Base64
  imports ConstTime "HOL-Library.Monad_Syntax"
begin

text \<open>
  BoringSSL's Base64 codec (\<^verbatim>\<open>crypto/base64/base64.c\<close>): the constant-time character conversions, the one-shot
  encoder and decoders, and the streaming codec \<open>EVP_ENCODE_CTX\<close>, which breaks its output into lines of 64
  characters.

  Output memory is the caller's object as a byte list; the moving output pointer is an index \<open>p\<close> into it, and
  \<open>None\<close> (or \<open>Fault\<close>) is an access outside of an object or a failed assertion.  Input memory is the list of the
  bytes from the input pointer to the end of its object.
\<close>

unbundle bit_operations_syntax

section \<open>Characters\<close>

definition constant_time_lt_args_8 :: "byte \<Rightarrow> byte \<Rightarrow> byte" where
  "constant_time_lt_args_8 a b = ucast (constant_time_msb_w (ucast a - ucast b))"

definition constant_time_in_range_8 :: "byte \<Rightarrow> byte \<Rightarrow> byte \<Rightarrow> byte" where
  "constant_time_in_range_8 a lo hi = constant_time_lt_args_8 (a - lo) (hi - lo + 1)"

abbreviation (input) chr_A :: byte where "chr_A \<equiv> 0x41"
abbreviation (input) chr_a :: byte where "chr_a \<equiv> 0x61"
abbreviation (input) chr_0 :: byte where "chr_0 \<equiv> 0x30"
abbreviation (input) chr_plus :: byte where "chr_plus \<equiv> 0x2B"
abbreviation (input) chr_slash :: byte where "chr_slash \<equiv> 0x2F"
abbreviation (input) chr_equals :: byte where "chr_equals \<equiv> 0x3D"
abbreviation (input) chr_newline :: byte where "chr_newline \<equiv> 0x0A"

definition conv_bin2ascii :: "byte \<Rightarrow> byte" where
  "conv_bin2ascii a0 =
     (let a = a0 AND 0x3F;
          ret = constant_time_select_8 (constant_time_eq_8 (ucast a) 62) chr_plus chr_slash;
          ret = constant_time_select_8 (constant_time_lt_args_8 a 62) (a - 52 + chr_0) ret;
          ret = constant_time_select_8 (constant_time_lt_args_8 a 52) (a - 26 + chr_a) ret;
          ret = constant_time_select_8 (constant_time_lt_args_8 a 26) (a + chr_A) ret
      in ret)"

definition base64_ascii_to_bin :: "byte \<Rightarrow> byte" where
  "base64_ascii_to_bin a =
     (let is_upper = constant_time_in_range_8 a chr_A 0x5A;
          is_lower = constant_time_in_range_8 a chr_a 0x7A;
          is_digit = constant_time_in_range_8 a chr_0 0x39;
          is_plus = constant_time_eq_8 (ucast a) (ucast chr_plus);
          is_slash = constant_time_eq_8 (ucast a) (ucast chr_slash);
          is_equals = constant_time_eq_8 (ucast a) (ucast chr_equals);
          ret = 0;
          ret = ret OR (is_upper AND (a - chr_A));
          ret = ret OR (is_lower AND (a - chr_a + 26));
          ret = ret OR (is_digit AND (a - chr_0 + 52));
          ret = ret OR (is_plus AND 62);
          ret = ret OR (is_slash AND 63);
          is_valid = is_upper OR is_lower OR is_digit OR is_plus OR is_slash OR is_equals
      in ret OR NOT is_valid)"

section \<open>Encoding in one go\<close>

definition EVP_EncodedLength :: "size_t \<Rightarrow> size_t option" where
  "EVP_EncodedLength len =
     (if len + 2 < len then None
      else let len = (len + 2) div 3 in
        if drop_bit 2 (push_bit 2 len) \<noteq> len then None
        else let len = push_bit 2 len in
          if len + 1 < len then None else Some (len + 1))"

text \<open>The loop of \<open>EVP_EncodeBlock\<close>: four characters for every three bytes, and the padded last group.  The result
  is the output memory, the output position and the number of characters.\<close>

function encode_block_loop :: "byte list \<Rightarrow> nat \<Rightarrow> byte list \<Rightarrow> size_t \<Rightarrow> size_t \<Rightarrow> (byte list \<times> nat \<times> size_t) option" where
  "encode_block_loop dst p src remaining ret =
     (if remaining = 0 then Some (dst, p, ret)
      else if 3 \<le> remaining then do {
        s0 \<leftarrow> mem_at src 0; s1 \<leftarrow> mem_at src 1; s2 \<leftarrow> mem_at src 2;
        let l = push_bit 16 (ucast s0 :: u32) OR push_bit 8 (ucast s1) OR ucast s2;
        dst' \<leftarrow> mem_write dst p
          [conv_bin2ascii (ucast (drop_bit 18 l)), conv_bin2ascii (ucast (drop_bit 12 l)),
           conv_bin2ascii (ucast (drop_bit 6 l)), conv_bin2ascii (ucast l)];
        encode_block_loop dst' (p + 4) (drop 3 src) (remaining - 3) (ret + 4)
      }
      else do {
        s0 \<leftarrow> mem_at src 0;
        l \<leftarrow> (if remaining = 2
              then do { s1 \<leftarrow> mem_at src 1; Some (push_bit 16 (ucast s0 :: u32) OR push_bit 8 (ucast s1)) }
              else Some (push_bit 16 (ucast s0 :: u32)));
        dst' \<leftarrow> mem_write dst p
          [conv_bin2ascii (ucast (drop_bit 18 l)), conv_bin2ascii (ucast (drop_bit 12 l)),
           (if remaining = 1 then chr_equals else conv_bin2ascii (ucast (drop_bit 6 l))), chr_equals];
        encode_block_loop dst' (p + 4) (drop 3 src) 0 (ret + 4)
      })"
  by pat_completeness auto
termination
proof (relation "measure (\<lambda>(dst, p, src, remaining, ret). unat remaining)")
  show "((dst', p + 4, drop 3 src, remaining - 3, ret + 4), (dst, p, src, remaining, ret))
      \<in> measure (\<lambda>(dst, p, src, remaining, ret). unat remaining)"
    if "\<not> remaining = 0" "3 \<le> remaining" for dst' dst :: "byte list" and p src and remaining ret :: size_t
    using that unat_sub_le [of 3 remaining] unat_gt_0 [of remaining] by (simp add: word_le_nat_alt)
  show "((dst', p + 4, drop 3 src, 0, ret + 4), (dst, p, src, remaining, ret))
      \<in> measure (\<lambda>(dst, p, src, remaining, ret). unat remaining)"
    if "\<not> remaining = 0" for dst' dst :: "byte list" and p src and remaining ret :: size_t
    using that by (simp add: unat_gt_0)
qed simp

declare encode_block_loop.simps [simp del]

definition EVP_EncodeBlock :: "byte list \<Rightarrow> nat \<Rightarrow> byte list \<Rightarrow> size_t \<Rightarrow> (byte list \<times> size_t) option" where
  "EVP_EncodeBlock dst p src src_len = do {
     (dst', p', ret) \<leftarrow> encode_block_loop dst p src src_len 0;
     dst'' \<leftarrow> mem_put dst' p' 0;
     Some (dst'', ret)
   }"

section \<open>Decoding in one go\<close>

definition EVP_DecodedLength :: "size_t \<Rightarrow> size_t option" where
  "EVP_DecodedLength len = (if len mod 4 \<noteq> 0 then None else Some (len div 4 * 3))"

text \<open>\<open>base64_decode_quad\<close> writes up to three bytes at \<open>p\<close> and returns their number.\<close>

definition base64_decode_quad :: "byte list \<Rightarrow> nat \<Rightarrow> byte list \<Rightarrow> (size_t, byte list) outcome" where
  "base64_decode_quad out p inp =
     (case mem_range inp 4 of
        None \<Rightarrow> Fault
      | Some q \<Rightarrow>
          let a = base64_ascii_to_bin (q ! 0); b = base64_ascii_to_bin (q ! 1);
              c = base64_ascii_to_bin (q ! 2); d = base64_ascii_to_bin (q ! 3) in
          if a = 0xFF \<or> b = 0xFF \<or> c = 0xFF \<or> d = 0xFF then Fail out
          else
            let v = push_bit 18 (ucast a :: u32) OR push_bit 12 (ucast b) OR push_bit 6 (ucast c) OR ucast d;
                padding_pattern = push_bit 3 (of_bool (q ! 0 = chr_equals) :: u32) OR
                  push_bit 2 (of_bool (q ! 1 = chr_equals)) OR push_bit 1 (of_bool (q ! 2 = chr_equals)) OR
                  of_bool (q ! 3 = chr_equals);
                put = (\<lambda>bs. case mem_write out p bs of
                         None \<Rightarrow> Fault | Some out' \<Rightarrow> Ok (of_nat (length bs)) out') in
            if padding_pattern = 0 then put [ucast (drop_bit 16 v), ucast (drop_bit 8 v), ucast v]
            else if padding_pattern = 1 then put [ucast (drop_bit 16 v), ucast (drop_bit 8 v)]
            else if padding_pattern = 3 then put [ucast (drop_bit 16 v)]
            else Fail out)"

text \<open>The loop of \<open>EVP_DecodeBase64\<close>, with \<open>n\<close> quads to go: a short quad is only accepted as the last one.  The input
  length is a multiple of four when the loop starts, so the loop counter of the code does not wrap.\<close>

fun decode_quads :: "byte list \<Rightarrow> nat \<Rightarrow> size_t \<Rightarrow> byte list \<Rightarrow> nat \<Rightarrow> (size_t, byte list) outcome" where
  "decode_quads out p bytes_out inp 0 = Ok bytes_out out"
| "decode_quads out p bytes_out inp (Suc n) =
     obind (base64_decode_quad out p inp) (\<lambda>num out'.
       if num \<noteq> 3 \<and> n \<noteq> 0 then Fail out'
       else decode_quads out' (p + unat num) (bytes_out + num) (drop 4 inp) n)"

definition EVP_DecodeBase64 :: "byte list \<Rightarrow> size_t \<Rightarrow> byte list \<Rightarrow> size_t \<Rightarrow> (size_t, byte list) outcome" where
  "EVP_DecodeBase64 out max_out inp in_len =
     (if in_len mod 4 \<noteq> 0 then Fail out
      else (case EVP_DecodedLength in_len of
              None \<Rightarrow> Fail out
            | Some max_len \<Rightarrow>
                if max_out < max_len then Fail out
                else decode_quads out 0 0 inp (unat in_len div 4)))"

text \<open>\<open>EVP_DecodeBlock\<close>: trim blanks in front, blanks and newlines behind, decode, and fill up with zeros.\<close>

fun trim_front :: "byte list \<Rightarrow> nat \<Rightarrow> (byte list \<times> nat) option" where
  "trim_front src 0 = Some (src, 0)"
| "trim_front src (Suc n) =
     (case src of
        [] \<Rightarrow> None
      | c # cs \<Rightarrow> if c \<noteq> 0x20 \<and> c \<noteq> 0x09 then Some (src, Suc n) else trim_front cs n)"

fun trim_back :: "byte list \<Rightarrow> nat \<Rightarrow> nat option" where
  "trim_back src 0 = Some 0"
| "trim_back src (Suc n) =
     (case mem_at src n of
        None \<Rightarrow> None
      | Some c \<Rightarrow> if c \<in> {0x20, 0x09, 0x0D, 0x0A} then trim_back src n else Some (Suc n))"

fun pad_zeros :: "nat \<Rightarrow> byte list \<Rightarrow> size_t \<Rightarrow> (size_t, byte list) outcome" where
  "pad_zeros 0 dst dst_len = Ok dst_len dst"
| "pad_zeros (Suc k) dst dst_len =
     (if dst_len mod 3 \<noteq> 0
      then (case mem_put dst (unat dst_len) 0 of
              None \<Rightarrow> Fault
            | Some dst' \<Rightarrow> pad_zeros k dst' (dst_len + 1))
      else Ok dst_len dst)"

abbreviation (input) INT_MAX :: size_t where "INT_MAX \<equiv> 0x7FFFFFFF"

definition EVP_DecodeBlock :: "byte list \<Rightarrow> byte list \<Rightarrow> size_t \<Rightarrow> (size_t, byte list) outcome" where
  "EVP_DecodeBlock dst src src_len =
     (case trim_front src (unat src_len) of
        None \<Rightarrow> Fault
      | Some (src', n) \<Rightarrow>
          (case trim_back src' n of
             None \<Rightarrow> Fault
           | Some n' \<Rightarrow>
               (case EVP_DecodedLength (of_nat n') of
                  None \<Rightarrow> Fail dst
                | Some dst_len \<Rightarrow>
                    if INT_MAX < dst_len then Fail dst
                    else obind (EVP_DecodeBase64 dst dst_len src' (of_nat n')) (\<lambda>len dst'.
                      obind (pad_zeros 2 dst' len) (\<lambda>padded dst''.
                        if INT_MAX < padded then Fault else Ok padded dst'')))))"

section \<open>The streaming codec\<close>

record EVP_ENCODE_CTX =
  data_used :: u32
  ctx_data :: "byte list"
  eof_seen :: bool
  error_encountered :: bool

text \<open>\<open>sizeof(ctx->data)\<close>\<close>

abbreviation (input) data_size :: nat where "data_size \<equiv> 48"

definition EVP_EncodeInit :: "EVP_ENCODE_CTX \<Rightarrow> EVP_ENCODE_CTX" where
  "EVP_EncodeInit ctx = \<lparr>data_used = 0, ctx_data = replicate data_size 0, eof_seen = False, error_encountered = False\<rparr>"

text \<open>A line: the encoding of 48 bytes, a newline and a terminating zero that the next line overwrites.\<close>

definition encode_line :: "byte list \<Rightarrow> nat \<Rightarrow> byte list \<Rightarrow> size_t \<Rightarrow> (byte list \<times> nat \<times> size_t) option" where
  "encode_line out p src n = do {
     (out1, encoded) \<leftarrow> EVP_EncodeBlock out p src n;
     out2 \<leftarrow> mem_put out1 (p + unat encoded) chr_newline;
     out3 \<leftarrow> mem_put out2 (p + unat encoded + 1) 0;
     Some (out3, p + unat encoded + 1, encoded)
   }"

text \<open>The loop over whole lines of the input; the flag is false when the loop left because \<open>total\<close> would wrap.\<close>

function encode_lines :: "byte list \<Rightarrow> nat \<Rightarrow> byte list \<Rightarrow> size_t \<Rightarrow> size_t \<Rightarrow>
    (bool \<times> byte list \<times> byte list \<times> size_t \<times> size_t) option" where
  "encode_lines out p inp in_len tot =
     (if in_len < 48 then Some (True, out, inp, in_len, tot)
      else do {
        (out', p', encoded) \<leftarrow> encode_line out p inp 48;
        if tot + encoded + 1 < tot then Some (False, out', drop data_size inp, in_len - 48, tot)
        else encode_lines out' p' (drop data_size inp) (in_len - 48) (tot + (encoded + 1))
      })"
  by pat_completeness auto
termination
proof (relation "measure (\<lambda>(out, p, inp, in_len, tot). unat in_len)")
  show "((out', p', drop data_size inp, in_len - 48, tot + (encoded + 1)), (out, p, inp, in_len, tot))
      \<in> measure (\<lambda>(out, p, inp, in_len, tot). unat in_len)"
    if "\<not> in_len < 48" for out' out inp :: "byte list" and p' p :: nat and in_len tot encoded :: size_t
    using that unat_sub_le [of 48 in_len] by (simp add: not_less word_le_nat_alt)
qed simp

declare encode_lines.simps [simp del]

text \<open>\<open>EVP_EncodeUpdate\<close> returns \<open>*out_len\<close>, the output memory and the context.\<close>

definition EVP_EncodeUpdate :: "EVP_ENCODE_CTX \<Rightarrow> byte list \<Rightarrow> byte list \<Rightarrow> size_t \<Rightarrow>
    (u32 \<times> byte list \<times> EVP_ENCODE_CTX) option" where
  "EVP_EncodeUpdate ctx out inp in_len =
     (if in_len = 0 then Some (0, out, ctx)
      else if \<not> data_used ctx < 48 then None
      else if 48 - ucast (data_used ctx) > in_len then do {
        bs \<leftarrow> mem_range inp (unat in_len);
        data' \<leftarrow> mem_write (ctx_data ctx) (unat (data_used ctx)) bs;
        Some (0, out, ctx\<lparr>ctx_data := data', data_used := data_used ctx + ucast in_len\<rparr>)
      }
      else do {
        (ctx1, out1, p1, inp1, len1, total1) \<leftarrow>
          (if data_used ctx \<noteq> 0 then do {
             let todo = 48 - ucast (data_used ctx);
             bs \<leftarrow> mem_range inp (unat todo);
             data' \<leftarrow> mem_write (ctx_data ctx) (unat (data_used ctx)) bs;
             (out', p', encoded) \<leftarrow> encode_line out 0 data' 48;
             Some (ctx\<lparr>ctx_data := data', data_used := 0\<rparr>, out', p', drop (unat todo) inp, in_len - todo, encoded + 1)
           }
           else Some (ctx, out, 0, inp, in_len, 0));
        (no_wrap, out2, inp2, len2, total2) \<leftarrow> encode_lines out1 p1 inp1 len1 total1;
        if \<not> no_wrap then Some (0, out2, ctx1)
        else do {
          data2 \<leftarrow> (if len2 \<noteq> 0
                    then do { bs \<leftarrow> mem_range inp2 (unat len2); mem_write (ctx_data ctx1) 0 bs }
                    else Some (ctx_data ctx1));
          Some (if INT_MAX < total2 then 0 else ucast total2, out2, ctx1\<lparr>ctx_data := data2, data_used := ucast len2\<rparr>)
        }
      })"

definition EVP_EncodeFinal :: "EVP_ENCODE_CTX \<Rightarrow> byte list \<Rightarrow> (u32 \<times> byte list \<times> EVP_ENCODE_CTX) option" where
  "EVP_EncodeFinal ctx out =
     (if data_used ctx = 0 then Some (0, out, ctx)
      else do {
        (out', p, encoded) \<leftarrow> encode_line out 0 (ctx_data ctx) (ucast (data_used ctx));
        if INT_MAX < encoded + 1 then None else Some (ucast (encoded + 1), out', ctx\<lparr>data_used := 0\<rparr>)
      })"

definition EVP_DecodeInit :: "EVP_ENCODE_CTX \<Rightarrow> EVP_ENCODE_CTX" where
  "EVP_DecodeInit ctx = \<lparr>data_used = 0, ctx_data = replicate data_size 0, eof_seen = False, error_encountered = False\<rparr>"

text \<open>The loop of \<open>EVP_DecodeUpdate\<close> over the \<open>n\<close> bytes of the input; the flag is false when it left with an error.\<close>

fun decode_update_loop :: "EVP_ENCODE_CTX \<Rightarrow> byte list \<Rightarrow> nat \<Rightarrow> size_t \<Rightarrow> byte list \<Rightarrow> nat \<Rightarrow>
    (bool \<times> EVP_ENCODE_CTX \<times> byte list \<times> size_t) option" where
  "decode_update_loop ctx out p bytes_out inp 0 = Some (True, ctx, out, bytes_out)"
| "decode_update_loop ctx out p bytes_out inp (Suc n) =
     (case inp of
        [] \<Rightarrow> None
      | c # cs \<Rightarrow>
          if c \<in> {0x20, 0x09, 0x0D, 0x0A} then decode_update_loop ctx out p bytes_out cs n
          else if eof_seen ctx then Some (False, ctx\<lparr>error_encountered := True\<rparr>, out, bytes_out)
          else (case mem_put (ctx_data ctx) (unat (data_used ctx)) c of
                  None \<Rightarrow> None
                | Some data' \<Rightarrow>
                    let ctx1 = ctx\<lparr>ctx_data := data', data_used := data_used ctx + 1\<rparr> in
                    if data_used ctx1 = 4
                    then (case base64_decode_quad out p (ctx_data ctx1) of
                            Fault \<Rightarrow> None
                          | Fail out' \<Rightarrow> Some (False, ctx1\<lparr>error_encountered := True\<rparr>, out', bytes_out)
                          | Ok num out' \<Rightarrow>
                              let ctx2 = ctx1\<lparr>data_used := 0\<rparr>;
                                  ctx3 = (if num < 3 then ctx2\<lparr>eof_seen := True\<rparr> else ctx2) in
                              decode_update_loop ctx3 out' (p + unat num) (bytes_out + num) cs n)
                    else decode_update_loop ctx1 out p bytes_out cs n))"

text \<open>\<open>EVP_DecodeUpdate\<close> returns its return value, \<open>*out_len\<close>, the output memory and the context.\<close>

definition EVP_DecodeUpdate :: "EVP_ENCODE_CTX \<Rightarrow> byte list \<Rightarrow> byte list \<Rightarrow> size_t \<Rightarrow>
    (int \<times> u32 \<times> byte list \<times> EVP_ENCODE_CTX) option" where
  "EVP_DecodeUpdate ctx out inp in_len =
     (if error_encountered ctx then Some (- 1, 0, out, ctx)
      else do {
        (ok, ctx', out', bytes_out) \<leftarrow> decode_update_loop ctx out 0 0 inp (unat in_len);
        if \<not> ok then Some (- 1, 0, out', ctx')
        else if INT_MAX < bytes_out then Some (- 1, 0, out', ctx'\<lparr>error_encountered := True\<rparr>)
        else Some (if eof_seen ctx' then 0 else 1, ucast bytes_out, out', ctx')
      })"

definition EVP_DecodeFinal :: "EVP_ENCODE_CTX \<Rightarrow> int \<times> u32" where
  "EVP_DecodeFinal ctx = (if error_encountered ctx \<or> data_used ctx \<noteq> 0 then - 1 else 1, 0)"

end
