(* ===== verification/Base64Codec.thy ===== *)
theory Base64Codec
  imports Base64
begin

text \<open>
  The Base64 codec against RFC 4648: the alphabet, the reference encoding \<open>b64\<close> and the reference decoding \<open>unb64\<close>
  of a whole string, and that the functions of \<^verbatim>\<open>base64.c\<close> compute them.
\<close>

unbundle bit_operations_syntax

section \<open>The reference codec\<close>

definition b64_char :: "nat \<Rightarrow> byte" where
  "b64_char n =
     of_nat (if n < 26 then 65 + n else if n < 52 then 97 + (n - 26) else if n < 62 then 48 + (n - 52)
             else if n = 62 then 43 else 47)"

definition b64_digit :: "byte \<Rightarrow> nat option" where
  "b64_digit c =
     (let u = unat c in
      if 65 \<le> u \<and> u \<le> 90 then Some (u - 65) else if 97 \<le> u \<and> u \<le> 122 then Some (u - 97 + 26)
      else if 48 \<le> u \<and> u \<le> 57 then Some (u - 48 + 52) else if u = 43 then Some 62
      else if u = 47 then Some 63 else None)"

fun b64 :: "byte list \<Rightarrow> byte list" where
  "b64 [] = []"
| "b64 [a] = [b64_char (unat a div 4), b64_char (unat a mod 4 * 16), 0x3D, 0x3D]"
| "b64 [a, b] = [b64_char (unat a div 4), b64_char (unat a mod 4 * 16 + unat b div 16),
     b64_char (unat b mod 16 * 4), 0x3D]"
| "b64 (a # b # c # r) = [b64_char (unat a div 4), b64_char (unat a mod 4 * 16 + unat b div 16),
     b64_char (unat b mod 16 * 4 + unat c div 64), b64_char (unat c mod 64)] @ b64 r"

definition unb64_quad :: "byte \<Rightarrow> byte \<Rightarrow> byte \<Rightarrow> byte \<Rightarrow> byte list option" where
  "unb64_quad a b c d =
     (case (b64_digit a, b64_digit b, b64_digit c, b64_digit d) of
        (Some x, Some y, Some z, Some w) \<Rightarrow>
          Some [of_nat (x * 4 + y div 16), of_nat (y mod 16 * 16 + z div 4), of_nat (z mod 4 * 64 + w)]
      | (Some x, Some y, Some z, None) \<Rightarrow>
          if d = 0x3D then Some [of_nat (x * 4 + y div 16), of_nat (y mod 16 * 16 + z div 4)] else None
      | (Some x, Some y, None, None) \<Rightarrow>
          if c = 0x3D \<and> d = 0x3D then Some [of_nat (x * 4 + y div 16)] else None
      | _ \<Rightarrow> None)"

fun unb64 :: "byte list \<Rightarrow> byte list option" where
  "unb64 [] = Some []"
| "unb64 (a # b # c # d # r) =
     (case unb64_quad a b c d of
        None \<Rightarrow> None
      | Some bs \<Rightarrow> if length bs < 3 \<and> r \<noteq> [] then None else map_option ((@) bs) (unb64 r))"
| "unb64 _ = None"

lemma unat_b64_char:
  "unat (b64_char n) =
     (if n < 26 then 65 + n else if n < 52 then 97 + (n - 26) else if n < 62 then 48 + (n - 52)
      else if n = 62 then 43 else 47)"
  unfolding b64_char_def by (rule unat_of_nat_less) auto

lemma b64_digit_char: "n < 64 \<Longrightarrow> b64_digit (b64_char n) = Some n"
  by (auto simp: b64_digit_def Let_def unat_b64_char)

lemma b64_digit_less: "b64_digit c = Some n \<Longrightarrow> n < 64"
  by (auto simp: b64_digit_def Let_def split: if_splits)

lemma b64_digit_equals [simp]: "b64_digit 0x3D = None"
  by (simp add: b64_digit_def)

lemma length_b64: "length (b64 bs) = 4 * ((length bs + 2) div 3)"
proof (induction bs rule: b64.induct)
  case (4 a b c r)
  have "(length (a # b # c # r) + 2) div 3 = Suc ((length r + 2) div 3)" by simp
  then show ?case using 4 by simp
qed simp_all

lemma quad_roundtrip:
  assumes "a < 256" "b < 256" "c < (256 :: nat)"
  shows "a div 4 * 4 + (a mod 4 * 16 + b div 16) div 16 = a"
    and "(a mod 4 * 16 + b div 16) mod 16 * 16 + (b mod 16 * 4 + c div 64) div 4 = b"
    and "(b mod 16 * 4 + c div 64) mod 4 * 64 + c mod 64 = c"
proof -
  have "b div 16 < 16" "c div 64 < 4" using assms by simp_all
  then show "a div 4 * 4 + (a mod 4 * 16 + b div 16) div 16 = a"
    "(a mod 4 * 16 + b div 16) mod 16 * 16 + (b mod 16 * 4 + c div 64) div 4 = b"
    "(b mod 16 * 4 + c div 64) mod 4 * 64 + c mod 64 = c"
    by simp_all
qed

lemma byte_less: "unat (b :: byte) < 256"
  using unat_lt_2p [of b] by simp

lemma b64_digits_less:
  "unat (a :: byte) div 4 < 64" "unat a mod 4 * 16 + unat (b :: byte) div 16 < 64"
  "unat b mod 16 * 4 + unat (c :: byte) div 64 < 64" "unat b mod 16 * 4 < 64" "unat a mod 4 * 16 < 64"
proof -
  have "unat b div 16 < 16" "unat c div 64 < 4" "unat a mod 4 < 4" "unat b mod 16 < 16"
    using byte_less [of b] byte_less [of c] by simp_all
  then show "unat a mod 4 * 16 + unat b div 16 < 64" "unat b mod 16 * 4 + unat c div 64 < 64"
    "unat b mod 16 * 4 < 64" "unat a mod 4 * 16 < 64" by linarith+
  show "unat a div 4 < 64" using byte_less [of a] by simp
qed

lemma unb64_quad_b64:
  "unb64_quad (b64_char (unat a div 4)) (b64_char (unat a mod 4 * 16 + unat b div 16))
     (b64_char (unat b mod 16 * 4 + unat c div 64)) (b64_char (unat c mod 64)) = Some [a, b, c]" (is ?three)
  "unb64_quad (b64_char (unat a div 4)) (b64_char (unat a mod 4 * 16 + unat b div 16))
     (b64_char (unat b mod 16 * 4)) 0x3D = Some [a, b]" (is ?two)
  "unb64_quad (b64_char (unat a div 4)) (b64_char (unat a mod 4 * 16)) 0x3D 0x3D = Some [a]" (is ?one)
proof -
  note digits = b64_digits_less [THEN b64_digit_char]
  show ?three
    unfolding unb64_quad_def using quad_roundtrip [OF byte_less [of a] byte_less [of b] byte_less [of c]] digits b64_digit_char [of "unat c mod 64"]
    by (simp del: of_nat_add of_nat_mult)
  show ?two
    unfolding unb64_quad_def using quad_roundtrip [OF byte_less [of a] byte_less [of b] byte_less [of 0]] digits
    by (simp del: of_nat_add of_nat_mult)
  show ?one
    unfolding unb64_quad_def using quad_roundtrip [OF byte_less [of a] byte_less [of 0] byte_less [of 0]] digits
    by (simp del: of_nat_add of_nat_mult)
qed

lemma b64_eq_Nil: "b64 bs = [] \<longleftrightarrow> bs = []"
  by (cases bs rule: b64.cases) simp_all

lemma unb64_b64: "unb64 (b64 bs) = Some bs"
  by (induction bs rule: b64.induct) (simp_all add: unb64_quad_b64)

lemma b64_append: "length xs mod 3 = 0 \<Longrightarrow> b64 (xs @ ys) = b64 xs @ b64 ys"
proof (induction xs rule: b64.induct)
  case (4 a b c r)
  then have "length r mod 3 = 0" by (simp add: mod_Suc split: if_splits)
  with 4 show ?case by simp
qed simp_all

section \<open>Characters\<close>

lemma unat_ucast_byte: "unat (ucast (a :: byte) :: 'a::len word) = unat a" if "8 \<le> LENGTH('a)"
proof -
  have "unat a < 2 ^ LENGTH('a)" using byte_less [of a] power_increasing [OF that, of "2 :: nat"] by simp
  then show ?thesis by (simp only: ucast_eq_of_nat unat_of_nat_less)
qed

lemma constant_time_lt_args_8_eq [const_time]: "constant_time_lt_args_8 a b = mask_of (a < b)"
proof -
  have "unat (ucast a :: u64) = unat a" "unat (ucast b :: u64) = unat b" by (simp_all add: unat_ucast_byte)
  then have "bit (ucast a - ucast b :: u64) 63 \<longleftrightarrow> a < b"
    using byte_less [of a] byte_less [of b] unfolding top_bit_iff unat_sub_cases word_less_nat_alt by auto
  then show ?thesis by (simp add: constant_time_lt_args_8_def constant_time_msb_w_eq ucast_minus_1)
qed

lemma constant_time_in_range_8_eq [const_time]:
  assumes "lo \<le> hi" and "hi - lo < 255"
  shows "constant_time_in_range_8 a lo hi = mask_of (lo \<le> a \<and> a \<le> hi)"
proof -
  have d: "unat (hi - lo) = unat hi - unat lo" using assms(1) by (rule unat_sub_le)
  then have u: "unat (hi - lo + 1) = unat hi - unat lo + 1"
    using assms(2) by (simp add: unat_add_no_overflow word_less_nat_alt)
  have "unat (a - lo) = (if unat lo \<le> unat a then unat a - unat lo else unat a + 256 - unat lo)"
    using unat_sub_if' [of a lo] by simp
  then have "a - lo < hi - lo + 1 \<longleftrightarrow> lo \<le> a \<and> a \<le> hi"
    using assms(1) byte_less [of hi] byte_less [of a] unfolding word_less_nat_alt word_le_nat_alt u by auto
  then show ?thesis by (simp add: constant_time_in_range_8_def const_time)
qed

lemma unat_and_63: "unat (a AND 0x3F :: byte) = unat a mod 64"
  using unat_take_mask [of a 6] by (simp add: mask_eq_exp_minus_1)

lemma conv_bin2ascii_eq: "conv_bin2ascii a = b64_char (unat a mod 64)"
proof -
  let ?a = "a AND 0x3F"
  have u: "unat ?a = unat a mod 64" by (rule unat_and_63)
  have lt: "?a < 62 \<longleftrightarrow> unat ?a < 62" "?a < 52 \<longleftrightarrow> unat ?a < 52" "?a < 26 \<longleftrightarrow> unat ?a < 26"
    by (simp_all add: word_less_nat_alt)
  have eq: "(ucast ?a :: u64) = 62 \<longleftrightarrow> unat ?a = 62" by (simp add: word_unat_eq_iff unat_ucast_byte)
  have a: "?a = of_nat (unat ?a)" by simp
  have "conv_bin2ascii a =
    (if unat ?a < 26 then ?a + 65 else if unat ?a < 52 then ?a - 26 + 97 else if unat ?a < 62 then ?a - 52 + 48
     else if unat ?a = 62 then 43 else 47)"
    by (simp only: conv_bin2ascii_def const_time Let_def lt eq)
  also have "\<dots> = b64_char (unat ?a)"
    by (auto simp: b64_char_def)
  finally show ?thesis by (simp only: u)
qed

lemma base64_ascii_to_bin_eq:
  "base64_ascii_to_bin a =
     (case b64_digit a of Some n \<Rightarrow> of_nat n | None \<Rightarrow> if a = 0x3D then 0 else 0xFF)"
proof -
  let ?u = "unat a"
  have r: "constant_time_in_range_8 a 0x41 0x5A = mask_of (65 \<le> ?u \<and> ?u \<le> 90)"
    "constant_time_in_range_8 a 0x61 0x7A = mask_of (97 \<le> ?u \<and> ?u \<le> 122)"
    "constant_time_in_range_8 a 0x30 0x39 = mask_of (48 \<le> ?u \<and> ?u \<le> 57)"
    by (simp_all add: constant_time_in_range_8_eq word_le_nat_alt)
  have e: "(ucast a :: u64) = ucast (0x2B :: byte) \<longleftrightarrow> ?u = 43" "(ucast a :: u64) = ucast (0x2F :: byte) \<longleftrightarrow> ?u = 47"
    "(ucast a :: u64) = ucast (0x3D :: byte) \<longleftrightarrow> ?u = 61" "a = 0x3D \<longleftrightarrow> ?u = 61"
    by (simp_all add: word_unat_eq_iff unat_ucast_byte)
  consider "65 \<le> ?u" "?u \<le> 90" | "97 \<le> ?u" "?u \<le> 122" | "48 \<le> ?u" "?u \<le> 57" | "?u = 43" | "?u = 47" | "?u = 61"
    | "\<not> (65 \<le> ?u \<and> ?u \<le> 90)" "\<not> (97 \<le> ?u \<and> ?u \<le> 122)" "\<not> (48 \<le> ?u \<and> ?u \<le> 57)" "?u \<noteq> 43" "?u \<noteq> 47" "?u \<noteq> 61"
    by blast
  then show ?thesis
    unfolding base64_ascii_to_bin_def Let_def r constant_time_8_eq e b64_digit_def
    by cases auto
qed

section \<open>Encoding in one go\<close>

lemma join_bytes24:
  "push_bit 16 (ucast (a :: byte) :: u32) OR push_bit 8 (ucast (b :: byte)) OR ucast (c :: byte) =
   of_nat (65536 * unat a + 256 * unat b + unat c)"
proof -
  have "push_bit 16 (ucast a :: u32) OR push_bit 8 (ucast b) OR ucast c =
      (of_nat (unat c) OR push_bit 8 (of_nat (unat b))) OR push_bit 16 (of_nat (unat a))"
    by (simp add: ac_simps)
  also have "\<dots> = of_nat (unat c + 2 ^ 8 * unat b) OR push_bit 16 (of_nat (unat a))"
    using byte_less [of c] by (subst or_push_bit_of_nat) simp_all
  also have "\<dots> = of_nat ((unat c + 2 ^ 8 * unat b) + 2 ^ 16 * unat a)"
    using byte_less [of c] byte_less [of b] by (subst or_push_bit_of_nat) simp_all
  finally show ?thesis by (simp add: ac_simps)
qed

lemma byte_of_shift: "n < 2 ^ 32 \<Longrightarrow> (ucast (drop_bit k (of_nat n :: u32)) :: byte) = of_nat (n div 2 ^ k)"
  by (simp only: ucast_eq_of_nat unat_drop_bit) (simp add: unat_of_nat_less)

lemma char_of_shift:
  "n < 2 ^ 24 \<Longrightarrow> conv_bin2ascii (ucast (drop_bit k (of_nat n :: u32))) = b64_char (n div 2 ^ k mod 64)"
  by (simp add: conv_bin2ascii_eq byte_of_shift unat_of_nat_byte mod_mod_cancel)

lemma bits24:
  assumes "a < 256" "b < 256" "c < (256 :: nat)"
  shows "(65536 * a + 256 * b + c) div 2 ^ 18 mod 64 = a div 4"
    and "(65536 * a + 256 * b + c) div 2 ^ 12 mod 64 = a mod 4 * 16 + b div 16"
    and "(65536 * a + 256 * b + c) div 2 ^ 6 mod 64 = b mod 16 * 4 + c div 64"
    and "(65536 * a + 256 * b + c) div 2 ^ 0 mod 64 = c mod 64"
proof -
  define aq ar bq br cq cr where "aq = a div 4" and "ar = a mod 4" and "bq = b div 16" and "br = b mod 16"
    and "cq = c div 64" and "cr = c mod 64"
  have parts: "a = 4 * aq + ar" "b = 16 * bq + br" "c = 64 * cq + cr" "ar < 4" "bq < 16" "br < 16" "cq < 4" "cr < 64" "aq < 64"
    using assms by (simp_all add: aq_def ar_def bq_def br_def cq_def cr_def)
  have n: "65536 * a + 256 * b + c = 2 ^ 18 * aq + (65536 * ar + 4096 * bq + 256 * br + 64 * cq + cr)"
    "65536 * a + 256 * b + c = 2 ^ 12 * (64 * aq + (ar * 16 + bq)) + (256 * br + 64 * cq + cr)"
    "65536 * a + 256 * b + c = 2 ^ 6 * (64 * (64 * aq + (ar * 16 + bq)) + (br * 4 + cq)) + cr"
    by (simp_all add: parts(1-3) algebra_simps)
  have d: "(2 ^ k * q + r) div 2 ^ k = q" if "r < 2 ^ k" for k q r :: nat using that by simp
  have m: "(64 * q + r) mod 64 = r" if "r < 64" for q r :: nat using that by simp
  have r: "65536 * ar + 4096 * bq + 256 * br + 64 * cq + cr < 2 ^ 18" "256 * br + 64 * cq + cr < 2 ^ 12" "cr < 2 ^ 6"
    "ar * 16 + bq < 64" "br * 4 + cq < 64"
    using parts(4-8) by simp_all
  have "(65536 * a + 256 * b + c) div 2 ^ 18 mod 64 = aq" unfolding n(1) d [OF r(1)] using parts(9) by simp
  then show "(65536 * a + 256 * b + c) div 2 ^ 18 mod 64 = a div 4" by (simp only: aq_def)
  have "(65536 * a + 256 * b + c) div 2 ^ 12 mod 64 = ar * 16 + bq" unfolding n(2) d [OF r(2)] by (rule m [OF r(4)])
  then show "(65536 * a + 256 * b + c) div 2 ^ 12 mod 64 = a mod 4 * 16 + b div 16" by (simp only: ar_def bq_def)
  have "(65536 * a + 256 * b + c) div 2 ^ 6 mod 64 = br * 4 + cq" unfolding n(3) d [OF r(3)] by (rule m [OF r(5)])
  then show "(65536 * a + 256 * b + c) div 2 ^ 6 mod 64 = b mod 16 * 4 + c div 64" by (simp only: br_def cq_def)
  have "65536 * a + 256 * b + c = 64 * (1024 * a + 4 * b + cq) + cr" unfolding parts(3) by simp
  then have "(65536 * a + 256 * b + c) mod 64 = cr" by (simp only: m [OF parts(8)])
  then show "(65536 * a + 256 * b + c) div 2 ^ 0 mod 64 = c mod 64" by (simp only: cr_def power_0 div_by_1)
qed

lemma group_chars:
  fixes a b c :: byte
  defines "l \<equiv> push_bit 16 (ucast a :: u32) OR push_bit 8 (ucast b) OR ucast c"
  shows "conv_bin2ascii (ucast (drop_bit 18 l)) = b64_char (unat a div 4)"
    and "conv_bin2ascii (ucast (drop_bit 12 l)) = b64_char (unat a mod 4 * 16 + unat b div 16)"
    and "conv_bin2ascii (ucast (drop_bit 6 l)) = b64_char (unat b mod 16 * 4 + unat c div 64)"
    and "conv_bin2ascii (ucast l) = b64_char (unat c mod 64)"
proof -
  have lt: "65536 * unat a + 256 * unat b + unat c < 2 ^ 24"
    using byte_less [of a] byte_less [of b] byte_less [of c] by simp
  note s = char_of_shift [OF lt] and b = bits24 [OF byte_less [of a] byte_less [of b] byte_less [of c]]
  show "conv_bin2ascii (ucast (drop_bit 18 l)) = b64_char (unat a div 4)"
    "conv_bin2ascii (ucast (drop_bit 12 l)) = b64_char (unat a mod 4 * 16 + unat b div 16)"
    "conv_bin2ascii (ucast (drop_bit 6 l)) = b64_char (unat b mod 16 * 4 + unat c div 64)"
    unfolding l_def join_bytes24 s b by (rule refl)+
  show "conv_bin2ascii (ucast l) = b64_char (unat c mod 64)"
    unfolding l_def join_bytes24 using s [of 0] b(4) by simp
qed

lemma mem_at_Some: "i < length m \<Longrightarrow> mem_at m i = Some (m ! i)"
  by (simp add: mem_at_def)

lemma encode_block_loop_eq:
  assumes "unat remaining \<le> length src" and "p + length (b64 (take (unat remaining) src)) \<le> length dst"
  shows "encode_block_loop dst p src remaining ret =
    Some (splice dst p (b64 (take (unat remaining) src)), p + length (b64 (take (unat remaining) src)),
      ret + of_nat (length (b64 (take (unat remaining) src))))"
  using assms
proof (induction "unat remaining" arbitrary: dst p src remaining ret rule: less_induct)
  case less
  consider "unat remaining = 0" | "unat remaining = 1" | "unat remaining = 2" | "3 \<le> unat remaining" by linarith
  then show ?case
  proof cases
    case 1
    then have "remaining = 0" by (simp add: unat_eq_0)
    with less.prems show ?thesis by (subst encode_block_loop.simps) simp
  next
    case 2
    then have r: "remaining = 1" "\<not> 3 \<le> remaining" by (simp_all add: word_unat_eq_iff word_le_nat_alt)
    obtain a src' where src: "src = a # src'" using less.prems(1) 2 by (cases src) auto
    have z: "encode_block_loop d q s 0 k = Some (d, q, k)" for d q s k by (subst encode_block_loop.simps) simp
    show ?thesis
      using less.prems(2) group_chars [of a 0 0] r(2) unfolding src r(1)
      by (subst encode_block_loop.simps) (simp add: mem_at_def mem_write_splice z)
  next
    case 3
    then have r: "remaining = 2" "\<not> 3 \<le> remaining" by (simp_all add: word_unat_eq_iff word_le_nat_alt)
    obtain a b src' where src: "src = a # b # src'" using less.prems(1) 3 by (cases src; cases "tl src") auto
    have z: "encode_block_loop d q s 0 k = Some (d, q, k)" for d q s k by (subst encode_block_loop.simps) simp
    show ?thesis
      using less.prems(2) group_chars [of a b 0] r(2) unfolding src r(1)
      by (subst encode_block_loop.simps) (simp add: mem_at_def mem_write_splice z)
  next
    case 4
    then have r: "remaining \<noteq> 0" "3 \<le> remaining" by (auto simp: word_le_nat_alt)
    obtain a b c src' where src: "src = a # b # c # src'"
      using less.prems(1) 4 by (cases src; cases "tl src"; cases "tl (tl src)") auto
    obtain n where n: "unat remaining = 3 + n" using 4 nat_le_iff_add by blast
    have n': "unat (remaining - 3) = n" using r n unat_sub_le [of 3 remaining] by simp
    let ?q = "[b64_char (unat a div 4), b64_char (unat a mod 4 * 16 + unat b div 16),
      b64_char (unat b mod 16 * 4 + unat c div 64), b64_char (unat c mod 64)]"
    have fit: "p + 4 + length (b64 (take n src')) \<le> length dst"
      using less.prems(2) unfolding src n by (simp add: numeral_3_eq_3)
    have "encode_block_loop dst p src remaining ret =
        encode_block_loop (splice dst p ?q) (p + 4) src' (remaining - 3) (ret + 4)"
      using r fit by (subst encode_block_loop.simps) (simp add: src mem_at_def group_chars mem_write_splice del: drop_bit_or)
    also have "\<dots> = Some (splice (splice dst p ?q) (p + 4) (b64 (take n src')), p + 4 + length (b64 (take n src')),
        ret + 4 + of_nat (length (b64 (take n src'))))"
      using less.hyps [of "remaining - 3" src' "p + 4" "splice dst p ?q" "ret + 4"] less.prems(1) fit
      by (simp add: n n' src)
    finally show ?thesis
      using fit splice_splice [of p ?q dst "p + 4" "b64 (take n src')"] unfolding n src
      by (simp add: numeral_3_eq_3 ac_simps)
  qed
qed

lemma EVP_EncodeBlock_eq:
  assumes "unat src_len \<le> length src" and "p + length (b64 (take (unat src_len) src)) < length dst"
  shows "EVP_EncodeBlock dst p src src_len =
    Some (splice dst p (b64 (take (unat src_len) src) @ [0]), of_nat (length (b64 (take (unat src_len) src))))"
  using assms encode_block_loop_eq [OF assms(1), of p dst 0]
  by (simp add: EVP_EncodeBlock_def mem_put_splice splice_splice)

lemma add_wraps_iff: "(a :: size_t) + b < a \<longleftrightarrow> 2 ^ 64 \<le> unat a + unat b"
proof (cases "2 ^ 64 \<le> unat a + unat b")
  case True
  then have "unat (a + b) = unat a + unat b - 2 ^ 64"
    using unat_lt_2p [of a] unat_lt_2p [of b] unat_plus_if' [of a b] by simp
  with True show ?thesis using unat_lt_2p [of b] by (simp add: word_less_nat_alt)
next
  case False
  then show ?thesis by (simp add: word_less_nat_alt unat_add_no_overflow)
qed

lemma shift_back_iff:
  assumes "k < 2 ^ 64"
  shows "drop_bit 2 (push_bit 2 (of_nat k :: size_t)) = of_nat k \<longleftrightarrow> 4 * k < 2 ^ 64"
proof -
  have "push_bit 2 (of_nat k :: size_t) = of_nat (4 * k)" by (simp add: push_bit_eq_mult)
  then have "unat (drop_bit 2 (push_bit 2 (of_nat k :: size_t))) = 4 * k mod 2 ^ 64 div 4"
    by (simp only: unat_drop_bit unat_of_nat take_bit_eq_mod) simp
  moreover have "4 * k mod 2 ^ 64 div 4 = k \<longleftrightarrow> 4 * k < 2 ^ 64"
  proof
    assume "4 * k mod 2 ^ 64 div 4 = k"
    moreover have "4 * k mod 2 ^ 64 div 4 < 2 ^ 62" by simp
    ultimately show "4 * k < 2 ^ 64" by simp
  qed simp
  moreover have "unat (of_nat k :: size_t) = k" using assms by (intro unat_of_nat_less) simp
  ultimately show ?thesis by (simp only: word_unat_eq_iff)
qed

lemma EVP_EncodedLength_eq:
  "EVP_EncodedLength len =
     (let n = 4 * ((unat len + 2) div 3) + 1 in if n < 2 ^ 64 then Some (of_nat n) else None)"
proof (cases "2 ^ 64 \<le> unat len + 2")
  case True
  then have "\<not> 4 * ((unat len + 2) div 3) + 1 < 2 ^ 64" by simp
  with True show ?thesis by (simp add: EVP_EncodedLength_def add_wraps_iff Let_def)
next
  case False
  let ?k = "(unat len + 2) div 3"
  have k: "(len + 2) div 3 = of_nat ?k"
  proof -
    have "unat (len + 2) = unat len + 2" using False by (simp add: unat_add_no_overflow)
    then show ?thesis using unat_of_nat_less [of ?k, where 'a = 64] False
      by (simp add: word_unat_eq_iff unat_div)
  qed
  have lt: "?k < 2 ^ 64" using False by simp
  have p: "push_bit 2 (of_nat ?k :: size_t) = of_nat (4 * ?k)" by (simp add: push_bit_eq_mult)
  have o: "(of_nat (4 * ?k) :: size_t) + 1 < of_nat (4 * ?k) \<longleftrightarrow> 2 ^ 64 \<le> 4 * ?k + 1" if "4 * ?k < 2 ^ 64"
    using add_wraps_iff [of "of_nat (4 * ?k)" 1] unat_of_nat_less [of "4 * ?k", where 'a = 64] that by simp
  show ?thesis
  proof (cases "4 * ?k < 2 ^ 64")
    case small: True
    then have "drop_bit 2 (push_bit 2 (of_nat ?k :: size_t)) = of_nat ?k" using shift_back_iff [OF lt] by blast
    then show ?thesis using False o [OF small] p by (simp add: EVP_EncodedLength_def add_wraps_iff k Let_def)
  next
    case large: False
    then have "drop_bit 2 (push_bit 2 (of_nat ?k :: size_t)) \<noteq> of_nat ?k" using shift_back_iff [OF lt] by blast
    then show ?thesis using large False by (simp add: EVP_EncodedLength_def add_wraps_iff k Let_def)
  qed
qed

section \<open>Decoding in one go\<close>

lemma join_digits:
  assumes "x < 64" "y < 64" "z < 64" "w < 64"
  shows "push_bit 18 (of_nat x :: u32) OR push_bit 12 (of_nat y) OR push_bit 6 (of_nat z) OR of_nat w =
    of_nat (262144 * x + 4096 * y + 64 * z + w)"
proof -
  have "push_bit 18 (of_nat x :: u32) OR push_bit 12 (of_nat y) OR push_bit 6 (of_nat z) OR of_nat w =
      ((of_nat w OR push_bit 6 (of_nat z)) OR push_bit 12 (of_nat y)) OR push_bit 18 (of_nat x)"
    by (simp add: ac_simps)
  also have "\<dots> = (of_nat (w + 2 ^ 6 * z) OR push_bit 12 (of_nat y)) OR push_bit 18 (of_nat x)"
    using assms by (subst or_push_bit_of_nat) simp_all
  also have "\<dots> = of_nat (w + 2 ^ 6 * z + 2 ^ 12 * y) OR push_bit 18 (of_nat x)"
    using assms by (subst or_push_bit_of_nat) simp_all
  also have "\<dots> = of_nat (w + 2 ^ 6 * z + 2 ^ 12 * y + 2 ^ 18 * x)"
    using assms by (subst or_push_bit_of_nat) simp_all
  finally show ?thesis by (simp add: ac_simps)
qed

lemma byte_eqI: "m mod 256 = n mod 256 \<Longrightarrow> (of_nat m :: byte) = of_nat n"
  by (simp add: word_unat_eq_iff unat_of_nat_byte)

lemma digit_bytes:
  assumes "x < 64" "y < 64" "z < 64" "w < 64"
  defines "v \<equiv> of_nat (262144 * x + 4096 * y + 64 * z + w) :: u32"
  shows "(ucast (drop_bit 16 v) :: byte) = of_nat (x * 4 + y div 16)"
    and "(ucast (drop_bit 8 v) :: byte) = of_nat (y mod 16 * 16 + z div 4)"
    and "(ucast v :: byte) = of_nat (z mod 4 * 64 + w)"
proof -
  define yq yr zq zr where "yq = y div 16" and "yr = y mod 16" and "zq = z div 4" and "zr = z mod 4"
  let ?n = "262144 * x + 4096 * y + 64 * z + w"
  have parts: "y = 16 * yq + yr" "z = 4 * zq + zr" "yr < 16" "zr < 4" "zq < 16"
    using assms by (simp_all add: yq_def yr_def zq_def zr_def)
  have n: "?n = 2 ^ 16 * (x * 4 + yq) + (4096 * yr + 256 * zq + 64 * zr + w)"
    "?n = 2 ^ 8 * (256 * (x * 4 + yq) + (yr * 16 + zq)) + (64 * zr + w)"
    "?n = 256 * (1024 * x + 256 * yq + 16 * yr + zq) + (zr * 64 + w)"
    unfolding parts(1,2) by simp_all
  have d: "(2 ^ k * q + r) div 2 ^ k = q" if "r < 2 ^ k" for k q r :: nat using that by simp
  have r: "4096 * yr + 256 * zq + 64 * zr + w < 2 ^ 16" "64 * zr + w < 2 ^ 8" using parts(3-5) assms(4) by simp_all
  have lt: "?n < 2 ^ 32" using assms(1-4) by simp
  have "?n div 2 ^ 16 = x * 4 + yq" unfolding n(1) by (rule d [OF r(1)])
  then show "(ucast (drop_bit 16 v) :: byte) = of_nat (x * 4 + y div 16)"
    unfolding v_def byte_of_shift [OF lt] by (simp only: yq_def)
  have "?n div 2 ^ 8 = 256 * (x * 4 + yq) + (yr * 16 + zq)" unfolding n(2) by (rule d [OF r(2)])
  then have "?n div 2 ^ 8 mod 256 = (yr * 16 + zq) mod 256" by (simp only: mod_mult_self4)
  then show "(ucast (drop_bit 8 v) :: byte) = of_nat (y mod 16 * 16 + z div 4)"
    unfolding v_def byte_of_shift [OF lt] yr_def zq_def by (rule byte_eqI)
  have "?n div 2 ^ 0 mod 256 = (zr * 64 + w) mod 256"
    unfolding n(3) by (simp only: power_0 div_by_1 mod_mult_self4)
  then have "(ucast (drop_bit 0 v) :: byte) = of_nat (zr * 64 + w)"
    unfolding v_def byte_of_shift [OF lt] by (rule byte_eqI)
  then show "(ucast v :: byte) = of_nat (z mod 4 * 64 + w)" by (simp add: zr_def)
qed

lemma ascii_to_bin_cases:
  "base64_ascii_to_bin c = 0xFF \<longleftrightarrow> b64_digit c = None \<and> c \<noteq> 0x3D"
  "b64_digit c = Some n \<Longrightarrow> (ucast (base64_ascii_to_bin c) :: u32) = of_nat n"
  "base64_ascii_to_bin 0x3D = 0"
proof -
  have "(of_nat n :: byte) \<noteq> 0xFF" if "n < 64" for n
    using that by (simp add: word_unat_eq_iff unat_of_nat_byte)
  then show "base64_ascii_to_bin c = 0xFF \<longleftrightarrow> b64_digit c = None \<and> c \<noteq> 0x3D"
    by (auto simp: base64_ascii_to_bin_eq dest: b64_digit_less split: option.splits)
  show "(ucast (base64_ascii_to_bin c) :: u32) = of_nat n" if "b64_digit c = Some n"
    using b64_digit_less [OF that] that
    by (simp only: base64_ascii_to_bin_eq ucast_eq_of_nat unat_of_nat_byte option.case) simp
  show "base64_ascii_to_bin 0x3D = 0" by (simp add: base64_ascii_to_bin_eq)
qed

lemma padding_pattern_iff:
  "push_bit 3 (of_bool P :: u32) OR push_bit 2 (of_bool Q) OR push_bit 1 (of_bool R) OR of_bool S = 0 \<longleftrightarrow>
     \<not> P \<and> \<not> Q \<and> \<not> R \<and> \<not> S"
  "push_bit 3 (of_bool P :: u32) OR push_bit 2 (of_bool Q) OR push_bit 1 (of_bool R) OR of_bool S = 1 \<longleftrightarrow>
     \<not> P \<and> \<not> Q \<and> \<not> R \<and> S"
  "push_bit 3 (of_bool P :: u32) OR push_bit 2 (of_bool Q) OR push_bit 1 (of_bool R) OR of_bool S = 3 \<longleftrightarrow>
     \<not> P \<and> \<not> Q \<and> R \<and> S"
  by (cases P; cases Q; cases R; cases S; simp)+

lemma base64_decode_quad_eq:
  "base64_decode_quad out p (a # b # c # d # r) =
     (case unb64_quad a b c d of
        None \<Rightarrow> Fail out
      | Some bs \<Rightarrow> (case mem_write out p bs of None \<Rightarrow> Fault | Some out' \<Rightarrow> Ok (of_nat (length bs)) out'))"
proof (cases "base64_ascii_to_bin a = 0xFF \<or> base64_ascii_to_bin b = 0xFF \<or>
    base64_ascii_to_bin c = 0xFF \<or> base64_ascii_to_bin d = 0xFF")
  case True
  then have "unb64_quad a b c d = None"
    unfolding ascii_to_bin_cases(1) unb64_quad_def by (auto split: option.splits)
  with True show ?thesis by (simp add: base64_decode_quad_def mem_range_def Let_def)
next
  case False
  let ?dig = "\<lambda>c. case b64_digit c of None \<Rightarrow> 0 | Some n \<Rightarrow> n"
  have lt: "?dig c < 64" for c by (auto dest: b64_digit_less split: option.splits)
  have w: "(ucast (base64_ascii_to_bin e) :: u32) = of_nat (?dig e)" if "base64_ascii_to_bin e \<noteq> 0xFF" for e
    using that ascii_to_bin_cases by (cases "b64_digit e") auto
  define V :: u32 where "V = of_nat (262144 * ?dig a + 4096 * ?dig b + 64 * ?dig c + ?dig d)"
  have v: "push_bit 18 (ucast (base64_ascii_to_bin a) :: u32) OR push_bit 12 (ucast (base64_ascii_to_bin b)) OR
      push_bit 6 (ucast (base64_ascii_to_bin c)) OR ucast (base64_ascii_to_bin d) = V"
    using False w unfolding V_def by (simp only: join_digits [OF lt lt lt lt] de_Morgan_disj simp_thms)
  note bytes = digit_bytes [OF lt lt lt lt, of a b c d, folded V_def]
  have q: "mem_range (a # b # c # d # r) 4 = Some [a, b, c, d]" by (simp add: mem_range_def)
  have nth: "[a, b, c, d] ! 0 = a" "[a, b, c, d] ! 1 = b" "[a, b, c, d] ! 2 = c" "[a, b, c, d] ! 3 = d" by simp_all
  have valid: "base64_ascii_to_bin a \<noteq> 0xFF" "base64_ascii_to_bin b \<noteq> 0xFF"
    "base64_ascii_to_bin c \<noteq> 0xFF" "base64_ascii_to_bin d \<noteq> 0xFF" using False by simp_all
  have digit: "x = 0x3D \<longleftrightarrow> b64_digit x = None" if "base64_ascii_to_bin x \<noteq> 0xFF" for x
    using that by (auto simp: ascii_to_bin_cases(1))
  note pad = valid [THEN digit]
  show ?thesis
    unfolding base64_decode_quad_def q option.case Let_def nth if_not_P [OF False] v bytes unb64_quad_def padding_pattern_iff pad
    by (cases "b64_digit a"; cases "b64_digit b"; cases "b64_digit c"; cases "b64_digit d")
      (simp_all only: option.case prod.case option.distinct if_True if_False simp_thms)
qed

lemma length_unb64_quad: "unb64_quad a b c d = Some bs \<Longrightarrow> 0 < length bs \<and> length bs \<le> 3"
  by (auto simp: unb64_quad_def split: option.splits if_splits)

lemma unb64_length: "unb64 xs = Some bs \<Longrightarrow> length xs mod 4 = 0 \<and> length bs \<le> 3 * (length xs div 4)"
proof (induction xs arbitrary: bs rule: unb64.induct)
  case (2 a b c d r)
  then obtain q bs' where q: "unb64_quad a b c d = Some q" "unb64 r = Some bs'" "bs = q @ bs'"
    by (auto split: option.splits if_splits)
  have "length r mod 4 = 0 \<and> length bs' \<le> 3 * (length r div 4)"
    using 2 q by (auto split: if_splits)
  moreover have "length (a # b # c # d # r) = 4 + length r" by simp
  moreover have "(4 + length r) div 4 = Suc (length r div 4)" by simp
  ultimately show ?case using length_unb64_quad [OF q(1)] q(3) by (simp del: div_add_self1)
qed simp_all

lemma decode_quads_eq:
  assumes "4 * n \<le> length inp" and "p + 3 * n \<le> length out"
  shows "(case unb64 (take (4 * n) inp) of
      Some bs \<Rightarrow> decode_quads out p k inp n = Ok (k + of_nat (length bs)) (splice out p bs)
    | None \<Rightarrow> \<exists>out'. decode_quads out p k inp n = Fail out' \<and> length out' = length out)"
  using assms
proof (induction n arbitrary: out p k inp)
  case 0
  then show ?case by simp
next
  case (Suc n)
  obtain a b c d r where inp: "inp = a # b # c # d # r"
    using Suc.prems(1) by (cases inp rule: unb64.cases) auto
  have t: "take (4 * Suc n) inp = a # b # c # d # take (4 * n) r" by (simp add: inp eval_nat_numeral)
  show ?case
  proof (cases "unb64_quad a b c d")
    case None
    then show ?thesis unfolding t by (simp add: inp base64_decode_quad_eq)
  next
    case (Some q)
    note q = length_unb64_quad [OF Some]
    have w: "mem_write out p q = Some (splice out p q)" using q Suc.prems(2) by (intro mem_write_splice) simp
    have num: "unat (of_nat (length q) :: size_t) = length q" using q by (intro unat_of_nat_less) simp
    have three: "(of_nat (length q) :: size_t) \<noteq> 3 \<longleftrightarrow> length q < 3"
      using q num by (auto simp: word_unat_eq_iff)
    have empty: "r = [] \<Longrightarrow> n = 0" using Suc.prems(1) inp by auto
    have "(case unb64 (take (4 * n) r) of
        Some bs \<Rightarrow> decode_quads (splice out p q) (p + length q) (k + of_nat (length q)) r n =
          Ok (k + of_nat (length q) + of_nat (length bs)) (splice (splice out p q) (p + length q) bs)
      | None \<Rightarrow> \<exists>out'. decode_quads (splice out p q) (p + length q) (k + of_nat (length q)) r n = Fail out' \<and>
          length out' = length (splice out p q))"
      using Suc.prems q inp by (intro Suc.IH) simp_all
    then show ?thesis
      unfolding t using Some q Suc.prems(2)
      by (auto simp: inp base64_decode_quad_eq w three num splice_splice dest: empty split: option.splits)
  qed
qed

lemma EVP_DecodeBase64_eq:
  assumes "unat in_len \<le> length inp" and "unat max_out \<le> length out"
  shows "case EVP_DecodeBase64 out max_out inp in_len of
      Fault \<Rightarrow> False
    | Fail out' \<Rightarrow> length out' = length out \<and>
        (unb64 (take (unat in_len) inp) = None \<or> unat max_out < 3 * (unat in_len div 4))
    | Ok n out' \<Rightarrow> unat max_out \<ge> 3 * (unat in_len div 4) \<and>
        (\<exists>bs. unb64 (take (unat in_len) inp) = Some bs \<and> n = of_nat (length bs) \<and> out' = splice out 0 bs)"
proof (cases "in_len mod 4 = 0")
  case False
  then have "unat in_len mod 4 \<noteq> 0" by (simp add: word_unat_eq_iff unat_mod)
  then have "unb64 (take (unat in_len) inp) = None"
    using unb64_length [of "take (unat in_len) inp"] assms(1) by (cases "unb64 (take (unat in_len) inp)") auto
  with False show ?thesis by (simp add: EVP_DecodeBase64_def)
next
  case True
  then have m: "unat in_len mod 4 = 0" by (simp add: word_unat_eq_iff unat_mod)
  have "unat in_len < 2 ^ 64" using unat_lt_2p [of in_len] by simp
  then have u: "unat (in_len div 4 * 3) = 3 * (unat in_len div 4)"
    by (simp add: unat_word_ariths unat_div)
  have n: "4 * (unat in_len div 4) = unat in_len" using div_mult_mod_eq [of "unat in_len" 4] m by simp
  show ?thesis
  proof (cases "unat max_out < 3 * (unat in_len div 4)")
    case small: True
    then show ?thesis using True by (simp add: EVP_DecodeBase64_def EVP_DecodedLength_def word_less_nat_alt u)
  next
    case False
    have "EVP_DecodeBase64 out max_out inp in_len = decode_quads out 0 0 inp (unat in_len div 4)"
      using True False by (simp add: EVP_DecodeBase64_def EVP_DecodedLength_def word_less_nat_alt u)
    with decode_quads_eq [of "unat in_len div 4" inp 0 out 0] False assms n show ?thesis
      by (auto split: option.splits)
  qed
qed

end
