(* ===== verification/Base64Stream.thy ===== *)
theory Base64Stream
  imports Base64Codec
begin

text \<open>
  The streaming codec \<open>EVP_ENCODE_CTX\<close>: whatever pieces an input is cut into, the encoder produces the same text, in
  lines of 64 characters, and the decoder the same bytes, skipping blanks and newlines.
\<close>

unbundle bit_operations_syntax

section \<open>The streaming encoder\<close>

text \<open>The complete lines of an input, and the bytes after the last complete line.\<close>

function b64_lines :: "byte list \<Rightarrow> byte list" where
  "b64_lines xs = (if length xs < 48 then [] else b64 (take 48 xs) @ 0x0A # b64_lines (drop 48 xs))"
  by pat_completeness auto
termination by (relation "measure length") auto

declare b64_lines.simps [simp del]

lemma b64_lines_short: "length xs < 48 \<Longrightarrow> b64_lines xs = []"
  by (subst b64_lines.simps) simp

lemma b64_lines_long: "48 \<le> length xs \<Longrightarrow> b64_lines xs = b64 (take 48 xs) @ 0x0A # b64_lines (drop 48 xs)"
  by (subst b64_lines.simps) simp

definition b64_rest :: "byte list \<Rightarrow> byte list" where
  "b64_rest xs = drop (48 * (length xs div 48)) xs"

lemma length_b64_rest: "length (b64_rest xs) = length xs mod 48"
  by (simp add: b64_rest_def minus_mult_div_eq_mod)

lemma b64_rest_short: "length xs < 48 \<Longrightarrow> b64_rest xs = xs"
  by (simp add: b64_rest_def)

lemma b64_rest_long: "48 \<le> length xs \<Longrightarrow> b64_rest xs = b64_rest (drop 48 xs)"
  by (simp add: b64_rest_def le_div_geq add.commute)

lemma length_b64_lines: "length (b64_lines xs) = 65 * (length xs div 48)"
proof (induction xs rule: b64_lines.induct)
  case (1 xs)
  then show ?case by (subst b64_lines.simps) (simp add: length_b64 le_div_geq)
qed

lemma encode_line_eq:
  assumes "unat n \<le> length src" and "p + length (b64 (take (unat n) src)) + 1 < length out"
    and "length (b64 (take (unat n) src)) < 2 ^ 64"
  shows "encode_line out p src n =
    Some (splice out p (b64 (take (unat n) src) @ [0x0A, 0]), p + length (b64 (take (unat n) src)) + 1,
      of_nat (length (b64 (take (unat n) src))))"
proof -
  let ?L = "b64 (take (unat n) src)"
  have u: "unat (of_nat (length ?L) :: size_t) = length ?L" using assms(3) by (intro unat_of_nat_less) simp
  have "splice (splice out p (?L @ [0])) (p + length ?L) [0x0A] = splice out p (?L @ [0x0A])"
    using assms(2) by (simp add: splice_def)
  moreover have "splice (splice out p (?L @ [0x0A])) (p + length ?L + 1) [0] = splice out p (?L @ [0x0A, 0])"
    using assms(2) by (subst splice_splice) simp_all
  ultimately show ?thesis
    using assms(2) EVP_EncodeBlock_eq [OF assms(1), of p out] by (simp add: encode_line_def u mem_put_splice)
qed

lemma encode_lines_eq:
  assumes "unat in_len \<le> length inp" and "p + length (b64_lines (take (unat in_len) inp)) < length out"
    and "unat tot + length (b64_lines (take (unat in_len) inp)) < 2 ^ 64"
  shows "\<exists>out'. encode_lines out p inp in_len tot =
      Some (True, out', drop (48 * (unat in_len div 48)) inp, in_len mod 48,
        tot + of_nat (length (b64_lines (take (unat in_len) inp)))) \<and>
    length out' = length out \<and>
    take (p + length (b64_lines (take (unat in_len) inp))) out' = take p out @ b64_lines (take (unat in_len) inp)"
  using assms
proof (induction "unat in_len" arbitrary: out p inp in_len tot rule: less_induct)
  case less
  let ?xs = "take (unat in_len) inp"
  show ?case
  proof (cases "in_len < 48")
    case True
    then have lt: "unat in_len < 48" by (simp add: word_less_nat_alt)
    then have "in_len mod 48 = in_len" by (simp add: word_unat_eq_iff unat_mod)
    then show ?thesis using True lt by (subst encode_lines.simps) (simp add: b64_lines_short)
  next
    case False
    then have ge: "48 \<le> unat in_len" by (simp add: word_less_nat_alt)
    have sub: "unat (in_len - 48) = unat in_len - 48" using ge by (simp add: unat_sub_le word_le_nat_alt)
    have lines: "b64_lines ?xs = b64 (take 48 inp) @ 0x0A # b64_lines (take (unat in_len - 48) (drop 48 inp))"
      using ge less.prems(1) by (simp add: b64_lines_long drop_take)
    let ?L = "b64 (take 48 inp)" and ?R = "b64_lines (take (unat in_len - 48) (drop 48 inp))"
    have L: "length ?L = 64" using ge less.prems(1) by (simp add: length_b64)
    let ?o = "splice out p (?L @ [0x0A, 0])"
    have line: "encode_line out p inp 48 = Some (?o, p + 65, 64)"
      using encode_line_eq [of 48 inp p out] ge less.prems by (simp add: L lines)
    have nowrap: "\<not> tot + 64 + 1 < tot"
    proof -
      have "tot + 64 + 1 = tot + 65" and "unat (65 :: size_t) = 65" by simp_all
      then show ?thesis using less.prems(3) L lines by (simp only: add_wraps_iff) simp
    qed
    have t65: "unat (tot + 65) = unat tot + 65" using less.prems(3) L lines by (simp add: unat_add_no_overflow)
    have "\<exists>out'. encode_lines ?o (p + 65) (drop 48 inp) (in_len - 48) (tot + 65) =
        Some (True, out', drop (48 * (unat (in_len - 48) div 48)) (drop 48 inp), (in_len - 48) mod 48,
          tot + 65 + of_nat (length ?R)) \<and>
      length out' = length ?o \<and> take (p + 65 + length ?R) out' = take (p + 65) ?o @ ?R"
      using less.hyps [of "in_len - 48" "drop 48 inp" "p + 65" ?o "tot + 65"] less.prems ge L lines
      by (simp add: sub t65)
    then obtain out' where e: "encode_lines ?o (p + 65) (drop 48 inp) (in_len - 48) (tot + 65) =
        Some (True, out', drop (48 * (unat (in_len - 48) div 48)) (drop 48 inp), (in_len - 48) mod 48,
          tot + 65 + of_nat (length ?R))"
      and len: "length out' = length ?o" and pre: "take (p + 65 + length ?R) out' = take (p + 65) ?o @ ?R" by blast
    have m: "(in_len - 48) mod 48 = in_len mod 48"
      using ge by (simp add: word_unat_eq_iff unat_mod sub le_mod_geq)
    have d: "drop (48 * (unat (in_len - 48) div 48)) (drop 48 inp) = drop (48 * (unat in_len div 48)) inp"
      using ge by (simp add: sub le_div_geq add.commute)
    have "take (p + 65) ?o = take p out @ ?L @ [0x0A]"
      using less.prems(2) L lines take_splice [of p out "?L @ [0x0A, 0]"] by (simp add: splice_def)
    then have "take (p + length (b64_lines ?xs)) out' = take p out @ b64_lines ?xs"
      using pre by (simp add: lines L ac_simps)
    moreover have "encode_lines out p inp in_len tot =
        Some (True, out', drop (48 * (unat in_len div 48)) inp, in_len mod 48, tot + of_nat (length (b64_lines ?xs)))"
      using False e [unfolded m d] nowrap by (subst encode_lines.simps) (simp add: line lines L ac_simps)
    moreover have "length out' = length out" using len less.prems(2) L lines by simp
    ultimately show ?thesis by blast
  qed
qed

text \<open>A context between two calls: the bytes that wait for the rest of their line.\<close>

definition ctx_ok :: "EVP_ENCODE_CTX \<Rightarrow> bool" where
  "ctx_ok ctx \<longleftrightarrow> length (ctx_data ctx) = 48 \<and> unat (data_used ctx) < 48"

definition pending :: "EVP_ENCODE_CTX \<Rightarrow> byte list" where
  "pending ctx = take (unat (data_used ctx)) (ctx_data ctx)"

lemma length_pending: "ctx_ok ctx \<Longrightarrow> length (pending ctx) = unat (data_used ctx)"
  by (simp add: ctx_ok_def pending_def)

lemma u32_as_size: "unat (ucast (w :: u32) :: size_t) = unat w"
  using unat_lt_2p [of w] by (simp only: ucast_eq_of_nat) (intro unat_of_nat_less, simp)

lemma size_as_u32: "unat (w :: size_t) < 2 ^ 32 \<Longrightarrow> unat (ucast w :: u32) = unat w"
  by (simp only: ucast_eq_of_nat) (intro unat_of_nat_less, simp)

text \<open>What one call of \<open>EVP_EncodeUpdate\<close> is meant to do.\<close>

definition updates :: "byte list \<Rightarrow> byte list \<Rightarrow> (u32 \<times> byte list \<times> EVP_ENCODE_CTX) option \<Rightarrow> bool" where
  "updates data out r \<longleftrightarrow>
     (\<exists>out' ctx'. r = Some (of_nat (length (b64_lines data)), out', ctx') \<and> ctx_ok ctx' \<and>
        pending ctx' = b64_rest data \<and> length out' = length out \<and>
        take (length (b64_lines data)) out' = b64_lines data)"

lemma b64_lines_append: "pre = [] \<or> length pre = 48 \<Longrightarrow> b64_lines (pre @ xs) = b64_lines pre @ b64_lines xs"
  by (auto simp: b64_lines_short b64_lines_long)

lemma b64_rest_append: "pre = [] \<or> length pre = 48 \<Longrightarrow> b64_rest (pre @ xs) = b64_rest xs"
  by (auto simp: b64_rest_long)

lemma encode_update_tail:
  assumes ok: "length (ctx_data ctx) = 48" and n: "unat in_len \<le> length inp"
    and pre: "pre = [] \<or> length pre = 48"
    and p: "p = length (b64_lines pre)" "take p out = b64_lines pre" "tot = of_nat p"
    and fit: "length (b64_lines (pre @ take (unat in_len) inp)) < length out"
      "length (b64_lines (pre @ take (unat in_len) inp)) \<le> 0x7FFFFFFF"
  shows "updates (pre @ take (unat in_len) inp) out (do {
        (no_wrap, out2, inp2, len2, total2) \<leftarrow> encode_lines out p inp in_len tot;
        if \<not> no_wrap then Some (0, out2, ctx)
        else do {
          data2 \<leftarrow> (if len2 \<noteq> 0
                    then do { bs \<leftarrow> mem_range inp2 (unat len2); mem_write (ctx_data ctx) 0 bs }
                    else Some (ctx_data ctx));
          Some (if INT_MAX < total2 then 0 else ucast total2, out2, ctx\<lparr>ctx_data := data2, data_used := ucast len2\<rparr>)
        }
      })"
proof -
  let ?xs = "take (unat in_len) inp"
  let ?k = "length (b64_lines (pre @ ?xs))" and ?r = "in_len mod 48"
  note app = b64_lines_append [OF pre, of ?xs]
  have tot: "unat tot = p" using fit p app by (simp add: unat_of_nat_less)
  have room0: "p + length (b64_lines ?xs) < length out" "unat tot + length (b64_lines ?xs) < 2 ^ 64"
    using fit p(1) app by (simp_all add: tot)
  obtain out' where e: "encode_lines out p inp in_len tot =
      Some (True, out', drop (48 * (unat in_len div 48)) inp, ?r, tot + of_nat (length (b64_lines ?xs)))"
    and len: "length out' = length out" and pre': "take (p + length (b64_lines ?xs)) out' = take p out @ b64_lines ?xs"
    using encode_lines_eq [OF n room0] by blast
  have t: "tot + of_nat (length (b64_lines ?xs)) = of_nat ?k" using p app by simp
  have k: "unat (of_nat ?k :: size_t) = ?k" using fit(2) by (intro unat_of_nat_less) simp
  then have ret: "\<not> INT_MAX < (of_nat ?k :: size_t)" "(ucast (of_nat ?k :: size_t) :: u32) = of_nat ?k"
    using fit(2) by (simp_all only: word_less_nat_alt ucast_eq_of_nat) simp_all
  have r: "unat ?r = unat in_len mod 48" by (simp add: unat_mod)
  have rest: "take (unat ?r) (drop (48 * (unat in_len div 48)) inp) = b64_rest (pre @ ?xs)"
  proof -
    have "b64_rest ?xs = drop (48 * (unat in_len div 48)) ?xs" using n by (simp add: b64_rest_def)
    then show ?thesis using b64_rest_append [OF pre, of ?xs] by (simp add: drop_take r minus_mult_div_eq_mod)
  qed
  have room: "unat ?r \<le> length (drop (48 * (unat in_len div 48)) inp)"
    using n r mult_div_mod_eq [of 48 "unat in_len"] by (simp only: length_drop)
  define data2 where "data2 = b64_rest (pre @ ?xs) @ drop (unat ?r) (ctx_data ctx)"
  have lr: "length (b64_rest (pre @ ?xs)) = unat ?r" using rest room by (metis length_take min.absorb2)
  have "unat ?r < 48" by (simp add: r)
  have w: "(if ?r \<noteq> 0 then do { bs \<leftarrow> mem_range (drop (48 * (unat in_len div 48)) inp) (unat ?r);
      mem_write (ctx_data ctx) 0 bs } else Some (ctx_data ctx)) = Some data2"
  proof (cases "?r = 0")
    case True
    then have "b64_rest (pre @ ?xs) = []" using lr by (simp only: unat_0 length_0_conv)
    with True show ?thesis by (simp add: data2_def)
  next
    case False
    with room ok lr rest \<open>unat ?r < 48\<close> show ?thesis
      by (simp only: mem_range_def mem_write_def data2_def) simp
  qed
  have "ctx_ok (ctx\<lparr>ctx_data := data2, data_used := ucast ?r\<rparr>)"
    "pending (ctx\<lparr>ctx_data := data2, data_used := ucast ?r\<rparr>) = b64_rest (pre @ ?xs)"
    using ok lr \<open>unat ?r < 48\<close> by (simp_all add: ctx_ok_def pending_def data2_def size_as_u32)
  then show ?thesis
    using len pre' p(1,2) app ret unfolding updates_def e t
    by (simp add: w [simplified] del: bind_eq_Some_conv)
qed

lemma EVP_EncodeUpdate_eq:
  assumes ok: "ctx_ok ctx" and n: "unat in_len \<le> length inp"
    and fit: "length (b64_lines (pending ctx @ take (unat in_len) inp)) < length out"
      "length (b64_lines (pending ctx @ take (unat in_len) inp)) \<le> 0x7FFFFFFF"
  shows "updates (pending ctx @ take (unat in_len) inp) out (EVP_EncodeUpdate ctx out inp in_len)"
proof -
  let ?u = "unat (data_used ctx)" and ?n = "unat in_len"
  have u: "?u < 48" "length (ctx_data ctx) = 48" "length (pending ctx) = ?u" "data_used ctx < 48"
    using ok by (simp_all add: ctx_ok_def length_pending word_less_nat_alt)
  have todo: "unat (48 - ucast (data_used ctx) :: size_t) = 48 - ?u"
    using u(1) u32_as_size [of "data_used ctx"] by (simp add: unat_sub_le word_le_nat_alt)
  have lt: "in_len < 48 - ucast (data_used ctx) \<longleftrightarrow> ?n < 48 - ?u" by (simp only: word_less_nat_alt todo)
  consider "in_len = 0" | "in_len \<noteq> 0" "?n < 48 - ?u" | "in_len \<noteq> 0" "48 - ?u \<le> ?n" "?u = 0"
    | "in_len \<noteq> 0" "48 - ?u \<le> ?n" "?u \<noteq> 0" by linarith
  then show ?thesis
  proof cases
    case 1
    then show ?thesis using ok u by (simp add: EVP_EncodeUpdate_def updates_def b64_lines_short b64_rest_short)
  next
    case 2
    have sum: "unat (data_used ctx + ucast in_len) = ?u + ?n"
      using 2(2) u(1) size_as_u32 [of in_len] by (simp add: unat_add_no_overflow)
    moreover have "?u + ?n < 48" using 2(2) by linarith
    ultimately show ?thesis
      using 2 u n ok
      by (simp add: EVP_EncodeUpdate_def lt mem_range_def mem_write_def updates_def b64_lines_short b64_rest_short
          ctx_ok_def pending_def)
  next
    case 3
    then have z: "data_used ctx = 0" by (simp add: unat_eq_0)
    then have "pending ctx = []" by (simp add: pending_def)
    then show ?thesis
      using 3 encode_update_tail [of ctx in_len inp "[]" 0 out 0] u n fit lt
      by (simp add: EVP_EncodeUpdate_def z b64_lines_short)
  next
    case 4
    let ?t = "48 - ?u"
    define D where "D = pending ctx @ take ?t inp"
    have nz: "data_used ctx \<noteq> 0" using 4 by auto
    have d: "length D = 48" using 4 n u by (simp add: D_def)
    have w: "mem_range inp ?t = Some (take ?t inp)" "mem_write (ctx_data ctx) ?u (take ?t inp) = Some D"
      using 4 n u by (simp_all add: mem_range_def mem_write_def pending_def D_def)
    have data: "pending ctx @ take ?n inp = D @ take (?n - ?t) (drop ?t inp)"
      using 4 by (simp add: take_add [symmetric] D_def)
    have L: "length (b64 D) = 64" using d by (simp only: length_b64) simp
    have lines: "b64_lines D = b64 D @ [0x0A]" using d by (simp add: b64_lines_long b64_lines_short)
    have long: "65 < length out"
      using fit(1) b64_lines_append [of D "take (?n - ?t) (drop ?t inp)"] d L lines by (simp add: data)
    then have line: "encode_line out 0 D 48 = Some (splice out 0 (b64 D @ [0x0A, 0]), 65, 64)"
      using encode_line_eq [of 48 D 0 out] d L by simp
    have left: "unat (in_len - (48 - ucast (data_used ctx))) = ?n - ?t"
      using 4 todo by (simp add: unat_sub_le word_le_nat_alt)
    let ?o = "splice out 0 (b64 D @ [0x0A, 0])" and ?c = "ctx\<lparr>ctx_data := D, data_used := 0\<rparr>"
    have o: "length ?o = length out" using long L by simp
    have "take 65 ?o = b64_lines D" using long L by (simp add: splice_def lines)
    moreover have "(65 :: nat) = length (b64_lines D)" using L lines by simp
    ultimately have "updates (D @ take (?n - ?t) (drop ?t inp)) ?o (EVP_EncodeUpdate ctx out inp in_len)"
      using encode_update_tail [of ?c "in_len - (48 - ucast (data_used ctx))" "drop ?t inp" D 65 ?o 65] fit n d u 4 o
      by (simp add: left EVP_EncodeUpdate_def lt nz w todo line data)
    then show ?thesis by (simp add: updates_def o data)
  qed
qed

lemma EVP_EncodeInit_ok: "ctx_ok (EVP_EncodeInit ctx)" "pending (EVP_EncodeInit ctx) = []"
  by (simp_all add: EVP_EncodeInit_def ctx_ok_def pending_def)

text \<open>The last line of an input, when there is one.\<close>

definition b64_last :: "byte list \<Rightarrow> byte list" where
  "b64_last bs = (if bs = [] then [] else b64 bs @ [0x0A])"

lemma EVP_EncodeFinal_eq:
  assumes "ctx_ok ctx" and "length (b64_last (pending ctx)) < length out"
  shows "\<exists>out' ctx'. EVP_EncodeFinal ctx out = Some (of_nat (length (b64_last (pending ctx))), out', ctx') \<and>
    take (length (b64_last (pending ctx))) out' = b64_last (pending ctx) \<and> pending ctx' = []"
proof (cases "data_used ctx = 0")
  case True
  then have "pending ctx = []" by (simp add: pending_def)
  with True show ?thesis by (simp add: EVP_EncodeFinal_def b64_last_def)
next
  case False
  let ?L = "b64 (pending ctx)"
  have u: "unat (data_used ctx) < 48" "length (ctx_data ctx) = 48" "pending ctx \<noteq> []"
    using assms(1) False by (auto simp: ctx_ok_def pending_def unat_eq_0)
  have L: "length ?L \<le> 64" using u length_pending [OF assms(1)] by (simp add: length_b64)
  have line: "encode_line out 0 (ctx_data ctx) (ucast (data_used ctx)) =
      Some (splice out 0 (?L @ [0x0A, 0]), length ?L + 1, of_nat (length ?L))"
    using encode_line_eq [of "ucast (data_used ctx)" "ctx_data ctx" 0 out] assms(2) L u
    by (simp add: u32_as_size pending_def [symmetric] b64_last_def)
  have e: "unat (of_nat (length ?L) + 1 :: size_t) = length ?L + 1"
    using L unat_of_nat_less [of "length ?L", where 'a = 64] by (simp add: unat_add_no_overflow)
  have m: "\<not> INT_MAX < of_nat (length ?L) + 1"
    using L e by (simp only: word_less_nat_alt) simp
  have c: "(ucast (of_nat (length ?L) + 1 :: size_t) :: u32) = of_nat (length ?L + 1)"
    by (simp only: ucast_eq_of_nat e)
  have "take (length ?L + 1) (splice out 0 (?L @ [0x0A, 0])) = ?L @ [0x0A]" by (simp add: splice_def)
  with False u(3) line m c show ?thesis by (simp add: EVP_EncodeFinal_def b64_last_def pending_def)
qed

text \<open>A client that encodes an input in pieces, each with an output buffer of its own, and collects the output.\<close>

fun encode_pieces :: "EVP_ENCODE_CTX \<Rightarrow> (byte list \<times> byte list) list \<Rightarrow> (byte list \<times> EVP_ENCODE_CTX) option" where
  "encode_pieces ctx [] = Some ([], ctx)"
| "encode_pieces ctx ((out, piece) # ps) = do {
     (n, out', ctx') \<leftarrow> EVP_EncodeUpdate ctx out piece (of_nat (length piece));
     (text, ctx'') \<leftarrow> encode_pieces ctx' ps;
     Some (take (unat n) out' @ text, ctx'')
   }"

definition encode_all :: "EVP_ENCODE_CTX \<Rightarrow> (byte list \<times> byte list) list \<Rightarrow> byte list \<Rightarrow> byte list option" where
  "encode_all ctx0 ps last_out = do {
     (text, ctx) \<leftarrow> encode_pieces (EVP_EncodeInit ctx0) ps;
     (n, out', ctx') \<leftarrow> EVP_EncodeFinal ctx last_out;
     Some (text @ take (unat n) out')
   }"

text \<open>A buffer is large enough for a piece when it holds the lines that the piece can complete and a zero byte.\<close>

definition piece_fits :: "byte list \<times> byte list \<Rightarrow> bool" where
  "piece_fits = (\<lambda>(out, piece). 65 * (length piece div 48 + 1) < length out \<and> length piece \<le> 0x40000000)"

lemma div_48_bound: "(m :: nat) < 48 \<Longrightarrow> (m + n) div 48 \<le> n div 48 + 1"
  using div_le_mono [of "m + n" "n + 48" 48] by simp

lemma b64_lines_rest:
  "b64_lines (xs @ ys) = b64_lines xs @ b64_lines (b64_rest xs @ ys)"
  "b64_rest (xs @ ys) = b64_rest (b64_rest xs @ ys)"
proof (induction xs rule: b64_lines.induct)
  case (1 xs)
  show "b64_lines (xs @ ys) = b64_lines xs @ b64_lines (b64_rest xs @ ys)"
    using 1(1) by (cases "length xs < 48") (simp_all add: b64_lines_short b64_rest_short b64_lines_long b64_rest_long not_less)
  show "b64_rest (xs @ ys) = b64_rest (b64_rest xs @ ys)"
    using 1(2) by (cases "length xs < 48") (simp_all add: b64_rest_short b64_rest_long not_less)
qed

lemma encode_pieces_eq:
  assumes "ctx_ok ctx" and "\<forall>p \<in> set ps. piece_fits p"
  shows "\<exists>ctx'. encode_pieces ctx ps = Some (b64_lines (pending ctx @ concat (map snd ps)), ctx') \<and> ctx_ok ctx' \<and>
    pending ctx' = b64_rest (pending ctx @ concat (map snd ps))"
  using assms
proof (induction ps arbitrary: ctx)
  case Nil
  then show ?case using length_pending [of ctx] by (simp add: b64_lines_short b64_rest_short ctx_ok_def)
next
  case (Cons p ps)
  obtain out piece where p: "p = (out, piece)" by (cases p)
  let ?data = "pending ctx @ piece"
  have fit: "65 * (length piece div 48 + 1) < length out" "length piece \<le> 0x40000000"
    using Cons.prems(2) p by (simp_all add: piece_fits_def)
  have u: "unat (of_nat (length piece) :: size_t) = length piece" using fit(2) by (intro unat_of_nat_less) simp
  have "length ?data div 48 \<le> length piece div 48 + 1"
    using div_48_bound [of "length (pending ctx)" "length piece"] Cons.prems(1) by (simp add: length_pending ctx_ok_def)
  then have len: "length (b64_lines ?data) \<le> 65 * (length piece div 48 + 1)" by (simp add: length_b64_lines)
  then have len': "length (b64_lines ?data) \<le> 0x7FFFFFFF" using fit(2) by simp
  have "updates (pending ctx @ take (unat (of_nat (length piece) :: size_t)) piece) out
      (EVP_EncodeUpdate ctx out piece (of_nat (length piece)))"
    using len len' fit(1) by (intro EVP_EncodeUpdate_eq [OF Cons.prems(1)]) (simp_all add: u)
  then obtain out' ctx1 where e: "EVP_EncodeUpdate ctx out piece (of_nat (length piece)) =
      Some (of_nat (length (b64_lines ?data)), out', ctx1)"
    and c: "ctx_ok ctx1" "pending ctx1 = b64_rest ?data" "take (length (b64_lines ?data)) out' = b64_lines ?data"
    by (auto simp: updates_def u)
  have n: "unat (of_nat (length (b64_lines ?data)) :: u32) = length (b64_lines ?data)"
    using len' by (intro unat_of_nat_less) simp
  from Cons.IH [OF c(1)] Cons.prems(2) obtain ctx2 where
    i: "encode_pieces ctx1 ps = Some (b64_lines (b64_rest ?data @ concat (map snd ps)), ctx2)"
      "ctx_ok ctx2" "pending ctx2 = b64_rest (b64_rest ?data @ concat (map snd ps))"
    by (auto simp: c(2))
  have j: "b64_lines (?data @ concat (map snd ps)) = b64_lines ?data @ b64_lines (b64_rest ?data @ concat (map snd ps))"
    by (rule b64_lines_rest(1))
  have k: "b64_rest (?data @ concat (map snd ps)) = b64_rest (b64_rest ?data @ concat (map snd ps))"
    by (rule b64_lines_rest(2))
  show ?case using i e n c(3) j k by (simp add: p)
qed

definition b64_text :: "byte list \<Rightarrow> byte list" where
  "b64_text bs = b64_lines bs @ b64_last (b64_rest bs)"

lemma encode_all_eq:
  assumes "\<forall>p \<in> set ps. piece_fits p" and "65 < length last_out"
  shows "encode_all ctx0 ps last_out = Some (b64_text (concat (map snd ps)))"
proof -
  let ?bs = "concat (map snd ps)"
  obtain ctx where c: "encode_pieces (EVP_EncodeInit ctx0) ps = Some (b64_lines ?bs, ctx)" "ctx_ok ctx"
      "pending ctx = b64_rest ?bs"
    using encode_pieces_eq [OF EVP_EncodeInit_ok(1) assms(1)] by (auto simp: EVP_EncodeInit_ok(2))
  have len: "length (b64_last (b64_rest ?bs)) \<le> 65"
  proof -
    have "length (b64_rest ?bs) \<le> 47" by (simp only: length_b64_rest)
    then have "(length (b64_rest ?bs) + 2) div 3 \<le> (47 + 2) div 3" by (intro div_le_mono) simp
    then show ?thesis by (simp add: b64_last_def length_b64)
  qed
  then have n: "unat (of_nat (length (b64_last (b64_rest ?bs))) :: u32) = length (b64_last (b64_rest ?bs))"
    by (intro unat_of_nat_less) simp
  from EVP_EncodeFinal_eq [OF c(2), of last_out] c(3) len assms(2) show ?thesis
    by (auto simp: encode_all_def c(1) n b64_text_def)
qed

section \<open>The streaming decoder\<close>

text \<open>The characters that the decoder does not skip.\<close>

definition is_text :: "byte \<Rightarrow> bool" where
  "is_text c \<longleftrightarrow> c \<notin> {0x20, 0x09, 0x0D, 0x0A}"

text \<open>A context that has seen no error, has fewer than four characters waiting, and after the padding none; \<open>todo\<close>
  is the text still to come, without blanks.\<close>

definition dec_ok :: "EVP_ENCODE_CTX \<Rightarrow> byte list \<Rightarrow> bool" where
  "dec_ok ctx todo \<longleftrightarrow> length (ctx_data ctx) = 48 \<and> unat (data_used ctx) < 4 \<and> \<not> error_encountered ctx \<and>
     (eof_seen ctx \<longrightarrow> data_used ctx = 0 \<and> todo = [])"

lemma pending_put:
  assumes "length (ctx_data ctx) = 48" and "unat (data_used ctx) < 4"
  shows "mem_put (ctx_data ctx) (unat (data_used ctx)) c = Some ((ctx_data ctx)[unat (data_used ctx) := c])"
    and "unat (data_used ctx + 1) = unat (data_used ctx) + 1"
    and "take (unat (data_used ctx) + 1) ((ctx_data ctx)[unat (data_used ctx) := c]) = pending ctx @ [c]"
  using assms by (simp_all add: mem_put_def unat_add_no_overflow pending_def take_Suc_conv_app_nth)

lemma take_4_conv: "take 4 xs = [a, b, c, d] \<Longrightarrow> xs = a # b # c # d # drop 4 xs"
  by (metis append.simps append_take_drop_id)

lemma decode_update_loop_eq:
  assumes "dec_ok ctx (filter is_text (take n inp) @ todo)" and "n \<le> length inp"
    and "unb64 (pending ctx @ filter is_text (take n inp) @ todo) = Some bs"
    and "p + 3 * ((length (pending ctx) + n) div 4) \<le> length out"
  shows "\<exists>ctx' w bs'. decode_update_loop ctx out p k inp n = Some (True, ctx', splice out p w, k + of_nat (length w)) \<and>
    bs = w @ bs' \<and> unb64 (pending ctx' @ todo) = Some bs' \<and> dec_ok ctx' todo \<and>
    length w \<le> 3 * ((length (pending ctx) + n) div 4)"
  using assms
proof (induction n arbitrary: ctx out p k inp bs)
  case 0
  then show ?case by (auto intro!: exI [of _ "[]"])
next
  case (Suc n)
  obtain c cs where inp: "inp = c # cs" using Suc.prems(2) by (cases inp) auto
  have ctx: "length (ctx_data ctx) = 48" "unat (data_used ctx) < 4" "\<not> error_encountered ctx"
    using Suc.prems(1) by (simp_all add: dec_ok_def)
  have pend: "length (pending ctx) = unat (data_used ctx)" using ctx by (simp add: pending_def)
  show ?case
  proof (cases "is_text c")
    case False
    have le: "(length (pending ctx) + n) div 4 \<le> (length (pending ctx) + Suc n) div 4" by (intro div_le_mono) simp
    have step: "decode_update_loop ctx out p k inp (Suc n) = decode_update_loop ctx out p k cs n"
      using False by (simp add: inp is_text_def)
    have "p + 3 * ((length (pending ctx) + n) div 4) \<le> length out"
      using le Suc.prems(4) by (meson add_le_mono1 le_trans mult_le_mono2 nat_add_left_cancel_le)
    then obtain ctx' w bs' where
      "decode_update_loop ctx out p k cs n = Some (True, ctx', splice out p w, k + of_nat (length w)) \<and>
       bs = w @ bs' \<and> unb64 (pending ctx' @ todo) = Some bs' \<and> dec_ok ctx' todo \<and>
       length w \<le> 3 * ((length (pending ctx) + n) div 4)"
      using Suc.IH [of ctx cs bs p out k] Suc.prems False by (auto simp: inp)
    then show ?thesis
      unfolding step using le by (intro exI [of _ ctx'] exI [of _ w] exI [of _ bs']) linarith
  next
    case True
    let ?R = "filter is_text (take n cs) @ todo"
    let ?ctx1 = "ctx\<lparr>ctx_data := (ctx_data ctx)[unat (data_used ctx) := c], data_used := data_used ctx + 1\<rparr>"
    note put = pending_put(1) [OF ctx(1,2), of c] pending_put(2) [OF ctx(1,2)] pending_put(3) [OF ctx(1,2), of c]
    have eof: "\<not> eof_seen ctx" using Suc.prems(1) True by (auto simp: dec_ok_def inp)
    have p1: "pending ?ctx1 = pending ctx @ [c]" using put by (simp add: pending_def)
    show ?thesis
    proof (cases "unat (data_used ctx) = 3")
      case False
      then have nf: "data_used ctx + 1 \<noteq> 4" using put(2) by (auto simp: word_unat_eq_iff)
      have "dec_ok ?ctx1 ?R" using ctx put(2) False eof by (simp add: dec_ok_def)
      moreover have "unb64 (pending ?ctx1 @ ?R) = Some bs" using Suc.prems(3) True by (simp add: p1 inp)
      moreover have "length (pending ?ctx1) + n = length (pending ctx) + Suc n" by (simp add: p1)
      moreover have step: "decode_update_loop ctx out p k inp (Suc n) = decode_update_loop ?ctx1 out p k cs n"
        using True eof put(1) nf by (simp add: inp is_text_def Let_def)
      ultimately show ?thesis
        unfolding step using Suc.IH [of ?ctx1 cs bs p out k] Suc.prems(2,4) by (simp add: inp)
    next
      case three: True
      then have f: "data_used ctx + 1 = 4" using put(2) by (simp add: word_unat_eq_iff)
      have "length (pending ctx) = Suc (Suc (Suc 0))" using pend three by simp
      then obtain x y z where xyz: "pending ctx = [x, y, z]" by (auto simp: length_Suc_conv)
      let ?d = "(ctx_data ctx)[unat (data_used ctx) := c]"
      have "take 4 ?d = [x, y, z, c]" using put(3) three by (simp add: xyz)
      then have d: "?d = x # y # z # c # drop 4 ?d" by (rule take_4_conv)
      from Suc.prems(3) True have un: "unb64 (x # y # z # c # ?R) = Some bs" by (simp add: xyz inp)
      then obtain q bs1 where q: "unb64_quad x y z c = Some q" "\<not> (length q < 3 \<and> ?R \<noteq> [])"
          "unb64 ?R = Some bs1" "bs = q @ bs1"
        by (auto split: option.splits if_splits)
      note ql = length_unb64_quad [OF q(1)]
      let ?e = "length q < 3"
      let ?ctx2 = "?ctx1\<lparr>data_used := 0, eof_seen := ?e\<rparr>"
      have sum: "(length (pending ctx) + Suc n) div 4 = Suc (n div 4)" by (simp add: xyz)
      have quad: "base64_decode_quad out p ?d = Ok (of_nat (length q)) (splice out p q)"
        using ql Suc.prems(4) q(1) unfolding sum by (subst d) (simp add: base64_decode_quad_eq mem_write_splice)
      have num: "unat (of_nat (length q) :: size_t) = length q" using ql by (intro unat_of_nat_less) simp
      then have num3: "(of_nat (length q) :: size_t) < 3 \<longleftrightarrow> ?e" by (simp add: word_less_nat_alt)
      have "dec_ok ?ctx2 ?R" using ctx q(2) by (auto simp: dec_ok_def)
      moreover have p2: "pending ?ctx2 = []" by (simp add: pending_def)
      moreover have "p + length q + 3 * (n div 4) \<le> length (splice out p q)"
        using Suc.prems(4) ql unfolding sum by simp
      ultimately obtain ctx' w bs' where r: "decode_update_loop ?ctx2 (splice out p q) (p + length q)
            (k + of_nat (length q)) cs n =
          Some (True, ctx', splice (splice out p q) (p + length q) w, k + of_nat (length q) + of_nat (length w))"
          "bs1 = w @ bs'" "unb64 (pending ctx' @ todo) = Some bs'" "dec_ok ctx' todo" "length w \<le> 3 * (n div 4)"
        using Suc.IH [of ?ctx2 cs bs1 "p + length q" "splice out p q" "k + of_nat (length q)"] Suc.prems(2) q(3)
        by (auto simp: inp)
      have e2: "ctx\<lparr>ctx_data := D, data_used := 0, eof_seen := False\<rparr> = ctx\<lparr>ctx_data := D, data_used := 0\<rparr>" for D
        using eof by (cases ctx) simp
      have step: "decode_update_loop ctx out p k inp (Suc n) =
          decode_update_loop ?ctx2 (splice out p q) (p + length q) (k + of_nat (length q)) cs n"
        using True eof put(1) f quad num num3 by (cases "length q < 3") (simp_all add: inp is_text_def Let_def e2)
      have "splice (splice out p q) (p + length q) w = splice out p (q @ w)"
        using Suc.prems(4) ql unfolding sum by (intro splice_splice) simp_all
      then show ?thesis unfolding step r(1) using r(2-5) q(4) ql sum by (auto intro!: exI [of _ "q @ w"])
    qed
  qed
qed

lemma EVP_DecodeUpdate_eq:
  assumes "dec_ok ctx (filter is_text piece @ todo)" and "length piece \<le> 0x40000000"
    and "unb64 (pending ctx @ filter is_text piece @ todo) = Some bs" and "3 * ((3 + length piece) div 4) \<le> length out"
  shows "\<exists>r w bs' ctx' out'. EVP_DecodeUpdate ctx out piece (of_nat (length piece)) = Some (r, of_nat (length w), out', ctx') \<and>
    r \<noteq> - 1 \<and> length w < 2 ^ 31 \<and> take (length w) out' = w \<and> bs = w @ bs' \<and>
    unb64 (pending ctx' @ todo) = Some bs' \<and> dec_ok ctx' todo"
proof -
  have u: "unat (of_nat (length piece) :: size_t) = length piece" using assms(2) by (intro unat_of_nat_less) simp
  have "length (pending ctx) \<le> 3" using assms(1) by (simp add: dec_ok_def pending_def)
  then have le: "(length (pending ctx) + length piece) div 4 \<le> (3 + length piece) div 4" by (intro div_le_mono) simp
  have "\<exists>ctx' w bs'. decode_update_loop ctx out 0 0 piece (length piece) =
      Some (True, ctx', splice out 0 w, 0 + of_nat (length w)) \<and>
    bs = w @ bs' \<and> unb64 (pending ctx' @ todo) = Some bs' \<and> dec_ok ctx' todo \<and>
    length w \<le> 3 * ((length (pending ctx) + length piece) div 4)"
    using assms le by (intro decode_update_loop_eq) simp_all
  then obtain ctx' w bs' where r: "decode_update_loop ctx out 0 0 piece (length piece) =
      Some (True, ctx', splice out 0 w, of_nat (length w))" "bs = w @ bs'" "unb64 (pending ctx' @ todo) = Some bs'"
      "dec_ok ctx' todo" "length w \<le> 3 * ((length (pending ctx) + length piece) div 4)" by auto
  have w: "length w \<le> 3 * ((3 + length piece) div 4)" using r(5) le by linarith
  then have "length w < 2 ^ 31" using assms(2) by simp
  moreover from this have "unat (of_nat (length w) :: size_t) = length w" by (intro unat_of_nat_less) simp
  moreover from this have "\<not> INT_MAX < (of_nat (length w) :: size_t)" "(ucast (of_nat (length w) :: size_t) :: u32) = of_nat (length w)"
    using calculation(1) by (simp_all only: word_less_nat_alt ucast_eq_of_nat) simp_all
  moreover have "take (length w) (splice out 0 w) = w" by (simp add: splice_def)
  ultimately show ?thesis
    using r assms(1) by (auto simp: EVP_DecodeUpdate_def u dec_ok_def)
qed

text \<open>A client that decodes a text in pieces.\<close>

fun decode_pieces :: "EVP_ENCODE_CTX \<Rightarrow> (byte list \<times> byte list) list \<Rightarrow> (byte list \<times> EVP_ENCODE_CTX) option" where
  "decode_pieces ctx [] = Some ([], ctx)"
| "decode_pieces ctx ((out, piece) # ps) = do {
     (r, n, out', ctx') \<leftarrow> EVP_DecodeUpdate ctx out piece (of_nat (length piece));
     if r = - 1 then None
     else do {
       (bs, ctx'') \<leftarrow> decode_pieces ctx' ps;
       Some (take (unat n) out' @ bs, ctx'')
     }
   }"

definition decode_all :: "EVP_ENCODE_CTX \<Rightarrow> (byte list \<times> byte list) list \<Rightarrow> byte list option" where
  "decode_all ctx0 ps = do {
     (bs, ctx) \<leftarrow> decode_pieces (EVP_DecodeInit ctx0) ps;
     if fst (EVP_DecodeFinal ctx) = 1 then Some bs else None
   }"

definition text_fits :: "byte list \<times> byte list \<Rightarrow> bool" where
  "text_fits = (\<lambda>(out, piece). 3 * ((3 + length piece) div 4) \<le> length out \<and> length piece \<le> 0x40000000)"

lemma decode_pieces_eq:
  assumes "dec_ok ctx (filter is_text (concat (map snd ps)))" and "\<forall>p \<in> set ps. text_fits p"
    and "unb64 (pending ctx @ filter is_text (concat (map snd ps))) = Some bs"
  shows "\<exists>ctx'. decode_pieces ctx ps = Some (bs, ctx') \<and> dec_ok ctx' [] \<and> pending ctx' = []"
  using assms
proof (induction ps arbitrary: ctx bs)
  case Nil
  then have "length (pending ctx) mod 4 = 0" "length (pending ctx) < 4" "pending ctx = [] \<longrightarrow> bs = []"
    using unb64_length [of "pending ctx" bs] by (simp_all add: dec_ok_def pending_def)
  with Nil show ?case by simp
next
  case (Cons p ps)
  obtain out piece where p: "p = (out, piece)" by (cases p)
  let ?todo = "filter is_text (concat (map snd ps))"
  have fit: "3 * ((3 + length piece) div 4) \<le> length out" "length piece \<le> 0x40000000"
    using Cons.prems(2) by (simp_all add: p text_fits_def)
  obtain r w bs' ctx' out' where e: "EVP_DecodeUpdate ctx out piece (of_nat (length piece)) =
      Some (r, of_nat (length w), out', ctx')" "r \<noteq> - 1" "length w < 2 ^ 31" "take (length w) out' = w" "bs = w @ bs'"
      "unb64 (pending ctx' @ ?todo) = Some bs'" "dec_ok ctx' ?todo"
    using EVP_DecodeUpdate_eq [of ctx piece ?todo bs out] Cons.prems(1,3) fit by (auto simp: p)
  have "unat (of_nat (length w) :: u32) = length w" using e(3) by (intro unat_of_nat_less) simp
  with e Cons.IH [OF e(7) _ e(6)] Cons.prems(2) show ?case by (auto simp: p)
qed

lemma EVP_DecodeInit_ok: "dec_ok (EVP_DecodeInit ctx) todo" "pending (EVP_DecodeInit ctx) = []"
  by (simp_all add: EVP_DecodeInit_def dec_ok_def pending_def)

lemma decode_all_eq:
  assumes "\<forall>p \<in> set ps. text_fits p" and "unb64 (filter is_text (concat (map snd ps))) = Some bs"
  shows "decode_all ctx0 ps = Some bs"
proof -
  obtain ctx where "decode_pieces (EVP_DecodeInit ctx0) ps = Some (bs, ctx)" "dec_ok ctx []" "pending ctx = []"
    using decode_pieces_eq [OF EVP_DecodeInit_ok(1) assms(1)] assms(2) EVP_DecodeInit_ok(2) by force
  moreover from this have "data_used ctx = 0" "\<not> error_encountered ctx"
    by (auto simp: dec_ok_def pending_def unat_eq_0)
  ultimately show ?thesis by (simp add: decode_all_def EVP_DecodeFinal_def)
qed

section \<open>Lines and blanks\<close>

lemma b64_char_text: "is_text (b64_char n)" "is_text 0x3D"
proof -
  have "is_text c \<longleftrightarrow> unat c \<notin> {32, 9, 13, 10}" for c by (auto simp: is_text_def word_unat_eq_iff)
  then show "is_text (b64_char n)" by (auto simp: unat_b64_char)
  show "is_text 0x3D" by (simp add: is_text_def)
qed

lemma filter_b64: "filter is_text (b64 bs) = b64 bs"
  by (induction bs rule: b64.induct) (simp_all add: b64_char_text)

lemma filter_b64_lines: "filter is_text (b64_lines xs) @ b64 (b64_rest xs) = b64 xs"
proof (induction xs rule: b64_lines.induct)
  case (1 xs)
  show ?case
  proof (cases "length xs < 48")
    case True
    then show ?thesis by (simp add: b64_lines_short b64_rest_short)
  next
    case False
    have "b64 xs = b64 (take 48 xs) @ b64 (drop 48 xs)"
      using False b64_append [of "take 48 xs" "drop 48 xs"] by simp
    moreover have "\<not> is_text 0x0A" by (simp add: is_text_def)
    ultimately show ?thesis using False 1 by (simp add: b64_lines_long b64_rest_long filter_b64)
  qed
qed

lemma filter_b64_text: "filter is_text (b64_text bs) = b64 bs"
proof -
  have "filter is_text (b64_last (b64_rest bs)) = b64 (b64_rest bs)"
    by (simp add: b64_last_def filter_b64 is_text_def)
  then show ?thesis using filter_b64_lines [of bs] by (simp add: b64_text_def)
qed

end
