(* ===== verification/Base64Props.thy ===== *)
theory Base64Props
  imports Base64Stream
begin

text \<open>The properties of the constant-time comparisons and of the Base64 codec.\<close>

unbundle bit_operations_syntax

text \<open>The branch-free comparisons are the comparisons they stand for, on all 64-bit words: the result is a mask
  of all ones when the comparison holds and zero otherwise, and selecting by such a mask is a conditional.\<close>

theorem constant_time_exact:
  "constant_time_lt_w a b = (if a < b then - 1 else 0) \<and> constant_time_ge_w a b = (if b \<le> a then - 1 else 0) \<and>
   constant_time_is_zero_w a = (if a = 0 then - 1 else 0) \<and> constant_time_eq_w a b = (if a = b then - 1 else 0) \<and>
   constant_time_lt_8 a b = (if a < b then 0xFF else 0) \<and> constant_time_eq_8 a b = (if a = b then 0xFF else 0) \<and>
   constant_time_eq_int i j = (if i = j then - 1 else 0) \<and>
   constant_time_select_w (constant_time_lt_w a b) x y = (if a < b then x else y) \<and>
   constant_time_select_8 (constant_time_eq_8 a b) u v = (if a = b then u else v)"
  by (simp add: const_time)

text \<open>\<open>EVP_EncodedLength\<close> computes the buffer size that \<open>EVP_EncodeBlock\<close> needs, or refuses when it does not fit a
  \<open>size_t\<close>; with a buffer of that size, \<open>EVP_EncodeBlock\<close> writes exactly the Base64 text of the input and a
  terminating zero, stays inside the buffer, touches nothing behind, and returns the length of the text.\<close>

theorem base64_encode_exact:
  assumes "unat n \<le> length src" and "EVP_EncodedLength n = Some m" and "unat m \<le> length dst"
  shows "\<exists>dst'. EVP_EncodeBlock dst 0 src n = Some (dst', m - 1) \<and> unat m = length (b64 (take (unat n) src)) + 1 \<and>
    dst' = b64 (take (unat n) src) @ 0 # drop (unat m) dst"
proof -
  let ?t = "b64 (take (unat n) src)"
  have l: "length ?t = 4 * ((unat n + 2) div 3)" using assms(1) by (simp add: length_b64)
  have m: "length ?t + 1 < 2 ^ 64" "m = of_nat (length ?t + 1)"
    using assms(2) unfolding EVP_EncodedLength_eq l [symmetric] by (simp_all add: Let_def split: if_splits)
  then have u: "unat m = length ?t + 1" using unat_of_nat_less [of "length ?t + 1", where 'a = 64] by simp
  have "EVP_EncodeBlock dst 0 src n = Some (splice dst 0 (?t @ [0]), of_nat (length ?t))"
    using assms(1,3) u by (intro EVP_EncodeBlock_eq) simp_all
  moreover have "m - 1 = of_nat (length ?t)" using m(2) by simp
  ultimately show ?thesis using u by (simp add: splice_def)
qed

theorem base64_encode_exact_witness:
  "EVP_EncodeBlock (replicate 12 7) 0 [0x66, 0x6F, 0x6F, 0x62] 4 =
     Some ([0x5A, 0x6D, 0x39, 0x76, 0x59, 0x67, 0x3D, 0x3D, 0, 7, 7, 7], 8)"
proof -
  have e: "EVP_EncodedLength 4 = Some 9" by (simp add: EVP_EncodedLength_eq Let_def)
  have t: "b64 [0x66, 0x6F, 0x6F, 0x62] = [0x5A, 0x6D, 0x39, 0x76, 0x59, 0x67, 0x3D, 0x3D]"
    by (simp add: b64_char_def)
  have r: "drop (unat (9 :: size_t)) (replicate 12 (7 :: byte)) = [7, 7, 7]" by (simp add: numeral_3_eq_3)
  from base64_encode_exact [of 4 "[0x66, 0x6F, 0x6F, 0x62]" 9 "replicate 12 7", unfolded r] e t show ?thesis by simp
qed

text \<open>(C31) \<open>EVP_DecodeBase64\<close> never leaves its buffers, and accepts exactly the texts that the reference decoder
  accepts: groups of four characters of the alphabet, with one or two padding characters only at the end of the last group.  The
  bits of the last character in front of the padding that belong to no byte are ignored, so that the accepted texts are not only
  the canonical ones (\<^verbatim>\<open>Zh==\<close> is decoded like \<^verbatim>\<open>Zg==\<close>).  What it writes are the decoded bytes and nothing behind them.\<close>

theorem base64_decode_exact:
  assumes "unat n \<le> length src" and "unat max_out \<le> length out"
  shows "case EVP_DecodeBase64 out max_out src n of
      Fault \<Rightarrow> False
    | Fail out' \<Rightarrow> length out' = length out \<and>
        (unb64 (take (unat n) src) = None \<or> unat max_out < 3 * (unat n div 4))
    | Ok k out' \<Rightarrow> unb64 (take (unat n) src) = Some (take (unat k) out') \<and> drop (unat k) out' = drop (unat k) out"
proof -
  have "take (unat (of_nat (length bs) :: size_t)) (splice out 0 bs) = bs \<and>
      drop (unat (of_nat (length bs) :: size_t)) (splice out 0 bs) = drop (unat (of_nat (length bs) :: size_t)) out"
    if "unb64 (take (unat n) src) = Some bs" for bs
  proof -
    have "length bs \<le> 3 * (unat n div 4)" using unb64_length [OF that] assms(1) by simp
    then have "length bs < 2 ^ 64" using unat_lt_2p [of n] by simp
    then have "unat (of_nat (length bs) :: size_t) = length bs" by (intro unat_of_nat_less) simp
    then show ?thesis by (simp add: splice_def)
  qed
  with EVP_DecodeBase64_eq [OF assms] show ?thesis by (auto split: outcome.splits)
qed

theorem base64_decode_exact_witness:
  "(case EVP_DecodeBase64 (replicate 8 7) 6 [0x5A, 0x6D, 0x39, 0x76, 0x59, 0x67, 0x3D, 0x3D] 8 of
      Ok k out \<Rightarrow> take (unat k) out = [0x66, 0x6F, 0x6F, 0x62] | _ \<Rightarrow> False) \<and>
   (case EVP_DecodeBase64 (replicate 3 7) 3 [0x5A, 0x68, 0x3D, 0x3D] 4 of
      Ok k out \<Rightarrow> take (unat k) out = [0x66] | _ \<Rightarrow> False)"
proof -
  have "unb64 [0x5A, 0x68, 0x3D, 0x3D] = Some [0x66]" by (simp add: unb64_quad_def b64_digit_def)
  with base64_decode_exact [of 4 "[0x5A, 0x68, 0x3D, 0x3D]" 3 "replicate 3 7"]
  have "case EVP_DecodeBase64 (replicate 3 7) 3 [0x5A, 0x68, 0x3D, 0x3D] 4 of Ok k out \<Rightarrow> take (unat k) out = [0x66] | _ \<Rightarrow> False"
    by (simp split: outcome.splits)
  moreover have "unb64 [0x5A, 0x6D, 0x39, 0x76, 0x59, 0x67, 0x3D, 0x3D] = Some [0x66, 0x6F, 0x6F, 0x62]"
    by (simp add: unb64_quad_def b64_digit_def)
  moreover note base64_decode_exact [of 8 "[0x5A, 0x6D, 0x39, 0x76, 0x59, 0x67, 0x3D, 0x3D]" 6 "replicate 8 7"]
  ultimately show ?thesis by (simp split: outcome.splits)
qed

text \<open>Round trip in one go: the text that \<open>EVP_EncodeBlock\<close> produced is decoded by \<open>EVP_DecodeBase64\<close> to the bytes that
  were encoded.\<close>

theorem base64_roundtrip:
  assumes "unat n \<le> length src" and "EVP_EncodedLength n = Some m" and "unat m \<le> length dst"
    and "3 * ((unat n + 2) div 3) \<le> length out"
  shows "\<exists>chars max_out k out'. EVP_EncodeBlock dst 0 src n = Some (chars, m - 1) \<and>
    EVP_DecodedLength (m - 1) = Some max_out \<and>
    EVP_DecodeBase64 out max_out chars (m - 1) = Ok k out' \<and> take (unat k) out' = take (unat n) src"
proof -
  let ?t = "b64 (take (unat n) src)" and ?q = "(unat n + 2) div 3"
  have l: "length ?t = 4 * ?q" using assms(1) by (simp add: length_b64)
  have m: "4 * ?q + 1 < 2 ^ 64" "m - 1 = of_nat (4 * ?q)"
    using assms(2) unfolding EVP_EncodedLength_eq by (auto simp: Let_def split: if_splits)
  have u: "unat (m - 1) = 4 * ?q" unfolding m(2) using m(1) by (intro unat_of_nat_less) simp
  have um: "unat m = 4 * ?q + 1"
    using assms(2) m(1) unat_of_nat_less [of "4 * ?q + 1", where 'a = 64]
    unfolding EVP_EncodedLength_eq by (simp add: Let_def split: if_splits)
  define chars where "chars = splice dst 0 (?t @ [0])"
  have enc: "EVP_EncodeBlock dst 0 src n = Some (chars, m - 1)"
    using EVP_EncodeBlock_eq [OF assms(1), of 0 dst] assms(3) l m(2) um by (simp add: chars_def)
  have t: "unat (m - 1) \<le> length chars" "take (unat (m - 1)) chars = ?t"
    using assms(3) l u um by (simp_all add: chars_def splice_def)
  define mo where "mo = (m - 1) div 4 * 3"
  have "unat mo = 3 * ?q" using u m(1) by (simp add: mo_def unat_word_ariths unat_div)
  moreover have "(m - 1) mod 4 = 0" by (simp add: word_unat_eq_iff unat_mod u)
  then have "EVP_DecodedLength (m - 1) = Some mo" by (simp add: EVP_DecodedLength_def mo_def)
  moreover have "take (unat n) src = bs" if "unb64 (take (unat (m - 1)) chars) = Some bs" for bs
    using that unfolding t(2) unb64_b64 by simp
  moreover have "unb64 (take (unat (m - 1)) chars) \<noteq> None" unfolding t(2) unb64_b64 by simp
  moreover have "length (take (unat n) src) < 2 ^ 64" using unat_lt_2p [of n] by simp
  ultimately show ?thesis
    using enc EVP_DecodeBase64_eq [OF t(1), of mo out] assms(1,4) u
    by (auto simp: unat_of_nat_less splice_def min_absorb2 split: outcome.splits)
qed

theorem base64_roundtrip_witness:
  "\<exists>chars max_out k out'. EVP_EncodeBlock (replicate 9 0) 0 [1, 2, 3, 4] 4 = Some (chars, 9 - 1) \<and>
    EVP_DecodedLength (9 - 1) = Some max_out \<and>
    EVP_DecodeBase64 (replicate 6 0) max_out chars (9 - 1) = Ok k out' \<and> take (unat k) out' = [1, 2, 3, 4]"
proof -
  have "EVP_EncodedLength 4 = Some 9" by (simp add: EVP_EncodedLength_eq Let_def)
  with base64_roundtrip [of 4 "[1, 2, 3, 4]" 9 "replicate 9 0" "replicate 6 0"] show ?thesis by simp
qed

text \<open>(C32) The streaming codec does not depend on how its input is cut into pieces: encoding the pieces of an input
  yields the text of the whole input, in lines of 64 characters; and decoding the pieces of that text, cut in
  any other way, yields the input again.\<close>

theorem base64_stream_roundtrip:
  assumes "\<forall>p \<in> set ps. piece_fits p" and "65 < length last_out"
    and "\<forall>p \<in> set qs. text_fits p" and "concat (map snd qs) = b64_text (concat (map snd ps))"
  shows "encode_all ctx0 ps last_out = Some (b64_text (concat (map snd ps))) \<and>
    decode_all ctx1 qs = Some (concat (map snd ps))"
proof
  show "encode_all ctx0 ps last_out = Some (b64_text (concat (map snd ps)))" by (rule encode_all_eq [OF assms(1,2)])
  have "unb64 (filter is_text (concat (map snd qs))) = Some (concat (map snd ps))"
    by (simp add: assms(4) filter_b64_text unb64_b64)
  then show "decode_all ctx1 qs = Some (concat (map snd ps))" by (rule decode_all_eq [OF assms(3)])
qed

theorem base64_stream_roundtrip_witness:
  "\<forall>ctx1. decode_all ctx1 [(replicate 9 0, [0x5A, 0x6D, 0x39]), (replicate 9 0, [0x76, 0x0A])] = Some [0x66, 0x6F, 0x6F]"
proof -
  let ?ps = "[(replicate 100 0, [0x66]), (replicate 100 0, [0x6F, 0x6F])] :: (byte list \<times> byte list) list"
  let ?qs = "[(replicate 9 0, [0x5A, 0x6D, 0x39]), (replicate 9 0, [0x76, 0x0A])] :: (byte list \<times> byte list) list"
  have "b64_text [0x66, 0x6F, 0x6F] = [0x5A, 0x6D, 0x39, 0x76, 0x0A]"
    by (simp add: b64_text_def b64_lines_short b64_rest_short b64_last_def b64_char_def)
  moreover have "\<forall>p \<in> set ?ps. piece_fits p" "\<forall>p \<in> set ?qs. text_fits p"
    by (simp_all add: piece_fits_def text_fits_def)
  ultimately show ?thesis using base64_stream_roundtrip [of ?ps "replicate 66 0" ?qs] by simp
qed

end
