(* ===== verification/StackProps.thy ===== *)
theory StackProps
  imports ThreeWay
begin

text \<open>
  The stack as a list of pointers: every operation keeps the array consistent, stays inside it, and acts on the
  list of elements as its name says; searching returns the first match, sorting sorts.
\<close>

unbundle bit_operations_syntax

section \<open>The list that a stack represents\<close>

definition elems :: "('f, 'a) stack_st \<Rightarrow> 'a ptr list" where
  "elems s = take (unat (num s)) (data s)"

definition sk_ok :: "('f, 'a) stack_st \<Rightarrow> bool" where
  "sk_ok s \<longleftrightarrow> length (data s) = unat (num_alloc s) \<and> unat (num s) < unat (num_alloc s) \<and> 8 * unat (num_alloc s) < 2 ^ 64"

definition ptr_alloc_ok :: "'a ptr_alloc \<Rightarrow> bool" where
  "ptr_alloc_ok alloc \<longleftrightarrow> (\<forall>n m. alloc n = Some m \<longrightarrow> length m = unat n div 8)"

lemma length_elems: "sk_ok s \<Longrightarrow> length (elems s) = unat (num s)"
  by (simp add: sk_ok_def elems_def)

lemma sk_new_ok: "sk_new alloc f = Some s \<Longrightarrow> sk_ok s \<and> elems s = [] \<and> comp s = f \<and> \<not> sorted_flag s"
  by (auto simp: sk_new_def sk_ok_def elems_def kMinSize_def split: option.splits)

lemma times_8_div: "(n :: size_t) * 8 div 8 = n \<longleftrightarrow> 8 * unat n < 2 ^ 64"
proof -
  have "unat (n * 8) = 8 * unat n mod 2 ^ 64" by (simp add: unat_word_ariths mult.commute)
  then have "unat (n * 8 div 8) = 8 * unat n mod 2 ^ 64 div 8" by (simp add: unat_div)
  moreover have "8 * unat n mod 2 ^ 64 div 8 = unat n \<longleftrightarrow> 8 * unat n < 2 ^ 64"
  proof
    assume "8 * unat n mod 2 ^ 64 div 8 = unat n"
    moreover have "8 * unat n mod 2 ^ 64 div 8 < 2 ^ 61" by simp
    ultimately show "8 * unat n < 2 ^ 64" by simp
  qed simp
  ultimately show ?thesis by (simp only: word_unat_eq_iff)
qed

lemma grow_spec:
  assumes "ptr_alloc_ok alloc" and "sk_ok s" and "grow alloc s = Some s'"
  shows "sk_ok s' \<and> elems s' = elems s \<and> num s' = num s \<and> comp s' = comp s \<and> unat (num_alloc s) < unat (num_alloc s')"
proof -
  let ?a = "num_alloc s"
  have a: "8 * unat ?a < 2 ^ 64" "length (data s) = unat ?a" "unat (num s) < unat ?a"
    using assms(2) by (simp_all add: sk_ok_def)
  have dbl: "unat (push_bit 1 ?a) = 2 * unat ?a"
    using a(1) by (simp add: push_bit_eq_mult unat_word_ariths)
  have inc: "unat (?a + 1) = unat ?a + 1" using a(1) by (simp add: unat_add_no_overflow)
  obtain n fresh where n: "8 * unat n < 2 ^ 64" "unat ?a < unat n" "alloc (n * 8) = Some fresh"
      "s' = s\<lparr>data := take (unat n) (data s) @ drop (length (data s)) fresh, num_alloc := n\<rparr>"
  proof (cases "8 * unat (push_bit 1 ?a) < 2 ^ 64")
    case True
    then have c: "push_bit 1 ?a * 8 div 8 = push_bit 1 ?a" by (simp only: times_8_div)
    have "\<not> push_bit 1 ?a < ?a" using dbl by (simp add: word_less_nat_alt)
    then show ?thesis
      using assms(3) True c that [of "push_bit 1 ?a"] dbl a(3) by (auto simp: grow_def Let_def split: option.splits)
  next
    case False
    then have c: "push_bit 1 ?a * 8 div 8 \<noteq> push_bit 1 ?a" using times_8_div [of "push_bit 1 ?a"] by blast
    show ?thesis
    proof (cases "8 * unat (?a + 1) < 2 ^ 64")
      case True
      then have d: "(?a + 1) * 8 div 8 = ?a + 1" by (simp only: times_8_div)
      have "\<not> ?a + 1 < ?a" using inc by (simp add: word_less_nat_alt)
      then show ?thesis
        using assms(3) c d that [of "?a + 1"] inc True unfolding grow_def Let_def
        by (auto split: option.splits if_splits)
    next
      case False
      then have "(?a + 1) * 8 div 8 \<noteq> ?a + 1" using times_8_div [of "?a + 1"] by blast
      then show ?thesis using assms(3) c unfolding grow_def Let_def by (auto split: if_splits)
    qed
  qed
  have "unat (n * 8) = 8 * unat n" using n(1) by (simp add: unat_word_ariths mult.commute)
  then have "length fresh = unat n" using assms(1) n(3) by (simp add: ptr_alloc_ok_def)
  then show ?thesis using n a by (simp add: sk_ok_def elems_def)
qed

section \<open>Insertion and removal\<close>

text \<open>The list operations.\<close>

definition insert_at :: "nat \<Rightarrow> 'b \<Rightarrow> 'b list \<Rightarrow> 'b list" where
  "insert_at i x xs = take i xs @ x # drop i xs"

definition remove_at :: "nat \<Rightarrow> 'b list \<Rightarrow> 'b list" where
  "remove_at i xs = take i xs @ drop (Suc i) xs"

lemma insert_cells:
  assumes "n < length m" and "i < n"
  shows "mem_move m (Suc i) i (n - i) = Some (take (Suc i) m @ take (n - i) (drop i m) @ drop (Suc n) m)"
    and "take (Suc n) ((take (Suc i) m @ take (n - i) (drop i m) @ drop (Suc n) m)[i := x]) = insert_at i x (take n m)"
proof -
  show "mem_move m (Suc i) i (n - i) = Some (take (Suc i) m @ take (n - i) (drop i m) @ drop (Suc n) m)"
    using assms by (simp add: mem_move_def mem_range_def mem_write_def)
  have "take (Suc i) m = take i m @ [m ! i]" using assms by (simp add: take_Suc_conv_app_nth)
  then have "(take (Suc i) m @ take (n - i) (drop i m) @ drop (Suc n) m)[i := x] =
      take i m @ x # take (n - i) (drop i m) @ drop (Suc n) m"
    using assms by (simp add: list_update_append)
  then show "take (Suc n) ((take (Suc i) m @ take (n - i) (drop i m) @ drop (Suc n) m)[i := x]) = insert_at i x (take n m)"
    using assms by (simp add: insert_at_def drop_take min_absorb2 Suc_diff_le)
qed

lemma sk_insert_spec:
  assumes "ptr_alloc_ok alloc" and "sk_ok s"
  shows "sk_insert alloc (Some s) p pos = Some (0, Some s) \<and> num_alloc s \<le> num s + 1 \<or>
    (\<exists>s'. sk_insert alloc (Some s) p pos = Some (num s', Some s') \<and> sk_ok s' \<and> num s' \<noteq> 0 \<and>
       elems s' = insert_at (unat pos) p (elems s) \<and> comp s' = comp s \<and> \<not> sorted_flag s')"
proof (cases "if num_alloc s \<le> num s + 1 then grow alloc s else Some s")
  case None
  then show ?thesis by (auto simp: sk_insert_def split: if_splits)
next
  case (Some s1)
  have inc: "unat (num s + 1) = unat (num s) + 1" using assms(2) by (simp add: sk_ok_def unat_add_no_overflow)
  have s1: "sk_ok s1" "elems s1 = elems s" "num s1 = num s" "comp s1 = comp s" "unat (num s) + 1 < unat (num_alloc s1)"
    using Some grow_spec [OF assms] assms(2) inc
    by (auto simp: sk_ok_def word_le_nat_alt split: if_splits)
  then have len: "unat (num s) + 1 < length (data s1)" by (simp add: sk_ok_def)
  let ?n = "unat (num s)" and ?i = "unat pos"
  obtain d where d: "(if pos \<ge> num s1 then mem_put (data s1) (unat (num s1)) p
      else do { moved \<leftarrow> mem_move (data s1) (unat (pos + 1)) (unat pos) (unat (num s1 - pos));
                mem_put moved (unat pos) p }) = Some d"
    and dl: "length d = length (data s1)" and dt: "take (Suc ?n) d = insert_at ?i p (elems s)"
  proof (cases "pos \<ge> num s")
    case True
    then have "take (Suc ?n) ((data s1)[?n := p]) = insert_at ?i p (elems s)"
      using len length_elems [OF s1(1)] s1(2,3) by (simp add: insert_at_def word_le_nat_alt take_Suc_conv_app_nth elems_def)
    with True len show ?thesis by (intro that [of "(data s1)[?n := p]"]) (simp_all add: s1(3) mem_put_def)
  next
    case False
    then have lt: "?i < ?n" by (simp add: word_le_nat_alt)
    have w: "unat (pos + 1) = Suc ?i" "unat (num s - pos) = ?n - ?i"
      using lt unat_lt_2p [of "num s"] False by (simp_all add: unat_sub_le unat_add_no_overflow word_le_nat_alt)
    note c = insert_cells(1) [of ?n "data s1" ?i, OF _ lt] insert_cells(2) [of ?n "data s1" ?i p, OF _ lt]
    let ?m = "take (Suc ?i) (data s1) @ take (?n - ?i) (drop ?i (data s1)) @ drop (Suc ?n) (data s1)"
    have "take ?n (data s1) = elems s" using s1(2,3) by (simp add: elems_def)
    with False lt len c show ?thesis
      by (intro that [of "?m[?i := p]"]) (simp_all add: s1(3) w mem_put_def)
  qed
  let ?s' = "s1\<lparr>data := d, num := num s1 + 1, sorted_flag := False\<rparr>"
  have "sk_insert alloc (Some s) p pos = Some (num s1 + 1, Some ?s')"
    using d by (simp add: sk_insert_def Some del: bind_eq_Some_conv)
  moreover have "sk_ok ?s'" using s1 dl len inc by (simp add: sk_ok_def)
  moreover have "elems ?s' = insert_at ?i p (elems s)" using dt by (simp add: elems_def s1(3) inc)
  moreover have "num s + 1 \<noteq> 0" using inc by auto
  ultimately show ?thesis using s1(3,4) by simp
qed

lemma sk_delete_spec:
  assumes "sk_ok s" and "pos < num s"
  shows "\<exists>s'. sk_delete (Some s) pos = Some (elems s ! unat pos, Some s') \<and> sk_ok s' \<and>
    elems s' = remove_at (unat pos) (elems s) \<and> comp s' = comp s \<and> sorted_flag s' = sorted_flag s"
proof -
  let ?n = "unat (num s)" and ?i = "unat pos"
  have lt: "?i < ?n" "?n < length (data s)" using assms by (simp_all add: word_less_nat_alt sk_ok_def)
  have n1: "unat (num s - 1) = ?n - 1" using lt by (subst unat_sub_le) (simp_all add: word_le_nat_alt)
  have i1: "unat (pos + 1) = Suc ?i" using lt unat_lt_2p [of "num s"] by (simp add: unat_add_no_overflow)
  have last: "pos = num s - 1 \<longleftrightarrow> Suc ?i = ?n" using n1 lt by (auto simp: word_unat_eq_iff)
  have cnt: "unat (num s - pos - 1) = ?n - ?i - 1"
  proof -
    have "unat (num s - pos) = ?n - ?i" using assms(2) by (intro unat_sub_le) simp
    then show ?thesis using lt by (subst unat_sub_le) (simp_all add: word_le_nat_alt)
  qed
  obtain d where d: "(if pos \<noteq> num s - 1 then mem_move (data s) ?i (unat (pos + 1)) (unat (num s - pos - 1))
      else Some (data s)) = Some d" and dl: "length d = length (data s)"
    and dt: "take (?n - 1) d = remove_at ?i (elems s)"
  proof (cases "Suc ?i = ?n")
    case True
    then have e: "?n - 1 = ?i" by linarith
    have "take (?n - 1) (data s) = remove_at ?i (elems s)"
      unfolding e using lt True by (simp add: remove_at_def elems_def)
    then show ?thesis using last True by (intro that [of "data s"]) simp_all
  next
    case False
    let ?d = "take ?i (data s) @ take (?n - ?i - 1) (drop (Suc ?i) (data s)) @ drop (?n - 1) (data s)"
    have mv: "mem_move (data s) ?i (Suc ?i) (?n - ?i - 1) = Some ?d"
      using lt False diff_le_mono [of ?n "length (data s)" "Suc ?i"] by (simp add: mem_move_def mem_range_def mem_write_def)
    have "take (?n - 1) ?d = remove_at ?i (elems s)"
      using lt False by (simp add: remove_at_def elems_def drop_take min_absorb1 min_absorb2)
    moreover have "length ?d = length (data s)" using lt False by simp
    ultimately show ?thesis using that [of ?d] mv False last by (simp add: i1 cnt)
  qed
  have at: "mem_at (data s) ?i = Some (elems s ! ?i)" using lt by (simp add: mem_at_def elems_def)
  let ?s' = "s\<lparr>data := d, num := num s - 1\<rparr>"
  have "\<not> num s \<le> pos" using assms(2) by simp
  then have "sk_delete (Some s) pos = Some (elems s ! ?i, Some ?s')"
    using d at by (simp add: sk_delete_def del: bind_eq_Some_conv)
  moreover have "sk_ok ?s'" using assms(1) dl n1 by (simp add: sk_ok_def less_imp_diff_less)
  moreover have "elems ?s' = remove_at ?i (elems s)" using dt by (simp add: elems_def n1)
  ultimately show ?thesis by simp
qed

lemma sk_push_spec:
  assumes "ptr_alloc_ok alloc" and "sk_ok s"
  shows "sk_push alloc (Some s) p = Some (0, Some s) \<and> num_alloc s \<le> num s + 1 \<or>
    (\<exists>s'. sk_push alloc (Some s) p = Some (num s', Some s') \<and> sk_ok s' \<and> num s' \<noteq> 0 \<and> elems s' = elems s @ [p] \<and>
       comp s' = comp s \<and> \<not> sorted_flag s')"
  using sk_insert_spec [OF assms, of p "num s"] length_elems [OF assms(2)] by (simp add: sk_push_def insert_at_def)

lemma sk_pop_spec:
  assumes "sk_ok s"
  shows "if elems s = [] then sk_pop (Some s) = Some (None, Some s)
    else (\<exists>s'. sk_pop (Some s) = Some (last (elems s), Some s') \<and> sk_ok s' \<and> elems s' = butlast (elems s))"
proof (cases "num s = 0")
  case True
  then show ?thesis by (simp add: sk_pop_def elems_def)
next
  case False
  have len: "length (elems s) = unat (num s)" by (rule length_elems [OF assms])
  have n: "unat (num s - 1) = length (elems s) - 1" "0 < length (elems s)"
    using False len unat_gt_0 [of "num s"] by (simp_all add: unat_sub_le word_le_nat_alt unat_eq_0)
  then have "num s - 1 < num s" using len by (simp add: word_less_nat_alt)
  then obtain s' where "sk_delete (Some s) (num s - 1) = Some (elems s ! (length (elems s) - 1), Some s')" "sk_ok s'"
      "elems s' = remove_at (length (elems s) - 1) (elems s)"
    using sk_delete_spec [OF assms, of "num s - 1"] n(1) by auto
  moreover have "remove_at (length (elems s) - 1) (elems s) = butlast (elems s)"
    using n(2) by (simp add: remove_at_def butlast_conv_take)
  ultimately show ?thesis using n(2) False by (auto simp: sk_pop_def last_conv_nth)
qed

lemma sk_shift_spec:
  assumes "sk_ok s"
  shows "if elems s = [] then sk_shift (Some s) = Some (None, Some s)
    else (\<exists>s'. sk_shift (Some s) = Some (hd (elems s), Some s') \<and> sk_ok s' \<and> elems s' = tl (elems s))"
proof (cases "num s = 0")
  case True
  then show ?thesis by (simp add: sk_shift_def elems_def)
next
  case False
  then have "0 < num s" "elems s \<noteq> []" using length_elems [OF assms] by (auto simp: word_neq_0_conv unat_eq_0)
  then show ?thesis
    using sk_delete_spec [OF assms, of 0] False by (auto simp: sk_shift_def remove_at_def hd_conv_nth drop_Suc)
qed

section \<open>Searching and sorting\<close>

text \<open>The flag promises that the elements are in ascending order.\<close>

definition flag_ok :: "('f \<Rightarrow> 'a ptr \<Rightarrow> 'a ptr \<Rightarrow> int) \<Rightarrow> ('f, 'a) stack_st \<Rightarrow> bool" where
  "flag_ok call s \<longleftrightarrow>
     (\<forall>f. comp s = Some f \<and> sorted_flag s \<longrightarrow> sorted_wrt (\<lambda>x y. call f x y \<le> 0) (elems s))"

text \<open>What \<open>sk_find\<close> looks for.\<close>

definition matches :: "('f \<Rightarrow> 'a ptr \<Rightarrow> 'a ptr \<Rightarrow> int) \<Rightarrow> ('f, 'a) stack_st \<Rightarrow> 'a ptr \<Rightarrow> 'a ptr \<Rightarrow> bool" where
  "matches call s p e \<longleftrightarrow> (case comp s of None \<Rightarrow> e = p | Some f \<Rightarrow> p \<noteq> None \<and> call f p e = 0)"

lemma is_first_cong: "(\<And>i. i < n \<Longrightarrow> P i = Q i) \<Longrightarrow> is_first P n r = is_first Q n r"
  by (auto simp: is_first_def split: option.splits)

lemma sk_find_spec:
  assumes "sk_ok s" and "flag_ok call s" and "\<forall>f. comp s = Some f \<longrightarrow> three_way (call f)"
  shows "\<exists>r. sk_find call (Some s) p = Some r \<and>
    is_first (\<lambda>i. matches call s p (elems s ! i)) (length (elems s)) (map_option unat r)"
proof -
  let ?n = "unat (num s)"
  have n: "?n \<le> length (data s)" "length (elems s) = ?n" "?n < 2 ^ 64"
    using assms(1) length_elems [OF assms(1)] unat_lt_2p [of "num s"] by (simp_all add: sk_ok_def)
  have nth: "elems s ! i = data s ! i" if "i < ?n" for i using that by (simp add: elems_def)
  have lin: "\<exists>r. map_option (map_option of_nat) (first_index P (data s) 0 ?n) = Some (r :: size_t option) \<and>
      is_first (\<lambda>i. P (elems s ! i)) ?n (map_option unat r)" for P
  proof -
    obtain r where r: "first_index P (data s) 0 ?n = Some r" "is_first (\<lambda>i. P (data s ! i)) ?n r"
      using first_index_spec [of 0 ?n "data s" P] n(1) by auto
    have "map_option unat (map_option of_nat r :: size_t option) = r"
      using r(2) n(3) by (cases r) (auto simp: is_first_def unat_of_nat_less)
    with r is_first_cong [of ?n "\<lambda>i. P (data s ! i)" "\<lambda>i. P (elems s ! i)"] nth show ?thesis by auto
  qed
  show ?thesis
  proof (cases "comp s")
    case None
    then show ?thesis using lin [of "\<lambda>e. e = p"] n(2) by (simp add: sk_find_def matches_def)
  next
    case (Some f)
    show ?thesis
    proof (cases "p = None")
      case True
      then show ?thesis using Some by (simp add: sk_find_def matches_def is_first_def)
    next
      case False
      then obtain y where y: "p = Some y" by auto
      show ?thesis
      proof (cases "sorted_flag s")
        case unsorted: False
        then show ?thesis
          using Some y lin [of "\<lambda>e. call f p e = 0"] n(2) by (simp add: sk_find_def matches_def sk_is_sorted_def)
      next
        case True
        have "three_way (call f)" using assms(3) Some by blast
        moreover have "sorted_wrt (\<lambda>x y. call f x y \<le> 0) (take ?n (data s))"
          using assms(2) Some True by (simp add: flag_ok_def elems_def)
        ultimately have "\<exists>r. binary_search (call f p) (data s) 0 (num s) = Some r \<and>
            is_first (\<lambda>i. call f p (data s ! i) = 0) ?n (map_option unat r)"
          using n(1) by (intro three_way.binary_search_spec) simp_all
        then show ?thesis
          using Some y True n(2) nth is_first_cong [of ?n "\<lambda>i. call f p (data s ! i) = 0" "\<lambda>i. call f p (elems s ! i) = 0"]
          by (auto simp: sk_find_def matches_def sk_is_sorted_def)
      qed
    qed
  qed
qed

lemma sk_sort_spec:
  assumes "sk_ok s" and "flag_ok call s" and "comp s = Some f" and "three_way (call f)"
  shows "\<exists>s'. sk_sort call (Some s) = Some (Some s') \<and> sk_ok s' \<and> sorted_flag s' \<and> flag_ok call s' \<and> comp s' = comp s \<and>
    sorted_wrt (\<lambda>x y. call f x y \<le> 0) (elems s') \<and> mset (elems s') = mset (elems s)"
proof (cases "sorted_flag s")
  case True
  then show ?thesis using assms by (simp add: sk_sort_def flag_ok_def)
next
  case False
  let ?n = "unat (num s)" and ?q = "qsort (call f) (elems s)"
  have n: "?n \<le> length (data s)" using assms(1) by (simp add: sk_ok_def)
  have q: "sorted_wrt (\<lambda>x y. call f x y \<le> 0) ?q" "mset ?q = mset (elems s)"
    using three_way.qsort_ascending [OF assms(4)] three_way.mset_qsort [OF assms(4)] by simp_all
  have lq: "length ?q = ?n" using arg_cong [OF q(2), of size] length_elems [OF assms(1)] by simp
  show ?thesis
  proof (cases "num s \<ge> 2")
    case True
    let ?s' = "s\<lparr>data := ?q @ drop ?n (data s), sorted_flag := True\<rparr>"
    have "sk_sort call (Some s) = Some (Some ?s')"
      using assms(3) False True n lq by (simp add: sk_sort_def mem_range_def mem_write_def elems_def)
    moreover have "elems ?s' = ?q" using lq by (simp add: elems_def)
    moreover have "sk_ok ?s'" using assms(1) lq by (simp add: sk_ok_def)
    ultimately show ?thesis using q assms(3) by (simp add: flag_ok_def)
  next
    case small: False
    then have "?n < 2" by (simp add: word_le_nat_alt)
    then have "sorted_wrt (\<lambda>x y. call f x y \<le> 0) (elems s)"
      using length_elems [OF assms(1)] by (cases "elems s"; cases "tl (elems s)") auto
    then show ?thesis
      using assms False small by (simp add: sk_sort_def sk_ok_def elems_def flag_ok_def)
  qed
qed

section \<open>Copies\<close>

lemma sk_dup_spec:
  assumes "ptr_alloc_ok alloc" and "sk_ok s"
  shows "sk_dup alloc (Some s) = Some None \<or>
    (\<exists>s'. sk_dup alloc (Some s) = Some (Some s') \<and> sk_ok s' \<and> elems s' = elems s \<and> num s' = num s \<and> comp s' = comp s \<and>
       sorted_flag s' = sorted_flag s)"
proof (cases "alloc 40 = None \<or> alloc (8 * num_alloc s) = None")
  case True
  then show ?thesis by (auto simp: sk_dup_def split: option.splits)
next
  case False
  then obtain fresh where f: "alloc (8 * num_alloc s) = Some fresh" by auto
  have a: "8 * unat (num_alloc s) < 2 ^ 64" using assms(2) by (simp add: sk_ok_def)
  then have "unat (8 * num_alloc s) = 8 * unat (num_alloc s)" by (simp add: unat_word_ariths)
  then have "length fresh = unat (num_alloc s)" using assms(1) f by (simp add: ptr_alloc_ok_def)
  then show ?thesis
    using False f assms(2) by (auto simp: sk_dup_def mem_range_def mem_write_def sk_ok_def elems_def)
qed

text \<open>What copying a list of pointers one by one yields, up to the first failure.\<close>

fun copy_run :: "('s \<Rightarrow> 'a \<Rightarrow> 'a ptr \<times> 's) \<Rightarrow> 's \<Rightarrow> 'a ptr list \<Rightarrow> 'a ptr list \<times> bool \<times> 's" where
  "copy_run copy st [] = ([], True, st)"
| "copy_run copy st (None # xs) = (let (r, ok, st') = copy_run copy st xs in (None # r, ok, st'))"
| "copy_run copy st (Some a # xs) =
     (case copy st a of
        (None, st') \<Rightarrow> ([], False, st')
      | (Some b, st') \<Rightarrow> let (r, ok, st'') = copy_run copy st' xs in (Some b # r, ok, st''))"

text \<open>The addresses in a list of pointers, without the null pointers.\<close>

fun addresses :: "'a ptr list \<Rightarrow> 'a list" where
  "addresses [] = []"
| "addresses (None # ps) = addresses ps"
| "addresses (Some a # ps) = a # addresses ps"

lemma addresses_append: "addresses (xs @ ys) = addresses xs @ addresses ys"
  by (induction xs rule: addresses.induct) simp_all

lemma free_elements_eq: "n \<le> length ps \<Longrightarrow> free_elements ps n = Some (addresses (take n ps))"
  by (induction ps n rule: free_elements.induct) (auto split: option.splits)

lemma copy_elements_eq:
  assumes "i + n \<le> length ps" and "copy_run copy st (take n (drop i ps)) = (r, ok, st')"
  shows "\<exists>ps'. copy_elements copy st ps i n =
      Some (ok, ps', if ok then [] else addresses (take i ps @ r), st') \<and>
    (ok \<longrightarrow> ps' = take i ps @ r @ drop (i + n) ps)"
  using assms
proof (induction n arbitrary: i ps st r)
  case 0
  then show ?case by simp
next
  case (Suc n)
  have lt: "i < length ps" using Suc.prems(1) by simp
  have d: "take (Suc n) (drop i ps) = ps ! i # take n (drop (Suc i) ps)"
    using lt by (simp add: Cons_nth_drop_Suc [symmetric])
  have at: "mem_at ps i = Some (ps ! i)" using lt by (simp add: mem_at_def)
  show ?case
  proof (cases "ps ! i")
    case None
    then obtain r1 where r1: "copy_run copy st (take n (drop (Suc i) ps)) = (r1, ok, st')" "r = None # r1"
      using Suc.prems(2) unfolding d by (auto simp: Let_def split: prod.splits)
    have "take (Suc i) ps = take i ps @ [None]" using lt None by (simp add: take_Suc_conv_app_nth)
    then show ?thesis using Suc.IH [OF _ r1(1)] Suc.prems(1) at None r1(2) by (auto split: if_splits)
  next
    case (Some a)
    show ?thesis
    proof (cases "fst (copy st a)")
      case None
      then have "r = []" "\<not> ok" "snd (copy st a) = st'"
        using Suc.prems(2) Some unfolding d by (auto split: prod.splits)
      moreover from this None have "copy st a = (None, st')" by (simp add: prod_eq_iff)
      ultimately show ?thesis using at Some lt by (simp add: mem_put_def free_elements_eq)
    next
      case b: (Some b)
      define st1 where "st1 = snd (copy st a)"
      have c: "copy st a = (Some b, st1)" using b by (simp add: st1_def prod_eq_iff)
      obtain r1 where r1: "copy_run copy st1 (take n (drop (Suc i) ps)) = (r1, ok, st')" "r = Some b # r1"
        using Suc.prems(2) Some c unfolding d by (auto simp: Let_def split: prod.splits)
      let ?ps = "ps[i := Some b]"
      have "take n (drop (Suc i) ?ps) = take n (drop (Suc i) ps)" by simp
      moreover have "take (Suc i) ?ps = take i ps @ [Some b]" using lt by (simp add: take_Suc_conv_app_nth)
      ultimately show ?thesis
        using Suc.IH [of "Suc i" ?ps st1 r1] r1 Suc.prems(1) at Some c lt by (auto simp: mem_put_def split: if_splits)
    qed
  qed
qed

lemma length_copy_run: "copy_run copy st xs = (r, True, st') \<Longrightarrow> length r = length xs"
  by (induction copy st xs arbitrary: r rule: copy_run.induct) (auto simp: Let_def split: prod.splits option.splits)

section \<open>The properties\<close>

lemma sk_set_spec:
  assumes "sk_ok s" and "pos < num s"
  shows "\<exists>s'. sk_set (Some s) pos p = Some (p, Some s') \<and> sk_ok s' \<and> elems s' = (elems s)[unat pos := p]"
proof -
  have "unat pos < unat (num s)" "unat (num s) \<le> length (data s)" using assms by (simp_all add: word_less_nat_alt sk_ok_def)
  moreover have "\<not> num s \<le> pos" using assms(2) by simp
  ultimately show ?thesis using assms(1) by (simp add: sk_set_def mem_put_def sk_ok_def elems_def take_update_swap)
qed

lemma sk_value_spec:
  assumes "sk_ok s"
  shows "sk_value (Some s) pos = Some (if pos < num s then elems s ! unat pos else None)"
proof (cases "pos < num s")
  case True
  then have "unat pos < unat (num s)" "\<not> num s \<le> pos" by (simp_all add: not_le word_less_nat_alt)
  then show ?thesis using True assms by (simp add: sk_value_def sk_ok_def elems_def mem_at_def)
next
  case False
  moreover from False have "num s \<le> pos" by simp
  ultimately show ?thesis by (simp add: sk_value_def)
qed

lemma sk_zero_spec: "sk_ok s \<Longrightarrow> \<exists>s'. sk_zero (Some s) = Some (Some s') \<and> sk_ok s' \<and> elems s' = []"
  by (auto simp: sk_zero_def sk_ok_def elems_def mem_write_def)

lemma remove1_remove_at:
  assumes "is_first (\<lambda>i. xs ! i = x) (length xs) r"
  shows "case r of None \<Rightarrow> x \<notin> set xs | Some i \<Rightarrow> i < length xs \<and> xs ! i = x \<and> remove_at i xs = remove1 x xs"
proof (cases r)
  case None
  then show ?thesis using assms by (auto simp: is_first_def in_set_conv_nth)
next
  case (Some i)
  then have i: "i < length xs" "xs ! i = x" "\<And>j. j < i \<Longrightarrow> xs ! j \<noteq> x" using assms by (auto simp: is_first_def)
  then have "x \<notin> set (take i xs)" by (auto simp: in_set_conv_nth)
  then have "remove1 x (take i xs @ x # drop (Suc i) xs) = remove_at i xs" by (simp add: remove1_append remove_at_def)
  then show ?thesis using i Some id_take_nth_drop [OF i(1)] by simp
qed

lemma sk_delete_ptr_spec:
  assumes "sk_ok s"
  shows "if p \<in> set (elems s)
    then \<exists>s'. sk_delete_ptr (Some s) p = Some (p, Some s') \<and> sk_ok s' \<and> elems s' = remove1 p (elems s)
    else sk_delete_ptr (Some s) p = Some (None, Some s)"
proof -
  have n: "unat (num s) \<le> length (data s)" "length (elems s) = unat (num s)" using assms length_elems [OF assms] by (simp_all add: sk_ok_def)
  obtain r where r: "first_index (\<lambda>e. e = p) (data s) 0 (unat (num s)) = Some r"
      "is_first (\<lambda>i. data s ! i = p) (unat (num s)) r"
    using n(1) first_index_spec [of 0 "unat (num s)" "data s" "\<lambda>e. e = p"] by auto
  have "is_first (\<lambda>i. elems s ! i = p) (length (elems s)) r"
    using r(2) n is_first_cong [of "unat (num s)" "\<lambda>i. data s ! i = p" "\<lambda>i. elems s ! i = p"] by (simp add: elems_def)
  note f = remove1_remove_at [OF this]
  show ?thesis
  proof (cases r)
    case None
    then show ?thesis using r(1) f by (simp add: sk_delete_ptr_def)
  next
    case (Some i)
    then have i: "i < length (elems s)" "elems s ! i = p" "remove_at i (elems s) = remove1 p (elems s)" using f by auto
    then have u: "unat (of_nat i :: size_t) = i" using n(2) unat_lt_2p [of "num s"] by (intro unat_of_nat_less) simp
    then have "of_nat i < num s" using i(1) n(2) by (simp add: word_less_nat_alt)
    from sk_delete_spec [OF assms this] show ?thesis using i u r(1) Some nth_mem [OF i(1)] by (auto simp: sk_delete_ptr_def)
  qed
qed

text \<open>(C33) The stack refines a list: on a consistent stack no operation leaves the array, each leaves a consistent
  stack, and does to the list of elements what its name says.  Stated for \<open>sk_num\<close>, \<open>sk_value\<close>, \<open>sk_set\<close>, \<open>sk_zero\<close>, \<open>sk_insert\<close>,
  \<open>sk_push\<close>, \<open>sk_delete\<close>, \<open>sk_delete_ptr\<close>, \<open>sk_pop\<close>, \<open>sk_shift\<close>, \<open>sk_pop_free_ex\<close>, \<open>sk_dup\<close> and \<open>sk_sort\<close> (whose comparison has to be a
  three-way comparison, and whose flag truthful).  Insertion can only fail, without changing the stack, when the array is full.\<close>

theorem stack_refines_list:
  assumes "ptr_alloc_ok alloc" and "sk_ok s"
  shows "unat (sk_num (Some s)) = length (elems s) \<and>
    sk_value (Some s) pos = Some (if pos < num s then elems s ! unat pos else None) \<and>
    (if pos < num s
     then \<exists>s'. sk_set (Some s) pos p = Some (p, Some s') \<and> sk_ok s' \<and> elems s' = (elems s)[unat pos := p]
     else sk_set (Some s) pos p = Some (None, Some s)) \<and>
    (\<exists>s'. sk_zero (Some s) = Some (Some s') \<and> sk_ok s' \<and> elems s' = []) \<and>
    (sk_insert alloc (Some s) p pos = Some (0, Some s) \<and> num_alloc s \<le> num s + 1 \<or>
      (\<exists>s'. sk_insert alloc (Some s) p pos = Some (num s', Some s') \<and> sk_ok s' \<and> num s' \<noteq> 0 \<and>
         elems s' = insert_at (unat pos) p (elems s))) \<and>
    (sk_push alloc (Some s) p = Some (0, Some s) \<and> num_alloc s \<le> num s + 1 \<or>
      (\<exists>s'. sk_push alloc (Some s) p = Some (num s', Some s') \<and> sk_ok s' \<and> elems s' = elems s @ [p])) \<and>
    (if pos < num s
     then \<exists>s'. sk_delete (Some s) pos = Some (elems s ! unat pos, Some s') \<and> sk_ok s' \<and>
       elems s' = remove_at (unat pos) (elems s)
     else sk_delete (Some s) pos = Some (None, Some s)) \<and>
    (if p \<in> set (elems s)
     then \<exists>s'. sk_delete_ptr (Some s) p = Some (p, Some s') \<and> sk_ok s' \<and> elems s' = remove1 p (elems s)
     else sk_delete_ptr (Some s) p = Some (None, Some s)) \<and>
    (if elems s = [] then sk_pop (Some s) = Some (None, Some s)
     else \<exists>s'. sk_pop (Some s) = Some (last (elems s), Some s') \<and> sk_ok s' \<and> elems s' = butlast (elems s)) \<and>
    (if elems s = [] then sk_shift (Some s) = Some (None, Some s)
     else \<exists>s'. sk_shift (Some s) = Some (hd (elems s), Some s') \<and> sk_ok s' \<and> elems s' = tl (elems s)) \<and>
    sk_pop_free_ex (Some s) = Some (addresses (elems s)) \<and>
    (sk_dup alloc (Some s) = Some None \<or>
      (\<exists>s'. sk_dup alloc (Some s) = Some (Some s') \<and> sk_ok s' \<and> elems s' = elems s)) \<and>
    (comp s = None \<longrightarrow> sk_sort call (Some s) = Some (Some s)) \<and>
    (\<forall>f. comp s = Some f \<and> three_way (call f) \<and> flag_ok call s \<longrightarrow>
      (\<exists>s'. sk_sort call (Some s) = Some (Some s') \<and> sk_ok s' \<and> sorted_wrt (\<lambda>x y. call f x y \<le> 0) (elems s') \<and>
         mset (elems s') = mset (elems s)))"
proof (intro conjI)
  show "if pos < num s
     then \<exists>s'. sk_delete (Some s) pos = Some (elems s ! unat pos, Some s') \<and> sk_ok s' \<and>
       elems s' = remove_at (unat pos) (elems s)
     else sk_delete (Some s) pos = Some (None, Some s)"
    using sk_delete_spec [OF assms(2), of pos] by (auto simp: sk_delete_def)
  show "if pos < num s
     then \<exists>s'. sk_set (Some s) pos p = Some (p, Some s') \<and> sk_ok s' \<and> elems s' = (elems s)[unat pos := p]
     else sk_set (Some s) pos p = Some (None, Some s)"
    using sk_set_spec [OF assms(2), of pos] by (auto simp: sk_set_def)
  show "sk_pop_free_ex (Some s) = Some (addresses (elems s))"
    using assms(2) by (simp add: sk_pop_free_ex_def free_elements_eq sk_ok_def elems_def)
  show "unat (sk_num (Some s)) = length (elems s)" using length_elems [OF assms(2)] by (simp add: sk_num_def)
  show "comp s = None \<longrightarrow> sk_sort call (Some s) = Some (Some s)" by (simp add: sk_sort_def)
  show "\<forall>f. comp s = Some f \<and> three_way (call f) \<and> flag_ok call s \<longrightarrow>
      (\<exists>s'. sk_sort call (Some s) = Some (Some s') \<and> sk_ok s' \<and> sorted_wrt (\<lambda>x y. call f x y \<le> 0) (elems s') \<and>
         mset (elems s') = mset (elems s))"
    using sk_sort_spec [OF assms(2)] by blast
qed (use sk_value_spec [OF assms(2)] sk_zero_spec [OF assms(2)] sk_delete_ptr_spec [OF assms(2)] sk_dup_spec [OF assms]
    sk_insert_spec [OF assms] sk_push_spec [OF assms] sk_pop_spec [OF assms(2)] sk_shift_spec [OF assms(2)] in blast)+

definition three_ints :: "(unit, int) stack_st" where
  "three_ints = \<lparr>num = 3, data = [Some 5, Some 1, Some 5, None], sorted_flag = False, num_alloc = 4, comp = Some ()\<rparr>"

lemma three_ints_ok: "sk_ok three_ints" and three_ints_elems: "elems three_ints = [Some 5, Some 1, Some 5]"
  by (simp_all add: three_ints_def sk_ok_def elems_def)

definition null_alloc :: "int ptr_alloc" where
  "null_alloc n = Some (replicate (unat n div 8) None)"

lemma null_alloc_ok: "ptr_alloc_ok null_alloc"
  by (auto simp: ptr_alloc_ok_def null_alloc_def)

text \<open>A comparison function of a caller: integers by their value, null pointers first.\<close>

definition int_cmp :: "unit \<Rightarrow> int ptr \<Rightarrow> int ptr \<Rightarrow> int" where
  "int_cmp f x y =
     (case (x, y) of
        (None, None) \<Rightarrow> 0 | (None, Some _) \<Rightarrow> - 1 | (Some _, None) \<Rightarrow> 1 | (Some a, Some b) \<Rightarrow> a - b)"

lemma int_cmp_three_way: "three_way (int_cmp f)"
  by unfold_locales (auto simp: int_cmp_def split: option.splits)

theorem stack_refines_list_witness:
  "(\<exists>s'. sk_pop (Some three_ints) = Some (Some 5, Some s') \<and> elems s' = [Some 5, Some 1]) \<and>
   (\<exists>s'. sk_sort int_cmp (Some three_ints) = Some (Some s') \<and> mset (elems s') = {#Some 5, Some 1, Some 5#})"
proof -
  have "comp three_ints = Some ()" "flag_ok int_cmp three_ints" by (simp_all add: three_ints_def flag_ok_def)
  then have "\<exists>s'. sk_sort int_cmp (Some three_ints) = Some (Some s') \<and> mset (elems s') = mset (elems three_ints)"
    using stack_refines_list [OF null_alloc_ok three_ints_ok, where call = int_cmp] int_cmp_three_way by blast
  moreover have "\<exists>s'. sk_pop (Some three_ints) = Some (last (elems three_ints), Some s') \<and> elems s' = butlast (elems three_ints)"
    using stack_refines_list [OF null_alloc_ok three_ints_ok] three_ints_elems by (metis list.distinct(1))
  ultimately show ?thesis by (simp add: three_ints_elems)
qed

text \<open>(C34) \<open>sk_find\<close> returns the first match, in both of its modes: with no comparison function, by pointer
  equality; with one, by a linear search, or by the binary search when the stack is flagged as sorted.  The binary
  search never reads outside the array and its assertions hold.\<close>

theorem sk_find_first:
  assumes "sk_ok s" and "flag_ok call s" and "\<forall>f. comp s = Some f \<longrightarrow> three_way (call f)"
  shows "\<exists>r. sk_find call (Some s) p = Some r \<and>
    is_first (\<lambda>i. matches call s p (elems s ! i)) (length (elems s)) (map_option unat r)"
  by (rule sk_find_spec [OF assms])

theorem sk_find_first_witness: "sk_find int_cmp (Some three_ints) (Some 5) = Some (Some 0)"
proof -
  have "flag_ok int_cmp three_ints" by (simp add: flag_ok_def three_ints_def)
  from sk_find_first [OF three_ints_ok this, of "Some 5"] int_cmp_three_way obtain r where
    r: "sk_find int_cmp (Some three_ints) (Some 5) = Some r"
      "is_first (\<lambda>i. matches int_cmp three_ints (Some 5) (elems three_ints ! i)) (length (elems three_ints)) (map_option unat r)"
    by blast
  have "matches int_cmp three_ints (Some 5) (elems three_ints ! 0)"
    by (simp add: matches_def three_ints_def int_cmp_def elems_def)
  moreover have "0 < length (elems three_ints)" by (simp add: three_ints_elems)
  ultimately have "map_option unat r = Some 0"
    using r(2) by (cases r) (auto simp: is_first_def simp del: unat_eq_0 elim!: allE [of _ 0])
  then have "r = Some 0" by (auto simp: unat_eq_0)
  then show ?thesis using r(1) by simp
qed

text \<open>\<open>sk_sort\<close> puts the elements into ascending order, loses and duplicates none, and sets the flag truthfully.\<close>

theorem sk_sort_sorts:
  assumes "sk_ok s" and "flag_ok call s" and "comp s = Some f" and "three_way (call f)"
  shows "\<exists>s'. sk_sort call (Some s) = Some (Some s') \<and> sk_ok s' \<and> sorted_flag s' \<and> flag_ok call s' \<and>
    sorted_wrt (\<lambda>x y. call f x y \<le> 0) (elems s') \<and> mset (elems s') = mset (elems s)"
  using sk_sort_spec [OF assms] by blast

theorem sk_sort_sorts_witness:
  "\<exists>s'. sk_sort int_cmp (Some three_ints) = Some (Some s') \<and> mset (elems s') = {#Some 1, Some 5, Some 5#}"
proof -
  have "flag_ok int_cmp three_ints" "comp three_ints = Some ()" by (simp_all add: flag_ok_def three_ints_def)
  from sk_sort_sorts [OF three_ints_ok this int_cmp_three_way] show ?thesis by (auto simp: three_ints_elems)
qed

lemma sorted_wrt_remove_at: "sorted_wrt P xs \<Longrightarrow> sorted_wrt P (remove_at i xs)"
proof (cases "i < length xs")
  case True
  assume "sorted_wrt P xs"
  then have "sorted_wrt P (take i xs @ xs ! i # drop (Suc i) xs)" using True by (simp add: id_take_nth_drop [symmetric])
  then show ?thesis by (simp add: remove_at_def sorted_wrt_append)
qed (simp add: remove_at_def)

lemma flag_ok_delete:
  assumes "sk_ok s" and "flag_ok call s" and "sk_delete (Some s) pos = Some (r, Some s')"
  shows "flag_ok call s'"
proof (cases "pos < num s")
  case True
  with sk_delete_spec [OF assms(1) True] assms(2,3) show ?thesis by (auto simp: flag_ok_def sorted_wrt_remove_at)
next
  case False
  then show ?thesis using assms(2,3) by (auto simp: sk_delete_def not_less)
qed

lemma flag_ok_sort:
  assumes "sk_ok s" and "flag_ok call s" and "\<forall>f. comp s = Some f \<longrightarrow> three_way (call f)" and "sk_sort call (Some s) = Some (Some s')"
  shows "flag_ok call s'"
proof (cases "comp s")
  case None
  then show ?thesis using assms(2,4) by (simp add: sk_sort_def)
next
  case (Some f)
  then show ?thesis using sk_sort_spec [OF assms(1,2) Some] assms(3,4) by auto
qed

text \<open>(C35) The sorted flag stays truthful: after \<open>sk_insert\<close>, \<open>sk_push\<close>, \<open>sk_delete\<close>, \<open>sk_delete_ptr\<close>, \<open>sk_pop\<close>, \<open>sk_shift\<close>, \<open>sk_zero\<close>,
  \<open>sk_dup\<close>, \<open>sk_set_cmp_func\<close> and \<open>sk_sort\<close>, a stack that is flagged as sorted is sorted by its comparison function if it was so
  before (for \<open>sk_sort\<close>: if that function is a three-way comparison).  The two operations that are left out do not have the property: \<open>sk_set\<close> overwrites an element, and \<open>sk_deep_copy\<close> replaces the
  elements by copies, and both leave the flag as it is.\<close>

theorem sorted_flag_invariant:
  assumes "ptr_alloc_ok alloc" and "sk_ok s" and "flag_ok call s"
  shows "(\<forall>r s'. sk_insert alloc (Some s) p pos = Some (r, Some s') \<longrightarrow> flag_ok call s') \<and>
    (\<forall>r s'. sk_push alloc (Some s) p = Some (r, Some s') \<longrightarrow> flag_ok call s') \<and>
    (\<forall>r s'. sk_delete (Some s) pos = Some (r, Some s') \<longrightarrow> flag_ok call s') \<and>
    (\<forall>r s'. sk_delete_ptr (Some s) p = Some (r, Some s') \<longrightarrow> flag_ok call s') \<and>
    (\<forall>r s'. sk_pop (Some s) = Some (r, Some s') \<longrightarrow> flag_ok call s') \<and>
    (\<forall>r s'. sk_shift (Some s) = Some (r, Some s') \<longrightarrow> flag_ok call s') \<and>
    flag_ok call (snd (sk_set_cmp_func s g)) \<and>
    (\<forall>s'. sk_zero (Some s) = Some (Some s') \<longrightarrow> flag_ok call s') \<and>
    (\<forall>s'. sk_dup alloc (Some s) = Some (Some s') \<longrightarrow> flag_ok call s') \<and>
    ((\<forall>f. comp s = Some f \<longrightarrow> three_way (call f)) \<longrightarrow>
      (\<forall>s'. sk_sort call (Some s) = Some (Some s') \<longrightarrow> flag_ok call s'))"
proof (intro conjI allI impI)
  fix r :: size_t and s'
  show "sk_insert alloc (Some s) p pos = Some (r, Some s') \<Longrightarrow> flag_ok call s'"
    using sk_insert_spec [OF assms(1,2), of p pos] assms(3) by (auto simp: flag_ok_def)
  show "sk_push alloc (Some s) p = Some (r, Some s') \<Longrightarrow> flag_ok call s'"
    using sk_push_spec [OF assms(1,2), of p] assms(3) by (auto simp: flag_ok_def)
next
  fix r s'
  show "sk_delete (Some s) pos = Some (r, Some s') \<Longrightarrow> flag_ok call s'" by (rule flag_ok_delete [OF assms(2,3)])
  show "sk_delete_ptr (Some s) p = Some (r, Some s') \<Longrightarrow> flag_ok call s'"
    using assms(3) flag_ok_delete [OF assms(2,3)] by (auto simp: sk_delete_ptr_def split: bind_splits option.splits)
  show "sk_pop (Some s) = Some (r, Some s') \<Longrightarrow> flag_ok call s'"
    using assms(3) flag_ok_delete [OF assms(2,3)] by (auto simp: sk_pop_def split: if_splits)
  show "sk_shift (Some s) = Some (r, Some s') \<Longrightarrow> flag_ok call s'"
    using assms(3) flag_ok_delete [OF assms(2,3)] by (auto simp: sk_shift_def split: if_splits)
next
  show "flag_ok call (snd (sk_set_cmp_func s g))"
    using assms(3) by (auto simp: sk_set_cmp_func_def flag_ok_def elems_def Let_def)
next
  fix s'
  show "sk_zero (Some s) = Some (Some s') \<Longrightarrow> flag_ok call s'"
    using assms(3) by (auto simp: sk_zero_def flag_ok_def Option.bind_eq_Some_conv split: if_splits)
  show "sk_dup alloc (Some s) = Some (Some s') \<Longrightarrow> flag_ok call s'"
    using sk_dup_spec [OF assms(1,2)] assms(3) by (auto simp: flag_ok_def)
  show "\<forall>f. comp s = Some f \<longrightarrow> three_way (call f) \<Longrightarrow> sk_sort call (Some s) = Some (Some s') \<Longrightarrow> flag_ok call s'"
    by (rule flag_ok_sort [OF assms(2,3)])
qed

theorem sorted_flag_invariant_witness:
  "\<exists>s'. sk_delete (Some \<lparr>num = 3, data = [Some 1, Some 2, Some 3, None], sorted_flag = True, num_alloc = 4, comp = Some ()\<rparr>) 1 =
     Some (Some 2, Some s') \<and> sorted_flag s' \<and> flag_ok int_cmp s'"
proof -
  define s :: "(unit, int) stack_st" where
    "s = \<lparr>num = 3, data = [Some 1, Some 2, Some 3, None], sorted_flag = True, num_alloc = 4, comp = Some ()\<rparr>"
  have ok: "sk_ok s" and flag: "flag_ok int_cmp s"
    by (simp_all add: sk_ok_def flag_ok_def elems_def int_cmp_def s_def)
  have "\<exists>s'. sk_delete (Some s) 1 = Some (Some 2, Some s') \<and> sorted_flag s'"
    using sk_delete_spec [OF ok, of 1] by (auto simp: s_def elems_def)
  then show ?thesis
    using sorted_flag_invariant [OF null_alloc_ok ok flag] int_cmp_three_way unfolding s_def by blast
qed

text \<open>(C37) \<open>sk_set\<close> breaks that invariant: it overwrites an element and leaves the flag set.  In the sorted stack 1, 2, 3
  the element 1 is replaced by 9; then \<open>sk_find\<close> does not find 9, although it is in the stack.\<close>

theorem sk_set_leaves_stale_flag:
  "\<exists>s s'. sk_ok s \<and> flag_ok int_cmp s \<and> sk_set (Some s) 0 (Some 9) = Some (Some 9, Some s') \<and>
     elems s' = [Some 9, Some 2, Some 3] \<and> sorted_flag s' \<and> \<not> flag_ok int_cmp s' \<and>
     sk_find int_cmp (Some s') (Some 9) = Some None"
proof -
  let ?s = "\<lambda>x. \<lparr>num = 3, data = [Some x, Some 2, Some 3, None], sorted_flag = True, num_alloc = 4, comp = Some ()\<rparr>"
  have "binary_search (int_cmp () (Some 9)) [Some 9, Some 2, Some 3, None] 0 3 = Some None"
    by (subst binary_search.simps, simp add: mem_at_def int_cmp_def Let_def)+
  then have "sk_find int_cmp (Some (?s 9)) (Some 9) = Some None" by (simp add: sk_find_def sk_is_sorted_def)
  moreover have "sk_ok (?s 1)" "flag_ok int_cmp (?s 1)" "\<not> flag_ok int_cmp (?s 9)"
    "elems (?s 9) = [Some 9, Some 2, Some 3]"
    by (simp_all add: sk_ok_def flag_ok_def elems_def int_cmp_def)
  moreover have "sk_set (Some (?s 1)) 0 (Some 9) = Some (Some 9, Some (?s 9))" by (simp add: sk_set_def mem_put_def)
  ultimately show ?thesis by (intro exI [of _ "?s 1"] exI [of _ "?s 9"]) simp
qed

text \<open>(C36) \<open>sk_deep_copy\<close> either returns a stack of the copies, or frees exactly the copies it had already made, each
  once, and returns \<open>NULL\<close>; the source is not touched.\<close>

theorem sk_deep_copy_no_leak:
  assumes "ptr_alloc_ok alloc" and "sk_ok s"
  shows "sk_dup alloc (Some s) = Some None \<and> sk_deep_copy alloc copy st (Some s) = Some (None, [], st) \<or>
    (case copy_run copy st (elems s) of (r, ok, st') \<Rightarrow>
       if ok then \<exists>s'. sk_deep_copy alloc copy st (Some s) = Some (Some s', [], st') \<and> sk_ok s' \<and> elems s' = r
       else sk_deep_copy alloc copy st (Some s) = Some (None, addresses r, st'))"
proof -
  obtain r ok st' where run: "copy_run copy st (elems s) = (r, ok, st')" by (cases "copy_run copy st (elems s)")
  show ?thesis
  proof (cases "sk_dup alloc (Some s) = Some None")
    case True
    then show ?thesis by (simp add: sk_deep_copy_def)
  next
    case False
    then obtain s' where d: "sk_dup alloc (Some s) = Some (Some s')" "sk_ok s'" "elems s' = elems s" "num s' = num s"
      using sk_dup_spec [OF assms] by auto
    have n: "unat (num s') \<le> length (data s')" using d(2) by (simp add: sk_ok_def)
    have "copy_run copy st (take (unat (num s')) (drop 0 (data s'))) = (r, ok, st')"
      using run d(3) by (simp add: elems_def)
    from copy_elements_eq [OF _ this] n obtain ps where
      c: "copy_elements copy st (data s') 0 (unat (num s')) = Some (ok, ps, if ok then [] else addresses r, st')"
        "ok \<longrightarrow> ps = r @ drop (unat (num s')) (data s')" by auto
    have "length r = unat (num s')" if ok
      using run that length_copy_run [of copy st "elems s" r st'] length_elems [OF assms(2)] d(4) by simp
    then show ?thesis using d n c run by (auto simp: sk_deep_copy_def sk_ok_def elems_def)
  qed
qed

theorem sk_deep_copy_no_leak_witness:
  "sk_deep_copy null_alloc (\<lambda>n a. (if n = 2 then None else Some (a + 10), n + 1)) (1 :: nat) (Some three_ints) =
     Some (None, [15], 3)"
proof -
  let ?copy = "\<lambda>(n :: nat) (a :: int). (if n = 2 then None else Some (a + 10), n + 1)"
  have run: "copy_run ?copy 1 (elems three_ints) = ([Some 15], False, 3)" by (simp add: three_ints_elems)
  have "sk_dup null_alloc (Some three_ints) \<noteq> Some None"
    by (simp add: sk_dup_def null_alloc_def three_ints_def mem_range_def mem_write_def)
  with sk_deep_copy_no_leak [OF null_alloc_ok three_ints_ok, of ?copy 1] run show ?thesis by simp
qed

end
