(* ===== verification/MemStr.thy ===== *)
theory MemStr
  imports Cbb "HOL-Library.Monad_Syntax"
begin

text \<open>
  BoringSSL's string helpers (\<^verbatim>\<open>crypto/mem.c\<close>) and its growable byte buffer (\<^verbatim>\<open>crypto/buf/buf.c\<close>).  A C string is
  the memory from its pointer to the end of the object; the functions stop at the first zero byte, and reading on
  past the end of the object is \<open>None\<close>.  \<open>char\<close> is signed on the platforms of the program, so a character is
  converted to \<open>int\<close> with its sign.
\<close>

unbundle bit_operations_syntax

section \<open>Strings\<close>

text \<open>The 32-bit FNV-1a hash.\<close>

definition OPENSSL_hash32 :: "byte list \<Rightarrow> nat \<Rightarrow> u32 option" where
  "OPENSSL_hash32 m len =
     map_option (\<lambda>bs. fold (\<lambda>b h. (h XOR ucast b) * 16777619) bs 2166136261) (mem_range m len)"

fun strlen :: "byte list \<Rightarrow> nat option" where
  "strlen [] = None"
| "strlen (c # cs) = (if c = 0 then Some 0 else map_option Suc (strlen cs))"

definition OPENSSL_strhash :: "byte list \<Rightarrow> u32 option" where
  "OPENSSL_strhash s = do { n \<leftarrow> strlen s; OPENSSL_hash32 s n }"

fun OPENSSL_strnlen :: "byte list \<Rightarrow> nat \<Rightarrow> nat option" where
  "OPENSSL_strnlen s 0 = Some 0"
| "OPENSSL_strnlen [] (Suc n) = None"
| "OPENSSL_strnlen (c # cs) (Suc n) = (if c = 0 then Some 0 else map_option Suc (OPENSSL_strnlen cs n))"

text \<open>The results of the duplicating functions: \<open>Some None\<close> is a returned \<open>NULL\<close>.\<close>

definition OPENSSL_strdup :: "allocator \<Rightarrow> byte list option \<Rightarrow> byte list option option" where
  "OPENSSL_strdup alloc s =
     (case s of
        None \<Rightarrow> Some None
      | Some m \<Rightarrow> do {
          n \<leftarrow> strlen m;
          (case alloc (of_nat (n + 1)) of
             None \<Rightarrow> Some None
           | Some ret \<Rightarrow> do { bs \<leftarrow> mem_range m (n + 1); ret' \<leftarrow> mem_write ret 0 bs; Some (Some ret') })
        })"

definition OPENSSL_tolower :: "int \<Rightarrow> int" where
  "OPENSSL_tolower c = (if c \<ge> 65 \<and> c \<le> 90 then c + (97 - 65) else c)"

fun OPENSSL_strcasecmp :: "byte list \<Rightarrow> byte list \<Rightarrow> int option" where
  "OPENSSL_strcasecmp (a # as) (b # bs) =
     (let aa = OPENSSL_tolower (sint a); bb = OPENSSL_tolower (sint b) in
      if aa < bb then Some (- 1) else if aa > bb then Some 1 else if aa = 0 then Some 0 else OPENSSL_strcasecmp as bs)"
| "OPENSSL_strcasecmp _ _ = None"

fun OPENSSL_strncasecmp :: "byte list \<Rightarrow> byte list \<Rightarrow> nat \<Rightarrow> int option" where
  "OPENSSL_strncasecmp as bs 0 = Some 0"
| "OPENSSL_strncasecmp (a # as) (b # bs) (Suc n) =
     (let aa = OPENSSL_tolower (sint a); bb = OPENSSL_tolower (sint b) in
      if aa < bb then Some (- 1) else if aa > bb then Some 1 else if aa = 0 then Some 0
      else OPENSSL_strncasecmp as bs n)"
| "OPENSSL_strncasecmp _ _ (Suc n) = None"

definition OPENSSL_strndup :: "allocator \<Rightarrow> byte list \<Rightarrow> size_t \<Rightarrow> byte list option option" where
  "OPENSSL_strndup alloc str sz = do {
     n \<leftarrow> OPENSSL_strnlen str (unat sz);
     let sz1 = (of_nat n :: size_t);
     let alloc_size = sz1 + 1;
     if alloc_size < sz1 then Some None
     else (case alloc alloc_size of
             None \<Rightarrow> Some None
           | Some ret \<Rightarrow> do {
               bs \<leftarrow> mem_range str (unat sz1);
               ret1 \<leftarrow> mem_write ret 0 bs;
               ret2 \<leftarrow> mem_put ret1 (unat sz1) 0;
               Some (Some ret2)
             })
   }"

text \<open>The copying loop of \<open>OPENSSL_strlcpy\<close>: \<open>p\<close> is the output position, \<open>l\<close> the number of characters copied.  The result
  also has the rest of the source and of the size.\<close>

fun strlcpy_loop :: "byte list \<Rightarrow> nat \<Rightarrow> byte list \<Rightarrow> nat \<Rightarrow> nat \<Rightarrow> (byte list \<times> nat \<times> byte list \<times> nat \<times> nat) option" where
  "strlcpy_loop dst p src 0 l = Some (dst, p, src, 0, l)"
| "strlcpy_loop dst p src (Suc 0) l = Some (dst, p, src, Suc 0, l)"
| "strlcpy_loop dst p src (Suc (Suc n)) l =
     (case src of
        [] \<Rightarrow> None
      | c # cs \<Rightarrow>
          if c = 0 then Some (dst, p, src, Suc (Suc n), l)
          else do { dst' \<leftarrow> mem_put dst p c; strlcpy_loop dst' (p + 1) cs (Suc n) (l + 1) })"

definition strlcpy_at :: "byte list \<Rightarrow> nat \<Rightarrow> byte list \<Rightarrow> size_t \<Rightarrow> (nat \<times> byte list) option" where
  "strlcpy_at dst p src dst_size = do {
     (dst1, p1, src1, n1, l) \<leftarrow> strlcpy_loop dst p src (unat dst_size) 0;
     dst2 \<leftarrow> (if n1 \<noteq> 0 then mem_put dst1 p1 0 else Some dst1);
     rest \<leftarrow> strlen src1;
     Some (l + rest, dst2)
   }"

definition OPENSSL_strlcpy :: "byte list \<Rightarrow> byte list \<Rightarrow> size_t \<Rightarrow> (nat \<times> byte list) option" where
  "OPENSSL_strlcpy dst src dst_size = strlcpy_at dst 0 src dst_size"

text \<open>The loop of \<open>OPENSSL_strlcat\<close> that looks for the end of the destination.\<close>

fun strlcat_loop :: "byte list \<Rightarrow> nat \<Rightarrow> nat \<Rightarrow> (nat \<times> nat) option" where
  "strlcat_loop dst p 0 = Some (p, 0)"
| "strlcat_loop dst p (Suc n) =
     do { c \<leftarrow> mem_at dst p; if c \<noteq> 0 then strlcat_loop dst (p + 1) n else Some (p, Suc n) }"

definition OPENSSL_strlcat :: "byte list \<Rightarrow> byte list \<Rightarrow> size_t \<Rightarrow> (nat \<times> byte list) option" where
  "OPENSSL_strlcat dst src dst_size = do {
     (p, n) \<leftarrow> strlcat_loop dst 0 (unat dst_size);
     (r, dst') \<leftarrow> strlcpy_at dst p src (of_nat n);
     Some (p + r, dst')
   }"

text \<open>\<open>CBS_strdup\<close> copies the contents of a reader, up to its first zero byte, into a fresh string.\<close>

definition CBS_strdup :: "allocator \<Rightarrow> CBS \<Rightarrow> (byte list, CBS) outcome" where
  "CBS_strdup alloc cbs =
     (case OPENSSL_strndup alloc (cbs_data cbs) (cbs_len cbs) of
        None \<Rightarrow> Fault | Some None \<Rightarrow> Fail cbs | Some (Some str) \<Rightarrow> Ok str cbs)"

section \<open>The growable buffer\<close>

record BUF_MEM =
  blen :: size_t
  bdata :: "byte list"
  bmax :: size_t

definition BUF_MEM_new :: "allocator \<Rightarrow> BUF_MEM option" where
  "BUF_MEM_new alloc = map_option (\<lambda>_. \<lparr>blen = 0, bdata = [], bmax = 0\<rparr>) (alloc 24)"

definition BUF_MEM_reserve :: "allocator \<Rightarrow> BUF_MEM \<Rightarrow> size_t \<Rightarrow> (unit, BUF_MEM) outcome" where
  "BUF_MEM_reserve alloc b cap0 =
     (if bmax b \<ge> cap0 then Ok () b
      else let n = cap0 + 3 in
        if n < cap0 then Fail b
        else let n = n div 3; alloc_size = n * 4 in
          if alloc_size div 4 \<noteq> n then Fail b
          else (case OPENSSL_realloc alloc (bdata b) alloc_size of
                  None \<Rightarrow> Fail b
                | Some new_buf \<Rightarrow> Ok () (b\<lparr>bdata := new_buf, bmax := alloc_size\<rparr>)))"

definition BUF_MEM_grow :: "allocator \<Rightarrow> BUF_MEM \<Rightarrow> size_t \<Rightarrow> (size_t, BUF_MEM) outcome" where
  "BUF_MEM_grow alloc b len =
     obind (BUF_MEM_reserve alloc b len) (\<lambda>_ b1.
       (case (if blen b1 < len
              then mem_write (bdata b1) (unat (blen b1)) (replicate (unat (len - blen b1)) 0)
              else Some (bdata b1)) of
          None \<Rightarrow> Fault
        | Some d \<Rightarrow> Ok len (b1\<lparr>bdata := d, blen := len\<rparr>)))"

definition BUF_MEM_grow_clean :: "allocator \<Rightarrow> BUF_MEM \<Rightarrow> size_t \<Rightarrow> (size_t, BUF_MEM) outcome" where
  "BUF_MEM_grow_clean alloc b len = BUF_MEM_grow alloc b len"

definition BUF_MEM_append :: "allocator \<Rightarrow> BUF_MEM \<Rightarrow> byte list \<Rightarrow> size_t \<Rightarrow> (unit, BUF_MEM) outcome" where
  "BUF_MEM_append alloc b inp len =
     (if len = 0 then Ok () b
      else let new_len = blen b + len in
        if new_len < len then Fail b
        else obind (BUF_MEM_reserve alloc b new_len) (\<lambda>_ b1.
          (case mem_range inp (unat len) of
             None \<Rightarrow> Fault
           | Some bs \<Rightarrow>
               (case mem_write (bdata b1) (unat (blen b1)) bs of
                  None \<Rightarrow> Fault
                | Some d \<Rightarrow> Ok () (b1\<lparr>bdata := d, blen := new_len\<rparr>)))))"

text \<open>The older names of the string functions.\<close>

definition BUF_strdup :: "allocator \<Rightarrow> byte list option \<Rightarrow> byte list option option" where
  "BUF_strdup alloc str = OPENSSL_strdup alloc str"

definition BUF_strnlen :: "byte list \<Rightarrow> nat \<Rightarrow> nat option" where
  "BUF_strnlen str max_len = OPENSSL_strnlen str max_len"

definition BUF_strndup :: "allocator \<Rightarrow> byte list \<Rightarrow> size_t \<Rightarrow> byte list option option" where
  "BUF_strndup alloc str sz = OPENSSL_strndup alloc str sz"

definition BUF_strlcpy :: "byte list \<Rightarrow> byte list \<Rightarrow> size_t \<Rightarrow> (nat \<times> byte list) option" where
  "BUF_strlcpy dst src dst_size = OPENSSL_strlcpy dst src dst_size"

definition BUF_strlcat :: "byte list \<Rightarrow> byte list \<Rightarrow> size_t \<Rightarrow> (nat \<times> byte list) option" where
  "BUF_strlcat dst src dst_size = OPENSSL_strlcat dst src dst_size"

definition BUF_memdup :: "(nat \<Rightarrow> bool) \<Rightarrow> byte list \<Rightarrow> nat \<Rightarrow> byte list option option" where
  "BUF_memdup alloc data sz = OPENSSL_memdup alloc data sz"

end
