(* ===== verification/MemStrProps.thy ===== *)
theory MemStrProps
  imports MemStr
begin

text \<open>
  The string functions against the string that a memory holds, and the growable buffer against a byte list.
\<close>

unbundle bit_operations_syntax

section \<open>Lengths\<close>

definition cstring :: "byte list \<Rightarrow> byte list" where
  "cstring m = takeWhile (\<lambda>c. c \<noteq> 0) m"

lemma cstring_simps [simp]: "cstring [] = []" "cstring (c # cs) = (if c = 0 then [] else c # cstring cs)"
  by (simp_all add: cstring_def)

lemma strlen_eq: "0 \<in> set m \<Longrightarrow> strlen m = Some (length (cstring m))"
  by (induction m) auto

lemma strnlen_eq: "n \<le> length m \<or> 0 \<in> set m \<Longrightarrow> OPENSSL_strnlen m n = Some (length (cstring (take n m)))"
  by (induction m n rule: OPENSSL_strnlen.induct) auto

lemma cstring_prefix: "cstring m = take (length (cstring m)) m"
  unfolding cstring_def by (metis takeWhile_eq_take)

lemma length_cstring: "length (cstring m) \<le> length m"
  by (simp add: cstring_def length_takeWhile_le)

section \<open>Bounded copies\<close>

lemma strlcpy_loop_eq:
  assumes "0 \<in> set src" and "p + Suc n \<le> length dst"
  shows "strlcpy_loop dst p src (Suc n) l =
    (let k = take n (cstring src) in
     Some (splice dst p k, p + length k, drop (length k) src, Suc n - length k, l + length k))"
  using assms
proof (induction n arbitrary: dst p src l)
  case 0
  then show ?case by simp
next
  case (Suc n)
  obtain c cs where src: "src = c # cs" using Suc.prems(1) by (cases src) auto
  show ?case
  proof (cases "c = 0")
    case True
    then show ?thesis using Suc.prems(2) by (simp add: src)
  next
    case False
    have put: "mem_put dst p c = Some (splice dst p [c])" using Suc.prems(2) by (intro mem_put_splice) simp
    have "strlcpy_loop (splice dst p [c]) (p + 1) cs (Suc n) (l + 1) =
      (let k = take n (cstring cs) in
       Some (splice (splice dst p [c]) (p + 1) k, p + 1 + length k, drop (length k) cs, Suc n - length k, l + 1 + length k))"
      using Suc.prems False by (intro Suc.IH) (auto simp: src)
    moreover have "splice (splice dst p [c]) (p + 1) k = splice dst p (c # k)" for k
      using Suc.prems(2) splice_splice [of p "[c]" dst "p + 1" k] by simp
    ultimately show ?thesis using False put by (simp add: src Let_def)
  qed
qed

lemma drop_cstring: "0 \<in> set m \<Longrightarrow> k \<le> length (cstring m) \<Longrightarrow> 0 \<in> set (drop k m) \<and> cstring (drop k m) = drop k (cstring m)"
proof (induction m arbitrary: k)
  case (Cons c m)
  then show ?case by (cases k) (auto split: if_splits)
qed simp

text \<open>What ends up in a destination of size \<open>n\<close>: as much of the string as fits, and a terminator when \<open>n\<close> is not zero.\<close>

definition truncated :: "nat \<Rightarrow> byte list \<Rightarrow> byte list" where
  "truncated n cs = (if n = 0 then [] else take (n - 1) cs @ [0])"

lemma strlcpy_at_eq:
  assumes "0 \<in> set src" and "p + unat n \<le> length dst"
  shows "strlcpy_at dst p src n = Some (length (cstring src), splice dst p (truncated (unat n) (cstring src)))"
proof (cases "unat n")
  case 0
  then show ?thesis using assms by (simp add: strlcpy_at_def strlen_eq truncated_def)
next
  case (Suc k)
  let ?k = "take k (cstring src)"
  have d: "0 \<in> set (drop (length ?k) src)" "length (cstring (drop (length ?k) src)) = length (cstring src) - length ?k"
    using drop_cstring [OF assms(1), of "length ?k"] by simp_all
  have put: "mem_put (splice dst p ?k) (p + length ?k) 0 = Some (splice dst p (?k @ [0]))"
    using assms(2) Suc by (simp add: mem_put_splice splice_splice)
  have "length ?k < Suc k" by simp
  then show ?thesis
    unfolding strlcpy_at_def Suc strlcpy_loop_eq [OF assms(1) assms(2) [unfolded Suc]] Let_def
    using put d by (simp add: strlen_eq truncated_def)
qed

lemma strlcat_loop_eq:
  "p + n \<le> length dst \<Longrightarrow> strlcat_loop dst p n =
     Some (p + length (cstring (take n (drop p dst))), n - length (cstring (take n (drop p dst))))"
proof (induction n arbitrary: p)
  case (Suc n)
  then have "take (Suc n) (drop p dst) = dst ! p # take n (drop (Suc p) dst)"
    by (simp add: Cons_nth_drop_Suc [symmetric])
  then show ?case using Suc by (simp add: mem_at_def)
qed simp

text \<open>\<open>OPENSSL_strlcpy\<close> and \<open>OPENSSL_strlcat\<close> never write outside the first \<open>n\<close> bytes of the destination, truncate what
  does not fit, terminate the result (unless \<open>n\<close> is zero, or the destination of \<open>strlcat\<close> was not terminated),
  and return the length that the untruncated result would have.\<close>

theorem bounded_copies_exact:
  assumes "0 \<in> set src" and "unat n \<le> length dst"
  shows "OPENSSL_strlcpy dst src n = Some (length (cstring src), splice dst 0 (truncated (unat n) (cstring src))) \<and>
    OPENSSL_strlcat dst src n =
      (let d = cstring (take (unat n) dst) in
       Some (length d + length (cstring src), splice dst (length d) (truncated (unat n - length d) (cstring src))))"
proof
  show "OPENSSL_strlcpy dst src n = Some (length (cstring src), splice dst 0 (truncated (unat n) (cstring src)))"
    unfolding OPENSSL_strlcpy_def using assms by (intro strlcpy_at_eq) simp_all
  let ?d = "cstring (take (unat n) dst)"
  have le: "length ?d \<le> unat n" using length_cstring [of "take (unat n) dst"] by simp
  have u: "unat (of_nat (unat n - length ?d) :: size_t) = unat n - length ?d"
    using unat_lt_2p [of n] by (intro unat_of_nat_less) simp
  have "strlcpy_at dst (length ?d) src (of_nat (unat n - length ?d)) =
      Some (length (cstring src), splice dst (length ?d) (truncated (unat n - length ?d) (cstring src)))"
    using strlcpy_at_eq [OF assms(1), of "length ?d" "of_nat (unat n - length ?d)" dst] assms(2) le by (simp only: u)
  then show "OPENSSL_strlcat dst src n =
      (let d = cstring (take (unat n) dst) in
       Some (length d + length (cstring src), splice dst (length d) (truncated (unat n - length d) (cstring src))))"
    using assms(2) strlcat_loop_eq [of 0 "unat n" dst] by (simp add: OPENSSL_strlcat_def Let_def)
qed

theorem bounded_copies_exact_witness:
  "OPENSSL_strlcpy [9, 9, 9, 9] [0x61, 0x62, 0x63, 0] 3 = Some (3, [0x61, 0x62, 0, 9])"
proof -
  have "truncated 3 [0x61, 0x62, 0x63] = [0x61, 0x62, 0]" by (simp add: truncated_def)
  with bounded_copies_exact [of "[0x61, 0x62, 0x63, 0]" 3 "[9, 9, 9, 9]"] show ?thesis by (simp add: splice_def)
qed

section \<open>Comparison without case\<close>

abbreviation lower :: "byte \<Rightarrow> int" where
  "lower c \<equiv> OPENSSL_tolower (sint c)"

lemma lower_eq_0 [simp]: "lower c = 0 \<longleftrightarrow> c = 0"
proof -
  have "sint c = 0 \<longleftrightarrow> c = 0" by (simp add: signed_eq_0_iff)
  then show ?thesis by (auto simp: OPENSSL_tolower_def)
qed

lemma strcasecmp_spec:
  assumes "0 \<in> set a" and "0 \<in> set b"
  shows "\<exists>r. OPENSSL_strcasecmp a b = Some r \<and> OPENSSL_strcasecmp b a = Some (- r) \<and> r \<in> {- 1, 0, 1} \<and>
    (r = 0 \<longleftrightarrow> map lower (cstring a) = map lower (cstring b))"
  using assms
proof (induction a b rule: OPENSSL_strcasecmp.induct)
  case (1 x xs y ys)
  show ?case
  proof (cases "lower x = lower y \<and> x \<noteq> 0")
    case True
    then have "y \<noteq> 0" using lower_eq_0 [of x] lower_eq_0 [of y] by metis
    with True 1 show ?thesis by (auto simp: Let_def)
  next
    case False
    then show ?thesis using lower_eq_0 [of x] lower_eq_0 [of y] by (auto simp: Let_def simp del: lower_eq_0)
  qed
qed auto

lemma strncasecmp_spec:
  assumes "n \<le> length a \<or> 0 \<in> set a" and "n \<le> length b \<or> 0 \<in> set b"
  shows "\<exists>r. OPENSSL_strncasecmp a b n = Some r \<and> r \<in> {- 1, 0, 1} \<and>
    (r = 0 \<longleftrightarrow> map lower (cstring (take n a)) = map lower (cstring (take n b)))"
  using assms
proof (induction a b n rule: OPENSSL_strncasecmp.induct)
  case (2 x xs y ys n)
  show ?case
  proof (cases "lower x = lower y \<and> x \<noteq> 0")
    case True
    then have "y \<noteq> 0" using lower_eq_0 [of x] lower_eq_0 [of y] by metis
    with True 2 show ?thesis by (auto simp: Let_def)
  next
    case False
    then show ?thesis using lower_eq_0 [of x] lower_eq_0 [of y] by (auto simp: Let_def simp del: lower_eq_0)
  qed
qed auto

text \<open>\<open>OPENSSL_strcasecmp\<close> on terminated strings stays inside both of them, returns zero exactly when the strings
  agree up to case, and changes its sign when the arguments are exchanged; \<open>OPENSSL_strncasecmp\<close> returns zero
  exactly when the first \<open>n\<close> characters do, and needs no terminator within them.\<close>

theorem case_compare_exact:
  assumes "0 \<in> set a" and "0 \<in> set b" and "n \<le> length c \<or> 0 \<in> set c" and "n \<le> length d \<or> 0 \<in> set d"
  shows "(\<exists>r. OPENSSL_strcasecmp a b = Some r \<and> OPENSSL_strcasecmp b a = Some (- r) \<and> r \<in> {- 1, 0, 1} \<and>
      (r = 0 \<longleftrightarrow> map lower (cstring a) = map lower (cstring b))) \<and>
    (\<exists>r. OPENSSL_strncasecmp c d n = Some r \<and> r \<in> {- 1, 0, 1} \<and>
      (r = 0 \<longleftrightarrow> map lower (cstring (take n c)) = map lower (cstring (take n d))))"
  using strcasecmp_spec [OF assms(1,2)] strncasecmp_spec [OF assms(3,4)] by blast

theorem case_compare_exact_witness: "OPENSSL_strcasecmp [0x41, 0x62, 0] [0x61, 0x42, 0, 7] = Some 0"
proof -
  have "map lower (cstring [0x41, 0x62, 0]) = map lower (cstring [0x61, 0x42, 0, 7])" by (simp add: OPENSSL_tolower_def)
  then show ?thesis
    using case_compare_exact [of "[0x41, 0x62, 0]" "[0x61, 0x42, 0, 7]" 0 "[]" "[]"] by auto
qed

section \<open>Duplicates\<close>

text \<open>\<open>OPENSSL_strndup\<close> and \<open>CBS_strdup\<close> return a fresh, terminated copy of the string in the first \<open>n\<close> bytes, or fail
  when there is no memory; they read nothing behind these bytes.\<close>

theorem strndup_exact:
  assumes "\<forall>n m. alloc n = Some m \<longrightarrow> length m = unat n" and "unat n \<le> length str"
    and "unat (cbs_len cbs) \<le> length (cbs_data cbs)"
  shows "(OPENSSL_strndup alloc str n = Some None \<or> OPENSSL_strndup alloc str n = Some (Some (cstring (take (unat n) str) @ [0]))) \<and>
    (CBS_strdup alloc cbs = Fail cbs \<or> CBS_strdup alloc cbs = Ok (cstring (take (unat (cbs_len cbs)) (cbs_data cbs)) @ [0]) cbs)"
proof -
  have *: "OPENSSL_strndup alloc str n = Some None \<or> OPENSSL_strndup alloc str n = Some (Some (cstring (take (unat n) str) @ [0]))"
    if le: "unat n \<le> length str" for n str
  proof -
    let ?c = "cstring (take (unat n) str)"
    have l: "length ?c \<le> unat n" using length_cstring [of "take (unat n) str"] by simp
    then have u: "unat (of_nat (length ?c) :: size_t) = length ?c"
      using unat_lt_2p [of n] by (intro unat_of_nat_less) simp
    have c: "take (length ?c) str = ?c"
      using cstring_prefix [of "take (unat n) str"] l by (metis min.absorb1 take_take)
    show ?thesis
    proof (cases "of_nat (length ?c) + 1 < (of_nat (length ?c) :: size_t)")
      case True
      then show ?thesis using strnlen_eq [of "unat n" str] le by (simp add: OPENSSL_strndup_def Let_def)
    next
      case False
      then have u1: "unat (of_nat (length ?c) + 1 :: size_t) = length ?c + 1"
        using u unat_plus_if' [of "of_nat (length ?c) :: size_t" 1] by (auto simp: word_less_nat_alt split: if_splits)
      show ?thesis
      proof (cases "alloc (of_nat (length ?c) + 1)")
        case None
        then show ?thesis using strnlen_eq [of "unat n" str] le False by (simp add: OPENSSL_strndup_def Let_def)
      next
        case (Some ret)
        then have "length ret = length ?c + 1" using assms(1) u1 by metis
        then have "mem_write ret 0 ?c = Some (splice ret 0 ?c)" "mem_put (splice ret 0 ?c) (length ?c) 0 = Some (?c @ [0])"
          by (simp_all add: mem_write_splice mem_put_splice splice_splice) (simp add: splice_def)
        then show ?thesis
          using strnlen_eq [of "unat n" str] le False Some c l u by (simp add: OPENSSL_strndup_def Let_def mem_range_def)
      qed
    qed
  qed
  show ?thesis
    using * [OF assms(2)] * [OF assms(3)] by (auto simp: CBS_strdup_def)
qed

theorem strndup_exact_witness:
  "OPENSSL_strndup (\<lambda>n. Some (replicate (unat n) 7)) [0x61, 0, 0x62] 3 = Some None \<or>
   OPENSSL_strndup (\<lambda>n. Some (replicate (unat n) 7)) [0x61, 0, 0x62] 3 = Some (Some [0x61, 0])"
  using strndup_exact [of "\<lambda>n. Some (replicate (unat n) 7)" 3 "[0x61, 0, 0x62]" "CBS_init [] 0"]
  by (simp add: CBS_init_def)

section \<open>The growable buffer\<close>

lemma unat_numeral_4: "unat (4 :: size_t) = 4"
  by simp

definition buf_mem_ok :: "BUF_MEM \<Rightarrow> bool" where
  "buf_mem_ok b \<longleftrightarrow> length (bdata b) = unat (bmax b) \<and> unat (blen b) \<le> unat (bmax b)"

definition buf_contents :: "BUF_MEM \<Rightarrow> byte list" where
  "buf_contents b = take (unat (blen b)) (bdata b)"

lemma reserve_size:
  assumes "\<not> (c :: size_t) + 3 < c" and "(c + 3) div 3 * 4 div 4 = (c + 3) div 3"
  shows "unat c \<le> unat ((c + 3) div 3 * 4)"
proof -
  have "\<not> 2 ^ 64 \<le> unat c + 3"
  proof
    assume "2 ^ 64 \<le> unat c + 3"
    then have "unat (c + 3) = unat c + 3 - 2 ^ 64" using unat_lt_2p [of c] unat_plus_if' [of c 3] by simp
    with \<open>2 ^ 64 \<le> unat c + 3\<close> assms(1) show False by (simp add: word_less_nat_alt)
  qed
  then have "unat (c + 3) = unat c + 3" by (simp add: unat_add_no_overflow)
  then have d: "unat ((c + 3) div 3) = (unat c + 3) div 3" by (simp add: unat_div)
  then have "unat ((c + 3) div 3 * 4) = 4 * ((unat c + 3) div 3) mod 2 ^ 64" by (simp add: unat_word_ariths mult.commute)
  moreover from this assms(2) d have "4 * ((unat c + 3) div 3) mod 2 ^ 64 div 4 = (unat c + 3) div 3"
    by (metis unat_div unat_numeral_4)
  ultimately show ?thesis by (simp add: unat_eq_0)
qed

lemma BUF_MEM_reserve_spec:
  assumes "\<forall>n m. alloc n = Some m \<longrightarrow> length m = unat n" and "buf_mem_ok b"
  shows "BUF_MEM_reserve alloc b c = Fail b \<or>
    (\<exists>b'. BUF_MEM_reserve alloc b c = Ok () b' \<and> buf_mem_ok b' \<and> buf_contents b' = buf_contents b \<and> blen b' = blen b \<and>
       unat c \<le> unat (bmax b'))"
proof (cases "bmax b \<ge> c")
  case True
  then show ?thesis using assms(2) by (simp add: BUF_MEM_reserve_def word_le_nat_alt)
next
  case False
  let ?n = "(c + 3) div 3"
  show ?thesis
  proof (cases "c + 3 < c \<or> ?n * 4 div 4 \<noteq> ?n \<or> alloc (?n * 4) = None")
    case True
    then show ?thesis using False by (auto simp: BUF_MEM_reserve_def OPENSSL_realloc_def Let_def)
  next
    case ok: False
    then obtain fresh where f: "alloc (?n * 4) = Some fresh" "length fresh = unat (?n * 4)" using assms(1) by auto
    have c: "unat c \<le> unat (?n * 4)" using ok by (intro reserve_size) simp_all
    have lt: "unat (bmax b) < unat c" using False by (simp add: word_le_nat_alt)
    let ?b = "b\<lparr>bdata := take (unat (?n * 4)) (bdata b) @ drop (length (bdata b)) fresh, bmax := ?n * 4\<rparr>"
    have "BUF_MEM_reserve alloc b c = Ok () ?b"
      using False ok f(1) by (simp add: BUF_MEM_reserve_def OPENSSL_realloc_def Let_def)
    moreover have "buf_mem_ok ?b" "buf_contents ?b = buf_contents b"
      using assms(2) f(2) c lt by (simp_all add: buf_mem_ok_def buf_contents_def)
    ultimately show ?thesis using c by simp
  qed
qed

lemma BUF_MEM_append_spec:
  assumes "\<forall>n m. alloc n = Some m \<longrightarrow> length m = unat n" and "buf_mem_ok b" and "unat n \<le> length inp"
  shows "BUF_MEM_append alloc b inp n = Fail b \<or>
    (\<exists>b'. BUF_MEM_append alloc b inp n = Ok () b' \<and> buf_mem_ok b' \<and> buf_contents b' = buf_contents b @ take (unat n) inp)"
proof (cases "n = 0 \<or> blen b + n < n \<or> BUF_MEM_reserve alloc b (blen b + n) = Fail b")
  case True
  then show ?thesis using assms(2) by (auto simp: BUF_MEM_append_def Let_def)
next
  case False
  then obtain b1 where b1: "BUF_MEM_reserve alloc b (blen b + n) = Ok () b1" "buf_mem_ok b1"
      "buf_contents b1 = buf_contents b" "blen b1 = blen b" "unat (blen b + n) \<le> unat (bmax b1)"
    using BUF_MEM_reserve_spec [OF assms(1,2), of "blen b + n"] by blast
  have s: "unat (blen b + n) = unat (blen b) + unat n"
    using False unat_plus_if' [of "blen b" n] unat_lt_2p [of "blen b"] by (auto simp: word_less_nat_alt split: if_splits)
  have room: "unat (blen b) + unat n \<le> length (bdata b1)" using b1(2,5) s by (simp add: buf_mem_ok_def)
  let ?d = "splice (bdata b1) (unat (blen b)) (take (unat n) inp)"
  let ?b = "b1\<lparr>bdata := ?d, blen := blen b + n\<rparr>"
  have "BUF_MEM_append alloc b inp n = Ok () ?b"
    using False b1(1,4) assms(3) room by (simp add: BUF_MEM_append_def Let_def mem_range_def mem_write_splice)
  moreover have "buf_mem_ok ?b" using b1(2,5) assms(3) room by (simp add: buf_mem_ok_def)
  moreover have "buf_contents ?b = buf_contents b @ take (unat n) inp"
    using b1(3,4) assms(3) room take_splice [of "unat (blen b)" "bdata b1" "take (unat n) inp"]
    by (simp add: buf_contents_def s)
  ultimately show ?thesis by blast
qed

lemma BUF_MEM_grow_spec:
  assumes "\<forall>n m. alloc n = Some m \<longrightarrow> length m = unat n" and "buf_mem_ok b"
  shows "BUF_MEM_grow alloc b c = Fail b \<or>
    (\<exists>b'. BUF_MEM_grow alloc b c = Ok c b' \<and> buf_mem_ok b' \<and>
       buf_contents b' = take (unat c) (buf_contents b @ replicate (unat c) 0))"
proof (cases "BUF_MEM_reserve alloc b c = Fail b")
  case True
  then show ?thesis by (simp add: BUF_MEM_grow_def)
next
  case False
  then obtain b1 where b1: "BUF_MEM_reserve alloc b c = Ok () b1" "buf_mem_ok b1"
      "buf_contents b1 = buf_contents b" "blen b1 = blen b" "unat c \<le> unat (bmax b1)"
    using BUF_MEM_reserve_spec [OF assms(1,2), of c] by blast
  have len: "length (bdata b1) = unat (bmax b1)" "unat (blen b) \<le> unat (bmax b1)" "length (buf_contents b) = unat (blen b)"
    using b1(2,4) assms(2) by (simp_all add: buf_mem_ok_def buf_contents_def)
  show ?thesis
  proof (cases "blen b < c")
    case True
    then have sub: "unat (c - blen b) = unat c - unat (blen b)"
      by (intro unat_sub_le) simp
    from True have lt: "unat (blen b) < unat c" by (simp add: word_less_nat_alt)
    let ?d = "splice (bdata b1) (unat (blen b)) (replicate (unat c - unat (blen b)) 0)"
    let ?b = "b1\<lparr>bdata := ?d, blen := c\<rparr>"
    have "BUF_MEM_grow alloc b c = Ok c ?b"
      using b1(1,4,5) True lt len by (simp add: BUF_MEM_grow_def sub mem_write_splice)
    moreover have "buf_mem_ok ?b" using b1(5) len lt by (simp add: buf_mem_ok_def)
    moreover have "buf_contents ?b = buf_contents b @ replicate (unat c - unat (blen b)) 0"
      using take_splice [of "unat (blen b)" "bdata b1" "replicate (unat c - unat (blen b)) 0"] b1(3,4,5) lt len
      by (simp add: buf_contents_def)
    ultimately show ?thesis using len lt by auto
  next
    case small: False
    then have le: "unat c \<le> unat (blen b)" by (simp add: word_less_nat_alt)
    have "take (unat c) (bdata b1) = take (unat c) (bdata b)"
      using arg_cong [OF b1(3), of "take (unat c)"] b1(4) le by (simp add: buf_contents_def min_absorb1)
    then show ?thesis
      using b1 small len le by (auto simp: BUF_MEM_grow_def buf_mem_ok_def buf_contents_def min_absorb1)
  qed
qed

text \<open>The growable buffer is a byte list: appending appends, growing to a length cuts the contents or fills them up
  with zeros, and both fail without any change of the contents when there is no memory or the length overflows;
  nothing is written outside the allocation.\<close>

theorem buf_mem_refines_list:
  assumes "\<forall>n m. alloc n = Some m \<longrightarrow> length m = unat n" and "buf_mem_ok b" and "unat n \<le> length inp"
  shows "(BUF_MEM_append alloc b inp n = Fail b \<or>
      (\<exists>b'. BUF_MEM_append alloc b inp n = Ok () b' \<and> buf_mem_ok b' \<and>
         buf_contents b' = buf_contents b @ take (unat n) inp)) \<and>
    (BUF_MEM_grow alloc b c = Fail b \<or>
      (\<exists>b'. BUF_MEM_grow alloc b c = Ok c b' \<and> buf_mem_ok b' \<and>
         buf_contents b' = take (unat c) (buf_contents b @ replicate (unat c) 0)))"
  using BUF_MEM_append_spec [OF assms] BUF_MEM_grow_spec [OF assms(1,2), of c] by blast

theorem buf_mem_refines_list_witness:
  "BUF_MEM_append (\<lambda>n. Some (replicate (unat n) 7)) \<lparr>blen = 1, bdata = [5, 6], bmax = 2\<rparr> [8, 9] 2 =
     Fail \<lparr>blen = 1, bdata = [5, 6], bmax = 2\<rparr> \<or>
   (\<exists>b'. BUF_MEM_append (\<lambda>n. Some (replicate (unat n) 7)) \<lparr>blen = 1, bdata = [5, 6], bmax = 2\<rparr> [8, 9] 2 = Ok () b' \<and>
      buf_contents b' = [5, 8, 9])"
proof -
  let ?b = "\<lparr>blen = 1, bdata = [5, 6], bmax = 2\<rparr>"
  have "buf_mem_ok ?b" "buf_contents ?b = [5]" by (simp_all add: buf_mem_ok_def buf_contents_def)
  with buf_mem_refines_list [of "\<lambda>n. Some (replicate (unat n) 7)" ?b 2 "[8, 9]"] show ?thesis by auto
qed

end
