(* ===== verification/Lhash.thy ===== *)
theory Lhash
  imports Prelude "HOL-Library.Monad_Syntax" "HOL-Library.Multiset"
begin

text \<open>
  BoringSSL's chained hash table (\<^verbatim>\<open>crypto/lhash/lhash.c\<close>).

  A chain is the list of its items in the order of the \<open>next\<close> pointers; a pointer to a pointer, as \<open>get_next_ptr_and_hash\<close>
  returns it, is the number of the bucket and a position in its chain, the position after the last item being the one that
  holds \<open>NULL\<close>.  The elements (\<open>'d\<close>, non-null pointers in C) belong to the caller, and so do the functions that hash and compare
  them: \<open>call_hash_func\<close> and \<open>call_cmp_func\<close> apply the function pointers stored in the table and yield \<open>None\<close> when they
  read memory they must not read.  \<open>alloc n\<close> tells whether the allocator has \<open>n\<close> bytes.  A result \<open>None\<close> is an access outside of
  an array, a failed assertion or a bad access of a caller's function.
\<close>

section \<open>The tables\<close>

record 'd LHASH_ITEM =
  item_data :: 'd
  item_hash :: u32

record ('h, 'f, 'd) lhash_st =
  num_items :: size_t
  buckets :: "'d LHASH_ITEM list list"
  num_buckets :: size_t
  callback_depth :: u32
  lh_comp :: 'f
  lh_hash :: 'h

type_synonym ('h, 'd) lhash_hash_func_helper = "'h \<Rightarrow> 'd \<Rightarrow> u32 option"
type_synonym ('f, 'd) lhash_cmp_func_helper = "'f \<Rightarrow> 'd \<Rightarrow> 'd \<Rightarrow> int option"

definition kMinNumBuckets :: size_t where "kMinNumBuckets = 16"
definition kMaxAverageChainLength :: size_t where "kMaxAverageChainLength = 2"
definition kMinAverageChainLength :: size_t where "kMinAverageChainLength = 1"

text \<open>\<open>sizeof(_LHASH)\<close> is 48, \<open>sizeof(LHASH_ITEM)\<close> 24 and \<open>sizeof(LHASH_ITEM *)\<close> 8 on the 64-bit platforms of the program.\<close>

definition OPENSSL_lh_new :: "(size_t \<Rightarrow> bool) \<Rightarrow> 'h \<Rightarrow> 'f \<Rightarrow> ('h, 'f, 'd) lhash_st option" where
  "OPENSSL_lh_new alloc hash cmp =
     (if \<not> alloc 48 then None
      else if \<not> alloc (8 * kMinNumBuckets) then None
      else Some \<lparr>num_items = 0, buckets = replicate (unat kMinNumBuckets) [], num_buckets = kMinNumBuckets,
                 callback_depth = 0, lh_comp = cmp, lh_hash = hash\<rparr>)"

definition OPENSSL_lh_num_items :: "('h, 'f, 'd) lhash_st \<Rightarrow> size_t" where
  "OPENSSL_lh_num_items lh = num_items lh"

text \<open>The chain of a hash value in an array of \<open>n\<close> buckets: \<open>hash % n\<close>.\<close>

definition bucket_of :: "u32 \<Rightarrow> size_t \<Rightarrow> nat" where
  "bucket_of h n = unat ((ucast h :: size_t) mod n)"

fun chain_search :: "('d \<Rightarrow> int option) \<Rightarrow> 'd LHASH_ITEM list \<Rightarrow> nat option" where
  "chain_search cmp [] = Some 0"
| "chain_search cmp (cur # next) =
     do { r \<leftarrow> cmp (item_data cur); if r = 0 then Some 0 else map_option Suc (chain_search cmp next) }"

definition get_next_ptr_and_hash ::
  "('h, 'd) lhash_hash_func_helper \<Rightarrow> ('f, 'd) lhash_cmp_func_helper \<Rightarrow> ('h, 'f, 'd) lhash_st \<Rightarrow> 'd \<Rightarrow> (u32 \<times> nat \<times> nat) option" where
  "get_next_ptr_and_hash call_hash_func call_cmp_func lh data =
     do {
       hash \<leftarrow> call_hash_func (lh_hash lh) data;
       let b = bucket_of hash (num_buckets lh);
       chain \<leftarrow> mem_at (buckets lh) b;
       p \<leftarrow> chain_search (\<lambda>d. call_cmp_func (lh_comp lh) d data) chain;
       Some (hash, b, p)
     }"

definition get_next_ptr_by_key :: "('h, 'f, 'd) lhash_st \<Rightarrow> 'q \<Rightarrow> u32 \<Rightarrow> ('q \<Rightarrow> 'd \<Rightarrow> int option) \<Rightarrow> (nat \<times> nat) option" where
  "get_next_ptr_by_key lh key key_hash cmp_key =
     do {
       let b = bucket_of key_hash (num_buckets lh);
       chain \<leftarrow> mem_at (buckets lh) b;
       p \<leftarrow> chain_search (cmp_key key) chain;
       Some (b, p)
     }"

text \<open>\<open>*next_ptr\<close>: the item at a position, or \<open>NULL\<close> behind the last one.\<close>

definition deref_next :: "('h, 'f, 'd) lhash_st \<Rightarrow> nat \<Rightarrow> nat \<Rightarrow> 'd LHASH_ITEM option option" where
  "deref_next lh b p = map_option (\<lambda>chain. mem_at chain p) (mem_at (buckets lh) b)"

definition OPENSSL_lh_retrieve ::
  "('h, 'd) lhash_hash_func_helper \<Rightarrow> ('f, 'd) lhash_cmp_func_helper \<Rightarrow> ('h, 'f, 'd) lhash_st \<Rightarrow> 'd \<Rightarrow> 'd option option" where
  "OPENSSL_lh_retrieve call_hash_func call_cmp_func lh data =
     do {
       (_, b, p) \<leftarrow> get_next_ptr_and_hash call_hash_func call_cmp_func lh data;
       item \<leftarrow> deref_next lh b p;
       Some (map_option item_data item)
     }"

definition OPENSSL_lh_retrieve_key :: "('h, 'f, 'd) lhash_st \<Rightarrow> 'q \<Rightarrow> u32 \<Rightarrow> ('q \<Rightarrow> 'd \<Rightarrow> int option) \<Rightarrow> 'd option option" where
  "OPENSSL_lh_retrieve_key lh key key_hash cmp_key =
     do {
       (b, p) \<leftarrow> get_next_ptr_by_key lh key key_hash cmp_key;
       item \<leftarrow> deref_next lh b p;
       Some (map_option item_data item)
     }"

section \<open>Resizing\<close>

fun rebucket_chain :: "size_t \<Rightarrow> 'd LHASH_ITEM list \<Rightarrow> 'd LHASH_ITEM list list \<Rightarrow> 'd LHASH_ITEM list list option" where
  "rebucket_chain n [] new_buckets = Some new_buckets"
| "rebucket_chain n (cur # next) new_buckets =
     do {
       let new_bucket = bucket_of (item_hash cur) n;
       chain \<leftarrow> mem_at new_buckets new_bucket;
       new_buckets' \<leftarrow> mem_put new_buckets new_bucket (cur # chain);
       rebucket_chain n next new_buckets'
     }"

fun rebucket_loop :: "size_t \<Rightarrow> 'd LHASH_ITEM list list \<Rightarrow> 'd LHASH_ITEM list list \<Rightarrow> 'd LHASH_ITEM list list option" where
  "rebucket_loop n [] new_buckets = Some new_buckets"
| "rebucket_loop n (chain # rest) new_buckets =
     do { new_buckets' \<leftarrow> rebucket_chain n chain new_buckets; rebucket_loop n rest new_buckets' }"

definition lh_rebucket :: "(size_t \<Rightarrow> bool) \<Rightarrow> ('h, 'f, 'd) lhash_st \<Rightarrow> size_t \<Rightarrow> ('h, 'f, 'd) lhash_st option" where
  "lh_rebucket alloc lh new_num_buckets =
     (let alloc_size = 8 * new_num_buckets in
      if alloc_size div 8 \<noteq> new_num_buckets then Some lh
      else if \<not> alloc alloc_size then Some lh
      else do {
        rest \<leftarrow> mem_range (buckets lh) (unat (num_buckets lh));
        new_buckets \<leftarrow> rebucket_loop new_num_buckets rest (replicate (unat new_num_buckets) []);
        Some (lh\<lparr>num_buckets := new_num_buckets, buckets := new_buckets\<rparr>)
      })"

definition lh_maybe_resize :: "(size_t \<Rightarrow> bool) \<Rightarrow> ('h, 'f, 'd) lhash_st \<Rightarrow> ('h, 'f, 'd) lhash_st option" where
  "lh_maybe_resize alloc lh =
     (if callback_depth lh > 0 then Some lh
      else if \<not> num_buckets lh \<ge> kMinNumBuckets then None
      else let avg_chain_length = num_items lh div num_buckets lh in
        if avg_chain_length > kMaxAverageChainLength
        then let new_num_buckets = num_buckets lh * 2 in
          (if new_num_buckets > num_buckets lh then lh_rebucket alloc lh new_num_buckets else Some lh)
        else if avg_chain_length < kMinAverageChainLength \<and> num_buckets lh > kMinNumBuckets
        then let new_num_buckets = num_buckets lh div 2;
                 new_num_buckets = (if new_num_buckets < kMinNumBuckets then kMinNumBuckets else new_num_buckets)
          in lh_rebucket alloc lh new_num_buckets
        else Some lh)"

section \<open>Updates\<close>

text \<open>The result of an insertion: the returned flag, \<open>*old_data\<close> and the table.\<close>

definition OPENSSL_lh_insert ::
  "('h, 'd) lhash_hash_func_helper \<Rightarrow> ('f, 'd) lhash_cmp_func_helper \<Rightarrow> (size_t \<Rightarrow> bool) \<Rightarrow> ('h, 'f, 'd) lhash_st \<Rightarrow> 'd \<Rightarrow>
    (bool \<times> 'd option \<times> ('h, 'f, 'd) lhash_st) option" where
  "OPENSSL_lh_insert call_hash_func call_cmp_func alloc lh data =
     do {
       (hash, b, p) \<leftarrow> get_next_ptr_and_hash call_hash_func call_cmp_func lh data;
       chain \<leftarrow> mem_at (buckets lh) b;
       (case mem_at chain p of
          Some item \<Rightarrow>
            Some (True, Some (item_data item), lh\<lparr>buckets := (buckets lh)[b := chain[p := item\<lparr>item_data := data\<rparr>]]\<rparr>)
        | None \<Rightarrow>
            if \<not> alloc 24 then Some (False, None, lh)
            else do {
              let item = \<lparr>item_data = data, item_hash = hash\<rparr>;
              lh' \<leftarrow> lh_maybe_resize alloc
                (lh\<lparr>buckets := (buckets lh)[b := take p chain @ [item]], num_items := num_items lh + 1\<rparr>);
              Some (True, None, lh')
            })
     }"

definition OPENSSL_lh_delete ::
  "('h, 'd) lhash_hash_func_helper \<Rightarrow> ('f, 'd) lhash_cmp_func_helper \<Rightarrow> (size_t \<Rightarrow> bool) \<Rightarrow> ('h, 'f, 'd) lhash_st \<Rightarrow> 'd \<Rightarrow>
    ('d option \<times> ('h, 'f, 'd) lhash_st) option" where
  "OPENSSL_lh_delete call_hash_func call_cmp_func alloc lh data =
     do {
       (_, b, p) \<leftarrow> get_next_ptr_and_hash call_hash_func call_cmp_func lh data;
       chain \<leftarrow> mem_at (buckets lh) b;
       (case mem_at chain p of
          None \<Rightarrow> Some (None, lh)
        | Some item \<Rightarrow> do {
            lh' \<leftarrow> lh_maybe_resize alloc
              (lh\<lparr>buckets := (buckets lh)[b := take p chain @ drop (Suc p) chain], num_items := num_items lh - 1\<rparr>);
            Some (Some (item_data item), lh')
          })
     }"

text \<open>A callback of \<open>OPENSSL_lh_doall_arg\<close> is a function on the state behind \<open>arg\<close>; it does not change the table.\<close>

definition OPENSSL_lh_doall_arg ::
  "(size_t \<Rightarrow> bool) \<Rightarrow> ('h, 'f, 'd) lhash_st option \<Rightarrow> ('d \<Rightarrow> 's \<Rightarrow> 's) \<Rightarrow> 's \<Rightarrow> ('s \<times> ('h, 'f, 'd) lhash_st option) option" where
  "OPENSSL_lh_doall_arg alloc lh_opt func arg =
     (case lh_opt of
        None \<Rightarrow> Some (arg, None)
      | Some lh \<Rightarrow> do {
          let lh1 = (if callback_depth lh < - 1 then lh\<lparr>callback_depth := callback_depth lh + 1\<rparr> else lh);
          rest \<leftarrow> mem_range (buckets lh1) (unat (num_buckets lh1));
          let arg' = fold (\<lambda>chain s. fold (\<lambda>cur. func (item_data cur)) chain s) rest arg;
          let lh2 = (if callback_depth lh1 < - 1 then lh1\<lparr>callback_depth := callback_depth lh1 - 1\<rparr> else lh1);
          lh3 \<leftarrow> lh_maybe_resize alloc lh2;
          Some (arg', Some lh3)
        })"

end
