(* ===== verification/LhashSpec.thy ===== *)
theory LhashSpec
  imports Lhash
begin

text \<open>
  What the hash table promises to its clients: on good tables the operations succeed, keep the table good and act on the
  finite map from keys to elements.  The laws that a client's hash and comparison functions must obey are the locale
  \<open>lhash_funcs\<close>.
\<close>

section \<open>Lists of chains\<close>

lemma concat_split: "b < length bs \<Longrightarrow> concat bs = concat (take b bs) @ bs ! b @ concat (drop (Suc b) bs)"
  by (metis append_take_drop_id concat.simps(2) concat_append Cons_nth_drop_Suc)

lemma concat_update: "b < length bs \<Longrightarrow> concat (bs[b := c]) = concat (take b bs) @ c @ concat (drop (Suc b) bs)"
  by (simp add: upd_conv_take_nth_drop)

lemma map_of_permute:
  assumes "distinct (map fst xs)" and "mset xs = mset ys"
  shows "map_of xs = map_of ys"
proof -
  have "distinct (map fst ys)" using assms by (metis mset_eq_imp_distinct_iff mset_map)
  then show ?thesis using assms
    by (intro ext) (metis map_of_eq_Some_iff mset_eq_setD not_None_eq)
qed

definition chains_ok :: "size_t \<Rightarrow> 'd LHASH_ITEM list list \<Rightarrow> bool" where
  "chains_ok n bs \<longleftrightarrow> length bs = unat n \<and> (\<forall>b < length bs. \<forall>it \<in> set (bs ! b). bucket_of (item_hash it) n = b)"

lemma bucket_of_less: "0 < n \<Longrightarrow> bucket_of h n < unat n"
  by (simp add: bucket_of_def word_less_nat_alt unat_mod)

lemma chains_ok_replicate: "chains_ok n (replicate (unat n) [])"
  by (simp add: chains_ok_def)

lemma chains_ok_update:
  "chains_ok n bs \<Longrightarrow> b < length bs \<Longrightarrow> (\<And>it. it \<in> set c \<Longrightarrow> bucket_of (item_hash it) n = b) \<Longrightarrow> chains_ok n (bs[b := c])"
  by (auto simp: chains_ok_def nth_list_update)

text \<open>Redistributing the items keeps them all, each in the chain of its hash value.\<close>

lemma rebucket_chain_ok:
  assumes "chains_ok n bs" and "0 < n"
  obtains bs' where "rebucket_chain n items bs = Some bs'" and "chains_ok n bs'"
    and "mset (concat bs') = mset items + mset (concat bs)"
proof -
  have "\<exists>bs'. rebucket_chain n items bs = Some bs' \<and> chains_ok n bs' \<and> mset (concat bs') = mset items + mset (concat bs)"
    using assms(1)
  proof (induction items arbitrary: bs)
    case (Cons cur items)
    let ?b = "bucket_of (item_hash cur) n"
    have b: "?b < length bs" using bucket_of_less [OF assms(2)] Cons.prems by (simp add: chains_ok_def)
    let ?bs = "bs[?b := cur # bs ! ?b]"
    have "chains_ok n ?bs" using Cons.prems b by (auto simp: chains_ok_def nth_list_update)
    then obtain bs' where "rebucket_chain n items ?bs = Some bs'" "chains_ok n bs'"
      "mset (concat bs') = mset items + mset (concat ?bs)" using Cons.IH by blast
    moreover have "mset (concat ?bs) = add_mset cur (mset (concat bs))"
      by (simp add: concat_update [OF b] concat_split [OF b])
    ultimately show ?case using b by (simp add: mem_at_def mem_put_def Let_def)
  qed simp
  then show ?thesis using that by blast
qed

lemma rebucket_loop_ok:
  assumes "chains_ok n bs" and "0 < n"
  obtains bs' where "rebucket_loop n rest bs = Some bs'" and "chains_ok n bs'"
    and "mset (concat bs') = mset (concat rest) + mset (concat bs)"
proof -
  have "\<exists>bs'. rebucket_loop n rest bs = Some bs' \<and> chains_ok n bs' \<and> mset (concat bs') = mset (concat rest) + mset (concat bs)"
    using assms(1)
  proof (induction rest arbitrary: bs)
    case (Cons chain rest)
    obtain bs1 where 1: "rebucket_chain n chain bs = Some bs1" "chains_ok n bs1" "mset (concat bs1) = mset chain + mset (concat bs)"
      by (rule rebucket_chain_ok [OF Cons.prems assms(2)])
    obtain bs2 where "rebucket_loop n rest bs1 = Some bs2" "chains_ok n bs2" "mset (concat bs2) = mset (concat rest) + mset (concat bs1)"
      using Cons.IH [OF 1(2)] by blast
    then show ?case using 1 by (simp add: ac_simps)
  qed simp
  then show ?thesis using that by blast
qed

section \<open>Resizing\<close>

definition lh_struct :: "('h, 'f, 'd) lhash_st \<Rightarrow> bool" where
  "lh_struct lh \<longleftrightarrow> chains_ok (num_buckets lh) (buckets lh) \<and> kMinNumBuckets \<le> num_buckets lh \<and>
     num_items lh = of_nat (length (concat (buckets lh)))"

text \<open>The relation between a table and one with the same items, functions and iteration depth.\<close>

definition same_items :: "('h, 'f, 'd) lhash_st \<Rightarrow> ('h, 'f, 'd) lhash_st \<Rightarrow> bool" where
  "same_items lh lh' \<longleftrightarrow> mset (concat (buckets lh')) = mset (concat (buckets lh)) \<and> lh_hash lh' = lh_hash lh \<and>
     lh_comp lh' = lh_comp lh \<and> callback_depth lh' = callback_depth lh"

lemma lh_rebucket_ok:
  assumes "lh_struct lh" and "kMinNumBuckets \<le> n"
  obtains lh' where "lh_rebucket alloc lh n = Some lh'" and "lh_struct lh'" and "same_items lh lh'"
proof (cases "8 * n div 8 = n \<and> alloc (8 * n)")
  case True
  have n: "0 < n" using assms(2) by (simp add: kMinNumBuckets_def word_le_nat_alt word_less_nat_alt)
  obtain bs where bs: "rebucket_loop n (buckets lh) (replicate (unat n) []) = Some bs" "chains_ok n bs"
    "mset (concat bs) = mset (concat (buckets lh)) + mset (concat (replicate (unat n) []))"
    by (rule rebucket_loop_ok [OF chains_ok_replicate n])
  have m: "mset (concat bs) = mset (concat (buckets lh))" using bs(3) by simp
  then have "length (concat bs) = length (concat (buckets lh))" by (rule mset_eq_length)
  then show ?thesis using that [of "lh\<lparr>num_buckets := n, buckets := bs\<rparr>"] True bs(1,2) assms m
    by (simp add: lh_rebucket_def Let_def mem_range_def lh_struct_def same_items_def chains_ok_def del: length_concat)
next
  case False
  then show ?thesis using that [of lh] assms(1) by (auto simp: lh_rebucket_def Let_def same_items_def)
qed

lemma lh_maybe_resize_ok:
  assumes "lh_struct lh"
  obtains lh' where "lh_maybe_resize alloc lh = Some lh'" and "lh_struct lh'" and "same_items lh lh'"
proof -
  have nb: "kMinNumBuckets \<le> num_buckets lh" using assms by (simp add: lh_struct_def)
  have self: "same_items lh lh" by (simp add: same_items_def)
  define n where "n = (if num_items lh div num_buckets lh > kMaxAverageChainLength then num_buckets lh * 2
    else if num_buckets lh div 2 < kMinNumBuckets then kMinNumBuckets else num_buckets lh div 2)"
  have "lh_maybe_resize alloc lh = Some lh \<or> lh_maybe_resize alloc lh = lh_rebucket alloc lh n \<and> kMinNumBuckets \<le> n"
    using nb by (auto simp: lh_maybe_resize_def Let_def n_def not_less)
  then show ?thesis using that [OF _ assms self] lh_rebucket_ok [OF assms, of n alloc] that by metis
qed

section \<open>Tables as maps\<close>

definition lh_entries :: "('d \<Rightarrow> 'k) \<Rightarrow> 'd LHASH_ITEM list \<Rightarrow> ('k \<times> 'd) list" where
  "lh_entries key items = map (\<lambda>it. (key (item_data it), item_data it)) items"

definition lh_map :: "('d \<Rightarrow> 'k) \<Rightarrow> ('h, 'f, 'd) lhash_st \<Rightarrow> ('k \<rightharpoonup> 'd)" where
  "lh_map key lh = map_of (lh_entries key (concat (buckets lh)))"

definition items_ok :: "('d \<Rightarrow> bool) \<Rightarrow> ('d \<Rightarrow> 'k) \<Rightarrow> ('k \<Rightarrow> u32) \<Rightarrow> 'd LHASH_ITEM list \<Rightarrow> bool" where
  "items_ok live key khash items \<longleftrightarrow> distinct (map (\<lambda>it. key (item_data it)) items) \<and>
     (\<forall>it \<in> set items. live (item_data it) \<and> item_hash it = khash (key (item_data it)))"

definition lh_good :: "'h \<Rightarrow> 'f \<Rightarrow> ('d \<Rightarrow> bool) \<Rightarrow> ('d \<Rightarrow> 'k) \<Rightarrow> ('k \<Rightarrow> u32) \<Rightarrow> ('h, 'f, 'd) lhash_st \<Rightarrow> bool" where
  "lh_good h c live key khash lh \<longleftrightarrow> lh_struct lh \<and> items_ok live key khash (concat (buckets lh)) \<and> lh_hash lh = h \<and> lh_comp lh = c"

lemma lh_entries_simps [simp]:
  "lh_entries key [] = []" "lh_entries key (it # xs) = (key (item_data it), item_data it) # lh_entries key xs"
  "lh_entries key (xs @ ys) = lh_entries key xs @ lh_entries key ys"
  by (simp_all add: lh_entries_def)

lemma fst_lh_entries: "map fst (lh_entries key items) = map (\<lambda>it. key (item_data it)) items"
  by (simp add: lh_entries_def)

lemma lh_entries_None: "map_of (lh_entries key items) k = None \<longleftrightarrow> (\<forall>it \<in> set items. key (item_data it) \<noteq> k)"
  by (simp add: map_of_eq_None_iff lh_entries_def image_image) blast

lemma same_items_good:
  assumes "lh_good h c live key khash lh" and "same_items lh lh'" and "lh_struct lh'"
  shows "lh_good h c live key khash lh'" and "lh_map key lh' = lh_map key lh"
proof -
  let ?x = "concat (buckets lh)" and ?y = "concat (buckets lh')"
  have ok: "items_ok live key khash ?x" and m: "mset ?y = mset ?x" using assms(1,2) by (simp_all add: lh_good_def same_items_def)
  have "mset (map (\<lambda>it. key (item_data it)) ?y) = mset (map (\<lambda>it. key (item_data it)) ?x)" using m by simp
  from mset_eq_imp_distinct_iff [OF this] have "distinct (map (\<lambda>it. key (item_data it)) ?y)"
    using ok by (simp add: items_ok_def)
  then have "items_ok live key khash ?y" using ok mset_eq_setD [OF m] by (simp add: items_ok_def)
  then show "lh_good h c live key khash lh'" using assms by (simp add: lh_good_def same_items_def)
  have "distinct (map fst (lh_entries key ?x))" using ok by (simp add: fst_lh_entries items_ok_def)
  moreover have "mset (lh_entries key ?x) = mset (lh_entries key ?y)" using m by (simp add: lh_entries_def)
  ultimately show "lh_map key lh' = lh_map key lh" using map_of_permute unfolding lh_map_def by metis
qed

text \<open>The table sees the elements only through their keys and hash values.\<close>

lemma lh_good_cong:
  assumes "lh_good h c live key khash lh"
    and "\<And>d. d \<in> ran (lh_map key lh) \<Longrightarrow> live' d \<and> key' d = key d"
  shows "lh_good h c live' key' khash lh" and "lh_map key' lh = lh_map key lh"
proof -
  let ?x = "concat (buckets lh)"
  have ok: "items_ok live key khash ?x" using assms(1) by (simp add: lh_good_def)
  then have "distinct (map fst (lh_entries key ?x))" by (simp add: fst_lh_entries items_ok_def)
  then have "ran (lh_map key lh) = item_data ` set ?x" by (simp add: lh_map_def ran_distinct) (simp add: lh_entries_def image_image)
  then have d: "live' (item_data it)" "key' (item_data it) = key (item_data it)" if "it \<in> set ?x" for it using assms(2) that by auto
  then have e: "map (\<lambda>it. key' (item_data it)) ?x = map (\<lambda>it. key (item_data it)) ?x" by (intro map_cong) simp_all
  have "items_ok live' key' khash ?x" using ok d unfolding items_ok_def e by simp
  then show "lh_good h c live' key' khash lh" using assms(1) by (simp add: lh_good_def)
  have "lh_entries key' ?x = lh_entries key ?x" unfolding lh_entries_def using d(2) by (intro map_cong) simp_all
  then show "lh_map key' lh = lh_map key lh" by (simp add: lh_map_def)
qed

section \<open>The contract\<close>

locale lhash_funcs =
  fixes hashf :: "('h, 'd) lhash_hash_func_helper"
    and cmpf :: "('f, 'd) lhash_cmp_func_helper"
    and h :: 'h
    and c :: 'f
    and live :: "'d \<Rightarrow> bool"
    and key :: "'d \<Rightarrow> 'k"
    and khash :: "'k \<Rightarrow> u32"
  assumes hash_key: "live d \<Longrightarrow> hashf h d = Some (khash (key d))"
    and cmp_key: "live a \<Longrightarrow> live b \<Longrightarrow> \<exists>r. cmpf c a b = Some r \<and> (r = 0 \<longleftrightarrow> key a = key b)"
begin

lemma chain_search_ok:
  assumes "\<forall>it \<in> set items. \<exists>r. cmp (item_data it) = Some r \<and> (r = 0 \<longleftrightarrow> key (item_data it) = k)"
  shows "chain_search cmp items = Some (length (takeWhile (\<lambda>it. key (item_data it) \<noteq> k) items))"
  using assms by (induction items) auto

text \<open>All items with a key are in the chain of its hash value: a search of that chain ends at the item with the key, or behind
  the last one when no item of the table has the key.\<close>

lemma search_chain:
  assumes good: "lh_good h c live key khash lh"
    and cmp: "\<And>d. live d \<Longrightarrow> \<exists>r. cmp d = Some r \<and> (r = 0 \<longleftrightarrow> key d = k)"
  obtains b xs rest where "b = bucket_of (khash k) (num_buckets lh)" and "b < length (buckets lh)" and "buckets lh ! b = xs @ rest"
    and "chain_search cmp (buckets lh ! b) = Some (length xs)"
    and "rest = [] \<and> lh_map key lh k = None \<or> (\<exists>it ys. rest = it # ys \<and> key (item_data it) = k)"
proof -
  let ?b = "bucket_of (khash k) (num_buckets lh)"
  let ?P = "\<lambda>it. key (item_data it) \<noteq> k"
  have nb: "0 < num_buckets lh" using good by (simp add: lh_good_def lh_struct_def kMinNumBuckets_def word_le_nat_alt word_less_nat_alt)
  have len: "length (buckets lh) = unat (num_buckets lh)" using good by (simp add: lh_good_def lh_struct_def chains_ok_def)
  have b: "?b < length (buckets lh)" using bucket_of_less [OF nb] len by simp
  let ?c = "buckets lh ! ?b"
  have sub: "set ?c \<subseteq> set (concat (buckets lh))" using nth_mem [OF b] by auto
  have ok: "items_ok live key khash (concat (buckets lh))" using good by (simp add: lh_good_def)
  have s: "chain_search cmp ?c = Some (length (takeWhile ?P ?c))"
  proof (rule chain_search_ok, rule ballI)
    fix it assume "it \<in> set ?c"
    then have "live (item_data it)" using ok sub unfolding items_ok_def by blast
    then show "\<exists>r. cmp (item_data it) = Some r \<and> (r = 0 \<longleftrightarrow> key (item_data it) = k)" by (rule cmp)
  qed
  have absent: "lh_map key lh k = None" if none: "\<forall>it \<in> set ?c. ?P it"
  proof -
    have "?P it" if it: "it \<in> set (concat (buckets lh))" for it
    proof (rule notI)
      assume k: "key (item_data it) = k"
      obtain i where i: "i < length (buckets lh)" "it \<in> set (buckets lh ! i)" using it by (auto simp: in_set_conv_nth [of _ "buckets lh"])
      then have "bucket_of (item_hash it) (num_buckets lh) = i" using good by (auto simp: lh_good_def lh_struct_def chains_ok_def)
      moreover have "item_hash it = khash k" using ok it k by (simp add: items_ok_def del: set_concat)
      ultimately have "i = ?b" by simp
      with i(2) none k show False by auto
    qed
    then show ?thesis unfolding lh_map_def lh_entries_None by blast
  qed
  show ?thesis
  proof (rule that [OF refl b _ s, of "dropWhile ?P ?c"])
    show "dropWhile ?P ?c = [] \<and> lh_map key lh k = None \<or> (\<exists>it ys. dropWhile ?P ?c = it # ys \<and> key (item_data it) = k)"
    proof (cases "dropWhile ?P ?c")
      case Nil
      then show ?thesis using absent by (simp add: dropWhile_eq_Nil_conv)
    next
      case (Cons it ys)
      then have "key (item_data it) = k" using hd_dropWhile [of ?P ?c] by simp
      then show ?thesis using Cons by simp
    qed
  qed simp
qed

lemma search_ok:
  assumes good: "lh_good h c live key khash lh" and "live d"
  obtains b xs rest where "get_next_ptr_and_hash hashf cmpf lh d = Some (khash (key d), b, length xs)"
    and "b < length (buckets lh)" and "buckets lh ! b = xs @ rest" and "b = bucket_of (khash (key d)) (num_buckets lh)"
    and "rest = [] \<and> lh_map key lh (key d) = None \<or> (\<exists>it ys. rest = it # ys \<and> key (item_data it) = key d)"
proof -
  obtain b xs rest where s: "b = bucket_of (khash (key d)) (num_buckets lh)" "b < length (buckets lh)" "buckets lh ! b = xs @ rest"
      "chain_search (\<lambda>x. cmpf c x d) (buckets lh ! b) = Some (length xs)"
      "rest = [] \<and> lh_map key lh (key d) = None \<or> (\<exists>it ys. rest = it # ys \<and> key (item_data it) = key d)"
    using search_chain [OF good cmp_key [OF _ assms(2)]] by metis
  then show ?thesis using that [of b xs rest] hash_key [OF assms(2)] good
    by (simp add: get_next_ptr_and_hash_def Let_def mem_at_def lh_good_def)
qed

text \<open>The items and the map of a table one of whose chains holds the item with the wanted key.\<close>

lemma found_ok:
  assumes good: "lh_good h c live key khash lh" and b: "b < length (buckets lh)" "buckets lh ! b = xs @ it # ys"
  shows "lh_map key lh (key (item_data it)) = Some (item_data it)"
proof -
  have "distinct (map fst (lh_entries key (concat (buckets lh))))" using good by (simp add: lh_good_def fst_lh_entries items_ok_def)
  moreover have "(key (item_data it), item_data it) \<in> set (lh_entries key (concat (buckets lh)))"
    unfolding concat_split [OF b(1)] b(2) by simp
  ultimately show ?thesis unfolding lh_map_def by simp
qed

lemma deref_found:
  assumes "lh_good h c live key khash lh" and "b < length (buckets lh)" and "buckets lh ! b = xs @ rest"
    and "rest = [] \<and> lh_map key lh k = None \<or> (\<exists>it ys. rest = it # ys \<and> key (item_data it) = k)"
  shows "map_option (map_option item_data) (deref_next lh b (length xs)) = Some (lh_map key lh k)"
  using assms(4)
proof
  assume "\<exists>it ys. rest = it # ys \<and> key (item_data it) = k"
  then obtain it ys where it: "rest = it # ys" "key (item_data it) = k" by blast
  then show ?thesis using found_ok [OF assms(1,2), of xs it ys] assms(2,3) by (simp add: deref_next_def mem_at_def)
qed (use assms(2,3) in \<open>simp add: deref_next_def mem_at_def\<close>)

lemma retrieve_ok:
  assumes "lh_good h c live key khash lh" and "live d"
  shows "OPENSSL_lh_retrieve hashf cmpf lh d = Some (lh_map key lh (key d))"
proof -
  obtain b xs rest where s: "get_next_ptr_and_hash hashf cmpf lh d = Some (khash (key d), b, length xs)"
      "b < length (buckets lh)" "buckets lh ! b = xs @ rest"
      "rest = [] \<and> lh_map key lh (key d) = None \<or> (\<exists>it ys. rest = it # ys \<and> key (item_data it) = key d)"
    using search_ok [OF assms] by metis
  then show ?thesis using deref_found [OF assms(1) s(2-4)] by (auto simp: OPENSSL_lh_retrieve_def)
qed

text \<open>A lookup by a key of another type, given a comparison that agrees with the keys.\<close>

lemma retrieve_key_ok:
  assumes good: "lh_good h c live key khash lh"
    and cmp: "\<And>d. live d \<Longrightarrow> \<exists>r. cmp_key q d = Some r \<and> (r = 0 \<longleftrightarrow> key d = k)"
  shows "OPENSSL_lh_retrieve_key lh q (khash k) cmp_key = Some (lh_map key lh k)"
proof -
  obtain b xs rest where s: "b = bucket_of (khash k) (num_buckets lh)" "b < length (buckets lh)" "buckets lh ! b = xs @ rest"
      "chain_search (cmp_key q) (buckets lh ! b) = Some (length xs)"
      "rest = [] \<and> lh_map key lh k = None \<or> (\<exists>it ys. rest = it # ys \<and> key (item_data it) = k)"
    using search_chain [OF good cmp] by metis
  then show ?thesis using deref_found [OF good s(2,3,5)]
    by (auto simp: OPENSSL_lh_retrieve_key_def get_next_ptr_by_key_def Let_def mem_at_def)
qed

text \<open>Replacing an item by one for the same key, adding an item for a new key, and removing one.\<close>

lemma replace_ok:
  assumes good: "lh_good h c live key khash lh" and b: "b < length (buckets lh)" "buckets lh ! b = xs @ it # ys"
    and d: "live d" "key (item_data it) = key d"
  defines "lh' \<equiv> lh\<lparr>buckets := (buckets lh)[b := xs @ it\<lparr>item_data := d\<rparr> # ys]\<rparr>"
  shows "lh_good h c live key khash lh'" and "lh_map key lh' = (lh_map key lh)(key d \<mapsto> d)"
proof -
  define l r where "l = concat (take b (buckets lh)) @ xs" and "r = ys @ concat (drop (Suc b) (buckets lh))"
  have old: "concat (buckets lh) = l @ it # r" by (simp add: concat_split [OF b(1)] b(2) l_def r_def)
  have new: "concat (buckets lh') = l @ it\<lparr>item_data := d\<rparr> # r" by (simp add: concat_update [OF b(1)] l_def r_def lh'_def)
  have ok: "items_ok live key khash (l @ it # r)" using good old by (simp add: lh_good_def)
  have st: "lh_struct lh" using good by (simp add: lh_good_def)
  have len: "length (concat (buckets lh')) = length (concat (buckets lh))" unfolding old new by simp
  have hsh: "bucket_of (item_hash x) (num_buckets lh) = b" if "x \<in> set (xs @ it # ys)" for x
    using st b that by (simp add: lh_struct_def chains_ok_def)
  have "chains_ok (num_buckets lh) (buckets lh')" unfolding lh'_def using st hsh b(1)
    by (auto simp: lh_struct_def intro!: chains_ok_update)
  then have "lh_struct lh'" using st len by (simp add: lh_struct_def lh'_def del: length_concat)
  moreover have "items_ok live key khash (l @ it\<lparr>item_data := d\<rparr> # r)" using ok d by (simp add: items_ok_def)
  ultimately show "lh_good h c live key khash lh'" using good new by (simp add: lh_good_def lh'_def)
  have "key d \<notin> fst ` set (lh_entries key l)" using ok d(2) by (auto simp: items_ok_def lh_entries_def)
  then have "map_of (lh_entries key l) (key d) = None" by (simp add: map_of_eq_None_iff)
  then show "lh_map key lh' = (lh_map key lh)(key d \<mapsto> d)"
    unfolding lh_map_def old new by (auto simp: fun_eq_iff map_add_def d(2) split: option.splits)
qed

lemma append_ok:
  assumes good: "lh_good h c live key khash lh" and b: "b < length (buckets lh)" "b = bucket_of (khash (key d)) (num_buckets lh)"
    and d: "live d" "lh_map key lh (key d) = None"
  defines "lh' \<equiv> lh\<lparr>buckets := (buckets lh)[b := buckets lh ! b @ [\<lparr>item_data = d, item_hash = khash (key d)\<rparr>]],
    num_items := num_items lh + 1\<rparr>"
  shows "lh_good h c live key khash lh'" and "lh_map key lh' = (lh_map key lh)(key d \<mapsto> d)"
proof -
  let ?it = "\<lparr>item_data = d, item_hash = khash (key d)\<rparr>"
  define l r where "l = concat (take b (buckets lh)) @ buckets lh ! b" and "r = concat (drop (Suc b) (buckets lh))"
  have old: "concat (buckets lh) = l @ r" by (simp add: concat_split [OF b(1)] l_def r_def)
  have new: "concat (buckets lh') = l @ ?it # r" by (simp add: concat_update [OF b(1)] l_def r_def lh'_def)
  have ok: "items_ok live key khash (l @ r)" using good old by (simp add: lh_good_def)
  have st: "lh_struct lh" using good by (simp add: lh_good_def)
  have len: "length (concat (buckets lh')) = Suc (length (concat (buckets lh)))" unfolding old new by simp
  have hsh: "bucket_of (item_hash x) (num_buckets lh) = b" if "x \<in> set (buckets lh ! b @ [?it])" for x
    using st b that by (auto simp: lh_struct_def chains_ok_def)
  have "chains_ok (num_buckets lh) (buckets lh')" unfolding lh'_def using st hsh b(1)
    by (auto simp: lh_struct_def intro!: chains_ok_update)
  then have "lh_struct lh'" using st len by (simp add: lh_struct_def lh'_def del: length_concat)
  moreover have fresh: "key (item_data it) \<noteq> key d" if "it \<in> set (l @ r)" for it
    using d(2) that unfolding lh_map_def old lh_entries_None by blast
  then have "items_ok live key khash (l @ ?it # r)" using ok d(1) by (force simp: items_ok_def)
  ultimately show "lh_good h c live key khash lh'" using good new by (simp add: lh_good_def lh'_def)
  have "map_of (lh_entries key l) (key d) = None" using fresh unfolding lh_entries_None by simp
  then show "lh_map key lh' = (lh_map key lh)(key d \<mapsto> d)"
    unfolding lh_map_def old new by (auto simp: fun_eq_iff map_add_def split: option.splits)
qed

lemma remove_ok:
  assumes good: "lh_good h c live key khash lh" and b: "b < length (buckets lh)" "buckets lh ! b = xs @ it # ys"
  defines "lh' \<equiv> lh\<lparr>buckets := (buckets lh)[b := xs @ ys], num_items := num_items lh - 1\<rparr>"
  shows "lh_good h c live key khash lh'" and "lh_map key lh' = (lh_map key lh)(key (item_data it) := None)"
proof -
  define l r where "l = concat (take b (buckets lh)) @ xs" and "r = ys @ concat (drop (Suc b) (buckets lh))"
  have old: "concat (buckets lh) = l @ it # r" by (simp add: concat_split [OF b(1)] b(2) l_def r_def)
  have new: "concat (buckets lh') = l @ r" by (simp add: concat_update [OF b(1)] l_def r_def lh'_def)
  have ok: "items_ok live key khash (l @ it # r)" using good old by (simp add: lh_good_def)
  have st: "lh_struct lh" using good by (simp add: lh_good_def)
  have len: "length (concat (buckets lh)) = Suc (length (concat (buckets lh')))" unfolding old new by simp
  have hsh: "bucket_of (item_hash x) (num_buckets lh) = b" if "x \<in> set (xs @ ys)" for x
    using st b that by (auto simp: lh_struct_def chains_ok_def)
  have "chains_ok (num_buckets lh) (buckets lh')" unfolding lh'_def using st hsh b(1)
    by (auto simp: lh_struct_def intro!: chains_ok_update)
  then have "lh_struct lh'" using st len by (simp add: lh_struct_def lh'_def del: length_concat)
  moreover have "items_ok live key khash (l @ r)" using ok by (simp add: items_ok_def)
  ultimately show "lh_good h c live key khash lh'" using good new by (simp add: lh_good_def lh'_def)
  have "map_of (lh_entries key (l @ r)) (key (item_data it)) = None"
  proof -
    have "key (item_data it) \<notin> (\<lambda>x. key (item_data x)) ` set (l @ r)" using ok by (simp add: items_ok_def image_Un)
    then show ?thesis unfolding lh_entries_None by (auto simp del: set_append simp: image_iff)
  qed
  then show "lh_map key lh' = (lh_map key lh)(key (item_data it) := None)"
    unfolding lh_map_def old new by (auto simp: fun_eq_iff map_add_def split: option.splits)
qed

lemma resize_ok:
  assumes "lh_good h c live key khash lh"
  obtains lh' where "lh_maybe_resize alloc lh = Some lh'" and "lh_good h c live key khash lh'" and "lh_map key lh' = lh_map key lh"
    and "callback_depth lh' = callback_depth lh"
proof -
  obtain lh' where "lh_maybe_resize alloc lh = Some lh'" "lh_struct lh'" "same_items lh lh'"
    using lh_maybe_resize_ok [of lh] assms by (auto simp: lh_good_def)
  then show ?thesis using that same_items_good [OF assms] by (simp add: same_items_def)
qed

lemma insert_ok:
  assumes good: "lh_good h c live key khash lh" and "live d"
  shows "\<exists>ok old lh'. OPENSSL_lh_insert hashf cmpf alloc lh d = Some (ok, old, lh') \<and> lh_good h c live key khash lh' \<and>
    (if lh_map key lh (key d) = None \<and> \<not> alloc 24 then \<not> ok \<and> old = None \<and> lh' = lh
     else ok \<and> old = lh_map key lh (key d) \<and> lh_map key lh' = (lh_map key lh)(key d \<mapsto> d))"
proof -
  obtain b xs rest where s: "get_next_ptr_and_hash hashf cmpf lh d = Some (khash (key d), b, length xs)"
      "b < length (buckets lh)" "buckets lh ! b = xs @ rest" "b = bucket_of (khash (key d)) (num_buckets lh)"
      "rest = [] \<and> lh_map key lh (key d) = None \<or> (\<exists>it ys. rest = it # ys \<and> key (item_data it) = key d)"
    using search_ok [OF assms] by metis
  from s(5) show ?thesis
  proof
    assume "\<exists>it ys. rest = it # ys \<and> key (item_data it) = key d"
    then obtain it ys where it: "rest = it # ys" "key (item_data it) = key d" by blast
    note b = s(2) s(3) [unfolded it(1)]
    show ?thesis using s(1) b it replace_ok [OF good b assms(2) it(2)] found_ok [OF good b]
      by (auto simp: OPENSSL_lh_insert_def mem_at_def)
  next
    assume new: "rest = [] \<and> lh_map key lh (key d) = None"
    let ?lh = "lh\<lparr>buckets := (buckets lh)[b := buckets lh ! b @ [\<lparr>item_data = d, item_hash = khash (key d)\<rparr>]], num_items := num_items lh + 1\<rparr>"
    note a = append_ok [OF good s(2,4) assms(2) conjunct2 [OF new]]
    obtain lh' where "lh_maybe_resize alloc ?lh = Some lh'" "lh_good h c live key khash lh'" "lh_map key lh' = lh_map key ?lh"
      using resize_ok [OF a(1), of alloc] by metis
    then show ?thesis using s(1-3) new a(2) good by (auto simp: OPENSSL_lh_insert_def mem_at_def)
  qed
qed

lemma delete_ok:
  assumes good: "lh_good h c live key khash lh" and "live d"
  shows "\<exists>lh'. OPENSSL_lh_delete hashf cmpf alloc lh d = Some (lh_map key lh (key d), lh') \<and> lh_good h c live key khash lh' \<and>
    lh_map key lh' = (lh_map key lh)(key d := None)"
proof -
  obtain b xs rest where s: "get_next_ptr_and_hash hashf cmpf lh d = Some (khash (key d), b, length xs)"
      "b < length (buckets lh)" "buckets lh ! b = xs @ rest" "b = bucket_of (khash (key d)) (num_buckets lh)"
      "rest = [] \<and> lh_map key lh (key d) = None \<or> (\<exists>it ys. rest = it # ys \<and> key (item_data it) = key d)"
    using search_ok [OF assms] by metis
  from s(5) show ?thesis
  proof
    assume "\<exists>it ys. rest = it # ys \<and> key (item_data it) = key d"
    then obtain it ys where it: "rest = it # ys" "key (item_data it) = key d" by blast
    note b = s(2) s(3) [unfolded it(1)]
    let ?lh = "lh\<lparr>buckets := (buckets lh)[b := xs @ ys], num_items := num_items lh - 1\<rparr>"
    note a = remove_ok [OF good b]
    obtain lh' where "lh_maybe_resize alloc ?lh = Some lh'" "lh_good h c live key khash lh'" "lh_map key lh' = lh_map key ?lh"
      using resize_ok [OF a(1), of alloc] by metis
    then show ?thesis using s(1) b it a(2) found_ok [OF good b] by (simp add: OPENSSL_lh_delete_def mem_at_def)
  next
    assume new: "rest = [] \<and> lh_map key lh (key d) = None"
    then have "(lh_map key lh)(key d := None) = lh_map key lh" by (simp add: fun_eq_iff)
    then show ?thesis using s(1-3) new good by (simp add: OPENSSL_lh_delete_def mem_at_def)
  qed
qed

lemma new_ok:
  assumes "OPENSSL_lh_new alloc h c = Some lh"
  shows "lh_good h c live key khash lh" and "lh_map key lh = Map.empty"
  using assms chains_ok_replicate [of kMinNumBuckets]
  by (auto simp: OPENSSL_lh_new_def lh_good_def lh_struct_def items_ok_def lh_map_def split: if_splits)

text \<open>The number of items, modulo the range of the counter, and the elements that an iteration visits.\<close>

lemma num_items_ok:
  assumes "lh_good h c live key khash lh"
  shows "OPENSSL_lh_num_items lh = of_nat (card (dom (lh_map key lh)))"
proof -
  let ?e = "lh_entries key (concat (buckets lh))"
  have d: "distinct (map fst ?e)" using assms by (simp add: lh_good_def fst_lh_entries items_ok_def)
  have "card (dom (map_of ?e)) = length (map fst ?e)" using distinct_card [OF d] by (simp add: dom_map_of_conv_image_fst)
  then show ?thesis using assms by (simp add: OPENSSL_lh_num_items_def lh_map_def lh_good_def lh_struct_def lh_entries_def del: length_concat)
qed

lemma doall_ok:
  assumes good: "lh_good h c live key khash lh"
  shows "\<exists>lh' ds. OPENSSL_lh_doall_arg alloc (Some lh) func arg = Some (fold func ds arg, Some lh') \<and>
    lh_good h c live key khash lh' \<and> lh_map key lh' = lh_map key lh \<and> distinct ds \<and> set ds = ran (lh_map key lh)"
proof -
  have len: "length (buckets lh) = unat (num_buckets lh)" using good by (simp add: lh_good_def lh_struct_def chains_ok_def)
  have depth: "lh_good h c live key khash (lh\<lparr>callback_depth := n\<rparr>)" "lh_map key (lh\<lparr>callback_depth := n\<rparr>) = lh_map key lh" for n
    using good by (simp_all add: lh_good_def lh_struct_def lh_map_def)
  let ?items = "concat (buckets lh)" and ?lh1 = "if callback_depth lh < - 1 then lh\<lparr>callback_depth := callback_depth lh + 1\<rparr> else lh"
  let ?lh2 = "if callback_depth ?lh1 < - 1 then ?lh1\<lparr>callback_depth := callback_depth ?lh1 - 1\<rparr> else ?lh1"
  have g2: "lh_good h c live key khash ?lh2" "lh_map key ?lh2 = lh_map key lh" using good depth by auto
  obtain lh3 where r: "lh_maybe_resize alloc ?lh2 = Some lh3" "lh_good h c live key khash lh3" "lh_map key lh3 = lh_map key lh"
    using resize_ok [OF g2(1), of alloc] g2(2) by metis
  have f: "fold (\<lambda>chain s. fold (\<lambda>cur. func (item_data cur)) chain s) bs s = fold func (map item_data (concat bs)) s" for bs s
    by (induction bs arbitrary: s) (simp_all add: fold_map comp_def)
  have "distinct (map (\<lambda>it. key (item_data it)) ?items)" using good by (simp add: lh_good_def items_ok_def)
  then have "distinct (map item_data ?items)" "ran (lh_map key lh) = set (map item_data ?items)"
    using distinct_map [of key "map item_data ?items"] ran_distinct [of "lh_entries key ?items"]
    by (simp_all add: comp_def fst_lh_entries lh_map_def) (simp add: lh_entries_def image_image)
  moreover have "OPENSSL_lh_doall_arg alloc (Some lh) func arg = Some (fold func (map item_data ?items) arg, Some lh3)"
    using r(1) len by (simp add: OPENSSL_lh_doall_arg_def mem_range_def Let_def f)
  ultimately show ?thesis using r(2,3) by metis
qed

end

end
