(* ===== verification/LhashProps.thy ===== *)
theory LhashProps
  imports LhashSpec
begin

text \<open>
  The property of BoringSSL's hash tables: whatever the sequence of updates, and however the allocator behaves on each of them, the
  table is the finite map that the same updates make.
\<close>

datatype 'd lh_op = LhInsert "size_t \<Rightarrow> bool" 'd | LhDelete "size_t \<Rightarrow> bool" 'd

fun lh_run :: "('h, 'd) lhash_hash_func_helper \<Rightarrow> ('f, 'd) lhash_cmp_func_helper \<Rightarrow> ('h, 'f, 'd) lhash_st \<Rightarrow> 'd lh_op list \<Rightarrow>
    ('h, 'f, 'd) lhash_st option" where
  "lh_run hashf cmpf lh [] = Some lh"
| "lh_run hashf cmpf lh (LhInsert alloc d # ops) =
     do { (_, _, lh') \<leftarrow> OPENSSL_lh_insert hashf cmpf alloc lh d; lh_run hashf cmpf lh' ops }"
| "lh_run hashf cmpf lh (LhDelete alloc d # ops) =
     do { (_, lh') \<leftarrow> OPENSSL_lh_delete hashf cmpf alloc lh d; lh_run hashf cmpf lh' ops }"

text \<open>An insertion without memory for the new item changes nothing; replacing an element needs no memory.\<close>

fun lh_apply :: "('d \<Rightarrow> 'k) \<Rightarrow> 'd lh_op \<Rightarrow> ('k \<rightharpoonup> 'd) \<Rightarrow> ('k \<rightharpoonup> 'd)" where
  "lh_apply key (LhInsert alloc d) m = (if m (key d) = None \<and> \<not> alloc 24 then m else m(key d \<mapsto> d))"
| "lh_apply key (LhDelete alloc d) m = m(key d := None)"

context lhash_funcs
begin

lemma run_ok:
  assumes "lh_good h c live key khash lh" and "\<forall>alloc d. LhInsert alloc d \<in> set ops \<or> LhDelete alloc d \<in> set ops \<longrightarrow> live d"
  shows "\<exists>lh'. lh_run hashf cmpf lh ops = Some lh' \<and> lh_good h c live key khash lh' \<and>
    lh_map key lh' = fold (lh_apply key) ops (lh_map key lh)"
  using assms
proof (induction ops arbitrary: lh)
  case (Cons op ops)
  show ?case
  proof (cases op)
    case (LhInsert alloc d)
    then have "live d" using Cons.prems(2) by auto
    then obtain ok old lh' where i: "OPENSSL_lh_insert hashf cmpf alloc lh d = Some (ok, old, lh')" "lh_good h c live key khash lh'"
        "lh_map key lh' = lh_apply key op (lh_map key lh)"
      using insert_ok [OF Cons.prems(1), of d alloc] LhInsert by (auto split: if_splits)
    then show ?thesis using Cons.IH [OF i(2)] Cons.prems(2) LhInsert by (auto simp del: fun_upd_apply)
  next
    case (LhDelete alloc d)
    then have "live d" using Cons.prems(2) by auto
    then obtain r lh' where i: "OPENSSL_lh_delete hashf cmpf alloc lh d = Some (r, lh')" "lh_good h c live key khash lh'"
        "lh_map key lh' = lh_apply key op (lh_map key lh)"
      using delete_ok [OF Cons.prems(1), of d alloc] LhDelete by auto
    then show ?thesis using Cons.IH [OF i(2)] Cons.prems(2) LhDelete by (auto simp del: fun_upd_apply)
  qed
qed simp

end

text \<open>(C10) The hash table implements finite maps: for functions that compare and hash the elements by their keys, every sequence of insertions
  and deletions on a new table succeeds, whatever the allocator does (each operation may resize the table or fail to), and then
  \<open>OPENSSL_lh_retrieve\<close> and \<open>OPENSSL_lh_delete\<close> return the element that the abstract map has for the key,
  \<open>OPENSSL_lh_num_items\<close> counts the entries, and \<open>OPENSSL_lh_doall_arg\<close> calls its function on every element exactly once.\<close>

theorem lhash_refines_map:
  fixes hashf :: "('h, 'd) lhash_hash_func_helper" and cmpf :: "('f, 'd) lhash_cmp_func_helper"
  assumes hash: "\<And>d. hashf h d = Some (khash (key d))"
    and cmp: "\<And>a b. \<exists>r. cmpf c a b = Some r \<and> (r = 0 \<longleftrightarrow> key a = key b)"
    and new: "OPENSSL_lh_new alloc h c = Some lh"
  shows "\<exists>lh' m. m = fold (lh_apply key) ops Map.empty \<and> lh_run hashf cmpf lh ops = Some lh' \<and>
    (\<forall>d. OPENSSL_lh_retrieve hashf cmpf lh' d = Some (m (key d))) \<and>
    (\<forall>alloc d. \<exists>lh''. OPENSSL_lh_delete hashf cmpf alloc lh' d = Some (m (key d), lh'')) \<and>
    OPENSSL_lh_num_items lh' = of_nat (card (dom m)) \<and>
    (\<forall>alloc (func :: 'd \<Rightarrow> 's \<Rightarrow> 's) arg. \<exists>ds lh''. OPENSSL_lh_doall_arg alloc (Some lh') func arg = Some (fold func ds arg, Some lh'') \<and>
       distinct ds \<and> set ds = ran m)"
proof -
  have L: "lhash_funcs hashf cmpf h c (\<lambda>_. True) key khash" by unfold_locales (simp_all add: hash cmp)
  have g: "lh_good h c (\<lambda>_. True) key khash lh" "lh_map key lh = Map.empty" by (rule lhash_funcs.new_ok [OF L new])+
  obtain lh' where r: "lh_run hashf cmpf lh ops = Some lh'" "lh_good h c (\<lambda>_. True) key khash lh'"
      "lh_map key lh' = fold (lh_apply key) ops Map.empty"
    using lhash_funcs.run_ok [OF L g(1), of ops] g(2) by auto
  have "OPENSSL_lh_retrieve hashf cmpf lh' d = Some (lh_map key lh' (key d))" for d
    using lhash_funcs.retrieve_ok [OF L r(2)] by simp
  moreover have "\<exists>lh''. OPENSSL_lh_delete hashf cmpf alloc lh' d = Some (lh_map key lh' (key d), lh'')" for alloc d
    using lhash_funcs.delete_ok [OF L r(2), where d = d and alloc = alloc] by auto
  moreover have "OPENSSL_lh_num_items lh' = of_nat (card (dom (lh_map key lh')))" by (rule lhash_funcs.num_items_ok [OF L r(2)])
  moreover have "\<exists>ds lh''. OPENSSL_lh_doall_arg alloc (Some lh') func arg = Some (fold func ds arg, Some lh'') \<and>
       distinct ds \<and> set ds = ran (lh_map key lh')" for alloc and func :: "'d \<Rightarrow> 's \<Rightarrow> 's" and arg
    using lhash_funcs.doall_ok [OF L r(2), where alloc = alloc and func = func and arg = arg] by blast
  ultimately show ?thesis using r(1,3) by metis
qed

theorem lhash_refines_map_witness:
  "\<exists>lh lh'. OPENSSL_lh_new (\<lambda>_. True) () () = Some lh \<and>
    lh_run (\<lambda>_ d. Some (ucast d)) (\<lambda>_ a b. Some (if a = b then 0 else 1)) lh [LhInsert (\<lambda>_. True) 5, LhInsert (\<lambda>_. True) (6 :: byte), LhDelete (\<lambda>_. True) 5] = Some lh' \<and>
    OPENSSL_lh_retrieve (\<lambda>_ d. Some (ucast d)) (\<lambda>_ a b. Some (if a = b then 0 else 1)) lh' 6 = Some (Some 6)"
proof -
  obtain lh :: "(unit, unit, byte) lhash_st" where lh: "OPENSSL_lh_new (\<lambda>_. True) () () = Some lh" by (simp add: OPENSSL_lh_new_def)
  have h: "(\<lambda>_ d. Some (ucast d)) () d = Some (ucast (id (d :: byte)) :: u32)" for d by simp
  have c: "\<exists>r. (\<lambda>_ a b. Some (if a = b then 0 else 1 :: int)) () a b = Some r \<and> (r = 0 \<longleftrightarrow> id (a :: byte) = id b)" for a b by simp
  have m: "fold (lh_apply id) [LhInsert (\<lambda>_. True) 5, LhInsert (\<lambda>_. True) 6, LhDelete (\<lambda>_. True) (5 :: byte)] Map.empty 6 = Some 6"
    by simp
  show ?thesis using lh lhash_refines_map [of "\<lambda>_ d. Some (ucast d)" "()" ucast id "\<lambda>_ a b. Some (if a = b then 0 else 1)" "()", OF h c lh,
      of "[LhInsert (\<lambda>_. True) 5, LhInsert (\<lambda>_. True) (6 :: byte), LhDelete (\<lambda>_. True) 5]"] m by (metis id_apply)
qed

end
