(* ===== verification/Pool.thy ===== *)
theory Pool
  imports LhashSpec MemStr
begin

text \<open>
  BoringSSL's reference counts (\<^verbatim>\<open>crypto/refcount_c11.c\<close>) and its pools of shared buffers (\<^verbatim>\<open>crypto/pool/pool.c\<close>).

  The memory holds the \<open>CRYPTO_BUFFER\<close> objects by address; a freed object has no entry, and reading one is the result
  \<open>None\<close>, as are \<open>abort\<close> and a failed assertion.  The model follows one pool, so the \<open>pool\<close> pointer of a buffer is a flag.  The
  contents of a buffer are kept in the object: nobody writes them once the buffer is made.  Addresses of new
  objects are arguments; \<open>alloc i n\<close> tells whether the \<open>i\<close>-th request of a call, for \<open>n\<close> bytes, succeeds.  A
  compare-and-exchange loop that fails reloads the counter and tries again, so each counter operation is one
  step.
\<close>

section \<open>Reference counts\<close>

definition CRYPTO_REFCOUNT_MAX :: u32 where "CRYPTO_REFCOUNT_MAX = 0xffffffff"

definition CRYPTO_refcount_inc :: "u32 \<Rightarrow> u32" where
  "CRYPTO_refcount_inc cnt = (if cnt \<noteq> CRYPTO_REFCOUNT_MAX then cnt + 1 else cnt)"

definition CRYPTO_refcount_dec_and_test_zero :: "u32 \<Rightarrow> (bool \<times> u32) option" where
  "CRYPTO_refcount_dec_and_test_zero cnt =
     (if cnt = 0 then None
      else if cnt = CRYPTO_REFCOUNT_MAX then Some (False, cnt)
      else Some (cnt - 1 = 0, cnt - 1))"

section \<open>Buffers\<close>

record crypto_buffer_st =
  in_pool :: bool
  buf_data :: "byte list option"
  buf_len :: size_t
  references :: u32
  data_is_static :: bool

record crypto_buffer_pool_st =
  objs :: "nat \<rightharpoonup> crypto_buffer_st"
  bufs :: "(unit, unit, nat) lhash_st"

text \<open>The memory behind a data pointer, \<open>None\<close> being \<open>NULL\<close>.\<close>

definition data_mem :: "byte list option \<Rightarrow> byte list" where
  "data_mem d = (case d of None \<Rightarrow> [] | Some m \<Rightarrow> m)"

definition OPENSSL_memcmp :: "byte list \<Rightarrow> byte list \<Rightarrow> nat \<Rightarrow> int option" where
  "OPENSSL_memcmp s1 s2 n =
     (if n = 0 then Some 0 else do { xs \<leftarrow> mem_range s1 n; ys \<leftarrow> mem_range s2 n; Some (memcmp_list xs ys) })"

definition CRYPTO_BUFFER_hash :: "(nat \<rightharpoonup> crypto_buffer_st) \<Rightarrow> nat \<Rightarrow> u32 option" where
  "CRYPTO_BUFFER_hash m p = do { buf \<leftarrow> m p; OPENSSL_hash32 (data_mem (buf_data buf)) (unat (buf_len buf)) }"

definition CRYPTO_BUFFER_cmp :: "(nat \<rightharpoonup> crypto_buffer_st) \<Rightarrow> nat \<Rightarrow> nat \<Rightarrow> int option" where
  "CRYPTO_BUFFER_cmp m p q =
     do {
       a \<leftarrow> m p;
       b \<leftarrow> m q;
       if buf_len a \<noteq> buf_len b then Some 1
       else OPENSSL_memcmp (data_mem (buf_data a)) (data_mem (buf_data b)) (unat (buf_len a))
     }"

text \<open>The instances of the table functions for buffers.\<close>

definition lh_CRYPTO_BUFFER_retrieve :: "(nat \<rightharpoonup> crypto_buffer_st) \<Rightarrow> (unit, unit, nat) lhash_st \<Rightarrow> nat \<Rightarrow> nat option option" where
  "lh_CRYPTO_BUFFER_retrieve m = OPENSSL_lh_retrieve (\<lambda>_. CRYPTO_BUFFER_hash m) (\<lambda>_. CRYPTO_BUFFER_cmp m)"

definition lh_CRYPTO_BUFFER_insert :: "(nat \<rightharpoonup> crypto_buffer_st) \<Rightarrow> (size_t \<Rightarrow> bool) \<Rightarrow> (unit, unit, nat) lhash_st \<Rightarrow> nat \<Rightarrow>
    (bool \<times> nat option \<times> (unit, unit, nat) lhash_st) option" where
  "lh_CRYPTO_BUFFER_insert m = OPENSSL_lh_insert (\<lambda>_. CRYPTO_BUFFER_hash m) (\<lambda>_. CRYPTO_BUFFER_cmp m)"

definition lh_CRYPTO_BUFFER_delete :: "(nat \<rightharpoonup> crypto_buffer_st) \<Rightarrow> (size_t \<Rightarrow> bool) \<Rightarrow> (unit, unit, nat) lhash_st \<Rightarrow> nat \<Rightarrow>
    (nat option \<times> (unit, unit, nat) lhash_st) option" where
  "lh_CRYPTO_BUFFER_delete m = OPENSSL_lh_delete (\<lambda>_. CRYPTO_BUFFER_hash m) (\<lambda>_. CRYPTO_BUFFER_cmp m)"

text \<open>\<open>sizeof(CRYPTO_BUFFER_POOL)\<close> depends on the platform's mutex; a new pool has no buffers, so the memory starts empty.\<close>

definition CRYPTO_BUFFER_POOL_new :: "bool \<Rightarrow> (size_t \<Rightarrow> bool) \<Rightarrow> (nat \<rightharpoonup> crypto_buffer_st) \<Rightarrow> crypto_buffer_pool_st option" where
  "CRYPTO_BUFFER_POOL_new alloc_pool alloc m =
     (if \<not> alloc_pool then None
      else (case OPENSSL_lh_new alloc () () of
              None \<Rightarrow> None
            | Some table \<Rightarrow> Some \<lparr>objs = m, bufs = table\<rparr>))"

definition CRYPTO_BUFFER_POOL_free :: "crypto_buffer_pool_st option \<Rightarrow> unit option" where
  "CRYPTO_BUFFER_POOL_free pool =
     (case pool of None \<Rightarrow> Some () | Some w \<Rightarrow> if OPENSSL_lh_num_items (bufs w) = 0 then Some () else None)"

definition crypto_buffer_free_object :: "crypto_buffer_pool_st \<Rightarrow> nat \<Rightarrow> crypto_buffer_pool_st option" where
  "crypto_buffer_free_object w p = do { _ \<leftarrow> objs w p; Some (w\<lparr>objs := (objs w)(p := None)\<rparr>) }"

definition CRYPTO_BUFFER_up_ref :: "crypto_buffer_pool_st \<Rightarrow> nat \<Rightarrow> crypto_buffer_pool_st option" where
  "CRYPTO_BUFFER_up_ref w p =
     do {
       buf \<leftarrow> objs w p;
       Some (w\<lparr>objs := (objs w)(p \<mapsto> buf\<lparr>references := CRYPTO_refcount_inc (references buf)\<rparr>)\<rparr>)
     }"

section \<open>Making a buffer\<close>

text \<open>A duplicate with copied data does not do for a buffer of static data.\<close>

definition keep_duplicate :: "(nat \<rightharpoonup> crypto_buffer_st) \<Rightarrow> bool \<Rightarrow> nat option \<Rightarrow> nat option option" where
  "keep_duplicate m static duplicate =
     (case duplicate of
        None \<Rightarrow> Some None
      | Some d \<Rightarrow> do { buf \<leftarrow> m d; Some (if static \<and> \<not> data_is_static buf then None else Some d) })"

text \<open>The section under the read lock.  \<open>tmp\<close> is a local variable, live during the lookup only; the lookup reads its data and
  length.\<close>

definition buffer_new_lookup :: "nat \<Rightarrow> crypto_buffer_pool_st \<Rightarrow> byte list option \<Rightarrow> size_t \<Rightarrow> bool \<Rightarrow>
    (nat option \<times> crypto_buffer_pool_st) option" where
  "buffer_new_lookup tmp w data len static =
     do {
       let m = (objs w)(tmp \<mapsto> \<lparr>in_pool = False, buf_data = data, buf_len = len, references = 0, data_is_static = False\<rparr>);
       found \<leftarrow> lh_CRYPTO_BUFFER_retrieve m (bufs w) tmp;
       duplicate \<leftarrow> keep_duplicate m static found;
       (case duplicate of
          None \<Rightarrow> Some (None, w)
        | Some d \<Rightarrow> do { w' \<leftarrow> CRYPTO_BUFFER_up_ref w d; Some (Some d, w') })
     }"

text \<open>The new object, at address \<open>new\<close>; false when there is no memory.\<close>

definition buffer_new_object :: "(nat \<Rightarrow> size_t \<Rightarrow> bool) \<Rightarrow> nat \<Rightarrow> crypto_buffer_pool_st \<Rightarrow> byte list option \<Rightarrow> size_t \<Rightarrow> bool \<Rightarrow> bool \<Rightarrow>
    (bool \<times> crypto_buffer_pool_st) option" where
  "buffer_new_object alloc new w data len static pool =
     (if \<not> alloc 0 32 then Some (False, w)
      else do {
        copy \<leftarrow> (if static then Some data else OPENSSL_memdup (\<lambda>n. alloc 1 (of_nat n)) (data_mem data) (unat len));
        if \<not> static \<and> len \<noteq> 0 \<and> copy = None then Some (False, w)
        else Some (True, w\<lparr>objs := (objs w)(new \<mapsto>
          \<lparr>in_pool = pool, buf_data = copy, buf_len = len, references = 1, data_is_static = static\<rparr>)\<rparr>)
      })"

text \<open>The section under the write lock and the return.\<close>

definition buffer_new_publish :: "(nat \<Rightarrow> size_t \<Rightarrow> bool) \<Rightarrow> crypto_buffer_pool_st \<Rightarrow> nat \<Rightarrow> bool \<Rightarrow>
    (nat option \<times> crypto_buffer_pool_st) option" where
  "buffer_new_publish alloc w new static =
     do {
       found \<leftarrow> lh_CRYPTO_BUFFER_retrieve (objs w) (bufs w) new;
       duplicate \<leftarrow> keep_duplicate (objs w) static found;
       (case duplicate of
          None \<Rightarrow> do {
            (inserted, _, table) \<leftarrow> lh_CRYPTO_BUFFER_insert (objs w) (alloc 2) (bufs w) new;
            if inserted then Some (Some new, w\<lparr>bufs := table\<rparr>)
            else do { w' \<leftarrow> crypto_buffer_free_object (w\<lparr>bufs := table\<rparr>) new; Some (None, w') }
          }
        | Some d \<Rightarrow> do {
            w' \<leftarrow> CRYPTO_BUFFER_up_ref w d;
            w'' \<leftarrow> crypto_buffer_free_object w' new;
            Some (Some d, w'')
          })
     }"

definition crypto_buffer_new :: "(nat \<Rightarrow> size_t \<Rightarrow> bool) \<Rightarrow> nat \<Rightarrow> nat \<Rightarrow> crypto_buffer_pool_st \<Rightarrow> byte list option \<Rightarrow> size_t \<Rightarrow> bool \<Rightarrow> bool \<Rightarrow>
    (nat option \<times> crypto_buffer_pool_st) option" where
  "crypto_buffer_new alloc tmp new w data len static pool =
     do {
       (duplicate, w1) \<leftarrow> (if pool then buffer_new_lookup tmp w data len static else Some (None, w));
       if duplicate \<noteq> None then Some (duplicate, w1)
       else do {
         (ok, w2) \<leftarrow> buffer_new_object alloc new w1 data len static pool;
         if \<not> ok then Some (None, w2)
         else if \<not> pool then Some (Some new, w2)
         else buffer_new_publish alloc w2 new static
       }
     }"

definition CRYPTO_BUFFER_new where
  "CRYPTO_BUFFER_new alloc tmp new w data len pool = crypto_buffer_new alloc tmp new w data len False pool"

definition CRYPTO_BUFFER_new_from_static_data_unsafe where
  "CRYPTO_BUFFER_new_from_static_data_unsafe alloc tmp new w data len pool = crypto_buffer_new alloc tmp new w data len True pool"

definition CRYPTO_BUFFER_new_from_CBS where
  "CRYPTO_BUFFER_new_from_CBS alloc tmp new w cbs pool = CRYPTO_BUFFER_new alloc tmp new w (Some (CBS_data cbs)) (CBS_len cbs) pool"

text \<open>A buffer without a pool whose \<open>len\<close> bytes of memory, \<open>fresh\<close>, the caller fills in through \<open>*out_data\<close>.\<close>

definition CRYPTO_BUFFER_alloc :: "(nat \<Rightarrow> size_t \<Rightarrow> bool) \<Rightarrow> nat \<Rightarrow> byte list \<Rightarrow> crypto_buffer_pool_st \<Rightarrow> size_t \<Rightarrow>
    (nat option \<times> crypto_buffer_pool_st)" where
  "CRYPTO_BUFFER_alloc alloc new fresh w len =
     (if \<not> alloc 0 32 then (None, w)
      else let data = (if alloc 1 len then Some fresh else None) in
        if len \<noteq> 0 \<and> data = None then (None, w)
        else (Some new, w\<lparr>objs := (objs w)(new \<mapsto>
          \<lparr>in_pool = False, buf_data = data, buf_len = len, references = 1, data_is_static = False\<rparr>)\<rparr>))"

section \<open>Dropping a reference\<close>

definition CRYPTO_BUFFER_free :: "(size_t \<Rightarrow> bool) \<Rightarrow> crypto_buffer_pool_st \<Rightarrow> nat option \<Rightarrow> crypto_buffer_pool_st option" where
  "CRYPTO_BUFFER_free alloc w p_opt =
     (case p_opt of
        None \<Rightarrow> Some w
      | Some p \<Rightarrow> do {
          buf \<leftarrow> objs w p;
          (zero, cnt) \<leftarrow> CRYPTO_refcount_dec_and_test_zero (references buf);
          let w1 = w\<lparr>objs := (objs w)(p \<mapsto> buf\<lparr>references := cnt\<rparr>)\<rparr>;
          if \<not> zero then Some w1
          else if \<not> in_pool buf then crypto_buffer_free_object w1 p
          else do {
            found \<leftarrow> lh_CRYPTO_BUFFER_retrieve (objs w1) (bufs w1) p;
            w2 \<leftarrow> (if found = Some p
                  then do {
                    (found', table) \<leftarrow> lh_CRYPTO_BUFFER_delete (objs w1) alloc (bufs w1) p;
                    if found' = Some p then Some (w1\<lparr>bufs := table\<rparr>) else None
                  }
                  else Some w1);
            crypto_buffer_free_object w2 p
          }
        })"

definition CRYPTO_BUFFER_data :: "crypto_buffer_pool_st \<Rightarrow> nat \<Rightarrow> byte list option option" where
  "CRYPTO_BUFFER_data w p = map_option buf_data (objs w p)"

definition CRYPTO_BUFFER_len :: "crypto_buffer_pool_st \<Rightarrow> nat \<Rightarrow> size_t option" where
  "CRYPTO_BUFFER_len w p = map_option buf_len (objs w p)"

definition CRYPTO_BUFFER_init_CBS :: "crypto_buffer_pool_st \<Rightarrow> nat \<Rightarrow> CBS option" where
  "CRYPTO_BUFFER_init_CBS w p = map_option (\<lambda>buf. CBS_init (data_mem (buf_data buf)) (buf_len buf)) (objs w p)"

section \<open>The pool under concurrent use\<close>

text \<open>
  Threads interleave between the sections of \<open>crypto_buffer_new\<close>, each of which runs under the lock of the pool.  \<open>pending\<close> are the
  objects of threads that have missed in the first section and not yet entered the second; \<open>owned a\<close> counts the references
  to \<open>a\<close> that callers hold.  A caller drops or duplicates only references it holds.
\<close>

record pool_system =
  mem :: crypto_buffer_pool_st
  pending :: "nat set"
  owned :: "nat \<Rightarrow> nat"

definition own :: "nat option \<Rightarrow> (nat \<Rightarrow> nat) \<Rightarrow> nat \<Rightarrow> nat" where
  "own r f = (case r of None \<Rightarrow> f | Some a \<Rightarrow> f(a := Suc (f a)))"

definition data_ok :: "byte list option \<Rightarrow> size_t \<Rightarrow> bool" where
  "data_ok data len \<longleftrightarrow> unat len \<le> length (data_mem data)"

inductive pool_step :: "pool_system \<Rightarrow> pool_system \<Rightarrow> bool" where
  lookup_hit: "objs (mem s) tmp = None \<Longrightarrow> data_ok data len \<Longrightarrow>
    buffer_new_lookup tmp (mem s) data len static = Some (Some d, w) \<Longrightarrow>
    pool_step s (s\<lparr>mem := w, owned := own (Some d) (owned s)\<rparr>)"
| new_object: "objs (mem s) new = None \<Longrightarrow> data_ok data len \<Longrightarrow>
    buffer_new_object alloc new (mem s) data len static True = Some (True, w) \<Longrightarrow>
    pool_step s (s\<lparr>mem := w, pending := insert new (pending s)\<rparr>)"
| publish: "new \<in> pending s \<Longrightarrow> objs (mem s) new = Some b \<Longrightarrow>
    buffer_new_publish alloc (mem s) new (data_is_static b) = Some (r, w) \<Longrightarrow>
    pool_step s (s\<lparr>mem := w, pending := pending s - {new}, owned := own r (owned s)\<rparr>)"
| new_private: "objs (mem s) new = None \<Longrightarrow> data_ok data len \<Longrightarrow>
    buffer_new_object alloc new (mem s) data len static False = Some (True, w) \<Longrightarrow>
    pool_step s (s\<lparr>mem := w, owned := own (Some new) (owned s)\<rparr>)"
| alloc_private: "objs (mem s) new = None \<Longrightarrow> length fresh = unat len \<Longrightarrow>
    CRYPTO_BUFFER_alloc alloc new fresh (mem s) len = (Some new, w) \<Longrightarrow>
    pool_step s (s\<lparr>mem := w, owned := own (Some new) (owned s)\<rparr>)"
| up_ref: "0 < owned s p \<Longrightarrow> CRYPTO_BUFFER_up_ref (mem s) p = Some w \<Longrightarrow>
    pool_step s (s\<lparr>mem := w, owned := own (Some p) (owned s)\<rparr>)"
| free: "0 < owned s p \<Longrightarrow> CRYPTO_BUFFER_free alloc (mem s) (Some p) = Some w \<Longrightarrow>
    pool_step s (s\<lparr>mem := w, owned := (owned s)(p := owned s p - 1)\<rparr>)"

inductive pool_reachable :: "pool_system \<Rightarrow> bool" where
  start: "CRYPTO_BUFFER_POOL_new alloc_pool alloc Map.empty = Some w \<Longrightarrow>
    pool_reachable \<lparr>mem = w, pending = {}, owned = (\<lambda>_. 0)\<rparr>"
| step: "pool_reachable s \<Longrightarrow> pool_step s s' \<Longrightarrow> pool_reachable s'"

end
