(* ===== verification/PoolSafe.thy ===== *)
theory PoolSafe
  imports Pool
begin

text \<open>
  The hash table of a pool obeys its contract with the functions on buffers, and the invariant of a pool under concurrent use:
  the table holds live buffers only, and every counter is the number of references that are held, unless it is
  saturated.
\<close>

section \<open>Buffers as elements of the table\<close>

definition buf_live :: "(nat \<rightharpoonup> crypto_buffer_st) \<Rightarrow> nat \<Rightarrow> bool" where
  "buf_live m p \<longleftrightarrow> (\<exists>b. m p = Some b \<and> data_ok (buf_data b) (buf_len b))"

definition buf_bytes :: "(nat \<rightharpoonup> crypto_buffer_st) \<Rightarrow> nat \<Rightarrow> byte list" where
  "buf_bytes m p = (case m p of None \<Rightarrow> [] | Some b \<Rightarrow> take (unat (buf_len b)) (data_mem (buf_data b)))"

definition hash_bytes :: "byte list \<Rightarrow> u32" where
  "hash_bytes bs = fold (\<lambda>b h. (h XOR ucast b) * 16777619) bs 2166136261"

lemma memcmp_list_eq: "length xs = length ys \<Longrightarrow> memcmp_list xs ys = 0 \<longleftrightarrow> xs = ys"
  by (induction xs ys rule: memcmp_list.induct) auto

interpretation buffers: lhash_funcs "\<lambda>_. CRYPTO_BUFFER_hash m" "\<lambda>_. CRYPTO_BUFFER_cmp m" "()" "()" "buf_live m" "buf_bytes m" hash_bytes
  for m
proof unfold_locales
  fix d assume "buf_live m d"
  then show "CRYPTO_BUFFER_hash m d = Some (hash_bytes (buf_bytes m d))"
    by (auto simp: buf_live_def data_ok_def CRYPTO_BUFFER_hash_def OPENSSL_hash32_def mem_range_def hash_bytes_def buf_bytes_def)
next
  fix a b assume "buf_live m a" and "buf_live m b"
  then obtain x y where m: "m a = Some x" "m b = Some y" "unat (buf_len x) \<le> length (data_mem (buf_data x))"
      "unat (buf_len y) \<le> length (data_mem (buf_data y))" by (auto simp: buf_live_def data_ok_def)
  show "\<exists>r. CRYPTO_BUFFER_cmp m a b = Some r \<and> (r = 0 \<longleftrightarrow> buf_bytes m a = buf_bytes m b)"
  proof (cases "buf_len x = buf_len y")
    case True
    then show ?thesis using m memcmp_list_eq [of "take (unat (buf_len y)) (data_mem (buf_data x))" "take (unat (buf_len y)) (data_mem (buf_data y))"]
      by (auto simp: CRYPTO_BUFFER_cmp_def OPENSSL_memcmp_def mem_range_def buf_bytes_def)
  next
    case False
    then have "unat (buf_len x) \<noteq> unat (buf_len y)" by (simp add: word_unat_eq_iff)
    then have "length (buf_bytes m a) \<noteq> length (buf_bytes m b)" using m by (simp add: buf_bytes_def)
    then have "buf_bytes m a \<noteq> buf_bytes m b" by metis
    then show ?thesis using m(1,2) False by (simp add: CRYPTO_BUFFER_cmp_def)
  qed
qed

text \<open>The map from contents to buffers that a pool stands for.\<close>

definition pool_table :: "crypto_buffer_pool_st \<Rightarrow> (byte list \<rightharpoonup> nat)" where
  "pool_table w = lh_map (buf_bytes (objs w)) (bufs w)"

definition table_good :: "crypto_buffer_pool_st \<Rightarrow> bool" where
  "table_good w \<longleftrightarrow> lh_good () () (buf_live (objs w)) (buf_bytes (objs w)) hash_bytes (bufs w)"

lemma pool_table_key:
  assumes "pool_table w k = Some a"
  shows "buf_bytes (objs w) a = k"
  using map_of_SomeD [OF assms [unfolded pool_table_def lh_map_def]] by (auto simp: lh_entries_def)

lemma pool_table_ran: "a \<in> ran (pool_table w) \<Longrightarrow> pool_table w (buf_bytes (objs w) a) = Some a"
  using pool_table_key by (fastforce simp: ran_def)

lemma table_live:
  assumes "table_good w" and "a \<in> ran (pool_table w)"
  shows "buf_live (objs w) a"
proof -
  obtain k where "pool_table w k = Some a" using assms(2) by (auto simp: ran_def)
  then have "(k, a) \<in> set (lh_entries (buf_bytes (objs w)) (concat (buckets (bufs w))))"
    unfolding pool_table_def lh_map_def by (rule map_of_SomeD)
  then show ?thesis using assms(1) by (auto simp: lh_entries_def table_good_def lh_good_def items_ok_def)
qed

text \<open>A change of the memory that leaves the buffers of the table alone leaves the table alone.\<close>

lemma table_cong:
  assumes "table_good w" and "\<And>a. a \<in> ran (pool_table w) \<Longrightarrow> buf_live m a \<and> buf_bytes m a = buf_bytes (objs w) a"
  shows "lh_good () () (buf_live m) (buf_bytes m) hash_bytes (bufs w)" and "lh_map (buf_bytes m) (bufs w) = pool_table w"
  using lh_good_cong [OF assms(1) [unfolded table_good_def], of "buf_live m" "buf_bytes m"] assms(2)
  unfolding pool_table_def by blast+

lemma table_update:
  assumes "table_good w" and "\<And>a. a \<in> ran (pool_table w) \<Longrightarrow> buf_live m a \<and> buf_bytes m a = buf_bytes (objs w) a"
  shows "table_good (w\<lparr>objs := m\<rparr>)" and "pool_table (w\<lparr>objs := m\<rparr>) = pool_table w"
  using table_cong [OF assms] by (simp_all add: table_good_def pool_table_def)

lemma table_update_off:
  assumes "table_good w" and "p \<notin> ran (pool_table w)"
  shows "table_good (w\<lparr>objs := (objs w)(p := x)\<rparr>)" and "pool_table (w\<lparr>objs := (objs w)(p := x)\<rparr>) = pool_table w"
proof -
  have "buf_live ((objs w)(p := x)) a \<and> buf_bytes ((objs w)(p := x)) a = buf_bytes (objs w) a" if "a \<in> ran (pool_table w)" for a
  proof -
    have "a \<noteq> p" using assms(2) that by metis
    then show ?thesis using table_live [OF assms(1) that] by (simp add: buf_live_def buf_bytes_def)
  qed
  then show "table_good (w\<lparr>objs := (objs w)(p := x)\<rparr>)" "pool_table (w\<lparr>objs := (objs w)(p := x)\<rparr>) = pool_table w"
    using table_update [OF assms(1)] by blast+
qed

lemma count_view:
  assumes "m p = Some b"
  shows "buf_live (m(p \<mapsto> b\<lparr>references := n\<rparr>)) = buf_live m" and "buf_bytes (m(p \<mapsto> b\<lparr>references := n\<rparr>)) = buf_bytes m"
  using assms by (auto simp: buf_live_def buf_bytes_def fun_eq_iff)

lemma table_count:
  assumes "table_good w" and "objs w p = Some b"
  shows "table_good (w\<lparr>objs := (objs w)(p \<mapsto> b\<lparr>references := n\<rparr>)\<rparr>)" and "pool_table (w\<lparr>objs := (objs w)(p \<mapsto> b\<lparr>references := n\<rparr>)\<rparr>) = pool_table w"
  using assms(1) count_view [of "objs w" p b n, OF assms(2)] by (simp_all add: table_good_def pool_table_def)

lemma retrieve_table:
  assumes "table_good w" and "buf_live (objs w) p"
  shows "lh_CRYPTO_BUFFER_retrieve (objs w) (bufs w) p = Some (pool_table w (buf_bytes (objs w) p))"
  using buffers.retrieve_ok [OF assms(1) [unfolded table_good_def] assms(2)] by (simp add: lh_CRYPTO_BUFFER_retrieve_def pool_table_def)

section \<open>The invariant\<close>

definition counted :: "u32 \<Rightarrow> nat \<Rightarrow> bool" where
  "counted c n \<longleftrightarrow> c = CRYPTO_REFCOUNT_MAX \<or> unat c = n"

definition pool_inv :: "pool_system \<Rightarrow> bool" where
  "pool_inv s \<longleftrightarrow> table_good (mem s) \<and>
     (\<forall>a \<in> ran (pool_table (mem s)). a \<notin> pending s \<and> (\<exists>b. objs (mem s) a = Some b \<and> in_pool b)) \<and>
     (\<forall>a b. objs (mem s) a = Some b \<longrightarrow> data_ok (buf_data b) (buf_len b) \<and> references b \<noteq> 0 \<and>
        (if a \<in> pending s then in_pool b \<and> references b = 1 \<and> owned s a = 0 else counted (references b) (owned s a))) \<and>
     (\<forall>a. a \<in> pending s \<or> 0 < owned s a \<longrightarrow> objs (mem s) a \<noteq> None)"

lemma counted_inc: "counted c n \<Longrightarrow> counted (CRYPTO_refcount_inc c) (Suc n) \<and> CRYPTO_refcount_inc c \<noteq> 0"
proof (cases "c = CRYPTO_REFCOUNT_MAX")
  case False
  moreover assume "counted c n"
  moreover have "unat (c + 1) = Suc (unat c)"
  proof -
    have "1 + c \<noteq> 0" using False by (auto simp: CRYPTO_REFCOUNT_MAX_def add_eq_0_iff)
    then show ?thesis using unatSuc [of c] by (simp add: add.commute)
  qed
  ultimately show ?thesis by (auto simp: counted_def CRYPTO_refcount_inc_def)
qed (simp add: counted_def CRYPTO_refcount_inc_def CRYPTO_REFCOUNT_MAX_def)

text \<open>Dropping a held reference: the counter does not underflow, and reaches zero with the last reference only.\<close>

lemma counted_dec:
  assumes "counted c n" and "c \<noteq> 0" and "0 < n"
  obtains (last) "CRYPTO_refcount_dec_and_test_zero c = Some (True, 0)" and "n = 1"
  | (more) c' where "CRYPTO_refcount_dec_and_test_zero c = Some (False, c')" and "c' \<noteq> 0" and "counted c' (n - 1)"
proof (cases "c = CRYPTO_REFCOUNT_MAX")
  case True
  then show ?thesis using more [of c] by (simp add: CRYPTO_refcount_dec_and_test_zero_def CRYPTO_REFCOUNT_MAX_def counted_def)
next
  case False
  then have n: "unat c = n" using assms(1) by (simp add: counted_def)
  have "unat (c - 1) = n - 1" using assms(2) n by (simp add: unat_minus_one)
  then show ?thesis using last more [of "c - 1"] False assms(2,3) n
    by (cases "c - 1 = 0") (auto simp: CRYPTO_refcount_dec_and_test_zero_def counted_def unat_eq_0 [symmetric])
qed

text \<open>The parts of the invariant.\<close>

lemma pool_invI:
  assumes "table_good (mem s)"
    and "\<And>a. a \<in> ran (pool_table (mem s)) \<Longrightarrow> a \<notin> pending s \<and> (\<exists>b. objs (mem s) a = Some b \<and> in_pool b)"
    and "\<And>a b. objs (mem s) a = Some b \<Longrightarrow> data_ok (buf_data b) (buf_len b) \<and> references b \<noteq> 0 \<and>
      (if a \<in> pending s then in_pool b \<and> references b = 1 \<and> owned s a = 0 else counted (references b) (owned s a))"
    and "\<And>a. a \<in> pending s \<or> 0 < owned s a \<Longrightarrow> objs (mem s) a \<noteq> None"
  shows "pool_inv s"
  using assms unfolding pool_inv_def by blast

lemma inv_table: "pool_inv s \<Longrightarrow> table_good (mem s)"
  by (simp add: pool_inv_def)

lemma inv_ran: "pool_inv s \<Longrightarrow> a \<in> ran (pool_table (mem s)) \<Longrightarrow> a \<notin> pending s \<and> (\<exists>b. objs (mem s) a = Some b \<and> in_pool b)"
  unfolding pool_inv_def by blast

lemma inv_obj:
  "pool_inv s \<Longrightarrow> objs (mem s) a = Some b \<Longrightarrow> data_ok (buf_data b) (buf_len b) \<and> references b \<noteq> 0 \<and>
    (if a \<in> pending s then in_pool b \<and> references b = 1 \<and> owned s a = 0 else counted (references b) (owned s a))"
  unfolding pool_inv_def by blast

lemma inv_held: "pool_inv s \<Longrightarrow> a \<in> pending s \<or> 0 < owned s a \<Longrightarrow> objs (mem s) a \<noteq> None"
  unfolding pool_inv_def by blast

text \<open>One object changes, and nothing but this object enters the table: what has to be shown of the object.\<close>

lemma inv_change_table:
  assumes "pool_inv s" and "table_good w" and "ran (pool_table w) \<subseteq> insert p (ran (pool_table (mem s)))"
    and "objs w = (objs (mem s))(p := x)"
    and "\<And>a. a \<noteq> p \<Longrightarrow> f a = owned s a \<and> (a \<in> P \<longleftrightarrow> a \<in> pending s)"
    and "p \<in> ran (pool_table w) \<Longrightarrow> p \<notin> P \<and> (\<exists>b. x = Some b \<and> in_pool b)"
    and "\<And>b. x = Some b \<Longrightarrow> data_ok (buf_data b) (buf_len b) \<and> references b \<noteq> 0 \<and>
      (if p \<in> P then in_pool b \<and> references b = 1 \<and> f p = 0 else counted (references b) (f p))"
    and "x = None \<Longrightarrow> p \<notin> P \<and> f p = 0"
  shows "pool_inv (s\<lparr>mem := w, pending := P, owned := f\<rparr>)"
proof (rule pool_invI, goal_cases)
  case 1
  then show ?case using assms(2) by simp
next
  case (2 a)
  then show ?case using inv_ran [OF assms(1), of a] assms(3) assms(5) [of a] assms(6) by (cases "a = p") (auto simp: assms(4))
next
  case (3 a b)
  then show ?case using inv_obj [OF assms(1), of a b] assms(5) [of a] assms(7) [of b] by (cases "a = p") (simp_all add: assms(4))
next
  case (4 a)
  then show ?case using assms(5) [of a] assms(8) inv_held [OF assms(1), of a] by (cases "a = p"; cases x) (auto simp: assms(4))
qed

lemma inv_change:
  assumes "pool_inv s" and "table_good w" and "pool_table w = pool_table (mem s)" and "objs w = (objs (mem s))(p := x)"
    and "\<And>a. a \<noteq> p \<Longrightarrow> f a = owned s a \<and> (a \<in> P \<longleftrightarrow> a \<in> pending s)"
    and "p \<in> ran (pool_table (mem s)) \<Longrightarrow> p \<notin> P \<and> (\<exists>b. x = Some b \<and> in_pool b)"
    and "\<And>b. x = Some b \<Longrightarrow> data_ok (buf_data b) (buf_len b) \<and> references b \<noteq> 0 \<and>
      (if p \<in> P then in_pool b \<and> references b = 1 \<and> f p = 0 else counted (references b) (f p))"
    and "x = None \<Longrightarrow> p \<notin> P \<and> f p = 0"
  shows "pool_inv (s\<lparr>mem := w, pending := P, owned := f\<rparr>)"
  by (rule inv_change_table [OF assms(1,2) _ assms(4)]) (use assms(3,5-8) in auto)

lemma up_ref_inv:
  assumes "pool_inv s" and "objs (mem s) p = Some b" and "p \<notin> pending s"
  obtains w where "CRYPTO_BUFFER_up_ref (mem s) p = Some w" and "pool_inv (s\<lparr>mem := w, owned := own (Some p) (owned s)\<rparr>)"
    and "pool_table w = pool_table (mem s)" and "objs w = (objs (mem s))(p \<mapsto> b\<lparr>references := CRYPTO_refcount_inc (references b)\<rparr>)"
    and "bufs w = bufs (mem s)"
proof -
  let ?w = "(mem s)\<lparr>objs := (objs (mem s))(p \<mapsto> b\<lparr>references := CRYPTO_refcount_inc (references b)\<rparr>)\<rparr>"
  note t = table_count [OF inv_table [OF assms(1)] assms(2), of "CRYPTO_refcount_inc (references b)"]
  note b = inv_obj [OF assms(1,2)]
  have "pool_inv (s\<lparr>mem := ?w, pending := pending s, owned := own (Some p) (owned s)\<rparr>)"
    by (rule inv_change [OF assms(1) t, of p "Some (b\<lparr>references := CRYPTO_refcount_inc (references b)\<rparr>)"])
       (use b assms(2,3) counted_inc [of "references b" "owned s p"] inv_ran [OF assms(1), of p] in \<open>auto simp: own_def\<close>)
  then show ?thesis using that [of ?w] t assms(2) by (simp add: CRYPTO_BUFFER_up_ref_def)
qed

text \<open>A new object, and the end of an object that nobody has seen.\<close>

lemma new_object_inv:
  assumes "pool_inv s" and "objs (mem s) p = None" and "data_ok (buf_data b) (buf_len b)" and "references b = 1"
    and "pl \<Longrightarrow> in_pool b"
  shows "pool_inv (s\<lparr>mem := (mem s)\<lparr>objs := (objs (mem s))(p \<mapsto> b)\<rparr>,
    pending := (if pl then insert p (pending s) else pending s),
    owned := (if pl then owned s else own (Some p) (owned s))\<rparr>)"
proof -
  have off: "p \<notin> ran (pool_table (mem s))" using inv_ran [OF assms(1), of p] assms(2) by auto
  have "p \<notin> pending s" "owned s p = 0" using inv_held [OF assms(1), of p] assms(2) by auto
  then show ?thesis
    by (intro inv_change [OF assms(1) table_update_off [OF inv_table [OF assms(1)] off, of "Some b"], of p "Some b"])
       (use off assms(3-5) in \<open>auto simp: own_def counted_def\<close>)
qed

lemma drop_pending_inv:
  assumes "pool_inv s" and "p \<in> pending s"
  obtains w where "crypto_buffer_free_object (mem s) p = Some w" and "pool_inv (s\<lparr>mem := w, pending := pending s - {p}\<rparr>)"
    and "objs w = (objs (mem s))(p := None)" and "pool_table w = pool_table (mem s)"
proof -
  let ?w = "(mem s)\<lparr>objs := (objs (mem s))(p := None)\<rparr>"
  obtain b where b: "objs (mem s) p = Some b" using inv_held [OF assms(1), of p] assms(2) by auto
  have o: "owned s p = 0" using inv_obj [OF assms(1) b] assms(2) by simp
  have off: "p \<notin> ran (pool_table (mem s))" using inv_ran [OF assms(1), of p] assms(2) by auto
  have "pool_inv (s\<lparr>mem := ?w, pending := pending s - {p}, owned := owned s\<rparr>)"
    by (intro inv_change [OF assms(1) table_update_off [OF inv_table [OF assms(1)] off, of None], of p None]) (use off o in auto)
  then show ?thesis using that [of ?w] b table_update_off(2) [OF inv_table [OF assms(1)] off, of None]
    by (simp add: crypto_buffer_free_object_def)
qed

section \<open>The operations\<close>

lemma keep_duplicate_ok:
  assumes "\<And>d. dup = Some d \<Longrightarrow> m d \<noteq> None"
  obtains r where "keep_duplicate m static dup = Some r" and "r = None \<or> r = dup"
  using assms by (cases dup) (auto simp: keep_duplicate_def split: if_splits)

lemma lookup_inv:
  assumes "pool_inv s" and "objs (mem s) tmp = None" and "data_ok data len"
  obtains (miss) "buffer_new_lookup tmp (mem s) data len static = Some (None, mem s)"
    and "\<And>d. pool_table (mem s) (take (unat len) (data_mem data)) = Some d \<Longrightarrow>
      static \<and> (\<exists>b. objs (mem s) d = Some b \<and> \<not> data_is_static b)"
  | (hit) d w b where "buffer_new_lookup tmp (mem s) data len static = Some (Some d, w)" and "pool_table (mem s) (take (unat len) (data_mem data)) = Some d"
    and "objs (mem s) d = Some b" and "static \<longrightarrow> data_is_static b"
    and "pool_inv (s\<lparr>mem := w, owned := own (Some d) (owned s)\<rparr>)" and "buf_bytes (objs w) = buf_bytes (objs (mem s))"
    and "pool_table w = pool_table (mem s)"
proof -
  let ?bs = "take (unat len) (data_mem data)"
  let ?m = "(objs (mem s))(tmp \<mapsto> \<lparr>in_pool = False, buf_data = data, buf_len = len, references = 0, data_is_static = False\<rparr>)"
  note good = inv_table [OF assms(1)]
  have off: "tmp \<notin> ran (pool_table (mem s))" using inv_ran [OF assms(1), of tmp] assms(2) by auto
  note t = table_update_off [OF good off, of "?m tmp"]
  have "buf_live ?m tmp" using assms(3) by (simp add: buf_live_def)
  moreover have "buf_bytes ?m tmp = ?bs" by (simp add: buf_bytes_def)
  ultimately have r: "lh_CRYPTO_BUFFER_retrieve ?m (bufs (mem s)) tmp = Some (pool_table (mem s) ?bs)"
    using retrieve_table [OF t(1), of tmp] t(2) by simp
  show ?thesis
  proof (cases "pool_table (mem s) ?bs")
    case None
    then show ?thesis using miss r by (simp add: buffer_new_lookup_def keep_duplicate_def Let_def)
  next
    case (Some d)
    then have ran: "d \<in> ran (pool_table (mem s))" by (auto simp: ran_def)
    then obtain b where b: "objs (mem s) d = Some b" "d \<notin> pending s" using inv_ran [OF assms(1)] by blast
    have nt: "d \<noteq> tmp" using off ran by auto
    obtain w where w: "CRYPTO_BUFFER_up_ref (mem s) d = Some w" "pool_inv (s\<lparr>mem := w, owned := own (Some d) (owned s)\<rparr>)"
      "objs w = (objs (mem s))(d \<mapsto> b\<lparr>references := CRYPTO_refcount_inc (references b)\<rparr>)" "pool_table w = pool_table (mem s)"
      by (rule up_ref_inv [OF assms(1) b])
    have v: "buf_bytes (objs w) = buf_bytes (objs (mem s))" unfolding w(3) by (rule count_view(2) [of "objs (mem s)" d b, OF b(1)])
    show ?thesis
    proof (cases "static \<and> \<not> data_is_static b")
      case True
      then show ?thesis using miss r Some b nt by (simp add: buffer_new_lookup_def keep_duplicate_def Let_def)
    next
      case False
      then show ?thesis using hit [of d w b] r Some b nt w v by (auto simp: buffer_new_lookup_def keep_duplicate_def Let_def)
    qed
  qed
qed

lemma buf_bytes_off: "a \<noteq> p \<Longrightarrow> buf_bytes (m(p := x)) a = buf_bytes m a"
  by (simp add: buf_bytes_def)

lemma inv_live: "pool_inv s \<Longrightarrow> objs (mem s) a = Some b \<Longrightarrow> buf_live (objs (mem s)) a"
  using inv_obj by (auto simp: buf_live_def)

text \<open>Publishing a new buffer, when the pool has one of the same contents already and when it has not.\<close>

lemma publish_duplicate_inv:
  assumes "pool_inv s" and "p \<in> pending s" and "pool_table (mem s) (buf_bytes (objs (mem s)) p) = Some d"
  obtains w w' where "CRYPTO_BUFFER_up_ref (mem s) d = Some w" and "crypto_buffer_free_object w p = Some w'"
    and "pool_inv (s\<lparr>mem := w', pending := pending s - {p}, owned := own (Some d) (owned s)\<rparr>)"
    and "buf_bytes (objs w') d = buf_bytes (objs (mem s)) p" and "pool_table w' = pool_table (mem s)"
proof -
  obtain b where b: "objs (mem s) d = Some b" "d \<notin> pending s" using inv_ran [OF assms(1), of d] assms(3) by (auto simp: ran_def)
  obtain w where w: "CRYPTO_BUFFER_up_ref (mem s) d = Some w" "pool_inv (s\<lparr>mem := w, owned := own (Some d) (owned s)\<rparr>)"
    "objs w = (objs (mem s))(d \<mapsto> b\<lparr>references := CRYPTO_refcount_inc (references b)\<rparr>)" "pool_table w = pool_table (mem s)"
    by (rule up_ref_inv [OF assms(1) b])
  let ?s1 = "s\<lparr>mem := w, owned := own (Some d) (owned s)\<rparr>"
  have p: "p \<in> pending ?s1" using assms(2) by simp
  obtain w' where d: "crypto_buffer_free_object (mem ?s1) p = Some w'" "pool_inv (?s1\<lparr>mem := w', pending := pending ?s1 - {p}\<rparr>)"
    "objs w' = (objs (mem ?s1))(p := None)" "pool_table w' = pool_table (mem ?s1)" by (rule drop_pending_inv [OF w(2) p])
  have w': "crypto_buffer_free_object w p = Some w'" using d(1) by simp
  have inv: "pool_inv (s\<lparr>mem := w', pending := pending s - {p}, owned := own (Some d) (owned s)\<rparr>)" using d(2) by (cases s) simp
  have ob: "objs w' = (objs w)(p := None)" using d(3) by simp
  have "d \<noteq> p" using assms(2) b(2) by auto
  then have "buf_bytes (objs w') d = buf_bytes (objs w) d" unfolding ob by (rule buf_bytes_off)
  also have "\<dots> = buf_bytes (objs (mem s)) d" unfolding w(3) using count_view(2) [of "objs (mem s)" d b, OF b(1)] by metis
  also have "\<dots> = buf_bytes (objs (mem s)) p" using pool_table_key [OF assms(3)] .
  finally show ?thesis using that w(1,4) w' inv d(4) by simp
qed

lemma publish_new_inv:
  assumes "pool_inv s" and "p \<in> pending s"
  obtains (inserted) old t where "lh_CRYPTO_BUFFER_insert (objs (mem s)) alloc (bufs (mem s)) p = Some (True, old, t)"
    and "pool_inv (s\<lparr>mem := (mem s)\<lparr>bufs := t\<rparr>, pending := pending s - {p}, owned := own (Some p) (owned s)\<rparr>)"
    and "pool_table ((mem s)\<lparr>bufs := t\<rparr>) = (pool_table (mem s))(buf_bytes (objs (mem s)) p \<mapsto> p)"
  | (failed) w old where "lh_CRYPTO_BUFFER_insert (objs (mem s)) alloc (bufs (mem s)) p = Some (False, old, bufs (mem s))"
    and "crypto_buffer_free_object (mem s) p = Some w" and "pool_inv (s\<lparr>mem := w, pending := pending s - {p}\<rparr>)"
    and "\<not> alloc 24"
proof -
  let ?m = "objs (mem s)"
  obtain b where b: "?m p = Some b" using inv_held [OF assms(1), of p] assms(2) by auto
  note o = inv_obj [OF assms(1) b]
  note good = inv_table [OF assms(1), unfolded table_good_def]
  obtain ok old t where t: "lh_CRYPTO_BUFFER_insert ?m alloc (bufs (mem s)) p = Some (ok, old, t)"
      "lh_good () () (buf_live ?m) (buf_bytes ?m) hash_bytes t"
      "if pool_table (mem s) (buf_bytes ?m p) = None \<and> \<not> alloc 24 then \<not> ok \<and> old = None \<and> t = bufs (mem s)
       else ok \<and> old = pool_table (mem s) (buf_bytes ?m p) \<and> lh_map (buf_bytes ?m) t = (pool_table (mem s))(buf_bytes ?m p \<mapsto> p)"
    using buffers.insert_ok [OF good inv_live [OF assms(1) b], of alloc]
    unfolding lh_CRYPTO_BUFFER_insert_def pool_table_def by blast
  show ?thesis
  proof (cases ok)
    case True
    then have m: "lh_map (buf_bytes ?m) t = (pool_table (mem s))(buf_bytes ?m p \<mapsto> p)" using t(3) by (simp split: if_splits)
    let ?w = "(mem s)\<lparr>bufs := t\<rparr>"
    have "table_good ?w" using t(2) by (simp add: table_good_def)
    moreover have "ran (pool_table ?w) \<subseteq> insert p (ran (pool_table (mem s)))" by (auto simp: pool_table_def [of ?w] m ran_def)
    ultimately have "pool_inv (s\<lparr>mem := ?w, pending := pending s - {p}, owned := own (Some p) (owned s)\<rparr>)"
      by (rule inv_change_table [OF assms(1), of ?w p "Some b"]) (use b o assms(2) in \<open>auto simp: own_def counted_def\<close>)
    then show ?thesis using inserted t(1) True m by (simp add: pool_table_def [of ?w])
  next
    case False
    then have "t = bufs (mem s)" "\<not> alloc 24" using t(3) by (simp_all split: if_splits)
    then show ?thesis using drop_pending_inv [OF assms] failed t(1) False by metis
  qed
qed

lemma publish_inv:
  assumes "pool_inv s" and "p \<in> pending s" and "objs (mem s) p = Some b"
  obtains r w where "buffer_new_publish alloc (mem s) p (data_is_static b) = Some (r, w)"
    and "pool_inv (s\<lparr>mem := w, pending := pending s - {p}, owned := own r (owned s)\<rparr>)"
    and "case r of None \<Rightarrow> \<not> alloc 2 24
      | Some d \<Rightarrow> buf_bytes (objs w) d = buf_bytes (objs (mem s)) p \<and> pool_table w (buf_bytes (objs (mem s)) p) = Some d"
proof -
  let ?m = "objs (mem s)"
  have r: "lh_CRYPTO_BUFFER_retrieve ?m (bufs (mem s)) p = Some (pool_table (mem s) (buf_bytes ?m p))"
    by (rule retrieve_table [OF inv_table [OF assms(1)] inv_live [OF assms(1,3)]])
  have live: "?m d \<noteq> None" if "pool_table (mem s) (buf_bytes ?m p) = Some d" for d
    using inv_ran [OF assms(1), of d] that by (auto simp: ran_def)
  obtain dup where dup: "keep_duplicate ?m (data_is_static b) (pool_table (mem s) (buf_bytes ?m p)) = Some dup"
    "dup = None \<or> dup = pool_table (mem s) (buf_bytes ?m p)" using keep_duplicate_ok live by metis
  show ?thesis
  proof (cases dup)
    case None
    show ?thesis
    proof (cases rule: publish_new_inv [OF assms(1,2), of "alloc 2"])
      case (1 old t)
      then show ?thesis using that [of "Some p" "(mem s)\<lparr>bufs := t\<rparr>"] r dup(1) None by (simp add: buffer_new_publish_def)
    next
      case (2 w old)
      then show ?thesis using that [of None w] r dup(1) None by (simp add: buffer_new_publish_def own_def)
    qed
  next
    case (Some d)
    then have old: "pool_table (mem s) (buf_bytes ?m p) = Some d" using dup(2) by simp
    from publish_duplicate_inv [OF assms(1,2) old] obtain w w' where "CRYPTO_BUFFER_up_ref (mem s) d = Some w"
        "crypto_buffer_free_object w p = Some w'"
        "pool_inv (s\<lparr>mem := w', pending := pending s - {p}, owned := own (Some d) (owned s)\<rparr>)"
        "buf_bytes (objs w') d = buf_bytes ?m p" "pool_table w' = pool_table (mem s)" by blast
    then show ?thesis using that [of "Some d" w'] r dup(1) Some old by (simp add: buffer_new_publish_def)
  qed
qed

text \<open>Dropping a reference.\<close>

lemma free_last_inv:
  assumes "pool_inv s" and "objs (mem s) p = Some b" and "p \<notin> pending s" and "owned s p = 1"
    and "table_good w" and "ran (pool_table w) \<subseteq> ran (pool_table (mem s)) - {p}" and "objs w = (objs (mem s))(p \<mapsto> c)"
  obtains w' where "crypto_buffer_free_object w p = Some w'" and "pool_inv (s\<lparr>mem := w', owned := (owned s)(p := 0)\<rparr>)"
proof -
  let ?w = "w\<lparr>objs := (objs w)(p := None)\<rparr>"
  have off: "p \<notin> ran (pool_table w)" using assms(6) by auto
  note t = table_update_off [OF assms(5) off, of None]
  have ran: "ran (pool_table ?w) \<subseteq> insert p (ran (pool_table (mem s)))" using t(2) assms(6) by auto
  have "pool_inv (s\<lparr>mem := ?w, pending := pending s, owned := (owned s)(p := 0)\<rparr>)"
    by (rule inv_change_table [OF assms(1) t(1) ran, of None]) (use assms(3,7) t(2) off in auto)
  then show ?thesis using that [of ?w] assms(7) by (simp add: crypto_buffer_free_object_def)
qed

lemma free_inv:
  assumes "pool_inv s" and "0 < owned s p"
  obtains w where "CRYPTO_BUFFER_free alloc (mem s) (Some p) = Some w"
    and "pool_inv (s\<lparr>mem := w, owned := (owned s)(p := owned s p - 1)\<rparr>)"
proof -
  obtain b where b: "objs (mem s) p = Some b" using inv_held [OF assms(1), of p] assms(2) by auto
  note o = inv_obj [OF assms(1) b]
  have np: "p \<notin> pending s" using o assms(2) by auto
  then have c: "counted (references b) (owned s p)" "references b \<noteq> 0" using o by auto
  let ?w1 = "\<lambda>n. (mem s)\<lparr>objs := (objs (mem s))(p \<mapsto> b\<lparr>references := n\<rparr>)\<rparr>"
  note t = table_count [OF inv_table [OF assms(1)] b]
  from c(1,2) assms(2) show ?thesis
  proof (cases rule: counted_dec)
    case (more n)
    have "pool_inv (s\<lparr>mem := ?w1 n, pending := pending s, owned := (owned s)(p := owned s p - 1)\<rparr>)"
      by (rule inv_change [OF assms(1) t(1) [of n] t(2) [of n], of p "Some (b\<lparr>references := n\<rparr>)"])
         (use o more(2,3) np inv_ran [OF assms(1), of p] b in auto)
    then show ?thesis using that [of "?w1 n"] b more(1) by (simp add: CRYPTO_BUFFER_free_def Let_def)
  next
    case last
    let ?w = "?w1 0"
    have bytes: "buf_bytes (objs ?w) = buf_bytes (objs (mem s))" using count_view(2) [of "objs (mem s)" p b 0, OF b] by simp
    have live: "buf_live (objs ?w) p" using inv_live [OF assms(1) b] count_view(1) [of "objs (mem s)" p b 0, OF b] by simp
    note fin = free_last_inv [OF assms(1) b np last(2)]
    show ?thesis
    proof (cases "in_pool b \<and> pool_table (mem s) (buf_bytes (objs (mem s)) p) = Some p")
      case True
      obtain tb where tb: "lh_CRYPTO_BUFFER_delete (objs ?w) alloc (bufs ?w) p = Some (Some p, tb)"
          "lh_good () () (buf_live (objs ?w)) (buf_bytes (objs ?w)) hash_bytes tb"
          "lh_map (buf_bytes (objs ?w)) tb = (pool_table (mem s))(buf_bytes (objs (mem s)) p := None)"
        using buffers.delete_ok [OF t(1) [of 0, unfolded table_good_def] live, of alloc] True t(2) [of 0] bytes
        unfolding lh_CRYPTO_BUFFER_delete_def pool_table_def by auto
      let ?w2 = "?w\<lparr>bufs := tb\<rparr>"
      have g: "table_good ?w2" using tb(2) by (simp add: table_good_def)
      have "pool_table ?w2 = (pool_table (mem s))(buf_bytes (objs (mem s)) p := None)" using tb(3) by (simp add: pool_table_def)
      then have "ran (pool_table ?w2) \<subseteq> ran (pool_table (mem s)) - {p}"
        using pool_table_key [of "mem s"] by (fastforce simp: ran_def split: if_splits)
      then obtain w' where "crypto_buffer_free_object ?w2 p = Some w'" "pool_inv (s\<lparr>mem := w', owned := (owned s)(p := 0)\<rparr>)"
        using fin [OF g] by auto
      then show ?thesis using that [of w'] last True b tb(1) retrieve_table [OF t(1) live] t(2) [of 0] bytes
        by (simp add: CRYPTO_BUFFER_free_def Let_def)
    next
      case False
      then have off: "p \<notin> ran (pool_table (mem s))"
        using inv_ran [OF assms(1), of p] pool_table_ran [of p "mem s"] b by auto
      then have "ran (pool_table ?w) \<subseteq> ran (pool_table (mem s)) - {p}" using t(2) [of 0] by auto
      then obtain w' where "crypto_buffer_free_object ?w p = Some w'" "pool_inv (s\<lparr>mem := w', owned := (owned s)(p := 0)\<rparr>)"
        using fin [OF t(1) [of 0]] by auto
      then show ?thesis using that [of w'] last False b retrieve_table [OF t(1) live] t(2) [of 0] bytes
        by (simp add: CRYPTO_BUFFER_free_def Let_def)
    qed
  qed
qed

end
