(* ===== verification/PoolProps.thy ===== *)
theory PoolProps
  imports PoolSafe CbsParse
begin

text \<open>
  The properties of BoringSSL's hash tables and buffer pools.
\<close>

section \<open>Reachable pools\<close>

lemma object_ok:
  assumes "data_ok data len"
  obtains (failed) "buffer_new_object alloc new w data len static pool = Some (False, w)" and "\<not> alloc 0 32 \<or> \<not> alloc 1 len"
  | (made) b where "buffer_new_object alloc new w data len static pool = Some (True, w\<lparr>objs := (objs w)(new \<mapsto> b)\<rparr>)"
    and "data_ok (buf_data b) (buf_len b)" and "references b = 1" and "in_pool b = pool" and "data_is_static b = static"
    and "take (unat (buf_len b)) (data_mem (buf_data b)) = take (unat len) (data_mem data)"
proof (cases "alloc 0 32")
  case True
  let ?b = "\<lambda>d. \<lparr>in_pool = pool, buf_data = d, buf_len = len, references = 1, data_is_static = static\<rparr>"
  consider "static" | "\<not> static" "len = 0" | "\<not> static" "len \<noteq> 0" "\<not> alloc 1 len" | "\<not> static" "len \<noteq> 0" "alloc 1 len" by blast
  then show ?thesis
  proof cases
    case 1
    then show ?thesis using True made [of "?b data"] assms by (simp add: buffer_new_object_def)
  next
    case 2
    then show ?thesis using True made [of "?b None"] by (simp add: buffer_new_object_def OPENSSL_memdup_def data_ok_def)
  next
    case 3
    then show ?thesis using True failed by (simp add: buffer_new_object_def OPENSSL_memdup_def unat_eq_0)
  next
    case 4
    then show ?thesis using True assms made [of "?b (Some (take (unat len) (data_mem data)))"]
      by (simp add: buffer_new_object_def OPENSSL_memdup_def unat_eq_0 mem_range_def data_ok_def data_mem_def [of "Some _"])
  qed
qed (use failed in \<open>simp add: buffer_new_object_def\<close>)

lemma step_inv:
  assumes "pool_step s s'" and "pool_inv s"
  shows "pool_inv s'"
  using assms
proof (cases rule: pool_step.cases)
  case (lookup_hit tmp data len static d w)
  then show ?thesis by (cases rule: lookup_inv [OF assms(2) lookup_hit(2,3), of static]) simp_all
next
  case (new_object new data len alloc static w)
  from new_object(3) show ?thesis
  proof (cases rule: object_ok [of data len alloc new "mem s" static True])
    case (made b)
    then show ?thesis using new_object new_object_inv [OF assms(2) new_object(2) made(2,3), of True] by (cases s) simp
  qed (use new_object(4) in simp)
next
  case (publish new b alloc r w)
  then show ?thesis using publish_inv [OF assms(2) publish(2,3), of alloc] by (metis option.inject prod.inject)
next
  case (new_private new data len alloc static w)
  from new_private(3) show ?thesis
  proof (cases rule: object_ok [of data len alloc new "mem s" static False])
    case (made b)
    then show ?thesis using new_private new_object_inv [OF assms(2) new_private(2) made(2,3), of False] by (cases s) simp
  qed (use new_private(4) in simp)
next
  case (alloc_private new fresh len alloc w)
  let ?b = "\<lparr>in_pool = False, buf_data = (if alloc 1 len then Some fresh else None), buf_len = len, references = 1, data_is_static = False\<rparr>"
  have w: "w = (mem s)\<lparr>objs := (objs (mem s))(new \<mapsto> ?b)\<rparr>" "data_ok (buf_data ?b) (buf_len ?b)"
    using alloc_private(3,4) by (auto simp: CRYPTO_BUFFER_alloc_def Let_def data_ok_def data_mem_def split: if_splits)
  show ?thesis using alloc_private(1) w(1) new_object_inv [OF assms(2) alloc_private(2) w(2), of False] by (cases s) simp
next
  case (up_ref p w)
  then obtain b where b: "objs (mem s) p = Some b" using inv_held [OF assms(2), of p] by auto
  moreover have "p \<notin> pending s" using inv_obj [OF assms(2) b] up_ref(2) by auto
  ultimately show ?thesis using up_ref up_ref_inv [OF assms(2)] by (metis option.inject)
next
  case (free p alloc w)
  then show ?thesis using free_inv [OF assms(2) free(2), of alloc] by (metis option.inject)
qed

lemma start_inv:
  assumes "CRYPTO_BUFFER_POOL_new alloc_pool alloc Map.empty = Some w"
  shows "pool_inv \<lparr>mem = w, pending = {}, owned = (\<lambda>_. 0)\<rparr>"
proof -
  obtain t where t: "OPENSSL_lh_new alloc () () = Some t" "w = \<lparr>objs = Map.empty, bufs = t\<rparr>"
    using assms by (auto simp: CRYPTO_BUFFER_POOL_new_def split: if_splits option.splits)
  show ?thesis using buffers.new_ok [OF t(1), of Map.empty] t(2)
    by (intro pool_invI) (auto simp: table_good_def pool_table_def)
qed

lemma reachable_inv: "pool_reachable s \<Longrightarrow> pool_inv s"
  by (induction rule: pool_reachable.induct) (auto intro: start_inv step_inv)

text \<open>The owner of a reference holds a live object that is not pending.\<close>

lemma held_object:
  assumes "pool_inv s" and "0 < owned s p"
  obtains b where "objs (mem s) p = Some b" and "p \<notin> pending s" and "data_ok (buf_data b) (buf_len b)"
proof -
  obtain b where b: "objs (mem s) p = Some b" using inv_held [OF assms(1), of p] assms(2) by auto
  then show ?thesis using that inv_obj [OF assms(1) b] assms(2) by (auto split: if_splits)
qed

lemma reachable_example:
  obtains s where "pool_reachable s" and "owned s 7 = 1" and "objs (mem s) 8 = None" and "objs (mem s) 9 = None"
proof -
  define t :: "(unit, unit, nat) lhash_st" where "t = \<lparr>num_items = 0, buckets = replicate (unat kMinNumBuckets) [], num_buckets = kMinNumBuckets,
    callback_depth = 0, lh_comp = (), lh_hash = ()\<rparr>"
  define s where "s = \<lparr>mem = \<lparr>objs = Map.empty, bufs = t\<rparr>, pending = {}, owned = (\<lambda>_. 0)\<rparr>"
  have s: "pool_reachable s" unfolding s_def
    by (rule pool_reachable.start [of True "\<lambda>_. True"]) (simp add: CRYPTO_BUFFER_POOL_new_def OPENSSL_lh_new_def t_def)
  define b where "b = \<lparr>in_pool = False, buf_data = Some [1, 2], buf_len = 2, references = 1, data_is_static = True\<rparr>"
  define w where "w = (mem s)\<lparr>objs := [7 \<mapsto> b]\<rparr>"
  have "buffer_new_object (\<lambda>_ _. True) 7 (mem s) (Some [1, 2]) 2 True False = Some (True, w)"
    by (simp add: buffer_new_object_def s_def b_def w_def)
  then have "pool_step s (s\<lparr>mem := w, owned := own (Some 7) (owned s)\<rparr>)"
    by (intro pool_step.new_private) (simp_all add: s_def data_ok_def data_mem_def)
  then have "pool_reachable (s\<lparr>mem := w, owned := own (Some 7) (owned s)\<rparr>)" by (rule pool_reachable.step [OF s])
  then show ?thesis by (rule that) (simp_all add: own_def s_def w_def)
qed

section \<open>Properties of pools\<close>

text \<open>(C8) Buffer pools are safe under concurrent use: whatever the interleaving of the locked sections of \<open>CRYPTO_BUFFER_new\<close>, of
  \<open>CRYPTO_BUFFER_up_ref\<close> and of \<open>CRYPTO_BUFFER_free\<close>, a buffer of which a caller holds a reference has not been freed and \<open>CRYPTO_BUFFER_init_CBS\<close>
  gives a reader of its bytes; and no operation on references that are held reads a freed buffer, aborts or fails its
  assertion.\<close>

theorem pool_safe:
  assumes "pool_reachable s"
  shows "(\<forall>p. 0 < owned s p \<longrightarrow> (\<exists>cbs. CRYPTO_BUFFER_init_CBS (mem s) p = Some cbs \<and> cbs_ok cbs \<and> cbs_bytes cbs = buf_bytes (objs (mem s)) p)) \<and>
    (\<forall>p alloc. 0 < owned s p \<longrightarrow> CRYPTO_BUFFER_up_ref (mem s) p \<noteq> None \<and> CRYPTO_BUFFER_free alloc (mem s) (Some p) \<noteq> None) \<and>
    (\<forall>tmp data len static. objs (mem s) tmp = None \<and> data_ok data len \<longrightarrow> buffer_new_lookup tmp (mem s) data len static \<noteq> None) \<and>
    (\<forall>p alloc. p \<in> pending s \<longrightarrow> (\<exists>b. objs (mem s) p = Some b \<and> buffer_new_publish alloc (mem s) p (data_is_static b) \<noteq> None))"
proof (intro conjI allI impI)
  note inv = reachable_inv [OF assms]
  show "\<exists>cbs. CRYPTO_BUFFER_init_CBS (mem s) p = Some cbs \<and> cbs_ok cbs \<and> cbs_bytes cbs = buf_bytes (objs (mem s)) p" if "0 < owned s p" for p
    by (rule held_object [OF inv that]) (simp add: CRYPTO_BUFFER_init_CBS_def CBS_init_def cbs_ok_def cbs_bytes_def data_ok_def buf_bytes_def)
  show "CRYPTO_BUFFER_up_ref (mem s) p \<noteq> None" if "0 < owned s p" for p
    by (rule held_object [OF inv that]) (simp add: CRYPTO_BUFFER_up_ref_def)
  show "CRYPTO_BUFFER_free alloc (mem s) (Some p) \<noteq> None" if "0 < owned s p" for p alloc
    using free_inv [OF inv that, of alloc] by (metis option.discI)
  show "buffer_new_lookup tmp (mem s) data len static \<noteq> None" if "objs (mem s) tmp = None \<and> data_ok data len" for tmp data len static
    by (rule lookup_inv [OF inv conjunct1 [OF that] conjunct2 [OF that], of static]) simp_all
  show "\<exists>b. objs (mem s) p = Some b \<and> buffer_new_publish alloc (mem s) p (data_is_static b) \<noteq> None" if p: "p \<in> pending s" for p alloc
  proof -
    obtain b where b: "objs (mem s) p = Some b" using inv_held [OF inv, of p] p by auto
    then show ?thesis using publish_inv [OF inv p b, of alloc] by (metis option.discI)
  qed
qed

theorem pool_safe_witness:
  "\<exists>s. pool_reachable s \<and> 0 < owned s 7 \<and> CRYPTO_BUFFER_init_CBS (mem s) 7 \<noteq> None \<and> CRYPTO_BUFFER_free (\<lambda>_. True) (mem s) (Some 7) \<noteq> None"
proof -
  obtain s where s: "pool_reachable s" "owned s 7 = 1" by (rule reachable_example)
  then show ?thesis using pool_safe [OF s(1)] by (intro exI [of _ s]) force
qed


text \<open>(C27) \<open>crypto_buffer_new\<close> with a pool shares buffers: it returns a buffer with the requested bytes, and from then on this is the
  pool's buffer for these bytes; the one the pool had before is returned if it suits (a request for static data is not
  served by a buffer with copied data); it returns \<open>NULL\<close> only when the allocator failed.\<close>

theorem pool_shares:
  assumes "pool_reachable s" and "objs (mem s) tmp = None" and "objs (mem s) new = None" and "data_ok data len"
  shows "\<exists>r w. crypto_buffer_new alloc tmp new (mem s) data len static True = Some (r, w) \<and>
    (case r of
       None \<Rightarrow> \<not> alloc 0 32 \<or> \<not> alloc 1 len \<or> \<not> alloc 2 24
     | Some d \<Rightarrow> buf_bytes (objs w) d = take (unat len) (data_mem data) \<and> pool_table w (take (unat len) (data_mem data)) = Some d) \<and>
    (case pool_table (mem s) (take (unat len) (data_mem data)) of
       None \<Rightarrow> True
     | Some d \<Rightarrow> \<exists>b. objs (mem s) d = Some b \<and> (static \<and> \<not> data_is_static b \<or> r = Some d))"
proof (cases rule: lookup_inv [OF reachable_inv [OF assms(1)] assms(2,4), of static])
  case (2 d w b)
  then show ?thesis using pool_table_key [OF 2(2)] by (simp add: crypto_buffer_new_def)
next
  case miss: 1
  let ?bs = "take (unat len) (data_mem data)"
  have old: "case pool_table (mem s) ?bs of None \<Rightarrow> True | Some d \<Rightarrow> \<exists>b. objs (mem s) d = Some b \<and> (static \<and> \<not> data_is_static b \<or> r = Some d)" for r
    using miss(2) by (cases "pool_table (mem s) ?bs") auto
  show ?thesis
  proof (cases rule: object_ok [OF assms(4), of alloc new "mem s" static True])
    case failed: 1
    then show ?thesis using miss(1) old [of None] by (auto simp: crypto_buffer_new_def)
  next
    case made: (2 b)
    let ?w = "(mem s)\<lparr>objs := (objs (mem s))(new \<mapsto> b)\<rparr>"
    let ?s = "s\<lparr>mem := ?w, pending := insert new (pending s), owned := owned s\<rparr>"
    have inv: "pool_inv ?s" using new_object_inv [OF reachable_inv [OF assms(1)] assms(3) made(2,3), of True] made(4) by simp
    have n: "new \<in> pending ?s" "objs (mem ?s) new = Some b" by simp_all
    have bs: "buf_bytes (objs ?w) new = ?bs" using made(6) by (simp add: buf_bytes_def)
    obtain r w where "buffer_new_publish alloc (mem ?s) new (data_is_static b) = Some (r, w)"
      "case r of None \<Rightarrow> \<not> alloc 2 24
       | Some d \<Rightarrow> buf_bytes (objs w) d = buf_bytes (objs (mem ?s)) new \<and> pool_table w (buf_bytes (objs (mem ?s)) new) = Some d"
      by (rule publish_inv [OF inv n, of alloc])
    then show ?thesis using miss(1) made(1,5) old [of r] bs by (cases r) (auto simp: crypto_buffer_new_def)
  qed
qed

theorem pool_shares_witness:
  "\<exists>s d w. pool_reachable s \<and> crypto_buffer_new (\<lambda>_ _. True) 8 9 (mem s) (Some [1, 2]) 2 False True = Some (Some d, w) \<and>
    buf_bytes (objs w) d = [1, 2] \<and> pool_table w [1, 2] = Some d"
proof -
  obtain s where s: "pool_reachable s" "objs (mem s) 8 = None" "objs (mem s) 9 = None" by (rule reachable_example)
  have d: "data_ok (Some [1, 2]) 2" "take (unat (2 :: size_t)) (data_mem (Some [1, 2])) = [1, 2]" by (simp_all add: data_ok_def data_mem_def)
  show ?thesis using s pool_shares [OF s d(1), of "\<lambda>_ _. True" False, unfolded d(2)] by (force split: option.splits)
qed


text \<open>(C26) Pools do not leak: a buffer that no caller and no pending call refers to has been freed, unless its counter is saturated; so a
  pool whose references were all dropped is empty and \<open>CRYPTO_BUFFER_POOL_free\<close> passes its assertion.\<close>

theorem pool_no_leak:
  assumes "pool_reachable s"
  shows "(\<forall>a b. owned s a = 0 \<and> a \<notin> pending s \<and> objs (mem s) a = Some b \<longrightarrow> references b = CRYPTO_REFCOUNT_MAX) \<and>
    (objs (mem s) = Map.empty \<longrightarrow> CRYPTO_BUFFER_POOL_free (Some (mem s)) = Some ())"
proof (intro conjI allI impI)
  note inv = reachable_inv [OF assms]
  show "references b = CRYPTO_REFCOUNT_MAX" if "owned s a = 0 \<and> a \<notin> pending s \<and> objs (mem s) a = Some b" for a b
    using inv_obj [OF inv, of a b] that by (auto simp: counted_def unat_eq_0)
  assume "objs (mem s) = Map.empty"
  then have "ran (pool_table (mem s)) = {}" using inv_ran [OF inv] by fastforce
  then have "pool_table (mem s) = Map.empty" by (metis (no_types, lifting) empty_iff ext not_None_eq ranI)
  then show "CRYPTO_BUFFER_POOL_free (Some (mem s)) = Some ()"
    using buffers.num_items_ok [OF inv_table [OF inv, unfolded table_good_def]]
    by (simp add: CRYPTO_BUFFER_POOL_free_def pool_table_def)
qed

theorem pool_no_leak_witness: "\<exists>s. pool_reachable s \<and> CRYPTO_BUFFER_POOL_free (Some (mem s)) = Some ()"
proof -
  let ?t = "\<lparr>num_items = 0, buckets = replicate (unat kMinNumBuckets) [], num_buckets = kMinNumBuckets,
    callback_depth = 0, lh_comp = (), lh_hash = ()\<rparr> :: (unit, unit, nat) lhash_st"
  let ?s = "\<lparr>mem = \<lparr>objs = Map.empty, bufs = ?t\<rparr>, pending = {}, owned = (\<lambda>_. 0)\<rparr>"
  have s: "pool_reachable ?s"
    by (rule pool_reachable.start [of True "\<lambda>_. True"]) (simp add: CRYPTO_BUFFER_POOL_new_def OPENSSL_lh_new_def)
  then show ?thesis using pool_no_leak [OF s] by (intro exI [of _ ?s]) simp
qed

end
