(* ===== verification/Avl.thy ===== *)
theory Avl
  imports Main
begin

text \<open>
  gRPC's persistent AVL trees (\<^verbatim>\<open>src/core/lib/avl/avl.h\<close>): the class \<open>AVL<K, V>\<close> of maps and its specialisation \<open>AVL<K, void>\<close> of
  sets.  A \<open>NodePtr\<close> is a tree, \<open>Null\<close> for the null pointer; nodes are never changed, so sharing does not show.  Keys are
  of a linear order, as the code asks of \<open>K\<close>.  Following a null pointer is the result \<open>None\<close>.
\<close>

section \<open>Maps\<close>

datatype ('k, 'v) Node = Null | Node (node_key: 'k) (node_value: 'v) (left: "('k, 'v) Node") (right: "('k, 'v) Node") (height_field: int)

definition Height :: "('k, 'v) Node \<Rightarrow> int" where
  "Height n = (case n of Null \<Rightarrow> 0 | Node _ _ _ _ h \<Rightarrow> h)"

definition MakeNode :: "'k \<Rightarrow> 'v \<Rightarrow> ('k, 'v) Node \<Rightarrow> ('k, 'v) Node \<Rightarrow> ('k, 'v) Node" where
  "MakeNode key val l r = Node key val l r (1 + max (Height l) (Height r))"

fun Get :: "('k::linorder, 'v) Node \<Rightarrow> 'k \<Rightarrow> ('k, 'v) Node" where
  "Get Null key = Null"
| "Get (Node k v l r h) key = (if k > key then Get l key else if k < key then Get r key else Node k v l r h)"

fun GetBelow :: "('k::linorder, 'v) Node \<Rightarrow> 'k \<Rightarrow> ('k, 'v) Node" where
  "GetBelow Null key = Null"
| "GetBelow (Node k v l r h) key =
     (if k > key then GetBelow l key
      else if k < key then (case GetBelow r key of Null \<Rightarrow> Node k v l r h | n \<Rightarrow> n)
      else Node k v l r h)"

fun RotateLeft :: "'k \<Rightarrow> 'v \<Rightarrow> ('k, 'v) Node \<Rightarrow> ('k, 'v) Node \<Rightarrow> ('k, 'v) Node option" where
  "RotateLeft key val l (Node rk rv rl rr _) = Some (MakeNode rk rv (MakeNode key val l rl) rr)"
| "RotateLeft key val l Null = None"

fun RotateRight :: "'k \<Rightarrow> 'v \<Rightarrow> ('k, 'v) Node \<Rightarrow> ('k, 'v) Node \<Rightarrow> ('k, 'v) Node option" where
  "RotateRight key val (Node lk lv ll lr _) r = Some (MakeNode lk lv ll (MakeNode key val lr r))"
| "RotateRight key val Null r = None"

fun RotateLeftRight :: "'k \<Rightarrow> 'v \<Rightarrow> ('k, 'v) Node \<Rightarrow> ('k, 'v) Node \<Rightarrow> ('k, 'v) Node option" where
  "RotateLeftRight key val (Node lk lv ll (Node lrk lrv lrl lrr _) _) r =
     Some (MakeNode lrk lrv (MakeNode lk lv ll lrl) (MakeNode key val lrr r))"
| "RotateLeftRight key val _ r = None"

fun RotateRightLeft :: "'k \<Rightarrow> 'v \<Rightarrow> ('k, 'v) Node \<Rightarrow> ('k, 'v) Node \<Rightarrow> ('k, 'v) Node option" where
  "RotateRightLeft key val l (Node rk rv (Node rlk rlv rll rlr _) rr _) =
     Some (MakeNode rlk rlv (MakeNode key val l rll) (MakeNode rk rv rlr rr))"
| "RotateRightLeft key val l _ = None"

text \<open>The difference of the heights of the children of a node that must not be null.\<close>

fun tilt :: "('k, 'v) Node \<Rightarrow> int option" where
  "tilt Null = None"
| "tilt (Node _ _ l r _) = Some (Height l - Height r)"

definition Rebalance :: "'k \<Rightarrow> 'v \<Rightarrow> ('k, 'v) Node \<Rightarrow> ('k, 'v) Node \<Rightarrow> ('k, 'v) Node option" where
  "Rebalance key val l r =
     (let d = Height l - Height r in
      if d = 2 then
        (case tilt l of
           None \<Rightarrow> None
         | Some t \<Rightarrow> if t = - 1 then RotateLeftRight key val l r else RotateRight key val l r)
      else if d = - 2 then
        (case tilt r of
           None \<Rightarrow> None
         | Some t \<Rightarrow> if t = 1 then RotateRightLeft key val l r else RotateLeft key val l r)
      else Some (MakeNode key val l r))"

fun AddKey :: "('k::linorder, 'v) Node \<Rightarrow> 'k \<Rightarrow> 'v \<Rightarrow> ('k, 'v) Node option" where
  "AddKey Null key val = Some (MakeNode key val Null Null)"
| "AddKey (Node k v l r h) key val =
     (if k < key then Option.bind (AddKey r key val) (\<lambda>r'. Rebalance k v l r')
      else if key < k then Option.bind (AddKey l key val) (\<lambda>l'. Rebalance k v l' r)
      else Some (MakeNode key val l r))"

fun InOrderHead :: "('k, 'v) Node \<Rightarrow> ('k \<times> 'v) option" where
  "InOrderHead Null = None"
| "InOrderHead (Node k v l r h) = (if l = Null then Some (k, v) else InOrderHead l)"

fun InOrderTail :: "('k, 'v) Node \<Rightarrow> ('k \<times> 'v) option" where
  "InOrderTail Null = None"
| "InOrderTail (Node k v l r h) = (if r = Null then Some (k, v) else InOrderTail r)"

fun RemoveKey :: "('k::linorder, 'v) Node \<Rightarrow> 'k \<Rightarrow> ('k, 'v) Node option" where
  "RemoveKey Null key = Some Null"
| "RemoveKey (Node k v l r h) key =
     (if key < k then Option.bind (RemoveKey l key) (\<lambda>l'. Rebalance k v l' r)
      else if k < key then Option.bind (RemoveKey r key) (\<lambda>r'. Rebalance k v l r')
      else if l = Null then Some r
      else if r = Null then Some l
      else if Height l < Height r
      then Option.bind (InOrderHead r) (\<lambda>(hk, hv). Option.bind (RemoveKey r hk) (\<lambda>r'. Rebalance hk hv l r'))
      else Option.bind (InOrderTail l) (\<lambda>(hk, hv). Option.bind (RemoveKey l hk) (\<lambda>l'. Rebalance hk hv l' r)))"

text \<open>The public operations on the root; the visitor of \<open>ForEach\<close> threads a state.\<close>

definition Lookup :: "('k::linorder, 'v) Node \<Rightarrow> 'k \<Rightarrow> 'v option" where
  "Lookup root key = (case Get root key of Null \<Rightarrow> None | Node _ v _ _ _ \<Rightarrow> Some v)"

text \<open>The code passes \<open>*key\<close> on, so it compiles only for key types with a unary \<open>*\<close>, the parameter \<open>deref\<close>.\<close>

definition LookupBelow :: "('k::linorder \<Rightarrow> 'k) \<Rightarrow> ('k, 'v) Node \<Rightarrow> 'k \<Rightarrow> ('k \<times> 'v) option" where
  "LookupBelow deref root key = (case GetBelow root (deref key) of Null \<Rightarrow> None | Node k v _ _ _ \<Rightarrow> Some (k, v))"

definition Empty :: "('k, 'v) Node \<Rightarrow> bool" where
  "Empty root \<longleftrightarrow> root = Null"

fun ForEachImpl :: "('k, 'v) Node \<Rightarrow> ('k \<Rightarrow> 'v \<Rightarrow> 's \<Rightarrow> 's) \<Rightarrow> 's \<Rightarrow> 's" where
  "ForEachImpl Null f s = s"
| "ForEachImpl (Node k v l r h) f s = ForEachImpl r f (f k v (ForEachImpl l f s))"

section \<open>Specification\<close>

fun inorder :: "('k, 'v) Node \<Rightarrow> ('k \<times> 'v) list" where
  "inorder Null = []"
| "inorder (Node k v l r h) = inorder l @ (k, v) # inorder r"

fun avl_balanced :: "('k, 'v) Node \<Rightarrow> bool" where
  "avl_balanced Null = True"
| "avl_balanced (Node k v l r h) =
     (h = 1 + max (Height l) (Height r) \<and> \<bar>Height l - Height r\<bar> \<le> 1 \<and> avl_balanced l \<and> avl_balanced r)"

definition avl_ok :: "('k::linorder, 'v) Node \<Rightarrow> bool" where
  "avl_ok t \<longleftrightarrow> avl_balanced t \<and> sorted_wrt (<) (map fst (inorder t))"

section \<open>Balance\<close>

lemma Height_simps [simp]: "Height Null = 0" "Height (Node k v l r h) = h" "Height (MakeNode k v l r) = 1 + max (Height l) (Height r)"
  by (simp_all add: Height_def MakeNode_def)

lemma balanced_MakeNode [simp]:
  "avl_balanced (MakeNode k v l r) \<longleftrightarrow> \<bar>Height l - Height r\<bar> \<le> 1 \<and> avl_balanced l \<and> avl_balanced r"
  by (simp add: MakeNode_def)

lemma Height_nonneg: "avl_balanced t \<Longrightarrow> 0 \<le> Height t"
  by (induction t) auto

lemma inorder_MakeNode [simp]: "inorder (MakeNode k v l r) = inorder l @ (k, v) # inorder r"
  by (simp add: MakeNode_def)

text \<open>\<open>Rebalance\<close> repairs a difference of two, keeps the order of the elements and never follows a null pointer.\<close>

lemma Rebalance_ok:
  assumes "avl_balanced l" and "avl_balanced r" and "\<bar>Height l - Height r\<bar> \<le> 2"
  obtains t where "Rebalance k v l r = Some t" and "avl_balanced t" and "inorder t = inorder l @ (k, v) # inorder r"
    and "Height t = 1 + max (Height l) (Height r) \<or> \<bar>Height l - Height r\<bar> = 2 \<and> Height t = max (Height l) (Height r)"
proof -
  note nn = Height_nonneg
  consider "Height l = Height r + 2" | "Height r = Height l + 2" | "\<bar>Height l - Height r\<bar> \<le> 1" using assms(3) by linarith
  then show ?thesis
  proof cases
    case 1
    then obtain lk lv ll lr lh where l: "l = Node lk lv ll lr lh" using nn [OF assms(2)] by (cases l) auto
    show ?thesis
    proof (cases "Height ll - Height lr = - 1")
      case True
      then obtain a b c d e where lr: "lr = Node a b c d e" using assms(1) nn [of ll] by (cases lr) (auto simp: l)
      show ?thesis
        by (rule that [of "MakeNode a b (MakeNode lk lv ll c) (MakeNode k v d r)"])
           (use 1 True assms(1,2) in \<open>auto simp: Rebalance_def Let_def l lr max_def split: if_splits\<close>)
    next
      case False
      show ?thesis
        by (rule that [of "MakeNode lk lv ll (MakeNode k v lr r)"])
           (use 1 False assms(1,2) in \<open>auto simp: Rebalance_def Let_def l max_def split: if_splits\<close>)
    qed
  next
    case 2
    then obtain rk rv rl rr rh where r: "r = Node rk rv rl rr rh" using nn [OF assms(1)] by (cases r) auto
    show ?thesis
    proof (cases "Height rl - Height rr = 1")
      case True
      then obtain a b c d e where rl: "rl = Node a b c d e" using assms(2) nn [of rr] by (cases rl) (auto simp: r)
      show ?thesis
        by (rule that [of "MakeNode a b (MakeNode k v l c) (MakeNode rk rv d rr)"])
           (use 2 True assms(1,2) in \<open>auto simp: Rebalance_def Let_def r rl max_def split: if_splits\<close>)
    next
      case False
      show ?thesis
        by (rule that [of "MakeNode rk rv (MakeNode k v l rl) rr"])
           (use 2 False assms(1,2) in \<open>auto simp: Rebalance_def Let_def r max_def split: if_splits\<close>)
    qed
  next
    case 3
    then have "Height l - Height r \<noteq> 2" "Height l - Height r \<noteq> - 2" by linarith+
    then show ?thesis using that [of "MakeNode k v l r"] 3 assms(1,2) by (simp add: Rebalance_def Let_def)
  qed
qed

text \<open>The height of a tree one of whose children grew or shrank by at most one.\<close>

lemma height_grown:
  fixes a b b' t h :: int
  assumes "t = 1 + max a b' \<or> \<bar>a - b'\<bar> = 2 \<and> t = max a b'" and "b' = b \<or> b' = b + 1" and "\<bar>a - b\<bar> \<le> 1" and "h = 1 + max a b"
  shows "t = h \<or> t = h + 1"
  using assms by (cases "a \<le> b"; cases "a \<le> b'") auto

lemma height_shrunk:
  fixes a b b' t h :: int
  assumes "t = 1 + max a b' \<or> \<bar>a - b'\<bar> = 2 \<and> t = max a b'" and "b' = b \<or> b' = b - 1" and "\<bar>a - b\<bar> \<le> 1" and "h = 1 + max a b"
  shows "t = h \<or> t = h - 1"
  using assms by (cases "a \<le> b"; cases "a \<le> b'") auto

section \<open>Insertion and removal\<close>

text \<open>The same on sorted lists of pairs.\<close>

fun ins_list :: "'k::linorder \<Rightarrow> 'v \<Rightarrow> ('k \<times> 'v) list \<Rightarrow> ('k \<times> 'v) list" where
  "ins_list key val [] = [(key, val)]"
| "ins_list key val ((k, v) # xs) =
     (if k < key then (k, v) # ins_list key val xs else if key < k then (key, val) # (k, v) # xs else (key, val) # xs)"

definition del_list :: "'k \<Rightarrow> ('k \<times> 'v) list \<Rightarrow> ('k \<times> 'v) list" where
  "del_list key xs = filter (\<lambda>p. fst p \<noteq> key) xs"

abbreviation ascending_keys :: "('k::linorder \<times> 'v) list \<Rightarrow> bool" where
  "ascending_keys xs \<equiv> sorted_wrt (<) (map fst xs)"

lemma ins_list_append:
  "ascending_keys (xs @ (k, v) # ys) \<Longrightarrow>
   ins_list key val (xs @ (k, v) # ys) =
     (if k < key then xs @ (k, v) # ins_list key val ys
      else if key < k then ins_list key val xs @ (k, v) # ys else xs @ (key, val) # ys)"
  by (induction xs) (auto simp: sorted_wrt_append)

lemma del_list_append:
  "ascending_keys (xs @ (k, v) # ys) \<Longrightarrow>
   del_list key (xs @ (k, v) # ys) =
     (if k < key then xs @ (k, v) # del_list key ys
      else if key < k then del_list key xs @ (k, v) # ys else xs @ ys)"
proof -
  assume asc: "ascending_keys (xs @ (k, v) # ys)"
  have "filter (\<lambda>p. fst p \<noteq> key) xs = xs" if "k \<le> key" using asc that by (force simp: filter_id_conv sorted_wrt_append)
  moreover have "filter (\<lambda>p. fst p \<noteq> key) ys = ys" if "key \<le> k" using asc that by (force simp: filter_id_conv sorted_wrt_append)
  ultimately show ?thesis by (auto simp: del_list_def)
qed

lemma set_ins_list: "set (map fst (ins_list key val xs)) = insert key (set (map fst xs))"
  by (induction key val xs rule: ins_list.induct) auto

lemma ascending_ins_list: "ascending_keys xs \<Longrightarrow> ascending_keys (ins_list key val xs)"
proof (induction key val xs rule: ins_list.induct)
  case (2 key val k v xs)
  then show ?case using set_ins_list [of key val xs] by auto
qed simp

lemma ascending_del_list: "ascending_keys xs \<Longrightarrow> ascending_keys (del_list key xs)"
  unfolding del_list_def by (induction xs) auto

lemma map_of_ins_list: "ascending_keys xs \<Longrightarrow> map_of (ins_list key val xs) = (map_of xs)(key \<mapsto> val)"
  by (induction key val xs rule: ins_list.induct) (auto simp: fun_eq_iff)

lemma map_of_del_list: "map_of (del_list key xs) = (map_of xs)(key := None)"
  by (induction xs) (auto simp: del_list_def fun_eq_iff)

lemma AddKey_ok:
  assumes "avl_balanced t" and "ascending_keys (inorder t)"
  obtains t' where "AddKey t key val = Some t'" and "avl_balanced t'" and "inorder t' = ins_list key val (inorder t)"
    and "Height t' = Height t \<or> Height t' = Height t + 1"
proof -
  have "\<exists>t'. AddKey t key val = Some t' \<and> avl_balanced t' \<and> inorder t' = ins_list key val (inorder t) \<and>
      (Height t' = Height t \<or> Height t' = Height t + 1)"
    using assms
  proof (induction t)
    case (Node k v l r h)
    have asc: "ascending_keys (inorder l)" "ascending_keys (inorder r)"
      using Node.prems(2) by (simp_all add: sorted_wrt_append)
    note ins = ins_list_append [OF Node.prems(2) [unfolded inorder.simps], of key val]
    consider "k < key" | "key < k" | "k = key" by force
    then show ?case
    proof cases
      case 1
      then obtain r' where r': "AddKey r key val = Some r'" "avl_balanced r'" "inorder r' = ins_list key val (inorder r)"
          "Height r' = Height r \<or> Height r' = Height r + 1" using Node asc by auto
      have "\<bar>Height l - Height r'\<bar> \<le> 2" using r'(4) Node.prems(1) by auto
      then obtain t where t: "Rebalance k v l r' = Some t" "avl_balanced t" "inorder t = inorder l @ (k, v) # inorder r'"
          "Height t = 1 + max (Height l) (Height r') \<or> \<bar>Height l - Height r'\<bar> = 2 \<and> Height t = max (Height l) (Height r')"
        using Rebalance_ok [of l r' k v] r'(2) Node.prems(1) by auto
      with height_grown [of "Height t" "Height l" "Height r'" "Height r" h] r'(4) Node.prems(1)
      have "Height t = h \<or> Height t = h + 1" by simp
      with t(1-3) show ?thesis using 1 r'(1,3) ins by auto
    next
      case 2
      then obtain l' where l': "AddKey l key val = Some l'" "avl_balanced l'" "inorder l' = ins_list key val (inorder l)"
          "Height l' = Height l \<or> Height l' = Height l + 1" using Node asc by auto
      have "\<bar>Height l' - Height r\<bar> \<le> 2" using l'(4) Node.prems(1) by auto
      then obtain t where t: "Rebalance k v l' r = Some t" "avl_balanced t" "inorder t = inorder l' @ (k, v) # inorder r"
          "Height t = 1 + max (Height l') (Height r) \<or> \<bar>Height l' - Height r\<bar> = 2 \<and> Height t = max (Height l') (Height r)"
        using Rebalance_ok [of l' r k v] l'(2) Node.prems(1) by auto
      with height_grown [of "Height t" "Height r" "Height l'" "Height l" h] l'(4) Node.prems(1)
      have "Height t = h \<or> Height t = h + 1" by (simp add: max.commute abs_minus_commute)
      with t(1-3) show ?thesis using 2 l'(1,3) ins by auto
    next
      case 3
      then show ?thesis using ins Node.prems(1) by auto
    qed
  qed auto
  then show ?thesis using that by blast
qed

lemma InOrderHead_ok: "t \<noteq> Null \<Longrightarrow> \<exists>kv xs. InOrderHead t = Some kv \<and> inorder t = kv # xs"
proof (induction t)
  case (Node k v l r h)
  show ?case
  proof (cases "l = Null")
    case False
    with Node.IH(1) obtain kv xs where "InOrderHead l = Some kv" "inorder l = kv # xs" by blast
    then show ?thesis using False by simp
  qed simp
qed simp

lemma InOrderTail_ok: "t \<noteq> Null \<Longrightarrow> \<exists>kv xs. InOrderTail t = Some kv \<and> inorder t = xs @ [kv]"
proof (induction t)
  case (Node k v l r h)
  show ?case
  proof (cases "r = Null")
    case False
    with Node.IH(2) obtain kv xs where "InOrderTail r = Some kv" "inorder r = xs @ [kv]" by blast
    then show ?thesis using False by simp
  qed simp
qed simp

lemma del_list_head: "ascending_keys ((k, v) # xs) \<Longrightarrow> del_list k ((k, v) # xs) = xs"
  using del_list_append [of "[]" k v xs k] by simp

lemma del_list_last: "ascending_keys (xs @ [(k, v)]) \<Longrightarrow> del_list k (xs @ [(k, v)]) = xs"
  using del_list_append [of xs k v "[]" k] by simp

text \<open>Rebalancing after the right or the left child has lost at most one level.\<close>

lemma Rebalance_right:
  assumes "avl_balanced l" "avl_balanced r'" "Height r' = Height r \<or> Height r' = Height r - 1" "\<bar>Height l - Height r\<bar> \<le> 1"
    and "h = 1 + max (Height l) (Height r)"
  shows "\<exists>t. Rebalance k v l r' = Some t \<and> avl_balanced t \<and> inorder t = inorder l @ (k, v) # inorder r' \<and>
    (Height t = h \<or> Height t = h - 1)"
proof -
  have "\<bar>Height l - Height r'\<bar> \<le> 2" using assms(3,4) by linarith
  then obtain t where t: "Rebalance k v l r' = Some t" "avl_balanced t" "inorder t = inorder l @ (k, v) # inorder r'"
      "Height t = 1 + max (Height l) (Height r') \<or> \<bar>Height l - Height r'\<bar> = 2 \<and> Height t = max (Height l) (Height r')"
    using Rebalance_ok [OF assms(1,2)] by blast
  with height_shrunk [OF t(4) assms(3-5)] show ?thesis by blast
qed

lemma Rebalance_left:
  assumes "avl_balanced l'" "avl_balanced r" "Height l' = Height l \<or> Height l' = Height l - 1" "\<bar>Height l - Height r\<bar> \<le> 1"
    and "h = 1 + max (Height l) (Height r)"
  shows "\<exists>t. Rebalance k v l' r = Some t \<and> avl_balanced t \<and> inorder t = inorder l' @ (k, v) # inorder r \<and>
    (Height t = h \<or> Height t = h - 1)"
proof -
  have "\<bar>Height l' - Height r\<bar> \<le> 2" using assms(3,4) by linarith
  then obtain t where t: "Rebalance k v l' r = Some t" "avl_balanced t" "inorder t = inorder l' @ (k, v) # inorder r"
      "Height t = 1 + max (Height l') (Height r) \<or> \<bar>Height l' - Height r\<bar> = 2 \<and> Height t = max (Height l') (Height r)"
    using Rebalance_ok [OF assms(1,2)] by blast
  have "Height t = 1 + max (Height r) (Height l') \<or> \<bar>Height r - Height l'\<bar> = 2 \<and> Height t = max (Height r) (Height l')"
    using t(4) by (simp only: max.commute abs_minus_commute)
  from height_shrunk [OF this assms(3)] assms(4,5) t(1-3) show ?thesis by (simp add: max.commute abs_minus_commute)
qed

lemma RemoveKey_ok:
  assumes "avl_balanced t" and "ascending_keys (inorder t)"
  shows "\<exists>t'. RemoveKey t key = Some t' \<and> avl_balanced t' \<and> inorder t' = del_list key (inorder t) \<and>
    (Height t' = Height t \<or> Height t' = Height t - 1)"
  using assms
proof (induction t arbitrary: key)
  case (Node k v l r h)
  have asc: "ascending_keys (inorder l)" "ascending_keys (inorder r)"
    using Node.prems(2) by (simp_all add: sorted_wrt_append)
  have bal: "avl_balanced l" "avl_balanced r" "\<bar>Height l - Height r\<bar> \<le> 1" "h = 1 + max (Height l) (Height r)"
    using Node.prems(1) by simp_all
  note del = del_list_append [OF Node.prems(2) [unfolded inorder.simps], of key]
  note IHl = Node.IH(1) [OF bal(1) asc(1)] and IHr = Node.IH(2) [OF bal(2) asc(2)]
  consider "key < k" | "k < key" | "k = key" "l = Null" | "k = key" "l \<noteq> Null" "r = Null"
    | "k = key" "l \<noteq> Null" "r \<noteq> Null" "Height l < Height r" | "k = key" "l \<noteq> Null" "r \<noteq> Null" "\<not> Height l < Height r"
    by force
  then show ?case
  proof cases
    case 1
    obtain l' where l': "RemoveKey l key = Some l'" "avl_balanced l'" "inorder l' = del_list key (inorder l)"
      "Height l' = Height l \<or> Height l' = Height l - 1" using IHl by blast
    from Rebalance_left [OF l'(2) bal(2) l'(4) bal(3,4), of k v] show ?thesis using 1 l'(1,3) del by auto
  next
    case 2
    obtain r' where r': "RemoveKey r key = Some r'" "avl_balanced r'" "inorder r' = del_list key (inorder r)"
      "Height r' = Height r \<or> Height r' = Height r - 1" using IHr by blast
    from Rebalance_right [OF bal(1) r'(2) r'(4) bal(3,4), of k v] show ?thesis using 2 r'(1,3) del by auto
  next
    case 3
    then show ?thesis using bal del Height_nonneg [OF bal(2)] by auto
  next
    case 4
    then show ?thesis using bal del Height_nonneg [OF bal(1)] by auto
  next
    case 5
    obtain hk hv xs where hd: "InOrderHead r = Some (hk, hv)" "inorder r = (hk, hv) # xs" using InOrderHead_ok [OF 5(3)] by auto
    obtain r' where r': "RemoveKey r hk = Some r'" "avl_balanced r'" "inorder r' = del_list hk (inorder r)"
      "Height r' = Height r \<or> Height r' = Height r - 1" using IHr by blast
    have "inorder r' = xs" using r'(3) asc(2) del_list_head [of hk hv xs] unfolding hd(2) by simp
    with Rebalance_right [OF bal(1) r'(2) r'(4) bal(3,4), of hk hv] show ?thesis using 5 r'(1) hd del by auto
  next
    case 6
    obtain hk hv xs where tl: "InOrderTail l = Some (hk, hv)" "inorder l = xs @ [(hk, hv)]" using InOrderTail_ok [OF 6(2)] by auto
    obtain l' where l': "RemoveKey l hk = Some l'" "avl_balanced l'" "inorder l' = del_list hk (inorder l)"
      "Height l' = Height l \<or> Height l' = Height l - 1" using IHl by blast
    have "inorder l' = xs" using l'(3) asc(1) del_list_last [of xs hk hv] unfolding tl(2) by simp
    with Rebalance_left [OF l'(2) bal(2) l'(4) bal(3,4), of hk hv] show ?thesis using 6 l'(1) tl del by auto
  qed
qed (simp add: del_list_def)

section \<open>Searching\<close>

lemma map_of_append_ascending:
  "ascending_keys (xs @ (k, v) # ys) \<Longrightarrow>
   map_of (xs @ (k, v) # ys) key = (if k > key then map_of xs key else if k < key then map_of ys key else Some v)"
proof -
  assume asc: "ascending_keys (xs @ (k, v) # ys)"
  have "map_of xs key = None" if "k \<le> key" using asc that by (force simp: map_of_eq_None_iff sorted_wrt_append)
  moreover have "map_of ys key = None" if "key < k" using asc that by (force simp: map_of_eq_None_iff sorted_wrt_append)
  ultimately show ?thesis by (auto simp: map_add_def split: option.splits)
qed

lemma Lookup_map_of: "ascending_keys (inorder t) \<Longrightarrow> Lookup t key = map_of (inorder t) key"
proof (induction t)
  case (Node k v l r h)
  have "ascending_keys (inorder l)" "ascending_keys (inorder r)" using Node.prems by (simp_all add: sorted_wrt_append)
  then have IH: "Lookup l key = map_of (inorder l) key" "Lookup r key = map_of (inorder r) key" using Node.IH by simp_all
  have "Lookup (Node k v l r h) key = (if k > key then Lookup l key else if k < key then Lookup r key else Some v)"
    by (simp add: Lookup_def)
  then show ?case using map_of_append_ascending [of "inorder l" k v "inorder r" key] Node.prems IH by simp
qed (simp add: Lookup_def)

definition last_opt :: "'a list \<Rightarrow> 'a option" where
  "last_opt xs = (if xs = [] then None else Some (last xs))"

lemma last_opt_append: "last_opt (xs @ x # ys) = (case last_opt ys of None \<Rightarrow> Some x | p \<Rightarrow> p)"
  by (simp add: last_opt_def)

text \<open>The last pair with a key up to the given one.\<close>

lemma LookupBelow_spec:
  "ascending_keys (inorder t) \<Longrightarrow>
   LookupBelow d t key = last_opt (filter (\<lambda>p. fst p \<le> d key) (inorder t))"
proof (induction t)
  case (Node k v l r h)
  have asc: "ascending_keys (inorder l)" "ascending_keys (inorder r)" using Node.prems by (simp_all add: sorted_wrt_append)
  note IH = Node.IH(1) [OF asc(1)] Node.IH(2) [OF asc(2)]
  have l: "filter (\<lambda>p. fst p \<le> d key) (inorder l) = inorder l" if "k \<le> d key"
    using Node.prems that by (force simp: filter_id_conv sorted_wrt_append)
  have r: "filter (\<lambda>p. fst p \<le> d key) (inorder r) = []" if "d key \<le> k"
    using Node.prems that by (force simp: filter_empty_conv sorted_wrt_append)
  consider "k > d key" | "k < d key" | "k = d key" by force
  then show ?case
  proof cases
    case 1
    then have "\<not> k \<le> d key" "d key \<le> k" by auto
    then show ?thesis using 1 IH(1) r by (simp add: LookupBelow_def)
  next
    case 2
    have "LookupBelow d (Node k v l r h) key = (case LookupBelow d r key of None \<Rightarrow> Some (k, v) | p \<Rightarrow> p)"
      using 2 not_less_iff_gr_or_eq [of "d key" k] by (simp add: LookupBelow_def split: Node.splits)
    then show ?thesis using less_imp_le [OF 2] IH(2) l by (simp add: last_opt_append)
  next
    case 3
    then show ?thesis using l r by (simp add: LookupBelow_def last_opt_append) (simp add: last_opt_def)
  qed
qed (simp add: LookupBelow_def last_opt_def)

lemma ForEach_fold: "ForEachImpl t f s = fold (\<lambda>(k, v). f k v) (inorder t) s"
  by (induction t arbitrary: s) simp_all

text \<open>The stored heights are the heights, and the tree is shallow: a tree of height \<open>h\<close> has at least \<open>fib (h + 2) - 1\<close> elements.\<close>

fun fib :: "nat \<Rightarrow> nat" where
  "fib 0 = 0"
| "fib (Suc 0) = 1"
| "fib (Suc (Suc n)) = fib n + fib (Suc n)"

lemma avl_size: "avl_balanced t \<Longrightarrow> fib (nat (Height t) + 2) \<le> length (inorder t) + 1"
proof (induction t)
  case (Node k v l r h)
  have nn: "0 \<le> Height l" "0 \<le> Height r" using Node.prems Height_nonneg by auto
  define a b where "a = nat (Height l)" and "b = nat (Height r)"
  have h: "nat h = Suc (max a b)" and ab: "a \<le> Suc b" "b \<le> Suc a" using Node.prems nn by (auto simp: a_def b_def max_def)
  have "fib (max a b + 3) \<le> fib (a + 2) + fib (b + 2)"
  proof (cases "a \<le> b")
    case True
    then consider "b = a" | "b = Suc a" using ab by linarith
    then show ?thesis by cases (simp_all add: numeral_3_eq_3)
  next
    case False
    then have "a = Suc b" using ab by linarith
    then show ?thesis by (simp add: numeral_3_eq_3)
  qed
  moreover have "fib (a + 2) \<le> length (inorder l) + 1" "fib (b + 2) \<le> length (inorder r) + 1"
    using Node by (simp_all add: a_def b_def)
  moreover have "nat (Height (Node k v l r h)) + 2 = max a b + 3" by (simp add: h)
  ultimately show ?case by (simp del: fib.simps add: numeral_3_eq_3)
qed simp

section \<open>Sets\<close>

text \<open>The specialisation without values repeats the code of the maps.\<close>

datatype 'k SNode = SNull | SNode (snode_key: 'k) (sleft: "'k SNode") (sright: "'k SNode") (sheight_field: int)

definition SHeight :: "'k SNode \<Rightarrow> int" where
  "SHeight n = (case n of SNull \<Rightarrow> 0 | SNode _ _ _ h \<Rightarrow> h)"

definition SMakeNode :: "'k \<Rightarrow> 'k SNode \<Rightarrow> 'k SNode \<Rightarrow> 'k SNode" where
  "SMakeNode key l r = SNode key l r (1 + max (SHeight l) (SHeight r))"

fun SGet :: "'k::linorder SNode \<Rightarrow> 'k \<Rightarrow> 'k SNode" where
  "SGet SNull key = SNull"
| "SGet (SNode k l r h) key = (if k > key then SGet l key else if k < key then SGet r key else SNode k l r h)"

fun SRotateLeft :: "'k \<Rightarrow> 'k SNode \<Rightarrow> 'k SNode \<Rightarrow> 'k SNode option" where
  "SRotateLeft key l (SNode rk rl rr _) = Some (SMakeNode rk (SMakeNode key l rl) rr)"
| "SRotateLeft key l SNull = None"

fun SRotateRight :: "'k \<Rightarrow> 'k SNode \<Rightarrow> 'k SNode \<Rightarrow> 'k SNode option" where
  "SRotateRight key (SNode lk ll lr _) r = Some (SMakeNode lk ll (SMakeNode key lr r))"
| "SRotateRight key SNull r = None"

fun SRotateLeftRight :: "'k \<Rightarrow> 'k SNode \<Rightarrow> 'k SNode \<Rightarrow> 'k SNode option" where
  "SRotateLeftRight key (SNode lk ll (SNode lrk lrl lrr _) _) r =
     Some (SMakeNode lrk (SMakeNode lk ll lrl) (SMakeNode key lrr r))"
| "SRotateLeftRight key _ r = None"

fun SRotateRightLeft :: "'k \<Rightarrow> 'k SNode \<Rightarrow> 'k SNode \<Rightarrow> 'k SNode option" where
  "SRotateRightLeft key l (SNode rk (SNode rlk rll rlr _) rr _) =
     Some (SMakeNode rlk (SMakeNode key l rll) (SMakeNode rk rlr rr))"
| "SRotateRightLeft key l _ = None"

fun stilt :: "'k SNode \<Rightarrow> int option" where
  "stilt SNull = None"
| "stilt (SNode _ l r _) = Some (SHeight l - SHeight r)"

definition SRebalance :: "'k \<Rightarrow> 'k SNode \<Rightarrow> 'k SNode \<Rightarrow> 'k SNode option" where
  "SRebalance key l r =
     (let d = SHeight l - SHeight r in
      if d = 2 then
        (case stilt l of
           None \<Rightarrow> None
         | Some t \<Rightarrow> if t = - 1 then SRotateLeftRight key l r else SRotateRight key l r)
      else if d = - 2 then
        (case stilt r of
           None \<Rightarrow> None
         | Some t \<Rightarrow> if t = 1 then SRotateRightLeft key l r else SRotateLeft key l r)
      else Some (SMakeNode key l r))"

fun SAddKey :: "'k::linorder SNode \<Rightarrow> 'k \<Rightarrow> 'k SNode option" where
  "SAddKey SNull key = Some (SMakeNode key SNull SNull)"
| "SAddKey (SNode k l r h) key =
     (if k < key then Option.bind (SAddKey r key) (\<lambda>r'. SRebalance k l r')
      else if key < k then Option.bind (SAddKey l key) (\<lambda>l'. SRebalance k l' r)
      else Some (SMakeNode key l r))"

fun SInOrderHead :: "'k SNode \<Rightarrow> 'k option" where
  "SInOrderHead SNull = None"
| "SInOrderHead (SNode k l r h) = (if l = SNull then Some k else SInOrderHead l)"

fun SInOrderTail :: "'k SNode \<Rightarrow> 'k option" where
  "SInOrderTail SNull = None"
| "SInOrderTail (SNode k l r h) = (if r = SNull then Some k else SInOrderTail r)"

fun SRemoveKey :: "'k::linorder SNode \<Rightarrow> 'k \<Rightarrow> 'k SNode option" where
  "SRemoveKey SNull key = Some SNull"
| "SRemoveKey (SNode k l r h) key =
     (if key < k then Option.bind (SRemoveKey l key) (\<lambda>l'. SRebalance k l' r)
      else if k < key then Option.bind (SRemoveKey r key) (\<lambda>r'. SRebalance k l r')
      else if l = SNull then Some r
      else if r = SNull then Some l
      else if SHeight l < SHeight r
      then Option.bind (SInOrderHead r) (\<lambda>hk. Option.bind (SRemoveKey r hk) (\<lambda>r'. SRebalance hk l r'))
      else Option.bind (SInOrderTail l) (\<lambda>hk. Option.bind (SRemoveKey l hk) (\<lambda>l'. SRebalance hk l' r)))"

definition SLookup :: "'k::linorder SNode \<Rightarrow> 'k \<Rightarrow> bool" where
  "SLookup root key \<longleftrightarrow> SGet root key \<noteq> SNull"

definition SEmpty :: "'k SNode \<Rightarrow> bool" where
  "SEmpty root \<longleftrightarrow> root = SNull"

fun SForEachImpl :: "'k SNode \<Rightarrow> ('k \<Rightarrow> 's \<Rightarrow> 's) \<Rightarrow> 's \<Rightarrow> 's" where
  "SForEachImpl SNull f s = s"
| "SForEachImpl (SNode k l r h) f s = SForEachImpl r f (f k (SForEachImpl l f s))"

text \<open>A set is a map without values: \<open>strip\<close> forgets them, and every operation commutes with it.\<close>

fun strip :: "('k, unit) Node \<Rightarrow> 'k SNode" where
  "strip Null = SNull"
| "strip (Node k v l r h) = SNode k (strip l) (strip r) h"

lemma strip_Null [simp]: "strip t = SNull \<longleftrightarrow> t = Null"
  by (cases t) auto

lemma SHeight_strip [simp]: "SHeight (strip t) = Height t"
  by (cases t) (simp_all add: SHeight_def)

lemma SMakeNode_strip: "SMakeNode k (strip l) (strip r) = strip (MakeNode k v l r)"
  by (simp add: SMakeNode_def MakeNode_def)

lemma strip_rotations:
  "SRotateLeft k (strip l) (strip r) = map_option strip (RotateLeft k v l r)"
  "SRotateRight k (strip l) (strip r) = map_option strip (RotateRight k v l r)"
  "SRotateLeftRight k (strip l) (strip r) = map_option strip (RotateLeftRight k v l r)"
  "SRotateRightLeft k (strip l) (strip r) = map_option strip (RotateRightLeft k v l r)"
proof -
  show "SRotateLeft k (strip l) (strip r) = map_option strip (RotateLeft k v l r)"
    by (cases r) (simp_all add: SMakeNode_strip [symmetric])
  show "SRotateRight k (strip l) (strip r) = map_option strip (RotateRight k v l r)"
    by (cases l) (simp_all add: SMakeNode_strip [symmetric])
  show "SRotateLeftRight k (strip l) (strip r) = map_option strip (RotateLeftRight k v l r)"
  proof (cases l)
    case (Node a b c d e)
    then show ?thesis by (cases d) (simp_all add: SMakeNode_strip [symmetric])
  qed simp
  show "SRotateRightLeft k (strip l) (strip r) = map_option strip (RotateRightLeft k v l r)"
  proof (cases r)
    case (Node a b c d e)
    then show ?thesis by (cases c) (simp_all add: SMakeNode_strip [symmetric])
  qed simp
qed

lemma stilt_strip: "stilt (strip t) = tilt t"
  by (cases t) simp_all

lemma SRebalance_strip: "SRebalance k (strip l) (strip r) = map_option strip (Rebalance k v l r)"
  by (simp add: SRebalance_def Rebalance_def Let_def stilt_strip strip_rotations [of k l r v] SMakeNode_strip [of k l r v]
      split: option.splits)

lemma map_option_bind: "map_option f (Option.bind m g) = Option.bind m (\<lambda>x. map_option f (g x))"
  by (cases m) simp_all

lemma bind_map_option: "Option.bind (map_option f m) g = Option.bind m (\<lambda>x. g (f x))"
  by (cases m) simp_all

lemma SAddKey_strip: "SAddKey (strip t) key = map_option strip (AddKey t key ())"
proof (induction t)
  case Null
  then show ?case using SMakeNode_strip [of key Null Null "()"] by simp
next
  case (Node k v l r h)
  then show ?case
    by (simp add: SRebalance_strip [of _ _ _ v] map_option_bind bind_map_option SMakeNode_strip [of _ _ _ "()"])
qed

lemma SInOrderHead_strip: "SInOrderHead (strip t) = map_option fst (InOrderHead t)"
  by (induction t) simp_all

lemma SInOrderTail_strip: "SInOrderTail (strip t) = map_option fst (InOrderTail t)"
  by (induction t) simp_all

lemma SRemoveKey_strip: "SRemoveKey (strip t) key = map_option strip (RemoveKey t key)"
proof (induction t arbitrary: key)
  case (Node k v l r h)
  have u: "(\<lambda>(hk, hv). f hk hv) = (\<lambda>p. f (fst p) ())" for f :: "'a \<Rightarrow> unit \<Rightarrow> 'c" by auto
  show ?case
    by (simp add: Node SRebalance_strip [of _ _ _ "()"] map_option_bind bind_map_option SInOrderHead_strip SInOrderTail_strip u)
qed simp

lemma SGet_strip: "SGet (strip t) key = strip (Get t key)"
  by (induction t) simp_all

lemma SLookup_strip: "SLookup (strip t) key \<longleftrightarrow> Lookup t key \<noteq> None"
  by (cases "Get t key") (simp_all add: SLookup_def Lookup_def SGet_strip)

lemma SForEach_strip: "SForEachImpl (strip t) f s = ForEachImpl t (\<lambda>k _. f k) s"
  by (induction t arbitrary: s) simp_all

fun dress :: "'k SNode \<Rightarrow> ('k, unit) Node" where
  "dress SNull = Null"
| "dress (SNode k l r h) = Node k () (dress l) (dress r) h"

lemma strip_dress [simp]: "strip (dress t) = t"
  by (induction t) simp_all

end
