(* ===== verification/MapSpec.thy ===== *)
theory MapSpec
  imports Main
begin

text \<open>
  The interface of finite maps: what the clients of gRPC's search trees and of BoringSSL's hash tables rely on.  An operation may
  be undefined on a broken object (\<open>None\<close>); on a good one it succeeds, keeps the object good and changes the lookups as the
  abstract map changes.  \<open>fits k v\<close> says that \<open>v\<close> may be stored under \<open>k\<close>.
\<close>

datatype ('k, 'v) map_op = Put 'k 'v | Del 'k

fun apply_op :: "('k, 'v) map_op \<Rightarrow> ('k \<rightharpoonup> 'v) \<Rightarrow> ('k \<rightharpoonup> 'v)" where
  "apply_op (Put k v) m = m(k \<mapsto> v)"
| "apply_op (Del k) m = m(k := None)"

fun run_ops :: "('m \<Rightarrow> 'k \<Rightarrow> 'v \<Rightarrow> 'm option) \<Rightarrow> ('m \<Rightarrow> 'k \<Rightarrow> 'm option) \<Rightarrow> 'm \<Rightarrow> ('k, 'v) map_op list \<Rightarrow> 'm option" where
  "run_ops ins del m [] = Some m"
| "run_ops ins del m (Put k v # ops) = Option.bind (ins m k v) (\<lambda>m'. run_ops ins del m' ops)"
| "run_ops ins del m (Del k # ops) = Option.bind (del m k) (\<lambda>m'. run_ops ins del m' ops)"

locale map_impl =
  fixes invar :: "'m \<Rightarrow> bool"
    and lookup :: "'m \<Rightarrow> 'k \<Rightarrow> 'v option"
    and ins :: "'m \<Rightarrow> 'k \<Rightarrow> 'v \<Rightarrow> 'm option"
    and del :: "'m \<Rightarrow> 'k \<Rightarrow> 'm option"
    and fits :: "'k \<Rightarrow> 'v \<Rightarrow> bool"
  assumes ins_ok: "invar m \<Longrightarrow> fits k v \<Longrightarrow> \<exists>m'. ins m k v = Some m' \<and> invar m' \<and> lookup m' = (lookup m)(k \<mapsto> v)"
    and del_ok: "invar m \<Longrightarrow> \<exists>m'. del m k = Some m' \<and> invar m' \<and> lookup m' = (lookup m)(k := None)"
begin

text \<open>Any sequence of operations leaves the map that the same operations make of the abstract one.\<close>

lemma run_ops_refines:
  assumes "invar m" and "\<forall>k v. Put k v \<in> set ops \<longrightarrow> fits k v"
  shows "\<exists>m'. run_ops ins del m ops = Some m' \<and> invar m' \<and> lookup m' = fold apply_op ops (lookup m)"
  using assms
proof (induction ops arbitrary: m)
  case (Cons op ops)
  show ?case
  proof (cases op)
    case (Put k v)
    then obtain m' where "ins m k v = Some m'" "invar m'" "lookup m' = (lookup m)(k \<mapsto> v)"
      using ins_ok [OF Cons.prems(1), of k v] Cons.prems(2) by auto
    then show ?thesis using Cons.IH [of m'] Cons.prems(2) Put by (simp del: fun_upd_apply)
  next
    case (Del k)
    then obtain m' where "del m k = Some m'" "invar m'" "lookup m' = (lookup m)(k := None)"
      using del_ok [OF Cons.prems(1), of k] by auto
    then show ?thesis using Cons.IH [of m'] Cons.prems(2) Del by (simp del: fun_upd_apply)
  qed
qed simp

end

end
