(* ===== verification/AvlProps.thy ===== *)
theory AvlProps
  imports Avl MapSpec
begin

text \<open>
  The properties of gRPC's AVL trees: they implement finite maps and sets, and they stay balanced.
\<close>

interpretation avl: map_impl avl_ok Lookup AddKey RemoveKey "\<lambda>_ _. True"
proof unfold_locales
  fix m :: "('a, 'b) Node" and k v assume "avl_ok m"
  then have m: "avl_balanced m" "ascending_keys (inorder m)" by (simp_all add: avl_ok_def)
  obtain t where t: "AddKey m k v = Some t" "avl_balanced t" "inorder t = ins_list k v (inorder m)"
    by (rule AddKey_ok [OF m])
  then show "\<exists>m'. AddKey m k v = Some m' \<and> avl_ok m' \<and> Lookup m' = (Lookup m)(k \<mapsto> v)"
    using m ascending_ins_list [OF m(2), of k v] map_of_ins_list [OF m(2), of k v]
    by (auto simp: avl_ok_def fun_eq_iff Lookup_map_of)
next
  fix m :: "('a, 'b) Node" and k assume "avl_ok m"
  then have m: "avl_balanced m" "ascending_keys (inorder m)" by (simp_all add: avl_ok_def)
  then obtain t where t: "RemoveKey m k = Some t" "avl_balanced t" "inorder t = del_list k (inorder m)"
    using RemoveKey_ok [OF m, of k] by blast
  then show "\<exists>m'. RemoveKey m k = Some m' \<and> avl_ok m' \<and> Lookup m' = (Lookup m)(k := None)"
    using m ascending_del_list [OF m(2), of k] map_of_del_list [of k "inorder m"]
    by (auto simp: avl_ok_def fun_eq_iff Lookup_map_of)
qed

text \<open>The trees that a client can get hold of.\<close>

inductive avl_reachable :: "('k::linorder, 'v) Node \<Rightarrow> bool" where
  empty: "avl_reachable Null"
| add: "avl_reachable t \<Longrightarrow> AddKey t k v = Some t' \<Longrightarrow> avl_reachable t'"
| remove: "avl_reachable t \<Longrightarrow> RemoveKey t k = Some t' \<Longrightarrow> avl_reachable t'"

lemma avl_reachable_ok: "avl_reachable t \<Longrightarrow> avl_ok t"
proof (induction rule: avl_reachable.induct)
  case (add t k v t')
  then show ?case using avl.ins_ok [of t k v] by auto
next
  case (remove t k t')
  then show ?case using avl.del_ok [of t k] by auto
qed (simp add: avl_ok_def)

text \<open>(C11) gRPC's AVL trees implement finite maps: any sequence of \<open>Add\<close> and \<open>Remove\<close> on the empty tree succeeds (no null pointer is
  followed), and afterwards \<open>Lookup\<close> answers as the abstract map does, \<open>LookupBelow\<close> returns the entry with the greatest key
  not above \<open>*key\<close>, and \<open>ForEach\<close> visits the entries in ascending order of their keys; the tree is \<open>Empty\<close> when the map is.\<close>

theorem avl_refines_map:
  fixes ops :: "('k::linorder, 'v) map_op list"
  shows "\<exists>t. run_ops AddKey RemoveKey Null ops = Some t \<and> Empty t = (fold apply_op ops Map.empty = Map.empty) \<and> Lookup t = fold apply_op ops Map.empty \<and>
    sorted_wrt (<) (map fst (inorder t)) \<and> map_of (inorder t) = fold apply_op ops Map.empty \<and>
    (\<forall>deref key. LookupBelow deref t key = last_opt (filter (\<lambda>p. fst p \<le> deref key) (inorder t))) \<and>
    (\<forall>f s. ForEachImpl t f s = fold (\<lambda>(k, v). f k v) (inorder t) s)"
proof -
  have e: "avl_ok (Null :: ('k, 'v) Node)" "Lookup (Null :: ('k, 'v) Node) = Map.empty"
    by (simp_all add: avl_ok_def Lookup_def fun_eq_iff)
  obtain t where t: "run_ops AddKey RemoveKey Null ops = Some t" "avl_ok t" "Lookup t = fold apply_op ops Map.empty"
    using avl.run_ops_refines [OF e(1), of ops] e(2) by auto
  have asc: "sorted_wrt (<) (map fst (inorder t))" using t(2) by (simp add: avl_ok_def)
  then have m: "map_of (inorder t) = Lookup t" by (simp add: fun_eq_iff Lookup_map_of)
  have "Empty t = (map_of (inorder t) = Map.empty)" by (cases t) (auto simp: Empty_def map_of_eq_empty_iff)
  then show ?thesis using t m asc LookupBelow_spec ForEach_fold by metis
qed

text \<open>(C21) The invariant of the trees, by induction over the ways to make one: the stored heights are the heights, the heights of
  siblings differ by at most one, the keys ascend, and so a tree of height \<open>h\<close> has at least \<open>fib (h + 2) - 1\<close> entries: the depth of
  every search is logarithmic.\<close>

theorem avl_stays_balanced:
  assumes "avl_reachable t"
  shows "avl_balanced t \<and> sorted_wrt (<) (map fst (inorder t)) \<and> fib (nat (Height t) + 2) \<le> length (inorder t) + 1"
  using avl_reachable_ok [OF assms] avl_size [of t] by (simp add: avl_ok_def)

theorem avl_stays_balanced_witness:
  "avl_balanced (Node (2::int) ''b'' (Node 1 ''a'' Null Null 1) (Node 3 ''c'' Null Null 1) 2)"
proof -
  let ?t1 = "Node (1::int) ''a'' Null Null 1"
  let ?t2 = "Node (1::int) ''a'' Null (Node 2 ''b'' Null Null 1) 2"
  have "AddKey Null 1 ''a'' = Some ?t1" "AddKey ?t1 2 ''b'' = Some ?t2"
    "AddKey ?t2 3 ''c'' = Some (Node 2 ''b'' (Node 1 ''a'' Null Null 1) (Node 3 ''c'' Null Null 1) 2)"
    by (simp_all add: MakeNode_def Rebalance_def)
  then have "avl_reachable (Node (2::int) ''b'' (Node 1 ''a'' Null Null 1) (Node 3 ''c'' Null Null 1) 2)"
    using avl_reachable.intros by metis
  then show ?thesis using avl_stays_balanced by blast
qed

text \<open>The specialisation for sets computes what the maps compute: on trees that correspond, \<open>Add\<close> and \<open>Remove\<close> yield trees that
  correspond, \<open>Lookup\<close> tells whether the map has the key, and \<open>ForEach\<close> visits the same keys.\<close>

theorem avl_set_is_map_without_values:
  "SAddKey t key = map_option strip (AddKey (dress t) key ()) \<and>
   SRemoveKey t key = map_option strip (RemoveKey (dress t) key) \<and>
   SLookup t key = (Lookup (dress t) key \<noteq> None) \<and> SEmpty t = Empty (dress t) \<and>
   SForEachImpl t f s = ForEachImpl (dress t) (\<lambda>k _. f k) s"
  using SAddKey_strip [of "dress t" key] SRemoveKey_strip [of "dress t" key] SLookup_strip [of "dress t" key]
    SForEach_strip [of "dress t" f s] strip_Null [of "dress t"] by (simp add: SEmpty_def Empty_def)

end
