(* ===== verification/Percent.thy ===== *)
theory Percent
  imports Prelude "HOL-Library.Monad_Syntax"
begin

text \<open>
  gRPC's percent encoding of slices (\<^verbatim>\<open>src/core/lib/slice/percent_encoding.cc\<close>) and the \<open>BitSet<256>\<close> its tables are made of
  (\<^verbatim>\<open>src/core/lib/gprpp/bitset.h\<close>).  A slice is the list of its bytes.  The encoder writes to a new buffer through a moving pointer,
  the decoder in place; a position is an index into the buffer, and an access outside of the buffer or a failed assertion is the
  result \<open>None\<close>.
\<close>

unbundle bit_operations_syntax

section \<open>Bit sets\<close>

type_synonym bitset = "u64 list"

text \<open>\<open>ChooseUnitBitsForBitSet(256)\<close> is 64, so the set has four units of 64 bits.\<close>

definition BitSet256 :: bitset where
  "BitSet256 = replicate ((256 + 64 - 1) div 64) 0"

definition unit_for :: "nat \<Rightarrow> nat" where
  "unit_for i = i div 64"

definition mask_for :: "nat \<Rightarrow> u64" where
  "mask_for i = push_bit (i mod 64) 1"

definition bitset_set :: "bitset \<Rightarrow> nat \<Rightarrow> bitset option" where
  "bitset_set units i = do { u \<leftarrow> mem_at units (unit_for i); mem_put units (unit_for i) (u OR mask_for i) }"

definition bitset_clear :: "bitset \<Rightarrow> nat \<Rightarrow> bitset option" where
  "bitset_clear units i = do { u \<leftarrow> mem_at units (unit_for i); mem_put units (unit_for i) (u AND NOT (mask_for i)) }"

definition bitset_assign :: "bitset \<Rightarrow> nat \<Rightarrow> bool \<Rightarrow> bitset option" where
  "bitset_assign units i is_set = (if is_set then bitset_set units i else bitset_clear units i)"

definition bitset_is_set :: "bitset \<Rightarrow> nat \<Rightarrow> bool option" where
  "bitset_is_set units i = do { u \<leftarrow> mem_at units (unit_for i); Some (u AND mask_for i \<noteq> 0) }"

definition bitset_all :: "bitset \<Rightarrow> bool" where
  "bitset_all units = list_all (\<lambda>u. u = NOT 0) units"

definition bitset_none :: "bitset \<Rightarrow> bool" where
  "bitset_none units = list_all (\<lambda>u. u = 0) units"

definition bitset_eq :: "bitset \<Rightarrow> bitset \<Rightarrow> bool option" where
  "bitset_eq units other = (if length other < length units then None else Some (list_all (\<lambda>(a, b). a = b) (zip units other)))"

section \<open>The tables\<close>

text \<open>\<open>for (int i = first; i <= last; i++) set(i);\<close>\<close>

fun set_list :: "bitset \<Rightarrow> nat list \<Rightarrow> bitset option" where
  "set_list units [] = Some units"
| "set_list units (i # is) = do { units' \<leftarrow> bitset_set units i; set_list units' is }"

definition UrlTable :: "bitset option" where
  "UrlTable = set_list BitSet256 ([97..<123] @ [65..<91] @ [48..<58] @ [45, 95, 46, 126])"

definition CompatibleTable :: "bitset option" where
  "CompatibleTable = set_list BitSet256 (filter (\<lambda>i. i \<noteq> 37) [32..<127])"

datatype PercentEncodingType = URL | Compatible

definition LookupTableForPercentEncodingType :: "PercentEncodingType \<Rightarrow> bitset option" where
  "LookupTableForPercentEncodingType type = (case type of URL \<Rightarrow> UrlTable | Compatible \<Rightarrow> CompatibleTable)"

section \<open>Encoding\<close>

definition hex :: "byte list" where
  "hex = [48, 49, 50, 51, 52, 53, 54, 55, 56, 57, 65, 66, 67, 68, 69, 70]"

text \<open>The first pass: the length of the output, and whether any byte must be escaped.\<close>

fun count_output :: "bitset \<Rightarrow> byte list \<Rightarrow> size_t \<Rightarrow> bool \<Rightarrow> (size_t \<times> bool) option" where
  "count_output lut [] output_length any_reserved = Some (output_length, any_reserved)"
| "count_output lut (c # bytes) output_length any_reserved =
     do {
       unres \<leftarrow> bitset_is_set lut (unat c);
       count_output lut bytes (output_length + (if unres then 1 else 3)) (any_reserved \<or> \<not> unres)
     }"

text \<open>The second pass: the buffer and the position after the last write.\<close>

fun encode_loop :: "bitset \<Rightarrow> byte list \<Rightarrow> byte list \<Rightarrow> nat \<Rightarrow> (byte list \<times> nat) option" where
  "encode_loop lut [] out q = Some (out, q)"
| "encode_loop lut (c # bytes) out q =
     do {
       unres \<leftarrow> bitset_is_set lut (unat c);
       if unres then do { out1 \<leftarrow> mem_put out q c; encode_loop lut bytes out1 (q + 1) }
       else do {
         out1 \<leftarrow> mem_put out q 37;
         hi \<leftarrow> mem_at hex (unat (drop_bit 4 c));
         out2 \<leftarrow> mem_put out1 (q + 1) hi;
         lo \<leftarrow> mem_at hex (unat (c AND 15));
         out3 \<leftarrow> mem_put out2 (q + 2) lo;
         encode_loop lut bytes out3 (q + 3)
       }
     }"

text \<open>\<open>uninit n\<close> are the contents of a new buffer of \<open>n\<close> bytes.\<close>

definition PercentEncodeSlice :: "(nat \<Rightarrow> byte list) \<Rightarrow> byte list \<Rightarrow> PercentEncodingType \<Rightarrow> byte list option" where
  "PercentEncodeSlice uninit bytes type =
     do {
       lut \<leftarrow> LookupTableForPercentEncodingType type;
       (output_length, any_reserved) \<leftarrow> count_output lut bytes 0 False;
       if \<not> any_reserved then Some bytes
       else do {
         (out, q) \<leftarrow> encode_loop lut bytes (uninit (unat output_length)) 0;
         if q = unat output_length then Some out else None
       }
     }"

section \<open>Decoding\<close>

definition is_hex :: "byte \<Rightarrow> bool" where
  "is_hex c \<longleftrightarrow> (c \<ge> 48 \<and> c \<le> 57) \<or> (c \<ge> 97 \<and> c \<le> 102) \<or> (c \<ge> 65 \<and> c \<le> 70)"

definition ValidHex :: "byte list \<Rightarrow> nat \<Rightarrow> bool" where
  "ValidHex buffer p = (case mem_at buffer p of None \<Rightarrow> False | Some c \<Rightarrow> is_hex c)"

definition DeHex :: "byte \<Rightarrow> byte" where
  "DeHex c =
     (if c \<ge> 48 \<and> c \<le> 57 then c - 48
      else if c \<ge> 65 \<and> c \<le> 70 then c - 65 + 10
      else if c \<ge> 97 \<and> c \<le> 102 then c - 97 + 10
      else 255)"

function decode_loop :: "byte list \<Rightarrow> nat \<Rightarrow> nat \<Rightarrow> (byte list \<times> nat) option" where
  "decode_loop buffer p q =
     (if p = length buffer then Some (buffer, q)
      else do {
        c \<leftarrow> mem_at buffer p;
        if c = 37 then
          if \<not> ValidHex buffer (p + 1) \<or> \<not> ValidHex buffer (p + 2)
          then do { buffer' \<leftarrow> mem_put buffer q c; decode_loop buffer' (p + 1) (q + 1) }
          else do {
            h \<leftarrow> mem_at buffer (p + 1);
            l \<leftarrow> mem_at buffer (p + 2);
            buffer' \<leftarrow> mem_put buffer q (push_bit 4 (DeHex h) OR DeHex l);
            decode_loop buffer' (p + 3) (q + 1)
          }
        else do { buffer' \<leftarrow> mem_put buffer q c; decode_loop buffer' (p + 1) (q + 1) }
      })"
  by pat_completeness auto
termination
  by (relation "measure (\<lambda>(buffer, p, q). length buffer - p)") (auto simp: mem_at_def mem_put_def split: if_splits)

definition PermissivePercentDecodeSlice :: "byte list \<Rightarrow> byte list option" where
  "PermissivePercentDecodeSlice slice_in =
     (if \<not> list_ex (\<lambda>c. c = 37) slice_in then Some slice_in
      else do { (out, q) \<leftarrow> decode_loop slice_in 0 0; Some (take q out) })"

end
