(* ===== verification/PercentProps.thy ===== *)
theory PercentProps
  imports Percent
begin

text \<open>
  The properties of gRPC's percent encoding: the encoder escapes exactly the reserved bytes, the in-place decoder computes the
  decoding of every input, and decoding undoes encoding.  The specification (\<open>unreserved\<close>, \<open>escape\<close>, \<open>digit_value\<close>, \<open>pct_decode\<close>)
  uses none of the code's tables and digit functions.
\<close>

section \<open>The tables\<close>

definition in_bitset :: "bitset \<Rightarrow> nat \<Rightarrow> bool" where
  "in_bitset units i \<longleftrightarrow> bit (units ! (i div 64)) (i mod 64)"

lemma bitset_is_set_iff: "length units = 4 \<Longrightarrow> i < 256 \<Longrightarrow> bitset_is_set units i = Some (in_bitset units i)"
  by (simp add: bitset_is_set_def unit_for_def mem_at_def mask_for_def in_bitset_def bit_iff_and_push_bit_not_eq_0)

lemma bitset_set_ok:
  assumes "length units = 4" and "i < 256"
  obtains units' where "bitset_set units i = Some units'" and "length units' = 4"
    and "\<And>j. in_bitset units' j \<longleftrightarrow> j = i \<or> in_bitset units j"
proof -
  let ?u = "units[i div 64 := units ! (i div 64) OR mask_for i]"
  have "in_bitset ?u j \<longleftrightarrow> j = i \<or> in_bitset units j" for j
  proof (cases "j div 64 = i div 64")
    case True
    have "j mod 64 = i mod 64 \<longleftrightarrow> j = i" using True by (metis div_mult_mod_eq)
    then show ?thesis using True assms
      by (auto simp: in_bitset_def mask_for_def bit_or_iff bit_push_bit_iff bit_1_iff bit_exp_iff)
  next
    case False
    then show ?thesis by (auto simp: in_bitset_def)
  qed
  moreover have "bitset_set units i = Some ?u" using assms by (simp add: bitset_set_def unit_for_def mem_at_def mem_put_def)
  ultimately show ?thesis using that assms(1) by simp
qed

lemma set_list_ok:
  assumes "length units = 4" and "\<forall>i \<in> set is. i < 256"
  obtains units' where "set_list units is = Some units'" and "length units' = 4"
    and "\<And>j. in_bitset units' j \<longleftrightarrow> j \<in> set is \<or> in_bitset units j"
proof -
  have "\<exists>units'. set_list units is = Some units' \<and> length units' = 4 \<and> (\<forall>j. in_bitset units' j \<longleftrightarrow> j \<in> set is \<or> in_bitset units j)"
    using assms
  proof (induction "is" arbitrary: units)
    case (Cons i "is")
    obtain u where u: "bitset_set units i = Some u" "length u = 4" "\<And>j. in_bitset u j \<longleftrightarrow> j = i \<or> in_bitset units j"
      using bitset_set_ok [OF Cons.prems(1), of i] Cons.prems(2) by auto
    obtain u' where "set_list u is = Some u'" "length u' = 4" "\<forall>j. in_bitset u' j \<longleftrightarrow> j \<in> set is \<or> in_bitset u j"
      using Cons.IH [OF u(2)] Cons.prems(2) by auto
    then show ?case using u by auto
  qed simp
  then show ?thesis using that by blast
qed

text \<open>The bytes that stand for themselves: the unreserved characters of URLs, and all printable characters but \<open>%\<close>.\<close>

definition unreserved :: "PercentEncodingType \<Rightarrow> byte \<Rightarrow> bool" where
  "unreserved type c = (case type of
     URL \<Rightarrow> 97 \<le> c \<and> c \<le> 122 \<or> 65 \<le> c \<and> c \<le> 90 \<or> 48 \<le> c \<and> c \<le> 57 \<or> c \<in> {45, 95, 46, 126}
   | Compatible \<Rightarrow> 32 \<le> c \<and> c \<le> 126 \<and> c \<noteq> 37)"

lemma tables_ok:
  "\<exists>lut. LookupTableForPercentEncodingType type = Some lut \<and> (\<forall>c :: byte. bitset_is_set lut (unat c) = Some (unreserved type c))"
proof -
  have b: "unat c < 256" for c :: byte using unat_lt_2p [of c] by simp
  have z: "length BitSet256 = 4" by (simp add: BitSet256_def)
  have e: "\<not> in_bitset BitSet256 (unat c)" for c :: byte using b [of c] by (simp add: in_bitset_def BitSet256_def)
  show ?thesis
  proof (cases type)
    case URL
    obtain lut where l: "UrlTable = Some lut" "length lut = 4"
        "\<And>j. in_bitset lut j \<longleftrightarrow> j \<in> set ([97..<123] @ [65..<91] @ [48..<58] @ [45, 95, 46, 126]) \<or> in_bitset BitSet256 j"
      unfolding UrlTable_def by (rule set_list_ok [OF z, of "[97..<123] @ [65..<91] @ [48..<58] @ [45, 95, 46, 126]"]) auto
    show ?thesis
    proof (intro exI [of _ lut] conjI allI)
      fix c :: byte
      have "in_bitset lut (unat c) \<longleftrightarrow> unreserved type c" unfolding l(3)
        using e [of c] by (auto simp: unreserved_def URL word_le_nat_alt word_unat_eq_iff simp del: upt_rec_numeral)
      then show "bitset_is_set lut (unat c) = Some (unreserved type c)" using bitset_is_set_iff [OF l(2) b] by simp
    qed (simp add: LookupTableForPercentEncodingType_def URL l)
  next
    case Compatible
    obtain lut where l: "CompatibleTable = Some lut" "length lut = 4"
        "\<And>j. in_bitset lut j \<longleftrightarrow> j \<in> set (filter (\<lambda>i. i \<noteq> 37) [32..<127]) \<or> in_bitset BitSet256 j"
      unfolding CompatibleTable_def by (rule set_list_ok [OF z, of "filter (\<lambda>i. i \<noteq> 37) [32..<127]"]) auto
    show ?thesis
    proof (intro exI [of _ lut] conjI allI)
      fix c :: byte
      have "in_bitset lut (unat c) \<longleftrightarrow> unreserved type c" unfolding l(3)
        using e [of c] by (auto simp: unreserved_def Compatible word_le_nat_alt word_unat_eq_iff simp del: upt_rec_numeral)
      then show "bitset_is_set lut (unat c) = Some (unreserved type c)" using bitset_is_set_iff [OF l(2) b] by simp
    qed (simp add: LookupTableForPercentEncodingType_def Compatible l)
  qed
qed

section \<open>Encoding\<close>

text \<open>The hexadecimal digit of a number below 16, and the encoding: a reserved byte becomes \<open>%\<close> and its two digits.\<close>

definition hex_digit :: "nat \<Rightarrow> byte" where
  "hex_digit n = of_char (''0123456789ABCDEF'' ! n)"

definition escape :: "PercentEncodingType \<Rightarrow> byte \<Rightarrow> byte list" where
  "escape type c = (if unreserved type c then [c] else [of_char CHR ''%'', hex_digit (unat c div 16), hex_digit (unat c mod 16)])"

definition pct_encode :: "PercentEncodingType \<Rightarrow> byte list \<Rightarrow> byte list" where
  "pct_encode type bytes = concat (map (escape type) bytes)"

lemma pct_encode_simps [simp]:
  "pct_encode type [] = []" "pct_encode type (c # bytes) = escape type c @ pct_encode type bytes"
  by (simp_all add: pct_encode_def)

lemma length_pct_encode: "length (pct_encode type bytes) \<le> 3 * length bytes"
  by (induction bytes) (simp_all add: escape_def)

lemma hex_digits: "unat (drop_bit 4 (c :: byte)) < 16" "unat (c AND 15) < 16"
proof -
  show "unat (drop_bit 4 c) < 16" using unat_lt_2p [of c] unat_drop_bit [of 4 c] by simp
  have "c AND 15 = c AND mask 4" by (simp add: mask_eq_exp_minus_1)
  then show "unat (c AND 15) < 16" using unat_take_mask [of c 4] by simp
qed

lemma length_hex [simp]: "length hex = 16"
  by (simp add: hex_def)

lemma percent_sign [simp]: "of_char CHR ''%'' = (37 :: byte)"
  by code_simp

lemma hex_eq: "n < 16 \<Longrightarrow> hex ! n = hex_digit n"
proof -
  have "list_all (\<lambda>n. hex ! n = hex_digit n) [0..<16]" by code_simp
  then show "n < 16 \<Longrightarrow> hex ! n = hex_digit n" by (auto simp: list_all_iff simp del: upt_rec_numeral)
qed

lemma hex_nibbles: "hex ! unat (drop_bit 4 c) = hex_digit (unat c div 16)" "hex ! unat (c AND 15) = hex_digit (unat (c :: byte) mod 16)"
proof -
  have "unat (drop_bit 4 c) = unat c div 16" using unat_drop_bit [of 4 c] by simp
  moreover have "c AND 15 = c AND mask 4" by (simp add: mask_eq_exp_minus_1)
  then have "unat (c AND 15) = unat c mod 16" using unat_take_mask [of c 4] by simp
  ultimately show "hex ! unat (drop_bit 4 c) = hex_digit (unat c div 16)" "hex ! unat (c AND 15) = hex_digit (unat c mod 16)"
    using hex_eq hex_digits [of c] by simp_all
qed

lemma count_output_ok:
  assumes "\<And>c :: byte. bitset_is_set lut (unat c) = Some (unreserved type c)"
  shows "count_output lut bytes n any = Some (n + of_nat (length (pct_encode type bytes)), any \<or> \<not> list_all (unreserved type) bytes)"
  by (induction bytes arbitrary: n "any") (auto simp: assms escape_def)

lemma encode_loop_ok:
  assumes "\<And>c :: byte. bitset_is_set lut (unat c) = Some (unreserved type c)"
    and "length rest = length (pct_encode type bytes)"
  shows "encode_loop lut bytes (pre @ rest) (length pre) = Some (pre @ pct_encode type bytes, length pre + length (pct_encode type bytes))"
  using assms(2)
proof (induction bytes arbitrary: pre rest)
  case (Cons c bytes)
  show ?case
  proof (cases "unreserved type c")
    case True
    then obtain x rest' where rest: "rest = x # rest'" "length rest' = length (pct_encode type bytes)"
      using Cons.prems by (cases rest) (auto simp: escape_def)
    show ?thesis using Cons.IH [of rest' "pre @ [c]"] True rest
      by (simp add: assms(1) escape_def mem_put_def list_update_append)
  next
    case False
    then obtain x y z rest' where rest: "rest = x # y # z # rest'" "length rest' = length (pct_encode type bytes)"
      using Cons.prems by (auto simp: escape_def length_Suc_conv)
    let ?h = "hex_digit (unat c div 16)" and ?l = "hex_digit (unat c mod 16)"
    show ?thesis using Cons.IH [of rest' "pre @ [37, ?h, ?l]"] False rest hex_digits [of c]
      by (simp add: assms(1) escape_def mem_put_def mem_at_def list_update_append numeral_3_eq_3 hex_nibbles)
  qed
qed simp

lemma pct_encode_id: "list_all (unreserved type) bytes \<Longrightarrow> pct_encode type bytes = bytes"
  by (induction bytes) (simp_all add: escape_def)

lemma encode_ok:
  assumes "3 * length bytes < 2 ^ 64" and "\<And>n. length (uninit n) = n"
  shows "PercentEncodeSlice uninit bytes type = Some (pct_encode type bytes)"
proof -
  obtain lut where lut: "LookupTableForPercentEncodingType type = Some lut" "\<And>c :: byte. bitset_is_set lut (unat c) = Some (unreserved type c)"
    using tables_ok [of type] by blast
  have n: "unat (of_nat (length (pct_encode type bytes)) :: size_t) = length (pct_encode type bytes)"
    using length_pct_encode [of type bytes] assms(1) by (simp add: unat_of_nat take_bit_nat_eq_self)
  show ?thesis using encode_loop_ok [OF lut(2), of "uninit (length (pct_encode type bytes))" bytes "[]"] lut(1) n assms(2) pct_encode_id [of type bytes]
    by (auto simp: PercentEncodeSlice_def count_output_ok [OF lut(2)])
qed

section \<open>Decoding\<close>

text \<open>The decoding of a list of bytes: \<open>%\<close> and two hexadecimal digits are a byte, everything else stands for itself.\<close>

definition digit_value :: "byte \<Rightarrow> nat option" where
  "digit_value = map_of (zip (map of_char ''0123456789ABCDEFabcdef'') ([0..<16] @ [10..<16]))"

fun pct_decode :: "byte list \<Rightarrow> byte list" where
  "pct_decode [] = []"
| "pct_decode (c # bytes) =
     (case bytes of
        h # l # rest \<Rightarrow>
          (case (digit_value h, digit_value l) of
             (Some x, Some y) \<Rightarrow> if c = of_char CHR ''%'' then of_nat (16 * x + y) # pct_decode rest else c # pct_decode bytes
           | _ \<Rightarrow> c # pct_decode bytes)
      | _ \<Rightarrow> c # pct_decode bytes)"

declare pct_decode.simps(2) [simp del] decode_loop.simps [simp del]

text \<open>The code's functions on digits.\<close>

lemma digit_table:
  "digit_value = map_of
    [(48 :: byte, 0), (49, 1), (50, 2), (51, 3), (52, 4), (53, 5), (54, 6), (55, 7), (56, 8), (57, 9), (65, 10), (66, 11), (67, 12), (68, 13),
     (69, 14), (70, 15), (97, 10), (98, 11), (99, 12), (100, 13), (101, 14), (102, 15)]"
proof -
  have "zip (map of_char ''0123456789ABCDEFabcdef'') ([0..<16] @ [10..<16]) =
    [(48 :: byte, 0), (49, 1), (50, 2), (51, 3), (52, 4), (53, 5), (54, 6), (55, 7), (56, 8), (57, 9), (65, 10), (66, 11), (67, 12), (68, 13),
     (69, 14), (70, 15), (97, 10), (98, 11), (99, 12), (100, 13), (101, 14), (102, 15 :: nat)]"
    by code_simp
  then show ?thesis unfolding digit_value_def by (rule arg_cong)
qed

lemma is_hex_cases:
  assumes "is_hex c"
  shows "c \<in> {48, 49, 50, 51, 52, 53, 54, 55, 56, 57, 65, 66, 67, 68, 69, 70, 97, 98, 99, 100, 101, 102}"
proof -
  have "unat c \<in> {48..57} \<union> {65..70} \<union> {97..102}" using assms by (auto simp: is_hex_def word_le_nat_alt)
  then have "unat c \<in> {48, 49, 50, 51, 52, 53, 54, 55, 56, 57, 65, 66, 67, 68, 69, 70, 97, 98, 99, 100, 101, 102}"
    by (simp only: Un_iff atLeastAtMost_iff insert_iff empty_iff) presburger
  then show ?thesis by (simp add: word_unat_eq_iff)
qed

lemma digit_value_eq: "digit_value c = (if is_hex c then Some (unat (DeHex c)) else None)"
proof (cases "is_hex c")
  case True
  from is_hex_cases [OF True] have "digit_value c = Some (unat (DeHex c))"
    by (elim insertE emptyE; simp add: digit_table DeHex_def)
  then show ?thesis using True by simp
next
  case False
  then show ?thesis by (auto simp: digit_table is_hex_def)
qed

lemma DeHex_less: "is_hex c \<Longrightarrow> unat (DeHex c) < 16"
  by (drule is_hex_cases) (elim insertE emptyE; simp add: DeHex_def)

lemma two_digits: "is_hex h \<Longrightarrow> is_hex l \<Longrightarrow> push_bit 4 (DeHex h) OR DeHex l = of_nat (16 * unat (DeHex h) + unat (DeHex l))"
proof -
  assume "is_hex h" "is_hex l"
  have "unat (DeHex l AND mask 4) = unat (DeHex l)" using DeHex_less [OF \<open>is_hex l\<close>] by (simp add: unat_take_mask)
  then have "DeHex l = DeHex l AND mask 4" by (simp add: word_unat_eq_iff)
  then have "push_bit 4 (DeHex h) OR DeHex l = push_bit 4 (DeHex h) OR (DeHex l AND mask 4)" by argo
  also have "\<dots> = push_bit 4 (DeHex h) + (DeHex l AND mask 4)" by (rule disjunctive_add [symmetric]) (auto simp: bit_simps)
  also have "\<dots> = push_bit 4 (DeHex h) + DeHex l" using \<open>DeHex l = DeHex l AND mask 4\<close> by argo
  also have "\<dots> = of_nat (16 * unat (DeHex h) + unat (DeHex l))" by (simp add: push_bit_eq_mult)
  finally show ?thesis .
qed
lemma pct_decode_escape: "is_hex h \<Longrightarrow> is_hex l \<Longrightarrow> pct_decode (37 # h # l # r) = (push_bit 4 (DeHex h) OR DeHex l) # pct_decode r"
  by (simp add: pct_decode.simps(2) [of 37] digit_value_eq two_digits)

lemma pct_decode_plain:
  "\<nexists>h l r. bytes = h # l # r \<and> c = 37 \<and> is_hex h \<and> is_hex l \<Longrightarrow> pct_decode (c # bytes) = c # pct_decode bytes"
  by (auto simp: pct_decode.simps(2) [of c] digit_value_eq split: list.splits)

text \<open>The decoder writes behind its reads: with \<open>pre\<close> written, the bytes \<open>gap\<close> used up and \<open>rest\<close> still to read.\<close>

lemma decode_loop_ok:
  assumes "buffer = pre @ gap @ rest" and "p = length pre + length gap" and "q = length pre"
  shows "\<exists>junk. decode_loop buffer p q = Some (pre @ pct_decode rest @ junk, length pre + length (pct_decode rest))"
  using assms
proof (induction "length rest" arbitrary: rest buffer pre gap p q rule: less_induct)
  case less
  show ?case
  proof (cases rest)
    case Nil
    then show ?thesis using less.prems by (simp add: decode_loop.simps)
  next
    case (Cons c bytes)
    have at: "mem_at buffer p = Some c" using less.prems Cons by (simp add: mem_at_def nth_append)
    have put: "\<exists>gap'. mem_put buffer q x = Some ((pre @ [x]) @ gap' @ bytes) \<and> length gap' = length gap" for x
    proof (cases gap)
      case Nil
      then show ?thesis using less.prems Cons by (intro exI [of _ "[]"]) (simp add: mem_put_def list_update_append)
    next
      case (Cons g gs)
      then show ?thesis using less.prems \<open>rest = c # bytes\<close>
        by (intro exI [of _ "gs @ [c]"]) (simp add: mem_put_def list_update_append)
    qed
    show ?thesis
    proof (cases "\<exists>h l r. bytes = h # l # r \<and> c = 37 \<and> is_hex h \<and> is_hex l")
      case True
      then obtain h l r where hl: "bytes = h # l # r" "c = 37" "is_hex h" "is_hex l" by blast
      let ?x = "push_bit 4 (DeHex h) OR DeHex l"
      obtain gap' where w: "mem_put buffer q ?x = Some ((pre @ [?x]) @ gap' @ bytes)" "length gap' = length gap" using put by blast
      have v: "mem_at buffer (p + 1) = Some h" "mem_at buffer (p + 2) = Some l"
        using less.prems Cons hl(1) by (simp_all add: mem_at_def nth_append)
      have "\<exists>junk. decode_loop ((pre @ [?x]) @ gap' @ bytes) (p + 3) (q + 1) =
          Some ((pre @ [?x]) @ pct_decode r @ junk, length (pre @ [?x]) + length (pct_decode r))"
        using less.hyps [of r "(pre @ [?x]) @ (gap' @ [h, l]) @ r" "pre @ [?x]" "gap' @ [h, l]" "p + 3" "q + 1"] less.prems Cons hl(1) w(2)
        by simp
      then show ?thesis using less.prems Cons hl at v w(1) by (subst decode_loop.simps) (auto simp: ValidHex_def pct_decode_escape)
    next
      case False
      obtain gap' where w: "mem_put buffer q c = Some ((pre @ [c]) @ gap' @ bytes)" "length gap' = length gap" using put by blast
      have d: "pct_decode rest = c # pct_decode bytes" using pct_decode_plain [of bytes c] False Cons by simp
      have v: "c \<noteq> 37 \<or> \<not> ValidHex buffer (p + 1) \<or> \<not> ValidHex buffer (p + 2)"
      proof (rule ccontr)
        assume a: "\<not> ?thesis"
        then have "p + 2 < length buffer" by (auto simp: ValidHex_def mem_at_def split: if_splits)
        then have "2 \<le> length bytes" using less.prems Cons by simp
        then obtain h l r where b: "bytes = h # l # r" by (cases bytes; cases "tl bytes") auto
        have "mem_at buffer (p + 1) = Some h" "mem_at buffer (p + 2) = Some l"
          using less.prems Cons b by (simp_all add: mem_at_def nth_append)
        then show False using a False b by (simp add: ValidHex_def)
      qed
      have "\<exists>junk. decode_loop ((pre @ [c]) @ gap' @ bytes) (p + 1) (q + 1) =
          Some ((pre @ [c]) @ pct_decode bytes @ junk, length (pre @ [c]) + length (pct_decode bytes))"
        using less.hyps [of bytes "(pre @ [c]) @ gap' @ bytes" "pre @ [c]" gap' "p + 1" "q + 1"] less.prems Cons w(2) by simp
      moreover have "p \<noteq> length buffer" using less.prems Cons by simp
      ultimately show ?thesis using d at v w(1) by (subst decode_loop.simps) auto
    qed
  qed
qed

lemma pct_decode_id: "37 \<notin> set bytes \<Longrightarrow> pct_decode bytes = bytes"
  by (induction bytes) (auto simp: pct_decode_plain)

lemma decode_ok: "PermissivePercentDecodeSlice bytes = Some (pct_decode bytes)"
proof (cases "37 \<in> set bytes")
  case True
  then show ?thesis using decode_loop_ok [of bytes "[]" "[]" bytes 0 0] by (auto simp: PermissivePercentDecodeSlice_def list_ex_iff)
next
  case False
  then show ?thesis using pct_decode_id [of bytes] by (auto simp: PermissivePercentDecodeSlice_def list_ex_iff)
qed

section \<open>Round trip\<close>

lemma hex_values: "n < 16 \<Longrightarrow> is_hex (hex ! n) \<and> DeHex (hex ! n) = of_nat n"
proof -
  have "list_all (\<lambda>n. is_hex (hex ! n) \<and> DeHex (hex ! n) = of_nat n) [0..<16]"
    by (simp add: hex_def is_hex_def DeHex_def upt_rec)
  then have "\<forall>n < 16. is_hex (hex ! n) \<and> DeHex (hex ! n) = of_nat n" by (auto simp: list_all_iff simp del: upt_rec_numeral)
  then show "n < 16 \<Longrightarrow> is_hex (hex ! n) \<and> DeHex (hex ! n) = of_nat n" by blast
qed

lemma decode_escape: "pct_decode (escape type c @ rest) = c # pct_decode rest"
proof (cases "unreserved type c")
  case True
  then have "c \<noteq> 37" by (auto simp: unreserved_def split: PercentEncodingType.splits)
  then show ?thesis using True by (simp add: escape_def pct_decode_plain)
next
  case False
  let ?h = "unat (drop_bit 4 c)" and ?l = "unat (c AND 15)"
  have "push_bit 4 (drop_bit 4 c) OR (c AND mask 4) = c" by (intro bit_eqI) (auto simp: bit_simps)
  then have "push_bit 4 (drop_bit 4 c) OR (c AND 15) = c" by (simp add: mask_eq_exp_minus_1)
  then show ?thesis using False hex_values [of ?h] hex_values [of ?l] hex_digits [of c]
    by (simp add: escape_def hex_nibbles [symmetric] pct_decode_escape)
qed

lemma decode_encode: "pct_decode (pct_encode type bytes) = bytes"
  by (induction bytes) (simp_all add: decode_escape)

text \<open>(C29) The in-place decoder computes the decoding of every slice, valid or not: \<open>%\<close> followed by two hexadecimal digits of either case,
  with the values \<open>x\<close> and \<open>y\<close>, becomes the byte \<open>16 x + y\<close>, and every other byte stands for itself, an incomplete escape too.  No read or
  write leaves the buffer, and no byte is overwritten before it is read.\<close>

theorem percent_decode_exact: "PermissivePercentDecodeSlice bytes = Some (pct_decode bytes)"
  by (rule decode_ok)

text \<open>(C28) The encoder escapes exactly the reserved bytes, for both tables, and decoding undoes it: a byte of \<open>unreserved\<close> (for URLs letters,
  digits and \<open>- _ . ~\<close>, for compatibility the printable characters but \<open>%\<close>) is written as it is, every other byte as \<open>%\<close> and its two
  hexadecimal digits in upper case; the encoder writes as many bytes as its first pass counted (its assertion holds), and the decoder
  returns the original slice.\<close>

theorem percent_roundtrip:
  assumes "3 * length bytes < 2 ^ 64" and "\<And>n. length (uninit n) = n"
  shows "PercentEncodeSlice uninit bytes type = Some (concat (map (escape type) bytes)) \<and>
    PermissivePercentDecodeSlice (concat (map (escape type) bytes)) = Some bytes"
  using encode_ok [OF assms] decode_ok [of "pct_encode type bytes"] decode_encode [of type bytes] by (simp add: pct_encode_def)

theorem percent_roundtrip_witness:
  "PercentEncodeSlice (\<lambda>n. replicate n 0) [37, 97, 32] URL = Some [37, 50, 53, 97, 37, 50, 48] \<and>
   PermissivePercentDecodeSlice [37, 50, 53, 97, 37, 50, 48] = Some [37, 97, 32]"
proof -
  have "concat (map (escape URL) [37, 97, 32]) = [37, 50, 53, 97, 37, 50, 48]" by code_simp
  then show ?thesis using percent_roundtrip [of "[37, 97, 32]" "\<lambda>n. replicate n 0" URL] by simp
qed

end
