(* ===== verification/TimerHeap.thy ===== *)
theory TimerHeap
  imports Prelude "HOL-Library.Monad_Syntax" "HOL-Library.Multiset" "HOL-Library.Signed_Division"
begin

text \<open>
  gRPC's heap of timers (\<^verbatim>\<open>src/core/lib/iomgr/timer_heap.cc\<close>): a binary heap of pointers to timers, ordered by deadline, in
  which every timer knows its own position.

  The timers are objects of the callers, found by address; the fields that the heap uses are the deadline and the index.  The
  array of pointers is a list of \<open>timer_capacity\<close> cells, of which \<open>timer_count\<close> are in use.  Indices are 32-bit words, as in the code.
  A result \<open>None\<close> is an access outside of the array, or of an object that does not exist; \<open>gpr_realloc\<close> never fails (it
  aborts), and \<open>uninit\<close> is the contents of new cells.
\<close>

section \<open>Model\<close>

record grpc_timer =
  deadline :: int
  heap_index :: u32

type_synonym timer_store = "nat \<rightharpoonup> grpc_timer"

record grpc_timer_heap =
  timers :: "nat list"
  timer_count :: u32
  timer_capacity :: u32

definition set_index :: "timer_store \<Rightarrow> nat \<Rightarrow> u32 \<Rightarrow> timer_store option" where
  "set_index m t i = do { tm \<leftarrow> m t; Some (m(t \<mapsto> tm\<lparr>heap_index := i\<rparr>)) }"

definition deadline_at :: "timer_store \<Rightarrow> nat list \<Rightarrow> u32 \<Rightarrow> int option" where
  "deadline_at m first i = do { t \<leftarrow> mem_at first (unat i); tm \<leftarrow> m t; Some (deadline tm) }"

text \<open>\<open>first[i] = t; t->heap_index = i;\<close>\<close>

definition place :: "timer_store \<Rightarrow> nat list \<Rightarrow> u32 \<Rightarrow> nat \<Rightarrow> (timer_store \<times> nat list) option" where
  "place m first i t =
     do { first' \<leftarrow> mem_put first (unat i) t; m' \<leftarrow> set_index m t i; Some (m', first') }"

text \<open>\<open>(uint32_t)(((int)i - 1) / 2)\<close>: the division truncates towards zero, so the parent of the root is the root.\<close>

definition parent_of :: "u32 \<Rightarrow> u32" where
  "parent_of i = of_int ((sint i - 1) sdiv 2)"

partial_function (option) adjust_upwards :: "timer_store \<Rightarrow> nat list \<Rightarrow> u32 \<Rightarrow> nat \<Rightarrow> (timer_store \<times> nat list) option" where
  "adjust_upwards m first i t =
     (if i > 0 then do {
        let parent = parent_of i;
        p_deadline \<leftarrow> deadline_at m first parent;
        tm \<leftarrow> m t;
        if p_deadline \<le> deadline tm then place m first i t
        else do {
          p \<leftarrow> mem_at first (unat parent);
          (m', first') \<leftarrow> place m first i p;
          adjust_upwards m' first' parent t
        }
      }
      else place m first i t)"

partial_function (option) adjust_downwards ::
  "timer_store \<Rightarrow> nat list \<Rightarrow> u32 \<Rightarrow> u32 \<Rightarrow> nat \<Rightarrow> (timer_store \<times> nat list) option" where
  "adjust_downwards m first i len t =
     (let left_child = 1 + 2 * i in
      if left_child \<ge> len then place m first i t
      else do {
        let right_child = left_child + 1;
        go_right \<leftarrow> (if right_child < len
                    then do { l \<leftarrow> deadline_at m first left_child; r \<leftarrow> deadline_at m first right_child; Some (l > r) }
                    else Some False);
        let next_i = (if go_right then right_child else left_child);
        tm \<leftarrow> m t;
        n_deadline \<leftarrow> deadline_at m first next_i;
        if deadline tm \<le> n_deadline then place m first i t
        else do {
          p \<leftarrow> mem_at first (unat next_i);
          (m', first') \<leftarrow> place m first i p;
          adjust_downwards m' first' next_i len t
        }
      })"

definition SHRINK_FULLNESS_FACTOR :: u32 where "SHRINK_FULLNESS_FACTOR = 2"

definition maybe_shrink :: "grpc_timer_heap \<Rightarrow> grpc_timer_heap" where
  "maybe_shrink heap =
     (if timer_count heap \<ge> 8 \<and> timer_count heap \<le> timer_capacity heap div SHRINK_FULLNESS_FACTOR div 2
      then let cap = timer_count heap * SHRINK_FULLNESS_FACTOR in
        heap\<lparr>timer_capacity := cap, timers := take (unat cap) (timers heap)\<rparr>
      else heap)"

definition note_changed_priority :: "timer_store \<Rightarrow> grpc_timer_heap \<Rightarrow> nat \<Rightarrow> (timer_store \<times> grpc_timer_heap) option" where
  "note_changed_priority m heap timer =
     do {
       tm \<leftarrow> m timer;
       let i = heap_index tm;
       p_deadline \<leftarrow> deadline_at m (timers heap) (parent_of i);
       (m', ts) \<leftarrow> (if p_deadline > deadline tm then adjust_upwards m (timers heap) i timer
                   else adjust_downwards m (timers heap) i (timer_count heap) timer);
       Some (m', heap\<lparr>timers := ts\<rparr>)
     }"

definition grpc_timer_heap_init :: grpc_timer_heap where
  "grpc_timer_heap_init = \<lparr>timers = [], timer_count = 0, timer_capacity = 0\<rparr>"

definition grpc_timer_heap_add :: "(nat \<Rightarrow> nat list) \<Rightarrow> timer_store \<Rightarrow> grpc_timer_heap \<Rightarrow> nat \<Rightarrow>
    (bool \<times> timer_store \<times> grpc_timer_heap) option" where
  "grpc_timer_heap_add uninit m heap timer =
     do {
       let heap1 = (if timer_count heap = timer_capacity heap
                    then let cap = max (timer_capacity heap + 1) (timer_capacity heap * 3 div 2) in
                      heap\<lparr>timer_capacity := cap,
                           timers := take (unat cap) (timers heap @ uninit (unat cap - length (timers heap)))\<rparr>
                    else heap);
       m1 \<leftarrow> set_index m timer (timer_count heap1);
       (m2, ts) \<leftarrow> adjust_upwards m1 (timers heap1) (timer_count heap1) timer;
       tm \<leftarrow> m2 timer;
       Some (heap_index tm = 0, m2, heap1\<lparr>timers := ts, timer_count := timer_count heap1 + 1\<rparr>)
     }"

definition grpc_timer_heap_remove :: "timer_store \<Rightarrow> grpc_timer_heap \<Rightarrow> nat \<Rightarrow> (timer_store \<times> grpc_timer_heap) option" where
  "grpc_timer_heap_remove m heap timer =
     do {
       tm \<leftarrow> m timer;
       let i = heap_index tm;
       if i = timer_count heap - 1 then Some (m, maybe_shrink (heap\<lparr>timer_count := timer_count heap - 1\<rparr>))
       else do {
         moved \<leftarrow> mem_at (timers heap) (unat (timer_count heap - 1));
         (m1, ts) \<leftarrow> place m (timers heap) i moved;
         let heap1 = maybe_shrink (heap\<lparr>timers := ts, timer_count := timer_count heap - 1\<rparr>);
         moved' \<leftarrow> mem_at (timers heap1) (unat i);
         note_changed_priority m1 heap1 moved'
       }
     }"

definition grpc_timer_heap_is_empty :: "grpc_timer_heap \<Rightarrow> bool" where
  "grpc_timer_heap_is_empty heap \<longleftrightarrow> timer_count heap = 0"

definition grpc_timer_heap_top :: "grpc_timer_heap \<Rightarrow> nat option" where
  "grpc_timer_heap_top heap = mem_at (timers heap) 0"

definition grpc_timer_heap_pop :: "timer_store \<Rightarrow> grpc_timer_heap \<Rightarrow> (timer_store \<times> grpc_timer_heap) option" where
  "grpc_timer_heap_pop m heap = do { t \<leftarrow> grpc_timer_heap_top heap; grpc_timer_heap_remove m heap t }"

end
