(* ===== verification/HeapOrder.thy ===== *)
theory HeapOrder
  imports Main "HOL-Library.Multiset"
begin

text \<open>
  Binary heaps in arrays: the order of the first \<open>n\<close> cells of a list, and what moving one element up or down does to it.  An element is
  moved by swapping it with its neighbours, so the elements stay the same ones.
\<close>

definition par :: "nat \<Rightarrow> nat" where
  "par j = (j - 1) div 2"

lemma par_less: "0 < j \<Longrightarrow> par j < j"
  by (simp add: par_def)

lemma par_iff: "0 < j \<Longrightarrow> par j = i \<longleftrightarrow> j = 2 * i + 1 \<or> j = 2 * i + 2"
  by (auto simp: par_def)

definition swap :: "nat \<Rightarrow> nat \<Rightarrow> 'a list \<Rightarrow> 'a list" where
  "swap i j xs = xs[i := xs ! j, j := xs ! i]"

lemma length_swap [simp]: "length (swap i j xs) = length xs"
  by (simp add: swap_def)

lemma nth_swap: "i < length xs \<Longrightarrow> j < length xs \<Longrightarrow> swap i j xs ! k = (if k = j then xs ! i else if k = i then xs ! j else xs ! k)"
  by (auto simp: swap_def nth_list_update)

lemma mset_take_swap:
  assumes "i < n" and "j < n" and "n \<le> length xs"
  shows "mset (take n (swap i j xs)) = mset (take n xs)"
proof -
  have "take n (swap i j xs) = (take n xs)[i := take n xs ! j, j := take n xs ! i]" using assms by (simp add: swap_def take_update_swap)
  then show ?thesis using assms mset_swap [of j "take n xs" i] by simp
qed

definition heap_order :: "('a \<Rightarrow> 'b::linorder) \<Rightarrow> nat \<Rightarrow> 'a list \<Rightarrow> bool" where
  "heap_order d n xs \<longleftrightarrow> (\<forall>j. 0 < j \<and> j < n \<longrightarrow> d (xs ! par j) \<le> d (xs ! j))"

text \<open>The order but for the element at \<open>i\<close>; its children are in order with its parent.\<close>

definition order_but :: "('a \<Rightarrow> 'b::linorder) \<Rightarrow> nat \<Rightarrow> nat \<Rightarrow> 'a list \<Rightarrow> bool" where
  "order_but d n i xs \<longleftrightarrow> (\<forall>j. 0 < j \<and> j < n \<and> j \<noteq> i \<and> par j \<noteq> i \<longrightarrow> d (xs ! par j) \<le> d (xs ! j)) \<and>
     (\<forall>c. 0 < i \<and> 0 < c \<and> c < n \<and> par c = i \<longrightarrow> d (xs ! par i) \<le> d (xs ! c))"

definition above_ok :: "('a \<Rightarrow> 'b::linorder) \<Rightarrow> nat \<Rightarrow> 'a list \<Rightarrow> bool" where
  "above_ok d i xs \<longleftrightarrow> (0 < i \<longrightarrow> d (xs ! par i) \<le> d (xs ! i))"

definition below_ok :: "('a \<Rightarrow> 'b::linorder) \<Rightarrow> nat \<Rightarrow> nat \<Rightarrow> 'a list \<Rightarrow> bool" where
  "below_ok d n i xs \<longleftrightarrow> (\<forall>c. 0 < c \<and> c < n \<and> par c = i \<longrightarrow> d (xs ! i) \<le> d (xs ! c))"

lemma heap_order_iff: "i < n \<Longrightarrow> order_but d n i xs \<Longrightarrow> heap_order d n xs \<longleftrightarrow> above_ok d i xs \<and> below_ok d n i xs"
proof
  assume i: "i < n" and o: "order_but d n i xs"
  show "above_ok d i xs \<and> below_ok d n i xs" if "heap_order d n xs"
    using that i by (auto simp: heap_order_def above_ok_def below_ok_def)
  show "heap_order d n xs" if ab: "above_ok d i xs \<and> below_ok d n i xs"
    unfolding heap_order_def
  proof (intro allI impI)
    fix j assume j: "0 < j \<and> j < n"
    consider "j = i" | "par j = i" | "j \<noteq> i" "par j \<noteq> i" by blast
    then show "d (xs ! par j) \<le> d (xs ! j)"
    proof cases
      case 1
      then show ?thesis using ab j by (simp add: above_ok_def)
    next
      case 2
      then show ?thesis using ab j by (simp add: below_ok_def)
    next
      case 3
      then show ?thesis using o j by (simp add: order_but_def)
    qed
  qed
qed

lemma heap_order_but: "heap_order d n xs \<Longrightarrow> order_but d n i xs"
proof -
  assume o: "heap_order d n xs"
  have "d (xs ! par i) \<le> d (xs ! c)" if "0 < i" "0 < c" "c < n" "par c = i" for c
  proof -
    have "i < n" using par_less [of c] that by simp
    then have "d (xs ! par i) \<le> d (xs ! i)" using o that(1) by (simp add: heap_order_def)
    also have "\<dots> \<le> d (xs ! c)" using o that by (auto simp: heap_order_def)
    finally show ?thesis .
  qed
  then show ?thesis using o by (simp add: order_but_def heap_order_def)
qed

lemma root_least:
  assumes "heap_order d n xs" and "j < n"
  shows "d (xs ! 0) \<le> d (xs ! j)"
  using assms(2)
proof (induction j rule: less_induct)
  case (less j)
  show ?case
  proof (cases "j = 0")
    case False
    then have "d (xs ! 0) \<le> d (xs ! par j)" using less par_less [of j] by simp
    also have "\<dots> \<le> d (xs ! j)" using assms(1) False less.prems by (simp add: heap_order_def)
    finally show ?thesis .
  qed simp
qed

section \<open>Moving an element up\<close>

function sift_up :: "('a \<Rightarrow> 'b::linorder) \<Rightarrow> 'a list \<Rightarrow> nat \<Rightarrow> 'a list" where
  "sift_up d xs i = (if 0 < i \<and> \<not> d (xs ! par i) \<le> d (xs ! i) then sift_up d (swap i (par i) xs) (par i) else xs)"
  by pat_completeness auto
termination
  by (relation "measure (\<lambda>(d, xs, i). i)") (auto simp: par_less)

declare sift_up.simps [simp del]

lemma up_step:
  assumes "i < n" and "n \<le> length xs" and "order_but d n i xs" and "below_ok d n i xs" and "0 < i" and "\<not> d (xs ! par i) \<le> d (xs ! i)"
  shows "order_but d n (par i) (swap i (par i) xs)" and "below_ok d n (par i) (swap i (par i) xs)"
proof -
  have p: "par i < i" using assms(5) by (rule par_less)
  have n: "swap i (par i) xs ! k = (if k = par i then xs ! i else if k = i then xs ! par i else xs ! k)" for k
    using assms(1,2) p by (simp add: nth_swap)
  have o: "d (xs ! par j) \<le> d (xs ! j)" if "0 < j" "j < n" "j \<noteq> i" "par j \<noteq> i" for j
    using assms(3) that by (simp add: order_but_def)
  have c: "d (xs ! par i) \<le> d (xs ! c)" if "0 < c" "c < n" "par c = i" for c using assms(3,5) that by (simp add: order_but_def)
  show "below_ok d n (par i) (swap i (par i) xs)"
    unfolding below_ok_def
  proof (intro allI impI)
    fix k assume k: "0 < k \<and> k < n \<and> par k = par i"
    then have "k \<noteq> par i" using par_less [of k] by auto
    then show "d (swap i (par i) xs ! par i) \<le> d (swap i (par i) xs ! k)"
      using o [of k] k assms(6) p par_less [of k] by (cases "k = i") (auto simp: n)
  qed
  show "order_but d n (par i) (swap i (par i) xs)"
    unfolding order_but_def
  proof (intro conjI allI impI)
    fix k assume k: "0 < k \<and> k < n \<and> k \<noteq> par i \<and> par k \<noteq> par i"
    then show "d (swap i (par i) xs ! par k) \<le> d (swap i (par i) xs ! k)"
      using o [of k] c [of k] par_less [of k] by (cases "par k = i") (auto simp: n)
  next
    fix k assume k: "0 < par i \<and> 0 < k \<and> k < n \<and> par k = par i"
    have g: "par (par i) < par i" using k par_less by blast
    have gp: "d (xs ! par (par i)) \<le> d (xs ! par i)" using o [of "par i"] k p g assms(1) by simp
    have "k \<noteq> par i" using k par_less [of k] by auto
    then show "d (swap i (par i) xs ! par (par i)) \<le> d (swap i (par i) xs ! k)"
      using gp o [of k] k g p by (cases "k = i") (auto simp: n)
  qed
qed

lemma sift_up_ok:
  assumes "i < n" and "n \<le> length xs" and "order_but d n i xs" and "below_ok d n i xs"
  shows "heap_order d n (sift_up d xs i) \<and> mset (take n (sift_up d xs i)) = mset (take n xs) \<and> length (sift_up d xs i) = length xs"
  using assms
proof (induction d xs i rule: sift_up.induct)
  case (1 d xs i)
  show ?case
  proof (cases "0 < i \<and> \<not> d (xs ! par i) \<le> d (xs ! i)")
    case True
    have p: "par i < n" using par_less [of i] True 1(2) by simp
    note s = up_step [OF 1(2-5) conjunct1 [OF True] conjunct2 [OF True]]
    have "mset (take n (swap i (par i) xs)) = mset (take n xs)" using mset_take_swap [OF 1(2) p 1(3)] .
    then show ?thesis using 1(1) [OF True p _ s] 1(3) True by (simp add: sift_up.simps [of d xs i])
  next
    case False
    then show ?thesis using heap_order_iff [OF 1(2,4)] 1(5) by (auto simp: sift_up.simps [of d xs i] above_ok_def)
  qed
qed

text \<open>The element comes to the root iff it is below the root.\<close>

lemma root_least_but:
  assumes "order_but d n i xs" and "j < i" and "j < n"
  shows "d (xs ! 0) \<le> d (xs ! j)"
  using assms(2,3)
proof (induction j rule: less_induct)
  case (less j)
  show ?case
  proof (cases "j = 0")
    case False
    then have p: "par j < j" by (simp add: par_less)
    then have "d (xs ! 0) \<le> d (xs ! par j)" using less by simp
    also have "\<dots> \<le> d (xs ! j)" using assms(1) False less.prems p by (simp add: order_but_def)
    finally show ?thesis .
  qed simp
qed

lemma sift_up_root:
  assumes "i < n" and "n \<le> length xs" and "order_but d n i xs" and "below_ok d n i xs"
  shows "sift_up d xs i ! 0 = (if i = 0 \<or> d (xs ! i) < d (xs ! 0) then xs ! i else xs ! 0)"
  using assms
proof (induction d xs i rule: sift_up.induct)
  case (1 d xs i)
  show ?case
  proof (cases "0 < i \<and> \<not> d (xs ! par i) \<le> d (xs ! i)")
    case True
    have p: "par i < i" using par_less [of i] True by simp
    note s = up_step [OF 1(2-5) conjunct1 [OF True] conjunct2 [OF True]]
    show ?thesis using 1(1) [OF True _ _ s] 1(2,3) True p by (auto simp: sift_up.simps [of d xs i] nth_swap)
  next
    case False
    have "d (xs ! 0) \<le> d (xs ! i)" if "0 < i"
      using root_least_but [OF 1(4), of "par i"] par_less [OF that] False that 1(2) by (auto intro: order_trans)
    then show ?thesis using False by (auto simp: sift_up.simps [of d xs i])
  qed
qed

section \<open>Moving an element down\<close>

definition small_child :: "('a \<Rightarrow> 'b::linorder) \<Rightarrow> nat \<Rightarrow> 'a list \<Rightarrow> nat \<Rightarrow> nat" where
  "small_child d n xs i = (if 2 * i + 2 < n \<and> d (xs ! (2 * i + 1)) > d (xs ! (2 * i + 2)) then 2 * i + 2 else 2 * i + 1)"

lemma small_child_ok:
  assumes "2 * i + 1 < n"
  shows "i < small_child d n xs i" and "small_child d n xs i < n" and "par (small_child d n xs i) = i"
    and "0 < c \<Longrightarrow> c < n \<Longrightarrow> par c = i \<Longrightarrow> d (xs ! small_child d n xs i) \<le> d (xs ! c)"
  using assms by (auto simp: small_child_def par_iff)

function sift_down :: "('a \<Rightarrow> 'b::linorder) \<Rightarrow> nat \<Rightarrow> 'a list \<Rightarrow> nat \<Rightarrow> 'a list" where
  "sift_down d n xs i =
     (if 2 * i + 1 < n \<and> \<not> d (xs ! i) \<le> d (xs ! small_child d n xs i)
      then sift_down d n (swap i (small_child d n xs i) xs) (small_child d n xs i) else xs)"
  by pat_completeness auto
termination
  by (relation "measure (\<lambda>(d, n, xs, i). n - i)") (auto simp: small_child_def)

declare sift_down.simps [simp del]

lemma down_step:
  assumes "n \<le> length xs" and "order_but d n i xs" and "above_ok d i xs" and "2 * i + 1 < n"
    and "\<not> d (xs ! i) \<le> d (xs ! small_child d n xs i)"
  defines "x \<equiv> small_child d n xs i"
  shows "order_but d n x (swap i x xs)" and "above_ok d x (swap i x xs)"
proof -
  note x = small_child_ok [OF assms(4), where d = d and xs = xs, folded x_def]
  have n: "swap i x xs ! k = (if k = x then xs ! i else if k = i then xs ! x else xs ! k)" for k
    using assms(1) x(1,2) by (simp add: nth_swap)
  have o: "d (xs ! par j) \<le> d (xs ! j)" if "0 < j" "j < n" "j \<noteq> i" "par j \<noteq> i" for j
    using assms(2) that by (simp add: order_but_def)
  have c: "d (xs ! par i) \<le> d (xs ! x)" if "0 < i" using assms(2) x(1-3) that by (auto simp: order_but_def)
  show "above_ok d x (swap i x xs)" using assms(5) x(1,3) by (simp add: above_ok_def n x_def [symmetric])
  show "order_but d n x (swap i x xs)"
    unfolding order_but_def
  proof (intro conjI allI impI)
    fix k assume k: "0 < k \<and> k < n \<and> k \<noteq> x \<and> par k \<noteq> x"
    then show "d (swap i x xs ! par k) \<le> d (swap i x xs ! k)"
      using o [of k] c x(4) [of k] par_less [of k] by (cases "k = i"; cases "par k = i") (auto simp: n)
  next
    fix k assume k: "0 < x \<and> 0 < k \<and> k < n \<and> par k = x"
    then have "k \<noteq> i" "k \<noteq> x" using x(1) par_less [of k] by auto
    then show "d (swap i x xs ! par x) \<le> d (swap i x xs ! k)" using o [of k] k x(1,3) by (auto simp: n)
  qed
qed

lemma sift_down_ok:
  assumes "i < n" and "n \<le> length xs" and "order_but d n i xs" and "above_ok d i xs"
  shows "heap_order d n (sift_down d n xs i) \<and> mset (take n (sift_down d n xs i)) = mset (take n xs) \<and> length (sift_down d n xs i) = length xs"
  using assms
proof (induction d n xs i rule: sift_down.induct)
  case (1 d n xs i)
  show ?case
  proof (cases "2 * i + 1 < n \<and> \<not> d (xs ! i) \<le> d (xs ! small_child d n xs i)")
    case True
    note x = small_child_ok [OF conjunct1 [OF True], where d = d and xs = xs]
    note s = down_step [OF 1(3-5) conjunct1 [OF True] conjunct2 [OF True]]
    have "mset (take n (swap i (small_child d n xs i) xs)) = mset (take n xs)" using mset_take_swap [OF 1(2) x(2) 1(3)] .
    then show ?thesis using 1(1) [OF True x(2) _ s] 1(3) True by (simp add: sift_down.simps [of d n xs i])
  next
    case False
    have "below_ok d n i xs"
      unfolding below_ok_def
    proof (intro allI impI)
      fix c assume c: "0 < c \<and> c < n \<and> par c = i"
      then have l: "2 * i + 1 < n" using par_iff [of c i] by auto
      then have "d (xs ! i) \<le> d (xs ! small_child d n xs i)" using False by simp
      also have "\<dots> \<le> d (xs ! c)" using small_child_ok(4) [OF l] c by blast
      finally show "d (xs ! i) \<le> d (xs ! c)" .
    qed
    then show ?thesis using heap_order_iff [OF 1(2,4)] 1(5) False by (auto simp: sift_down.simps [of d n xs i])
  qed
qed

end
