(* ===== verification/TimerProps.thy ===== *)
theory TimerProps
  imports TimerHeap HeapOrder
begin

text \<open>
  The heap of timers works as a priority queue: the loops compute the moves of \<open>HeapOrder\<close>, keep the index of every timer, and the
  operations keep the invariant.
\<close>

section \<open>Indices\<close>

lemma parent_of_unat:
  assumes "unat i < 2 ^ 31"
  shows "unat (parent_of i) = par (unat i)"
proof -
  have "int (unat i) < int (2 ^ 31)" using assms by (simp only: of_nat_less_iff)
  then have hi: "uint i < 2 ^ 31" by simp
  have lo: "- (2 ^ 31) \<le> uint i" by (rule order_trans [of _ 0]) simp_all
  have s: "sint i = int (unat i)" using signed_take_bit_int_eq_self [OF lo hi] by (simp add: sint_uint)
  have "(int (unat i) - 1) sdiv 2 = int (par (unat i))"
  proof (cases "unat i = 0")
    case True
    then show ?thesis by (simp add: par_def signed_divide_int_def)
  next
    case False
    have "int k sdiv 2 = int (k div 2)" for k by (cases "k = 0") (simp_all add: signed_divide_int_eq_divide_int zdiv_int)
    moreover have "int (unat i) - 1 = int (unat i - 1)" using False by simp
    ultimately show ?thesis by (simp only: par_def)
  qed
  then have "parent_of i = of_nat (par (unat i))" by (simp add: parent_of_def s)
  moreover have "par (unat i) < 2 ^ 32" using assms by (simp add: par_def)
  ultimately show ?thesis by (simp add: unat_of_nat_less)
qed

lemma child_unat:
  fixes i :: u32
  assumes "unat i < 2 ^ 31"
  shows "unat (1 + 2 * i) = 2 * unat i + 1" and "unat (1 + 2 * i) < 2 ^ 32 - 1 \<Longrightarrow> unat (1 + 2 * i + 1) = 2 * unat i + 2"
proof -
  have "1 + 2 * i = of_nat (2 * unat i + 1)" by simp
  moreover have "unat (of_nat (2 * unat i + 1) :: u32) = 2 * unat i + 1" using assms by (intro unat_of_nat_less) simp
  ultimately show l: "unat (1 + 2 * i) = 2 * unat i + 1" by metis
  assume "unat (1 + 2 * i) < 2 ^ 32 - 1"
  then have "2 * unat i + 2 < 2 ^ 32" using l by simp
  then have "unat (of_nat (2 * unat i + 2) :: u32) = 2 * unat i + 2" by (intro unat_of_nat_less) simp
  moreover have "1 + 2 * i + 1 = of_nat (2 * unat i + 2)" by simp
  ultimately show "unat (1 + 2 * i + 1) = 2 * unat i + 2" by metis
qed

section \<open>The store\<close>

definition dl :: "timer_store \<Rightarrow> nat \<Rightarrow> int" where
  "dl m t = (case m t of None \<Rightarrow> 0 | Some tm \<Rightarrow> deadline tm)"

text \<open>The heap changes indices only.\<close>

definition same_deadlines :: "timer_store \<Rightarrow> timer_store \<Rightarrow> bool" where
  "same_deadlines m m' \<longleftrightarrow> (\<forall>t. map_option deadline (m' t) = map_option deadline (m t))"

definition indexed_but :: "timer_store \<Rightarrow> nat \<Rightarrow> nat \<Rightarrow> nat list \<Rightarrow> bool" where
  "indexed_but m n i L \<longleftrightarrow> (\<forall>j < n. j \<noteq> i \<longrightarrow> (\<exists>tm. m (L ! j) = Some tm \<and> heap_index tm = of_nat j))"

definition indexed :: "timer_store \<Rightarrow> nat \<Rightarrow> nat list \<Rightarrow> bool" where
  "indexed m n L \<longleftrightarrow> (\<forall>j < n. \<exists>tm. m (L ! j) = Some tm \<and> heap_index tm = of_nat j)"

lemma indexed_butD:
  assumes "indexed_but m n i L" and "j < n" and "j \<noteq> i"
  obtains tm where "m (L ! j) = Some tm"
  using assms by (auto simp: indexed_but_def)

lemma same_deadlines_refl: "same_deadlines m m"
  by (simp add: same_deadlines_def)

lemma same_deadlines_trans: "same_deadlines m m' \<Longrightarrow> same_deadlines m' m'' \<Longrightarrow> same_deadlines m m''"
  by (simp add: same_deadlines_def)

lemma same_deadlines_dl: "same_deadlines m m' \<Longrightarrow> dl m' = dl m"
proof
  fix t assume "same_deadlines m m'"
  then have "map_option deadline (m' t) = map_option deadline (m t)" by (simp add: same_deadlines_def)
  then show "dl m' t = dl m t" by (cases "m t"; cases "m' t") (simp_all add: dl_def)
qed

lemma same_deadlines_dom: "same_deadlines m m' \<Longrightarrow> m t \<noteq> None \<Longrightarrow> m' t \<noteq> None"
  by (metis same_deadlines_def option.map_disc_iff)

lemma set_index_ok:
  assumes "m t = Some tm"
  shows "set_index m t i = Some (m(t \<mapsto> tm\<lparr>heap_index := i\<rparr>))" and "same_deadlines m (m(t \<mapsto> tm\<lparr>heap_index := i\<rparr>))"
  using assms by (simp_all add: set_index_def same_deadlines_def)

lemma deadline_at_ok: "unat i < length L \<Longrightarrow> m (L ! unat i) = Some tm \<Longrightarrow> deadline_at m L i = Some (dl m (L ! unat i))"
  by (simp add: deadline_at_def mem_at_def dl_def)

lemma distinct_take_nth: "distinct (take n L) \<Longrightarrow> n \<le> length L \<Longrightarrow> j < n \<Longrightarrow> k < n \<Longrightarrow> L ! j = L ! k \<longleftrightarrow> j = k"
  by (metis length_take min.absorb2 nth_eq_iff_index_eq nth_take)

text \<open>The last store of a loop.\<close>

lemma place_ok:
  assumes "L = first[unat i := t]" and "unat i < n" and "n \<le> length first" and "distinct (take n L)" and "indexed_but m n (unat i) L"
    and "m t = Some tm"
  shows "\<exists>m'. place m first i t = Some (m', L) \<and> same_deadlines m m' \<and> indexed m' n L \<and> (\<forall>u. u \<noteq> t \<longrightarrow> m' u = m u)"
proof -
  let ?m = "m(t \<mapsto> tm\<lparr>heap_index := i\<rparr>)"
  have t: "L ! unat i = t" using assms(1-3) by simp
  have "indexed ?m n L"
    unfolding indexed_def
  proof (intro allI impI)
    fix j assume j: "j < n"
    show "\<exists>tm. ?m (L ! j) = Some tm \<and> heap_index tm = of_nat j"
    proof (cases "j = unat i")
      case True
      then show ?thesis using t by simp
    next
      case False
      then have "L ! j \<noteq> t" using distinct_take_nth [OF assms(4), of j "unat i"] assms(1-3) j t by simp
      then show ?thesis using assms(5) False j by (simp add: indexed_but_def)
    qed
  qed
  then show ?thesis using set_index_ok [of m t tm i, OF assms(6)] assms(1-3) by (simp add: place_def mem_put_def)
qed

text \<open>One step of a loop: the neighbour at \<open>k\<close> moves to \<open>i\<close>, and the free cell is now \<open>k\<close>.\<close>

lemma move_ok:
  assumes "L = first[unat i := t]" and "unat i < n" and "k < n" and "k \<noteq> unat i" and "n \<le> length first" and "distinct (take n L)"
    and "indexed_but m n (unat i) L"
  obtains m' where "mem_at first k = Some (L ! k)" and "place m first i (L ! k) = Some (m', first[unat i := L ! k])"
    and "same_deadlines m m'" and "swap (unat i) k L = (first[unat i := L ! k])[k := t]"
    and "indexed_but m' n k (swap (unat i) k L)" and "distinct (take n (swap (unat i) k L))"
    and "\<forall>u. u \<noteq> L ! k \<longrightarrow> m' u = m u"
proof -
  have len: "length L = length first" using assms(1) by simp
  have k: "first ! k = L ! k" "L ! unat i = t" using assms(1-5) by simp_all
  obtain tm where tm: "m (L ! k) = Some tm" using assms(3,4,7) by (auto simp: indexed_but_def)
  let ?m = "m(L ! k \<mapsto> tm\<lparr>heap_index := i\<rparr>)" and ?L = "swap (unat i) k L"
  have n: "?L ! j = (if j = k then L ! unat i else if j = unat i then L ! k else L ! j)" for j
    using assms(2,3,5) len by (simp add: nth_swap)
  have "indexed_but ?m n k ?L"
    unfolding indexed_but_def
  proof (intro allI impI)
    fix j assume j: "j < n" "j \<noteq> k"
    show "\<exists>tm. ?m (?L ! j) = Some tm \<and> heap_index tm = of_nat j"
    proof (cases "j = unat i")
      case True
      then show ?thesis using j(2) by (simp add: n)
    next
      case False
      then have "L ! j \<noteq> L ! k" using distinct_take_nth [OF assms(6), of j k] assms(3,5) len j by simp
      then show ?thesis using assms(7) False j by (simp add: n indexed_but_def)
    qed
  qed
  moreover have "distinct (take n ?L)"
    using mset_take_swap [of "unat i" n k L] assms(2,3,5,6) len by (metis mset_eq_imp_distinct_iff)
  moreover have "?L = (first[unat i := L ! k])[k := t]" using assms(1) k by (simp add: swap_def)
  ultimately show ?thesis using that [of ?m] k(1) tm set_index_ok [of m "L ! k" tm i, OF tm] assms(2,3,5)
    by (simp add: mem_at_def place_def mem_put_def)
qed

section \<open>The loops\<close>

lemma adjust_upwards_ok:
  assumes "L = first[unat i := t]" and "unat i < n" and "n \<le> length first" and "n \<le> 2 ^ 31" and "distinct (take n L)"
    and "indexed_but m n (unat i) L" and "m t \<noteq> None"
  shows "\<exists>m'. adjust_upwards m first i t = Some (m', sift_up (dl m) L (unat i)) \<and> same_deadlines m m' \<and>
    indexed m' n (sift_up (dl m) L (unat i)) \<and> (\<forall>u. u \<notin> set (take n L) \<longrightarrow> m' u = m u)"
  using assms
proof (induction "unat i" arbitrary: L first i m rule: less_induct)
  case less
  obtain tm where tm: "m t = Some tm" using less.prems(7) by blast
  have t: "L ! unat i = t" and tL: "t \<in> set (take n L)" using less.prems(1-3) by (auto simp: in_set_conv_nth)
  show ?case
  proof (cases "0 < unat i \<and> \<not> dl m (L ! par (unat i)) \<le> dl m t")
    case False
    have "adjust_upwards m first i t = place m first i t"
    proof (cases "i = 0")
      case True
      then show ?thesis by (simp add: adjust_upwards.simps)
    next
      case False
      then have i: "0 < unat i" by (simp add: unat_gt_0)
      then have p: "par (unat i) < unat i" by (rule par_less)
      have u: "unat (parent_of i) = par (unat i)" using parent_of_unat less.prems(2,4) by simp
      obtain ptm where "m (L ! par (unat i)) = Some ptm" using indexed_butD [OF less.prems(6), of "par (unat i)"] less.prems(2) p by auto
      then have "deadline_at m first (parent_of i) = Some (dl m (L ! par (unat i)))"
        using deadline_at_ok [of "parent_of i" first m ptm] u p less.prems(1-3) by simp
      then show ?thesis using False \<open>\<not> (0 < unat i \<and> \<not> dl m (L ! par (unat i)) \<le> dl m t)\<close> i tm
        by (subst adjust_upwards.simps) (simp add: Let_def dl_def word_neq_0_conv)
    qed
    moreover have "sift_up (dl m) L (unat i) = L" using False t by (auto simp: sift_up.simps [of _ L "unat i"])
    ultimately show ?thesis using place_ok [OF less.prems(1-3,5,6) tm] tL by auto
  next
    case True
    then have p: "par (unat i) < unat i" by (simp add: par_less)
    then have pn: "par (unat i) < n" "par (unat i) \<noteq> unat i" using less.prems(2) by auto
    have u: "unat (parent_of i) = par (unat i)" using parent_of_unat less.prems(2,4) by simp
    obtain m1 where m1: "mem_at first (par (unat i)) = Some (L ! par (unat i))"
        "place m first i (L ! par (unat i)) = Some (m1, first[unat i := L ! par (unat i)])" "same_deadlines m m1"
        "swap (unat i) (par (unat i)) L = (first[unat i := L ! par (unat i)])[par (unat i) := t]"
        "indexed_but m1 n (par (unat i)) (swap (unat i) (par (unat i)) L)" "distinct (take n (swap (unat i) (par (unat i)) L))"
        "\<forall>u. u \<noteq> L ! par (unat i) \<longrightarrow> m1 u = m u"
      by (rule move_ok [of L first i t n "par (unat i)" m, OF less.prems(1,2) pn less.prems(3,5,6)])
    have d: "dl m1 = dl m" using same_deadlines_dl [OF m1(3)] .
    obtain m' where m': "adjust_upwards m1 (first[unat i := L ! par (unat i)]) (parent_of i) t =
        Some (m', sift_up (dl m) (swap (unat i) (par (unat i)) L) (par (unat i)))" "same_deadlines m1 m'"
        "indexed m' n (sift_up (dl m) (swap (unat i) (par (unat i)) L) (par (unat i)))"
        "\<forall>u. u \<notin> set (take n (swap (unat i) (par (unat i)) L)) \<longrightarrow> m' u = m1 u"
      using less.hyps [of "parent_of i" "swap (unat i) (par (unat i)) L" "first[unat i := L ! par (unat i)]" m1] u p m1 d less.prems(2-4)
        same_deadlines_dom [OF m1(3) less.prems(7)] by auto
    have st: "set (take n (swap (unat i) (par (unat i)) L)) = set (take n L)"
      using mset_take_swap [of "unat i" n "par (unat i)" L] p less.prems(1-3) by (metis length_list_update less_trans mset_eq_setD)
    have "L ! par (unat i) \<in> set (take n L)" using nth_mem [of "par (unat i)" "take n L"] pn less.prems(1,3) by simp
    then have out: "\<forall>u. u \<notin> set (take n L) \<longrightarrow> m' u = m u" using m'(4) m1(7) st by metis
    obtain ptm where "m (L ! par (unat i)) = Some ptm" using indexed_butD [OF less.prems(6), of "par (unat i)"] less.prems(2) p by auto
    then have "deadline_at m first (parent_of i) = Some (dl m (L ! par (unat i)))"
      using deadline_at_ok [of "parent_of i" first m ptm] u p less.prems(1-3) by simp
    then have "adjust_upwards m first i t = Some (m', sift_up (dl m) (swap (unat i) (par (unat i)) L) (par (unat i)))"
      using True tm m1(1,2) m'(1) u by (subst adjust_upwards.simps) (auto simp: Let_def dl_def word_neq_0_conv unat_gt_0)
    then show ?thesis using True t m'(3) out same_deadlines_trans [OF m1(3) m'(2)] by (simp add: sift_up.simps [of _ L "unat i"])
  qed
qed

lemma downwards_step:
  assumes i31: "unat i < 2 ^ 31" and "unat len \<le> 2 ^ 31" and left: "2 * unat i + 1 < unat len" and tm: "m t = Some tm"
    and at: "\<And>k. unat k < unat len \<Longrightarrow> unat k \<noteq> unat i \<Longrightarrow> deadline_at m first k = Some (dl m (L ! unat k))"
  defines "c \<equiv> small_child (dl m) (unat len) L (unat i)"
  obtains k where "unat k = c" and "adjust_downwards m first i len t =
    (if dl m t \<le> dl m (L ! c) then place m first i t
     else do { p \<leftarrow> mem_at first c; (m', first') \<leftarrow> place m first i p; adjust_downwards m' first' k len t })"
proof -
  let ?l = "1 + 2 * i" and ?r = "1 + 2 * i + 1"
  note l = child_unat(1) [OF i31]
  have r: "unat ?r = 2 * unat i + 2" using child_unat(2) [OF i31] l left assms(2) by simp
  have lt: "\<not> ?l \<ge> len" using l left by (simp add: word_le_nat_alt)
  have rt: "?r < len \<longleftrightarrow> 2 * unat i + 2 < unat len" using r by (simp only: word_less_nat_alt)
  have dleft: "deadline_at m first ?l = Some (dl m (L ! (2 * unat i + 1)))" using at [of ?l] l left by simp
  have dr: "deadline_at m first ?r = Some (dl m (L ! (2 * unat i + 2)))" if "2 * unat i + 2 < unat len" using at [of ?r] r that by (simp only:)
  have dt: "deadline tm = dl m t" using tm by (simp add: dl_def)
  consider (right) "2 * unat i + 2 < unat len" "dl m (L ! (2 * unat i + 1)) > dl m (L ! (2 * unat i + 2))"
    | (both) "2 * unat i + 2 < unat len" "\<not> dl m (L ! (2 * unat i + 1)) > dl m (L ! (2 * unat i + 2))"
    | (one) "\<not> 2 * unat i + 2 < unat len" by blast
  then show ?thesis
  proof cases
    case right
    then have c: "c = 2 * unat i + 2" by (simp add: c_def small_child_def)
    show ?thesis by (rule that [of ?r])
      (use r c in \<open>simp only:\<close>,
       subst adjust_downwards.simps, simp only: Let_def lt rt right dleft dr [OF right(1)] r c tm dt if_True if_False bind.bind_lunit simp_thms)
  next
    case both
    then have c: "c = 2 * unat i + 1" by (simp add: c_def small_child_def)
    show ?thesis by (rule that [of ?l])
      (use l c in \<open>simp only:\<close>,
       subst adjust_downwards.simps, simp only: Let_def lt rt both dleft dr [OF both(1)] l c tm dt if_True if_False bind.bind_lunit simp_thms)
  next
    case one
    then have c: "c = 2 * unat i + 1" by (simp add: c_def small_child_def)
    show ?thesis by (rule that [of ?l])
      (use l c in \<open>simp only:\<close>,
       subst adjust_downwards.simps, simp only: Let_def lt rt one dleft l c tm dt if_True if_False bind.bind_lunit simp_thms)
  qed
qed

lemma adjust_downwards_ok:
  assumes "L = first[unat i := t]" and "unat i < unat len" and "unat len \<le> length first" and "unat len \<le> 2 ^ 31" and "distinct (take (unat len) L)"
    and "indexed_but m (unat len) (unat i) L" and "m t \<noteq> None"
  shows "\<exists>m'. adjust_downwards m first i len t = Some (m', sift_down (dl m) (unat len) L (unat i)) \<and> same_deadlines m m' \<and>
    indexed m' (unat len) (sift_down (dl m) (unat len) L (unat i)) \<and> (\<forall>u. u \<notin> set (take (unat len) L) \<longrightarrow> m' u = m u)"
  using assms
proof (induction "unat len - unat i" arbitrary: L first i m rule: less_induct)
  case less
  let ?n = "unat len" and ?i = "unat i"
  let ?c = "small_child (dl m) ?n L ?i"
  obtain tm where tm: "m t = Some tm" using less.prems(7) by blast
  have t: "L ! ?i = t" and tL: "t \<in> set (take ?n L)" using less.prems(1-3) by (auto simp: in_set_conv_nth)
  have i31: "?i < 2 ^ 31" using less.prems(2,4) by simp
  note l = child_unat(1) [OF i31]
  have at: "deadline_at m first k = Some (dl m (L ! unat k))" if "unat k < ?n" "unat k \<noteq> ?i" for k
    using indexed_butD [OF less.prems(6) that] deadline_at_ok [of k first m] less.prems(1,3) that by (metis less_le_trans nth_list_update_neq)
  show ?case
  proof (cases "2 * ?i + 1 < ?n")
    case False
    then have "adjust_downwards m first i len t = place m first i t"
      using l by (subst adjust_downwards.simps) (simp add: Let_def word_le_nat_alt)
    moreover have "sift_down (dl m) ?n L ?i = L" using False by (simp add: sift_down.simps [of _ _ L ?i])
    ultimately show ?thesis using place_ok [OF less.prems(1-3,5,6) tm] tL by auto
  next
    case True
    note c = small_child_ok(1,2) [OF True, where d = "dl m" and xs = L]
    obtain k where un: "unat k = ?c" and step: "adjust_downwards m first i len t =
        (if dl m t \<le> dl m (L ! ?c) then place m first i t
         else do { p \<leftarrow> mem_at first ?c; (m', first') \<leftarrow> place m first i p; adjust_downwards m' first' k len t })"
      by (rule downwards_step [OF i31 less.prems(4) True tm at])
    show ?thesis
    proof (cases "dl m t \<le> dl m (L ! ?c)")
      case True
      then have "sift_down (dl m) ?n L ?i = L" using t by (auto simp: sift_down.simps [of _ _ L ?i])
      then show ?thesis using True step place_ok [OF less.prems(1-3,5,6) tm] tL by auto
    next
      case False
      have cn: "?c < ?n" "?c \<noteq> ?i" using c by auto
      have dec: "?n - ?c < ?n - ?i" using c by (intro diff_less_mono2) simp_all
      obtain m1 where m1: "mem_at first ?c = Some (L ! ?c)" "place m first i (L ! ?c) = Some (m1, first[?i := L ! ?c])" "same_deadlines m m1"
          "swap ?i ?c L = (first[?i := L ! ?c])[?c := t]" "indexed_but m1 ?n ?c (swap ?i ?c L)" "distinct (take ?n (swap ?i ?c L))"
          "\<forall>u. u \<noteq> L ! ?c \<longrightarrow> m1 u = m u"
        by (rule move_ok [of L first i t ?n ?c m, OF less.prems(1,2) cn less.prems(3,5,6)])
      have d: "dl m1 = dl m" using same_deadlines_dl [OF m1(3)] .
      obtain m' where m': "adjust_downwards m1 (first[?i := L ! ?c]) k len t = Some (m', sift_down (dl m) ?n (swap ?i ?c L) ?c)"
          "same_deadlines m1 m'" "indexed m' ?n (sift_down (dl m) ?n (swap ?i ?c L) ?c)"
          "\<forall>u. u \<notin> set (take ?n (swap ?i ?c L)) \<longrightarrow> m' u = m1 u"
        using less.hyps [of k "swap ?i ?c L" "first[?i := L ! ?c]" m1] dec un c m1(4-6) d less.prems(2-4)
          same_deadlines_dom [OF m1(3) less.prems(7)] by auto
      have st: "set (take ?n (swap ?i ?c L)) = set (take ?n L)"
        using mset_take_swap [of ?i ?n ?c L] cn less.prems(1-3) by (metis length_list_update mset_eq_setD)
      have "L ! ?c \<in> set (take ?n L)" using nth_mem [of ?c "take ?n L"] cn less.prems(1,3) by simp
      then have out: "\<forall>u. u \<notin> set (take ?n L) \<longrightarrow> m' u = m u" using m'(4) m1(7) st by metis
      have "adjust_downwards m first i len t = Some (m', sift_down (dl m) ?n (swap ?i ?c L) ?c)"
        using step False m1(1,2) m'(1) by simp
      then show ?thesis using False True t m'(3) out same_deadlines_trans [OF m1(3) m'(2)] by (simp add: sift_down.simps [of _ _ L ?i])
    qed
  qed
qed

end
