(* ===== verification/PrioQueue.thy ===== *)
theory PrioQueue
  imports Main "HOL-Library.Multiset" "HOL-Library.Monad_Syntax"
begin

text \<open>
  The interface of a priority queue as a client uses it that takes the first element again and again: the priorities belong to the
  state, because a client may keep them there.
\<close>

fun drain :: "('q \<Rightarrow> ('e \<times> 'q) option) \<Rightarrow> nat \<Rightarrow> 'q \<Rightarrow> ('e list \<times> 'q) option" where
  "drain take_min 0 q = Some ([], q)"
| "drain take_min (Suc n) q = do { (e, q1) \<leftarrow> take_min q; (es, q2) \<leftarrow> drain take_min n q1; Some (e # es, q2) }"

locale prio_queue =
  fixes ok :: "'q \<Rightarrow> bool"
    and elems :: "'q \<Rightarrow> 'e multiset"
    and prio :: "'q \<Rightarrow> 'e \<Rightarrow> 'p::linorder"
    and take_min :: "'q \<Rightarrow> ('e \<times> 'q) option"
  assumes take_min_ok: "ok q \<Longrightarrow> elems q \<noteq> {#} \<Longrightarrow>
    \<exists>e q'. take_min q = Some (e, q') \<and> e \<in># elems q \<and> (\<forall>u \<in># elems q. prio q e \<le> prio q u) \<and>
      ok q' \<and> elems q' = elems q - {#e#} \<and> prio q' = prio q"
begin

lemma drain_sorted:
  assumes "ok q" and "size (elems q) = n"
  shows "\<exists>es q'. drain take_min n q = Some (es, q') \<and> ok q' \<and> elems q' = {#} \<and> mset es = elems q \<and> sorted (map (prio q) es)"
  using assms
proof (induction n arbitrary: q)
  case (Suc n)
  then have "elems q \<noteq> {#}" by auto
  then obtain e q1 where q1: "take_min q = Some (e, q1)" "e \<in># elems q" "\<forall>u \<in># elems q. prio q e \<le> prio q u" "ok q1"
      "elems q1 = elems q - {#e#}" "prio q1 = prio q" using take_min_ok [OF Suc.prems(1)] by blast
  have "size (elems q1) = n" using q1(2,5) Suc.prems(2) by (simp add: size_Diff_singleton)
  then obtain es q2 where q2: "drain take_min n q1 = Some (es, q2)" "ok q2" "elems q2 = {#}" "mset es = elems q1" "sorted (map (prio q) es)"
    using Suc.IH [OF q1(4)] q1(6) by auto
  have "mset (e # es) = elems q" using q1(2,5) q2(4) by simp
  moreover have "\<forall>u \<in> set es. prio q e \<le> prio q u" using q1(3,5) q2(4) by (metis in_diffD set_mset_mset)
  ultimately show ?case using q1(1) q2 by auto
qed simp

end

end
