(* ===== verification/TimerQueue.thy ===== *)
theory TimerQueue
  imports TimerProps PrioQueue
begin

text \<open>
  The operations on the heap of timers keep its invariant and change the collection of timers as their names say.
\<close>

section \<open>The invariant\<close>

definition active :: "grpc_timer_heap \<Rightarrow> nat list" where
  "active h = take (unat (timer_count h)) (timers h)"

definition array_ok :: "grpc_timer_heap \<Rightarrow> bool" where
  "array_ok h \<longleftrightarrow> length (timers h) = unat (timer_capacity h) \<and> unat (timer_count h) \<le> length (timers h) \<and> unat (timer_count h) \<le> 2 ^ 31"

definition heap_ok :: "timer_store \<Rightarrow> grpc_timer_heap \<Rightarrow> bool" where
  "heap_ok m h \<longleftrightarrow> array_ok h \<and> distinct (active h) \<and> indexed m (unat (timer_count h)) (timers h) \<and>
     heap_order (dl m) (unat (timer_count h)) (timers h)"

lemma take_cong_nth: "take n L = take n L' \<Longrightarrow> j < n \<Longrightarrow> L ! j = L' ! j"
  by (metis nth_take)

lemma indexed_cong: "take n L = take n L' \<Longrightarrow> indexed m n L \<longleftrightarrow> indexed m n L'"
  using take_cong_nth [of n L L'] by (auto simp: indexed_def)

lemma heap_order_cong:
  assumes "take n L = take n L'"
  shows "heap_order d n L \<longleftrightarrow> heap_order d n L'"
proof -
  have "L ! j = L' ! j \<and> L ! par j = L' ! par j" if "0 < j" "j < n" for j
    using take_cong_nth [OF assms] that par_less [OF that(1)] by simp
  then show ?thesis by (auto simp: heap_order_def)
qed

lemma maybe_shrink_ok:
  assumes "array_ok h"
  shows "array_ok (maybe_shrink h)" and "timer_count (maybe_shrink h) = timer_count h"
    and "take (unat (timer_count h)) (timers (maybe_shrink h)) = take (unat (timer_count h)) (timers h)"
proof -
  have "unat (timer_count h * 2) = 2 * unat (timer_count h)" if "timer_count h \<le> timer_capacity h div 2 div 2"
  proof -
    have "unat (timer_count h) \<le> unat (timer_capacity h) div 2 div 2" using that by (simp add: word_le_nat_alt unat_div)
    then have b: "2 * unat (timer_count h) < 2 ^ 32" using unat_lt_2p [of "timer_capacity h"] by simp
    have "timer_count h * 2 = of_nat (2 * unat (timer_count h))" by simp
    then show ?thesis using unat_of_nat_less [where 'a = 32, of "2 * unat (timer_count h)"] b by (simp add: mult.commute)
  qed
  moreover have "2 * unat (timer_count h) \<le> length (timers h)" if "timer_count h \<le> timer_capacity h div 2 div 2"
    using that assms by (simp add: word_le_nat_alt unat_div array_ok_def)
  ultimately show "array_ok (maybe_shrink h)" "timer_count (maybe_shrink h) = timer_count h"
      "take (unat (timer_count h)) (timers (maybe_shrink h)) = take (unat (timer_count h)) (timers h)"
    using assms by (auto simp: maybe_shrink_def SHRINK_FULLNESS_FACTOR_def Let_def array_ok_def min_def)
qed

section \<open>Adding\<close>

lemma unat_max: "unat (max a b :: u32) = max (unat a) (unat b)"
  by (simp add: max_def word_le_nat_alt)

text \<open>The array after it has grown, if it had to.\<close>

definition grown :: "(nat \<Rightarrow> nat list) \<Rightarrow> grpc_timer_heap \<Rightarrow> grpc_timer_heap" where
  "grown uninit heap =
     (if timer_count heap = timer_capacity heap
      then let cap = max (timer_capacity heap + 1) (timer_capacity heap * 3 div 2) in
        heap\<lparr>timer_capacity := cap, timers := take (unat cap) (timers heap @ uninit (unat cap - length (timers heap)))\<rparr>
      else heap)"

lemma grown_ok:
  assumes "array_ok h" and "unat (timer_count h) < 2 ^ 31" and "\<And>n. length (uninit n) = n"
  shows "array_ok (grown uninit h)" and "timer_count (grown uninit h) = timer_count h" and "unat (timer_count h) < length (timers (grown uninit h))"
    and "take (unat (timer_count h)) (timers (grown uninit h)) = active h"
proof -
  let ?cap = "max (timer_capacity h + 1) (timer_capacity h * 3 div 2)"
  have "unat (timer_capacity h + 1) = unat (timer_capacity h) + 1" if "timer_count h = timer_capacity h"
    using assms(2) that by (subst unat_add_no_overflow) simp_all
  then have "unat (timer_capacity h) < unat ?cap" if "timer_count h = timer_capacity h" using that by (simp add: unat_max)
  then show "array_ok (grown uninit h)" "timer_count (grown uninit h) = timer_count h" "unat (timer_count h) < length (timers (grown uninit h))"
      "take (unat (timer_count h)) (timers (grown uninit h)) = active h"
    using assms by (auto simp: grown_def array_ok_def Let_def active_def min_def word_unat_eq_iff)
qed

text \<open>A timer has index zero iff it is at the root, and it belongs there iff it is due before the timers in order.\<close>

lemma index_root:
  assumes "indexed m n R" and "m t = Some tm" and "t \<in> set (take n R)" and "n \<le> length R" and "n \<le> 2 ^ 31"
  shows "heap_index tm = 0 \<longleftrightarrow> R ! 0 = t"
proof
  assume "R ! 0 = t"
  moreover have "0 < n" using assms(3) by (cases n) auto
  ultimately show "heap_index tm = 0" using assms(1,2) by (auto simp: indexed_def)
next
  assume z: "heap_index tm = 0"
  obtain p where p: "p < n" "R ! p = t" using assms(3,4) by (auto simp: in_set_conv_nth)
  then have "of_nat p = (0 :: u32)" using assms(1,2) z by (auto simp: indexed_def)
  moreover have "unat (of_nat p :: u32) = p" using p(1) assms(5) by (intro unat_of_nat_less) simp
  ultimately show "R ! 0 = t" using p(2) by simp
qed

lemma first_due:
  assumes "heap_order d n L" and "n \<le> length L"
  shows "(n = 0 \<or> d t < d (L ! 0)) \<longleftrightarrow> (\<forall>u \<in> set (take n L). d t < d u)"
proof (cases "n = 0")
  case False
  then have "L ! 0 \<in> set (take n L)" using nth_mem [of 0 "take n L"] assms(2) by simp
  moreover have "d (L ! 0) \<le> d u" if "u \<in> set (take n L)" for u
    using that assms(2) root_least [OF assms(1)] by (auto simp: in_set_conv_nth)
  ultimately show ?thesis using False by (auto intro: less_le_trans)
qed simp

lemma timer_add_ok:
  assumes ok: "heap_ok m h" and t: "m t \<noteq> None" "t \<notin> set (active h)" and n: "unat (timer_count h) < 2 ^ 31" and "\<And>n. length (uninit n) = n"
  shows "\<exists>b m' h'. grpc_timer_heap_add uninit m h t = Some (b, m', h') \<and> heap_ok m' h' \<and> mset (active h') = add_mset t (mset (active h)) \<and>
    same_deadlines m m' \<and> (b \<longleftrightarrow> (\<forall>u \<in> set (active h). dl m t < dl m u))"
proof -
  let ?g = "grown uninit h" and ?n = "unat (timer_count h)"
  have arr: "array_ok h" using ok by (simp add: heap_ok_def)
  note g = grown_ok [OF arr n assms(5)]
  obtain tm where tm: "m t = Some tm" using t(1) by blast
  define m1 where "m1 = m(t \<mapsto> tm\<lparr>heap_index := timer_count h\<rparr>)"
  note m1 = set_index_ok [of m t tm "timer_count h", OF tm, folded m1_def]
  note d1 = same_deadlines_dl [OF m1(2)]
  define L where "L = (timers ?g)[?n := t]"
  have len: "length L = length (timers ?g)" by (simp add: L_def)
  have tk: "take ?n L = active h" using g(4) by (simp add: L_def)
  have Ln: "L ! ?n = t" using g(3) by (simp add: L_def)
  have "take (Suc ?n) L = take ?n L @ [L ! ?n]" using g(3) len by (intro take_Suc_conv_app_nth) simp
  then have L: "take (Suc ?n) L = active h @ [t]" unfolding tk Ln .
  have Lj: "L ! j = timers h ! j" if "j < ?n" for j using take_cong_nth [of ?n L "timers h" j] tk that by (simp add: active_def)
  have ord: "heap_order (dl m) ?n L" using ok heap_order_cong [of ?n L "timers h" "dl m"] tk by (simp add: heap_ok_def active_def)
  have but: "order_but (dl m) (Suc ?n) ?n L" "below_ok (dl m) (Suc ?n) ?n L"
  proof -
    have child: "\<not> (0 < k \<and> k < Suc ?n \<and> par k = ?n)" for k using par_less [of k] by auto
    have "d (L ! par j) \<le> d (L ! j)" if "heap_order d ?n L" "0 < j" "j < Suc ?n" "j \<noteq> ?n" for j and d :: "nat \<Rightarrow> int"
      using that by (simp add: heap_order_def)
    then show "order_but (dl m) (Suc ?n) ?n L" "below_ok (dl m) (Suc ?n) ?n L"
      using ord child unfolding order_but_def below_ok_def by blast+
  qed
  have "indexed_but m1 (Suc ?n) ?n L"
    unfolding indexed_but_def
  proof (intro allI impI)
    fix j assume "j < Suc ?n" "j \<noteq> ?n"
    then have j: "j < ?n" by simp
    have "L ! j \<in> set (take ?n L)" using nth_mem [of j "take ?n L"] j len g(3) by simp
    then have "L ! j \<in> set (active h)" unfolding tk .
    then have "L ! j \<noteq> t" using t(2) by metis
    then show "\<exists>tm. m1 (L ! j) = Some tm \<and> heap_index tm = of_nat j"
      using ok j Lj [OF j] by (simp add: m1_def heap_ok_def indexed_def)
  qed
  moreover have "distinct (take (Suc ?n) L)" using ok t(2) L by (simp add: heap_ok_def)
  ultimately obtain m' where m': "adjust_upwards m1 (timers ?g) (timer_count h) t = Some (m', sift_up (dl m) L ?n)" "same_deadlines m1 m'"
      "indexed m' (Suc ?n) (sift_up (dl m) L ?n)"
    using adjust_upwards_ok [of L "timers ?g" "timer_count h" t "Suc ?n" m1] g(3) n d1 by (auto simp: L_def m1_def)
  let ?R = "sift_up (dl m) L ?n"
  note R = sift_up_ok [of ?n "Suc ?n" L "dl m", OF _ _ but]
  have R: "heap_order (dl m) (Suc ?n) ?R" "mset (take (Suc ?n) ?R) = add_mset t (mset (active h))" "length ?R = length (timers ?g)"
    using R g(3) len L by simp_all
  let ?h = "?g\<lparr>timers := ?R, timer_count := timer_count h + 1\<rparr>"
  have c: "unat (timer_count h + 1) = Suc ?n" using n by (subst unat_add_no_overflow) simp_all
  have sd: "same_deadlines m m'" using same_deadlines_trans [OF m1(2) m'(2)] .
  have act: "active ?h = take (Suc ?n) ?R" using c by (simp add: active_def)
  have dis: "distinct (take (Suc ?n) ?R)" using R(2) ok t(2) L by (metis \<open>distinct (take (Suc ?n) L)\<close> mset_append mset_eq_imp_distinct_iff union_mset_add_mset_right add.right_neutral mset.simps)
  have "heap_ok m' ?h" using R(1,3) dis m'(3) c g(1,3) n act same_deadlines_dl [OF sd] by (simp add: heap_ok_def array_ok_def)
  moreover obtain tm' where tm': "m' t = Some tm'" using same_deadlines_dom [OF sd t(1)] by blast
  have "grpc_timer_heap_add uninit m h t = Some (heap_index tm' = 0, m', ?h)"
    using m1(1) m'(1) tm' g(2) by (simp add: grpc_timer_heap_add_def Let_def grown_def [symmetric])
  moreover have "heap_index tm' = 0 \<longleftrightarrow> ?R ! 0 = t"
    using index_root [OF m'(3), of t tm'] tm' R(2,3) g(3) n by (metis Suc_leI insert_iff set_mset_add_mset_insert set_mset_mset)
  moreover have "?R ! 0 = t \<longleftrightarrow> (\<forall>u \<in> set (active h). dl m t < dl m u)"
  proof -
    have "?R ! 0 = (if ?n = 0 \<or> dl m t < dl m (L ! 0) then t else L ! 0)"
      using sift_up_root [of ?n "Suc ?n" L "dl m", OF _ _ but] g(3) len Ln by simp
    moreover have "L ! 0 \<noteq> t" if "0 < ?n"
    proof -
      have "L ! 0 \<in> set (take ?n L)" using nth_mem [of 0 "take ?n L"] that len g(3) by simp
      then show ?thesis using t(2) unfolding tk by metis
    qed
    ultimately show ?thesis using first_due [OF ord, of t] len g(3) tk by auto
  qed
  ultimately show ?thesis using R(2) act sd by auto
qed

section \<open>Removing\<close>

text \<open>The element at the freed position is moved up or down as its deadline asks.\<close>

lemma note_changed_ok:
  assumes arr: "array_ok h" and dis: "distinct (active h)" and ix: "indexed m (unat (timer_count h)) (timers h)"
    and i: "i < unat (timer_count h)" and but: "order_but (dl m) (unat (timer_count h)) i (timers h)"
  shows "\<exists>m' h'. note_changed_priority m h (timers h ! i) = Some (m', h') \<and> heap_ok m' h' \<and> mset (active h') = mset (active h) \<and> same_deadlines m m'"
proof -
  let ?n = "unat (timer_count h)" and ?L = "timers h" and ?t = "timers h ! i"
  have n: "?n \<le> length ?L" "?n \<le> 2 ^ 31" using arr by (simp_all add: array_ok_def)
  obtain tm where tm: "m ?t = Some tm" "heap_index tm = of_nat i" using ix i by (auto simp: indexed_def)
  have ui: "unat (of_nat i :: u32) = i" using i n by (intro unat_of_nat_less) simp
  have up: "unat (parent_of (of_nat i)) = par i" using parent_of_unat [of "of_nat i"] ui i n(2) by simp
  have "par i \<le> i" by (simp add: par_def)
  then have pn: "par i < ?n" using i by simp
  then obtain ptm where "m (?L ! par i) = Some ptm" using ix by (auto simp: indexed_def)
  then have pd: "deadline_at m ?L (parent_of (of_nat i)) = Some (dl m (?L ! par i))"
    using deadline_at_ok [of "parent_of (of_nat i)" ?L m ptm] up pn n(1) by simp
  have td: "deadline tm = dl m ?t" using tm(1) by (simp add: dl_def)
  have base: "?L = ?L[unat (of_nat i :: u32) := ?t]" "unat (of_nat i :: u32) < ?n" "distinct (take ?n ?L)" "indexed_but m ?n (unat (of_nat i :: u32)) ?L" "m ?t \<noteq> None"
    using ui i dis ix tm(1) by (simp_all add: active_def indexed_but_def indexed_def)
  have fin: "heap_ok m' (h\<lparr>timers := R\<rparr>) \<and> mset (active (h\<lparr>timers := R\<rparr>)) = mset (active h)"
    if "same_deadlines m m'" "indexed m' ?n R" "heap_order (dl m) ?n R \<and> mset (take ?n R) = mset (take ?n ?L) \<and> length R = length ?L" for m' R
    using that arr dis mset_eq_imp_distinct_iff [of "take ?n R" "take ?n ?L"] same_deadlines_dl [OF that(1)]
    by (simp add: heap_ok_def array_ok_def active_def)
  show ?thesis
  proof (cases "dl m (?L ! par i) > dl m ?t")
    case True
    then have "0 < i" by (cases i) (simp_all add: par_def)
    then have "below_ok (dl m) ?n i ?L" using but True unfolding order_but_def below_ok_def by (metis less_imp_le less_le_trans)
    note R = sift_up_ok [OF i n(1) but this]
    obtain m' where "adjust_upwards m ?L (of_nat i) ?t = Some (m', sift_up (dl m) ?L i)" "same_deadlines m m'" "indexed m' ?n (sift_up (dl m) ?L i)"
      using adjust_upwards_ok [OF base(1,2) n base(3-5)] ui by auto
    then show ?thesis using fin [OF _ _ R] True tm pd td by (auto simp: note_changed_priority_def Let_def)
  next
    case False
    then have "above_ok (dl m) i ?L" by (simp add: above_ok_def)
    note R = sift_down_ok [OF i n(1) but this]
    obtain m' where "adjust_downwards m ?L (of_nat i) (timer_count h) ?t = Some (m', sift_down (dl m) ?n ?L i)" "same_deadlines m m'"
        "indexed m' ?n (sift_down (dl m) ?n ?L i)"
      using adjust_downwards_ok [OF base(1,2) n base(3-5)] ui by auto
    then show ?thesis using fin [OF _ _ R] False tm pd td by (auto simp: note_changed_priority_def Let_def)
  qed
qed

text \<open>The array after the last timer \<open>v\<close> was put in the place of the removed one.\<close>

lemma replaced_indexed:
  assumes "indexed m k L" and "\<And>j. j < k \<Longrightarrow> L' ! j = (if j = i then v else L ! j)" and "v \<notin> set (take k L)" and "k \<le> length L"
  shows "indexed (m(v \<mapsto> vm\<lparr>heap_index := of_nat i\<rparr>)) k L'"
  unfolding indexed_def
proof (intro allI impI)
  fix j assume j: "j < k"
  have "L ! j \<in> set (take k L)" using nth_mem [of j "take k L"] j assms(4) by simp
  then have "L ! j \<noteq> v" using assms(3) by metis
  then show "\<exists>tm. (m(v \<mapsto> vm\<lparr>heap_index := of_nat i\<rparr>)) (L' ! j) = Some tm \<and> heap_index tm = of_nat j"
    using assms(1) j assms(2) [OF j] by (simp add: indexed_def)
qed

lemma replaced_order:
  assumes "heap_order d k L" and "\<And>j. j < k \<Longrightarrow> L' ! j = (if j = i then v else L ! j)" and "i < k"
  shows "order_but d k i L'"
  unfolding order_but_def
proof (intro conjI allI impI)
  note old = heap_order_but [OF assms(1), of i]
  fix j assume j: "0 < j \<and> j < k \<and> j \<noteq> i \<and> par j \<noteq> i"
  then have "par j < k" using par_less [of j] by simp
  then show "d (L' ! par j) \<le> d (L' ! j)" using old j assms(2) by (simp add: order_but_def)
next
  note old = heap_order_but [OF assms(1), of i]
  fix c assume c: "0 < i \<and> 0 < c \<and> c < k \<and> par c = i"
  then have "par i < i" "c \<noteq> i" using par_less [of i] par_less [of c] by auto
  then show "d (L' ! par i) \<le> d (L' ! c)" using old c assms(2,3) by (simp add: order_but_def)
qed

lemma timer_remove_ok:
  assumes ok: "heap_ok m h" and t: "t \<in> set (active h)"
  shows "\<exists>m' h'. grpc_timer_heap_remove m h t = Some (m', h') \<and> heap_ok m' h' \<and> mset (active h') = mset (active h) - {#t#} \<and> same_deadlines m m'"
proof -
  let ?n = "unat (timer_count h)" and ?L = "timers h"
  have arr: "array_ok h" and dis: "distinct (take ?n ?L)" and ix: "indexed m ?n ?L" and ord: "heap_order (dl m) ?n ?L"
    using ok by (simp_all add: heap_ok_def active_def)
  have n: "?n \<le> length ?L" "?n \<le> 2 ^ 31" using arr by (simp_all add: array_ok_def)
  obtain i where i: "i < ?n" "?L ! i = t" using t n(1) by (auto simp: active_def in_set_conv_nth)
  obtain tm where tm: "m t = Some tm" "heap_index tm = of_nat i" using ix i by (auto simp: indexed_def)
  have ui: "unat (of_nat i :: u32) = i" using i n by (intro unat_of_nat_less) simp
  define k where "k = ?n - 1"
  have "timer_count h \<noteq> 0" using i(1) by auto
  then have uk: "unat (timer_count h - 1) = k" and nk: "?n = Suc k" using i(1) by (simp_all add: k_def unat_minus_one unat_gt_0)
  have tk: "take ?n ?L = take k ?L @ [?L ! k]" using n(1) nk by (simp add: take_Suc_conv_app_nth)
  have last: "of_nat i = timer_count h - 1 \<longleftrightarrow> i = k" using ui uk by (simp add: word_unat_eq_iff)
  show ?thesis
  proof (cases "i = k")
    case True
    let ?h = "h\<lparr>timer_count := timer_count h - 1\<rparr>"
    have "array_ok ?h" using arr uk nk by (simp add: array_ok_def)
    note s = maybe_shrink_ok [OF this]
    have "indexed m k ?L" "heap_order (dl m) k ?L" using ix ord nk by (simp_all add: indexed_def heap_order_def)
    then have "heap_ok m (maybe_shrink ?h)"
      using s dis tk uk indexed_cong [of k "timers (maybe_shrink ?h)" ?L m] heap_order_cong [of k "timers (maybe_shrink ?h)" ?L "dl m"]
      by (simp add: heap_ok_def active_def)
    moreover have "mset (active (maybe_shrink ?h)) = mset (active h) - {#t#}" using s tk uk True i(2) by (simp add: active_def)
    ultimately show ?thesis using tm last True by (simp add: grpc_timer_heap_remove_def Let_def same_deadlines_refl)
  next
    case False
    then have ik: "i < k" using i(1) nk by simp
    let ?v = "?L ! k"
    obtain vm where vm: "m ?v = Some vm" using ix nk by (auto simp: indexed_def)
    define m1 where "m1 = m(?v \<mapsto> vm\<lparr>heap_index := of_nat i\<rparr>)"
    note m1 = set_index_ok [of m ?v vm "of_nat i", OF vm, folded m1_def]
    note d1 = same_deadlines_dl [OF m1(2)]
    let ?ts = "?L[i := ?v]"
    let ?h = "h\<lparr>timers := ?ts, timer_count := timer_count h - 1\<rparr>"
    have "array_ok ?h" using arr uk nk by (simp add: array_ok_def)
    note s = maybe_shrink_ok [OF this]
    let ?s = "maybe_shrink ?h"
    have ts: "take k (timers ?s) = (take k ?L)[i := ?v]" "unat (timer_count ?s) = k" using s uk ik by (simp_all add: take_update_swap)
    have nth: "timers ?s ! j = (if j = i then ?v else ?L ! j)" if "j < k" for j
    proof -
      have "take k (timers ?s) ! j = (take k ?L)[i := ?v] ! j" using ts(1) by simp
      then show ?thesis using that ik n(1) nk by (simp add: nth_list_update)
    qed
    have new: "?v \<notin> set (take k ?L)" using dis tk by simp
    have dis': "distinct (active ?s)" using dis tk new ts by (simp add: active_def distinct_list_update)
    have ix': "indexed m1 k (timers ?s)"
      using replaced_indexed [of m k ?L "timers ?s" i ?v vm] ix nk nth new n(1) by (simp add: indexed_def m1_def)
    have but: "order_but (dl m1) k i (timers ?s)"
      using replaced_order [of "dl m" k ?L "timers ?s" i ?v] ord nk nth ik unfolding d1 by (simp add: heap_order_def)
    have "mset ((take k ?L)[i := ?v]) = add_mset ?v (mset (take k ?L)) - {#t#}"
    proof -
      have "t \<in># mset (take k ?L)" using nth_mem [of i "take k ?L"] ik n(1) nk i(2) by simp
      then obtain M where "mset (take k ?L) = add_mset t M" by (rule mset_add)
      then show ?thesis using mset_update [of i "take k ?L" ?v] ik n(1) nk i(2) by simp
    qed
    then have ms: "mset (active ?s) = mset (active h) - {#t#}" using ts tk by (simp add: active_def)
    obtain m' h' where "note_changed_priority m1 ?s (timers ?s ! i) = Some (m', h')" "heap_ok m' h'" "mset (active h') = mset (active ?s)" "same_deadlines m1 m'"
      using note_changed_ok [OF s(1) dis', of m1 i] ix' ts(2) ik but by auto
    then show ?thesis using tm last False ms same_deadlines_trans [OF m1(2)] m1(1) uk ui ik nk n(1) nth [OF ik] s(1) ts(2)
      by (auto simp: grpc_timer_heap_remove_def Let_def mem_at_def place_def mem_put_def array_ok_def)
  qed
qed

lemma timer_top_ok:
  assumes "heap_ok m h" and "timer_count h \<noteq> 0"
  obtains t where "grpc_timer_heap_top h = Some t" and "t \<in> set (active h)" and "\<forall>u \<in> set (active h). dl m t \<le> dl m u"
proof -
  let ?n = "unat (timer_count h)"
  have n: "0 < ?n" "?n \<le> length (timers h)" using assms by (simp_all add: heap_ok_def array_ok_def unat_gt_0)
  have "timers h ! 0 \<in> set (active h)" using nth_mem [of 0 "active h"] n by (simp add: active_def)
  moreover have "dl m (timers h ! 0) \<le> dl m u" if u: "u \<in> set (active h)" for u
  proof -
    obtain j where "j < ?n" "u = timers h ! j" using u n(2) by (auto simp: active_def in_set_conv_nth)
    then show ?thesis using root_least [of "dl m" ?n "timers h" j] assms(1) by (simp add: heap_ok_def)
  qed
  moreover have "grpc_timer_heap_top h = Some (timers h ! 0)" using n by (auto simp: grpc_timer_heap_top_def mem_at_def)
  ultimately show ?thesis using that by blast
qed

section \<open>The heap as a priority queue\<close>

text \<open>What a client does that lets the timers fire: take the top and pop it.\<close>

definition next_timer :: "timer_store \<times> grpc_timer_heap \<Rightarrow> (nat \<times> timer_store \<times> grpc_timer_heap) option" where
  "next_timer q = (case q of (m, h) \<Rightarrow>
     do { t \<leftarrow> grpc_timer_heap_top h; q' \<leftarrow> grpc_timer_heap_pop m h; Some (t, q') })"

interpretation timers: prio_queue "\<lambda>(m, h). heap_ok m h" "\<lambda>(m, h). mset (active h)" "\<lambda>(m, h). dl m" next_timer
proof unfold_locales
  fix q assume "case q of (m, h) \<Rightarrow> heap_ok m h" and "(case q of (m, h) \<Rightarrow> mset (active h)) \<noteq> {#}"
  then obtain m h where q: "q = (m, h)" "heap_ok m h" "timer_count h \<noteq> 0" by (cases q; cases "timer_count (snd q) = 0") (auto simp: active_def)
  obtain t where t: "grpc_timer_heap_top h = Some t" "t \<in> set (active h)" "\<forall>u \<in> set (active h). dl m t \<le> dl m u"
    by (rule timer_top_ok [OF q(2,3)])
  obtain m' h' where r: "grpc_timer_heap_remove m h t = Some (m', h')" "heap_ok m' h'" "mset (active h') = mset (active h) - {#t#}" "same_deadlines m m'"
    using timer_remove_ok [OF q(2) t(2)] by blast
  then show "\<exists>e q'. next_timer q = Some (e, q') \<and> e \<in># (case q of (m, h) \<Rightarrow> mset (active h)) \<and>
      (\<forall>u \<in># (case q of (m, h) \<Rightarrow> mset (active h)). (case q of (m, h) \<Rightarrow> dl m) e \<le> (case q of (m, h) \<Rightarrow> dl m) u) \<and>
      (case q' of (m, h) \<Rightarrow> heap_ok m h) \<and> (case q' of (m, h) \<Rightarrow> mset (active h)) = (case q of (m, h) \<Rightarrow> mset (active h)) - {#e#} \<and>
      (case q' of (m, h) \<Rightarrow> dl m) = (case q of (m, h) \<Rightarrow> dl m)"
    using t q(1) same_deadlines_dl [OF r(4)] by (simp add: next_timer_def grpc_timer_heap_pop_def)
qed

lemma timer_init_ok: "heap_ok m grpc_timer_heap_init"
  by (simp add: heap_ok_def array_ok_def active_def indexed_def heap_order_def grpc_timer_heap_init_def)

text \<open>(C22) The heap of timers is a priority queue: adding a timer and removing one, wherever it is, succeed, keep the invariant (the order of
  the deadlines, the position that each timer stores, the capacity of the array) and change the collection of timers by just that
  timer; \<open>grpc_timer_heap_add\<close> returns true iff the new timer is due before all others.\<close>

theorem timer_heap_is_queue:
  assumes "heap_ok m h"
  shows "(\<forall>t uninit. m t \<noteq> None \<and> t \<notin> set (active h) \<and> unat (timer_count h) < 2 ^ 31 \<and> (\<forall>n. length (uninit n) = n) \<longrightarrow>
      (\<exists>b m' h'. grpc_timer_heap_add uninit m h t = Some (b, m', h') \<and> heap_ok m' h' \<and> mset (active h') = add_mset t (mset (active h)) \<and>
         same_deadlines m m' \<and> (b \<longleftrightarrow> (\<forall>u \<in> set (active h). dl m t < dl m u)))) \<and>
    (\<forall>t \<in> set (active h). \<exists>m' h'. grpc_timer_heap_remove m h t = Some (m', h') \<and> heap_ok m' h' \<and>
       mset (active h') = mset (active h) - {#t#} \<and> same_deadlines m m')"
  using timer_add_ok [OF assms] timer_remove_ok [OF assms] by blast

theorem timer_heap_is_queue_witness:
  "\<exists>m' h'. grpc_timer_heap_add (\<lambda>n. replicate n 0) [1 \<mapsto> \<lparr>deadline = 5, heap_index = 9\<rparr>] grpc_timer_heap_init 1 = Some (True, m', h') \<and>
    heap_ok m' h' \<and> mset (active h') = {#1#}"
proof -
  let ?m = "[1 \<mapsto> \<lparr>deadline = 5, heap_index = 9\<rparr>] :: timer_store"
  have a: "active grpc_timer_heap_init = []" "unat (timer_count grpc_timer_heap_init) < 2 ^ 31"
    by (simp_all add: active_def grpc_timer_heap_init_def)
  show ?thesis using conjunct1 [OF timer_heap_is_queue [OF timer_init_ok [of ?m]], rule_format, of 1 "\<lambda>n. replicate n 0"] a by auto
qed

text \<open>(C23) Timers fire in order: taking the top and popping it until the heap is empty yields every timer once, by ascending deadline.\<close>

theorem timers_fire_in_order:
  assumes "heap_ok m h"
  shows "\<exists>ts m' h'. drain next_timer (unat (timer_count h)) (m, h) = Some (ts, m', h') \<and> grpc_timer_heap_is_empty h' \<and>
    mset ts = mset (active h) \<and> sorted (map (dl m) ts)"
proof -
  have "size (mset (active h)) = unat (timer_count h)" using assms by (simp add: heap_ok_def array_ok_def active_def)
  then obtain ts m' h' where "drain next_timer (unat (timer_count h)) (m, h) = Some (ts, m', h')" "heap_ok m' h'" "mset (active h') = {#}"
      "mset ts = mset (active h)" "sorted (map (dl m) ts)"
    using timers.drain_sorted [of "(m, h)"] assms by auto
  then show ?thesis by (auto simp: grpc_timer_heap_is_empty_def active_def heap_ok_def array_ok_def unat_eq_0)
qed

theorem timers_fire_in_order_witness:
  "\<exists>m h ts q. active h = [2, 1] \<and> drain next_timer (unat (timer_count h)) (m, h) = Some (ts, q) \<and> mset ts = {#1, 2#}"
proof -
  let ?m = "[1 \<mapsto> \<lparr>deadline = 7, heap_index = 1\<rparr>, 2 \<mapsto> \<lparr>deadline = 5, heap_index = 0\<rparr>] :: timer_store"
  let ?h = "\<lparr>timers = [2, 1], timer_count = 2, timer_capacity = 2\<rparr>"
  have h: "active ?h = [2, 1]" by (simp add: active_def)
  have two: "j < 2 \<longleftrightarrow> j = 0 \<or> j = 1" for j :: nat by auto
  have "array_ok ?h" by (simp add: array_ok_def)
  moreover have "indexed ?m (unat (timer_count ?h)) (timers ?h)" by (simp add: indexed_def two)
  moreover have "heap_order (dl ?m) (unat (timer_count ?h)) (timers ?h)" by (auto simp: heap_order_def two dl_def par_def)
  ultimately have "heap_ok ?m ?h" using h by (simp add: heap_ok_def)
  from timers_fire_in_order [OF this] obtain ts m' h' where "drain next_timer (unat (timer_count ?h)) (?m, ?h) = Some (ts, m', h')" "mset ts = mset (active ?h)"
    by blast
  then show ?thesis using h by (intro exI [of _ ?m] exI [of _ ?h]) (auto simp: add_mset_commute)
qed

end
