(* ===== verification/Spec2Isabelle.thy ===== *)
theory Spec2Isabelle
  imports PbWireProps PbIterProps PbEncProps BytestringProps SetOf BerProps Base64Props StackProps MemStrProps LhashProps PoolProps AvlProps PercentProps TimerQueue
begin

text \<open>
  \<^bold>\<open>Datability: verification of the byte-level libraries.\<close>

  The repository is an iOS application (Swift, under \<^verbatim>\<open>src/Datability/Datability\<close>) together with the libraries it is built with
  (\<^verbatim>\<open>src/Datability/Pods\<close>): Firebase and Firestore, gRPC, BoringSSL, nanopb, leveldb, abseil, libuv.  The application itself has
  no C code; every byte that it exchanges with the cloud passes through the C libraries.  This development models those of
  them that parse and build untrusted data or hold the data structures that the others rest on.

  \<^bold>\<open>Parts and their theories.\<close>

  \<^item> \<^emph>\<open>Shared ground.\<close>  \<open>Prelude\<close>: the outcome of a C function that may fail (\<open>Ok\<close> result and state, \<open>Fail\<close> with the state left
    behind, \<open>Fault\<close> for undefined behaviour: a read or write outside of an object, a failed \<open>assert\<close>, a loop out of fuel), memory
    as lists with checked access, numbers as little- and big-endian byte strings.  \<open>ByteIO\<close>: the interfaces \<open>byte_source\<close> and
    \<open>byte_sink\<close> as locales.  \<open>Varint\<close>: base-128 numbers.
  \<^item> \<^emph>\<open>nanopb\<close> (\<^verbatim>\<open>nanopb/pb_decode.c\<close>, \<^verbatim>\<open>pb_encode.c\<close>), the wire layer of protocol buffers.  \<open>PbIStream\<close> and \<open>PbOStream\<close> model the
    streams, with the callback of the caller as a parameter, and every decoder and encoder of single values, tags and payloads;
    \<open>PbWire\<close> and \<open>PbWireEnc\<close> relate them to the bytes on the wire and interpret the interfaces; \<open>PbWireProps\<close> has the results:
    exact behaviour on every input, no read outside of the buffer, round trips.  \<open>PbIter\<close> models the iterator over field
    descriptors (\<^verbatim>\<open>pb_common.c\<close>), \<open>PbIterProps\<close> its addresses and its search.  \<open>PbEncode\<close> models the encoder of
    messages, which reads structures in a byte-addressed memory; \<open>PbEncSpec\<close> says, without the encoder's functions, which items a structure
    holds and how items are encoded, \<open>PbEncValues\<close> and \<open>PbEncProps\<close> show that the encoder writes exactly that.  Its recursion is bounded by a nesting depth,
    the stack; a structure whose items are nested less deep than the bound is encoded.
  \<^item> \<^emph>\<open>BoringSSL byte strings\<close> (\<^verbatim>\<open>crypto/bytestring\<close>).  \<open>Cbs\<close> models the reader \<open>CBS\<close> (\<^verbatim>\<open>cbs.c\<close>), \<open>Cbb\<close> the builder \<open>CBB\<close>
    (\<^verbatim>\<open>cbb.c\<close>), \<open>CbsUnicode\<close> the code point functions (\<^verbatim>\<open>unicode.c\<close>), \<open>Ber\<close> the BER to DER converter (\<^verbatim>\<open>ber.c\<close>).  \<open>Der\<close>
    specifies DER identifiers, lengths, elements and integers; \<open>CbsParse\<close> and \<open>CbsValues\<close> show that the reader accepts exactly
    that language; \<open>CbbBuffer\<close>, \<open>CbbRefine\<close>, \<open>CbbInt\<close> and \<open>CbbOps\<close> show that the builder refines an abstract builder, a chain of byte
    strings with pending length prefixes; \<open>SetOf\<close> shows the in-place sorting of a SET OF, with the comparison function of the code
    as a provider of the interface \<open>three_way\<close>; \<open>BerSpec\<close>, \<open>BerConvert\<close>, \<open>BerSafe\<close> and \<open>BerProps\<close> define BER values as trees and show
    that the converter writes their DER encoding.  \<open>BytestringProps\<close> has the results that span reader and builder.
  \<^item> \<^emph>\<open>BoringSSL base64\<close> (\<^verbatim>\<open>crypto/base64/base64.c\<close>) over the constant-time helpers of \<^verbatim>\<open>crypto/internal.h\<close>: \<open>ConstTime\<close>,
    \<open>Base64\<close>, \<open>Base64Codec\<close>, \<open>Base64Stream\<close>, \<open>Base64Props\<close>.
  \<^item> \<^emph>\<open>BoringSSL containers and strings\<close>: \<open>Stack\<close>, \<open>ThreeWay\<close>, \<open>StackProps\<close> (\<^verbatim>\<open>crypto/stack/stack.c\<close>); \<open>MemStr\<close>, \<open>MemStrProps\<close>
    (\<^verbatim>\<open>crypto/mem.c\<close>, \<^verbatim>\<open>crypto/buf/buf.c\<close>).
  \<^item> \<^emph>\<open>BoringSSL hash tables and buffer pools\<close>.  \<open>Lhash\<close> models the chained hash table (\<^verbatim>\<open>crypto/lhash/lhash.c\<close>); \<open>LhashSpec\<close>
    states what a client's hash and comparison functions must obey (locale \<open>lhash_funcs\<close>) and what the table then promises;
    \<open>LhashProps\<close> shows that it is a finite map.  \<open>Pool\<close> models the reference counts (\<^verbatim>\<open>crypto/refcount_c11.c\<close>) and the pools of shared
    buffers (\<^verbatim>\<open>crypto/pool/pool.c\<close>), whose table holds addresses of live objects: the functions on buffers interpret
    \<open>lhash_funcs\<close> for every memory.  The sections under the lock are the steps of a transition system;
    \<open>PoolSafe\<close> has its invariant and \<open>PoolProps\<close> safety, sharing and freedom from leaks for every interleaving.
  \<^item> \<^emph>\<open>gRPC AVL trees\<close> (\<^verbatim>\<open>src/core/lib/avl/avl.h\<close>): \<open>Avl\<close> models maps and sets, \<open>MapSpec\<close> is the interface of finite maps (locale
    \<open>map_impl\<close>), \<open>AvlProps\<close> interprets it and shows balance.
  \<^item> \<^emph>\<open>gRPC percent encoding\<close> (\<^verbatim>\<open>src/core/lib/slice/percent_encoding.cc\<close>, \<^verbatim>\<open>src/core/lib/gprpp/bitset.h\<close>): \<open>Percent\<close>,
    \<open>PercentProps\<close>.
  \<^item> \<^emph>\<open>gRPC timer heap\<close> (\<^verbatim>\<open>src/core/lib/iomgr/timer_heap.cc\<close>): \<open>TimerHeap\<close> models it with the timers in a store, \<open>HeapOrder\<close> is the
    order of binary heaps in arrays, \<open>TimerProps\<close> shows that the two loops compute its moves, \<open>PrioQueue\<close> is the interface of priority
    queues (locale \<open>prio_queue\<close>), \<open>TimerQueue\<close> interprets it.

  \<^bold>\<open>How the model corresponds to the code.\<close>  A C structure is a record with the same fields; \<open>size_t\<close>, \<open>uint8_t\<close> and the other integer
  types are words of their width, so that sums wrap as in C; a function that changes an object through a pointer returns the
  changed record.  A pointer into memory is the list of the bytes from it on, so that reading more than there is shows up as a
  \<open>Fault\<close>.  A \<open>CBB *\<close> is a position in the chain of open objects that share a buffer.  \<open>OPENSSL_malloc\<close> is the parameter \<open>alloc\<close>,
  which may fail at any call; the theorems hold for every allocator, and those that claim success assume \<open>alloc_total\<close>.  \<open>qsort\<close> is
  an insertion sort with the comparison function of the code; the results only use that it returns a sorted permutation.
  Definitions keep the names of the C functions; a loop has a name of its own next to the function it belongs to.

  \<^bold>\<open>What the theorems show.\<close>  For the parsers: the accepted language is exactly the specified one, what is returned is the value, and no
  input whatever leads to a \<open>Fault\<close>.  For the builders: a simulation of the abstract builder for every allocator, an error is
  final for all operations but one, and what was built is read back.  For the containers: refinements of lists, finite maps and
  priority queues, and the invariants that the searches rest on.  For the buffer pools: safety, sharing and freedom from leaks of a
  transition system whose steps are the locked sections of the code.  Five properties record what the code does where it does not do what its comments say: the overflow check of
  \<open>pb_decode_varint32\<close>, the sorted flag after \<open>sk_set\<close>, the BER that \<open>cbs_find_ber\<close> forgets, the extent of what \<open>CBS_asn1_ber_to_der\<close>
  consumes, and \<open>CBB_did_write\<close> after an error.

  \<^bold>\<open>Fuel and bounds.\<close>  Where the recursion of the code is not structural, termination is proved with a measure; the loops of the BER
  functions and of \<open>CBB_flush_asn1_set_of\<close> take fuel, the number of bytes of the input (plus one), because every
  iteration and every nested call works on a shorter input; that this is enough is part of the theorems, since running out of
  fuel is a \<open>Fault\<close>.  The loops of the timer heap, whose 32-bit indices could wrap, are partial functions; that they return is shown for
  heaps of up to \<open>2 ^ 31\<close> timers.

  \<^bold>\<open>Not modelled.\<close>  The decoder of messages of nanopb (\<open>pb_decode\<close> and its field handlers), which writes C structures by byte
  offsets of generated descriptors and allocates memory; the cryptographic primitives, X.509 and TLS code of BoringSSL; gRPC,
  leveldb, abseil, libuv and Firebase as far as they are not named above; the Swift application; generated tables and test
  data.
\<close>

end
